(* ===== verification/Prelude.thy ===== *)
theory Prelude
  imports Main
begin

text \<open>
  Shared automation and generic lemmas.  Every component theory imports this one (directly or
  through the string library).  The two collections below are filled by the theories that own the
  facts: \<open>str_simps\<close> holds rewriting rules of the byte-string library, \<open>eat_simps\<close> holds the
  definitions of single parser steps, so that one unfolding of a parser is \<open>simp add: eat_simps\<close>.
\<close>

named_theorems str_simps "rewriting rules of the byte-string library"
named_theorems eat_simps "definitions of single parser steps"

section \<open>Lists\<close>

lemma take_eq_self_iff: "take n xs = xs \<longleftrightarrow> length xs \<le> n"
  by (metis length_take min.absorb_iff2 nat_le_linear take_all)

lemma append_take_eq: "take (length p) s = p \<longleftrightarrow> (\<exists>r. s = p @ r)"
proof
  assume "take (length p) s = p"
  then show "\<exists>r. s = p @ r" by (metis append_take_drop_id)
qed auto

lemma append_drop_eq:
  "length p \<le> length s \<and> drop (length s - length p) s = p \<longleftrightarrow> (\<exists>r. s = r @ p)"
proof
  assume "length p \<le> length s \<and> drop (length s - length p) s = p"
  then show "\<exists>r. s = r @ p" by (metis append_take_drop_id)
qed auto

lemma append_eq_append_cases:
  assumes "a @ b = c @ d"
  obtains (left) u where "a = c @ u" "d = u @ b" | (right) u where "c = a @ u" "b = u @ d" "u \<noteq> []"
proof -
  from assms consider "\<exists>u. a = c @ u \<and> u @ b = d" | "\<exists>u. a @ u = c \<and> b = u @ d"
    by (auto simp: append_eq_append_conv2)
  then show thesis
  proof cases
    case 1
    then show thesis using left by blast
  next
    case 2
    then obtain u where u: "a @ u = c" "b = u @ d" by blast
    show thesis
    proof (cases "u = []")
      case True
      with u show thesis using left [of "[]"] by simp
    next
      case False
      with u show thesis using right [of u] by simp
    qed
  qed
qed

lemma append_eq_longer: "a @ b = c @ d \<Longrightarrow> length a \<le> length c \<Longrightarrow> \<exists>u. c = a @ u \<and> b = u @ d"
  by (auto simp: append_eq_append_conv2)

lemma list_cases4:
  obtains (0) "xs = []" | (1) a where "xs = [a]" | (2) a b where "xs = [a, b]"
    | (3) a b c where "xs = [a, b, c]" | (4) a b c d r where "xs = a # b # c # d # r"
  by (metis neq_Nil_conv)

section \<open>Options\<close>

lemma map_option_eq_Some: "map_option f x = Some y \<longleftrightarrow> (\<exists>z. x = Some z \<and> f z = y)"
  by (cases x) auto

end
