(* ===== verification/GoUtf8.thy ===== *)
theory GoUtf8
  imports Prelude
begin

text \<open>
  What the program uses of Go's packages \<open>unicode/utf8\<close> and \<open>unicode\<close>: decoding a
  rune at the front or at the back of a byte string, the white-space predicate, and the validity
  of an encoding.  A Go string is a list of bytes, here a \<^typ>\<open>string\<close>.

  \<open>rune_len s\<close> is the number of bytes of the well-formed encoding \<open>s\<close> starts with, and 0
  when it starts with none (then \<open>utf8.DecodeRuneInString\<close> answers \<open>RuneError\<close>, width 1).
  The ranges of the second byte are those of Go's table \<open>acceptRanges\<close>.
\<close>

section \<open>Decoding one rune\<close>

definition cont_byte :: "nat \<Rightarrow> bool" where
  "cont_byte b \<longleftrightarrow> 128 \<le> b \<and> b \<le> 191"

definition second_ok :: "nat \<Rightarrow> nat \<Rightarrow> bool" where
  "second_ok b0 b1 \<longleftrightarrow>
     (if b0 = 224 then 160 \<le> b1 \<and> b1 \<le> 191
      else if b0 = 237 then 128 \<le> b1 \<and> b1 \<le> 159
      else if b0 = 240 then 144 \<le> b1 \<and> b1 \<le> 191
      else if b0 = 244 then 128 \<le> b1 \<and> b1 \<le> 143
      else cont_byte b1)"

definition rune_len_bytes :: "nat list \<Rightarrow> nat" where
  "rune_len_bytes bs =
     (case bs of
        [] \<Rightarrow> 0
      | b0 # r \<Rightarrow>
          if b0 < 128 then 1
          else if 194 \<le> b0 \<and> b0 \<le> 223 then
            (case r of b1 # _ \<Rightarrow> if second_ok b0 b1 then 2 else 0 | [] \<Rightarrow> 0)
          else if 224 \<le> b0 \<and> b0 \<le> 239 then
            (case r of b1 # b2 # _ \<Rightarrow> if second_ok b0 b1 \<and> cont_byte b2 then 3 else 0 | _ \<Rightarrow> 0)
          else if 240 \<le> b0 \<and> b0 \<le> 244 then
            (case r of b1 # b2 # b3 # _ \<Rightarrow>
               if second_ok b0 b1 \<and> cont_byte b2 \<and> cont_byte b3 then 4 else 0 | _ \<Rightarrow> 0)
          else 0)"

definition rune_value_bytes :: "nat list \<Rightarrow> nat" where
  "rune_value_bytes bs =
     (case bs of
        [b0] \<Rightarrow> b0
      | [b0, b1] \<Rightarrow> (b0 - 192) * 64 + (b1 - 128)
      | [b0, b1, b2] \<Rightarrow> (b0 - 224) * 4096 + (b1 - 128) * 64 + (b2 - 128)
      | [b0, b1, b2, b3] \<Rightarrow> (b0 - 240) * 262144 + (b1 - 128) * 4096 + (b2 - 128) * 64 + (b3 - 128)
      | _ \<Rightarrow> 65533)"

abbreviation bytes :: "string \<Rightarrow> nat list" where
  "bytes s \<equiv> map of_char s"

definition rune_len :: "string \<Rightarrow> nat" where
  "rune_len s = rune_len_bytes (bytes (take 4 s))"

definition rune_error :: nat where
  "rune_error = 65533"

text \<open>\<open>utf8.DecodeRuneInString\<close>: the rune and its width.\<close>

definition decode_rune :: "string \<Rightarrow> nat \<times> nat" where
  "decode_rune s =
     (if s = [] then (rune_error, 0)
      else let n = rune_len s
           in if n = 0 then (rune_error, 1) else (rune_value_bytes (bytes (take n s)), n))"

text \<open>
  \<open>utf8.DecodeLastRuneInString\<close> walks back over at most three continuation bytes to a byte that
  can start a rune and decodes there; the answer is that rune when its encoding ends the string,
  and \<open>(RuneError, 1)\<close> otherwise.  The candidate widths are tried in the order of the walk.
\<close>

definition decode_last_rune :: "string \<Rightarrow> nat \<times> nat" where
  "decode_last_rune s =
     (if s = [] then (rune_error, 0)
      else case List.find (\<lambda>n. n \<le> length s \<and> rune_len (drop (length s - n) s) = n) [1, 2, 3, 4] of
             None \<Rightarrow> (rune_error, 1)
           | Some n \<Rightarrow> (rune_value_bytes (bytes (drop (length s - n) s)), n))"

text \<open>\<open>unicode.IsSpace\<close>: the Latin-1 cases of its switch and the table \<open>White_Space\<close>.\<close>

definition is_space :: "nat \<Rightarrow> bool" where
  "is_space r \<longleftrightarrow>
     9 \<le> r \<and> r \<le> 13 \<or> r = 32 \<or> r = 133 \<or> r = 160 \<or> r = 5760 \<or> 8192 \<le> r \<and> r \<le> 8202 \<or>
     r = 8232 \<or> r = 8233 \<or> r = 8239 \<or> r = 8287 \<or> r = 12288"

lemma not_space_rune_error [simp]: "\<not> is_space rune_error"
  by (simp add: is_space_def rune_error_def)

section \<open>Facts about widths\<close>

lemma rune_len_bytes_le: "rune_len_bytes bs \<le> length bs \<and> rune_len_bytes bs \<le> 4"
  by (auto simp: rune_len_bytes_def split: list.splits)

lemma rune_len_le: "rune_len s \<le> length s" and rune_len_le_4: "rune_len s \<le> 4"
  using rune_len_bytes_le [of "bytes (take 4 s)"] by (auto simp: rune_len_def)

lemma rune_len_Nil [simp]: "rune_len [] = 0"
  by (simp add: rune_len_def rune_len_bytes_def)

lemma rune_len_bytes_append:
  "0 < rune_len_bytes bs \<Longrightarrow> rune_len_bytes (bs @ cs) = rune_len_bytes bs"
  by (cases bs rule: list_cases4) (simp_all add: rune_len_bytes_def split: if_splits)

lemma rune_len_bytes_take:
  "0 < rune_len_bytes bs \<Longrightarrow> rune_len_bytes (take (rune_len_bytes bs) bs) = rune_len_bytes bs"
  by (cases bs rule: list_cases4) (simp_all add: rune_len_bytes_def split: if_splits)

lemma rune_len_append: "0 < rune_len s \<Longrightarrow> rune_len (s @ t) = rune_len s"
  using rune_len_bytes_append [of "bytes (take 4 s)" "bytes (take (4 - length s) t)"]
  by (simp add: rune_len_def)

lemma rune_len_take:
  assumes "0 < rune_len s"
  shows "rune_len (take (rune_len s) s) = rune_len s"
proof -
  have "take (rune_len s) (take 4 s) = take (rune_len s) s"
    using rune_len_le_4 [of s] by (simp add: min_absorb1)
  then show ?thesis
    using rune_len_bytes_take [of "bytes (take 4 s)"] assms rune_len_le_4 [of s]
    by (simp add: rune_len_def take_map min_absorb2)
qed

definition is_enc :: "string \<Rightarrow> bool" where
  "is_enc r \<longleftrightarrow> r \<noteq> [] \<and> rune_len r = length r"

lemma is_enc_take: "0 < rune_len s \<Longrightarrow> is_enc (take (rune_len s) s)"
  using rune_len_take [of s] rune_len_le [of s] by (auto simp: is_enc_def)

lemma is_enc_append: "is_enc r \<Longrightarrow> rune_len (r @ t) = length r"
  by (simp add: is_enc_def rune_len_append)

lemma is_enc_length: "is_enc r \<Longrightarrow> 0 < length r \<and> length r \<le> 4"
  using rune_len_le_4 [of r] by (auto simp: is_enc_def)

text \<open>The bytes of an encoding after the first one are continuation bytes, its only
  ASCII byte can be the first one, and no proper suffix of it starts with an encoding.\<close>

lemma second_ok_cont: "second_ok b0 b1 \<Longrightarrow> cont_byte b1"
  by (auto simp: second_ok_def cont_byte_def split: if_splits)

lemma rune_len_bytes_tl_cont:
  "rune_len_bytes bs = length bs \<Longrightarrow> bs \<noteq> [] \<Longrightarrow> b \<in> set (tl bs) \<Longrightarrow> cont_byte b"
  by (auto simp: rune_len_bytes_def split: list.splits if_splits dest: second_ok_cont)

lemma is_enc_bytes: "is_enc r \<Longrightarrow> rune_len_bytes (bytes r) = length (bytes r) \<and> bytes r \<noteq> []"
  using is_enc_length [of r] by (auto simp: is_enc_def rune_len_def)

lemma is_enc_tl_cont: "is_enc r \<Longrightarrow> c \<in> set (tl r) \<Longrightarrow> cont_byte (of_char c)"
  using rune_len_bytes_tl_cont [of "bytes r" "of_char c"] is_enc_bytes [of r]
  by (auto simp: map_tl [symmetric])

lemma rune_len_cont: "cont_byte (of_char c) \<Longrightarrow> rune_len (c # s) = 0"
  by (auto simp: rune_len_def rune_len_bytes_def cont_byte_def)

lemma rune_len_ascii: "of_char c < (128 :: nat) \<Longrightarrow> rune_len (c # s) = 1"
  by (simp add: rune_len_def rune_len_bytes_def)

lemma is_enc_ascii: "of_char c < (128 :: nat) \<Longrightarrow> is_enc [c]"
  by (simp add: is_enc_def rune_len_ascii)

lemma is_enc_ascii_head: "is_enc (c # r) \<Longrightarrow> of_char c < (128 :: nat) \<Longrightarrow> r = []"
  by (simp add: is_enc_def rune_len_ascii)

lemma decode_rune_enc: "is_enc r \<Longrightarrow> decode_rune (r @ t) = (rune_value_bytes (bytes r), length r)"
  by (auto simp: decode_rune_def is_enc_append Let_def) (auto simp: is_enc_def)

lemma decode_rune_size: "s \<noteq> [] \<Longrightarrow> 0 < snd (decode_rune s) \<and> snd (decode_rune s) \<le> length s"
  using rune_len_le [of s] by (auto simp: decode_rune_def Let_def Suc_le_eq)

lemma decode_last_rune_size:
  "s \<noteq> [] \<Longrightarrow> 0 < snd (decode_last_rune s) \<and> snd (decode_last_rune s) \<le> length s"
  by (auto simp: decode_last_rune_def Suc_le_eq find_Some_iff split: option.splits)

lemma decode_last_rune_enc:
  assumes r: "is_enc r"
  shows "decode_last_rune (s @ r) = (rune_value_bytes (bytes r), length r)"
proof -
  define P where "P = (\<lambda>n. n \<le> length (s @ r) \<and> rune_len (drop (length (s @ r) - n) (s @ r)) = n)"
  have no: "\<not> P n" if n: "0 < n" "n < length r" for n
  proof -
    from n have d: "drop (length (s @ r) - n) (s @ r) = drop (length r - n) r"
      by simp
    from n obtain c t where ct: "drop (length r - n) r = c # t"
      by (metis Cons_nth_drop_Suc diff_less length_greater_0_conv list.size(3) not_less_zero)
    have "c \<in> set (tl r)"
    proof -
      have "drop (length r - n) r = drop (length r - n - 1) (tl r)"
        using n by (simp add: drop_Suc [symmetric] Suc_diff_Suc)
      with ct show ?thesis by (metis in_set_dropD list.set_intros(1))
    qed
    with r have "rune_len (c # t) = 0" by (auto intro: rune_len_cont is_enc_tl_cont)
    with d ct n show ?thesis by (simp add: P_def)
  qed
  have yes: "P (length r)" using r by (simp add: is_enc_def P_def)
  have "length r = 1 \<or> length r = 2 \<or> length r = 3 \<or> length r = 4"
    using is_enc_length [OF r] by arith
  then have "List.find P [1, 2, 3, 4] = Some (length r)"
    using no yes by (elim disjE) simp_all
  moreover have "s @ r \<noteq> []" using r by (auto simp: is_enc_def)
  moreover have "drop (length (s @ r) - length r) (s @ r) = r" by simp
  ultimately show ?thesis unfolding decode_last_rune_def P_def by (simp only: if_False option.case)
qed

section \<open>Valid encodings\<close>

text \<open>\<open>utf8.ValidString\<close>.\<close>

function valid_utf8 :: "string \<Rightarrow> bool" where
  "valid_utf8 s =
     (if s = [] then True
      else if rune_len s = 0 then False
      else valid_utf8 (drop (rune_len s) s))"
  by pat_completeness auto
termination
  by (relation "measure length") (auto intro: diff_less)

declare valid_utf8.simps [simp del]

lemma valid_utf8_Nil [simp]: "valid_utf8 []"
  by (subst valid_utf8.simps) simp

lemma valid_utf8_enc_append [simp]: "is_enc r \<Longrightarrow> valid_utf8 (r @ s) = valid_utf8 s"
  by (subst valid_utf8.simps) (auto simp: is_enc_append, auto simp: is_enc_def)

lemma valid_utf8_induct [consumes 1, case_names Nil Enc]:
  assumes "valid_utf8 s" and "P []"
    and "\<And>r s. is_enc r \<Longrightarrow> valid_utf8 s \<Longrightarrow> P s \<Longrightarrow> P (r @ s)"
  shows "P s"
  using assms(1)
proof (induction s rule: valid_utf8.induct)
  case (1 s)
  show ?case
  proof (cases "s = []")
    case True
    with assms(2) show ?thesis by simp
  next
    case False
    with "1.prems" have len: "0 < rune_len s" and v: "valid_utf8 (drop (rune_len s) s)"
      by (auto simp: valid_utf8.simps [of s] split: if_splits)
    have "P (take (rune_len s) s @ drop (rune_len s) s)"
      using len v False by (intro assms(3) is_enc_take "1.IH") auto
    then show ?thesis by simp
  qed
qed

lemma valid_utf8_append [simp]: "valid_utf8 s \<Longrightarrow> valid_utf8 (s @ t) = valid_utf8 t"
  by (induction rule: valid_utf8_induct) auto

lemma valid_utf8_enc: "is_enc r \<Longrightarrow> valid_utf8 r"
  using valid_utf8_enc_append [of r "[]"] by simp

lemma valid_utf8_concat: "(\<And>s. s \<in> set ss \<Longrightarrow> valid_utf8 s) \<Longrightarrow> valid_utf8 (concat ss)"
  by (induction ss) auto

lemma valid_utf8_cases:
  assumes "valid_utf8 s"
  obtains (Nil) "s = []" | (Enc) r t where "s = r @ t" "is_enc r" "valid_utf8 t"
  using assms by (induction rule: valid_utf8_induct) auto

lemma valid_utf8_rev_cases:
  assumes "valid_utf8 s"
  obtains (Nil) "s = []" | (Enc) r t where "s = t @ r" "is_enc r" "valid_utf8 t"
proof -
  from assms have "s = [] \<or> (\<exists>t r. s = t @ r \<and> is_enc r \<and> valid_utf8 t)"
  proof (induction rule: valid_utf8_induct)
    case Nil
    then show ?case by simp
  next
    case (Enc r s)
    then show ?case
    proof (cases "s = []")
      case True
      with Enc show ?thesis by (intro disjI2 exI [of _ "[]"] exI [of _ r]) auto
    next
      case False
      with Enc obtain t u where "s = t @ u" "is_enc u" "valid_utf8 t" by auto
      with Enc show ?thesis by (intro disjI2 exI [of _ "r @ t"] exI [of _ u]) auto
    qed
  qed
  with Nil Enc show thesis by blast
qed

text \<open>A valid string can be cut in front of any byte that is not a continuation byte.\<close>

lemma valid_utf8_split_lead:
  assumes "valid_utf8 s" and "s = a @ c # b" and "\<not> cont_byte (of_char c)"
  shows "valid_utf8 a \<and> valid_utf8 (c # b)"
  using assms
proof (induction s arbitrary: a rule: valid_utf8_induct)
  case Nil
  then show ?case by simp
next
  case (Enc r s)
  from Enc.prems(1) show ?case
  proof (cases rule: append_eq_append_cases)
    case (left u)
    show ?thesis
    proof (cases u)
      case Nil
      with left Enc show ?thesis by (auto simp: valid_utf8_enc)
    next
      case (Cons d v)
      with left have r: "r = a @ c # v" by simp
      show ?thesis
      proof (cases a)
        case Nil
        with Enc left show ?thesis by (metis append_Nil valid_utf8_Nil valid_utf8_enc_append)
      next
        case (Cons x xs)
        with r have "c \<in> set (tl r)" by simp
        with Enc have "cont_byte (of_char c)" by (auto intro: is_enc_tl_cont)
        with Enc.prems(2) show ?thesis by simp
      qed
    qed
  next
    case (right u)
    with Enc.IH [of u] Enc.prems Enc.hyps show ?thesis by auto
  qed
qed

lemma valid_utf8_lead: "valid_utf8 (c # s) \<Longrightarrow> \<not> cont_byte (of_char c)"
  by (subst (asm) valid_utf8.simps) (auto simp: rune_len_cont split: if_splits)

lemma valid_utf8_ascii: "(\<And>c. c \<in> set s \<Longrightarrow> of_char c < (128 :: nat)) \<Longrightarrow> valid_utf8 s"
proof (induction s)
  case (Cons c s)
  then have "is_enc [c]" and "valid_utf8 s" by (auto intro: is_enc_ascii)
  then show ?case using valid_utf8_enc_append [of "[c]" s] by simp
qed simp

lemma valid_utf8_asciiI: "list_all (\<lambda>c. of_char c < (128 :: nat)) s \<Longrightarrow> valid_utf8 s"
  by (rule valid_utf8_ascii) (simp add: list_all_iff)

section \<open>Trimming white space\<close>

text \<open>\<open>strings.TrimLeftFunc(s, unicode.IsSpace)\<close> and its mirror image
  \<open>strings.TrimRightFunc(s, unicode.IsSpace)\<close>, which decode runes from the front and from
  the back; \<open>strings.TrimSpace\<close> is both.\<close>

function trim_left :: "string \<Rightarrow> string" where
  "trim_left s =
     (if s \<noteq> [] \<and> is_space (fst (decode_rune s)) then trim_left (drop (snd (decode_rune s)) s) else s)"
  by pat_completeness auto
termination
  by (relation "measure length") (auto dest: decode_rune_size)

function trim_right :: "string \<Rightarrow> string" where
  "trim_right s =
     (if s \<noteq> [] \<and> is_space (fst (decode_last_rune s))
      then trim_right (take (length s - snd (decode_last_rune s)) s) else s)"
  by pat_completeness auto
termination
  by (relation "measure length") (auto dest: decode_last_rune_size)

definition trim_space :: "string \<Rightarrow> string" where
  "trim_space s = trim_left (trim_right s)"

declare trim_left.simps [simp del] trim_right.simps [simp del]

lemma trim_left_Nil [simp]: "trim_left [] = []"
  by (subst trim_left.simps) simp

lemma trim_right_Nil [simp]: "trim_right [] = []"
  by (subst trim_right.simps) simp

lemma trim_left_enc:
  "is_enc r \<Longrightarrow> trim_left (r @ s) = (if is_space (rune_value_bytes (bytes r)) then trim_left s else r @ s)"
  by (subst trim_left.simps) (auto simp: decode_rune_enc is_enc_def)

lemma trim_right_enc:
  "is_enc r \<Longrightarrow> trim_right (s @ r) = (if is_space (rune_value_bytes (bytes r)) then trim_right s else s @ r)"
  by (subst trim_right.simps) (auto simp: decode_last_rune_enc is_enc_def)

text \<open>Evaluation on concrete ASCII texts.\<close>

lemma trim_left_ascii [str_simps]:
  "of_char c < (128 :: nat) \<Longrightarrow> trim_left (c # s) = (if is_space (of_char c) then trim_left s else c # s)"
  using trim_left_enc [OF is_enc_ascii, of c s] by (simp add: rune_value_bytes_def)

lemma trim_right_ascii [str_simps]:
  assumes "s \<noteq> []" "of_char (last s) < (128 :: nat)"
  shows "trim_right s = (if is_space (of_char (last s)) then trim_right (butlast s) else s)"
proof -
  have "s = butlast s @ [last s]" using assms(1) by simp
  then show ?thesis
    using trim_right_enc [OF is_enc_ascii [OF assms(2)], of "butlast s"] by (simp add: rune_value_bytes_def)
qed

lemma trim_left_append:
  "valid_utf8 a \<Longrightarrow> trim_left (a @ b) = (if trim_left a = [] then trim_left b else trim_left a @ b)"
  by (induction rule: valid_utf8_induct) (auto simp: trim_left_enc is_enc_def)

lemma trim_left_valid: "valid_utf8 a \<Longrightarrow> valid_utf8 (trim_left a)"
  by (induction rule: valid_utf8_induct) (auto simp: trim_left_enc)

lemma trim_left_suffix: "\<exists>w. s = w @ trim_left s"
proof (induction s rule: trim_left.induct)
  case (1 s)
  show ?case
  proof (cases "s \<noteq> [] \<and> is_space (fst (decode_rune s))")
    case True
    let ?n = "snd (decode_rune s)"
    obtain w where w: "drop ?n s = w @ trim_left (drop ?n s)" using "1.IH" True by auto
    have "trim_left s = trim_left (drop ?n s)" using True by (subst trim_left.simps) simp
    then have "s = (take ?n s @ w) @ trim_left s" using w by (simp flip: w)
    then show ?thesis by blast
  next
    case False
    then show ?thesis by (subst trim_left.simps) auto
  qed
qed

lemma trim_left_idem [simp]: "trim_left (trim_left s) = trim_left s"
proof (induction s rule: trim_left.induct)
  case (1 s)
  show ?case
  proof (cases "s \<noteq> [] \<and> is_space (fst (decode_rune s))")
    case True
    then have "trim_left s = trim_left (drop (snd (decode_rune s)) s)"
      by (subst trim_left.simps) simp
    with "1.IH" True show ?thesis by simp
  next
    case False
    then have "trim_left s = s" by (subst trim_left.simps) auto
    then show ?thesis by simp
  qed
qed

lemma length_trim_left: "length (trim_left s) \<le> length s"
  using trim_left_suffix [of s] by (metis length_append le_add2)

lemma trim_right_prefix: "\<exists>w. s = trim_right s @ w"
proof (induction s rule: trim_right.induct)
  case (1 s)
  show ?case
  proof (cases "s \<noteq> [] \<and> is_space (fst (decode_last_rune s))")
    case True
    let ?n = "length s - snd (decode_last_rune s)"
    obtain w where w: "take ?n s = trim_right (take ?n s) @ w" using "1.IH" True by auto
    have "trim_right s = trim_right (take ?n s)" using True by (subst trim_right.simps) simp
    then have "s = trim_right s @ (w @ drop ?n s)"
      using w append_take_drop_id [of ?n s] by (metis append.assoc)
    then show ?thesis by blast
  next
    case False
    then show ?thesis by (subst trim_right.simps) auto
  qed
qed

lemma length_trim_right: "length (trim_right s) \<le> length s"
  using trim_right_prefix [of s] by (metis length_append le_add1)

lemma valid_utf8_rev_induct [consumes 1, case_names Nil Enc]:
  assumes "valid_utf8 s" and "P []"
    and "\<And>r s. is_enc r \<Longrightarrow> valid_utf8 s \<Longrightarrow> P s \<Longrightarrow> P (s @ r)"
  shows "P s"
  using assms(1)
proof (induction s rule: length_induct)
  case (1 s)
  from "1.prems" show ?case
  proof (cases rule: valid_utf8_rev_cases)
    case Nil
    with assms(2) show ?thesis by simp
  next
    case (Enc r t)
    then have "length t < length s" by (auto simp: is_enc_def)
    with "1.IH" Enc have "P t" by blast
    with Enc assms(3) show ?thesis by blast
  qed
qed

lemma trim_right_append:
  "valid_utf8 b \<Longrightarrow> trim_right (a @ b) = (if trim_right b = [] then trim_right a else a @ trim_right b)"
proof (induction rule: valid_utf8_rev_induct)
  case (Enc r s)
  then show ?case
    using trim_right_enc [of r "a @ s"] trim_right_enc [of r s] by (auto simp: is_enc_def)
qed simp

text \<open>A valid string splits at its trimmed part into valid strings, the rest being white space.\<close>

lemma trim_right_split:
  assumes "valid_utf8 s"
  obtains w where "s = trim_right s @ w" "valid_utf8 (trim_right s)" "valid_utf8 w" "trim_right w = []"
proof -
  from assms have "\<exists>w. s = trim_right s @ w \<and> valid_utf8 (trim_right s) \<and> valid_utf8 w \<and> trim_right w = []"
  proof (induction rule: valid_utf8_rev_induct)
    case Nil
    then show ?case by simp
  next
    case (Enc r s)
    then obtain w where w: "s = trim_right s @ w" "valid_utf8 (trim_right s)" "valid_utf8 w" "trim_right w = []"
      by blast
    show ?case
    proof (cases "is_space (rune_value_bytes (bytes r))")
      case True
      have "trim_right (w @ r) = []" using Enc w True by (simp add: trim_right_enc)
      with Enc w True show ?thesis
        by (intro exI [of _ "w @ r"]) (auto simp: trim_right_enc valid_utf8_enc)
    next
      case False
      with Enc show ?thesis by (intro exI [of _ "[]"]) (auto simp: trim_right_enc valid_utf8_enc)
    qed
  qed
  with that show thesis by blast
qed

lemma trim_right_valid: "valid_utf8 s \<Longrightarrow> valid_utf8 (trim_right s)"
  by (erule trim_right_split)

lemma trim_right_idem: "valid_utf8 s \<Longrightarrow> trim_right (trim_right s) = trim_right s"
proof (induction rule: valid_utf8_rev_induct)
  case (Enc r s)
  then show ?case by (simp add: trim_right_enc)
qed simp

text \<open>A string of white space is trimmed away from both ends alike.\<close>

lemma trim_left_Nil_iff_right: "valid_utf8 s \<Longrightarrow> trim_left s = [] \<longleftrightarrow> trim_right s = []"
proof (induction rule: valid_utf8_rev_induct)
  case (Enc r s)
  then show ?case
    using trim_left_append [of s r] trim_left_enc [of r "[]"]
    by (auto simp: trim_right_enc is_enc_def)
qed simp

section \<open>Fields\<close>

text \<open>\<open>strings.IndexFunc(s, unicode.IsSpace)\<close>, with the length of \<open>s\<close> for -1.\<close>

function space_index :: "string \<Rightarrow> nat" where
  "space_index s =
     (if s = [] then 0
      else if is_space (fst (decode_rune s)) then 0
      else snd (decode_rune s) + space_index (drop (snd (decode_rune s)) s))"
  by pat_completeness auto
termination
  by (relation "measure length") (auto dest: decode_rune_size)

declare space_index.simps [simp del]

lemma space_index_le: "space_index s \<le> length s"
proof (induction s rule: space_index.induct)
  case (1 s)
  then show ?case
    using decode_rune_size [of s] by (subst space_index.simps) auto
qed

lemma trim_left_not_space: "trim_left s \<noteq> [] \<Longrightarrow> \<not> is_space (fst (decode_rune (trim_left s)))"
proof (induction s rule: trim_left.induct)
  case (1 s)
  show ?case
  proof (cases "s \<noteq> [] \<and> is_space (fst (decode_rune s))")
    case True
    then have "trim_left s = trim_left (drop (snd (decode_rune s)) s)" by (subst trim_left.simps) simp
    with "1.IH" True "1.prems" show ?thesis by simp
  next
    case False
    then have "trim_left s = s" by (subst trim_left.simps) auto
    with False "1.prems" show ?thesis by auto
  qed
qed

lemma space_index_pos: "trim_left s \<noteq> [] \<Longrightarrow> 0 < space_index (trim_left s)"
  using trim_left_not_space [of s] decode_rune_size [of "trim_left s"]
  by (subst space_index.simps) auto

text \<open>\<open>strings.Fields\<close>.\<close>

function go_fields :: "string \<Rightarrow> string list" where
  "go_fields s =
     (let t = trim_left s
      in if t = [] then [] else take (space_index t) t # go_fields (drop (space_index t) t))"
  by pat_completeness auto
termination
proof (relation "measure length")
  fix s t :: string
  assume "t = trim_left s" "t \<noteq> []"
  then show "(drop (space_index t) t, s) \<in> measure length"
    using space_index_pos [of s] length_trim_left [of s]
    by (auto intro: diff_less order.strict_trans2)
qed auto

declare go_fields.simps [simp del]

section \<open>Encoding one rune\<close>

text \<open>\<open>utf8.AppendRune\<close>; surrogates and values beyond U+10FFFF are encoded as \<open>RuneError\<close>.\<close>

definition valid_rune :: "nat \<Rightarrow> bool" where
  "valid_rune r \<longleftrightarrow> r < 55296 \<or> 57343 < r \<and> r \<le> 1114111"

definition encode_rune_bytes :: "nat \<Rightarrow> nat list" where
  "encode_rune_bytes r =
     (if r < 128 then [r]
      else if r < 2048 then [192 + r div 64, 128 + r mod 64]
      else if \<not> valid_rune r then [239, 191, 189]
      else if r < 65536 then [224 + r div 4096, 128 + r div 64 mod 64, 128 + r mod 64]
      else [240 + r div 262144, 128 + r div 4096 mod 64, 128 + r div 64 mod 64, 128 + r mod 64])"

definition encode_rune :: "nat \<Rightarrow> string" where
  "encode_rune r = map char_of (encode_rune_bytes r)"

text \<open>\<open>strings.Map\<close>: a rune mapped to nothing is dropped.\<close>

function map_runes :: "(nat \<Rightarrow> nat option) \<Rightarrow> string \<Rightarrow> string" where
  "map_runes f s =
     (if s = [] then []
      else (case f (fst (decode_rune s)) of None \<Rightarrow> [] | Some r \<Rightarrow> encode_rune r) @
             map_runes f (drop (snd (decode_rune s)) s))"
  by pat_completeness auto
termination
  by (relation "measure (\<lambda>(f, s). length s)") (auto dest: decode_rune_size)

declare map_runes.simps [simp del]

lemma encode_rune_bytes_256: "b \<in> set (encode_rune_bytes r) \<Longrightarrow> b < 256"
  by (auto simp: encode_rune_bytes_def valid_rune_def split: if_splits)

lemma encode_rune_ascii: "c \<in> set (encode_rune r) \<Longrightarrow> of_char c < (128 :: nat) \<Longrightarrow> r = of_char c"
  by (auto simp: encode_rune_def encode_rune_bytes_def valid_rune_def split: if_splits)

lemma bytes_encode_rune: "bytes (encode_rune r) = encode_rune_bytes r"
  using encode_rune_bytes_256 [of _ r] by (auto simp: encode_rune_def intro!: map_idI)

text \<open>The lead and the continuation bytes are in the ranges of the decoder; \<open>a\<close>, \<open>b\<close>, ... are the
  digits of the rune in base 64.\<close>

lemma rune_len_2: "2 \<le> a \<Longrightarrow> a < 32 \<Longrightarrow> b < 64 \<Longrightarrow> rune_len_bytes [192 + a, 128 + b] = 2"
  by (simp add: rune_len_bytes_def second_ok_def cont_byte_def)

lemma rune_len_3:
  "a < 16 \<Longrightarrow> b < 64 \<Longrightarrow> c < 64 \<Longrightarrow> (a = 0 \<Longrightarrow> 32 \<le> b) \<Longrightarrow> (a = 13 \<Longrightarrow> b < 32) \<Longrightarrow>
   rune_len_bytes [224 + a, 128 + b, 128 + c] = 3"
  by (auto simp: rune_len_bytes_def second_ok_def cont_byte_def)

lemma rune_len_4:
  "a < 5 \<Longrightarrow> b < 64 \<Longrightarrow> c < 64 \<Longrightarrow> d < 64 \<Longrightarrow> (a = 0 \<Longrightarrow> 16 \<le> b) \<Longrightarrow> (a = 4 \<Longrightarrow> b < 16) \<Longrightarrow>
   rune_len_bytes [240 + a, 128 + b, 128 + c, 128 + d] = 4"
  by (auto simp: rune_len_bytes_def second_ok_def cont_byte_def)

lemma base_64:
  fixes r :: nat
  obtains q a b c where "r = ((q * 64 + a) * 64 + b) * 64 + c" "a < 64" "b < 64" "c < 64"
    "r div 64 = (q * 64 + a) * 64 + b" "r div 4096 = q * 64 + a" "r div 262144 = q"
    "r mod 64 = c" "r div 64 mod 64 = b" "r div 4096 mod 64 = a"
proof (rule that)
  have "r div 4096 = r div 64 div 64" "r div 262144 = r div 64 div 64 div 64"
    by (simp_all flip: div_mult2_eq)
  then show "r = ((r div 262144 * 64 + r div 4096 mod 64) * 64 + r div 64 mod 64) * 64 + r mod 64"
    "r div 64 = (r div 262144 * 64 + r div 4096 mod 64) * 64 + r div 64 mod 64"
    "r div 4096 = r div 262144 * 64 + r div 4096 mod 64"
    by (simp_all only: div_mult_mod_eq)
qed simp_all

lemma rune_len_encode: "rune_len_bytes (encode_rune_bytes r) = length (encode_rune_bytes r)"
proof -
  obtain q a b c where r: "r = ((q * 64 + a) * 64 + b) * 64 + c" "a < 64" "b < 64" "c < 64"
    and d1: "r div 64 = (q * 64 + a) * 64 + b" and d: "r div 4096 = q * 64 + a" "r div 262144 = q"
    "r mod 64 = c" "r div 64 mod 64 = b" "r div 4096 mod 64 = a"
    by (rule base_64)
  consider "r < 128" | "128 \<le> r" "r < 2048" | "2048 \<le> r" "\<not> valid_rune r"
    | "2048 \<le> r" "valid_rune r" "r < 65536" | "65536 \<le> r" "valid_rune r" by linarith
  then show ?thesis
  proof cases
    case 1
    then show ?thesis by (simp add: encode_rune_bytes_def rune_len_bytes_def)
  next
    case 2
    then have "encode_rune_bytes r = [192 + ((q * 64 + a) * 64 + b), 128 + c]"
      by (simp add: encode_rune_bytes_def d d1)
    then show ?thesis using 2 r by (simp add: rune_len_2)
  next
    case 3
    then have "encode_rune_bytes r = [239, 191, 189]" by (simp add: encode_rune_bytes_def)
    then show ?thesis using rune_len_3 [of 15 63 61] by simp
  next
    case 4
    then have "encode_rune_bytes r = [224 + (q * 64 + a), 128 + b, 128 + c]"
      by (simp add: encode_rune_bytes_def d)
    moreover have "rune_len_bytes [224 + (q * 64 + a), 128 + b, 128 + c] = 3"
      using 4 r by (intro rune_len_3) (auto simp: valid_rune_def)
    ultimately show ?thesis by simp
  next
    case 5
    with r(2) have "encode_rune_bytes r = [240 + q, 128 + a, 128 + b, 128 + c]"
      by (simp add: encode_rune_bytes_def d)
    moreover have "rune_len_bytes [240 + q, 128 + a, 128 + b, 128 + c] = 4"
      using 5 r by (intro rune_len_4) (auto simp: valid_rune_def)
    ultimately show ?thesis by simp
  qed
qed

lemma is_enc_encode: "is_enc (encode_rune r)"
proof -
  have "length (encode_rune_bytes r) \<le> 4" "encode_rune_bytes r \<noteq> []" by (auto simp: encode_rune_bytes_def)
  moreover from this have "take 4 (encode_rune r) = encode_rune r" by (simp add: encode_rune_def)
  ultimately show ?thesis
    using rune_len_encode [of r]
    by (simp add: is_enc_def rune_len_def bytes_encode_rune) (simp add: encode_rune_def)
qed

lemma decode_encode_rune:
  assumes "valid_rune r"
  shows "decode_rune (encode_rune r @ t) = (r, length (encode_rune r))"
proof -
  obtain q a b c where r: "r = ((q * 64 + a) * 64 + b) * 64 + c" "a < 64" "b < 64" "c < 64"
    and d1: "r div 64 = (q * 64 + a) * 64 + b" and d: "r div 4096 = q * 64 + a" "r div 262144 = q"
    "r mod 64 = c" "r div 64 mod 64 = b" "r div 4096 mod 64 = a"
    by (rule base_64)
  have "rune_value_bytes (encode_rune_bytes r) = r"
    unfolding encode_rune_bytes_def d rune_value_bytes_def using assms r d1 by simp
  then show ?thesis by (simp add: decode_rune_enc [OF is_enc_encode] bytes_encode_rune)
qed

lemma valid_encode_rune [simp]: "valid_utf8 (encode_rune r)"
  by (rule valid_utf8_enc [OF is_enc_encode])

lemma rune_len_bytes_cases:
  assumes "0 < rune_len_bytes bs"
  obtains (1) b0 r where "bs = b0 # r" "rune_len_bytes bs = 1" "b0 < 128"
    | (2) b0 b1 r where "bs = b0 # b1 # r" "rune_len_bytes bs = 2" "194 \<le> b0" "b0 \<le> 223" "second_ok b0 b1"
    | (3) b0 b1 b2 r where "bs = b0 # b1 # b2 # r" "rune_len_bytes bs = 3" "224 \<le> b0" "b0 \<le> 239"
        "second_ok b0 b1" "cont_byte b2"
    | (4) b0 b1 b2 b3 r where "bs = b0 # b1 # b2 # b3 # r" "rune_len_bytes bs = 4" "240 \<le> b0" "b0 \<le> 244"
        "second_ok b0 b1" "cont_byte b2" "cont_byte b3"
  using assms by (cases bs rule: list_cases4) (simp_all add: rune_len_bytes_def split: if_splits)

lemma rune_value_valid:
  assumes "0 < rune_len_bytes bs"
  shows "valid_rune (rune_value_bytes (take (rune_len_bytes bs) bs))"
  using assms
proof (cases rule: rune_len_bytes_cases)
  case 1
  then show ?thesis by (simp add: rune_value_bytes_def valid_rune_def)
next
  case (2 b0 b1 r)
  then have "b1 - 128 < 64" "b0 - 192 < 32" by (auto simp: second_ok_def cont_byte_def)
  then have "(b0 - 192) * 64 + (b1 - 128) < 55296" by linarith
  with 2 show ?thesis by (simp add: rune_value_bytes_def valid_rune_def numeral_2_eq_2)
next
  case (3 b0 b1 b2 r)
  let ?v = "(b0 - 224) * 4096 + (b1 - 128) * 64 + (b2 - 128)"
  have "b2 - 128 < 64" "b1 - 128 < 64" "b0 - 224 = 13 \<longrightarrow> b1 - 128 < 32"
    using 3 by (auto simp: second_ok_def cont_byte_def split: if_splits)
  moreover have "b0 - 224 < 13 \<or> b0 - 224 = 13 \<or> 14 \<le> b0 - 224 \<and> b0 - 224 < 16" using 3 by linarith
  ultimately have "?v < 55296 \<or> 57343 < ?v \<and> ?v \<le> 1114111" by linarith
  with 3 show ?thesis by (simp add: rune_value_bytes_def valid_rune_def numeral_3_eq_3)
next
  case (4 b0 b1 b2 b3 r)
  let ?v = "(b0 - 240) * 262144 + (b1 - 128) * 4096 + (b2 - 128) * 64 + (b3 - 128)"
  have "b3 - 128 < 64" "b2 - 128 < 64" "b1 - 128 < 64" "b0 = 240 \<longrightarrow> 16 \<le> b1 - 128" "b0 = 244 \<longrightarrow> b1 - 128 < 16"
    using 4 by (auto simp: second_ok_def cont_byte_def split: if_splits)
  moreover have "b0 = 240 \<or> b0 = 244 \<or> 1 \<le> b0 - 240 \<and> b0 - 240 < 4" using 4 by linarith
  ultimately have "57343 < ?v \<and> ?v \<le> 1114111" by auto
  with 4 show ?thesis by (simp add: rune_value_bytes_def valid_rune_def)
qed

lemma decode_rune_valid: "valid_rune (fst (decode_rune s))"
  using rune_value_valid [of "bytes (take 4 s)"] rune_len_le_4 [of s]
  by (auto simp: decode_rune_def rune_len_def Let_def rune_error_def valid_rune_def take_map min_absorb1)

text \<open>All runes of a string.\<close>

function all_runes :: "(nat \<Rightarrow> bool) \<Rightarrow> string \<Rightarrow> bool" where
  "all_runes P s =
     (if s = [] then True
      else P (fst (decode_rune s)) \<and> all_runes P (drop (snd (decode_rune s)) s))"
  by pat_completeness auto
termination
  by (relation "measure (\<lambda>(P, s). length s)") (auto dest: decode_rune_size)

declare all_runes.simps [simp del]

lemma all_runes_Nil [simp]: "all_runes P []"
  by (simp add: all_runes.simps)

lemma all_runes_encode [simp]: "valid_rune r \<Longrightarrow> all_runes P (encode_rune r @ s) \<longleftrightarrow> P r \<and> all_runes P s"
  using is_enc_length [OF is_enc_encode [of r]]
  by (subst all_runes.simps) (auto simp: decode_encode_rune)

lemma all_runes_mono: "all_runes P s \<Longrightarrow> (\<And>r. P r \<Longrightarrow> Q r) \<Longrightarrow> all_runes Q s"
proof (induction P s rule: all_runes.induct)
  case (1 P s)
  show ?case
  proof (cases "s = []")
    case False
    with "1.prems" have "P (fst (decode_rune s))" "all_runes P (drop (snd (decode_rune s)) s)"
      by (simp_all add: all_runes.simps [of P s])
    with "1.IH" "1.prems"(2) False show ?thesis by (subst all_runes.simps) simp
  qed simp
qed

lemma all_runes_ascii: "of_char c < (128 :: nat) \<Longrightarrow> all_runes P (c # s) \<longleftrightarrow> P (of_char c) \<and> all_runes P s"
  using decode_rune_enc [OF is_enc_ascii, of c s] by (subst all_runes.simps) (simp add: rune_value_bytes_def)

lemma all_runes_ascii_append:
  "list_all (\<lambda>c. of_char c < (128 :: nat)) s \<Longrightarrow>
   all_runes P (s @ t) \<longleftrightarrow> list_all (\<lambda>c. P (of_char c)) s \<and> all_runes P t"
  by (induction s) (auto simp: all_runes_ascii)

lemma map_runes_ascii:
  "of_char c < (128 :: nat) \<Longrightarrow>
   map_runes f (c # s) = (case f (of_char c) of None \<Rightarrow> [] | Some r \<Rightarrow> encode_rune r) @ map_runes f s"
  using decode_rune_enc [OF is_enc_ascii, of c s] by (subst map_runes.simps) (simp add: rune_value_bytes_def)

lemma encode_rune_char: "of_char c < (128 :: nat) \<Longrightarrow> encode_rune (of_char c) = [c]"
  by (simp add: encode_rune_def encode_rune_bytes_def)

text \<open>A mapping that keeps all bytes of an ASCII string.\<close>

lemma map_runes_id:
  "list_all (\<lambda>c. of_char c < (128 :: nat) \<and> f (of_char c) = Some (of_char c)) s \<Longrightarrow>
   map_runes f (s @ t) = s @ map_runes f t"
  by (induction s) (auto simp: map_runes_ascii encode_rune_char)

lemma map_runes_Nil [simp]: "map_runes f [] = []"
  by (simp add: map_runes.simps)

lemma all_runes_map_runes:
  assumes "\<And>r r'. valid_rune r \<Longrightarrow> f r = Some r' \<Longrightarrow> valid_rune r' \<and> P r'"
  shows "all_runes P (map_runes f s @ t) \<longleftrightarrow> all_runes P t"
proof (induction "length s" arbitrary: s rule: less_induct)
  case less
  show ?case
  proof (cases "s = []")
    case False
    then have "length (drop (snd (decode_rune s)) s) < length s" by (auto dest: decode_rune_size)
    note IH = less [OF this]
    show ?thesis
    proof (cases "f (fst (decode_rune s))")
      case None
      with IH False show ?thesis by (simp add: map_runes.simps [of f s])
    next
      case (Some r)
      have "valid_rune r" "P r" using assms [OF decode_rune_valid Some] by auto
      with IH False Some show ?thesis by (simp add: map_runes.simps [of f s])
    qed
  qed simp
qed

end
