(* ===== verification/GoStrings.thy ===== *)
theory GoStrings
  imports GoUtf8
begin

text \<open>
  What the program uses of Go's package \<open>strings\<close> (and \<open>bytes\<close>, whose functions of the
  same names agree with it): prefixes, searching, cutting and splitting.  The functions are
  polymorphic in the element type, so they serve byte strings and rune sequences alike.
\<close>

section \<open>Definitions\<close>

definition has_prefix :: "'a list \<Rightarrow> 'a list \<Rightarrow> bool" where
  "has_prefix s p \<longleftrightarrow> take (length p) s = p"

definition has_suffix :: "'a list \<Rightarrow> 'a list \<Rightarrow> bool" where
  "has_suffix s p \<longleftrightarrow> length p \<le> length s \<and> drop (length s - length p) s = p"

text \<open>\<open>strings.Index\<close>, with \<open>None\<close> for -1.\<close>

fun index :: "'a list \<Rightarrow> 'a list \<Rightarrow> nat option" where
  "index [] sub = (if sub = [] then Some 0 else None)"
| "index (c # s) sub = (if has_prefix (c # s) sub then Some 0 else map_option Suc (index s sub))"

text \<open>\<open>strings.LastIndex\<close>.\<close>

fun last_index :: "'a list \<Rightarrow> 'a list \<Rightarrow> nat option" where
  "last_index [] sub = (if sub = [] then Some 0 else None)"
| "last_index (c # s) sub =
     (case last_index s sub of
        Some i \<Rightarrow> Some (Suc i)
      | None \<Rightarrow> if has_prefix (c # s) sub then Some 0 else None)"

definition contains :: "'a list \<Rightarrow> 'a list \<Rightarrow> bool" where
  "contains s sub \<longleftrightarrow> index s sub \<noteq> None"

text \<open>\<open>strings.Cut\<close>: the parts around the first separator.  For a separator that is not empty,
  \<open>strings.SplitN(s, sep, 2)\<close> has two elements exactly when this is \<open>Some\<close>, and they are its
  components; otherwise its one element is \<open>s\<close>.\<close>

definition cut :: "'a list \<Rightarrow> 'a list \<Rightarrow> ('a list \<times> 'a list) option" where
  "cut s sep = (case index s sep of None \<Rightarrow> None | Some i \<Rightarrow> Some (take i s, drop (i + length sep) s))"

text \<open>\<open>strings.explode\<close>: what splitting at the empty separator gives, one element per rune.\<close>

function explode :: "string \<Rightarrow> string list" where
  "explode s =
     (if s = [] then []
      else take (snd (decode_rune s)) s # explode (drop (snd (decode_rune s)) s))"
  by pat_completeness auto
termination
  by (relation "measure length") (auto dest: decode_rune_size)

declare explode.simps [simp del]

lemma index_bound: "index s sub = Some i \<Longrightarrow> i + length sub \<le> length s"
proof (induction s sub arbitrary: i rule: index.induct)
  case (2 c s sub)
  then show ?case
    by (auto simp: has_prefix_def min_def split: if_splits dest!: arg_cong [where f = length])
qed (auto split: if_splits)

lemma index_bound_less: "index s sub = Some i \<Longrightarrow> sub \<noteq> [] \<Longrightarrow> length s - (i + length sub) < length s"
  by (drule index_bound) (cases sub, auto)

text \<open>\<open>strings.Split\<close> and \<open>strings.Join\<close>.\<close>

function split_all :: "string \<Rightarrow> string \<Rightarrow> string list" where
  "split_all s sep =
     (if sep = [] then explode s
      else case index s sep of
             None \<Rightarrow> [s]
           | Some i \<Rightarrow> take i s # split_all (drop (i + length sep) s) sep)"
  by pat_completeness auto
termination
  by (relation "measure (length \<circ> fst)") (auto dest: index_bound_less)

declare split_all.simps [simp del]

fun join :: "'a list \<Rightarrow> 'a list list \<Rightarrow> 'a list" where
  "join sep [] = []"
| "join sep [s] = s"
| "join sep (s # ss) = s @ sep @ join sep ss"

definition trim_prefix :: "'a list \<Rightarrow> 'a list \<Rightarrow> 'a list" where
  "trim_prefix s p = (if has_prefix s p then drop (length p) s else s)"

section \<open>Prefixes and suffixes\<close>

lemma has_prefix_iff: "has_prefix s p \<longleftrightarrow> (\<exists>r. s = p @ r)"
  by (simp add: has_prefix_def append_take_eq)

lemma has_suffix_iff: "has_suffix s p \<longleftrightarrow> (\<exists>r. s = r @ p)"
  by (simp add: has_suffix_def append_drop_eq)

lemma has_prefix_append [simp]: "has_prefix (p @ r) p"
  by (auto simp: has_prefix_iff)

lemma has_prefix_Nil [simp]: "has_prefix s []"
  by (simp add: has_prefix_def)

lemma has_prefix_Nil2 [simp]: "has_prefix [] p \<longleftrightarrow> p = []"
  by (auto simp: has_prefix_def)

lemma has_suffix_Nil [simp]: "has_suffix s []"
  by (simp add: has_suffix_def)

lemma trim_prefix_append [simp]: "trim_prefix (p @ r) p = r"
  by (simp add: trim_prefix_def)

lemma has_prefix_append_le: "length p \<le> length s \<Longrightarrow> has_prefix (s @ t) p = has_prefix s p"
  by (simp add: has_prefix_def)

lemma has_prefix_self_append: "has_prefix s p \<Longrightarrow> has_prefix (s @ r) p"
  by (auto simp: has_prefix_iff)

text \<open>A string that is neither an extension nor a prefix of \<open>p\<close> stays so when it grows.\<close>

lemma has_prefix_diverge:
  assumes "\<not> has_prefix s p" "\<not> has_prefix p s"
  shows "\<not> has_prefix (s @ r) p" "\<not> has_prefix p (s @ r)"
proof -
  show "\<not> has_prefix p (s @ r)" using assms(2) by (auto simp: has_prefix_iff)
  show "\<not> has_prefix (s @ r) p"
  proof
    assume "has_prefix (s @ r) p"
    then obtain u where "s @ r = p @ u" by (auto simp: has_prefix_iff)
    then show False using assms by (auto simp: has_prefix_iff append_eq_append_conv2)
  qed
qed

section \<open>Searching\<close>

lemma index_Some_append: "index s sub = Some i \<Longrightarrow> s = take i s @ sub @ drop (i + length sub) s"
proof (induction s sub arbitrary: i rule: index.induct)
  case (2 c s sub)
  then show ?case
    by (auto simp: has_prefix_def split: if_splits) (metis append_take_drop_id)
qed (auto split: if_splits)

lemma index_append_le: "\<exists>i. index (a @ sub @ b) sub = Some i \<and> i \<le> length a"
proof (induction a)
  case Nil
  show ?case using has_prefix_append [of sub b] by (cases "sub @ b") auto
next
  case (Cons c a)
  then show ?case by auto
qed

lemma index_None_iff: "index s sub = None \<longleftrightarrow> (\<forall>a b. s \<noteq> a @ sub @ b)"
  by (metis index_Some_append index_append_le not_None_eq)

lemma index_Some_iff:
  "index s sub = Some i \<longleftrightarrow>
     i + length sub \<le> length s \<and> take (length sub) (drop i s) = sub \<and>
     (\<forall>a b. s = a @ sub @ b \<longrightarrow> i \<le> length a)" (is "?l \<longleftrightarrow> ?r")
proof
  assume l: ?l
  have b: "i + length sub \<le> length s" using l by (rule index_bound)
  have "drop i s = sub @ drop (i + length sub) s"
    using index_Some_append [OF l] b by (metis append_eq_conv_conj append_take_drop_id)
  moreover have "i \<le> length a" if "s = a @ sub @ b" for a b
    using l index_append_le [of a sub b] that by auto
  ultimately show ?r using b by simp
next
  assume r: ?r
  then have "s = take i s @ sub @ drop (i + length sub) s"
    by (metis append_take_drop_id drop_drop add.commute)
  then obtain j where j: "index s sub = Some j" "j \<le> i"
    using index_append_le [of "take i s" sub "drop (i + length sub) s"] r by auto
  moreover have "i \<le> j"
    using r index_Some_append [OF j(1)] index_bound [OF j(1)] by fastforce
  ultimately show ?l by simp
qed

lemma contains_iff: "contains s sub \<longleftrightarrow> (\<exists>a b. s = a @ sub @ b)"
  by (auto simp: contains_def index_None_iff)

lemma contains_index: "contains s sub \<longleftrightarrow> (\<exists>i. index s sub = Some i)"
  by (auto simp: contains_def)

lemma contains_append: "contains s sub \<Longrightarrow> contains (s @ t) sub"
  unfolding contains_iff by (metis append.assoc)

lemma contains_append2: "contains t sub \<Longrightarrow> contains (s @ t) sub"
  unfolding contains_iff by (metis append.assoc)

lemma not_contains_take: "\<not> contains (s @ t) sub \<Longrightarrow> \<not> contains s sub \<and> \<not> contains t sub"
  using contains_append contains_append2 by blast

lemma not_contains_Nil [simp]: "sub \<noteq> [] \<Longrightarrow> \<not> contains [] sub"
  by (simp add: contains_iff)

lemma index_append: "index s sub = Some i \<Longrightarrow> index (s @ t) sub = Some i"
proof (induction s sub arbitrary: i rule: index.induct)
  case (1 sub)
  then show ?case by (cases t) (auto split: if_splits)
next
  case (2 c s sub)
  then show ?case
    using has_prefix_append_le [of sub "c # s" t] index_bound [OF "2.prems"]
    by (auto split: if_splits)
qed

section \<open>Cutting\<close>

lemma cut_SomeD: "cut s sep = Some (a, b) \<Longrightarrow> s = a @ sep @ b"
  by (auto simp: cut_def dest: index_Some_append split: option.splits)

lemma cut_None_iff: "cut s sep = None \<longleftrightarrow> \<not> contains s sep"
  by (auto simp: cut_def contains_def split: option.splits)

lemma cut_Some_first: "cut (a @ sep @ b) sep = Some (a', b') \<Longrightarrow> length a' \<le> length a"
  using index_append_le [of a sep b] by (auto simp: cut_def)

lemma contains_cut: "contains s sep \<Longrightarrow> \<exists>a b. cut s sep = Some (a, b)"
  by (metis cut_None_iff not_None_eq surj_pair)

lemma cut_contains: "cut s sep = Some (a, b) \<Longrightarrow> contains s sep"
  by (metis cut_None_iff option.distinct(1))

lemma cut_append: "cut s sep = Some (a, b) \<Longrightarrow> cut (s @ t) sep = Some (a, b @ t)"
  using index_append [of s sep] index_bound [of s sep]
  by (auto simp: cut_def split: option.splits)

lemma cut_index: "cut s sep = Some (a, b) \<Longrightarrow> index s sep = Some (length a)"
  using index_bound [of s sep] by (auto simp: cut_def min_def split: option.splits)

lemma cut_length: "cut s sep = Some (a, b) \<Longrightarrow> length s = length a + length sep + length b"
  by (drule cut_SomeD) simp

lemma cut_prefix_not_contains:
  assumes "cut s sep = Some (a, b)" "sep \<noteq> []"
  shows "\<not> contains a sep"
proof
  assume "contains a sep"
  then obtain u v where "a = u @ sep @ v" by (auto simp: contains_iff)
  with cut_SomeD [OF assms(1)] have "s = u @ sep @ (v @ sep @ b)" by simp
  then have "length a \<le> length u" using assms(1) cut_Some_first [of u sep] by blast
  with \<open>a = u @ sep @ v\<close> assms(2) show False by simp
qed

section \<open>Splitting and joining\<close>

lemma split_all_cut:
  assumes "sep \<noteq> []"
  shows "split_all s sep = (case cut s sep of None \<Rightarrow> [s] | Some (a, b) \<Rightarrow> a # split_all b sep)"
  using assms by (subst split_all.simps) (auto simp: cut_def split: option.split)

lemma join_split_all: "sep \<noteq> [] \<Longrightarrow> split_all s sep \<noteq> [] \<and> join sep (split_all s sep) = s"
proof (induction s sep rule: split_all.induct)
  case (1 s sep)
  show ?case
  proof (cases "cut s sep")
    case None
    with "1.prems" show ?thesis by (simp add: split_all_cut)
  next
    case (Some p)
    obtain a b where p: "p = (a, b)" by force
    from Some p obtain i where i: "index s sep = Some i" "b = drop (i + length sep) s"
      by (auto simp: cut_def split: option.splits)
    then have "split_all b sep \<noteq> [] \<and> join sep (split_all b sep) = b"
      using "1.IH" "1.prems" by simp
    then show ?thesis
      using "1.prems" Some p cut_SomeD [OF Some [unfolded p]]
      by (cases "split_all b sep") (simp_all add: split_all_cut)
  qed
qed

text \<open>Rejoining everything after the first part is cutting at the first separator.\<close>

lemma join_tl_split_all:
  assumes "cut s sep = Some (a, b)" "sep \<noteq> []"
  shows "hd (split_all s sep) = a" "join sep (tl (split_all s sep)) = b"
  using assms join_split_all [of sep b] by (simp_all add: split_all_cut)

end
