(* ===== verification/Streaming.thy ===== *)
theory Streaming
  imports GoStrings
begin

text \<open>
  What all streaming output parsers share.  The first section models the helpers of
  \<open>model/parsers/parsers.go\<close> (the files \<open>thinking/parser.go\<close> and
  \<open>harmony/harmonyparser.go\<close> carry identical copies of \<open>overlap\<close>).  The second models the
  loop \<open>for keepLooping { events, keepLooping = p.eat(); ... }\<close> of every parser as \<open>drain\<close>.
  The locale \<open>draining\<close> is the contract that makes this loop stop, and the locale
  \<open>streaming\<close> the one that makes the parser insensitive to how its input is cut into chunks;
  each parser's theory interprets them on its own \<open>eat\<close>.
\<close>

section \<open>The shared helpers\<close>

text \<open>The loop \<open>for i := max; i > 0; i--\<close> of \<open>overlap\<close>.\<close>

primrec overlap_from :: "string \<Rightarrow> string \<Rightarrow> nat \<Rightarrow> nat" where
  "overlap_from s delim 0 = 0"
| "overlap_from s delim (Suc i) =
     (if has_suffix s (take (Suc i) delim) then Suc i else overlap_from s delim i)"

definition overlap :: "string \<Rightarrow> string \<Rightarrow> nat" where
  "overlap s delim = overlap_from s delim (min (length delim) (length s))"

text \<open>\<open>trailingWhitespaceLen\<close>.\<close>

function trailing_ws_len :: "string \<Rightarrow> nat" where
  "trailing_ws_len s =
     (if s = [] then 0
      else if decode_last_rune s = (rune_error, 1) then 0
      else if \<not> is_space (fst (decode_last_rune s)) then 0
      else snd (decode_last_rune s) +
             trailing_ws_len (take (length s - snd (decode_last_rune s)) s))"
  by pat_completeness auto
termination
  by (relation "measure length") (auto dest: decode_last_rune_size)

declare trailing_ws_len.simps [simp del]

text \<open>\<open>splitAtTag\<close>: the part before the tag, the part after it, and the new buffer.\<close>

definition split_at_tag :: "string \<Rightarrow> string \<Rightarrow> bool \<Rightarrow> string \<times> string \<times> string" where
  "split_at_tag buf tag trim_after =
     (case cut buf tag of
        None \<Rightarrow> (buf, [], [])
      | Some (before, after) \<Rightarrow>
          let after' = (if trim_after then trim_left after else after)
          in (trim_right before, after', after'))"

text \<open>
  The code most parsers repeat where a tag may have begun in the last \<open>n\<close> bytes: everything up to
  the white space before these bytes is \<open>unambiguous\<close>, the rest is kept (\<open>ambiguous\<close>).
\<close>

definition hold_split :: "string \<Rightarrow> nat \<Rightarrow> string \<times> string" where
  "hold_split acc n =
     (let before = take (length acc - n) acc;
          ambiguous_start = length before - trailing_ws_len before
      in (take ambiguous_start acc, drop ambiguous_start acc))"

section \<open>Overlaps\<close>

lemma overlap_from_le: "overlap_from s d n \<le> n"
  by (induction n) auto

lemma overlap_from_suffix: "has_suffix s (take (overlap_from s d n) d)"
  by (induction n) auto

lemma overlap_from_max: "i \<le> n \<Longrightarrow> has_suffix s (take i d) \<Longrightarrow> i \<le> overlap_from s d n"
  by (induction n) (auto simp: le_Suc_eq)

lemma overlap_le: "overlap s d \<le> length s" and overlap_le_tag: "overlap s d \<le> length d"
  using overlap_from_le [of s d "min (length d) (length s)"] by (auto simp: overlap_def)

lemma overlap_suffix: "has_suffix s (take (overlap s d) d)"
  by (simp add: overlap_def overlap_from_suffix)

lemma overlap_max: "i \<le> length d \<Longrightarrow> has_suffix s (take i d) \<Longrightarrow> i \<le> overlap s d"
  unfolding overlap_def by (intro overlap_from_max) (auto simp: has_suffix_def)

lemma overlap_drop: "drop (length s - overlap s d) s = take (overlap s d) d"
  using overlap_suffix [of s d] overlap_le_tag [of s d] by (simp add: has_suffix_def min_absorb2)

text \<open>
  The hold-back law.  If no occurrence of the tag has been seen in \<open>out @ keep\<close>, and \<open>keep\<close> is at
  least as long as the longest suffix that could begin one, then \<open>out\<close> can be released: whatever
  arrives later, searching the whole input is searching what was kept.
\<close>

lemma straddle:
  assumes "overlap (out @ keep) tag \<le> length keep" and "out @ keep = a @ u" and "tag = u @ v"
  shows "length out \<le> length a"
proof -
  have "has_suffix (out @ keep) (take (length u) tag)"
    using assms(2,3) by (auto simp: has_suffix_iff)
  then have "length u \<le> overlap (out @ keep) tag" using assms(3) by (intro overlap_max) auto
  moreover have "length out + length keep = length a + length u"
    using arg_cong [OF assms(2), of length] by simp
  ultimately show ?thesis using assms(1) by linarith
qed

lemma occurrence_hold:
  assumes no: "\<not> contains (out @ keep) tag" and ov: "overlap (out @ keep) tag \<le> length keep"
    and eq: "(out @ keep) @ y = a @ tag @ b"
  shows "\<exists>a'. a = out @ a' \<and> keep @ y = a' @ tag @ b"
proof -
  have "length out \<le> length a"
    using eq
  proof (cases rule: append_eq_append_cases)
    case (left u)
    from left(2) have "tag @ b = u @ y" .
    then show ?thesis
    proof (cases rule: append_eq_append_cases)
      case l: (left w)
      then show ?thesis using straddle [OF ov left(1)] by blast
    next
      case (right w)
      then have "out @ keep = a @ tag @ w" using left by simp
      with no show ?thesis by (auto simp: contains_iff)
    qed
  next
    case (right u)
    then show ?thesis by simp
  qed
  with eq append_eq_longer [of out "keep @ y" a "tag @ b"] show ?thesis by auto
qed

lemma index_hold:
  assumes no: "\<not> contains (out @ keep) tag" and ov: "overlap (out @ keep) tag \<le> length keep"
  shows "index (out @ keep @ y) tag = map_option ((+) (length out)) (index (keep @ y) tag)"
proof (cases "index (keep @ y) tag")
  case None
  have "index (out @ keep @ y) tag = None"
    using None occurrence_hold [OF no ov, of y] unfolding index_None_iff by auto
  with None show ?thesis by simp
next
  case (Some i)
  then have r: "i + length tag \<le> length (keep @ y)" "take (length tag) (drop i (keep @ y)) = tag"
    "\<And>a b. keep @ y = a @ tag @ b \<Longrightarrow> i \<le> length a"
    by (auto simp: index_Some_iff)
  have "index (out @ keep @ y) tag = Some (length out + i)"
    unfolding index_Some_iff
  proof (intro conjI allI impI)
    fix a b assume "out @ keep @ y = a @ tag @ b"
    with occurrence_hold [OF no ov, of y a b] r(3) show "length out + i \<le> length a" by auto
  qed (use r in auto)
  with Some show ?thesis by simp
qed

lemma contains_hold:
  "\<not> contains (out @ keep) tag \<Longrightarrow> overlap (out @ keep) tag \<le> length keep \<Longrightarrow>
   contains (out @ keep @ y) tag = contains (keep @ y) tag"
  by (simp add: contains_def index_hold)

lemma cut_hold:
  "\<not> contains (out @ keep) tag \<Longrightarrow> overlap (out @ keep) tag \<le> length keep \<Longrightarrow>
   cut (out @ keep @ y) tag = map_option (apfst ((@) out)) (cut (keep @ y) tag)"
  by (auto simp: cut_def index_hold split: option.split)

lemma overlap_hold:
  assumes ov: "overlap (out @ keep) tag \<le> length keep"
  shows "overlap (out @ keep @ y) tag = overlap (keep @ y) tag"
proof (rule antisym)
  let ?n = "overlap (out @ keep @ y) tag"
  from overlap_suffix [of "out @ keep @ y" tag] obtain r where
    r: "(out @ keep) @ y = r @ take ?n tag" by (auto simp: has_suffix_iff)
  have "\<exists>r'. keep @ y = r' @ take ?n tag"
    using r
  proof (cases rule: append_eq_append_cases)
    case (left u)
    have "tag = u @ (y @ drop ?n tag)" using left(2) by (metis append.assoc append_take_drop_id)
    then have "length out \<le> length r" using straddle [OF ov left(1)] by blast
    with r append_eq_longer [of out "keep @ y" r "take ?n tag"] show ?thesis by auto
  next
    case (right u)
    then have "keep @ y = (keep @ u) @ take ?n tag" by simp
    then show ?thesis by blast
  qed
  then show "?n \<le> overlap (keep @ y) tag"
    by (intro overlap_max) (auto simp: has_suffix_iff overlap_le_tag)
next
  show "overlap (keep @ y) tag \<le> overlap (out @ keep @ y) tag"
    using overlap_suffix [of "keep @ y" tag]
    by (intro overlap_max) (auto simp: has_suffix_iff overlap_le_tag, metis append.assoc)
qed

text \<open>Releasing all but the last \<open>n\<close> bytes.\<close>

definition hold_tag :: "string \<Rightarrow> nat \<Rightarrow> string \<times> string" where
  "hold_tag acc n = (take (length acc - n) acc, drop (length acc - n) acc)"

lemma hold_tag_parts:
  "hold_tag acc n = (out, keep) \<Longrightarrow> n \<le> length acc \<Longrightarrow> acc = out @ keep \<and> length keep = n"
  by (auto simp: hold_tag_def)

lemma hold_tag_append:
  "n \<le> length z \<Longrightarrow> hold_tag (out @ z) n = apfst ((@) out) (hold_tag z n)"
  by (simp add: hold_tag_def)

lemma hold_tag_0 [simp]: "hold_tag acc 0 = (acc, [])"
  by (simp add: hold_tag_def)

section \<open>Holding back white space\<close>

lemma trailing_ws_len_eq: "trailing_ws_len s = length s - length (trim_right s)"
proof (induction s rule: trailing_ws_len.induct)
  case (1 s)
  let ?n = "snd (decode_last_rune s)"
  show ?case
  proof (cases "s \<noteq> [] \<and> is_space (fst (decode_last_rune s))")
    case True
    then have ne: "decode_last_rune s \<noteq> (rune_error, 1)" by auto
    have t: "trim_right s = trim_right (take (length s - ?n) s)"
      using True by (subst trim_right.simps) simp
    have "trailing_ws_len s = ?n + trailing_ws_len (take (length s - ?n) s)"
      using True ne by (subst trailing_ws_len.simps) simp
    also have "trailing_ws_len (take (length s - ?n) s) = length s - ?n - length (trim_right s)"
      using "1.IH" True ne t by simp
    finally have "trailing_ws_len s = ?n + (length s - ?n - length (trim_right s))" .
    moreover have "length (trim_right s) \<le> length s - ?n" "?n \<le> length s"
      using True decode_last_rune_size [of s] length_trim_right [of "take (length s - ?n) s"] t
      by (simp_all add: min_absorb2)
    ultimately show ?thesis by linarith
  next
    case False
    then have "trim_right s = s" by (subst trim_right.simps) auto
    moreover from False have "trailing_ws_len s = 0" by (subst trailing_ws_len.simps) auto
    ultimately show ?thesis by simp
  qed
qed

lemma hold_split_eq:
  assumes "n \<le> length acc" and "t = take (length acc - n) acc"
  shows "hold_split acc n = (trim_right t, drop (length (trim_right t)) acc)"
proof -
  obtain w where w: "t = trim_right t @ w" using trim_right_prefix by blast
  have "acc = t @ drop (length acc - n) acc" using assms by simp
  then have "take (length (trim_right t)) acc = trim_right t"
    using w by (metis append.assoc append_eq_conv_conj)
  moreover have "length t - trailing_ws_len t = length (trim_right t)"
    using length_trim_right [of t] by (simp add: trailing_ws_len_eq)
  ultimately show ?thesis
    by (simp add: hold_split_def Let_def flip: assms(2))
qed

lemma hold_split_0: "hold_split acc 0 = (trim_right acc, drop (length (trim_right acc)) acc)"
  by (simp add: hold_split_eq [OF _ refl])

text \<open>What is released and what is kept make up the buffer; the kept part is long enough, the
  released part ends in no white space, and both are valid if the cut is.\<close>

lemma hold_split_parts:
  assumes "hold_split acc n = (out, keep)" "n \<le> length acc" "valid_utf8 acc"
    and "valid_utf8 (take (length acc - n) acc)"
  shows "acc = out @ keep" "n \<le> length keep" "valid_utf8 out" "valid_utf8 keep" "trim_right out = out"
proof -
  let ?t = "take (length acc - n) acc"
  have out: "out = trim_right ?t" and keep: "keep = drop (length out) acc"
    using assms(1) hold_split_eq [OF assms(2) refl] by auto
  obtain w where w: "?t = trim_right ?t @ w" using trim_right_prefix by blast
  have "acc = ?t @ drop (length acc - n) acc" by simp
  then show acc: "acc = out @ keep" using w out keep by (metis append.assoc append_eq_conv_conj)
  have "length out \<le> length ?t" using out length_trim_right by blast
  then show "n \<le> length keep" using assms(2) keep by simp
  show v: "valid_utf8 out" using out assms(4) by (simp add: trim_right_valid)
  then show "valid_utf8 keep" using acc assms(3) by simp
  show "trim_right out = out" using out assms(4) by (simp add: trim_right_idem)
qed

text \<open>Releasing more of a longer buffer releases the same text in the end.\<close>

lemma hold_split_append:
  assumes "trim_right out = out" "m \<le> length z" "valid_utf8 (take (length z - m) z)"
  shows "hold_split (out @ z) m = apfst ((@) out) (hold_split z m)"
proof -
  let ?t = "take (length z - m) z"
  have t: "take (length (out @ z) - m) (out @ z) = out @ ?t" using assms(2) by simp
  have r: "trim_right (out @ ?t) = out @ trim_right ?t"
    using assms by (simp add: trim_right_append)
  show ?thesis
    using hold_split_eq [of m "out @ z", OF _ refl] hold_split_eq [of m z, OF _ refl] assms(2) t r
    by simp
qed

lemma trim_right_hold:
  "trim_right out = out \<Longrightarrow> valid_utf8 a \<Longrightarrow> trim_right (out @ a) = out @ trim_right a"
  by (simp add: trim_right_append)

text \<open>Cutting at a tag keeps both sides valid, and so does cutting where one may have begun.\<close>

definition good_tag :: "string \<Rightarrow> bool" where
  "good_tag tag \<longleftrightarrow> tag \<noteq> [] \<and> valid_utf8 tag"

lemma good_tag_nonempty: "good_tag tag \<Longrightarrow> tag \<noteq> []"
  by (simp add: good_tag_def)

lemma good_tagE:
  assumes "good_tag tag"
  obtains c t where "tag = c # t" "\<not> cont_byte (of_char c)"
  using assms by (cases tag) (auto simp: good_tag_def dest: valid_utf8_lead)

lemma valid_cut:
  assumes "valid_utf8 s" "good_tag tag" "cut s tag = Some (a, b)"
  shows "valid_utf8 a" "valid_utf8 b"
proof -
  obtain c t where tag: "tag = c # t" "\<not> cont_byte (of_char c)" using assms(2) by (rule good_tagE)
  have s: "s = a @ c # (t @ b)" using cut_SomeD [OF assms(3)] tag by simp
  have "valid_utf8 a" "valid_utf8 (tag @ b)"
    using valid_utf8_split_lead [OF assms(1) s tag(2)] tag by auto
  then show "valid_utf8 a" "valid_utf8 b" using assms(2) by (auto simp: good_tag_def)
qed

lemma valid_overlap:
  assumes "valid_utf8 s" "good_tag tag"
  shows "valid_utf8 (take (length s - overlap s tag) s)"
    and "valid_utf8 (drop (length s - overlap s tag) s)"
proof -
  have "valid_utf8 (take (length s - overlap s tag) s) \<and> valid_utf8 (drop (length s - overlap s tag) s)"
  proof (cases "overlap s tag")
    case 0
    with assms show ?thesis by simp
  next
    case (Suc n)
    obtain c t where tag: "tag = c # t" "\<not> cont_byte (of_char c)" using assms(2) by (rule good_tagE)
    have "drop (length s - overlap s tag) s = c # take n t"
      using overlap_drop [of s tag] Suc tag by simp
    then have "s = take (length s - overlap s tag) s @ c # take n t"
      by (metis append_take_drop_id)
    with valid_utf8_split_lead [OF assms(1) _ tag(2)]
      \<open>drop (length s - overlap s tag) s = c # take n t\<close> show ?thesis by simp
  qed
  then show "valid_utf8 (take (length s - overlap s tag) s)"
    "valid_utf8 (drop (length s - overlap s tag) s)" by auto
qed

lemma valid_overlap_max:
  assumes "valid_utf8 s" "good_tag t1" "good_tag t2"
  shows "valid_utf8 (take (length s - max (overlap s t1) (overlap s t2)) s)"
  using valid_overlap assms by (simp add: max_def)

section \<open>The parsing loop\<close>

partial_function (option) drain ::
  "('s \<Rightarrow> 'e list \<times> 's \<times> bool) \<Rightarrow> 's \<Rightarrow> ('e list \<times> 's) option" where
  "drain eat s =
     (case eat s of (es, s', more) \<Rightarrow>
        if more then Option.bind (drain eat s') (\<lambda>(fs, t). Some (es @ fs, t)) else Some (es, s'))"

declare drain.simps [code]

text \<open>The same loop seen through an observation of its events.\<close>

definition observe ::
  "('e list \<Rightarrow> 'o) \<Rightarrow> ('s \<Rightarrow> 'e list \<times> 's \<times> bool) \<Rightarrow> 's \<Rightarrow> ('o \<times> 's) option" where
  "observe obs eat s = map_option (apfst obs) (drain eat s)"

definition after_obs :: "('o \<Rightarrow> 'o \<Rightarrow> 'o) \<Rightarrow> 'o \<Rightarrow> ('o \<times> 's) option \<Rightarrow> ('o \<times> 's) option" where
  "after_obs comb x r = map_option (apfst (comb x)) r"

text \<open>Feeding a sequence of chunks, one call each, and collecting the outputs.\<close>

fun run_chunks ::
  "('s \<Rightarrow> string \<Rightarrow> ('o \<times> 's) option) \<Rightarrow> ('o \<Rightarrow> 'o \<Rightarrow> 'o) \<Rightarrow> 's \<Rightarrow> string \<Rightarrow> string list \<Rightarrow> ('o \<times> 's) option"
where
  "run_chunks add comb s x [] = add s x"
| "run_chunks add comb s x (y # ys) =
     Option.bind (add s x) (\<lambda>(out, t). after_obs comb out (run_chunks add comb t y ys))"

lemma drain_stop: "eat s = (es, s', False) \<Longrightarrow> drain eat s = Some (es, s')"
  by (simp add: drain.simps)

lemma drain_more:
  "eat s = (es, s', True) \<Longrightarrow>
   drain eat s = Option.bind (drain eat s') (\<lambda>(fs, t). Some (es @ fs, t))"
  by (subst drain.simps) simp

lemma drain_cases:
  "drain eat s =
     (case eat s of (es, s', more) \<Rightarrow>
        if more then Option.bind (drain eat s') (\<lambda>(fs, t). Some (es @ fs, t)) else Some (es, s'))"
  by (rule drain.simps)

locale draining =
  fixes eat :: "'s \<Rightarrow> 'e list \<times> 's \<times> bool"
    and inv :: "'s \<Rightarrow> bool"
    and msr :: "'s \<Rightarrow> nat"
  assumes eat_inv: "inv s \<Longrightarrow> eat s = (es, s', more) \<Longrightarrow> inv s'"
    and eat_msr: "inv s \<Longrightarrow> eat s = (es, s', True) \<Longrightarrow> msr s' < msr s"
begin

lemma drain_total: "inv s \<Longrightarrow> \<exists>es t. drain eat s = Some (es, t) \<and> inv t"
proof (induction "msr s" arbitrary: s rule: less_induct)
  case less
  obtain es s' more where e: "eat s = (es, s', more)" by (metis prod_cases3)
  have i: "inv s'" using less.prems e by (rule eat_inv)
  show ?case
  proof (cases more)
    case True
    with e have "msr s' < msr s" using less.prems eat_msr by simp
    then obtain fs t where "drain eat s' = Some (fs, t)" "inv t" using less.hyps i by blast
    with e True show ?thesis by (simp add: drain_more)
  next
    case False
    with e i show ?thesis by (simp add: drain_stop)
  qed
qed

lemma drain_inv: "inv s \<Longrightarrow> drain eat s = Some (es, t) \<Longrightarrow> inv t"
  using drain_total [of s] by auto

lemma observe_total: "inv s \<Longrightarrow> \<exists>out t. observe obs eat s = Some (out, t) \<and> inv t"
  using drain_total [of s] by (auto simp: observe_def)

text \<open>A relation every step respects is respected by the loop.\<close>

lemma drain_rel:
  assumes step: "\<And>s es s' more. inv s \<Longrightarrow> eat s = (es, s', more) \<Longrightarrow> R s es s'"
    and seq: "\<And>s es s' fs t. R s es s' \<Longrightarrow> R s' fs t \<Longrightarrow> R s (es @ fs) t"
  shows "inv s \<Longrightarrow> drain eat s = Some (es, t) \<Longrightarrow> R s es t"
proof (induction "msr s" arbitrary: s es rule: less_induct)
  case less
  obtain es1 s' more where e: "eat s = (es1, s', more)" by (metis prod_cases3)
  have i: "inv s'" and r: "R s es1 s'" using less.prems(1) e eat_inv step by blast+
  show ?case
  proof (cases more)
    case True
    with e less.prems(2) obtain fs where fs: "drain eat s' = Some (fs, t)" "es = es1 @ fs"
      by (auto simp: drain_more bind_eq_Some_conv)
    have "msr s' < msr s" using e True less.prems(1) eat_msr by simp
    then have "R s' fs t" using less.hyps i fs(1) by blast
    with seq r fs(2) show ?thesis by blast
  next
    case False
    with e less.prems(2) r show ?thesis by (simp add: drain_stop)
  qed
qed

end

text \<open>
  The streaming contract: \<open>put\<close> appends input to the buffer, \<open>obs\<close> is what a caller sees of a list
  of events, and \<open>eat_more\<close> says that input which arrives after a step could as well have been
  there before it: the caller sees the same, and the states reached are related by \<open>rel\<close>.
\<close>

definition same_obs :: "('s \<Rightarrow> 's \<Rightarrow> bool) \<Rightarrow> ('o \<times> 's) option \<Rightarrow> ('o \<times> 's) option \<Rightarrow> bool" where
  "same_obs rel = rel_option (rel_prod (=) rel)"

lemma same_obs_eq: "same_obs (=) = (=)"
  by (simp add: same_obs_def prod.rel_eq option.rel_eq)

lemma same_obs_after: "same_obs rel r1 r2 \<Longrightarrow> same_obs rel (after_obs comb x r1) (after_obs comb x r2)"
  by (auto simp: same_obs_def after_obs_def option_rel_Some1 option_rel_Some2 elim!: option.rel_cases)

lemma same_obs_trans:
  assumes "transp rel"
  shows "same_obs rel r1 r2 \<Longrightarrow> same_obs rel r2 r3 \<Longrightarrow> same_obs rel r1 r3"
  using assms by (auto simp: same_obs_def elim!: option.rel_cases dest: transpD)

lemma same_obs_Some_fst: "same_obs rel r1 r2 \<Longrightarrow> map_option fst r1 = map_option fst r2"
  by (auto simp: same_obs_def elim!: option.rel_cases)

locale streaming_upto = draining eat inv msr
  for eat :: "'s \<Rightarrow> 'e list \<times> 's \<times> bool" and inv :: "'s \<Rightarrow> bool" and msr :: "'s \<Rightarrow> nat" +
  fixes put :: "'s \<Rightarrow> string \<Rightarrow> 's"
    and ok :: "string \<Rightarrow> bool"
    and obs :: "'e list \<Rightarrow> 'o"
    and comb :: "'o \<Rightarrow> 'o \<Rightarrow> 'o"
    and rel :: "'s \<Rightarrow> 's \<Rightarrow> bool"
  assumes put_inv: "inv s \<Longrightarrow> ok x \<Longrightarrow> inv (put s x)"
    and put_put: "put (put s x) y = put s (x @ y)"
    and ok_append: "ok x \<Longrightarrow> ok y \<Longrightarrow> ok (x @ y)"
    and obs_append: "obs (es @ fs) = comb (obs es) (obs fs)"
    and rel_refl: "rel s s"
    and rel_trans: "transp rel"
    and eat_more_upto: "inv s \<Longrightarrow> ok y \<Longrightarrow> eat s = (es, s', more) \<Longrightarrow>
      same_obs rel (observe obs eat (put s y)) (after_obs comb (obs es) (observe obs eat (put s' y)))"
begin

lemma comb_assoc: "comb (comb (obs es) (obs fs)) (obs gs) = comb (obs es) (comb (obs fs) (obs gs))"
  by (metis append.assoc obs_append)

lemma after_obs_append:
  "after_obs comb (obs (es @ fs)) (observe obs eat s) =
   after_obs comb (obs es) (after_obs comb (obs fs) (observe obs eat s))"
  by (cases "drain eat s") (auto simp: after_obs_def observe_def obs_append comb_assoc)

lemma observe_put_upto:
  assumes "inv s" "ok y" "drain eat s = Some (es, t)"
  shows "same_obs rel (observe obs eat (put s y)) (after_obs comb (obs es) (observe obs eat (put t y)))"
  using assms(1,3)
  by (rule drain_rel [where R = "\<lambda>s es t. same_obs rel (observe obs eat (put s y))
        (after_obs comb (obs es) (observe obs eat (put t y)))", rotated 2])
    (auto simp: after_obs_append intro: eat_more_upto assms(2) same_obs_trans [OF rel_trans] same_obs_after)

lemma ok_concat: "ok x \<Longrightarrow> (\<And>y. y \<in> set ys \<Longrightarrow> ok y) \<Longrightarrow> ok (x @ concat ys)"
  by (induction ys arbitrary: x) (auto simp flip: append_assoc intro: ok_append)

theorem chunks_upto:
  "inv s \<Longrightarrow> ok x \<Longrightarrow> (\<And>y. y \<in> set ys \<Longrightarrow> ok y) \<Longrightarrow>
   same_obs rel (observe obs eat (put s (x @ concat ys)))
     (run_chunks (\<lambda>s x. observe obs eat (put s x)) comb s x ys)"
proof (induction ys arbitrary: s x)
  case Nil
  then show ?case by (cases "drain eat (put s x)") (auto simp: same_obs_def observe_def rel_refl)
next
  case (Cons y ys)
  obtain es t where d: "drain eat (put s x) = Some (es, t)" "inv t"
    using drain_total put_inv Cons.prems(1,2) by blast
  have "same_obs rel (observe obs eat (put (put s x) (y @ concat ys)))
      (after_obs comb (obs es) (observe obs eat (put t (y @ concat ys))))"
    using d Cons.prems put_inv ok_concat by (intro observe_put_upto) auto
  moreover have "same_obs rel (observe obs eat (put t (y @ concat ys)))
      (run_chunks (\<lambda>s x. observe obs eat (put s x)) comb t y ys)"
    using Cons.IH [OF d(2)] Cons.prems(3) by simp
  ultimately have "same_obs rel (observe obs eat (put (put s x) (y @ concat ys)))
      (after_obs comb (obs es) (run_chunks (\<lambda>s x. observe obs eat (put s x)) comb t y ys))"
    by (blast intro: same_obs_trans [OF rel_trans] same_obs_after)
  then show ?case using d(1) by (simp add: observe_def [of _ _ "put s x"] put_put)
qed

lemma run_chunks_add:
  assumes add: "\<And>s x. inv s \<Longrightarrow> ok x \<Longrightarrow> add s x = observe obs eat (put s x)"
  shows "inv s \<Longrightarrow> ok x \<Longrightarrow> (\<And>y. y \<in> set ys \<Longrightarrow> ok y) \<Longrightarrow>
    run_chunks add comb s x ys = run_chunks (\<lambda>s x. observe obs eat (put s x)) comb s x ys"
proof (induction ys arbitrary: s x)
  case (Cons y ys)
  obtain out t where o: "observe obs eat (put s x) = Some (out, t)" "inv t"
    using observe_total [OF put_inv [OF Cons.prems(1,2)], of obs] by auto
  have "run_chunks add comb t y ys = run_chunks (\<lambda>s x. observe obs eat (put s x)) comb t y ys"
    using Cons.IH [OF o(2)] Cons.prems(3) by simp
  with o Cons.prems show ?case by (simp add: add)
qed (simp add: add)

theorem chunks_add_upto:
  assumes "\<And>s x. inv s \<Longrightarrow> ok x \<Longrightarrow> add s x = observe obs eat (put s x)"
    and "inv s" "ok x" "\<And>y. y \<in> set ys \<Longrightarrow> ok y"
  shows "same_obs rel (add s (x @ concat ys)) (run_chunks add comb s x ys)"
  using chunks_upto [OF assms(2-4)]
  by (simp add: run_chunks_add [OF assms] assms(1) [OF assms(2) ok_concat [OF assms(3,4)]])

end

text \<open>The exact contract, where the states are equal.\<close>

locale streaming = draining eat inv msr
  for eat :: "'s \<Rightarrow> 'e list \<times> 's \<times> bool" and inv :: "'s \<Rightarrow> bool" and msr :: "'s \<Rightarrow> nat" +
  fixes put :: "'s \<Rightarrow> string \<Rightarrow> 's"
    and ok :: "string \<Rightarrow> bool"
    and obs :: "'e list \<Rightarrow> 'o"
    and comb :: "'o \<Rightarrow> 'o \<Rightarrow> 'o"
  assumes put_inv: "inv s \<Longrightarrow> ok x \<Longrightarrow> inv (put s x)"
    and put_put: "put (put s x) y = put s (x @ y)"
    and ok_append: "ok x \<Longrightarrow> ok y \<Longrightarrow> ok (x @ y)"
    and obs_append: "obs (es @ fs) = comb (obs es) (obs fs)"
    and eat_more: "inv s \<Longrightarrow> ok y \<Longrightarrow> eat s = (es, s', more) \<Longrightarrow>
      observe obs eat (put s y) = after_obs comb (obs es) (observe obs eat (put s' y))"

sublocale streaming \<subseteq> exact: streaming_upto eat inv msr put ok obs comb "(=)"
  by unfold_locales
    (auto intro: put_inv ok_append simp: put_put obs_append same_obs_eq eat_more)

context streaming begin

lemma observe_put:
  "inv s \<Longrightarrow> ok y \<Longrightarrow> drain eat s = Some (es, t) \<Longrightarrow>
   observe obs eat (put s y) = after_obs comb (obs es) (observe obs eat (put t y))"
  using exact.observe_put_upto by (simp add: same_obs_eq)

theorem chunks_add:
  assumes "\<And>s x. inv s \<Longrightarrow> ok x \<Longrightarrow> add s x = observe obs eat (put s x)"
    and "inv s" "ok x" "\<And>y. y \<in> set ys \<Longrightarrow> ok y"
  shows "run_chunks add comb s x ys = add s (x @ concat ys)"
  using exact.chunks_add_upto [OF assms] by (simp add: same_obs_eq)

end

text \<open>Rewriting of observed loops, for the proofs of \<open>eat_more\<close>.\<close>

lemma observe_stop: "eat s = (es, s', False) \<Longrightarrow> observe obs eat s = Some (obs es, s')"
  by (simp add: observe_def drain_stop)

lemma observe_cong: "eat p = eat q \<Longrightarrow> observe obs eat p = observe obs eat q"
  unfolding observe_def by (simp add: drain.simps [of _ p] drain.simps [of _ q])

lemma observe_more:
  assumes "\<And>es fs. obs (es @ fs) = comb (obs es) (obs fs)" and "eat s = (es, s', True)"
  shows "observe obs eat s = after_obs comb (obs es) (observe obs eat s')"
  using assms by (cases "drain eat s'") (auto simp: observe_def drain_more after_obs_def)

end
