(* ===== verification/ThinkingParser.thy ===== *)
theory ThinkingParser
  imports Streaming
begin

text \<open>
  \<open>thinking/parser.go\<close>: the generic parser that separates the text between an opening and a closing
  tag (the "thinking") from the content after it, while the output is still streaming in.
  The \<open>eat\<close> of the source returns the thinking, the content and whether to go on; here the pair is
  the one event of the step, so that the loop of \<open>AddContent\<close> is \<^const>\<open>drain\<close>.
\<close>

section \<open>The parser\<close>

datatype thinking_state =
    thinkingState_LookingForOpening
  | thinkingState_ThinkingStartedEatingWhitespace
  | thinkingState_Thinking
  | thinkingState_ThinkingDoneEatingWhitespace
  | thinkingState_ThinkingDone

fun thinking_state_String :: "thinking_state \<Rightarrow> string" where
  "thinking_state_String thinkingState_LookingForOpening = ''LookingForOpening''"
| "thinking_state_String thinkingState_ThinkingStartedEatingWhitespace = ''ThinkingStartedEatingWhitespace''"
| "thinking_state_String thinkingState_Thinking = ''Thinking''"
| "thinking_state_String thinkingState_ThinkingDoneEatingWhitespace = ''ThinkingDoneEatingWhitespace''"
| "thinking_state_String thinkingState_ThinkingDone = ''ThinkingDone''"

record thinking_parser =
  tp_state :: thinking_state
  tp_OpeningTag :: string
  tp_ClosingTag :: string
  tp_acc :: string

definition thinking_eat :: "thinking_parser \<Rightarrow> (string \<times> string) list \<times> thinking_parser \<times> bool" where
  "thinking_eat p =
     (case tp_state p of
        thinkingState_LookingForOpening \<Rightarrow>
          (let trimmed = trim_left (tp_acc p)
           in if has_prefix trimmed (tp_OpeningTag p) then
                (let after = trim_left (join (tp_OpeningTag p) (tl (split_all trimmed (tp_OpeningTag p))))
                 in ([([], [])],
                     p\<lparr>tp_acc := after,
                       tp_state := if after = [] then thinkingState_ThinkingStartedEatingWhitespace
                                   else thinkingState_Thinking\<rparr>, True))
              else if has_prefix (tp_OpeningTag p) trimmed then ([([], [])], p, False)
              else if trimmed = [] then ([([], [])], p, False)
              else ([([], tp_acc p)], p\<lparr>tp_state := thinkingState_ThinkingDone, tp_acc := []\<rparr>, False))
      | thinkingState_ThinkingStartedEatingWhitespace \<Rightarrow>
          (let trimmed = trim_left (tp_acc p)
           in if trimmed = [] then ([([], [])], p\<lparr>tp_acc := []\<rparr>, False)
              else ([([], [])], p\<lparr>tp_state := thinkingState_Thinking, tp_acc := trimmed\<rparr>, True))
      | thinkingState_Thinking \<Rightarrow>
          (let acc = tp_acc p
           in if contains acc (tp_ClosingTag p) then
                (let split = split_all acc (tp_ClosingTag p);
                     remaining = trim_left (join (tp_ClosingTag p) (tl split))
                 in ([(hd split, remaining)],
                     p\<lparr>tp_acc := [],
                       tp_state := if remaining = [] then thinkingState_ThinkingDoneEatingWhitespace
                                   else thinkingState_ThinkingDone\<rparr>, False))
              else if overlap acc (tp_ClosingTag p) > 0 then
                (let n = length acc - overlap acc (tp_ClosingTag p)
                 in ([(take n acc, [])], p\<lparr>tp_acc := drop n acc\<rparr>, False))
              else ([(acc, [])], p\<lparr>tp_acc := []\<rparr>, False))
      | thinkingState_ThinkingDoneEatingWhitespace \<Rightarrow>
          (let trimmed = trim_left (tp_acc p)
           in ([([], trimmed)],
               p\<lparr>tp_acc := [],
                 tp_state := if trimmed \<noteq> [] then thinkingState_ThinkingDone
                             else thinkingState_ThinkingDoneEatingWhitespace\<rparr>, False))
      | thinkingState_ThinkingDone \<Rightarrow>
          ([([], tp_acc p)], p\<lparr>tp_acc := []\<rparr>, False))"

definition thinking_put :: "thinking_parser \<Rightarrow> string \<Rightarrow> thinking_parser" where
  "thinking_put p x = p\<lparr>tp_acc := tp_acc p @ x\<rparr>"

definition thinking_obs :: "(string \<times> string) list \<Rightarrow> string \<times> string" where
  "thinking_obs es = (concat (map fst es), concat (map snd es))"

definition pair_append :: "string \<times> string \<Rightarrow> string \<times> string \<Rightarrow> string \<times> string" where
  "pair_append a b = (fst a @ fst b, snd a @ snd b)"

text \<open>
  With an empty tag \<open>strings.Split("", "")\<close> is the empty slice, and the code panics when it slices
  or indexes it.  Only the first step of a call can meet this (\<open>thinking_no_late_panic\<close>).
  \<open>AddContent\<close> is \<open>None\<close> for the panic.
\<close>

definition thinking_panics :: "thinking_parser \<Rightarrow> bool" where
  "thinking_panics p =
     (case tp_state p of
        thinkingState_LookingForOpening \<Rightarrow> tp_OpeningTag p = [] \<and> trim_left (tp_acc p) = []
      | thinkingState_Thinking \<Rightarrow> tp_ClosingTag p = [] \<and> tp_acc p = []
      | _ \<Rightarrow> False)"

definition thinking_AddContent ::
  "thinking_parser \<Rightarrow> string \<Rightarrow> ((string \<times> string) \<times> thinking_parser) option" where
  "thinking_AddContent p content =
     (let p' = thinking_put p content
      in if thinking_panics p' then None else observe thinking_obs thinking_eat p')"

section \<open>Contract\<close>

definition thinking_inv :: "thinking_parser \<Rightarrow> bool" where
  "thinking_inv p \<longleftrightarrow> good_tag (tp_OpeningTag p) \<and> good_tag (tp_ClosingTag p) \<and> valid_utf8 (tp_acc p)"

definition thinking_msr :: "thinking_parser \<Rightarrow> nat" where
  "thinking_msr p =
     (case tp_state p of
        thinkingState_LookingForOpening \<Rightarrow> 2
      | thinkingState_ThinkingStartedEatingWhitespace \<Rightarrow> 1
      | _ \<Rightarrow> 0)"

lemma split_all_prefix:
  assumes "sep \<noteq> []" "has_prefix s sep"
  shows "join sep (tl (split_all s sep)) = drop (length sep) s"
proof -
  obtain r where s: "s = sep @ r" using assms(2) by (auto simp: has_prefix_iff)
  then have "index s sep = Some 0" using index_append_le [of "[]" sep r] by auto
  then have "cut s sep = Some ([], r)" using s by (simp add: cut_def)
  then show ?thesis using join_tl_split_all assms(1) s by fastforce
qed

lemma thinking_no_late_panic:
  "thinking_eat p = (es, p', True) \<Longrightarrow> \<not> thinking_panics p'"
  by (auto simp: thinking_eat_def thinking_panics_def Let_def split: thinking_state.splits if_splits)

lemma valid_drop_prefix: "valid_utf8 s \<Longrightarrow> valid_utf8 p \<Longrightarrow> has_prefix s p \<Longrightarrow> valid_utf8 (drop (length p) s)"
  by (auto simp: has_prefix_iff)

lemma thinking_eat_tags:
  "thinking_eat p = (es, p', m) \<Longrightarrow>
   tp_OpeningTag p' = tp_OpeningTag p \<and> tp_ClosingTag p' = tp_ClosingTag p"
  by (auto simp: thinking_eat_def Let_def split: thinking_state.splits if_splits)

lemma thinking_eat_inv: "thinking_inv p \<Longrightarrow> thinking_eat p = (es, p', m) \<Longrightarrow> thinking_inv p'"
  unfolding thinking_inv_def
  using thinking_eat_tags [of p es p' m]
  by (auto simp: thinking_eat_def Let_def split_all_prefix good_tag_nonempty
      intro!: trim_left_valid valid_drop_prefix valid_overlap(2) simp: good_tag_def
      split: thinking_state.splits if_splits)


lemma thinking_eat_msr:
  "thinking_inv p \<Longrightarrow> thinking_eat p = (es, p', True) \<Longrightarrow> thinking_msr p' < thinking_msr p"
  by (auto simp: thinking_eat_def thinking_msr_def Let_def split: thinking_state.splits if_splits)

lemma thinking_put_inv: "thinking_inv p \<Longrightarrow> valid_utf8 x \<Longrightarrow> thinking_inv (thinking_put p x)"
  by (simp add: thinking_inv_def thinking_put_def)

lemma thinking_put_put: "thinking_put (thinking_put p x) y = thinking_put p (x @ y)"
  by (simp add: thinking_put_def)

lemma thinking_obs_append: "thinking_obs (es @ fs) = pair_append (thinking_obs es) (thinking_obs fs)"
  by (simp add: thinking_obs_def pair_append_def)

lemma pair_append_Nil [simp]: "pair_append ([], []) a = a" "pair_append a ([], []) = a"
  by (simp_all add: pair_append_def)

lemma after_obs_Nil: "after_obs pair_append ([], []) r = r"
  by (cases r) (auto simp: after_obs_def)

text \<open>The step in each state, in terms of cutting.\<close>

lemma thinking_eat_closing:
  assumes "tp_state p = thinkingState_Thinking" "tp_ClosingTag p \<noteq> []"
  shows "thinking_eat p =
    (case cut (tp_acc p) (tp_ClosingTag p) of
       Some (a, b) \<Rightarrow>
         ([(a, trim_left b)],
          p\<lparr>tp_acc := [], tp_state := if trim_left b = [] then thinkingState_ThinkingDoneEatingWhitespace
                                    else thinkingState_ThinkingDone\<rparr>, False)
     | None \<Rightarrow>
         (case hold_tag (tp_acc p) (overlap (tp_acc p) (tp_ClosingTag p)) of
            (out, keep) \<Rightarrow> ([(out, [])], p\<lparr>tp_acc := keep\<rparr>, False)))"
proof (cases "cut (tp_acc p) (tp_ClosingTag p)")
  case None
  then have "\<not> contains (tp_acc p) (tp_ClosingTag p)" by (simp add: cut_None_iff)
  with assms None show ?thesis by (auto simp: thinking_eat_def Let_def hold_tag_def)
next
  case (Some ab)
  then obtain a b where ab: "cut (tp_acc p) (tp_ClosingTag p) = Some (a, b)" by (cases ab) auto
  with assms show ?thesis
    by (simp add: thinking_eat_def Let_def cut_contains [OF ab] join_tl_split_all [OF ab])
qed

lemma thinking_eat_opening:
  assumes "tp_state p = thinkingState_LookingForOpening" "tp_OpeningTag p \<noteq> []"
  shows "thinking_eat p =
     (let trimmed = trim_left (tp_acc p) in
      if has_prefix trimmed (tp_OpeningTag p) then
        (let after = trim_left (drop (length (tp_OpeningTag p)) trimmed)
         in ([([], [])],
             p\<lparr>tp_acc := after,
               tp_state := if after = [] then thinkingState_ThinkingStartedEatingWhitespace
                           else thinkingState_Thinking\<rparr>, True))
      else if has_prefix (tp_OpeningTag p) trimmed then ([([], [])], p, False)
      else ([([], tp_acc p)], p\<lparr>tp_state := thinkingState_ThinkingDone, tp_acc := []\<rparr>, False))"
  using assms by (simp add: thinking_eat_def Let_def split_all_prefix)

lemma thinking_eat_started:
  "tp_state p = thinkingState_ThinkingStartedEatingWhitespace \<Longrightarrow>
   thinking_eat p =
     (if trim_left (tp_acc p) = [] then ([([], [])], p\<lparr>tp_acc := []\<rparr>, False)
      else ([([], [])], p\<lparr>tp_state := thinkingState_Thinking, tp_acc := trim_left (tp_acc p)\<rparr>, True))"
  by (simp add: thinking_eat_def Let_def)

lemma thinking_eat_done_eating:
  "tp_state p = thinkingState_ThinkingDoneEatingWhitespace \<Longrightarrow>
   thinking_eat p =
     ([([], trim_left (tp_acc p))],
      p\<lparr>tp_acc := [], tp_state := if trim_left (tp_acc p) \<noteq> [] then thinkingState_ThinkingDone
                                else thinkingState_ThinkingDoneEatingWhitespace\<rparr>, False)"
  by (simp add: thinking_eat_def Let_def)

lemma thinking_eat_done:
  "tp_state p = thinkingState_ThinkingDone \<Longrightarrow> thinking_eat p = ([([], tp_acc p)], p\<lparr>tp_acc := []\<rparr>, False)"
  by (simp add: thinking_eat_def)

lemmas thinking_eats = thinking_eat_closing thinking_eat_opening thinking_eat_started
  thinking_eat_done_eating thinking_eat_done

lemma thinking_observe_more:
  "thinking_eat p = ([([], [])], p', True) \<Longrightarrow>
   observe thinking_obs thinking_eat p = observe thinking_obs thinking_eat p'"
  using observe_more [of thinking_obs pair_append thinking_eat p "[([], [])]" p', OF thinking_obs_append]
  by (simp add: after_obs_Nil thinking_obs_def)

lemma thinking_obs_single [simp]: "thinking_obs [(a, b)] = (a, b)"
  by (simp add: thinking_obs_def)

text \<open>Input that arrives after a step could as well have been there before it, state by state.\<close>

lemma thinking_more_started:
  assumes inv: "thinking_inv p" and st: "tp_state p = thinkingState_ThinkingStartedEatingWhitespace"
    and e: "thinking_eat p = (es, p', m)"
  shows "observe thinking_obs thinking_eat (thinking_put p y) =
    after_obs pair_append (thinking_obs es) (observe thinking_obs thinking_eat (thinking_put p' y))"
proof (cases "trim_left (tp_acc p) = []")
  case True
  let ?q = "p\<lparr>tp_acc := y\<rparr>"
  from True e st have p': "es = [([], [])]" "thinking_put p' y = ?q"
    by (auto simp: thinking_eat_started thinking_put_def)
  have same: "thinking_eat (thinking_put p y) = thinking_eat ?q"
    using True inv st by (simp add: thinking_eat_started thinking_put_def thinking_inv_def trim_left_append)
  then show ?thesis using p' observe_cong [OF same] by (simp add: after_obs_Nil)
next
  case False
  with inv st e have "es = [([], [])]"
    "thinking_eat (thinking_put p y) = ([([], [])], thinking_put p' y, True)"
    by (auto simp: thinking_eat_started thinking_put_def thinking_inv_def trim_left_append)
  then show ?thesis by (simp add: thinking_observe_more after_obs_Nil)
qed

lemma thinking_more_opening:
  assumes inv: "thinking_inv p" and st: "tp_state p = thinkingState_LookingForOpening"
    and e: "thinking_eat p = (es, p', m)"
  shows "observe thinking_obs thinking_eat (thinking_put p y) =
    after_obs pair_append (thinking_obs es) (observe thinking_obs thinking_eat (thinking_put p' y))"
proof -
  let ?o = "tp_OpeningTag p" and ?t = "trim_left (tp_acc p)"
  have o: "?o \<noteq> []" and v: "valid_utf8 (tp_acc p)" "valid_utf8 ?o"
    using inv by (auto simp: thinking_inv_def good_tag_def)
  note open_eat = thinking_eat_opening [OF st o] and e_def = e
  have st_y: "tp_state (thinking_put p y) = thinkingState_LookingForOpening"
    and o_y: "tp_OpeningTag (thinking_put p y) = ?o" and acc_y: "tp_acc (thinking_put p y) = tp_acc p @ y"
    using st by (simp_all add: thinking_put_def)
  have eat_y: "thinking_eat (thinking_put p y) = (let trimmed = trim_left (tp_acc p @ y) in
      if has_prefix trimmed ?o then
        (let after = trim_left (drop (length ?o) trimmed)
         in ([([], [])],
             p\<lparr>tp_acc := after,
               tp_state := if after = [] then thinkingState_ThinkingStartedEatingWhitespace
                           else thinkingState_Thinking\<rparr>, True))
      else if has_prefix ?o trimmed then ([([], [])], thinking_put p y, False)
      else ([([], tp_acc p @ y)], p\<lparr>tp_state := thinkingState_ThinkingDone, tp_acc := []\<rparr>, False))"
    using thinking_eat_opening [OF st_y] o by (simp add: o_y acc_y Let_def) (simp add: thinking_put_def)
  consider (found) "has_prefix ?t ?o" | (wait) "\<not> has_prefix ?t ?o" "has_prefix ?o ?t"
    | (skip) "\<not> has_prefix ?t ?o" "\<not> has_prefix ?o ?t" by blast
  then show ?thesis
  proof cases
    case found
    then obtain r where r: "?t = ?o @ r" by (auto simp: has_prefix_iff)
    with v have vr: "valid_utf8 r" using trim_left_valid by (metis valid_utf8_append)
    have t_y: "trim_left (tp_acc p @ y) = ?o @ (r @ y)" using v r o by (simp add: trim_left_append)
    show ?thesis
    proof (cases "trim_left r = []")
      case True
      let ?q = "p\<lparr>tp_state := thinkingState_ThinkingStartedEatingWhitespace, tp_acc := y\<rparr>"
      have p': "es = [([], [])]" "thinking_put p' y = ?q"
        using e r True by (auto simp: open_eat Let_def thinking_put_def)
      have "thinking_eat (thinking_put p y) =
        ([([], [])], ?q\<lparr>tp_acc := trim_left y, tp_state := if trim_left y = [] then
            thinkingState_ThinkingStartedEatingWhitespace else thinkingState_Thinking\<rparr>, True)"
        using vr True by (simp add: eat_y t_y Let_def trim_left_append)
      moreover have "observe thinking_obs thinking_eat
          (?q\<lparr>tp_acc := trim_left y, tp_state := if trim_left y = [] then
            thinkingState_ThinkingStartedEatingWhitespace else thinkingState_Thinking\<rparr>)
        = observe thinking_obs thinking_eat ?q"
      proof (cases "trim_left y = []")
        case True
        then show ?thesis by (intro observe_cong) (simp add: thinking_eat_started)
      next
        case False
        then show ?thesis
          by (intro thinking_observe_more [symmetric]) (simp add: thinking_eat_started)
      qed
      ultimately show ?thesis using p' by (simp add: thinking_observe_more after_obs_Nil)
    next
      case False
      have "es = [([], [])]" "p' = p\<lparr>tp_acc := trim_left r, tp_state := thinkingState_Thinking\<rparr>"
        using e r False by (auto simp: open_eat Let_def)
      moreover from this have "thinking_eat (thinking_put p y) = ([([], [])], thinking_put p' y, True)"
        using vr False by (subst eat_y) (simp add: t_y Let_def trim_left_append thinking_put_def)
      ultimately show ?thesis by (simp add: thinking_observe_more after_obs_Nil)
    qed
  next
    case wait
    then have "es = [([], [])]" "p' = p" using e by (auto simp: open_eat Let_def)
    then show ?thesis by (simp add: after_obs_Nil)
  next
    case skip
    then have ne: "?t \<noteq> []" by auto
    have "\<not> has_prefix (?t @ y) ?o" "\<not> has_prefix ?o (?t @ y)"
      using has_prefix_diverge skip by blast+
    then have "thinking_eat (thinking_put p y) =
      ([([], tp_acc p @ y)], p\<lparr>tp_state := thinkingState_ThinkingDone, tp_acc := []\<rparr>, False)"
      using v ne by (simp add: eat_y Let_def trim_left_append)
    moreover have "es = [([], tp_acc p)]" "p' = p\<lparr>tp_state := thinkingState_ThinkingDone, tp_acc := []\<rparr>"
      using e skip by (auto simp: open_eat Let_def)
    ultimately show ?thesis
      by (simp add: observe_stop thinking_eat_done thinking_put_def after_obs_def pair_append_def)
  qed
qed

lemma thinking_more_closing:
  assumes inv: "thinking_inv p" and st: "tp_state p = thinkingState_Thinking"
    and e: "thinking_eat p = (es, p', m)"
  shows "observe thinking_obs thinking_eat (thinking_put p y) =
    after_obs pair_append (thinking_obs es) (observe thinking_obs thinking_eat (thinking_put p' y))"
proof -
  let ?c = "tp_ClosingTag p" and ?a = "tp_acc p"
  have c: "good_tag ?c" "?c \<noteq> []" and v: "valid_utf8 ?a"
    using inv by (auto simp: thinking_inv_def good_tag_def)
  have st_y: "tp_state (thinking_put q y) = tp_state q" "tp_ClosingTag (thinking_put q y) = tp_ClosingTag q"
    "tp_acc (thinking_put q y) = tp_acc q @ y" for q by (simp_all add: thinking_put_def)
  show ?thesis
  proof (cases "cut ?a ?c")
    case (Some ab)
    then obtain a b where ab: "cut ?a ?c = Some (a, b)" by (cases ab) auto
    have vb: "valid_utf8 b" using valid_cut v c ab by blast
    have "es = [(a, trim_left b)]" and p': "p' = p\<lparr>tp_acc := [],
      tp_state := if trim_left b = [] then thinkingState_ThinkingDoneEatingWhitespace
                  else thinkingState_ThinkingDone\<rparr>"
      using e c ab st by (auto simp: thinking_eat_closing)
    moreover have "observe thinking_obs thinking_eat (thinking_put p y) = Some ((a, trim_left (b @ y)),
      p\<lparr>tp_acc := [], tp_state := if trim_left (b @ y) = [] then thinkingState_ThinkingDoneEatingWhitespace
                  else thinkingState_ThinkingDone\<rparr>)"
      using st c by (intro observe_stop [THEN trans])
        (auto simp: thinking_eat_closing st_y cut_append [OF ab], simp_all add: thinking_put_def)
    moreover have "observe thinking_obs thinking_eat (thinking_put p' y) =
      Some (([], if trim_left b = [] then trim_left y else y), p\<lparr>tp_acc := [],
        tp_state := if trim_left b = [] \<and> trim_left y = [] then thinkingState_ThinkingDoneEatingWhitespace
                    else thinkingState_ThinkingDone\<rparr>)"
    proof (cases "trim_left b = []")
      case True
      then show ?thesis
        by (simp add: p' thinking_put_def observe_stop [OF thinking_eat_done_eating])
    next
      case False
      then show ?thesis by (simp add: p' thinking_put_def observe_stop [OF thinking_eat_done])
    qed
    ultimately show ?thesis
      using vb by (auto simp: after_obs_def pair_append_def trim_left_append)
  next
    case None
    obtain out keep where hold: "hold_tag ?a (overlap ?a ?c) = (out, keep)" by force
    have a: "?a = out @ keep" and ov: "overlap (out @ keep) ?c \<le> length keep"
      using hold_tag_parts [OF hold overlap_le] by auto
    have nc: "\<not> contains (out @ keep) ?c" using None a by (simp add: cut_None_iff)
    have es: "es = [(out, [])]" and p': "p' = p\<lparr>tp_acc := keep\<rparr>"
      using e c None st hold by (auto simp: thinking_eat_closing)
    have "thinking_eat (thinking_put p y) =
      (case thinking_eat (thinking_put p' y) of (es', q, m) \<Rightarrow> (map (apfst ((@) out)) es', q, m))"
      using st c cut_hold [OF nc ov, of y] overlap_hold [OF ov, of y]
        hold_tag_append [OF overlap_le [of "keep @ y" ?c], of out]
      by (simp add: thinking_eat_closing st_y a p')
        (auto simp: thinking_put_def a split: option.split prod.split)
    moreover have "\<exists>u v q. thinking_eat (thinking_put p' y) = ([(u, v)], q, False)"
      using st c by (auto simp: thinking_eat_closing st_y p' split: option.split prod.split)
    ultimately show ?thesis
      by (auto simp: observe_stop es after_obs_def pair_append_def)
  qed
qed

lemma thinking_more_done:
  assumes "thinking_inv p" and "thinking_eat p = (es, p', m)"
    and "tp_state p \<in> {thinkingState_ThinkingDoneEatingWhitespace, thinkingState_ThinkingDone}"
  shows "observe thinking_obs thinking_eat (thinking_put p y) =
    after_obs pair_append (thinking_obs es) (observe thinking_obs thinking_eat (thinking_put p' y))"
proof (cases "tp_state p = thinkingState_ThinkingDone")
  case True
  with assms(2) have "es = [([], tp_acc p)]" "p' = p\<lparr>tp_acc := []\<rparr>" by (auto simp: thinking_eat_done)
  with True show ?thesis
    by (simp add: observe_stop thinking_eat_done thinking_put_def after_obs_def pair_append_def)
next
  case False
  let ?t = "trim_left (tp_acc p)"
  from False assms have st: "tp_state p = thinkingState_ThinkingDoneEatingWhitespace" by auto
  then have es: "es = [([], ?t)]" and p': "p' = p\<lparr>tp_acc := [], tp_state := if ?t \<noteq> [] then
      thinkingState_ThinkingDone else thinkingState_ThinkingDoneEatingWhitespace\<rparr>"
    using assms(2) by (auto simp: thinking_eat_done_eating)
  have t_y: "trim_left (tp_acc p @ y) = (if ?t = [] then trim_left y else ?t @ y)"
    using assms(1) by (simp add: trim_left_append thinking_inv_def)
  show ?thesis
    using st by (cases "?t = []")
      (simp_all add: observe_stop thinking_eat_done thinking_eat_done_eating thinking_put_def
        after_obs_def pair_append_def es p' t_y)
qed

interpretation thinking: streaming thinking_eat thinking_inv thinking_msr thinking_put valid_utf8
  thinking_obs pair_append
proof unfold_locales
  fix p y es p' m
  assume "thinking_inv p" "valid_utf8 y" "thinking_eat p = (es, p', m)"
  then show "observe thinking_obs thinking_eat (thinking_put p y) =
    after_obs pair_append (thinking_obs es) (observe thinking_obs thinking_eat (thinking_put p' y))"
    by (cases "tp_state p")
      (auto intro: thinking_more_started thinking_more_opening thinking_more_closing thinking_more_done)
qed (auto intro: thinking_eat_inv thinking_eat_msr thinking_put_inv
    simp: thinking_put_put thinking_obs_append)

lemma thinking_inv_no_panic: "thinking_inv p \<Longrightarrow> \<not> thinking_panics p"
  by (auto simp: thinking_inv_def thinking_panics_def good_tag_def split: thinking_state.split)

lemma thinking_AddContent_observe:
  "thinking_inv p \<Longrightarrow> valid_utf8 x \<Longrightarrow>
   thinking_AddContent p x = observe thinking_obs thinking_eat (thinking_put p x)"
  using thinking_inv_no_panic [OF thinking_put_inv] by (simp add: thinking_AddContent_def)

section \<open>What a caller sees\<close>

text \<open>Cutting the stream into chunks makes no difference.  For tags that are not empty and well
  encoded, and chunks that are well encoded, the thinking and the content returned by any sequence
  of calls of \<open>AddContent\<close>, concatenated, and the state reached, are those of one call with the
  whole text.\<close>

theorem thinking_chunk_invariance:
  assumes "good_tag (tp_OpeningTag p)" "good_tag (tp_ClosingTag p)" "valid_utf8 (tp_acc p)"
    and "valid_utf8 x" "\<forall>y \<in> set ys. valid_utf8 y"
  shows "run_chunks thinking_AddContent pair_append p x ys = thinking_AddContent p (x @ concat ys)"
proof -
  have inv: "thinking_inv p" using assms by (simp add: thinking_inv_def)
  show ?thesis
    using inv assms(4,5) thinking_AddContent_observe
    by (intro thinking.chunks_add) auto
qed

theorem thinking_chunk_invariance_witness:
  "run_chunks thinking_AddContent pair_append
     \<lparr>tp_state = thinkingState_LookingForOpening, tp_OpeningTag = ''<think>'', tp_ClosingTag = ''</think>'', tp_acc = []\<rparr>
     '' <thi'' [''nk> h'', ''m</th'', ''ink> ok''] =
   thinking_AddContent
     \<lparr>tp_state = thinkingState_LookingForOpening, tp_OpeningTag = ''<think>'', tp_ClosingTag = ''</think>'', tp_acc = []\<rparr>
     ('' <thi'' @ concat [''nk> h'', ''m</th'', ''ink> ok''])"
  by (rule thinking_chunk_invariance) (simp_all add: good_tag_def valid_utf8_asciiI)






end
