(* ===== verification/ApiTypes.thy ===== *)
theory ApiTypes
  imports GoStrings Complex_Main "HOL-Library.Word" "HOL-Library.Signed_Division"
begin

text \<open>
  The types of \<open>api/types.go\<close> the parsers use, and the thinking controls of a request:
  \<open>types/model/thinking.go\<close> and \<open>types/model/think_budget.go\<close>.  A pointer that may be nil is an
  \<open>option\<close>.  A value of type \<open>any\<close> is \<open>None\<close> for nil and otherwise one of the dynamic types the code
  distinguishes.  A Go \<open>int\<close> has 64 bits: \<open>wrap64\<close> is the value an operation leaves in it.
\<close>

section \<open>Messages, tools and tool calls\<close>

text \<open>The fields of \<open>api.Message\<close> the parsers read.\<close>

record api_message =
  am_Role :: string
  am_Content :: string
  am_Thinking :: string

text \<open>A tool; the extension stands for the fields the parsers pass through.\<close>

record api_tool =
  at_Name :: string

record 'args api_tool_call =
  tc_Index :: nat
  tc_Name :: string
  tc_Arguments :: 'args

section \<open>Thinking controls\<close>

datatype go_any = GBool bool | GString string | GInt int | GOther nat

text \<open>\<open>ThinkValue\<close>: its \<open>Value\<close>.\<close>

type_synonym think_value = "go_any option"

definition think_IsValid :: "think_value option \<Rightarrow> bool" where
  "think_IsValid t =
     (case t of
        None \<Rightarrow> True
      | Some None \<Rightarrow> True
      | Some (Some v) \<Rightarrow> (case v of GBool _ \<Rightarrow> True | GString _ \<Rightarrow> True | _ \<Rightarrow> False))"

definition think_IsBool :: "think_value option \<Rightarrow> bool" where
  "think_IsBool t = (case t of Some (Some (GBool _)) \<Rightarrow> True | _ \<Rightarrow> False)"

definition think_IsString :: "think_value option \<Rightarrow> bool" where
  "think_IsString t = (case t of Some (Some (GString _)) \<Rightarrow> True | _ \<Rightarrow> False)"

definition think_Bool :: "think_value option \<Rightarrow> bool" where
  "think_Bool t = (case t of Some (Some (GBool b)) \<Rightarrow> b | Some (Some (GString _)) \<Rightarrow> True | _ \<Rightarrow> False)"

definition think_String :: "think_value option \<Rightarrow> string" where
  "think_String t =
     (case t of
        Some (Some (GString s)) \<Rightarrow> s
      | Some (Some (GBool b)) \<Rightarrow> (if b then ''medium'' else [])
      | _ \<Rightarrow> [])"

text \<open>\<open>Thinking\<close>: the values a model advertises.  \<open>slices.Contains\<close> compares values of type \<open>any\<close>.\<close>

record thinking_descr =
  td_Values :: "go_any option list"
  td_Default :: "go_any option"

definition thinking_Supports :: "thinking_descr option \<Rightarrow> go_any option \<Rightarrow> bool" where
  "thinking_Supports t v =
     (case t of
        None \<Rightarrow> False
      | Some d \<Rightarrow> (case v of
            Some (GBool _) \<Rightarrow> v \<in> set (td_Values d)
          | Some (GString _) \<Rightarrow> v \<in> set (td_Values d)
          | _ \<Rightarrow> False))"

text \<open>The loop of \<open>Valid\<close>; \<open>seen\<close> is \<open>t.Values[:i]\<close>.\<close>

fun thinking_values_ok :: "go_any option list \<Rightarrow> go_any option list \<Rightarrow> bool" where
  "thinking_values_ok seen [] = True"
| "thinking_values_ok seen (v # vs) =
     (case v of
        Some (GBool _) \<Rightarrow> v \<notin> set seen \<and> thinking_values_ok (seen @ [v]) vs
      | Some (GString s) \<Rightarrow> s \<noteq> [] \<and> v \<notin> set seen \<and> thinking_values_ok (seen @ [v]) vs
      | _ \<Rightarrow> False)"

definition thinking_Valid :: "thinking_descr option \<Rightarrow> bool" where
  "thinking_Valid t =
     (case t of
        None \<Rightarrow> False
      | Some d \<Rightarrow> td_Values d \<noteq> [] \<and> thinking_values_ok [] (td_Values d) \<and> thinking_Supports t (td_Default d))"

definition thinking_Clone :: "thinking_descr option \<Rightarrow> thinking_descr option" where
  "thinking_Clone t =
     (case t of None \<Rightarrow> None | Some d \<Rightarrow> Some \<lparr>td_Values = td_Values d, td_Default = td_Default d\<rparr>)"

section \<open>Thinking budgets\<close>

definition wrap64 :: "int \<Rightarrow> int" where
  "wrap64 x = sint (word_of_int x :: 64 word)"

text \<open>A \<open>float64\<close>, as far as the code looks at it.\<close>

datatype go_float = Finite rat | PosInf | NegInf | NotANumber

text \<open>A decoded JSON datum.\<close>

datatype json_value = JNull | JBool bool | JNumber go_float | JString string | JOther nat

datatype think_budget_error = ErrInvalidThinkBudget

definition thinkBudgetShares :: "string list" where
  "thinkBudgetShares = [''minimal'', ''low'', ''medium'', ''high'', ''max'']"

definition thinkBudgetFraction :: "string \<Rightarrow> (int \<times> int) option" where
  "thinkBudgetFraction =
     map_of [(''max'', 4, 5), (''high'', 1, 2), (''medium'', 1, 4), (''low'', 1, 8), (''minimal'', 1, 16)]"

definition thinkBudgetAliases :: "string \<Rightarrow> string option" where
  "thinkBudgetAliases = map_of [(''xhigh'', ''max'')]"

definition canonicalThinkBudgetShare :: "string \<Rightarrow> string" where
  "canonicalThinkBudgetShare share =
     (case thinkBudgetAliases share of Some canonical \<Rightarrow> canonical | None \<Rightarrow> share)"

definition IsThinkBudgetShare :: "string \<Rightarrow> bool" where
  "IsThinkBudgetShare share \<longleftrightarrow> canonicalThinkBudgetShare share \<in> set thinkBudgetShares"

type_synonym think_budget = "go_any option"

definition budget_Tokens :: "think_budget option \<Rightarrow> int \<Rightarrow> int" where
  "budget_Tokens b window =
     (case b of
        Some (Some (GInt v)) \<Rightarrow> (if v > 0 then v else 0)
      | Some (Some (GString v)) \<Rightarrow>
          (case thinkBudgetFraction (canonicalThinkBudgetShare v) of
             None \<Rightarrow> 0
           | Some (num, den) \<Rightarrow>
               if window \<le> 0 then 0
               else let budget = wrap64 (window * num) sdiv den in if budget > 0 then budget else 0)
      | _ \<Rightarrow> 0)"

text \<open>\<open>thinkBudgetCount\<close>.  Go leaves the conversion of a float that is out of the range of \<open>int\<close> to the
  machine: \<open>conv\<close> is what it gives.\<close>

definition float_to_int :: "(go_float \<Rightarrow> int) \<Rightarrow> go_float \<Rightarrow> int" where
  "float_to_int conv v =
     (case v of
        Finite q \<Rightarrow>
          (if - (2 ^ 63) \<le> q \<and> q < 2 ^ 63 then (if 0 \<le> q then \<lfloor>q\<rfloor> else \<lceil>q\<rceil>) else conv v)
      | _ \<Rightarrow> conv v)"

definition is_trunc :: "go_float \<Rightarrow> bool" where
  "is_trunc v = (case v of Finite q \<Rightarrow> of_int \<lfloor>q\<rfloor> = q | PosInf \<Rightarrow> True | NegInf \<Rightarrow> True | NotANumber \<Rightarrow> False)"

definition float_nonpos :: "go_float \<Rightarrow> bool" where
  "float_nonpos v = (case v of Finite q \<Rightarrow> q \<le> 0 | NegInf \<Rightarrow> True | _ \<Rightarrow> False)"

definition thinkBudgetCount :: "(go_float \<Rightarrow> int) \<Rightarrow> go_float \<Rightarrow> think_budget_error + int" where
  "thinkBudgetCount conv v =
     (if \<not> is_trunc v then Inl ErrInvalidThinkBudget
      else if float_nonpos v then Inl ErrInvalidThinkBudget
      else Inr (float_to_int conv v))"

text \<open>\<open>UnmarshalJSON\<close> after decoding; \<open>parse_float\<close> is \<open>strconv.ParseFloat\<close>, \<open>None\<close> for an error.\<close>

definition budget_Unmarshal ::
  "(string \<Rightarrow> go_float option) \<Rightarrow> (go_float \<Rightarrow> int) \<Rightarrow> json_value \<Rightarrow> think_budget_error + think_budget" where
  "budget_Unmarshal parse_float conv jv =
     (case jv of
        JNull \<Rightarrow> Inr None
      | JNumber v \<Rightarrow> (case thinkBudgetCount conv v of Inl e \<Rightarrow> Inl e | Inr n \<Rightarrow> Inr (Some (GInt n)))
      | JString s \<Rightarrow>
          (case parse_float s of
             Some v \<Rightarrow> (case thinkBudgetCount conv v of Inl e \<Rightarrow> Inl e | Inr n \<Rightarrow> Inr (Some (GInt n)))
           | None \<Rightarrow>
               if \<not> IsThinkBudgetShare s then Inl ErrInvalidThinkBudget else Inr (Some (GString s)))
      | _ \<Rightarrow> Inl ErrInvalidThinkBudget)"

text \<open>\<open>ThinkValue.UnmarshalJSON\<close> after decoding; \<open>None\<close> is the refusal.\<close>

definition think_Unmarshal :: "json_value \<Rightarrow> think_value option" where
  "think_Unmarshal jv =
     (case jv of
        JNull \<Rightarrow> Some None
      | JBool b \<Rightarrow> Some (Some (GBool b))
      | JString s \<Rightarrow> Some (Some (GString s))
      | _ \<Rightarrow> None)"

text \<open>\<open>api.ThinkBudgetWindow\<close>.\<close>

definition ThinkBudgetWindow :: "int \<Rightarrow> int \<Rightarrow> int" where
  "ThinkBudgetWindow numCtx numPredict =
     (if numPredict \<le> 0 then numCtx
      else if numCtx > 0 then min numPredict numCtx
      else numPredict)"

section \<open>Properties\<close>






text \<open>What \<open>UnmarshalJSON\<close> accepts is valid.  If it succeeds on a finite number below 2 to the 63 or
  on a string that is not a number, the budget is unset, a positive count, or the name of a share.\<close>

theorem think_budget_unmarshal_sound:
  assumes "budget_Unmarshal parse_float conv jv = Inr b"
    and "\<And>v. jv = JNumber v \<or> (\<exists>s. jv = JString s \<and> parse_float s = Some v) \<Longrightarrow>
      \<exists>q. v = Finite q \<and> q < 2 ^ 63"
  shows "b = None \<or> (\<exists>n > 0. b = Some (GInt n)) \<or> (\<exists>s. b = Some (GString s) \<and> IsThinkBudgetShare s)"
proof -
  have count: "n > 0" if "thinkBudgetCount conv (Finite q) = Inr n" "q < 2 ^ 63" for q n
  proof -
    from that have q: "of_int \<lfloor>q\<rfloor> = q" "0 < q" "n = \<lfloor>q\<rfloor>"
      by (auto simp: thinkBudgetCount_def is_trunc_def float_nonpos_def float_to_int_def split: if_splits)
    then show ?thesis by (metis of_int_0_less_iff)
  qed
  from assms show ?thesis
    by (cases jv) (auto simp: budget_Unmarshal_def dest!: count split: sum.splits option.splits if_splits)
qed

theorem think_budget_unmarshal_sound_witness:
  "Some (GString ''high'') = None \<or> (\<exists>n > 0. Some (GString ''high'') = Some (GInt n)) \<or>
    (\<exists>s. Some (GString ''high'') = Some (GString s) \<and> IsThinkBudgetShare s)"
  by (rule think_budget_unmarshal_sound [where parse_float = "\<lambda>_. None" and conv = "\<lambda>_. 0" and jv = "JString ''high''"])
    (simp_all add: budget_Unmarshal_def IsThinkBudgetShare_def canonicalThinkBudgetShare_def thinkBudgetAliases_def
      thinkBudgetShares_def)

text \<open>An infinite budget is accepted.  Whatever the machine makes of it, the text \<open>inf\<close>, which
  \<open>strconv.ParseFloat\<close> reads as infinity, passes the checks, and where the conversion gives a number
  that is not positive, as on amd64, the accepted budget bounds nothing.\<close>

theorem think_budget_accepts_infinity:
  assumes "parse_float ''inf'' = Some PosInf" "conv PosInf \<le> 0"
  shows "\<exists>b. budget_Unmarshal parse_float conv (JString ''inf'') = Inr b \<and> budget_Tokens (Some b) window = 0"
  using assms
  by (simp add: budget_Unmarshal_def thinkBudgetCount_def is_trunc_def float_nonpos_def float_to_int_def
      budget_Tokens_def)

theorem think_budget_accepts_infinity_witness:
  "\<exists>b. budget_Unmarshal (\<lambda>s. if s = ''inf'' then Some PosInf else None) (\<lambda>_. - (2 ^ 63)) (JString ''inf'') = Inr b \<and>
    budget_Tokens (Some b) 4096 = 0"
  by (rule think_budget_accepts_infinity) simp_all

text \<open>the window a share is taken of never exceeds the context or the requested length, where
  these are set.\<close>

theorem think_budget_window_bounds:
  "(numCtx > 0 \<longrightarrow> ThinkBudgetWindow numCtx numPredict \<le> numCtx) \<and>
   (numPredict > 0 \<longrightarrow> ThinkBudgetWindow numCtx numPredict \<le> numPredict) \<and>
   (numCtx > 0 \<or> numPredict > 0 \<longrightarrow> ThinkBudgetWindow numCtx numPredict > 0)"
  by (auto simp: ThinkBudgetWindow_def)

theorem think_budget_window_bounds_witness:
  "ThinkBudgetWindow 4096 512 \<le> 4096 \<and> ThinkBudgetWindow 4096 512 \<le> 512 \<and> ThinkBudgetWindow 4096 512 > 0"
  using think_budget_window_bounds [of 4096 512] by simp

lemma thinking_values_ok_iff:
  "thinking_values_ok seen vs \<longleftrightarrow>
     (\<forall>v \<in> set vs. (\<exists>b. v = Some (GBool b)) \<or> (\<exists>s. s \<noteq> [] \<and> v = Some (GString s))) \<and>
     distinct vs \<and> set seen \<inter> set vs = {}"
  by (induction seen vs rule: thinking_values_ok.induct)
    (auto split: option.split go_any.split)

text \<open>C26: a valid description advertises distinct booleans and non-empty names, and its default is one
  of them.\<close>

theorem thinking_valid_iff:
  "thinking_Valid (Some d) \<longleftrightarrow>
     (\<forall>v \<in> set (td_Values d). (\<exists>b. v = Some (GBool b)) \<or> (\<exists>s. s \<noteq> [] \<and> v = Some (GString s))) \<and>
     distinct (td_Values d) \<and> td_Default d \<in> set (td_Values d)"
  by (auto simp: thinking_Valid_def thinking_values_ok_iff thinking_Supports_def split: option.split go_any.split)

theorem thinking_valid_iff_witness:
  "thinking_Valid (Some \<lparr>td_Values = [Some (GBool True), Some (GString ''low'')], td_Default = Some (GString ''low'')\<rparr>)"
  unfolding thinking_valid_iff by auto

end
