(* ===== verification/Harmony.thy ===== *)
theory Harmony
  imports Streaming ApiTypes
begin

text \<open>
  \<open>harmony/harmonyparser.go\<close>, the parser of the harmony output format: \<open>HarmonyParser\<close> turns the
  stream into events (message start, header, content, message end), and \<open>HarmonyMessageHandler\<close> maps
  the events to content, thinking and tool calls.  The tags of a \<open>HarmonyParser\<close> are fields; the
  constructors set them to constants that are not empty.  Logging is left out.
\<close>

section \<open>The event parser\<close>

datatype harmony_parser_state =
    harmonyParserState_LookingForMessageStart
  | harmonyParserState_ParsingHeader
  | harmonyParserState_ParsingContent

fun harmony_parser_state_String :: "harmony_parser_state \<Rightarrow> string" where
  "harmony_parser_state_String harmonyParserState_LookingForMessageStart = ''LookingForMessageStart''"
| "harmony_parser_state_String harmonyParserState_ParsingHeader = ''ParsingHeader''"
| "harmony_parser_state_String harmonyParserState_ParsingContent = ''ParsingContent''"

record harmony_parser =
  hp_state :: harmony_parser_state
  hp_MessageStartTag :: string
  hp_MessageEndTag :: string
  hp_HeaderEndTag :: string
  hp_acc :: string
  hp_lifetimeAcc :: string

record harmony_header =
  hh_Role :: string
  hh_Channel :: string
  hh_Recipient :: string

datatype harmony_event =
    HarmonyEventMessageStart
  | HarmonyEventHeaderComplete harmony_header
  | HarmonyEventContentEmitted string
  | HarmonyEventMessageEnd

definition harmony_constrain :: string where
  "harmony_constrain = ''<|constrain|>''"

definition harmony_channel :: string where
  "harmony_channel = ''<|channel|>''"

definition harmony_parseHeader :: "string \<Rightarrow> harmony_header" where
  "harmony_parseHeader raw0 =
     (let raw = (case cut raw0 harmony_constrain of
                   None \<Rightarrow> raw0
                 | Some (a, b) \<Rightarrow> trim_space (a @ '' '' @ harmony_constrain @ b));
          (channel, raw) =
            (case cut raw harmony_channel of
               None \<Rightarrow> ([], raw)
             | Some (before, after) \<Rightarrow>
                 let idx = space_index after
                 in (take idx after, trim_space (before @ drop idx after)));
          tokens = go_fields raw
      in case tokens of
           [] \<Rightarrow> \<lparr>hh_Role = [], hh_Channel = channel, hh_Recipient = []\<rparr>
         | role # tokens \<Rightarrow>
             (let h = (if has_prefix role ''to=''
                       then \<lparr>hh_Role = ''tool'', hh_Channel = channel, hh_Recipient = drop 3 role\<rparr>
                       else \<lparr>hh_Role = role, hh_Channel = channel, hh_Recipient = []\<rparr>)
              in if hh_Recipient h = [] \<and> tokens \<noteq> [] \<and> has_prefix (hd tokens) ''to=''
                 then h\<lparr>hh_Recipient := drop 3 (hd tokens)\<rparr> else h))"

definition harmony_eat :: "harmony_parser \<Rightarrow> harmony_event list \<times> harmony_parser \<times> bool" where
  "harmony_eat p =
     (case hp_state p of
        harmonyParserState_LookingForMessageStart \<Rightarrow>
          (case cut (hp_acc p) (hp_MessageStartTag p) of
             Some (before, after) \<Rightarrow>
               ([HarmonyEventMessageStart],
                p\<lparr>hp_acc := after, hp_state := harmonyParserState_ParsingHeader\<rparr>, True)
           | None \<Rightarrow> ([], p, False))
      | harmonyParserState_ParsingHeader \<Rightarrow>
          (case cut (hp_acc p) (hp_HeaderEndTag p) of
             Some (header, after) \<Rightarrow>
               ([HarmonyEventHeaderComplete (harmony_parseHeader header)],
                p\<lparr>hp_acc := after, hp_state := harmonyParserState_ParsingContent\<rparr>, True)
           | None \<Rightarrow> ([], p, False))
      | harmonyParserState_ParsingContent \<Rightarrow>
          (case cut (hp_acc p) (hp_MessageEndTag p) of
             Some (content, after) \<Rightarrow>
               ((if content \<noteq> [] then [HarmonyEventContentEmitted content] else []) @
                  [HarmonyEventMessageEnd],
                p\<lparr>hp_acc := after, hp_state := harmonyParserState_LookingForMessageStart\<rparr>, True)
           | None \<Rightarrow>
               (let n = overlap (hp_acc p) (hp_MessageEndTag p) in
                if n > 0 then
                  (let content = take (length (hp_acc p) - n) (hp_acc p);
                       remaining = drop (length (hp_acc p) - n) (hp_acc p)
                   in (if content = [] then [] else [HarmonyEventContentEmitted content],
                       p\<lparr>hp_acc := remaining\<rparr>, False))
                else if hp_acc p = [] then ([], p, False)
                else ([HarmonyEventContentEmitted (hp_acc p)], p\<lparr>hp_acc := []\<rparr>, False))))"

definition harmony_AddImplicitStart :: "harmony_parser \<Rightarrow> harmony_parser" where
  "harmony_AddImplicitStart p = p\<lparr>hp_acc := hp_acc p @ ''<|start|>assistant''\<rparr>"

definition harmony_AddImplicitStartOrPrefill :: "harmony_parser \<Rightarrow> api_message option \<Rightarrow> harmony_parser" where
  "harmony_AddImplicitStartOrPrefill p last_message =
     (case last_message of
        Some m \<Rightarrow>
          (if am_Role m = ''assistant'' then
             (if am_Content m \<noteq> [] then
                p\<lparr>hp_acc := hp_acc p @ ''<|start|>assistant<|channel|>final<|message|>''\<rparr>
              else if am_Thinking m \<noteq> [] then
                p\<lparr>hp_acc := hp_acc p @ ''<|start|>assistant<|channel|>analysis<|message|>''\<rparr>
              else harmony_AddImplicitStart p)
           else harmony_AddImplicitStart p)
      | None \<Rightarrow> harmony_AddImplicitStart p)"

definition harmony_put :: "harmony_parser \<Rightarrow> string \<Rightarrow> harmony_parser" where
  "harmony_put p content = p\<lparr>hp_lifetimeAcc := hp_lifetimeAcc p @ content, hp_acc := hp_acc p @ content\<rparr>"

definition harmony_AddContent :: "harmony_parser \<Rightarrow> string \<Rightarrow> (harmony_event list \<times> harmony_parser) option" where
  "harmony_AddContent p content = drain harmony_eat (harmony_put p content)"

section \<open>The message handler\<close>

datatype harmony_message_state =
    harmonyMessageState_Normal
  | harmonyMessageState_Thinking
  | harmonyMessageState_ToolCalling

text \<open>\<open>HarmonyToolCallAccumulator\<close>; its \<open>state\<close> field is set to Normal by every operation and
  never read, so it is left out.\<close>

record harmony_tool_accumulator =
  ta_acc :: string
  ta_currentToolName :: "string option"

definition ta_SetToolName :: "harmony_tool_accumulator \<Rightarrow> string \<Rightarrow> harmony_tool_accumulator" where
  "ta_SetToolName a tool_name = a\<lparr>ta_currentToolName := Some tool_name\<rparr>"

definition ta_Add :: "harmony_tool_accumulator \<Rightarrow> string \<Rightarrow> harmony_tool_accumulator" where
  "ta_Add a content = a\<lparr>ta_acc := ta_acc a @ content\<rparr>"

definition ta_Drain :: "harmony_tool_accumulator \<Rightarrow> (string option \<times> string) \<times> harmony_tool_accumulator" where
  "ta_Drain a = ((ta_currentToolName a, ta_acc a), a\<lparr>ta_acc := []\<rparr>)"

definition CreateToolParser :: harmony_tool_accumulator where
  "CreateToolParser = \<lparr>ta_acc = [], ta_currentToolName = None\<rparr>"

text \<open>What one event adds to (content, thinking, tool content), and the new state.\<close>

type_synonym harmony_out = "string \<times> string \<times> string"
type_synonym harmony_ctx = "harmony_message_state \<times> harmony_tool_accumulator"

fun harmony_handle_event :: "harmony_ctx \<Rightarrow> harmony_event \<Rightarrow> harmony_out \<times> harmony_ctx" where
  "harmony_handle_event (st, ta) (HarmonyEventHeaderComplete h) =
     (([], [], []),
      (if hh_Channel h = ''analysis'' then
         (if hh_Recipient h \<noteq> [] then (harmonyMessageState_ToolCalling, ta_SetToolName ta (hh_Recipient h))
          else (harmonyMessageState_Thinking, ta))
       else if hh_Channel h = ''commentary'' then
         (if hh_Recipient h \<noteq> [] then (harmonyMessageState_ToolCalling, ta_SetToolName ta (hh_Recipient h))
          else (harmonyMessageState_Normal, ta))
       else if hh_Channel h = ''final'' then (harmonyMessageState_Normal, ta)
       else (st, ta)))"
| "harmony_handle_event (st, ta) (HarmonyEventContentEmitted c) =
     ((case st of
         harmonyMessageState_Normal \<Rightarrow> (c, [], [])
       | harmonyMessageState_Thinking \<Rightarrow> ([], c, [])
       | harmonyMessageState_ToolCalling \<Rightarrow> ([], [], c)), (st, ta))"
| "harmony_handle_event (st, ta) HarmonyEventMessageEnd =
     (([], [], []), (harmonyMessageState_Normal, ta))"
| "harmony_handle_event (st, ta) HarmonyEventMessageStart = (([], [], []), (st, ta))"

fun out_append :: "harmony_out \<Rightarrow> harmony_out \<Rightarrow> harmony_out" where
  "out_append (a, b, c) (a', b', c') = (a @ a', b @ b', c @ c')"

primrec harmony_handle_events :: "harmony_event list \<Rightarrow> harmony_ctx \<Rightarrow> harmony_out \<times> harmony_ctx" where
  "harmony_handle_events [] ctx = (([], [], []), ctx)"
| "harmony_handle_events (e # es) ctx =
     (case harmony_handle_event ctx e of
        (out, ctx') \<Rightarrow> apfst (out_append out) (harmony_handle_events es ctx'))"

section \<open>Contract\<close>

definition harmony_inv :: "harmony_parser \<Rightarrow> bool" where
  "harmony_inv p \<longleftrightarrow> hp_MessageStartTag p \<noteq> [] \<and> hp_MessageEndTag p \<noteq> [] \<and> hp_HeaderEndTag p \<noteq> []"

definition harmony_comb ::
  "(harmony_ctx \<Rightarrow> harmony_out \<times> harmony_ctx) \<Rightarrow> (harmony_ctx \<Rightarrow> harmony_out \<times> harmony_ctx) \<Rightarrow>
   harmony_ctx \<Rightarrow> harmony_out \<times> harmony_ctx" where
  "harmony_comb f g ctx = (case f ctx of (out, ctx') \<Rightarrow> apfst (out_append out) (g ctx'))"

lemma out_append_Nil [simp]: "out_append ([], [], []) a = a" "out_append a ([], [], []) = a"
  by (cases a; simp)+

lemma out_append_assoc: "out_append (out_append a b) c = out_append a (out_append b c)"
  by (cases a; cases b; cases c) simp

lemma apfst_out_append [simp]:
  "apfst (out_append ([], [], [])) x = x"
  "apfst (out_append a) (apfst (out_append b) x) = apfst (out_append (out_append a b)) x"
  by (cases x; simp add: out_append_assoc)+

lemma harmony_handle_events_append:
  "harmony_handle_events (es @ fs) = harmony_comb (harmony_handle_events es) (harmony_handle_events fs)"
proof
  fix ctx
  show "harmony_handle_events (es @ fs) ctx =
    harmony_comb (harmony_handle_events es) (harmony_handle_events fs) ctx"
  proof (induction es arbitrary: ctx)
    case (Cons e es)
    obtain o1 c1 where 1: "harmony_handle_event ctx e = (o1, c1)" by (rule prod.exhaust)
    obtain o2 c2 where 2: "harmony_handle_events es c1 = (o2, c2)" by (rule prod.exhaust)
    from Cons [of c1] 1 2 show ?case by (simp add: harmony_comb_def)
  qed (simp add: harmony_comb_def)
qed

lemma harmony_content_append:
  "harmony_handle_events ((if a @ b = [] then [] else [HarmonyEventContentEmitted (a @ b)]) @ es) =
   harmony_comb (harmony_handle_events (if a = [] then [] else [HarmonyEventContentEmitted a]))
     (harmony_handle_events ((if b = [] then [] else [HarmonyEventContentEmitted b]) @ es))"
proof
  fix ctx :: harmony_ctx
  obtain st ta where "ctx = (st, ta)" by (cases ctx)
  then show "harmony_handle_events ((if a @ b = [] then [] else [HarmonyEventContentEmitted (a @ b)]) @ es) ctx =
    harmony_comb (harmony_handle_events (if a = [] then [] else [HarmonyEventContentEmitted a]))
      (harmony_handle_events ((if b = [] then [] else [HarmonyEventContentEmitted b]) @ es)) ctx"
    by (cases "harmony_handle_events es ctx"; cases st; auto simp: harmony_comb_def)
qed

lemma harmony_eat_inv: "harmony_inv p \<Longrightarrow> harmony_eat p = (es, p', m) \<Longrightarrow> harmony_inv p'"
  by (auto simp: harmony_eat_def harmony_inv_def Let_def
      split: harmony_parser_state.splits option.splits if_splits)

lemma harmony_eat_msr:
  "harmony_inv p \<Longrightarrow> harmony_eat p = (es, p', True) \<Longrightarrow> length (hp_acc p') < length (hp_acc p)"
  by (auto simp: harmony_eat_def harmony_inv_def Let_def dest!: cut_length
      split: harmony_parser_state.splits option.splits if_splits)

lemma harmony_eat_content:
  "hp_state p = harmonyParserState_ParsingContent \<Longrightarrow>
   harmony_eat p =
     (case cut (hp_acc p) (hp_MessageEndTag p) of
        Some (content, after) \<Rightarrow>
          ((if content = [] then [] else [HarmonyEventContentEmitted content]) @ [HarmonyEventMessageEnd],
           p\<lparr>hp_acc := after, hp_state := harmonyParserState_LookingForMessageStart\<rparr>, True)
      | None \<Rightarrow>
          (case hold_tag (hp_acc p) (overlap (hp_acc p) (hp_MessageEndTag p)) of
             (out, keep) \<Rightarrow> (if out = [] then [] else [HarmonyEventContentEmitted out], p\<lparr>hp_acc := keep\<rparr>, False)))"
  by (auto simp: harmony_eat_def Let_def hold_tag_def split: option.split)

lemma harmony_put_fields [simp]:
  "hp_state (harmony_put p y) = hp_state p" "hp_acc (harmony_put p y) = hp_acc p @ y"
  "hp_MessageStartTag (harmony_put p y) = hp_MessageStartTag p"
  "hp_MessageEndTag (harmony_put p y) = hp_MessageEndTag p"
  "hp_HeaderEndTag (harmony_put p y) = hp_HeaderEndTag p"
  by (simp_all add: harmony_put_def)

lemmas harmony_observe_more =
  observe_more [where obs = harmony_handle_events and eat = harmony_eat and comb = harmony_comb,
    OF harmony_handle_events_append]

text \<open>A step that goes on does the same when more input follows.\<close>

lemma harmony_eat_True_put:
  "harmony_eat p = (es, p', True) \<Longrightarrow> harmony_eat (harmony_put p y) = (es, harmony_put p' y, True)"
  by (auto simp: harmony_eat_def Let_def cut_append harmony_put_def
      split: harmony_parser_state.splits option.splits if_splits)

lemma harmony_comb_assoc: "harmony_comb (harmony_comb f g) h = harmony_comb f (harmony_comb g h)"
  by (auto simp: harmony_comb_def fun_eq_iff split: prod.split)

lemma harmony_after_obs:
  "after_obs harmony_comb (harmony_comb f g) r = after_obs harmony_comb f (after_obs harmony_comb g r)"
  by (cases r) (auto simp: after_obs_def harmony_comb_assoc)

lemma harmony_more_content:
  assumes st: "hp_state p = harmonyParserState_ParsingContent" and c: "cut (hp_acc p) (hp_MessageEndTag p) = None"
    and e: "harmony_eat p = (es, p', m)"
  shows "observe harmony_handle_events harmony_eat (harmony_put p y) =
    after_obs harmony_comb (harmony_handle_events es) (observe harmony_handle_events harmony_eat (harmony_put p' y))"
proof -
  let ?c = "hp_MessageEndTag p" and ?a = "hp_acc p"
  obtain out keep where hold: "hold_tag ?a (overlap ?a ?c) = (out, keep)" by force
  have a: "?a = out @ keep" and ov: "overlap (out @ keep) ?c \<le> length keep"
    using hold_tag_parts [OF hold overlap_le] by auto
  have nc: "\<not> contains (out @ keep) ?c" using c a by (simp add: cut_None_iff)
  have es: "es = (if out = [] then [] else [HarmonyEventContentEmitted out])" and p': "p' = p\<lparr>hp_acc := keep\<rparr>"
    using e c st hold by (auto simp: harmony_eat_content)
  show ?thesis
  proof (cases "cut (keep @ y) ?c")
    case None
    obtain o2 k2 where h2: "hold_tag (keep @ y) (overlap (keep @ y) ?c) = (o2, k2)" by force
    have "harmony_eat (harmony_put p y) =
      ((if out @ o2 = [] then [] else [HarmonyEventContentEmitted (out @ o2)]) @ [],
        (harmony_put p y)\<lparr>hp_acc := k2\<rparr>, False)"
      using None st cut_hold [OF nc ov, of y] overlap_hold [OF ov, of y] h2
        hold_tag_append [OF overlap_le [of "keep @ y" ?c], of out]
      by (simp add: harmony_eat_content a)
    note 1 = observe_stop [where obs = harmony_handle_events and eat = harmony_eat, OF this]
    have "harmony_eat (harmony_put p' y) =
      ((if o2 = [] then [] else [HarmonyEventContentEmitted o2]) @ [],
        (harmony_put p y)\<lparr>hp_acc := k2\<rparr>, False)"
      using None st h2 by (simp add: harmony_eat_content p' harmony_put_def)
    note 2 = observe_stop [where obs = harmony_handle_events and eat = harmony_eat, OF this]
    show ?thesis
      unfolding 1 2 harmony_content_append by (simp add: after_obs_def es del: append_Nil2)
  next
    case (Some ab)
    then obtain b r where br: "cut (keep @ y) ?c = Some (b, r)" by (cases ab) auto
    let ?q = "(harmony_put p y)\<lparr>hp_acc := r, hp_state := harmonyParserState_LookingForMessageStart\<rparr>"
    have "harmony_eat (harmony_put p y) =
      ((if out @ b = [] then [] else [HarmonyEventContentEmitted (out @ b)]) @ [HarmonyEventMessageEnd], ?q, True)"
      using br st cut_hold [OF nc ov, of y] by (simp add: harmony_eat_content a)
    moreover have "harmony_eat (harmony_put p' y) =
      ((if b = [] then [] else [HarmonyEventContentEmitted b]) @ [HarmonyEventMessageEnd], ?q, True)"
      using br st by (simp add: harmony_eat_content p' harmony_put_def)
    ultimately show ?thesis
      by (simp only: harmony_observe_more harmony_content_append es harmony_after_obs)
  qed
qed

lemma harmony_eat_more:
  assumes e: "harmony_eat p = (es, p', m)"
  shows "observe harmony_handle_events harmony_eat (harmony_put p y) =
    after_obs harmony_comb (harmony_handle_events es) (observe harmony_handle_events harmony_eat (harmony_put p' y))"
proof (cases m)
  case True
  with e have "harmony_eat (harmony_put p y) = (es, harmony_put p' y, True)" by (simp add: harmony_eat_True_put)
  then show ?thesis by (rule harmony_observe_more)
next
  case m: False
  have id: "after_obs harmony_comb (harmony_handle_events []) r = r" for r
    by (cases r) (auto simp: after_obs_def harmony_comb_def fun_eq_iff)
  show ?thesis
  proof (cases "hp_state p = harmonyParserState_ParsingContent")
    case True
    moreover have "cut (hp_acc p) (hp_MessageEndTag p) = None"
      using e m True by (auto simp: harmony_eat_content split: option.splits)
    ultimately show ?thesis using e by (rule harmony_more_content)
  next
    case False
    then have "es = [] \<and> p' = p"
      using e m by (auto simp: harmony_eat_def split: harmony_parser_state.splits option.splits)
    then show ?thesis by (simp only: id)
  qed
qed

interpretation harmony: streaming harmony_eat harmony_inv "\<lambda>p. length (hp_acc p)" harmony_put
  "\<lambda>_. True" harmony_handle_events harmony_comb
  by unfold_locales
    (auto intro: harmony_eat_inv harmony_eat_msr harmony_eat_more
      simp: harmony_handle_events_append, auto simp: harmony_put_def harmony_inv_def)

end
