(* ===== verification/GoPath.thy ===== *)
theory GoPath
  imports GoStrings
begin

text \<open>
  What the program uses of Go's \<open>path/filepath\<close> (on Unix, where the separator is a slash) and of
  the case folding of \<open>strings.EqualFold\<close>, with the facts about splitting and searching at a single
  byte that go with them.
\<close>

section \<open>Searching for one byte\<close>

lemma has_prefix_single [simp]: "has_prefix (x # s) [c] \<longleftrightarrow> x = c"
  by (simp add: has_prefix_def)

lemma index_single_None [simp]: "index s [c] = None \<longleftrightarrow> c \<notin> set s"
  by (induction s) auto

lemma index_single_append: "c \<notin> set a \<Longrightarrow> index (a @ c # b) [c] = Some (length a)"
  by (induction a) auto

lemma cut_single_append: "c \<notin> set a \<Longrightarrow> cut (a @ c # b) [c] = Some (a, b)"
  by (simp add: cut_def index_single_append)

lemma cut_single_None: "c \<notin> set s \<Longrightarrow> cut s [c] = None"
  by (simp add: cut_None_iff contains_def)

lemma last_index_single_None [simp]: "c \<notin> set s \<Longrightarrow> last_index s [c] = None"
  by (induction s) auto

lemma last_index_single_append: "c \<notin> set b \<Longrightarrow> last_index (a @ c # b) [c] = Some (length a)"
  by (induction a) (auto split: option.split)

lemma split_all_single_append: "c \<notin> set a \<Longrightarrow> split_all (a @ c # b) [c] = a # split_all b [c]"
  by (simp add: split_all_cut cut_single_append)

lemma split_all_single_last: "c \<notin> set a \<Longrightarrow> split_all a [c] = [a]"
  by (simp add: split_all_cut cut_single_None)

lemma join_split_single: "join [c] (split_all s [c]) = s"
  by (simp add: join_split_all)

text \<open>\<open>strings.LastIndex\<close> as the code compares it: an integer, -1 for none.\<close>

definition last_index_int :: "string \<Rightarrow> string \<Rightarrow> int" where
  "last_index_int s sub = (case last_index s sub of None \<Rightarrow> -1 | Some i \<Rightarrow> int i)"

section \<open>Paths\<close>

text \<open>\<open>filepath.Clean\<close>: empty elements and dots are dropped, a double dot removes the element before
  it; at the root it is dropped, and at the start of a relative path it is kept.\<close>

fun clean_step :: "bool \<Rightarrow> string list \<Rightarrow> string \<Rightarrow> string list" where
  "clean_step rooted stack e =
     (if e = [] \<or> e = ''.'' then stack
      else if e = ''..'' then
        (case stack of
           [] \<Rightarrow> if rooted then [] else [e]
         | x # rest \<Rightarrow> if x = ''..'' then e # stack else rest)
      else e # stack)"

definition path_clean :: "string \<Rightarrow> string" where
  "path_clean s =
     (let rooted = has_prefix s ''/'';
          elements = rev (foldl (clean_step rooted) [] (split_all s ''/''));
          body = join ''/'' elements
      in if rooted then ''/'' @ body else if body = [] then ''.'' else body)"

definition path_join :: "string list \<Rightarrow> string" where
  "path_join parts =
     (let parts = dropWhile (\<lambda>p. p = []) parts
      in if parts = [] then [] else path_clean (join ''/'' parts))"

text \<open>A path of plain elements is clean.\<close>

definition plain_element :: "string \<Rightarrow> bool" where
  "plain_element e \<longleftrightarrow> e \<noteq> [] \<and> e \<noteq> ''.'' \<and> e \<noteq> ''..'' \<and> CHR ''/'' \<notin> set e"

lemma foldl_clean_plain: "list_all plain_element es \<Longrightarrow> foldl (clean_step r) st es = rev es @ st"
  by (induction es arbitrary: st) (auto simp: plain_element_def)

lemma join_Cons_ne: "es \<noteq> [] \<Longrightarrow> join sep (e # es) = e @ sep @ join sep es"
  by (cases es) auto

lemma split_all_join_plain:
  "es \<noteq> [] \<Longrightarrow> list_all plain_element es \<Longrightarrow> split_all (join ''/'' es) ''/'' = es"
proof (induction es rule: list_nonempty_induct)
  case (single e)
  then show ?case by (simp add: plain_element_def split_all_single_last)
next
  case (cons e es)
  then show ?case by (simp add: join_Cons_ne plain_element_def split_all_single_append)
qed

lemma path_join_plain:
  assumes "es \<noteq> []" "list_all plain_element es"
  shows "path_join es = join ''/'' es"
proof -
  obtain e es' where es: "es = e # es'" using assms(1) by (cases es) auto
  then have e: "plain_element e" using assms(2) by simp
  then obtain c e' where ce: "e = c # e'" "c \<noteq> CHR ''/''" by (cases e) (auto simp: plain_element_def)
  have "\<exists>r. join ''/'' es = c # r" using es ce by (cases es') auto
  then have "\<not> has_prefix (join ''/'' es) ''/''" "join ''/'' es \<noteq> []" using ce(2) by auto
  moreover have "dropWhile (\<lambda>p. p = []) es = es" using es e by (simp add: plain_element_def)
  ultimately show ?thesis
    using assms by (simp add: path_join_def path_clean_def split_all_join_plain foldl_clean_plain)
qed

section \<open>Case folding\<close>

text \<open>
  Two strings are equal under \<open>strings.EqualFold\<close> when their runes lie, one by one, in the same orbit
  of \<open>unicode.SimpleFold\<close>.  \<open>fold_key\<close> names the orbits: those that meet ASCII are written out (the
  Kelvin sign folds to k, the long s to s); for the other runes \<open>wide\<close> is the table.
\<close>

function runes_of :: "string \<Rightarrow> nat list" where
  "runes_of s =
     (if s = [] then [] else fst (decode_rune s) # runes_of (drop (snd (decode_rune s)) s))"
  by pat_completeness auto
termination
  by (relation "measure length") (auto dest: decode_rune_size)

declare runes_of.simps [simp del]

definition fold_key :: "(nat \<Rightarrow> nat) \<Rightarrow> nat \<Rightarrow> nat" where
  "fold_key wide r =
     (if 65 \<le> r \<and> r \<le> 90 then r + 32 else if r < 128 then r
      else if r = 8490 then 107 else if r = 383 then 115 else wide r)"

definition equal_fold :: "(nat \<Rightarrow> nat) \<Rightarrow> string \<Rightarrow> string \<Rightarrow> bool" where
  "equal_fold wide s t \<longleftrightarrow> map (fold_key wide) (runes_of s) = map (fold_key wide) (runes_of t)"

lemma equal_fold_refl [simp]: "equal_fold wide s s"
  by (simp add: equal_fold_def)

lemma equal_fold_sym: "equal_fold wide s t \<Longrightarrow> equal_fold wide t s"
  by (simp add: equal_fold_def)

lemma equal_fold_trans: "equal_fold wide s t \<Longrightarrow> equal_fold wide t u \<Longrightarrow> equal_fold wide s u"
  by (simp add: equal_fold_def)

text \<open>\<open>strings.ToLower\<close>, with \<open>lower_wide\<close> for the runes beyond ASCII.\<close>

definition to_lower :: "(nat \<Rightarrow> nat) \<Rightarrow> string \<Rightarrow> string" where
  "to_lower lower_wide s =
     map_runes (\<lambda>r. Some (if 65 \<le> r \<and> r \<le> 90 then r + 32 else if r < 128 then r else lower_wide r)) s"

end
