(* ===== verification/GoStrconv.thy ===== *)
theory GoStrconv
  imports GoPath
begin

text \<open>What the code uses of Go's strconv package: decimal numerals.\<close>

section \<open>Printing\<close>

text \<open>The decimal digits of \<open>fmt.Sprintf("%d", n)\<close>.\<close>

fun show_nat :: "nat \<Rightarrow> string" where
  "show_nat n = (if n < 10 then [] else show_nat (n div 10)) @ [char_of (48 + n mod 10)]"

declare show_nat.simps [simp del]

section \<open>Reading\<close>

lemma show_nat_digits: "c \<in> set (show_nat n) \<Longrightarrow> of_char c \<in> {48..57 :: nat}"
proof (induction n rule: show_nat.induct)
  case (1 n)
  then show ?case by (subst (asm) (2) show_nat.simps) (auto split: if_splits)
qed

fun nat_of_digits :: "string \<Rightarrow> nat" where
  "nat_of_digits s = foldl (\<lambda>a c. 10 * a + (of_char c - 48)) 0 s"

lemma nat_of_digits_show: "nat_of_digits (show_nat n) = n"
proof (induction n rule: show_nat.induct)
  case (1 n)
  then show ?case by (subst show_nat.simps) (auto simp: mult_div_mod_eq)
qed

lemma show_nat_inj: "show_nat m = show_nat n \<longleftrightarrow> m = n"
  by (metis nat_of_digits_show)

text \<open>\<open>strconv.Atoi\<close>; \<open>None\<close> is an error, of syntax or of range.\<close>

definition go_Atoi :: "string \<Rightarrow> int option" where
  "go_Atoi s =
     (let (neg, ds) = (if s \<noteq> [] \<and> hd s = CHR ''+'' then (False, tl s) else if s \<noteq> [] \<and> hd s = CHR ''-'' then (True, tl s) else (False, s))
      in if ds = [] \<or> \<not> list_all (\<lambda>c. of_char c \<in> {48..57 :: nat}) ds then None
         else (let n = int (nat_of_digits ds); v = (if neg then - n else n)
               in if v < - (2 ^ 63) \<or> v \<ge> 2 ^ 63 then None else Some v))"

lemma show_nat_not_Nil [simp]: "show_nat n \<noteq> []"
  by (subst show_nat.simps) simp

lemma go_Atoi_show:
  assumes "n < 2 ^ 63"
  shows "go_Atoi (show_nat n) = Some (int n)"
proof -
  have "list_all (\<lambda>c. of_char c \<in> {48..57 :: nat}) (show_nat n)" using show_nat_digits by (auto simp: list_all_iff)
  moreover have "hd (show_nat n) \<noteq> CHR ''+'' \<and> hd (show_nat n) \<noteq> CHR ''-''"
    using show_nat_digits [of "hd (show_nat n)" n] by auto
  ultimately show ?thesis using assms by (simp add: go_Atoi_def nat_of_digits_show del: nat_of_digits.simps)
qed

end
