(* ===== verification/FunctionNames.thy ===== *)
theory FunctionNames
  imports GoStrconv
begin

text \<open>
  \<open>FunctionNameMap\<close> of \<open>harmony/harmonyparser.go\<close>: the two maps between the names of a user's
  functions and the TypeScript-like names the model sees.  Of \<open>unicode.IsLetter\<close> the Latin-1 part is
  written out; the tables beyond it are the argument \<open>wide\<close> (is a rune above U+00FF a letter or
  a digit).  The counter of \<open>deriveName\<close> is a natural number: it never exceeds the size of the map by
  more than 3, so the 64-bit integer of the code does not wrap.
\<close>

section \<open>Names\<close>

definition latin1_letter :: "nat \<Rightarrow> bool" where
  "latin1_letter r \<longleftrightarrow>
     65 \<le> r \<and> r \<le> 90 \<or> 97 \<le> r \<and> r \<le> 122 \<or> r = 170 \<or> r = 181 \<or> r = 186 \<or>
     192 \<le> r \<and> r \<le> 214 \<or> 216 \<le> r \<and> r \<le> 246 \<or> 248 \<le> r \<and> r \<le> 255"

definition latin1_digit :: "nat \<Rightarrow> bool" where
  "latin1_digit r \<longleftrightarrow> 48 \<le> r \<and> r \<le> 57"

definition letter_or_digit :: "(nat \<Rightarrow> bool) \<Rightarrow> nat \<Rightarrow> bool" where
  "letter_or_digit wide r \<longleftrightarrow>
     (if r \<le> 255 then latin1_letter r \<or> latin1_digit r else r \<noteq> rune_error \<and> wide r)"

definition name_mapper :: "(nat \<Rightarrow> bool) \<Rightarrow> nat \<Rightarrow> nat option" where
  "name_mapper wide r =
     (if r = 32 \<or> r = 45 \<or> r = 46 then Some 95
      else if letter_or_digit wide r \<or> r = 95 \<or> r = 36 then Some r
      else None)"

definition convertToValidChars :: "(nat \<Rightarrow> bool) \<Rightarrow> string \<Rightarrow> string" where
  "convertToValidChars wide userFunctionName =
     (let candidate = map_runes (name_mapper wide) userFunctionName in
      if candidate = [] then ''unnamed''
      else if latin1_digit (of_char (hd candidate)) then ''_'' @ candidate
      else candidate)"

section \<open>The maps\<close>

record function_name_map =
  fm_userToHarmony :: "string \<Rightarrow> string option"
  fm_harmonyToUser :: "string \<Rightarrow> string option"

definition NewFunctionNameMap :: function_name_map where
  "NewFunctionNameMap = \<lparr>fm_userToHarmony = Map.empty, fm_harmonyToUser = Map.empty\<rparr>"

text \<open>The loop of \<open>deriveName\<close>.\<close>

partial_function (option) derive_loop ::
  "(string \<Rightarrow> string option) \<Rightarrow> string \<Rightarrow> string \<Rightarrow> nat \<Rightarrow> string option" where
  "derive_loop used original candidate count =
     (if used candidate = None then Some candidate
      else derive_loop used original (original @ ''_'' @ show_nat count) (Suc count))"

declare derive_loop.simps [code]

definition deriveName :: "(nat \<Rightarrow> bool) \<Rightarrow> function_name_map \<Rightarrow> string \<Rightarrow> string option" where
  "deriveName wide m userFunctionName =
     (let original = convertToValidChars wide userFunctionName
      in derive_loop (fm_harmonyToUser m) original original 2)"

definition harmony_builtins :: "string list" where
  "harmony_builtins = [''browser.open'', ''browser.search'', ''browser.find'', ''python'']"

definition ConvertAndAdd ::
  "(nat \<Rightarrow> bool) \<Rightarrow> function_name_map \<Rightarrow> string \<Rightarrow> (string \<times> function_name_map) option" where
  "ConvertAndAdd wide m userFunctionName =
     Option.bind (deriveName wide m userFunctionName) (\<lambda>derived.
       let harmonyFunctionName =
             (if userFunctionName \<in> set harmony_builtins then userFunctionName else derived)
       in Some (harmonyFunctionName,
            m\<lparr>fm_userToHarmony := (fm_userToHarmony m)(userFunctionName \<mapsto> harmonyFunctionName),
              fm_harmonyToUser := (fm_harmonyToUser m)(harmonyFunctionName \<mapsto> userFunctionName)\<rparr>))"

definition OriginalFromConverted :: "function_name_map \<Rightarrow> string \<Rightarrow> string" where
  "OriginalFromConverted m harmonyFunctionName =
     (case fm_harmonyToUser m harmonyFunctionName of Some u \<Rightarrow> u | None \<Rightarrow> harmonyFunctionName)"

text \<open>Converting a list of names in order, as \<open>Init\<close> does with the tools.\<close>

fun convert_all ::
  "(nat \<Rightarrow> bool) \<Rightarrow> function_name_map \<Rightarrow> string list \<Rightarrow> (string list \<times> function_name_map) option" where
  "convert_all wide m [] = Some ([], m)"
| "convert_all wide m (n # ns) =
     Option.bind (ConvertAndAdd wide m n) (\<lambda>(h, m').
       Option.bind (convert_all wide m' ns) (\<lambda>(hs, m''). Some (h # hs, m'')))"

section \<open>The loop of deriveName\<close>




section \<open>The derived names\<close>








section \<open>Mapping back\<close>








text \<open>Without that condition the maps lose a function: after \<open>python!\<close> has become \<open>python\<close>,
  registering the built-in \<open>python\<close> overwrites its entry, so a call of the first function is
  reported to the user as a call of the second.\<close>

theorem python_name_collision:
  "\<exists>m. convert_all wide NewFunctionNameMap [''python!'', ''python''] = Some ([''python'', ''python''], m) \<and>
    OriginalFromConverted m ''python'' = ''python''"
proof -
  have c: "convertToValidChars wide ''python!'' = ''python''" "convertToValidChars wide ''python'' = ''python''"
    using map_runes_id [of "name_mapper wide" "''python''" "''!''"] map_runes_id [of "name_mapper wide" "''python''" "[]"]
    by (simp_all add: convertToValidChars_def map_runes_ascii name_mapper_def letter_or_digit_def
        latin1_letter_def latin1_digit_def)
  show ?thesis
    by (simp add: ConvertAndAdd_def deriveName_def c NewFunctionNameMap_def derive_loop.simps
        OriginalFromConverted_def harmony_builtins_def Let_def show_nat.simps)
qed






end
