(* ===== verification/HarmonyHandler.thy ===== *)
theory HarmonyHandler
  imports Harmony FunctionNames
begin

text \<open>
  \<open>HarmonyMessageHandler\<close> of \<open>harmony/harmonyparser.go\<close>, with the methods of the \<open>Parser\<close> interface,
  and what a caller sees of a stream.  Decoding the arguments of a call goes through a
  third-party ordered map: it is the argument \<open>unmarshal\<close>, \<open>None\<close> for an error.  The result \<open>None\<close>
  of an operation means that it does not return normally (a nil dereference).
\<close>

section \<open>The handler\<close>

record harmony_message_handler =
  mh_state :: harmony_message_state
  mh_HarmonyParser :: "harmony_parser option"
  mh_FunctionNameMap :: function_name_map
  mh_toolAccumulator :: "harmony_tool_accumulator option"
  mh_convertedTools :: "string set"
  mh_contentPrefill :: bool

definition new_HarmonyParser :: harmony_parser where
  "new_HarmonyParser =
     \<lparr>hp_state = harmonyParserState_LookingForMessageStart, hp_MessageStartTag = ''<|start|>'',
      hp_MessageEndTag = ''<|end|>'', hp_HeaderEndTag = ''<|message|>'', hp_acc = [], hp_lifetimeAcc = []\<rparr>"

definition NewHarmonyMessageHandler :: harmony_message_handler where
  "NewHarmonyMessageHandler =
     \<lparr>mh_state = harmonyMessageState_Normal, mh_HarmonyParser = Some new_HarmonyParser,
      mh_FunctionNameMap = NewFunctionNameMap, mh_toolAccumulator = None, mh_convertedTools = {},
      mh_contentPrefill = False\<rparr>"

text \<open>\<open>AddContent\<close> takes the accumulator as an argument and may set its tool name.\<close>

definition mh_AddContent ::
  "harmony_message_handler \<Rightarrow> harmony_tool_accumulator \<Rightarrow> string \<Rightarrow>
     (harmony_out \<times> harmony_message_handler \<times> harmony_tool_accumulator) option" where
  "mh_AddContent h ta content =
     Option.bind (mh_HarmonyParser h) (\<lambda>p.
       Option.bind (harmony_AddContent p content) (\<lambda>(events, p').
         let (out, st, ta') = harmony_handle_events events (mh_state h, ta)
         in Some (out, h\<lparr>mh_state := st, mh_HarmonyParser := Some p'\<rparr>, ta')))"

text \<open>The loop of \<open>Init\<close> over the tools.\<close>

fun mh_rename_tools ::
  "(nat \<Rightarrow> bool) \<Rightarrow> harmony_message_handler \<Rightarrow> 'a api_tool_scheme list \<Rightarrow>
     ('a api_tool_scheme list \<times> harmony_message_handler) option" where
  "mh_rename_tools wide h [] = Some ([], h)"
| "mh_rename_tools wide h (t # ts) =
     (if at_Name t \<noteq> [] then
        Option.bind (ConvertAndAdd wide (mh_FunctionNameMap h) (at_Name t)) (\<lambda>(n, m).
          map_option (apfst ((#) (t\<lparr>at_Name := n\<rparr>)))
            (mh_rename_tools wide
              (h\<lparr>mh_FunctionNameMap := m, mh_convertedTools := insert (at_Name t) (mh_convertedTools h)\<rparr>) ts))
      else map_option (apfst ((#) t)) (mh_rename_tools wide h ts))"

definition mh_Init ::
  "(nat \<Rightarrow> bool) \<Rightarrow> harmony_message_handler \<Rightarrow> 'a api_tool_scheme list \<Rightarrow> api_message option \<Rightarrow>
     ('a api_tool_scheme list \<times> harmony_message_handler) option" where
  "mh_Init wide h tools last_message =
     (let p = (case mh_HarmonyParser h of Some p \<Rightarrow> p | None \<Rightarrow> new_HarmonyParser);
          p = (case last_message of
                 Some m \<Rightarrow> harmony_AddImplicitStartOrPrefill p (Some m)
               | None \<Rightarrow> harmony_AddImplicitStart p);
          prefill = (case last_message of
                       Some m \<Rightarrow> am_Role m = ''assistant'' \<and> am_Content m \<noteq> []
                     | None \<Rightarrow> False);
          h = h\<lparr>mh_HarmonyParser := Some p, mh_contentPrefill := prefill,
                mh_toolAccumulator := Some CreateToolParser\<rparr>
      in if tools = [] then Some (tools, h) else mh_rename_tools wide h tools)"

datatype harmony_error = ErrorParsingToolCall string

text \<open>\<open>Add\<close>.  Before \<open>Init\<close> the accumulator is nil, which stops the program exactly where a call would
  use it: when a header names a tool, when there is tool content, and at the end.\<close>

definition mh_Add ::
  "(string \<Rightarrow> 'args option) \<Rightarrow> harmony_message_handler \<Rightarrow> string \<Rightarrow> bool \<Rightarrow>
     ((harmony_error + string \<times> string \<times> 'args api_tool_call list) \<times> harmony_message_handler) option" where
  "mh_Add unmarshal h s don =
     (let ta0 = (case mh_toolAccumulator h of Some a \<Rightarrow> a | None \<Rightarrow> CreateToolParser) in
      Option.bind (mh_AddContent h ta0 s) (\<lambda>((content, thinking, toolContent), h', ta).
        if mh_toolAccumulator h = None \<and> (ta_currentToolName ta \<noteq> None \<or> toolContent \<noteq> [] \<or> don)
        then None
        else
          let ta = (if toolContent \<noteq> [] then ta_Add ta toolContent else ta);
              keep = (\<lambda>ta. h'\<lparr>mh_toolAccumulator := map_option (\<lambda>_. ta) (mh_toolAccumulator h)\<rparr>)
          in if don then
               (let ((toolName, raw), ta) = ta_Drain ta in
                case toolName of
                  None \<Rightarrow> Some (Inr (content, thinking, []), keep ta)
                | Some toolName \<Rightarrow>
                    let name = OriginalFromConverted (mh_FunctionNameMap h') (trim_prefix toolName ''functions.'')
                    in case unmarshal raw of
                         None \<Rightarrow> Some (Inl (ErrorParsingToolCall raw), keep ta)
                       | Some args \<Rightarrow> Some (Inr (content, thinking, [\<lparr>tc_Index = 0, tc_Name = name, tc_Arguments = args\<rparr>]), keep ta))
             else Some (Inr (content, thinking, []), keep ta)))"

definition mh_HasToolSupport :: "harmony_message_handler \<Rightarrow> bool" where
  "mh_HasToolSupport h = True"

definition mh_HasThinkingSupport :: "harmony_message_handler \<Rightarrow> bool" where
  "mh_HasThinkingSupport h = True"

definition mh_ThinkingClose :: "harmony_message_handler \<Rightarrow> string list" where
  "mh_ThinkingClose h =
     (if mh_contentPrefill h then []
      else [''<|end|><|start|>assistant<|channel|>final<|message|>'',
            ''<|end|><|start|>assistant<|channel|>final <|constrain|>json<|message|>'',
            ''<|end|><|start|>assistant<|channel|>final<|constrain|>json<|message|>'',
            ''<|end|><|start|>assistant<|channel|>final json<|message|>'',
            ''<|end|><|start|>assistant<|channel|>commentary<|message|>'',
            ''<|end|><|start|>assistant<|message|>''])"

definition mh_ThinkingTags :: "harmony_message_handler \<Rightarrow> string \<times> string" where
  "mh_ThinkingTags h = (''<|channel|>analysis<|message|>'', ''<|end|>'')"

definition mh_PreservedTokens :: "harmony_message_handler \<Rightarrow> string list" where
  "mh_PreservedTokens h =
     [''<|start|>'', ''<|end|>'', ''<|message|>'', ''<|channel|>'', ''<|constrain|>'']"

section \<open>Event traces\<close>

text \<open>The states a trace of events runs through, one message after the other.\<close>

fun harmony_protocol :: "harmony_parser_state \<Rightarrow> harmony_event list \<Rightarrow> harmony_parser_state option" where
  "harmony_protocol st [] = Some st"
| "harmony_protocol harmonyParserState_LookingForMessageStart (HarmonyEventMessageStart # es) =
     harmony_protocol harmonyParserState_ParsingHeader es"
| "harmony_protocol harmonyParserState_ParsingHeader (HarmonyEventHeaderComplete h # es) =
     harmony_protocol harmonyParserState_ParsingContent es"
| "harmony_protocol harmonyParserState_ParsingContent (HarmonyEventContentEmitted c # es) =
     (if c = [] then None else harmony_protocol harmonyParserState_ParsingContent es)"
| "harmony_protocol harmonyParserState_ParsingContent (HarmonyEventMessageEnd # es) =
     harmony_protocol harmonyParserState_LookingForMessageStart es"
| "harmony_protocol _ _ = None"

lemma harmony_protocol_append:
  "harmony_protocol st es = Some st' \<Longrightarrow> harmony_protocol st (es @ fs) = harmony_protocol st' fs"
  by (induction st es rule: harmony_protocol.induct) (auto split: if_splits)

lemma harmony_eat_protocol:
  "harmony_eat p = (es, p', m) \<Longrightarrow> harmony_protocol (hp_state p) es = Some (hp_state p')"
  by (auto simp: harmony_eat_def Let_def split: harmony_parser_state.splits option.splits if_splits)

text \<open>C15: whatever text arrives, \<open>AddContent\<close> returns, and the events it returns follow the protocol
  start, header, non-empty pieces of content, end, beginning in the parser's state and ending in
  the state it is left in.\<close>

theorem harmony_events_follow_protocol:
  assumes "hp_MessageStartTag p \<noteq> []" "hp_MessageEndTag p \<noteq> []" "hp_HeaderEndTag p \<noteq> []"
  shows "\<exists>es p'. harmony_AddContent p x = Some (es, p') \<and>
    harmony_protocol (hp_state p) es = Some (hp_state p')"
proof -
  have inv: "harmony_inv (harmony_put p x)" using assms by (simp add: harmony_inv_def)
  obtain es p' where d: "drain harmony_eat (harmony_put p x) = Some (es, p')"
    using harmony.drain_total [OF inv] by blast
  have "harmony_protocol (hp_state (harmony_put p x)) es = Some (hp_state p')"
    by (rule harmony.drain_rel [where R = "\<lambda>p es p'. harmony_protocol (hp_state p) es = Some (hp_state p')",
          OF harmony_eat_protocol _ inv d]) (simp_all add: harmony_protocol_append)
  with d show ?thesis by (simp add: harmony_AddContent_def)
qed

theorem harmony_events_follow_protocol_witness:
  "\<exists>es p'. harmony_AddContent new_HarmonyParser ''<|start|>assistant'' = Some (es, p') \<and>
    harmony_protocol (hp_state new_HarmonyParser) es = Some (hp_state p')"
  by (rule harmony_events_follow_protocol) (simp_all add: new_HarmonyParser_def)

section \<open>Streams\<close>

text \<open>A handler that has been initialised and whose parser has tags.\<close>

definition mh_ready :: "harmony_message_handler \<Rightarrow> bool" where
  "mh_ready h \<longleftrightarrow> (\<exists>p. mh_HarmonyParser h = Some p \<and> harmony_inv p) \<and> mh_toolAccumulator h \<noteq> None"

definition mh_lift ::
  "harmony_message_handler \<Rightarrow> harmony_tool_accumulator \<Rightarrow>
   ((harmony_ctx \<Rightarrow> harmony_out \<times> harmony_ctx) \<times> harmony_parser) option \<Rightarrow>
   (harmony_out \<times> harmony_message_handler \<times> harmony_tool_accumulator) option" where
  "mh_lift h ta r = map_option (\<lambda>(f, p'). let (out, st, ta') = f (mh_state h, ta)
     in (out, h\<lparr>mh_state := st, mh_HarmonyParser := Some p'\<rparr>, ta')) r"

lemma mh_AddContent_lift:
  "mh_HarmonyParser h = Some p \<Longrightarrow>
   mh_AddContent h ta x = mh_lift h ta (observe harmony_handle_events harmony_eat (harmony_put p x))"
  by (cases "drain harmony_eat (harmony_put p x)")
    (auto simp: mh_AddContent_def mh_lift_def observe_def harmony_AddContent_def split: prod.split)

lemma mh_lift_after_obs:
  assumes "f (mh_state h, ta) = (out, st, ta')"
  shows "mh_lift h ta (after_obs harmony_comb f r) =
    map_option (apfst (out_append out)) (mh_lift (h\<lparr>mh_state := st, mh_HarmonyParser := Some q\<rparr>) ta' r)"
  using assms by (cases r) (auto simp: mh_lift_def after_obs_def harmony_comb_def split: prod.splits)

text \<open>Two calls of \<open>AddContent\<close> do what one does.\<close>

lemma mh_AddContent_append:
  assumes "mh_HarmonyParser h = Some p" "harmony_inv p"
  obtains out h' ta' p' where "mh_AddContent h ta x = Some (out, h', ta')"
    "mh_AddContent h ta (x @ y) = map_option (apfst (out_append out)) (mh_AddContent h' ta' y)"
    "mh_HarmonyParser h' = Some p'" "harmony_inv p'" "mh_toolAccumulator h' = mh_toolAccumulator h"
    "mh_FunctionNameMap h' = mh_FunctionNameMap h"
proof -
  have inv: "harmony_inv (harmony_put p x)" using assms(2) by (rule harmony.put_inv) simp
  obtain es p' where d: "drain harmony_eat (harmony_put p x) = Some (es, p')" and i: "harmony_inv p'"
    using harmony.drain_total [OF inv] by blast
  obtain out st ta' where f: "harmony_handle_events es (mh_state h, ta) = (out, st, ta')"
    by (rule prod_cases3)
  let ?h = "h\<lparr>mh_state := st, mh_HarmonyParser := Some p'\<rparr>"
  have "mh_AddContent h ta x = Some (out, ?h, ta')"
    using assms(1) d f by (simp add: mh_AddContent_def harmony_AddContent_def)
  moreover have "mh_AddContent h ta (x @ y) = map_option (apfst (out_append out)) (mh_AddContent ?h ta' y)"
  proof -
    have "observe harmony_handle_events harmony_eat (harmony_put p (x @ y)) =
      after_obs harmony_comb (harmony_handle_events es) (observe harmony_handle_events harmony_eat (harmony_put p' y))"
      using harmony.observe_put [OF inv _ d, of y] by (simp add: harmony.put_put)
    then show ?thesis
      using mh_lift_after_obs [where f = "harmony_handle_events es", OF f, of _ p'] by (simp add: mh_AddContent_lift [OF assms(1)] mh_AddContent_lift [of ?h p'])
  qed
  ultimately show thesis using that i by simp
qed

definition mh_add_state ::
  "harmony_message_handler \<times> harmony_tool_accumulator \<Rightarrow> string \<Rightarrow>
   (harmony_out \<times> harmony_message_handler \<times> harmony_tool_accumulator) option" where
  "mh_add_state = (\<lambda>(h, ta) x. mh_AddContent h ta x)"

text \<open>C12: the handler does not depend on how the stream is cut.  The content, the thinking and the tool
  content returned by any sequence of calls of \<open>AddContent\<close>, concatenated, and the state of the
  handler and of the tool accumulator after it, are those of one call with the whole text.\<close>

theorem harmony_chunk_invariance:
  assumes "mh_HarmonyParser h = Some p"
    and "hp_MessageStartTag p \<noteq> []" "hp_MessageEndTag p \<noteq> []" "hp_HeaderEndTag p \<noteq> []"
  shows "run_chunks mh_add_state out_append (h, ta) x ys = mh_AddContent h ta (x @ concat ys)"
proof -
  have "harmony_inv p" using assms by (simp add: harmony_inv_def)
  with assms(1) show ?thesis
  proof (induction ys arbitrary: h ta p x)
    case Nil
    then show ?case by (simp add: mh_add_state_def)
  next
    case (Cons y ys)
    from Cons.prems obtain out h' ta' p' where
      a: "mh_AddContent h ta x = Some (out, h', ta')"
      "mh_AddContent h ta (x @ (y @ concat ys)) = map_option (apfst (out_append out)) (mh_AddContent h' ta' (y @ concat ys))"
      and p': "mh_HarmonyParser h' = Some p'" "harmony_inv p'"
      by (rule mh_AddContent_append)
    from Cons.IH [OF p', of ta' y] a show ?case by (simp add: mh_add_state_def after_obs_def)
  qed
qed

theorem harmony_chunk_invariance_witness:
  "run_chunks mh_add_state out_append (NewHarmonyMessageHandler, CreateToolParser)
     ''<|start|>assistant<|chan'' [''nel|>analysis<|mess'', ''age|>hm<|end'', ''|>''] =
   mh_AddContent NewHarmonyMessageHandler CreateToolParser
     (''<|start|>assistant<|chan'' @ concat [''nel|>analysis<|mess'', ''age|>hm<|end'', ''|>''])"
  by (rule harmony_chunk_invariance [where p = new_HarmonyParser])
    (simp_all add: NewHarmonyMessageHandler_def new_HarmonyParser_def)

text \<open>The calls of \<open>Add\<close> for one answer: the chunks \<open>xs\<close>, then the last one with \<open>done\<close> set, which
  is where tool calls are parsed.  What is returned is collected; an error ends the answer.\<close>

fun mh_answer ::
  "(string \<Rightarrow> 'args option) \<Rightarrow> harmony_message_handler \<Rightarrow> string list \<Rightarrow> string \<Rightarrow>
     ((harmony_error + string \<times> string \<times> 'args api_tool_call list) \<times> harmony_message_handler) option" where
  "mh_answer unmarshal h [] last_chunk = mh_Add unmarshal h last_chunk True"
| "mh_answer unmarshal h (x # xs) last_chunk =
     Option.bind (mh_Add unmarshal h x False) (\<lambda>(r, h').
       case r of
         Inl e \<Rightarrow> Some (Inl e, h')
       | Inr (c, t, calls) \<Rightarrow>
           map_option (apfst (map_sum id (\<lambda>(c', t', calls'). (c @ c', t @ t', calls @ calls'))))
             (mh_answer unmarshal h' xs last_chunk))"

text \<open>The tool content collected so far makes no difference to the events.\<close>

lemma harmony_handle_event_acc:
  "harmony_handle_event (st, ta) e = (out, st', ta') \<Longrightarrow>
   harmony_handle_event (st, ta\<lparr>ta_acc := a\<rparr>) e = (out, st', ta'\<lparr>ta_acc := a\<rparr>) \<and> ta_acc ta' = ta_acc ta"
  by (cases e) (auto simp: ta_SetToolName_def split: if_splits)

lemma harmony_handle_events_acc:
  "harmony_handle_events es (st, ta) = (out, st', ta') \<Longrightarrow>
   harmony_handle_events es (st, ta\<lparr>ta_acc := a\<rparr>) = (out, st', ta'\<lparr>ta_acc := a\<rparr>) \<and> ta_acc ta' = ta_acc ta"
proof (induction es arbitrary: st ta out)
  case (Cons e es)
  obtain o1 st1 ta1 where 1: "harmony_handle_event (st, ta) e = (o1, st1, ta1)" by (rule prod_cases3)
  obtain o2 st2 ta2 where 2: "harmony_handle_events es (st1, ta1) = (o2, st2, ta2)" by (rule prod_cases3)
  from Cons.prems 1 2 have eq: "out = out_append o1 o2" "st' = st2" "ta' = ta2" by simp_all
  with Cons.IH [of st1 ta1 o2] 2 harmony_handle_event_acc [OF 1] show ?case by simp
qed auto

lemma mh_AddContent_acc:
  assumes "mh_AddContent h ta x = Some (out, h', ta')"
  shows "mh_AddContent h (ta\<lparr>ta_acc := a\<rparr>) x = Some (out, h', ta'\<lparr>ta_acc := a\<rparr>)" "ta_acc ta' = ta_acc ta"
proof -
  from assms obtain p es p' where p: "mh_HarmonyParser h = Some p" "harmony_AddContent p x = Some (es, p')"
    by (auto simp: mh_AddContent_def bind_eq_Some_conv)
  obtain o1 st1 ta1 where 1: "harmony_handle_events es (mh_state h, ta) = (o1, st1, ta1)" by (rule prod_cases3)
  from harmony_handle_events_acc [OF this, of a] assms p 1
  show "mh_AddContent h (ta\<lparr>ta_acc := a\<rparr>) x = Some (out, h', ta'\<lparr>ta_acc := a\<rparr>)" "ta_acc ta' = ta_acc ta"
    by (auto simp: mh_AddContent_def)
qed

lemma mh_AddContent_toolAccumulator:
  "mh_AddContent (h\<lparr>mh_toolAccumulator := z\<rparr>) ta x =
   map_option (apsnd (apfst (mh_toolAccumulator_update (\<lambda>_. z)))) (mh_AddContent h ta x)"
proof (cases "mh_HarmonyParser h")
  case (Some p)
  then show ?thesis
    by (cases "harmony_AddContent p x") (auto simp: mh_AddContent_def split: prod.split)
qed (simp add: mh_AddContent_def)

text \<open>What \<open>Add\<close> does once the accumulator is there.\<close>

definition mh_finish ::
  "(string \<Rightarrow> 'args option) \<Rightarrow> harmony_message_handler \<Rightarrow> harmony_tool_accumulator \<Rightarrow> string \<Rightarrow> string \<Rightarrow>
     (harmony_error + string \<times> string \<times> 'args api_tool_call list) \<times> harmony_message_handler" where
  "mh_finish unmarshal h ta content thinking =
     (case ta_currentToolName ta of
        None \<Rightarrow> Inr (content, thinking, [])
      | Some n \<Rightarrow>
          (case unmarshal (ta_acc ta) of
             None \<Rightarrow> Inl (ErrorParsingToolCall (ta_acc ta))
           | Some args \<Rightarrow> Inr (content, thinking,
               [\<lparr>tc_Index = 0, tc_Name = OriginalFromConverted (mh_FunctionNameMap h) (trim_prefix n ''functions.''),
                 tc_Arguments = args\<rparr>])),
      h\<lparr>mh_toolAccumulator := Some (ta\<lparr>ta_acc := []\<rparr>)\<rparr>)"

lemma mh_Add_eq:
  assumes "mh_toolAccumulator h = Some ta0" "mh_AddContent h ta0 s = Some ((c, t, tc), h', ta)"
  shows "mh_Add unmarshal h s don =
    (let ta = ta\<lparr>ta_acc := ta_acc ta @ tc\<rparr>
     in Some (if don then mh_finish unmarshal h' ta c t
              else (Inr (c, t, []), h'\<lparr>mh_toolAccumulator := Some ta\<rparr>)))"
proof -
  have "(if tc \<noteq> [] then ta_Add ta tc else ta) = ta\<lparr>ta_acc := ta_acc ta @ tc\<rparr>"
    by (simp add: ta_Add_def)
  then show ?thesis
    using assms by (auto simp: mh_Add_def mh_finish_def Let_def ta_Drain_def split: option.split)
qed

lemma mh_Add_append:
  assumes "mh_ready h"
  obtains c t h1 where "mh_Add unmarshal h x False = Some (Inr (c, t, []), h1)" "mh_ready h1"
    "mh_Add unmarshal h (x @ y) True =
      map_option (apfst (map_sum id (\<lambda>(c', t', calls'). (c @ c', t @ t', calls'))))
        (mh_Add unmarshal h1 y True)"
proof -
  from assms obtain p ta0 where p: "mh_HarmonyParser h = Some p" "harmony_inv p"
    and ta0: "mh_toolAccumulator h = Some ta0" by (auto simp: mh_ready_def)
  from p obtain out h' ta' p' where x: "mh_AddContent h ta0 x = Some (out, h', ta')"
    and xy: "mh_AddContent h ta0 (x @ y) = map_option (apfst (out_append out)) (mh_AddContent h' ta' y)"
    and p': "mh_HarmonyParser h' = Some p'" "harmony_inv p'" "mh_toolAccumulator h' = mh_toolAccumulator h"
    by (rule mh_AddContent_append)
  obtain c t tc where out: "out = (c, t, tc)" by (rule prod_cases3)
  from p'(1,2) obtain out2 h2 ta2 where y: "mh_AddContent h' ta' y = Some (out2, h2, ta2)"
    by (rule mh_AddContent_append)
  obtain c2 t2 tc2 where out2: "out2 = (c2, t2, tc2)" by (rule prod_cases3)
  let ?ta = "ta'\<lparr>ta_acc := ta_acc ta' @ tc\<rparr>"
  let ?h = "h'\<lparr>mh_toolAccumulator := Some ?ta\<rparr>"
  have 1: "mh_Add unmarshal h x False = Some (Inr (c, t, []), ?h)"
    using mh_Add_eq [OF ta0 x [unfolded out], of unmarshal] by simp
  have "mh_AddContent ?h ?ta y =
    Some ((c2, t2, tc2), h2\<lparr>mh_toolAccumulator := Some ?ta\<rparr>, ta2\<lparr>ta_acc := ta_acc ta' @ tc\<rparr>)"
    using mh_AddContent_acc(1) [OF y, of "ta_acc ta' @ tc"] out2 by (simp add: mh_AddContent_toolAccumulator)
  note two = mh_Add_eq [OF _ this, of unmarshal True, simplified]
  have one: "mh_AddContent h ta0 (x @ y) = Some ((c @ c2, t @ t2, tc @ tc2), h2, ta2)"
    using xy y out out2 by simp
  have "mh_Add unmarshal h (x @ y) True =
      map_option (apfst (map_sum id (\<lambda>(c', t', calls'). (c @ c', t @ t', calls'))))
        (mh_Add unmarshal ?h y True)"
    using mh_Add_eq [OF ta0 one, of unmarshal True] two mh_AddContent_acc(2) [OF y]
    by (auto simp: mh_finish_def split: option.split)
  moreover have "mh_ready ?h" using p' by (simp add: mh_ready_def)
  ultimately show thesis using that 1 by blast
qed

text \<open>C3: an answer does not depend on how its text is cut, tool calls included.  Adding the chunks one
  by one and the last one with \<open>done\<close> set returns, in total, what one call with the whole text and
  \<open>done\<close> set returns: the same content, thinking and tool calls, or the same error, and it leaves the
  handler in the same state.\<close>

theorem harmony_answer_is_one_add:
  assumes "mh_HarmonyParser h = Some p" "mh_toolAccumulator h = Some ta"
    and "hp_MessageStartTag p \<noteq> []" "hp_MessageEndTag p \<noteq> []" "hp_HeaderEndTag p \<noteq> []"
  shows "mh_answer unmarshal h xs last_chunk = mh_Add unmarshal h (concat xs @ last_chunk) True"
proof -
  have "mh_ready h" using assms by (simp add: mh_ready_def harmony_inv_def)
  then show ?thesis
  proof (induction xs arbitrary: h)
    case (Cons x xs)
    from Cons.prems obtain c t h1 where
      "mh_Add unmarshal h x False = Some (Inr (c, t, []), h1)" "mh_ready h1"
      "mh_Add unmarshal h (x @ (concat xs @ last_chunk)) True =
        map_option (apfst (map_sum id (\<lambda>(c', t', calls'). (c @ c', t @ t', calls'))))
          (mh_Add unmarshal h1 (concat xs @ last_chunk) True)"
      by (rule mh_Add_append)
    with Cons.IH show ?case by simp
  qed simp
qed

theorem harmony_answer_is_one_add_witness:
  "mh_answer Some (NewHarmonyMessageHandler\<lparr>mh_toolAccumulator := Some CreateToolParser\<rparr>)
     [''<|start|>assistant to=functions.f<|message|>{'', ''}<|e''] ''nd|>'' =
   mh_Add Some (NewHarmonyMessageHandler\<lparr>mh_toolAccumulator := Some CreateToolParser\<rparr>)
     (concat [''<|start|>assistant to=functions.f<|message|>{'', ''}<|e''] @ ''nd|>'') True"
  by (rule harmony_answer_is_one_add [where p = new_HarmonyParser and ta = CreateToolParser])
    (simp_all add: NewHarmonyMessageHandler_def new_HarmonyParser_def)

end
