(* ===== verification/ModelName.thy ===== *)
theory ModelName
  imports GoPath
begin

text \<open>
  \<open>types/model/name.go\<close>: model names, how they are parsed from and printed to strings and file paths,
  and when their parts are valid.  \<open>LogValue\<close> and \<open>BaseURL\<close> only repackage the fields for the logger and
  for \<open>net/url\<close>.  A panic is \<open>None\<close>.
\<close>

section \<open>Definitions\<close>

definition MissingPart :: string where
  "MissingPart = ''!MISSING!''"

definition defaultHost :: string where "defaultHost = ''registry.ollama.ai''"
definition defaultNamespace :: string where "defaultNamespace = ''library''"
definition defaultTag :: string where "defaultTag = ''latest''"
definition defaultProtocolScheme :: string where "defaultProtocolScheme = ''https''"

datatype partKind = kindHost | kindNamespace | kindModel | kindTag | kindDigest

fun partKind_String :: "partKind \<Rightarrow> string" where
  "partKind_String kindHost = ''host''"
| "partKind_String kindNamespace = ''namespace''"
| "partKind_String kindModel = ''model''"
| "partKind_String kindTag = ''tag''"
| "partKind_String kindDigest = ''digest''"

record model_name =
  mn_Host :: string
  mn_Namespace :: string
  mn_Model :: string
  mn_Tag :: string
  mn_ProtocolScheme :: string

definition empty_name :: model_name where
  "empty_name = \<lparr>mn_Host = [], mn_Namespace = [], mn_Model = [], mn_Tag = [], mn_ProtocolScheme = []\<rparr>"

definition DefaultName :: model_name where
  "DefaultName = \<lparr>mn_Host = defaultHost, mn_Namespace = defaultNamespace, mn_Model = [],
     mn_Tag = defaultTag, mn_ProtocolScheme = defaultProtocolScheme\<rparr>"

text \<open>\<open>cmp.Or\<close>: the first argument that is not empty.\<close>

definition cmp_or :: "string \<Rightarrow> string \<Rightarrow> string" where
  "cmp_or a b = (if a \<noteq> [] then a else b)"

definition cutLast :: "string \<Rightarrow> string \<Rightarrow> string \<times> string \<times> bool" where
  "cutLast s sep =
     (case last_index s sep of
        Some i \<Rightarrow> (take i s, drop (i + length sep) s, True)
      | None \<Rightarrow> (s, [], False))"

definition cutPromised :: "string \<Rightarrow> string \<Rightarrow> string \<times> string \<times> bool" where
  "cutPromised s sep =
     (case cutLast s sep of (before, after, ok) \<Rightarrow>
        if \<not> ok then (before, after, False)
        else (cmp_or before MissingPart, cmp_or after MissingPart, True))"

definition ParseNameBare :: "string \<Rightarrow> model_name" where
  "ParseNameBare s =
     (let (s, tag) =
            (if last_index_int s '':'' > last_index_int s ''/''
             then (case cutPromised s '':'' of (b, a, _) \<Rightarrow> (b, a)) else (s, []));
          n = empty_name\<lparr>mn_Tag := tag\<rparr>;
          (s, model, promised) = cutPromised s ''/''
      in if \<not> promised then n\<lparr>mn_Model := s\<rparr>
         else
           (let n = n\<lparr>mn_Model := model\<rparr>;
                (s, namespace, promised) = cutPromised s ''/''
            in if \<not> promised then n\<lparr>mn_Namespace := s\<rparr>
               else
                 (let n = n\<lparr>mn_Namespace := namespace\<rparr>
                  in case cut s ''://'' of
                       Some (scheme, host) \<Rightarrow> n\<lparr>mn_ProtocolScheme := scheme, mn_Host := host\<rparr>
                     | None \<Rightarrow> n\<lparr>mn_Host := s\<rparr>)))"

definition Merge :: "model_name \<Rightarrow> model_name \<Rightarrow> model_name" where
  "Merge a b = a\<lparr>mn_Host := cmp_or (mn_Host a) (mn_Host b),
     mn_Namespace := cmp_or (mn_Namespace a) (mn_Namespace b),
     mn_Tag := cmp_or (mn_Tag a) (mn_Tag b),
     mn_ProtocolScheme := cmp_or (mn_ProtocolScheme a) (mn_ProtocolScheme b)\<rparr>"

definition ParseName :: "string \<Rightarrow> model_name" where
  "ParseName s = Merge (ParseNameBare s) DefaultName"

definition name_String :: "model_name \<Rightarrow> string" where
  "name_String n =
     (if mn_Host n \<noteq> [] then mn_Host n @ ''/'' else []) @
     (if mn_Namespace n \<noteq> [] then mn_Namespace n @ ''/'' else []) @
     mn_Model n @
     (if mn_Tag n \<noteq> [] then '':'' @ mn_Tag n else [])"

definition DisplayShortest :: "(nat \<Rightarrow> nat) \<Rightarrow> model_name \<Rightarrow> string" where
  "DisplayShortest wide n =
     (if \<not> equal_fold wide (mn_Host n) defaultHost then mn_Host n @ ''/'' @ mn_Namespace n @ ''/''
      else if \<not> equal_fold wide (mn_Namespace n) defaultNamespace then mn_Namespace n @ ''/''
      else []) @
     mn_Model n @ '':'' @ mn_Tag n"

definition isAlphanumericOrUnderscore :: "char \<Rightarrow> bool" where
  "isAlphanumericOrUnderscore c \<longleftrightarrow>
     (let b = (of_char c :: nat)
      in 65 \<le> b \<and> b \<le> 90 \<or> 97 \<le> b \<and> b \<le> 122 \<or> 48 \<le> b \<and> b \<le> 57 \<or> b = 95)"

definition isValidLen :: "partKind \<Rightarrow> string \<Rightarrow> bool" where
  "isValidLen kind s =
     (case kind of
        kindHost \<Rightarrow> 1 \<le> length s \<and> length s \<le> 350
      | kindTag \<Rightarrow> 1 \<le> length s \<and> length s \<le> 80
      | _ \<Rightarrow> 1 \<le> length s \<and> length s \<le> 80)"

text \<open>The switch on a byte that is not the first.\<close>

definition valid_byte :: "partKind \<Rightarrow> char \<Rightarrow> bool" where
  "valid_byte kind c =
     (if c = CHR ''_'' \<or> c = CHR ''-'' then True
      else if c = CHR ''.'' then kind \<noteq> kindNamespace
      else if c = CHR '':'' then kind = kindHost \<or> kind = kindDigest
      else isAlphanumericOrUnderscore c)"

text \<open>\<open>for i := range s\<close> visits the first byte of every rune.\<close>

function valid_from :: "partKind \<Rightarrow> bool \<Rightarrow> string \<Rightarrow> bool" where
  "valid_from kind first s =
     (if s = [] then True
      else if first then
        isAlphanumericOrUnderscore (hd s) \<and> valid_from kind False (drop (snd (decode_rune s)) s)
      else valid_byte kind (hd s) \<and> valid_from kind False (drop (snd (decode_rune s)) s))"
  by pat_completeness auto
termination
  by (relation "measure (\<lambda>(k, f, s). length s)") (auto dest: decode_rune_size)

declare valid_from.simps [simp del]

definition isValidPart :: "partKind \<Rightarrow> string \<Rightarrow> bool" where
  "isValidPart kind s \<longleftrightarrow> isValidLen kind s \<and> valid_from kind True s"

definition IsValidNamespace :: "string \<Rightarrow> bool" where
  "IsValidNamespace s = isValidPart kindNamespace s"

definition IsFullyQualified :: "model_name \<Rightarrow> bool" where
  "IsFullyQualified n \<longleftrightarrow>
     list_all (\<lambda>(kind, part). isValidPart kind part)
       (zip [kindHost, kindNamespace, kindModel, kindTag] [mn_Host n, mn_Namespace n, mn_Model n, mn_Tag n])"

definition name_IsValid :: "model_name \<Rightarrow> bool" where
  "name_IsValid n = IsFullyQualified n"

definition name_Filepath :: "model_name \<Rightarrow> string option" where
  "name_Filepath n =
     (if \<not> IsFullyQualified n then None
      else Some (path_join [mn_Host n, mn_Namespace n, mn_Model n, mn_Tag n]))"

definition ParseNameFromFilepath :: "string \<Rightarrow> model_name" where
  "ParseNameFromFilepath s =
     (let parts = split_all s ''/'' in
      if length parts \<noteq> 4 then empty_name
      else
        let n = empty_name\<lparr>mn_Host := parts ! 0, mn_Namespace := parts ! 1, mn_Model := parts ! 2,
                  mn_Tag := parts ! 3\<rparr>
        in if \<not> IsFullyQualified n then empty_name else n)"

definition name_EqualFold :: "(nat \<Rightarrow> nat) \<Rightarrow> model_name \<Rightarrow> model_name \<Rightarrow> bool" where
  "name_EqualFold wide n m \<longleftrightarrow>
     equal_fold wide (mn_Host n) (mn_Host m) \<and> equal_fold wide (mn_Namespace n) (mn_Namespace m) \<and>
     equal_fold wide (mn_Model n) (mn_Model m) \<and> equal_fold wide (mn_Tag n) (mn_Tag m)"

definition DisplayNamespaceModel :: "model_name \<Rightarrow> string" where
  "DisplayNamespaceModel n = mn_Namespace n @ ''/'' @ mn_Model n"

section \<open>Valid parts\<close>

lemma alphanumeric_ascii: "isAlphanumericOrUnderscore c \<Longrightarrow> of_char c < (128 :: nat)"
  by (auto simp: isAlphanumericOrUnderscore_def Let_def)

lemma valid_byte_ascii: "valid_byte kind c \<Longrightarrow> of_char c < (128 :: nat)"
  by (auto simp: valid_byte_def dest: alphanumeric_ascii split: if_splits)

lemma decode_rune_ascii: "of_char c < (128 :: nat) \<Longrightarrow> decode_rune (c # s) = (of_char c, 1)"
  using decode_rune_enc [OF is_enc_ascii, of c s] by (simp add: rune_value_bytes_def)

lemma valid_from_rest: "valid_from kind False s \<longleftrightarrow> list_all (valid_byte kind) s"
proof (induction "length s" arbitrary: s rule: less_induct)
  case less
  show ?case
  proof (cases s)
    case Nil
    then show ?thesis by (simp add: valid_from.simps)
  next
    case (Cons c r)
    then show ?thesis
      using less [of r] valid_byte_ascii [of kind c]
      by (subst valid_from.simps) (auto simp: decode_rune_ascii)
  qed
qed

lemma alphanumeric_valid_byte: "isAlphanumericOrUnderscore c \<Longrightarrow> valid_byte kind c"
  by (auto simp: valid_byte_def isAlphanumericOrUnderscore_def)

lemma valid_part_iff:
  "isValidPart kind s \<longleftrightarrow>
     1 \<le> length s \<and> length s \<le> (if kind = kindHost then 350 else 80) \<and>
     isAlphanumericOrUnderscore (hd s) \<and> list_all (valid_byte kind) s"
proof (cases s)
  case Nil
  then show ?thesis by (cases kind) (simp_all add: isValidPart_def isValidLen_def)
next
  case (Cons c r)
  have "valid_from kind True (c # r) \<longleftrightarrow> isAlphanumericOrUnderscore c \<and> list_all (valid_byte kind) (c # r)"
    using alphanumeric_ascii [of c] alphanumeric_valid_byte [of c kind]
    by (subst valid_from.simps) (auto simp: decode_rune_ascii valid_from_rest)
  then show ?thesis using Cons by (cases kind) (auto simp: isValidPart_def isValidLen_def)
qed

text \<open>Although the loop of \<open>isValidPart\<close> visits only the first byte of every rune, no byte escapes
  it: a part is valid exactly when its length is in the bounds of its kind, its first byte is a
  letter, a digit or an underscore, and every byte is one the kind allows.\<close>

theorem valid_part_bytewise:
  "isValidPart kind s \<longleftrightarrow>
     1 \<le> length s \<and> length s \<le> (if kind = kindHost then 350 else 80) \<and>
     isAlphanumericOrUnderscore (hd s) \<and> list_all (valid_byte kind) s"
  by (rule valid_part_iff)

lemma valid_partD:
  assumes "isValidPart kind s"
  shows "s \<noteq> []" "CHR ''/'' \<notin> set s" "kind = kindHost \<or> kind = kindDigest \<or> CHR '':'' \<notin> set s"
    "plain_element s"
proof -
  have v: "s \<noteq> []" "isAlphanumericOrUnderscore (hd s)" "list_all (valid_byte kind) s"
    using assms by (auto simp: valid_part_iff)
  have "\<not> valid_byte kind (CHR ''/'')" "valid_byte kind (CHR '':'') \<Longrightarrow> kind = kindHost \<or> kind = kindDigest"
    by (auto simp: valid_byte_def isAlphanumericOrUnderscore_def)
  with v(3) show slash: "CHR ''/'' \<notin> set s" and "kind = kindHost \<or> kind = kindDigest \<or> CHR '':'' \<notin> set s"
    by (auto simp: list_all_iff)
  have "hd s \<noteq> CHR ''.''" using v(2) by (auto simp: isAlphanumericOrUnderscore_def)
  with v(1) slash show "s \<noteq> []" "plain_element s" by (auto simp: plain_element_def)
qed

lemma fully_qualifiedD:
  assumes "IsFullyQualified n"
  shows "isValidPart kindHost (mn_Host n)" "isValidPart kindNamespace (mn_Namespace n)"
    "isValidPart kindModel (mn_Model n)" "isValidPart kindTag (mn_Tag n)"
  using assms by (simp_all add: IsFullyQualified_def)

section \<open>Printing and parsing\<close>

lemma cutPromised_append:
  "c \<notin> set b \<Longrightarrow> a \<noteq> [] \<Longrightarrow> b \<noteq> [] \<Longrightarrow> cutPromised (a @ c # b) [c] = (a, b, True)"
  by (simp add: cutPromised_def cutLast_def last_index_single_append cmp_or_def)

lemma cutPromised_None: "c \<notin> set s \<Longrightarrow> cutPromised s [c] = (s, [], False)"
  by (simp add: cutPromised_def cutLast_def)

lemma last_index_int_less:
  assumes "c \<noteq> d" "c \<notin> set b" "d \<notin> set b"
  shows "last_index_int (a @ c # b) [d] < last_index_int (a @ c # b) [c]"
proof -
  have c: "last_index_int (a @ c # b) [c] = int (length a)"
    by (simp add: last_index_int_def last_index_single_append assms)
  show ?thesis
  proof (cases "d \<in> set a")
    case True
    then obtain u v where uv: "a = u @ d # v" "d \<notin> set v" by (meson split_list_last)
    then have "last_index (u @ d # (v @ c # b)) [d] = Some (length u)"
      using assms by (intro last_index_single_append) auto
    then have "last_index_int (a @ c # b) [d] = int (length u)" using uv by (simp add: last_index_int_def)
    with c uv show ?thesis by simp
  next
    case False
    with assms have "last_index_int (a @ c # b) [d] = -1" by (simp add: last_index_int_def)
    with c show ?thesis by simp
  qed
qed

text \<open>The three shapes of a printed name.\<close>

lemma ParseNameBare_tag:
  assumes "CHR ''/'' \<notin> set m" "CHR ''/'' \<notin> set t" "CHR '':'' \<notin> set t" "m \<noteq> []" "t \<noteq> []"
  shows "ParseNameBare (p @ m @ '':'' @ t) =
    (case cutPromised (p @ m) ''/'' of (s, model, promised) \<Rightarrow>
       if \<not> promised then empty_name\<lparr>mn_Tag := t, mn_Model := s\<rparr>
       else case cutPromised s ''/'' of (s, namespace, promised) \<Rightarrow>
         if \<not> promised then empty_name\<lparr>mn_Tag := t, mn_Model := model, mn_Namespace := s\<rparr>
         else case cut s ''://'' of
           Some (scheme, host) \<Rightarrow> empty_name\<lparr>mn_Tag := t, mn_Model := model, mn_Namespace := namespace,
             mn_ProtocolScheme := scheme, mn_Host := host\<rparr>
         | None \<Rightarrow> empty_name\<lparr>mn_Tag := t, mn_Model := model, mn_Namespace := namespace, mn_Host := s\<rparr>)"
proof -
  have "last_index_int ((p @ m) @ CHR '':'' # t) ''/'' < last_index_int ((p @ m) @ CHR '':'' # t) '':''"
    by (rule last_index_int_less) (use assms in auto)
  moreover have "cutPromised ((p @ m) @ CHR '':'' # t) '':'' = (p @ m, t, True)"
    by (rule cutPromised_append) (use assms in auto)
  ultimately show ?thesis by (simp add: ParseNameBare_def Let_def split: prod.split option.split)
qed

lemma ParseNameBare_3:
  assumes "isValidPart kindHost h" "isValidPart kindNamespace ns" "isValidPart kindModel m" "isValidPart kindTag t"
  shows "ParseNameBare (h @ ''/'' @ ns @ ''/'' @ m @ '':'' @ t) =
    \<lparr>mn_Host = h, mn_Namespace = ns, mn_Model = m, mn_Tag = t, mn_ProtocolScheme = []\<rparr>"
proof -
  note v = assms [THEN valid_partD(1)] assms [THEN valid_partD(2)] valid_partD(3) [OF assms(4)]
  have "cutPromised ((h @ ''/'' @ ns) @ CHR ''/'' # m) ''/'' = (h @ ''/'' @ ns, m, True)"
    using v by (intro cutPromised_append) auto
  moreover have "cutPromised (h @ CHR ''/'' # ns) ''/'' = (h, ns, True)"
    using v by (intro cutPromised_append) auto
  moreover have "cut h ''://'' = None"
    using v by (auto simp: cut_None_iff contains_iff)
  ultimately show ?thesis
    using v ParseNameBare_tag [of m t "h @ ''/'' @ ns @ ''/''"] by (simp add: empty_name_def)
qed

lemma ParseNameBare_2:
  assumes "isValidPart kindNamespace ns" "isValidPart kindModel m" "isValidPart kindTag t"
  shows "ParseNameBare (ns @ ''/'' @ m @ '':'' @ t) =
    \<lparr>mn_Host = [], mn_Namespace = ns, mn_Model = m, mn_Tag = t, mn_ProtocolScheme = []\<rparr>"
proof -
  note v = assms [THEN valid_partD(1)] assms [THEN valid_partD(2)] valid_partD(3) [OF assms(3)]
  have "cutPromised (ns @ CHR ''/'' # m) ''/'' = (ns, m, True)" "cutPromised ns ''/'' = (ns, [], False)"
    using v by (simp_all add: cutPromised_append cutPromised_None)
  then show ?thesis
    using v ParseNameBare_tag [of m t "ns @ ''/''"] by (simp add: empty_name_def)
qed

lemma ParseNameBare_1:
  assumes "isValidPart kindModel m" "isValidPart kindTag t"
  shows "ParseNameBare (m @ '':'' @ t) =
    \<lparr>mn_Host = [], mn_Namespace = [], mn_Model = m, mn_Tag = t, mn_ProtocolScheme = []\<rparr>"
proof -
  note v = assms [THEN valid_partD(1)] assms [THEN valid_partD(2)] valid_partD(3) [OF assms(2)]
  have "cutPromised m ''/'' = (m, [], False)" using v by (simp add: cutPromised_None)
  then show ?thesis using v ParseNameBare_tag [of m t "[]"] by (simp add: empty_name_def)
qed

text \<open>C13: parsing undoes printing.  For a fully qualified name, \<open>ParseNameBare\<close> of its string is the name
  without its scheme, and \<open>ParseName\<close> of its string is the name with the default scheme.\<close>

theorem model_name_round_trip:
  assumes "IsFullyQualified n"
  shows "ParseNameBare (name_String n) = n\<lparr>mn_ProtocolScheme := []\<rparr> \<and>
    ParseName (name_String n) = n\<lparr>mn_ProtocolScheme := defaultProtocolScheme\<rparr>"
proof -
  note q = fully_qualifiedD [OF assms]
  note v = q [THEN valid_partD(1)]
  have "name_String n = mn_Host n @ ''/'' @ mn_Namespace n @ ''/'' @ mn_Model n @ '':'' @ mn_Tag n"
    using v by (simp add: name_String_def)
  with ParseNameBare_3 [OF q] have 1: "ParseNameBare (name_String n) = n\<lparr>mn_ProtocolScheme := []\<rparr>" by simp
  have "ParseName (name_String n) = n\<lparr>mn_ProtocolScheme := defaultProtocolScheme\<rparr>"
    unfolding ParseName_def 1 using v by (simp add: Merge_def DefaultName_def cmp_or_def)
  with 1 show ?thesis ..
qed

text \<open>C18: the short form shown to the user names the same model.  Parsing what \<open>DisplayShortest\<close> prints
  for a fully qualified name gives a name equal to it up to the case of letters.\<close>

theorem display_shortest_resolves:
  assumes "IsFullyQualified n"
  shows "name_EqualFold wide (ParseName (DisplayShortest wide n)) n"
proof -
  note q = fully_qualifiedD [OF assms]
  note v = q [THEN valid_partD(1)]
  consider (full) "\<not> equal_fold wide (mn_Host n) defaultHost"
    | (ns) "equal_fold wide (mn_Host n) defaultHost" "\<not> equal_fold wide (mn_Namespace n) defaultNamespace"
    | (short) "equal_fold wide (mn_Host n) defaultHost" "equal_fold wide (mn_Namespace n) defaultNamespace"
    by blast
  then show ?thesis
  proof cases
    case full
    then show ?thesis using ParseNameBare_3 [OF q] v
      by (simp add: DisplayShortest_def ParseName_def Merge_def cmp_or_def name_EqualFold_def)
  next
    case ns
    then show ?thesis using ParseNameBare_2 [OF q(2-4)] v equal_fold_sym [OF ns(1)]
      by (simp add: DisplayShortest_def ParseName_def Merge_def cmp_or_def name_EqualFold_def DefaultName_def)
  next
    case short
    then show ?thesis using ParseNameBare_1 [OF q(3,4)] v equal_fold_sym [OF short(1)] equal_fold_sym [OF short(2)]
      by (simp add: DisplayShortest_def ParseName_def Merge_def cmp_or_def name_EqualFold_def DefaultName_def)
  qed
qed

section \<open>File paths\<close>

lemma Filepath_join:
  assumes "IsFullyQualified n"
  shows "name_Filepath n = Some (join ''/'' [mn_Host n, mn_Namespace n, mn_Model n, mn_Tag n])"
    and "split_all (join ''/'' [mn_Host n, mn_Namespace n, mn_Model n, mn_Tag n]) ''/'' =
      [mn_Host n, mn_Namespace n, mn_Model n, mn_Tag n]"
proof -
  note v = fully_qualifiedD [OF assms, THEN valid_partD(4)]
  then show "name_Filepath n = Some (join ''/'' [mn_Host n, mn_Namespace n, mn_Model n, mn_Tag n])"
    using assms path_join_plain [of "[mn_Host n, mn_Namespace n, mn_Model n, mn_Tag n]"]
    by (simp add: name_Filepath_def)
  show "split_all (join ''/'' [mn_Host n, mn_Namespace n, mn_Model n, mn_Tag n]) ''/'' =
      [mn_Host n, mn_Namespace n, mn_Model n, mn_Tag n]"
    using v by (intro split_all_join_plain) auto
qed

text \<open>C14: the file path of a name is a path of exactly its four parts, none of which is empty, a dot or
  a double dot, so it stays below the directory it is joined to; and it is parsed back to the name.\<close>

theorem name_filepath_safe_round_trip:
  assumes "IsFullyQualified n"
  shows "\<exists>path. name_Filepath n = Some path \<and>
    split_all path ''/'' = [mn_Host n, mn_Namespace n, mn_Model n, mn_Tag n] \<and>
    list_all plain_element (split_all path ''/'') \<and>
    ParseNameFromFilepath path = n\<lparr>mn_ProtocolScheme := []\<rparr>"
proof -
  have "ParseNameFromFilepath (join ''/'' [mn_Host n, mn_Namespace n, mn_Model n, mn_Tag n]) =
      n\<lparr>mn_ProtocolScheme := []\<rparr>"
    using assms unfolding ParseNameFromFilepath_def Filepath_join(2) [OF assms]
    by (simp add: Let_def empty_name_def IsFullyQualified_def)
  then show ?thesis
    using Filepath_join [OF assms] fully_qualifiedD [OF assms, THEN valid_partD(4)] by simp
qed

text \<open>in the other direction, a path that parses to a name other than the empty one is the file
  path of that name, which is fully qualified.\<close>

theorem filepath_name_round_trip:
  assumes "ParseNameFromFilepath path = n" "n \<noteq> empty_name"
  shows "IsFullyQualified n \<and> name_Filepath n = Some path"
proof -
  let ?ps = "split_all path ''/''"
  from assms have q: "IsFullyQualified n" and l: "length ?ps = 4"
    and n: "n = empty_name\<lparr>mn_Host := ?ps ! 0, mn_Namespace := ?ps ! 1, mn_Model := ?ps ! 2, mn_Tag := ?ps ! 3\<rparr>"
    by (auto simp: ParseNameFromFilepath_def Let_def split: if_splits)
  from l obtain a b c d where ps: "?ps = [a, b, c, d]"
    by (auto simp: numeral_eq_Suc length_Suc_conv)
  then have "join ''/'' [mn_Host n, mn_Namespace n, mn_Model n, mn_Tag n] = path"
    using join_split_single [of "CHR ''/''" path] by (simp add: n)
  with q Filepath_join(1) [OF q] show ?thesis by simp
qed

theorem model_name_round_trip_witness:
  "ParseNameBare (name_String \<lparr>mn_Host = ''localhost:5000'', mn_Namespace = ''my-ns'', mn_Model = ''llama3.1'',
     mn_Tag = ''8b'', mn_ProtocolScheme = ''http''\<rparr>) =
   \<lparr>mn_Host = ''localhost:5000'', mn_Namespace = ''my-ns'', mn_Model = ''llama3.1'',
     mn_Tag = ''8b'', mn_ProtocolScheme = []\<rparr>"
  using model_name_round_trip [of "\<lparr>mn_Host = ''localhost:5000'', mn_Namespace = ''my-ns'',
      mn_Model = ''llama3.1'', mn_Tag = ''8b'', mn_ProtocolScheme = ''http''\<rparr>"]
  by (simp add: IsFullyQualified_def valid_part_iff isAlphanumericOrUnderscore_def valid_byte_def)

theorem display_shortest_resolves_witness:
  "name_EqualFold id (ParseName (DisplayShortest id \<lparr>mn_Host = ''Registry.Ollama.AI'', mn_Namespace = ''library'',
     mn_Model = ''m'', mn_Tag = ''t'', mn_ProtocolScheme = []\<rparr>))
   \<lparr>mn_Host = ''Registry.Ollama.AI'', mn_Namespace = ''library'', mn_Model = ''m'', mn_Tag = ''t'', mn_ProtocolScheme = []\<rparr>"
  by (rule display_shortest_resolves)
    (simp add: IsFullyQualified_def valid_part_iff isAlphanumericOrUnderscore_def valid_byte_def)

theorem name_filepath_safe_round_trip_witness:
  "\<exists>path. name_Filepath \<lparr>mn_Host = ''h'', mn_Namespace = ''n'', mn_Model = ''m..'', mn_Tag = ''_.'',
      mn_ProtocolScheme = []\<rparr> = Some path \<and>
    split_all path ''/'' = [''h'', ''n'', ''m..'', ''_.''] \<and> list_all plain_element (split_all path ''/'') \<and>
    ParseNameFromFilepath path = \<lparr>mn_Host = ''h'', mn_Namespace = ''n'', mn_Model = ''m..'', mn_Tag = ''_.'',
      mn_ProtocolScheme = []\<rparr>"
  using name_filepath_safe_round_trip [of "\<lparr>mn_Host = ''h'', mn_Namespace = ''n'', mn_Model = ''m..'',
      mn_Tag = ''_.'', mn_ProtocolScheme = []\<rparr>"]
  by (simp add: IsFullyQualified_def valid_part_iff isAlphanumericOrUnderscore_def valid_byte_def)

theorem filepath_name_round_trip_witness:
  "IsFullyQualified \<lparr>mn_Host = ''h'', mn_Namespace = ''n'', mn_Model = ''m'', mn_Tag = ''t'', mn_ProtocolScheme = []\<rparr> \<and>
   name_Filepath \<lparr>mn_Host = ''h'', mn_Namespace = ''n'', mn_Model = ''m'', mn_Tag = ''t'', mn_ProtocolScheme = []\<rparr> =
     Some ''h/n/m/t''"
proof (rule filepath_name_round_trip)
  have "split_all ''h/n/m/t'' ''/'' = [''h'', ''n'', ''m'', ''t'']"
    using split_all_join_plain [of "[''h'', ''n'', ''m'', ''t'']"] by (simp add: plain_element_def)
  then show "ParseNameFromFilepath ''h/n/m/t'' =
      \<lparr>mn_Host = ''h'', mn_Namespace = ''n'', mn_Model = ''m'', mn_Tag = ''t'', mn_ProtocolScheme = []\<rparr>"
    by (simp add: ParseNameFromFilepath_def IsFullyQualified_def valid_part_iff empty_name_def
        isAlphanumericOrUnderscore_def valid_byte_def)
qed (simp add: empty_name_def)

end
