(* ===== verification/ParserCommon.thy ===== *)
theory ParserCommon
  imports Streaming ApiTypes
begin

text \<open>
  What the parsers of \<open>model/parsers\<close> have in common: they emit a text only when it is not empty, and
  they hold back the end of the buffer.  Every parser repeats the same two branches: with an overlap
  of \<open>n > 0\<close> bytes the cut is before the white space in front of these bytes, otherwise before the
  trailing white space; the second is the first with \<open>n = 0\<close>, so both are \<open>hold_emit\<close> here.
\<close>

section \<open>Emitting\<close>

definition emit_if :: "(string \<Rightarrow> 'e) \<Rightarrow> string \<Rightarrow> 'e list" where
  "emit_if ev s = (if s = [] then [] else [ev s])"

definition hold_emit :: "(string \<Rightarrow> 'e) \<Rightarrow> string \<Rightarrow> nat \<Rightarrow> 'e list \<times> string" where
  "hold_emit ev acc n = (case hold_split acc n of (unambiguous, ambiguous) \<Rightarrow> (emit_if ev unambiguous, ambiguous))"

definition prefilled :: "api_message option \<Rightarrow> bool" where
  "prefilled m = (case m of Some m \<Rightarrow> am_Role m = ''assistant'' \<and> am_Content m \<noteq> [] | None \<Rightarrow> False)"

lemma emit_if_Nil [simp]: "emit_if ev [] = []"
  by (simp add: emit_if_def)

text \<open>What a whole buffer gives under the two tags \<open>t1\<close> and \<open>t2\<close>, none of which it contains.\<close>

lemma hold_valid:
  assumes "valid_utf8 acc" "good_tag tag" "hold_split acc (overlap acc tag) = (out, keep)"
  shows "acc = out @ keep" "overlap (out @ keep) tag \<le> length keep" "valid_utf8 out" "valid_utf8 keep"
    "trim_right out = out"
proof -
  note h = hold_split_parts [OF assms(3) overlap_le assms(1) valid_overlap(1) [OF assms(1,2)]]
  show "acc = out @ keep" "valid_utf8 out" "valid_utf8 keep" "trim_right out = out" using h by simp_all
  show "overlap (out @ keep) tag \<le> length keep" using h(1,2) by simp
qed

text \<open>Later input: holding the whole is holding what was kept, with the released part in front.\<close>

lemma hold_later:
  assumes "valid_utf8 acc" "good_tag tag" "hold_split acc (overlap acc tag) = (out, keep)" "valid_utf8 y"
  shows "hold_split (acc @ y) (overlap (acc @ y) tag) = apfst ((@) out) (hold_split (keep @ y) (overlap (keep @ y) tag))"
proof -
  note h = hold_valid [OF assms(1-3)]
  have "valid_utf8 (keep @ y)" using h assms(4) by simp
  then have "valid_utf8 (take (length (keep @ y) - overlap (keep @ y) tag) (keep @ y))"
    using assms(2) by (rule valid_overlap)
  then have "hold_split (out @ (keep @ y)) (overlap (keep @ y) tag) =
      apfst ((@) out) (hold_split (keep @ y) (overlap (keep @ y) tag))"
    by (rule hold_split_append [OF h(5) overlap_le])
  then show ?thesis using overlap_hold [OF h(2), of y] h(1) by simp
qed

section \<open>Texts up to white space\<close>

text \<open>The text without its white space.\<close>

function squash :: "string \<Rightarrow> string" where
  "squash s =
     (if s = [] then []
      else (if is_space (fst (decode_rune s)) then [] else take (snd (decode_rune s)) s) @
             squash (drop (snd (decode_rune s)) s))"
  by pat_completeness auto
termination
  by (relation "measure length") (auto dest: decode_rune_size)

declare squash.simps [simp del]

lemma squash_Nil [simp]: "squash [] = []"
  by (simp add: squash.simps)

lemma squash_enc:
  "is_enc r \<Longrightarrow> squash (r @ s) = (if is_space (rune_value_bytes (bytes r)) then [] else r) @ squash s"
  by (subst squash.simps) (auto simp: decode_rune_enc is_enc_def)

lemma squash_append: "valid_utf8 a \<Longrightarrow> squash (a @ b) = squash a @ squash b"
  by (induction rule: valid_utf8_induct) (auto simp: squash_enc)

lemma squash_trim_left [simp]: "squash (trim_left s) = squash s"
proof (induction s rule: trim_left.induct)
  case (1 s)
  then show ?case
    by (cases "s \<noteq> [] \<and> is_space (fst (decode_rune s))")
      (auto simp: trim_left.simps [of s] squash.simps [of s])
qed

lemma squash_blank: "trim_left s = [] \<Longrightarrow> squash s = []"
  by (metis squash_Nil squash_trim_left)

lemma squash_trim_right: "valid_utf8 s \<Longrightarrow> squash (trim_right s) = squash s"
proof -
  assume "valid_utf8 s"
  then obtain w where w: "s = trim_right s @ w" "valid_utf8 (trim_right s)" "valid_utf8 w" "trim_right w = []"
    by (rule trim_right_split)
  then have "squash w = []" by (simp add: squash_blank trim_left_Nil_iff_right)
  with w show ?thesis by (metis append_Nil2 squash_append)
qed

section \<open>Two tags\<close>

text \<open>Holding back for the longer of two overlaps.\<close>

lemma hold2_valid:
  assumes "valid_utf8 acc" "good_tag t1" "good_tag t2"
    and "hold_split acc (max (overlap acc t1) (overlap acc t2)) = (out, keep)"
  shows "acc = out @ keep" "overlap (out @ keep) t1 \<le> length keep" "overlap (out @ keep) t2 \<le> length keep"
    "valid_utf8 out" "valid_utf8 keep" "trim_right out = out"
proof -
  have "max (overlap acc t1) (overlap acc t2) \<le> length acc" by (simp add: overlap_le)
  note h = hold_split_parts [OF assms(4) this assms(1) valid_overlap_max [OF assms(1-3)]]
  show "acc = out @ keep" "valid_utf8 out" "valid_utf8 keep" "trim_right out = out" using h by simp_all
  show "overlap (out @ keep) t1 \<le> length keep" "overlap (out @ keep) t2 \<le> length keep" using h(1,2) by simp_all
qed

lemma hold2_later:
  assumes "valid_utf8 acc" "good_tag t1" "good_tag t2" "valid_utf8 y"
    and "hold_split acc (max (overlap acc t1) (overlap acc t2)) = (out, keep)"
  shows "hold_split (acc @ y) (max (overlap (acc @ y) t1) (overlap (acc @ y) t2)) =
    apfst ((@) out) (hold_split (keep @ y) (max (overlap (keep @ y) t1) (overlap (keep @ y) t2)))"
proof -
  note h = hold2_valid [OF assms(1-3,5)]
  let ?m = "max (overlap (keep @ y) t1) (overlap (keep @ y) t2)"
  have "valid_utf8 (take (length (keep @ y) - ?m) (keep @ y))"
    using h assms by (intro valid_overlap_max) auto
  moreover have "?m \<le> length (keep @ y)" using overlap_le by (metis max.bounded_iff)
  ultimately have "hold_split (out @ (keep @ y)) ?m = apfst ((@) out) (hold_split (keep @ y) ?m)"
    using hold_split_append [OF h(6)] by blast
  then show ?thesis using overlap_hold [OF h(2), of y] overlap_hold [OF h(3), of y] h(1) by simp
qed

text \<open>Which of two tags comes first does not change when more text follows, if no end of a tag
  is the beginning of the other: then occurrences of the two never overlap.\<close>

definition tags_apart :: "string \<Rightarrow> string \<Rightarrow> bool" where
  "tags_apart t1 t2 \<longleftrightarrow>
     list_all (\<lambda>i. \<not> has_prefix (drop i t1) t2 \<and> \<not> has_prefix t2 (drop i t1)) [0..<length t1]"

lemma occurrences_apart:
  assumes s: "s = a @ t1 @ b" "s = c @ t2 @ d" and le: "length a \<le> length c" and ap: "tags_apart t1 t2"
  shows "length a + length t1 \<le> length c"
proof (rule ccontr)
  assume "\<not> length a + length t1 \<le> length c"
  then have i: "length c - length a \<in> set [0..<length t1]" using le by auto
  have "drop (length c - length a) t1 @ b = drop (length c) (a @ t1 @ b)" using le i by simp
  also have "\<dots> = t2 @ d" using s by (metis append_eq_conv_conj)
  finally have "has_prefix (drop (length c - length a) t1) t2 \<or> has_prefix t2 (drop (length c - length a) t1)"
    by (auto simp: has_prefix_iff append_eq_append_conv2)
  with i ap show False unfolding tags_apart_def list_all_iff by blast
qed

lemma index_occurs:
  assumes "index s t = Some i"
  obtains a b where "s = a @ t @ b" "length a = i"
  using index_Some_append [OF assms] index_bound [OF assms] by (metis add_leD1 length_take min_absorb2)

lemma index_first_append:
  assumes i: "index s t1 = Some i" and j: "index s t2 = None" and j': "index (s @ y) t2 = Some j"
    and ap: "tags_apart t2 t1"
  shows "i < j"
proof (rule ccontr)
  assume "\<not> i < j"
  obtain a b where a: "s = a @ t1 @ b" "length a = i" using i by (rule index_occurs)
  obtain c d where c: "s @ y = c @ t2 @ d" "length c = j" using j' by (rule index_occurs)
  have "length c + length t2 \<le> length a"
    by (rule occurrences_apart [where s = "s @ y" and b = d and d = "b @ y" and ?t2.0 = t1])
      (use a c \<open>\<not> i < j\<close> ap in auto)
  then have "length (c @ t2) \<le> length s" using a by simp
  with c(1) append_eq_longer [of "c @ t2" d s y] obtain u where "s = (c @ t2) @ u" by auto
  with j show False unfolding index_None_iff by (metis append.assoc)
qed

text \<open>The first of two tags in a text.\<close>

definition comes_first :: "string \<Rightarrow> string \<Rightarrow> string \<Rightarrow> bool" where
  "comes_first s t1 t2 \<longleftrightarrow>
     (case (index s t1, index s t2) of
        (Some i, None) \<Rightarrow> True
      | (Some i, Some j) \<Rightarrow> i < j
      | (None, _) \<Rightarrow> False)"

lemma comes_first_append:
  assumes "comes_first s t1 t2" "tags_apart t2 t1"
  shows "comes_first (s @ y) t1 t2"
proof -
  from assms(1) obtain i where i: "index s t1 = Some i" by (auto simp: comes_first_def split: option.splits)
  note i' = index_append [OF i, of y]
  show ?thesis
  proof (cases "index s t2")
    case None
    then show ?thesis
      using i' index_first_append [OF i None _ assms(2), of y]
      by (auto simp: comes_first_def split: option.split)
  next
    case (Some j)
    then show ?thesis using i i' index_append [OF Some, of y] assms(1) by (simp add: comes_first_def)
  qed
qed

lemma not_comes_first_append:
  assumes "\<not> comes_first s t1 t2" "contains s t2" "tags_apart t1 t2"
  shows "\<not> comes_first (s @ y) t1 t2"
proof -
  from assms(2) obtain j where j: "index s t2 = Some j" by (auto simp: contains_index)
  note j' = index_append [OF j, of y]
  show ?thesis
  proof (cases "index s t1")
    case None
    have "j < i" if "index (s @ y) t1 = Some i" for i
      by (rule index_first_append [OF j None that assms(3)])
    then show ?thesis using j' by (auto simp: comes_first_def split: option.split)
  next
    case (Some i)
    then show ?thesis using j j' index_append [OF Some, of y] assms(1) by (simp add: comes_first_def)
  qed
qed

lemma comes_first_hold:
  assumes "\<not> contains (out @ keep) t1" "\<not> contains (out @ keep) t2"
    and "overlap (out @ keep) t1 \<le> length keep" "overlap (out @ keep) t2 \<le> length keep"
  shows "comes_first (out @ keep @ y) t1 t2 = comes_first (keep @ y) t1 t2"
  using index_hold [OF assms(1,3), of y] index_hold [OF assms(2,4), of y]
  by (simp add: comes_first_def split: option.split)

lemma comes_first_contains: "comes_first s t1 t2 \<Longrightarrow> contains s t1"
  by (auto simp: comes_first_def contains_index split: option.splits)

lemma not_comes_first_cases: "\<not> comes_first s t1 t2 \<Longrightarrow> contains s t1 \<Longrightarrow> contains s t2"
  by (auto simp: comes_first_def contains_index split: option.splits)

section \<open>Blank texts\<close>

lemma blank_no_ascii:
  assumes "valid_utf8 w" "trim_left w = []" "of_char c < (128 :: nat)" "\<not> is_space (of_char c)"
  shows "c \<notin> set w"
  using assms(1,2)
proof (induction rule: valid_utf8_induct)
  case (Enc r s)
  then have sp: "is_space (rune_value_bytes (bytes r))" "trim_left s = []"
    by (auto simp: trim_left_enc is_enc_def split: if_splits)
  have "c \<notin> set r"
  proof
    assume "c \<in> set r"
    obtain d r' where r: "r = d # r'" using Enc by (cases r) (auto simp: is_enc_def)
    show False
    proof (cases "c = d")
      case True
      then have "r = [c]" using is_enc_ascii_head [of d r'] Enc(1) r assms(3) by simp
      with sp(1) assms(4) show False by (simp add: rune_value_bytes_def)
    next
      case False
      then have "cont_byte (of_char c)" using is_enc_tl_cont [OF Enc(1)] \<open>c \<in> set r\<close> r by auto
      with assms(3) show False by (simp add: cont_byte_def)
    qed
  qed
  with Enc sp show ?case by auto
qed simp

lemma blank_no_tag:
  assumes "valid_utf8 w" "trim_left w = []" "tag = c # t" "of_char c < (128 :: nat)" "\<not> is_space (of_char c)"
  shows "\<not> contains w tag" "overlap w tag = 0"
proof -
  have c: "c \<notin> set w" using assms by (intro blank_no_ascii)
  then show "\<not> contains w tag" using assms(3) by (auto simp: contains_iff)
  show "overlap w tag = 0"
  proof (rule ccontr)
    assume "overlap w tag \<noteq> 0"
    then obtain n where "overlap w tag = Suc n" by (cases "overlap w tag") auto
    with overlap_suffix [of w tag] assms(3) have "c \<in> set w" by (auto simp: has_suffix_iff)
    with c show False ..
  qed
qed

lemma trim_left_split:
  assumes "valid_utf8 s"
  obtains w where "s = w @ trim_left s" "valid_utf8 w" "trim_left w = []" "valid_utf8 (trim_left s)"
proof -
  have "\<exists>w. s = w @ trim_left s \<and> valid_utf8 w \<and> trim_left w = []"
    using assms
  proof (induction rule: valid_utf8_induct)
    case (Enc r s)
    then obtain w where w: "s = w @ trim_left s" "valid_utf8 w" "trim_left w = []" by blast
    show ?case
    proof (cases "is_space (rune_value_bytes (bytes r))")
      case True
      then have "r @ s = (r @ w) @ trim_left (r @ s)" "valid_utf8 (r @ w)" "trim_left (r @ w) = []"
        using Enc(1) w by (auto simp: trim_left_enc)
      then show ?thesis by blast
    next
      case False
      then show ?thesis using Enc(1) by (auto simp: trim_left_enc intro!: exI [of _ "[]"])
    qed
  qed auto
  with that trim_left_valid [OF assms] show thesis by blast
qed

text \<open>White space in front of a text changes nothing but what is released and kept of it.\<close>

lemma hold_blank:
  assumes "valid_utf8 w" "trim_left w = []" "valid_utf8 z" "tag = c # t" "good_tag tag"
    and "of_char c < (128 :: nat)" "\<not> is_space (of_char c)"
    and "hold_split z (overlap z tag) = (out, keep)"
  shows "hold_split (w @ z) (overlap (w @ z) tag) = (if out = [] then ([], w @ z) else (w @ out, keep))"
proof -
  have b: "\<not> contains (w @ []) tag" "overlap (w @ []) tag \<le> length ([] :: string)"
    using blank_no_tag [of w tag c t] assms by simp_all
  have n: "overlap (w @ z) tag = overlap z tag" using overlap_hold [OF b(2), of z] by simp
  let ?t = "take (length z - overlap z tag) z"
  have t: "take (length (w @ z) - overlap z tag) (w @ z) = w @ ?t"
    using overlap_le [of z tag] by simp
  have vt: "valid_utf8 ?t" using assms by (intro valid_overlap)
  have w: "trim_right w = []" using assms trim_left_Nil_iff_right by simp
  have out: "out = trim_right ?t" "keep = drop (length out) z"
    using hold_split_eq [OF overlap_le refl, of z tag] assms(8) by simp_all
  have "trim_right (w @ ?t) = (if trim_right ?t = [] then [] else w @ trim_right ?t)"
    using vt w by (simp add: trim_right_append)
  then show ?thesis
    using hold_split_eq [of "overlap z tag" "w @ z", OF _ refl] overlap_le [of z tag] out t n by simp
qed

section \<open>Tags in written texts\<close>

text \<open>The characters U+FF5C and U+2581 of the tags of the DeepSeek family, in UTF-8.\<close>

definition wide_bar :: string where "wide_bar = [CHR 0xEF, CHR 0xBD, CHR 0x9C]"
definition low_block :: string where "low_block = [CHR 0xE2, CHR 0x96, CHR 0x81]"

lemma drop_tag_length:
  "index s tag = Some i \<Longrightarrow> tag \<noteq> [] \<Longrightarrow> length (drop (i + length tag) s) < length s"
  using index_bound [of s tag i] by (cases tag) auto

lemma trim_drop_length:
  "index s tag = Some i \<Longrightarrow> tag \<noteq> [] \<Longrightarrow> length (trim_left (drop (i + length tag) s)) < length s"
  using drop_tag_length [of s tag i] length_trim_left [of "drop (i + length tag) s"] by linarith

lemma trim_drop_more_length:
  assumes "index s tag = Some i" "tag \<noteq> []"
  shows "length (trim_left (drop (i + length tag + n + k) s)) < length s"
proof -
  have "length (drop (i + length tag + n + k) s) < length s"
    using index_bound [OF assms(1)] assms(2) by (cases tag) auto
  then show ?thesis using length_trim_left [of "drop (i + length tag + n + k) s"] by linarith
qed

lemma cut_after_length: "cut s tag = Some (a, b) \<Longrightarrow> tag \<noteq> [] \<Longrightarrow> length b < length s"
  using cut_length [of s tag a b] by (cases tag) auto

lemma cut_after_trim_length: "cut s tag = Some (a, b) \<Longrightarrow> tag \<noteq> [] \<Longrightarrow> length (trim_left b) < length s"
  using cut_after_length [of s tag a b] length_trim_left [of b] by linarith

text \<open>A text after which the first occurrence of the tag can only be the one that is written there.\<close>

definition ends_at :: "string \<Rightarrow> string \<Rightarrow> bool" where
  "ends_at s tag \<longleftrightarrow> index (s @ tag) tag = Some (length s)"

lemma ends_at_index: "ends_at s tag \<Longrightarrow> index (s @ tag @ r) tag = Some (length s)"
  unfolding ends_at_def using index_append [of "s @ tag" tag "length s" r] by simp

lemma ends_at_cut: "ends_at s tag \<Longrightarrow> cut (s @ tag @ r) tag = Some (s, r)"
  by (simp add: cut_def ends_at_index)

lemma index_at_start: "index (tag @ r) tag = Some 0"
  using index_append_le [of "[]" tag r] by auto

lemma contains_length: "contains s tag \<Longrightarrow> length tag \<le> length s"
  by (auto simp: contains_iff)

text \<open>Numbering the calls of an answer.\<close>

fun number_calls :: "nat \<Rightarrow> 'args api_tool_call list \<Rightarrow> 'args api_tool_call list" where
  "number_calls n [] = []"
| "number_calls n (c # cs) = c\<lparr>tc_Index := n\<rparr> # number_calls (Suc n) cs"

end
