(* ===== verification/Olmo3Think.thy ===== *)
theory Olmo3Think
  imports ParserCommon
begin

text \<open>
  \<open>model/parsers/olmo3_think.go\<close>: the model thinks first, up to the first closing tag, then answers.
\<close>

section \<open>Model\<close>

datatype olmo3ThinkParserState = olmo3CollectingThink | olmo3CollectingContent

definition olmo3ThinkOpenTag :: string where "olmo3ThinkOpenTag = ''<think>''"
definition olmo3ThinkCloseTag :: string where "olmo3ThinkCloseTag = ''</think>''"

record Olmo3ThinkParser =
  ot_state :: olmo3ThinkParserState
  ot_buffer :: string

datatype olmo3Event = olmo3EventThinkContent string | olmo3EventContent string

definition ot_HasToolSupport :: "Olmo3ThinkParser \<Rightarrow> bool" where
  "ot_HasToolSupport p = False"

definition ot_HasThinkingSupport :: "Olmo3ThinkParser \<Rightarrow> bool" where
  "ot_HasThinkingSupport p = True"

definition ot_ThinkingClose :: "Olmo3ThinkParser \<Rightarrow> string list" where
  "ot_ThinkingClose p = (if ot_state p = olmo3CollectingThink then [olmo3ThinkCloseTag] else [])"

definition ot_ThinkingTags :: "Olmo3ThinkParser \<Rightarrow> string \<times> string" where
  "ot_ThinkingTags p = (olmo3ThinkOpenTag, olmo3ThinkCloseTag)"

definition ot_PreservedTokens :: "Olmo3ThinkParser \<Rightarrow> string list" where
  "ot_PreservedTokens p = [olmo3ThinkCloseTag]"

definition ot_setInitialState :: "Olmo3ThinkParser \<Rightarrow> api_message option \<Rightarrow> Olmo3ThinkParser" where
  "ot_setInitialState p last_message =
     p\<lparr>ot_state := if prefilled last_message then olmo3CollectingContent else olmo3CollectingThink\<rparr>"

definition ot_Init ::
  "Olmo3ThinkParser \<Rightarrow> 'tool list \<Rightarrow> api_message option \<Rightarrow> think_value option \<Rightarrow> 'tool list \<times> Olmo3ThinkParser" where
  "ot_Init p tools last_message think = (tools, ot_setInitialState p last_message)"

definition ot_eat :: "Olmo3ThinkParser \<Rightarrow> olmo3Event list \<times> Olmo3ThinkParser \<times> bool" where
  "ot_eat p =
     (let bufStr = ot_buffer p in
      if bufStr = [] then ([], p, False)
      else case ot_state p of
        olmo3CollectingThink \<Rightarrow>
          (case cut bufStr olmo3ThinkCloseTag of
             Some (before, after) \<Rightarrow>
               (emit_if olmo3EventThinkContent (trim_right before),
                p\<lparr>ot_buffer := trim_left after, ot_state := olmo3CollectingContent\<rparr>, True)
           | None \<Rightarrow>
               (case hold_emit olmo3EventThinkContent bufStr (overlap bufStr olmo3ThinkCloseTag) of
                  (events, ambiguous) \<Rightarrow> (events, p\<lparr>ot_buffer := ambiguous\<rparr>, False)))
      | olmo3CollectingContent \<Rightarrow>
          (emit_if olmo3EventContent bufStr, p\<lparr>ot_buffer := []\<rparr>, False))"

definition ot_parseEvents :: "Olmo3ThinkParser \<Rightarrow> (olmo3Event list \<times> Olmo3ThinkParser) option" where
  "ot_parseEvents p = drain ot_eat p"

text \<open>The loop of \<open>Add\<close> over the events: content and thinking.\<close>

fun ot_collect :: "olmo3Event list \<Rightarrow> string \<times> string" where
  "ot_collect [] = ([], [])"
| "ot_collect (olmo3EventThinkContent t # es) = (case ot_collect es of (c, t') \<Rightarrow> (c, t @ t'))"
| "ot_collect (olmo3EventContent c # es) = (case ot_collect es of (c', t) \<Rightarrow> (c @ c', t))"

text \<open>\<open>Add\<close> returns no tool calls and no error.\<close>

definition ot_Add :: "Olmo3ThinkParser \<Rightarrow> string \<Rightarrow> bool \<Rightarrow> ((string \<times> string) \<times> Olmo3ThinkParser) option" where
  "ot_Add p s don =
     map_option (apfst ot_collect) (ot_parseEvents (p\<lparr>ot_buffer := ot_buffer p @ s\<rparr>))"

section \<open>Streams\<close>

definition content_thinking_append :: "string \<times> string \<Rightarrow> string \<times> string \<Rightarrow> string \<times> string" where
  "content_thinking_append a b = (fst a @ fst b, snd a @ snd b)"

definition ot_stream :: "Olmo3ThinkParser \<Rightarrow> string \<Rightarrow> string list \<Rightarrow> ((string \<times> string) \<times> Olmo3ThinkParser) option" where
  "ot_stream = run_chunks (\<lambda>p s. ot_Add p s False) content_thinking_append"


lemma ot_collect_emit [simp]:
  "ot_collect (emit_if olmo3EventThinkContent s) = ([], s)" "ot_collect (emit_if olmo3EventContent s) = (s, [])"
  by (simp_all add: emit_if_def)

lemma ot_collect_think: "ot_collect (emit_if olmo3EventThinkContent s @ es) = content_thinking_append ([], s) (ot_collect es)"
  by (simp add: emit_if_def content_thinking_append_def split: prod.split)

lemma ot_Add_content:
  "ot_state p = olmo3CollectingContent \<Longrightarrow>
   ot_Add p x don = Some ((ot_buffer p @ x, []), p\<lparr>ot_buffer := []\<rparr>)"
  by (simp add: ot_Add_def ot_parseEvents_def drain.simps ot_eat_def Let_def)

lemma ot_Add_close:
  assumes "ot_state p = olmo3CollectingThink" "cut (ot_buffer p @ x) olmo3ThinkCloseTag = Some (a, b)"
  shows "ot_Add p x don = Some ((trim_left b, trim_right a), p\<lparr>ot_buffer := [], ot_state := olmo3CollectingContent\<rparr>)"
proof -
  have "ot_buffer p @ x \<noteq> []" using assms(2) by (auto simp: cut_def olmo3ThinkCloseTag_def)
  then have "drain ot_eat (p\<lparr>ot_buffer := ot_buffer p @ x\<rparr>) =
    Some (emit_if olmo3EventThinkContent (trim_right a) @ emit_if olmo3EventContent (trim_left b),
      p\<lparr>ot_buffer := [], ot_state := olmo3CollectingContent\<rparr>)"
    using assms by (auto simp: drain.simps ot_eat_def Let_def)
  then show ?thesis
    by (simp add: ot_Add_def ot_parseEvents_def ot_collect_think content_thinking_append_def)
qed

lemma hold_split_Nil [simp]: "hold_split [] n = ([], [])"
  by (simp add: hold_split_def)







text \<open>the white space is not always removed: when it arrives in a later chunk than the closing tag,
  it is returned as content, although in one chunk it is dropped.\<close>

theorem olmo3_whitespace_depends_on_chunks:
  "map_option fst (ot_stream \<lparr>ot_state = olmo3CollectingThink, ot_buffer = []\<rparr> ''a</think>'' [''  b'']) =
     Some (''  b'', ''a'') \<and>
   map_option fst (ot_stream \<lparr>ot_state = olmo3CollectingThink, ot_buffer = []\<rparr> ''a</think>  b'' []) =
     Some (''b'', ''a'')"
proof -
  let ?p = "\<lparr>ot_state = olmo3CollectingThink, ot_buffer = []\<rparr>"
  have "cut ''a</think>'' olmo3ThinkCloseTag = Some (''a'', [])"
    "cut ''a</think>  b'' olmo3ThinkCloseTag = Some (''a'', ''  b'')"
    by (simp_all add: cut_def olmo3ThinkCloseTag_def has_prefix_def)
  then show ?thesis
    using ot_Add_close [of ?p "''a</think>''" "''a''" "[]" False] ot_Add_close [of ?p "''a</think>  b''" "''a''" "''  b''" False]
    by (simp add: ot_stream_def ot_Add_content after_obs_def content_thinking_append_def str_simps is_space_def)
qed

end
