(* ===== verification/Qwen3.thy ===== *)
theory Qwen3
  imports ParserCommon
begin

text \<open>
  \<open>model/parsers/qwen3.go\<close>: thinking, content and tool calls of the Qwen3 models.  Decoding the JSON of a
  tool call ends in a third-party ordered map: it is the argument \<open>unmarshal\<close>, which gives the name and
  the arguments, or \<open>None\<close> for an error.
\<close>

section \<open>Model\<close>

datatype qwen3ParserState =
    qwen3ParserStateLookingForThinkingOpen
  | qwen3ParserStateThinkingStartedEatingWhitespace
  | qwen3ParserStateCollectingThinking
  | qwen3ParserStateThinkingDoneEatingWhitespace
  | qwen3ParserStateCollectingContent
  | qwen3ParserStateToolStartedEatingWhitespace
  | qwen3ParserStateCollectingToolContent

definition qwen3ThinkingOpenTag :: string where "qwen3ThinkingOpenTag = ''<think>''"
definition qwen3ThinkingCloseTag :: string where "qwen3ThinkingCloseTag = ''</think>''"
definition qwen3ToolOpenTag :: string where "qwen3ToolOpenTag = ''<tool_call>''"
definition qwen3ToolCloseTag :: string where "qwen3ToolCloseTag = ''</tool_call>''"

record Qwen3Parser =
  q3_state :: qwen3ParserState
  q3_buffer :: string
  q3_tools :: "api_tool list"
  q3_callIndex :: nat
  q3_hasThinkingSupport :: bool
  q3_defaultThinking :: bool
  q3_maybeThinkingOpenAtBOL :: bool

datatype qwen3Event =
    qwen3EventContent string
  | qwen3EventRawToolCall string
  | qwen3EventThinkingContent string

definition q3_HasToolSupport :: "Qwen3Parser \<Rightarrow> bool" where
  "q3_HasToolSupport p = True"

definition q3_HasThinkingSupport :: "Qwen3Parser \<Rightarrow> bool" where
  "q3_HasThinkingSupport p = q3_hasThinkingSupport p"

definition q3_ThinkingClose :: "Qwen3Parser \<Rightarrow> string list" where
  "q3_ThinkingClose p =
     (if q3_state p = qwen3ParserStateCollectingThinking then [qwen3ThinkingCloseTag] else [])"

definition q3_ThinkingTags :: "Qwen3Parser \<Rightarrow> string \<times> string" where
  "q3_ThinkingTags p = (qwen3ThinkingOpenTag, qwen3ThinkingCloseTag)"

definition q3_PreservedTokens :: "Qwen3Parser \<Rightarrow> string list" where
  "q3_PreservedTokens p = [qwen3ThinkingOpenTag, qwen3ThinkingCloseTag, qwen3ToolOpenTag, qwen3ToolCloseTag]"

definition q3_Init ::
  "Qwen3Parser \<Rightarrow> api_tool list \<Rightarrow> api_message option \<Rightarrow> think_value option \<Rightarrow> api_tool list \<times> Qwen3Parser" where
  "q3_Init p tools last_message think =
     (let p = p\<lparr>q3_tools := tools, q3_buffer := [], q3_callIndex := 0\<rparr>;
          thinkingEnabled = (if think = None then q3_defaultThinking p else think_Bool think)
      in (tools,
          if q3_hasThinkingSupport p \<and> thinkingEnabled
          then p\<lparr>q3_state := qwen3ParserStateCollectingThinking, q3_maybeThinkingOpenAtBOL := True\<rparr>
          else p\<lparr>q3_state := qwen3ParserStateCollectingContent, q3_maybeThinkingOpenAtBOL := False\<rparr>))"

definition q3_eatLeadingWhitespaceAndTransitionTo ::
  "Qwen3Parser \<Rightarrow> qwen3ParserState \<Rightarrow> qwen3Event list \<times> Qwen3Parser \<times> bool" where
  "q3_eatLeadingWhitespaceAndTransitionTo p nextState =
     (let trimmed = trim_left (q3_buffer p) in
      if trimmed = [] then ([], p\<lparr>q3_buffer := []\<rparr>, False)
      else ([], p\<lparr>q3_state := nextState, q3_buffer := trimmed\<rparr>, True))"

definition q3_splitAtTag :: "Qwen3Parser \<Rightarrow> string \<Rightarrow> bool \<Rightarrow> string \<times> string \<times> Qwen3Parser" where
  "q3_splitAtTag p tag trimAfter =
     (case split_at_tag (q3_buffer p) tag trimAfter of
        (before, after, buf) \<Rightarrow> (before, after, p\<lparr>q3_buffer := buf\<rparr>))"

text \<open>The state collecting thinking, after the check for an opening tag.\<close>

definition q3_eat_thinking :: "Qwen3Parser \<Rightarrow> qwen3Event list \<times> Qwen3Parser \<times> bool" where
  "q3_eat_thinking p =
     (let acc = q3_buffer p in
      if comes_first acc qwen3ToolOpenTag qwen3ThinkingCloseTag then
        (let (before, after, p) = q3_splitAtTag p qwen3ToolOpenTag True
         in (emit_if qwen3EventThinkingContent before,
             p\<lparr>q3_state := if after = [] then qwen3ParserStateToolStartedEatingWhitespace
                           else qwen3ParserStateCollectingToolContent\<rparr>, True))
      else if contains acc qwen3ThinkingCloseTag then
        (let (thinking, remaining, p) = q3_splitAtTag p qwen3ThinkingCloseTag True
         in (emit_if qwen3EventThinkingContent thinking,
             p\<lparr>q3_state := if remaining = [] then qwen3ParserStateThinkingDoneEatingWhitespace
                           else qwen3ParserStateCollectingContent\<rparr>, True))
      else
        (let overlapLen = max (overlap acc qwen3ThinkingCloseTag) (overlap acc qwen3ToolOpenTag);
             (events, ambiguous) = hold_emit qwen3EventThinkingContent acc overlapLen
         in (events, p\<lparr>q3_buffer := ambiguous\<rparr>, False)))"

definition q3_eat :: "Qwen3Parser \<Rightarrow> qwen3Event list \<times> Qwen3Parser \<times> bool" where
  "q3_eat p =
     (case q3_state p of
        qwen3ParserStateLookingForThinkingOpen \<Rightarrow>
          (let trimmed = trim_left (q3_buffer p) in
           if has_prefix trimmed qwen3ThinkingOpenTag then
             (let after = trim_left (trim_prefix trimmed qwen3ThinkingOpenTag)
              in ([], p\<lparr>q3_buffer := after,
                    q3_state := if after = [] then qwen3ParserStateThinkingStartedEatingWhitespace
                                else qwen3ParserStateCollectingThinking\<rparr>, True))
           else if has_prefix qwen3ThinkingOpenTag trimmed then ([], p, False)
           else if trimmed = [] then ([], p, False)
           else ([], p\<lparr>q3_state := qwen3ParserStateCollectingContent\<rparr>, True))
      | qwen3ParserStateThinkingStartedEatingWhitespace \<Rightarrow>
          q3_eatLeadingWhitespaceAndTransitionTo p qwen3ParserStateCollectingThinking
      | qwen3ParserStateCollectingThinking \<Rightarrow>
          (if q3_maybeThinkingOpenAtBOL p then
             (let trimmed = trim_left (q3_buffer p) in
              if has_prefix trimmed qwen3ThinkingOpenTag then
                (let after = trim_left (trim_prefix trimmed qwen3ThinkingOpenTag);
                     p = p\<lparr>q3_buffer := after\<rparr>
                 in if after = [] then ([], p, False)
                    else ([], p\<lparr>q3_maybeThinkingOpenAtBOL := False\<rparr>, True))
              else if has_prefix qwen3ThinkingOpenTag trimmed then ([], p, False)
              else q3_eat_thinking (p\<lparr>q3_maybeThinkingOpenAtBOL := False\<rparr>))
           else q3_eat_thinking p)
      | qwen3ParserStateThinkingDoneEatingWhitespace \<Rightarrow>
          q3_eatLeadingWhitespaceAndTransitionTo p qwen3ParserStateCollectingContent
      | qwen3ParserStateCollectingContent \<Rightarrow>
          (let acc = q3_buffer p in
           if contains acc qwen3ToolOpenTag then
             (let (before, after, p) = q3_splitAtTag p qwen3ToolOpenTag True
              in (emit_if qwen3EventContent before,
                  p\<lparr>q3_state := if after = [] then qwen3ParserStateToolStartedEatingWhitespace
                                else qwen3ParserStateCollectingToolContent\<rparr>, True))
           else
             (let (events, ambiguous) = hold_emit qwen3EventContent acc (overlap acc qwen3ToolOpenTag)
              in (events, p\<lparr>q3_buffer := ambiguous\<rparr>, False)))
      | qwen3ParserStateToolStartedEatingWhitespace \<Rightarrow>
          q3_eatLeadingWhitespaceAndTransitionTo p qwen3ParserStateCollectingToolContent
      | qwen3ParserStateCollectingToolContent \<Rightarrow>
          (if contains (q3_buffer p) qwen3ToolCloseTag then
             (let (toolContent, _, p) = q3_splitAtTag p qwen3ToolCloseTag True
              in ([qwen3EventRawToolCall toolContent],
                  p\<lparr>q3_state := qwen3ParserStateCollectingContent\<rparr>, True))
           else ([], p, False)))"

definition q3_parseEvents :: "Qwen3Parser \<Rightarrow> (qwen3Event list \<times> Qwen3Parser) option" where
  "q3_parseEvents p = drain q3_eat p"

datatype qwen3_error = Qwen3JSONError | Qwen3EmptyFunctionName

definition parseQwen3ToolCall ::
  "(string \<Rightarrow> (string \<times> 'args) option) \<Rightarrow> string \<Rightarrow> qwen3_error + 'args api_tool_call" where
  "parseQwen3ToolCall unmarshal raw =
     (case unmarshal raw of
        None \<Rightarrow> Inl Qwen3JSONError
      | Some (name, args) \<Rightarrow>
          if name = [] then Inl Qwen3EmptyFunctionName
          else Inr \<lparr>tc_Index = 0, tc_Name = name, tc_Arguments = args\<rparr>)"

text \<open>The loop of \<open>Add\<close> over the events: it stops at the first error, and then returns nothing else; the
  call index keeps what it was counted up to.\<close>

fun q3_collect ::
  "(string \<Rightarrow> (string \<times> 'args) option) \<Rightarrow> nat \<Rightarrow> qwen3Event list \<Rightarrow>
     (qwen3_error + string \<times> string \<times> 'args api_tool_call list) \<times> nat" where
  "q3_collect unmarshal idx [] = (Inr ([], [], []), idx)"
| "q3_collect unmarshal idx (qwen3EventRawToolCall raw # es) =
     (case parseQwen3ToolCall unmarshal raw of
        Inl e \<Rightarrow> (Inl e, idx)
      | Inr toolCall \<Rightarrow>
          apfst (map_sum id (\<lambda>(c, t, calls). (c, t, toolCall\<lparr>tc_Index := idx\<rparr> # calls)))
            (q3_collect unmarshal (Suc idx) es))"
| "q3_collect unmarshal idx (qwen3EventThinkingContent s # es) =
     apfst (map_sum id (\<lambda>(c, t, calls). (c, s @ t, calls))) (q3_collect unmarshal idx es)"
| "q3_collect unmarshal idx (qwen3EventContent s # es) =
     apfst (map_sum id (\<lambda>(c, t, calls). (s @ c, t, calls))) (q3_collect unmarshal idx es)"

definition q3_put :: "Qwen3Parser \<Rightarrow> string \<Rightarrow> Qwen3Parser" where
  "q3_put p s = p\<lparr>q3_buffer := q3_buffer p @ s\<rparr>"

definition q3_Add ::
  "(string \<Rightarrow> (string \<times> 'args) option) \<Rightarrow> Qwen3Parser \<Rightarrow> string \<Rightarrow> bool \<Rightarrow>
     ((qwen3_error + string \<times> string \<times> 'args api_tool_call list) \<times> Qwen3Parser) option" where
  "q3_Add unmarshal p s don =
     map_option (\<lambda>(events, p).
         case q3_collect unmarshal (q3_callIndex p) events of
           (result, idx) \<Rightarrow> (result, p\<lparr>q3_callIndex := idx\<rparr>))
       (q3_parseEvents (q3_put p s))"

section \<open>Termination\<close>

lemma q3_tags [simp]:
  "qwen3ThinkingOpenTag \<noteq> []" "qwen3ThinkingCloseTag \<noteq> []" "qwen3ToolOpenTag \<noteq> []" "qwen3ToolCloseTag \<noteq> []"
  by (simp_all add: qwen3ThinkingOpenTag_def qwen3ThinkingCloseTag_def qwen3ToolOpenTag_def qwen3ToolCloseTag_def)

definition q3_msr :: "Qwen3Parser \<Rightarrow> nat" where
  "q3_msr p = 2 * length (q3_buffer p) +
     (if q3_state p \<in> {qwen3ParserStateLookingForThinkingOpen, qwen3ParserStateThinkingStartedEatingWhitespace,
        qwen3ParserStateThinkingDoneEatingWhitespace, qwen3ParserStateToolStartedEatingWhitespace} then 1 else 0)"

lemma split_at_tag_contains:
  assumes "contains buf tag"
  obtains a b where "cut buf tag = Some (a, b)" "split_at_tag buf tag True = (trim_right a, trim_left b, trim_left b)"
  using contains_cut [OF assms] by (auto simp: split_at_tag_def Let_def)

lemma q3_splitAtTag_eq:
  "cut (q3_buffer p) tag = Some (a, b) \<Longrightarrow>
   q3_splitAtTag p tag True = (trim_right a, trim_left b, p\<lparr>q3_buffer := trim_left b\<rparr>)"
  by (simp add: q3_splitAtTag_def split_at_tag_def Let_def)

lemma cut_trim_length:
  assumes "cut s tag = Some (a, b)" "tag \<noteq> []"
  shows "Suc (2 * length (trim_left b)) < 2 * length s"
  using cut_length [OF assms(1)] assms(2) length_trim_left [of b] by (cases tag) auto

lemma trim_prefix_length:
  assumes "has_prefix (trim_left s) tag" "tag \<noteq> []"
  shows "Suc (2 * length (trim_left (trim_prefix (trim_left s) tag))) < 2 * length s"
proof -
  obtain r where r: "trim_left s = tag @ r" using assms(1) by (auto simp: has_prefix_iff)
  then have "length tag + length r \<le> length s" "trim_prefix (trim_left s) tag = r"
    using length_trim_left [of s] by simp_all
  then show ?thesis using assms(2) length_trim_left [of r] by (cases tag) auto
qed

text \<open>The steps.  \<open>q3_enter p E N r\<close> goes on with \<open>r\<close> after its leading white space, in the state \<open>N\<close>, or
  in the state \<open>E\<close> that eats more white space when nothing is left.\<close>

definition q3_enter :: "Qwen3Parser \<Rightarrow> qwen3ParserState \<Rightarrow> qwen3ParserState \<Rightarrow> string \<Rightarrow> Qwen3Parser" where
  "q3_enter p E N r = p\<lparr>q3_buffer := trim_left r, q3_state := if trim_left r = [] then E else N\<rparr>"

lemma q3_thinking_tool:
  assumes "comes_first (q3_buffer p) qwen3ToolOpenTag qwen3ThinkingCloseTag" "cut (q3_buffer p) qwen3ToolOpenTag = Some (a, b)"
  shows "q3_eat_thinking p = (emit_if qwen3EventThinkingContent (trim_right a),
    q3_enter p qwen3ParserStateToolStartedEatingWhitespace qwen3ParserStateCollectingToolContent b, True)"
  using assms by (simp add: q3_eat_thinking_def q3_splitAtTag_eq q3_enter_def)

lemma q3_thinking_close:
  assumes "\<not> comes_first (q3_buffer p) qwen3ToolOpenTag qwen3ThinkingCloseTag"
    and "cut (q3_buffer p) qwen3ThinkingCloseTag = Some (a, b)"
  shows "q3_eat_thinking p = (emit_if qwen3EventThinkingContent (trim_right a),
    q3_enter p qwen3ParserStateThinkingDoneEatingWhitespace qwen3ParserStateCollectingContent b, True)"
  using assms by (simp add: q3_eat_thinking_def q3_splitAtTag_eq q3_enter_def cut_contains)

lemma q3_thinking_hold:
  assumes "\<not> contains (q3_buffer p) qwen3ToolOpenTag" "\<not> contains (q3_buffer p) qwen3ThinkingCloseTag"
    and "hold_split (q3_buffer p) (max (overlap (q3_buffer p) qwen3ThinkingCloseTag) (overlap (q3_buffer p) qwen3ToolOpenTag))
      = (out, keep)"
  shows "q3_eat_thinking p = (emit_if qwen3EventThinkingContent out, p\<lparr>q3_buffer := keep\<rparr>, False)"
proof -
  have "\<not> comes_first (q3_buffer p) qwen3ToolOpenTag qwen3ThinkingCloseTag"
    using assms(1) comes_first_contains by blast
  with assms show ?thesis by (simp add: q3_eat_thinking_def hold_emit_def Let_def)
qed

lemma q3_thinking_cases:
  obtains (tool) a b where "comes_first (q3_buffer p) qwen3ToolOpenTag qwen3ThinkingCloseTag"
      "cut (q3_buffer p) qwen3ToolOpenTag = Some (a, b)"
    | (close) a b where "\<not> comes_first (q3_buffer p) qwen3ToolOpenTag qwen3ThinkingCloseTag"
      "cut (q3_buffer p) qwen3ThinkingCloseTag = Some (a, b)"
    | (hold) out keep where "\<not> contains (q3_buffer p) qwen3ToolOpenTag" "\<not> contains (q3_buffer p) qwen3ThinkingCloseTag"
      "hold_split (q3_buffer p) (max (overlap (q3_buffer p) qwen3ThinkingCloseTag) (overlap (q3_buffer p) qwen3ToolOpenTag))
        = (out, keep)"
proof -
  consider "comes_first (q3_buffer p) qwen3ToolOpenTag qwen3ThinkingCloseTag"
    | "\<not> comes_first (q3_buffer p) qwen3ToolOpenTag qwen3ThinkingCloseTag" "contains (q3_buffer p) qwen3ThinkingCloseTag"
    | "\<not> contains (q3_buffer p) qwen3ToolOpenTag" "\<not> contains (q3_buffer p) qwen3ThinkingCloseTag"
    using not_comes_first_cases by blast
  then show thesis
  proof cases
    case 1
    then show thesis using that(1) contains_cut [OF comes_first_contains] by blast
  next
    case 2
    then show thesis using that(2) contains_cut by blast
  next
    case 3
    then show thesis using that(3) prod.exhaust by metis
  qed
qed

lemma q3_content_tool:
  assumes "q3_state p = qwen3ParserStateCollectingContent" "cut (q3_buffer p) qwen3ToolOpenTag = Some (a, b)"
  shows "q3_eat p = (emit_if qwen3EventContent (trim_right a),
    q3_enter p qwen3ParserStateToolStartedEatingWhitespace qwen3ParserStateCollectingToolContent b, True)"
  using assms by (simp add: q3_eat_def q3_splitAtTag_eq q3_enter_def cut_contains)

lemma q3_content_hold:
  assumes "q3_state p = qwen3ParserStateCollectingContent" "\<not> contains (q3_buffer p) qwen3ToolOpenTag"
    and "hold_split (q3_buffer p) (overlap (q3_buffer p) qwen3ToolOpenTag) = (out, keep)"
  shows "q3_eat p = (emit_if qwen3EventContent out, p\<lparr>q3_buffer := keep\<rparr>, False)"
  using assms by (simp add: q3_eat_def hold_emit_def)

lemma q3_tool_close:
  assumes "q3_state p = qwen3ParserStateCollectingToolContent" "cut (q3_buffer p) qwen3ToolCloseTag = Some (a, b)"
  shows "q3_eat p = ([qwen3EventRawToolCall (trim_right a)],
    p\<lparr>q3_buffer := trim_left b, q3_state := qwen3ParserStateCollectingContent\<rparr>, True)"
  using assms by (simp add: q3_eat_def q3_splitAtTag_eq cut_contains)

lemma q3_tool_wait:
  assumes "q3_state p = qwen3ParserStateCollectingToolContent" "\<not> contains (q3_buffer p) qwen3ToolCloseTag"
  shows "q3_eat p = ([], p, False)"
  using assms by (simp add: q3_eat_def)

lemma q3_enter_msr: "q3_msr (q3_enter p E N b) \<le> Suc (2 * length (trim_left b))"
  by (simp add: q3_enter_def q3_msr_def)

lemma q3_eat_thinking_msr:
  assumes "q3_eat_thinking p = (es, p', True)"
  shows "q3_msr p' < 2 * length (q3_buffer p)"
proof (cases rule: q3_thinking_cases [of p])
  case (tool a b)
  then show ?thesis using assms q3_thinking_tool [OF tool] cut_trim_length [OF tool(2)]
    q3_enter_msr [of p _ _ b] le_less_trans by fastforce
next
  case (close a b)
  then show ?thesis using assms q3_thinking_close [OF close] cut_trim_length [OF close(2)]
    q3_enter_msr [of p _ _ b] le_less_trans by fastforce
next
  case (hold out keep)
  then show ?thesis using assms q3_thinking_hold [OF hold] by simp
qed

lemma q3_eat_msr: "q3_eat p = (es, p', True) \<Longrightarrow> q3_msr p' < q3_msr p"
proof (cases "q3_state p")
  case qwen3ParserStateCollectingThinking
  assume e: "q3_eat p = (es, p', True)"
  show ?thesis
  proof (cases "q3_maybeThinkingOpenAtBOL p \<and> has_prefix (trim_left (q3_buffer p)) qwen3ThinkingOpenTag")
    case True
    then show ?thesis
      using e qwen3ParserStateCollectingThinking trim_prefix_length [of "q3_buffer p" qwen3ThinkingOpenTag]
      by (auto simp: q3_eat_def Let_def q3_msr_def split: if_splits)
  next
    case False
    then show ?thesis
      using e qwen3ParserStateCollectingThinking q3_eat_thinking_msr [of p es p']
        q3_eat_thinking_msr [of "p\<lparr>q3_maybeThinkingOpenAtBOL := False\<rparr>" es p']
      by (auto simp: q3_eat_def Let_def q3_msr_def [of p] split: if_splits)
  qed
next
  case qwen3ParserStateCollectingContent
  assume e: "q3_eat p = (es, p', True)"
  then have "contains (q3_buffer p) qwen3ToolOpenTag"
    using qwen3ParserStateCollectingContent by (auto simp: q3_eat_def Let_def split: if_splits prod.splits)
  then obtain a b where ab: "cut (q3_buffer p) qwen3ToolOpenTag = Some (a, b)" using contains_cut by blast
  then show ?thesis
    using e q3_content_tool [OF qwen3ParserStateCollectingContent ab] cut_trim_length [OF ab]
      qwen3ParserStateCollectingContent
    by (auto simp: q3_enter_def q3_msr_def)
next
  case qwen3ParserStateCollectingToolContent
  assume e: "q3_eat p = (es, p', True)"
  then have "contains (q3_buffer p) qwen3ToolCloseTag"
    using qwen3ParserStateCollectingToolContent by (auto simp: q3_eat_def split: if_splits)
  then obtain a b where ab: "cut (q3_buffer p) qwen3ToolCloseTag = Some (a, b)" using contains_cut by blast
  then show ?thesis
    using e q3_tool_close [OF qwen3ParserStateCollectingToolContent ab] cut_trim_length [OF ab]
      qwen3ParserStateCollectingToolContent
    by (auto simp: q3_msr_def)
next
  case qwen3ParserStateLookingForThinkingOpen
  assume "q3_eat p = (es, p', True)"
  then show ?thesis
    using qwen3ParserStateLookingForThinkingOpen trim_prefix_length [of "q3_buffer p" qwen3ThinkingOpenTag]
    by (auto simp: q3_eat_def Let_def q3_msr_def split: if_splits)
qed (use length_trim_left [of "q3_buffer p"] in
    \<open>auto simp: q3_eat_def q3_eatLeadingWhitespaceAndTransitionTo_def Let_def q3_msr_def split: if_splits\<close>)

interpretation q3_loop: draining q3_eat "\<lambda>_. True" q3_msr
  by unfold_locales (simp_all add: q3_eat_msr)

text \<open>\<open>Add\<close> of the Qwen3 parser returns for every state, text and decoder; the loop over \<open>eat\<close> stops
  because every step that goes on uses up a tag or leaves a state that only waits for white space.\<close>

theorem qwen3_add_returns: "\<exists>result p'. q3_Add unmarshal p s don = Some (result, p')"
proof -
  obtain es t where "drain q3_eat (q3_put p s) = Some (es, t)" using q3_loop.drain_total by blast
  then show ?thesis
    by (cases "q3_collect unmarshal (q3_callIndex t) es") (simp add: q3_Add_def q3_parseEvents_def)
qed

section \<open>Chunks\<close>

text \<open>What a caller sees of the events: the thinking, the content up to white space, and the raw tool
  calls; \<open>None\<close> where a piece of content is not well encoded.\<close>

type_synonym qwen3_obs = "(string \<times> string \<times> string list) option"

fun q3_ev :: "qwen3Event \<Rightarrow> qwen3_obs" where
  "q3_ev (qwen3EventThinkingContent s) = Some (s, [], [])"
| "q3_ev (qwen3EventContent s) = (if valid_utf8 s then Some ([], squash s, []) else None)"
| "q3_ev (qwen3EventRawToolCall s) = Some ([], [], [s])"

fun q3_comb :: "qwen3_obs \<Rightarrow> qwen3_obs \<Rightarrow> qwen3_obs" where
  "q3_comb (Some (t, c, r)) (Some (t', c', r')) = Some (t @ t', c @ c', r @ r')"
| "q3_comb _ _ = None"

primrec q3_obs :: "qwen3Event list \<Rightarrow> qwen3_obs" where
  "q3_obs [] = Some ([], [], [])"
| "q3_obs (e # es) = q3_comb (q3_ev e) (q3_obs es)"

lemma q3_comb_Nil [simp]: "q3_comb (Some ([], [], [])) x = x" "q3_comb x (Some ([], [], [])) = x"
  by (cases x; auto)+

lemma q3_comb_assoc: "q3_comb (q3_comb a b) c = q3_comb a (q3_comb b c)"
  by (cases a; cases b; cases c) auto

lemma q3_obs_append: "q3_obs (es @ fs) = q3_comb (q3_obs es) (q3_obs fs)"
  by (induction es) (simp_all add: q3_comb_assoc)

lemma q3_obs_emit [simp]:
  "q3_obs (emit_if qwen3EventThinkingContent s) = Some (s, [], [])"
  "valid_utf8 s \<Longrightarrow> q3_obs (emit_if qwen3EventContent s) = Some ([], squash s, [])"
  by (simp_all add: emit_if_def)

lemma q3_after_obs:
  "after_obs q3_comb (q3_comb a b) r = after_obs q3_comb a (after_obs q3_comb b r)"
  "after_obs q3_comb (Some ([], [], [])) r = r"
  by (cases r; auto simp: after_obs_def q3_comb_assoc)+

abbreviation q3_observe :: "Qwen3Parser \<Rightarrow> (qwen3_obs \<times> Qwen3Parser) option" where
  "q3_observe \<equiv> observe q3_obs q3_eat"

lemmas q3_observe_more = observe_more [where obs = q3_obs and comb = q3_comb and eat = q3_eat, OF q3_obs_append]
lemmas q3_observe_stop = observe_stop [where obs = q3_obs and eat = q3_eat]

definition q3_inv :: "Qwen3Parser \<Rightarrow> bool" where
  "q3_inv p \<longleftrightarrow> valid_utf8 (q3_buffer p) \<and> \<not> q3_maybeThinkingOpenAtBOL p \<and>
     q3_state p \<notin> {qwen3ParserStateLookingForThinkingOpen, qwen3ParserStateThinkingStartedEatingWhitespace}"

text \<open>Two states that differ in the white space before content not yet returned.\<close>

definition q3_rel :: "Qwen3Parser \<Rightarrow> Qwen3Parser \<Rightarrow> bool" where
  "q3_rel p q \<longleftrightarrow> p\<lparr>q3_buffer := []\<rparr> = q\<lparr>q3_buffer := []\<rparr> \<and>
     (if q3_state p = qwen3ParserStateCollectingContent
      then trim_left (q3_buffer p) = trim_left (q3_buffer q) else q3_buffer p = q3_buffer q)"

lemma q3_rel_refl [simp]: "q3_rel p p"
  by (simp add: q3_rel_def)

lemma q3_rel_state: "q3_rel p q \<Longrightarrow> q3_state p = q3_state q"
  by (auto simp: q3_rel_def dest!: arg_cong [where f = q3_state])

lemma q3_rel_transp: "transp q3_rel"
proof (rule transpI)
  fix p q r assume "q3_rel p q" "q3_rel q r"
  with q3_rel_state [of p q] show "q3_rel p r" by (auto simp: q3_rel_def split: if_splits)
qed

lemma q3_good_tags [simp]:
  "good_tag qwen3ThinkingCloseTag" "good_tag qwen3ToolOpenTag" "good_tag qwen3ToolCloseTag"
  by (simp_all add: good_tag_def valid_utf8_asciiI qwen3ThinkingCloseTag_def qwen3ToolOpenTag_def qwen3ToolCloseTag_def)

lemma q3_tags_apart: "tags_apart qwen3ToolOpenTag qwen3ThinkingCloseTag" "tags_apart qwen3ThinkingCloseTag qwen3ToolOpenTag"
  by (simp_all add: tags_apart_def qwen3ThinkingCloseTag_def qwen3ToolOpenTag_def upt_rec has_prefix_def)

lemma q3_put_fields [simp]:
  "q3_state (q3_put p y) = q3_state p" "q3_buffer (q3_put p y) = q3_buffer p @ y"
  "q3_maybeThinkingOpenAtBOL (q3_put p y) = q3_maybeThinkingOpenAtBOL p"
  by (simp_all add: q3_put_def)

lemma q3_enter_put [simp]: "q3_enter (q3_put p y) E N r = q3_enter p E N r"
  by (simp add: q3_enter_def q3_put_def)

text \<open>The states that eat white space.\<close>

definition q3_eating :: "qwen3ParserState \<Rightarrow> qwen3ParserState \<Rightarrow> bool" where
  "q3_eating E N \<longleftrightarrow> (\<forall>q. q3_state q = E \<longrightarrow> q3_eat q = q3_eatLeadingWhitespaceAndTransitionTo q N)"

lemma q3_eatings:
  "q3_eating qwen3ParserStateThinkingDoneEatingWhitespace qwen3ParserStateCollectingContent"
  "q3_eating qwen3ParserStateToolStartedEatingWhitespace qwen3ParserStateCollectingToolContent"
  by (simp_all add: q3_eating_def q3_eat_def)

lemma q3_observe_eating:
  assumes "q3_eating E N" "q3_state q = E"
  shows "q3_observe q = q3_observe (q3_enter q E N (q3_buffer q))"
proof (cases "trim_left (q3_buffer q) = []")
  case True
  have "q3_eat q = ([], q3_enter q E N (q3_buffer q), False)"
    using assms True by (simp add: q3_eating_def q3_eatLeadingWhitespaceAndTransitionTo_def q3_enter_def)
  moreover have "q3_eat (q3_enter q E N (q3_buffer q)) = ([], q3_enter q E N (q3_buffer q), False)"
    using assms True by (simp add: q3_eating_def q3_eatLeadingWhitespaceAndTransitionTo_def q3_enter_def)
  ultimately show ?thesis by (simp add: q3_observe_stop)
next
  case False
  then have "q3_eat q = ([], q3_enter q E N (q3_buffer q), True)"
    using assms by (simp add: q3_eating_def q3_eatLeadingWhitespaceAndTransitionTo_def q3_enter_def Let_def)
  then show ?thesis by (simp add: q3_observe_more q3_after_obs)
qed

lemma q3_observe_enter:
  assumes "q3_eating E N" "valid_utf8 r"
  shows "q3_observe (q3_put (q3_enter p E N r) y) = q3_observe (q3_enter p E N (r @ y))"
proof (cases "trim_left r = []")
  case True
  let ?q = "q3_put (q3_enter p E N r) y"
  have "q3_state ?q = E" using True by (simp add: q3_enter_def)
  from q3_observe_eating [OF assms(1) this] show ?thesis
    using True assms(2) by (simp add: q3_enter_def q3_put_def trim_left_append)
next
  case False
  then have "q3_put (q3_enter p E N r) y = q3_enter p E N (r @ y)"
    using assms(2) by (simp add: q3_enter_def q3_put_def trim_left_append)
  then show ?thesis by simp
qed

lemma q3_eat_collecting:
  "q3_state p = qwen3ParserStateCollectingThinking \<Longrightarrow> \<not> q3_maybeThinkingOpenAtBOL p \<Longrightarrow> q3_eat p = q3_eat_thinking p"
  by (simp add: q3_eat_def)

lemma q3_more_thinking:
  assumes p: "q3_state p = qwen3ParserStateCollectingThinking" "\<not> q3_maybeThinkingOpenAtBOL p"
    and v: "valid_utf8 (q3_buffer p)" "valid_utf8 y" and e: "q3_eat p = (es, p', m)"
  shows "q3_observe (q3_put p y) = after_obs q3_comb (q3_obs es) (q3_observe (q3_put p' y))"
proof (cases rule: q3_thinking_cases [of p])
  case (tool a b)
  have vb: "valid_utf8 b" using valid_cut [OF v(1) _ tool(2)] by simp
  have "q3_eat (q3_put p y) = (emit_if qwen3EventThinkingContent (trim_right a),
      q3_enter p qwen3ParserStateToolStartedEatingWhitespace qwen3ParserStateCollectingToolContent (b @ y), True)"
    using q3_thinking_tool [of "q3_put p y" a "b @ y"] p comes_first_append [OF tool(1) q3_tags_apart(2)] cut_append [OF tool(2)]
    by (simp add: q3_eat_collecting)
  moreover have "es = emit_if qwen3EventThinkingContent (trim_right a)"
    "p' = q3_enter p qwen3ParserStateToolStartedEatingWhitespace qwen3ParserStateCollectingToolContent b"
    using e q3_thinking_tool [OF tool] p by (simp_all add: q3_eat_collecting)
  ultimately show ?thesis using q3_observe_enter [OF q3_eatings(2) vb] by (simp add: q3_observe_more)
next
  case (close a b)
  have vb: "valid_utf8 b" using valid_cut [OF v(1) _ close(2)] by simp
  have "q3_eat (q3_put p y) = (emit_if qwen3EventThinkingContent (trim_right a),
      q3_enter p qwen3ParserStateThinkingDoneEatingWhitespace qwen3ParserStateCollectingContent (b @ y), True)"
    using q3_thinking_close [of "q3_put p y" a "b @ y"] p cut_append [OF close(2)]
      not_comes_first_append [OF close(1) cut_contains [OF close(2)] q3_tags_apart(1)]
    by (simp add: q3_eat_collecting)
  moreover have "es = emit_if qwen3EventThinkingContent (trim_right a)"
    "p' = q3_enter p qwen3ParserStateThinkingDoneEatingWhitespace qwen3ParserStateCollectingContent b"
    using e q3_thinking_close [OF close] p by (simp_all add: q3_eat_collecting)
  ultimately show ?thesis using q3_observe_enter [OF q3_eatings(1) vb] by (simp add: q3_observe_more)
next
  case (hold out keep)
  note h = hold2_valid [OF v(1) q3_good_tags(1,2) hold(3)]
  let ?q = "p\<lparr>q3_buffer := keep @ y\<rparr>"
  have q: "q3_state ?q = qwen3ParserStateCollectingThinking" "\<not> q3_maybeThinkingOpenAtBOL ?q" using p by simp_all
  have vz: "valid_utf8 (keep @ y)" using h v by simp
  have es: "es = emit_if qwen3EventThinkingContent out" "p' = p\<lparr>q3_buffer := keep\<rparr>"
    using e q3_thinking_hold [OF hold] p by (simp_all add: q3_eat_collecting)
  then have p': "es = emit_if qwen3EventThinkingContent out" "q3_put p' y = ?q" by (simp_all add: q3_put_def)
  have nc: "\<not> contains (out @ keep) qwen3ToolOpenTag" "\<not> contains (out @ keep) qwen3ThinkingCloseTag"
    using hold h(1) by simp_all
  have first: "comes_first (out @ keep @ y) qwen3ToolOpenTag qwen3ThinkingCloseTag =
      comes_first (keep @ y) qwen3ToolOpenTag qwen3ThinkingCloseTag"
    by (rule comes_first_hold [OF nc h(3,2)])
  have buf: "q3_buffer (q3_put p y) = out @ keep @ y" using h(1) by simp
  have "q3_observe (q3_put p y) = after_obs q3_comb (Some (out, [], [])) (q3_observe ?q)"
  proof (cases rule: q3_thinking_cases [of ?q])
    case (tool a b)
    have "cut (out @ keep @ y) qwen3ToolOpenTag = Some (out @ a, b)"
      using cut_hold [OF nc(1) h(3), of y] tool by simp
    then have 1: "q3_eat_thinking (q3_put p y) = (emit_if qwen3EventThinkingContent (trim_right (out @ a)),
        q3_enter p qwen3ParserStateToolStartedEatingWhitespace qwen3ParserStateCollectingToolContent b, True)"
      using q3_thinking_tool [of "q3_put p y" "out @ a" b] buf first tool by simp
    have "trim_right (out @ a) = out @ trim_right a"
      using trim_right_hold [OF h(6)] valid_cut [OF vz _ tool(2) [simplified]] by simp
    moreover have "q3_enter ?q E N b = q3_enter p E N b" for E N by (simp add: q3_enter_def)
    ultimately show ?thesis
      using 1 q3_thinking_tool [OF tool] p q by (simp add: q3_eat_collecting q3_observe_more flip: q3_after_obs(1))
  next
    case (close a b)
    have "cut (out @ keep @ y) qwen3ThinkingCloseTag = Some (out @ a, b)"
      using cut_hold [OF nc(2) h(2), of y] close by simp
    then have 1: "q3_eat_thinking (q3_put p y) = (emit_if qwen3EventThinkingContent (trim_right (out @ a)),
        q3_enter p qwen3ParserStateThinkingDoneEatingWhitespace qwen3ParserStateCollectingContent b, True)"
      using q3_thinking_close [of "q3_put p y" "out @ a" b] buf first close by simp
    have "trim_right (out @ a) = out @ trim_right a"
      using trim_right_hold [OF h(6)] valid_cut [OF vz _ close(2) [simplified]] by simp
    moreover have "q3_enter ?q E N b = q3_enter p E N b" for E N by (simp add: q3_enter_def)
    ultimately show ?thesis
      using 1 q3_thinking_close [OF close] p q by (simp add: q3_eat_collecting q3_observe_more flip: q3_after_obs(1))
  next
    case h2: (hold o2 k2)
    have "hold_split (out @ keep @ y) (max (overlap (out @ keep @ y) qwen3ThinkingCloseTag)
        (overlap (out @ keep @ y) qwen3ToolOpenTag)) = (out @ o2, k2)"
      using hold2_later [OF v(1) q3_good_tags(1,2) v(2) hold(3)] h2(3) h(1) by simp
    then have 1: "q3_eat_thinking (q3_put p y) = (emit_if qwen3EventThinkingContent (out @ o2), (q3_put p y)\<lparr>q3_buffer := k2\<rparr>, False)"
      using q3_thinking_hold [of "q3_put p y" "out @ o2" k2] buf h2 contains_hold [OF nc(1) h(3), of y]
        contains_hold [OF nc(2) h(2), of y] by simp
    moreover have "(q3_put p y)\<lparr>q3_buffer := k2\<rparr> = ?q\<lparr>q3_buffer := k2\<rparr>" by (simp add: q3_put_def)
    ultimately show ?thesis
      using q3_thinking_hold [OF h2] p q by (simp add: q3_eat_collecting q3_observe_stop after_obs_def)
  qed
  with p' show ?thesis by simp
qed

lemma q3_more_content:
  assumes p: "q3_state p = qwen3ParserStateCollectingContent"
    and v: "valid_utf8 (q3_buffer p)" "valid_utf8 y" and e: "q3_eat p = (es, p', m)"
  shows "q3_observe (q3_put p y) = after_obs q3_comb (q3_obs es) (q3_observe (q3_put p' y))"
proof (cases "cut (q3_buffer p) qwen3ToolOpenTag")
  case (Some ab)
  then obtain a b where ab: "cut (q3_buffer p) qwen3ToolOpenTag = Some (a, b)" by (cases ab) auto
  have vb: "valid_utf8 b" using valid_cut [OF v(1) _ ab] by simp
  have "q3_eat (q3_put p y) = (emit_if qwen3EventContent (trim_right a),
      q3_enter p qwen3ParserStateToolStartedEatingWhitespace qwen3ParserStateCollectingToolContent (b @ y), True)"
    using q3_content_tool [of "q3_put p y" a "b @ y"] p cut_append [OF ab] by simp
  moreover have "es = emit_if qwen3EventContent (trim_right a)"
    "p' = q3_enter p qwen3ParserStateToolStartedEatingWhitespace qwen3ParserStateCollectingToolContent b"
    using e q3_content_tool [OF p ab] by simp_all
  ultimately show ?thesis using q3_observe_enter [OF q3_eatings(2) vb] by (simp add: q3_observe_more)
next
  case None
  then have no: "\<not> contains (q3_buffer p) qwen3ToolOpenTag" by (simp add: cut_None_iff)
  obtain out keep where hold: "hold_split (q3_buffer p) (overlap (q3_buffer p) qwen3ToolOpenTag) = (out, keep)" by force
  note h = hold_valid [OF v(1) q3_good_tags(2) hold]
  let ?q = "p\<lparr>q3_buffer := keep @ y\<rparr>"
  have q: "q3_state ?q = qwen3ParserStateCollectingContent" using p by simp
  have vz: "valid_utf8 (keep @ y)" using h v by simp
  have es: "es = emit_if qwen3EventContent out" "p' = p\<lparr>q3_buffer := keep\<rparr>"
    using e q3_content_hold [OF p no hold] by simp_all
  then have p': "q3_obs es = Some ([], squash out, [])" "q3_put p' y = ?q" using h by (simp_all add: q3_put_def)
  have nc: "\<not> contains (out @ keep) qwen3ToolOpenTag" using no h(1) by simp
  have buf: "q3_buffer (q3_put p y) = out @ keep @ y" using h(1) by simp
  have "q3_observe (q3_put p y) = after_obs q3_comb (Some ([], squash out, [])) (q3_observe ?q)"
  proof (cases "cut (keep @ y) qwen3ToolOpenTag")
    case (Some ab)
    then obtain a b where ab: "cut (keep @ y) qwen3ToolOpenTag = Some (a, b)" by (cases ab) auto
    have va: "valid_utf8 a" using valid_cut [OF vz _ ab] by simp
    have "cut (out @ keep @ y) qwen3ToolOpenTag = Some (out @ a, b)" using cut_hold [OF nc h(2), of y] ab by simp
    then have 1: "q3_eat (q3_put p y) = (emit_if qwen3EventContent (trim_right (out @ a)),
        q3_enter p qwen3ParserStateToolStartedEatingWhitespace qwen3ParserStateCollectingToolContent b, True)"
      using q3_content_tool [of "q3_put p y" "out @ a" b] buf p by simp
    have "trim_right (out @ a) = out @ trim_right a" using trim_right_hold [OF h(5)] va by simp
    moreover have "q3_enter ?q E N b = q3_enter p E N b" for E N by (simp add: q3_enter_def)
    ultimately show ?thesis
      using 1 q3_content_tool [OF q, of a b] ab h(3) va
      by (simp add: q3_observe_more trim_right_valid squash_append flip: q3_after_obs(1))
  next
    case None
    then have no2: "\<not> contains (q3_buffer ?q) qwen3ToolOpenTag" by (simp add: cut_None_iff)
    obtain o2 k2 where h2: "hold_split (keep @ y) (overlap (keep @ y) qwen3ToolOpenTag) = (o2, k2)" by force
    have v2: "valid_utf8 o2" using hold_valid [OF vz q3_good_tags(2) h2] by simp
    have "hold_split (out @ keep @ y) (overlap (out @ keep @ y) qwen3ToolOpenTag) = (out @ o2, k2)"
      using hold_later [OF v(1) q3_good_tags(2) hold v(2)] h2 h(1) by simp
    then have 1: "q3_eat (q3_put p y) = (emit_if qwen3EventContent (out @ o2), (q3_put p y)\<lparr>q3_buffer := k2\<rparr>, False)"
      using q3_content_hold [of "q3_put p y" "out @ o2" k2] p buf no2 contains_hold [OF nc h(2), of y] by simp
    moreover have "(q3_put p y)\<lparr>q3_buffer := k2\<rparr> = ?q\<lparr>q3_buffer := k2\<rparr>" by (simp add: q3_put_def)
    ultimately show ?thesis
      using q3_content_hold [OF q no2, of o2 k2] h2 h(3) v2
      by (simp add: q3_observe_stop after_obs_def squash_append)
  qed
  with p' show ?thesis by simp
qed

text \<open>White space before content, seen up to white space.\<close>

lemma q3_content_blank:
  assumes p: "q3_state p = qwen3ParserStateCollectingContent" and v: "valid_utf8 y"
  shows "same_obs q3_rel (q3_observe (p\<lparr>q3_buffer := trim_left y\<rparr>)) (q3_observe (p\<lparr>q3_buffer := y\<rparr>))"
proof -
  obtain w where w: "y = w @ trim_left y" "valid_utf8 w" "trim_left w = []" "valid_utf8 (trim_left y)"
    using v by (rule trim_left_split)
  define z where "z = trim_left y"
  have y: "y = w @ z" and vz: "valid_utf8 z" using w by (simp_all add: z_def)
  let ?p = "p\<lparr>q3_buffer := w @ z\<rparr>" and ?q = "p\<lparr>q3_buffer := z\<rparr>"
  have tag: "qwen3ToolOpenTag = CHR ''<'' # ''tool_call>''" by (simp add: qwen3ToolOpenTag_def)
  have lt: "of_char (CHR ''<'') < (128 :: nat)" "\<not> is_space (of_char (CHR ''<''))" by (simp_all add: is_space_def)
  have b: "\<not> contains (w @ []) qwen3ToolOpenTag" "overlap (w @ []) qwen3ToolOpenTag \<le> length ([] :: string)"
    using blank_no_tag [OF w(2,3) tag lt] by simp_all
  have sw: "squash w = []" using w(3) by (rule squash_blank)
  have s: "q3_state ?p = qwen3ParserStateCollectingContent" "q3_state ?q = qwen3ParserStateCollectingContent"
    using p by simp_all
  have "same_obs q3_rel (q3_observe ?q) (q3_observe ?p)"
  proof (cases "cut z qwen3ToolOpenTag")
    case (Some ab)
    then obtain a r where ab: "cut z qwen3ToolOpenTag = Some (a, r)" by (cases ab) auto
    have va: "valid_utf8 a" using valid_cut [OF vz _ ab] by simp
    have ab': "cut (w @ z) qwen3ToolOpenTag = Some (w @ a, r)" using cut_hold [OF b, of z] ab by simp
    have "valid_utf8 (w @ a)" using w(2) va by simp
    then have o: "q3_obs (emit_if qwen3EventContent (trim_right (w @ a))) = q3_obs (emit_if qwen3EventContent (trim_right a))"
      using va w(2) sw by (simp add: trim_right_valid squash_trim_right squash_append)
    have "q3_enter ?p E N r = q3_enter ?q E N r" for E N by (simp add: q3_enter_def)
    then have "q3_observe ?q = q3_observe ?p"
      using q3_content_tool [OF s(1), of "w @ a" r] q3_content_tool [OF s(2), of a r] ab ab'
      by (simp add: q3_observe_more o)
    then show ?thesis by (cases "q3_observe ?p") (auto simp: same_obs_def)
  next
    case None
    obtain out keep where hold: "hold_split z (overlap z qwen3ToolOpenTag) = (out, keep)" by force
    note h = hold_valid [OF vz q3_good_tags(2) hold]
    note hb = hold_blank [OF w(2,3) vz tag q3_good_tags(2) lt hold]
    have n: "\<not> contains (q3_buffer ?q) qwen3ToolOpenTag" "\<not> contains (q3_buffer ?p) qwen3ToolOpenTag"
      using None contains_hold [OF b, of z] by (simp_all add: cut_None_iff)
    have q: "q3_observe ?q = Some (Some ([], squash out, []), p\<lparr>q3_buffer := keep\<rparr>)"
      using q3_content_hold [OF s(2) n(1)] hold h(3) by (simp add: q3_observe_stop)
    show ?thesis
    proof (cases "out = []")
      case True
      then have "q3_observe ?p = Some (Some ([], [], []), ?p)" "keep = z"
        using q3_content_hold [OF s(1) n(2)] hb h(1) by (simp_all add: q3_observe_stop)
      then show ?thesis using q True p w(2,3)
        by (simp add: same_obs_def q3_rel_def trim_left_append)
    next
      case False
      then have "q3_observe ?p = Some (Some ([], squash (w @ out), []), p\<lparr>q3_buffer := keep\<rparr>)"
        using q3_content_hold [OF s(1) n(2)] hb h(3) w(2) by (simp add: q3_observe_stop)
      then show ?thesis using q w(2) sw by (simp add: same_obs_def squash_append)
    qed
  qed
  then show ?thesis unfolding y [symmetric] unfolding z_def .
qed

lemma q3_more_tool:
  assumes p: "q3_state p = qwen3ParserStateCollectingToolContent"
    and v: "valid_utf8 (q3_buffer p)" "valid_utf8 y" and e: "q3_eat p = (es, p', m)"
  shows "same_obs q3_rel (q3_observe (q3_put p y)) (after_obs q3_comb (q3_obs es) (q3_observe (q3_put p' y)))"
proof (cases "cut (q3_buffer p) qwen3ToolCloseTag")
  case None
  then have "\<not> contains (q3_buffer p) qwen3ToolCloseTag" by (simp add: cut_None_iff)
  with e p have "es = []" "p' = p" by (simp_all add: q3_tool_wait)
  then show ?thesis by (cases "q3_observe (q3_put p y)") (auto simp: q3_after_obs same_obs_def)
next
  case (Some ab)
  then obtain a b where ab: "cut (q3_buffer p) qwen3ToolCloseTag = Some (a, b)" by (cases ab) auto
  have vb: "valid_utf8 b" using valid_cut [OF v(1) _ ab] by simp
  let ?p = "\<lambda>z. p\<lparr>q3_state := qwen3ParserStateCollectingContent, q3_buffer := z\<rparr>"
  have es: "es = [qwen3EventRawToolCall (trim_right a)]" "p' = ?p (trim_left b)"
    using e q3_tool_close [OF p ab] by auto
  have "q3_eat (q3_put p y) = ([qwen3EventRawToolCall (trim_right a)], ?p (trim_left (b @ y)), True)"
    using q3_tool_close [of "q3_put p y" a "b @ y"] p cut_append [OF ab] by (simp add: q3_put_def)
  then have 1: "q3_observe (q3_put p y) = after_obs q3_comb (q3_obs es) (q3_observe (?p (trim_left (b @ y))))"
    by (simp add: q3_observe_more es)
  have 2: "q3_put p' y = ?p (trim_left b @ y)" by (simp add: es q3_put_def)
  have "same_obs q3_rel (q3_observe (?p (trim_left (b @ y)))) (q3_observe (?p (trim_left b @ y)))"
  proof (cases "trim_left b = []")
    case True
    then show ?thesis using q3_content_blank [of "?p y" y] vb v by (simp add: trim_left_append)
  next
    case False
    then show ?thesis using vb by (cases "q3_observe (?p (trim_left b @ y))") (auto simp: trim_left_append same_obs_def)
  qed
  then show ?thesis unfolding 1 2 by (rule same_obs_after)
qed

lemma q3_more_eating:
  assumes E: "q3_eating E N" and p: "q3_state p = E" and v: "valid_utf8 (q3_buffer p)" and e: "q3_eat p = (es, p', m)"
  shows "q3_observe (q3_put p y) = after_obs q3_comb (q3_obs es) (q3_observe (q3_put p' y))"
proof -
  have "es = []" "p' = q3_enter p E N (q3_buffer p)"
    using E p e by (auto simp: q3_eating_def q3_eatLeadingWhitespaceAndTransitionTo_def q3_enter_def Let_def split: if_splits)
  moreover have "q3_observe (q3_put p y) = q3_observe (q3_enter p E N (q3_buffer p @ y))"
    using q3_observe_eating [OF E, of "q3_put p y"] p by simp
  ultimately show ?thesis using q3_observe_enter [OF E v] by (simp add: q3_after_obs)
qed

lemma q3_inv_enter:
  "q3_inv p \<Longrightarrow> valid_utf8 b \<Longrightarrow>
   {E, N} \<inter> {qwen3ParserStateLookingForThinkingOpen, qwen3ParserStateThinkingStartedEatingWhitespace} = {} \<Longrightarrow>
   q3_inv (q3_enter p E N b)"
  by (auto simp: q3_inv_def q3_enter_def trim_left_valid)

lemma q3_inv_step:
  assumes inv: "q3_inv p" and e: "q3_eat p = (es, p', m)"
  shows "q3_inv p'"
proof -
  have v: "valid_utf8 (q3_buffer p)" and bol: "\<not> q3_maybeThinkingOpenAtBOL p" using inv by (simp_all add: q3_inv_def)
  have eating: "q3_inv p'" if "q3_eating (q3_state p) N"
    "{q3_state p, N} \<inter> {qwen3ParserStateLookingForThinkingOpen, qwen3ParserStateThinkingStartedEatingWhitespace} = {}" for N
  proof -
    have "p' = q3_enter p (q3_state p) N (q3_buffer p)"
      using that(1) e by (auto simp: q3_eating_def q3_eatLeadingWhitespaceAndTransitionTo_def q3_enter_def Let_def split: if_splits)
    with inv v that(2) show ?thesis by (simp add: q3_inv_enter)
  qed
  show ?thesis
  proof (cases "q3_state p")
    case qwen3ParserStateCollectingThinking
    note c = q3_eat_collecting [OF this bol]
    show ?thesis
    proof (cases rule: q3_thinking_cases [of p])
      case (tool a b)
      then show ?thesis using e c q3_thinking_tool [OF tool] valid_cut [OF v _ tool(2)] inv by (auto intro: q3_inv_enter)
    next
      case (close a b)
      then show ?thesis using e c q3_thinking_close [OF close] valid_cut [OF v _ close(2)] inv by (auto intro: q3_inv_enter)
    next
      case (hold out keep)
      then show ?thesis using e c q3_thinking_hold [OF hold] hold2_valid [OF v q3_good_tags(1,2) hold(3)] inv
        by (auto simp: q3_inv_def)
    qed
  next
    case qwen3ParserStateCollectingContent
    note c = this
    show ?thesis
    proof (cases "cut (q3_buffer p) qwen3ToolOpenTag")
      case (Some ab)
      then obtain a b where ab: "cut (q3_buffer p) qwen3ToolOpenTag = Some (a, b)" by (cases ab) auto
      then show ?thesis using e q3_content_tool [OF c ab] valid_cut [OF v _ ab] inv by (auto intro: q3_inv_enter)
    next
      case None
      then have n: "\<not> contains (q3_buffer p) qwen3ToolOpenTag" by (simp add: cut_None_iff)
      obtain out keep where hold: "hold_split (q3_buffer p) (overlap (q3_buffer p) qwen3ToolOpenTag) = (out, keep)" by force
      then show ?thesis using e q3_content_hold [OF c n hold] hold_valid [OF v q3_good_tags(2) hold] inv
        by (auto simp: q3_inv_def)
    qed
  next
    case qwen3ParserStateCollectingToolContent
    note c = this
    show ?thesis
    proof (cases "cut (q3_buffer p) qwen3ToolCloseTag")
      case (Some ab)
      then obtain a b where ab: "cut (q3_buffer p) qwen3ToolCloseTag = Some (a, b)" by (cases ab) auto
      then show ?thesis using e q3_tool_close [OF c ab] valid_cut [OF v _ ab] inv
        by (auto simp: q3_inv_def trim_left_valid)
    next
      case None
      then show ?thesis using e q3_tool_wait [OF c] inv by (simp add: cut_None_iff)
    qed
  qed (use inv q3_eatings eating in \<open>auto simp: q3_inv_def\<close>)
qed

interpretation q3: streaming_upto q3_eat q3_inv q3_msr q3_put valid_utf8 q3_obs q3_comb q3_rel
proof unfold_locales
  fix p y es p' m
  assume inv: "q3_inv p" and y: "valid_utf8 y" and e: "q3_eat p = (es, p', m)"
  have v: "valid_utf8 (q3_buffer p)" and bol: "\<not> q3_maybeThinkingOpenAtBOL p" using inv by (simp_all add: q3_inv_def)
  have id: "same_obs q3_rel r r" for r by (cases r) (auto simp: same_obs_def)
  show "same_obs q3_rel (q3_observe (q3_put p y)) (after_obs q3_comb (q3_obs es) (q3_observe (q3_put p' y)))"
  proof (cases "q3_state p")
    case qwen3ParserStateCollectingThinking
    then show ?thesis using q3_more_thinking [OF _ bol v y e] id by simp
  next
    case qwen3ParserStateThinkingDoneEatingWhitespace
    then show ?thesis using q3_more_eating [OF q3_eatings(1) _ v e] id by simp
  next
    case qwen3ParserStateCollectingContent
    then show ?thesis using q3_more_content [OF _ v y e] id by simp
  next
    case qwen3ParserStateToolStartedEatingWhitespace
    then show ?thesis using q3_more_eating [OF q3_eatings(2) _ v e] id by simp
  next
    case qwen3ParserStateCollectingToolContent
    then show ?thesis using q3_more_tool [OF _ v y e] by simp
  qed (use inv in \<open>auto simp: q3_inv_def\<close>)
qed (auto intro: q3_inv_step q3_eat_msr q3_rel_transp simp: q3_obs_append, auto simp: q3_put_def q3_inv_def)

text \<open>The events of one call of \<open>Add\<close>, as a caller sees them.\<close>

definition q3_see :: "Qwen3Parser \<Rightarrow> string \<Rightarrow> (qwen3_obs \<times> Qwen3Parser) option" where
  "q3_see p s = map_option (apfst q3_obs) (q3_parseEvents (q3_put p s))"

lemma q3_see_observe: "q3_see p s = q3_observe (q3_put p s)"
  by (simp add: q3_see_def q3_parseEvents_def observe_def)



definition qwen3_thinking :: "string \<Rightarrow> bool \<Rightarrow> Qwen3Parser" where
  "qwen3_thinking buf bol = \<lparr>q3_state = qwen3ParserStateCollectingThinking, q3_buffer = buf, q3_tools = [], q3_callIndex = 0,
     q3_hasThinkingSupport = True, q3_defaultThinking = True, q3_maybeThinkingOpenAtBOL = bol\<rparr>"

text \<open>More than one opening tag can be removed.  When the text is cut right after an opening tag, the
  check for one stays armed, and a second opening tag is removed too; in one chunk it is thinking.\<close>

theorem qwen3_opening_tag_stripped_twice:
  "map_option fst (run_chunks q3_see q3_comb (qwen3_thinking [] True) ''<think>'' [''<think>a'']) = Some (Some (''a'', [], [])) \<and>
   map_option fst (q3_see (qwen3_thinking [] True) ''<think><think>a'') = Some (Some (''<think>a'', [], []))"
proof -
  have hold: "q3_eat (qwen3_thinking s False) = ([qwen3EventThinkingContent s], qwen3_thinking [] False, False)"
    if s: "s \<in> {''a'', ''<think>a''}" for s
  proof -
    have "\<not> contains s qwen3ToolOpenTag" "\<not> contains s qwen3ThinkingCloseTag"
      using s by (auto simp: contains_def qwen3ToolOpenTag_def qwen3ThinkingCloseTag_def has_prefix_def)
    moreover have "overlap s qwen3ThinkingCloseTag = 0" "overlap s qwen3ToolOpenTag = 0"
      using s by (auto simp: overlap_def has_suffix_def qwen3ThinkingCloseTag_def qwen3ToolOpenTag_def numeral_eq_Suc)
    moreover have "trim_right s = s" using s by (auto simp: trim_right_ascii is_space_def)
    ultimately show ?thesis
      using q3_thinking_hold [of "qwen3_thinking s False" s "[]"] s
      by (auto simp: qwen3_thinking_def hold_split_0 q3_eat_collecting emit_if_def)
  qed
  have strip: "q3_eat (qwen3_thinking ''<think>'' True) = ([], qwen3_thinking [] True, False)"
     "q3_eat (qwen3_thinking ''<think>a'' True) = ([], qwen3_thinking ''a'' False, True)"
     "q3_eat (qwen3_thinking ''<think><think>a'' True) = ([], qwen3_thinking ''<think>a'' False, True)"
    by (simp_all add: q3_eat_def qwen3_thinking_def Let_def qwen3ThinkingOpenTag_def has_prefix_def trim_prefix_def str_simps is_space_def)
  have put: "q3_put (qwen3_thinking [] b) s = qwen3_thinking s b" for b s by (simp add: q3_put_def qwen3_thinking_def)
  show ?thesis
    by (simp add: q3_see_observe put q3_observe_stop [OF strip(1)] q3_observe_more [OF strip(2)] q3_observe_more [OF strip(3)]
     q3_observe_stop [OF hold] after_obs_def)
qed

end
