(* ===== verification/DeepSeek3.thy ===== *)
theory DeepSeek3
  imports ParserCommon
begin

text \<open>
  \<open>model/parsers/deepseek3.go\<close>: thinking, content, tool calls and tool output of the DeepSeek V3 models.
  The tags are written with the characters U+FF5C and U+2581, here in their UTF-8 encoding.  Decoding
  the arguments of a call is the argument \<open>unmarshal\<close>.
\<close>

section \<open>Model\<close>

datatype DeepSeek3ParserState =
    DeepSeekCollectingThinking
  | DeepSeekCollectingContent
  | DeepSeekCollectingToolCalls
  | DeepSeekCollectingToolOutput

definition deepseekThinkingOpenTag :: string where
  "deepseekThinkingOpenTag = ''<think>''"
definition deepseekThinkingCloseTag :: string where
  "deepseekThinkingCloseTag = ''</think>''"
definition deepseekToolCallsBeginTag :: string where
  "deepseekToolCallsBeginTag = ''<'' @ wide_bar @ ''tool'' @ low_block @ ''calls'' @ low_block @ ''begin'' @ wide_bar @ ''>''"
definition deepseekToolCallsEndTag :: string where
  "deepseekToolCallsEndTag = ''<'' @ wide_bar @ ''tool'' @ low_block @ ''calls'' @ low_block @ ''end'' @ wide_bar @ ''>''"
definition deepseekToolCallBeginTag :: string where
  "deepseekToolCallBeginTag = ''<'' @ wide_bar @ ''tool'' @ low_block @ ''call'' @ low_block @ ''begin'' @ wide_bar @ ''>''"
definition deepseekToolCallEndTag :: string where
  "deepseekToolCallEndTag = ''<'' @ wide_bar @ ''tool'' @ low_block @ ''call'' @ low_block @ ''end'' @ wide_bar @ ''>''"
definition deepseekToolSepTag :: string where
  "deepseekToolSepTag = ''<'' @ wide_bar @ ''tool'' @ low_block @ ''sep'' @ wide_bar @ ''>''"
definition deepseekToolOutputBeginTag :: string where
  "deepseekToolOutputBeginTag = ''<'' @ wide_bar @ ''tool'' @ low_block @ ''output'' @ low_block @ ''begin'' @ wide_bar @ ''>''"
definition deepseekToolOutputEndTag :: string where
  "deepseekToolOutputEndTag = ''<'' @ wide_bar @ ''tool'' @ low_block @ ''output'' @ low_block @ ''end'' @ wide_bar @ ''>''"

record DeepSeek3Parser =
  ds_state :: DeepSeek3ParserState
  ds_buffer :: string
  ds_callIndex :: nat
  ds_hasThinkingSupport :: bool

datatype 'args deepseekEvent =
    deepseekEventThinkingContent string
  | deepseekEventContent string
  | deepseekEventToolCall "'args api_tool_call"

definition ds_HasToolSupport :: "DeepSeek3Parser \<Rightarrow> bool" where
  "ds_HasToolSupport p = True"

definition ds_HasThinkingSupport :: "DeepSeek3Parser \<Rightarrow> bool" where
  "ds_HasThinkingSupport p = ds_hasThinkingSupport p"

definition ds_ThinkingClose :: "DeepSeek3Parser \<Rightarrow> string list" where
  "ds_ThinkingClose p = (if ds_state p = DeepSeekCollectingThinking then [deepseekThinkingCloseTag] else [])"

definition ds_ThinkingTags :: "DeepSeek3Parser \<Rightarrow> string \<times> string" where
  "ds_ThinkingTags p = (deepseekThinkingOpenTag, deepseekThinkingCloseTag)"

definition ds_PreservedTokens :: "DeepSeek3Parser \<Rightarrow> string list" where
  "ds_PreservedTokens p =
     [deepseekThinkingCloseTag, deepseekToolCallsBeginTag, deepseekToolCallsEndTag, deepseekToolCallBeginTag,
      deepseekToolCallEndTag, deepseekToolSepTag, deepseekToolOutputBeginTag, deepseekToolOutputEndTag]"

definition ds_setInitialState ::
  "DeepSeek3Parser \<Rightarrow> api_message option \<Rightarrow> think_value option \<Rightarrow> DeepSeek3Parser" where
  "ds_setInitialState p last_message think =
     (let thinkingEnabled = ds_HasThinkingSupport p \<and> think \<noteq> None \<and> think_Bool think in
      if \<not> thinkingEnabled then p\<lparr>ds_state := DeepSeekCollectingContent\<rparr>
      else if prefilled last_message then p\<lparr>ds_state := DeepSeekCollectingContent\<rparr>
      else p\<lparr>ds_state := DeepSeekCollectingThinking\<rparr>)"

definition ds_Init ::
  "DeepSeek3Parser \<Rightarrow> 'tool list \<Rightarrow> api_message option \<Rightarrow> think_value option \<Rightarrow> 'tool list \<times> DeepSeek3Parser" where
  "ds_Init p tools last_message think =
     (tools, ds_setInitialState (p\<lparr>ds_callIndex := 0\<rparr>) last_message think)"

definition ds_parseToolCallContent :: "(string \<Rightarrow> 'args option) \<Rightarrow> string \<Rightarrow> 'args api_tool_call option" where
  "ds_parseToolCallContent unmarshal content =
     (case cut content deepseekToolSepTag of
        None \<Rightarrow> None
      | Some (name, rest) \<Rightarrow>
          (case unmarshal (trim_space rest) of
             None \<Rightarrow> None
           | Some args \<Rightarrow> Some \<lparr>tc_Index = 0, tc_Name = trim_space name, tc_Arguments = args\<rparr>))"

text \<open>A complete, well-formed call in the buffer: the call and what follows it.\<close>

definition ds_next_call :: "(string \<Rightarrow> 'args option) \<Rightarrow> string \<Rightarrow> ('args api_tool_call \<times> string) option" where
  "ds_next_call unmarshal bufStr =
     (case index bufStr deepseekToolCallBeginTag of
        None \<Rightarrow> None
      | Some idx \<Rightarrow>
          (let startIdx = idx + length deepseekToolCallBeginTag in
           case index (drop startIdx bufStr) deepseekToolCallEndTag of
             None \<Rightarrow> None
           | Some endIdx \<Rightarrow>
               map_option (\<lambda>toolCall. (toolCall,
                   trim_left (drop (startIdx + endIdx + length deepseekToolCallEndTag) bufStr)))
                 (ds_parseToolCallContent unmarshal (take endIdx (drop startIdx bufStr)))))"

definition ds_eat ::
  "(string \<Rightarrow> 'args option) \<Rightarrow> DeepSeek3Parser \<Rightarrow> 'args deepseekEvent list \<times> DeepSeek3Parser \<times> bool" where
  "ds_eat unmarshal p =
     (let bufStr = ds_buffer p in
      if bufStr = [] then ([], p, False)
      else case ds_state p of
        DeepSeekCollectingThinking \<Rightarrow>
          (case cut bufStr deepseekThinkingCloseTag of
             Some (thinking, remaining) \<Rightarrow>
               (emit_if deepseekEventThinkingContent (trim_right thinking),
                p\<lparr>ds_buffer := trim_left remaining, ds_state := DeepSeekCollectingContent\<rparr>, True)
           | None \<Rightarrow>
               (case hold_emit deepseekEventThinkingContent bufStr (overlap bufStr deepseekThinkingCloseTag) of
                  (events, ambiguous) \<Rightarrow> (events, p\<lparr>ds_buffer := ambiguous\<rparr>, False)))
      | DeepSeekCollectingContent \<Rightarrow>
          (case cut bufStr deepseekToolCallsBeginTag of
             Some (contentBefore, remaining) \<Rightarrow>
               (emit_if deepseekEventContent (trim_right contentBefore),
                p\<lparr>ds_buffer := remaining, ds_state := DeepSeekCollectingToolCalls\<rparr>, True)
           | None \<Rightarrow>
               (case cut bufStr deepseekToolOutputBeginTag of
                  Some (contentBefore, remaining) \<Rightarrow>
                    (emit_if deepseekEventContent contentBefore,
                     p\<lparr>ds_buffer := remaining, ds_state := DeepSeekCollectingToolOutput\<rparr>, True)
                | None \<Rightarrow> (emit_if deepseekEventContent bufStr, p\<lparr>ds_buffer := []\<rparr>, False)))
      | DeepSeekCollectingToolCalls \<Rightarrow>
          (case ds_next_call unmarshal bufStr of
             Some (toolCall, remaining) \<Rightarrow> ([deepseekEventToolCall toolCall], p\<lparr>ds_buffer := remaining\<rparr>, True)
           | None \<Rightarrow>
               (case index bufStr deepseekToolCallsEndTag of
                  Some idx \<Rightarrow>
                    ([], p\<lparr>ds_buffer := trim_left (drop (idx + length deepseekToolCallsEndTag) bufStr),
                          ds_state := DeepSeekCollectingContent\<rparr>, True)
                | None \<Rightarrow> ([], p, False)))
      | DeepSeekCollectingToolOutput \<Rightarrow>
          (case index bufStr deepseekToolOutputEndTag of
             Some idx \<Rightarrow>
               (emit_if deepseekEventContent (take idx bufStr),
                p\<lparr>ds_buffer := drop (idx + length deepseekToolOutputEndTag) bufStr,
                  ds_state := DeepSeekCollectingContent\<rparr>, True)
           | None \<Rightarrow> ([], p, False)))"

definition ds_parseEvents ::
  "(string \<Rightarrow> 'args option) \<Rightarrow> DeepSeek3Parser \<Rightarrow> ('args deepseekEvent list \<times> DeepSeek3Parser) option" where
  "ds_parseEvents unmarshal p = drain (ds_eat unmarshal) p"

text \<open>The loop of \<open>Add\<close> over the events, and the numbering of the calls.\<close>

fun ds_collect :: "'args deepseekEvent list \<Rightarrow> string \<times> string \<times> 'args api_tool_call list" where
  "ds_collect [] = ([], [], [])"
| "ds_collect (deepseekEventToolCall toolCall # es) = (case ds_collect es of (c, t, calls) \<Rightarrow> (c, t, toolCall # calls))"
| "ds_collect (deepseekEventThinkingContent s # es) = (case ds_collect es of (c, t, calls) \<Rightarrow> (c, s @ t, calls))"
| "ds_collect (deepseekEventContent s # es) = (case ds_collect es of (c, t, calls) \<Rightarrow> (s @ c, t, calls))"

definition ds_Add ::
  "(string \<Rightarrow> 'args option) \<Rightarrow> DeepSeek3Parser \<Rightarrow> string \<Rightarrow> bool \<Rightarrow>
     ((string \<times> string \<times> 'args api_tool_call list) \<times> DeepSeek3Parser) option" where
  "ds_Add unmarshal p s don =
     map_option (\<lambda>(events, p).
         case ds_collect events of (content, thinking, toolCalls) \<Rightarrow>
           ((content, thinking, number_calls (ds_callIndex p) toolCalls),
            p\<lparr>ds_callIndex := ds_callIndex p + length toolCalls\<rparr>))
       (ds_parseEvents unmarshal (p\<lparr>ds_buffer := ds_buffer p @ s\<rparr>))"

section \<open>Termination\<close>

lemma ds_tags [simp]:
  "deepseekThinkingCloseTag \<noteq> []" "deepseekToolCallsBeginTag \<noteq> []" "deepseekToolCallsEndTag \<noteq> []"
  "deepseekToolCallBeginTag \<noteq> []" "deepseekToolCallEndTag \<noteq> []" "deepseekToolSepTag \<noteq> []"
  "deepseekToolOutputBeginTag \<noteq> []" "deepseekToolOutputEndTag \<noteq> []"
  by (simp_all add: deepseekThinkingCloseTag_def deepseekToolCallsBeginTag_def deepseekToolCallsEndTag_def
      deepseekToolCallBeginTag_def deepseekToolCallEndTag_def deepseekToolSepTag_def
      deepseekToolOutputBeginTag_def deepseekToolOutputEndTag_def)

lemma ds_next_call_length: "ds_next_call unmarshal s = Some (c, r) \<Longrightarrow> length r < length s"
  by (auto simp: ds_next_call_def Let_def split: option.splits dest: trim_drop_more_length)

interpretation ds_loop: draining "ds_eat unmarshal" "\<lambda>_. True" "\<lambda>p. length (ds_buffer p)" for unmarshal
  by unfold_locales
    (auto simp: ds_eat_def Let_def split: if_splits DeepSeek3ParserState.splits option.splits prod.splits
      dest: cut_after_length cut_after_trim_length ds_next_call_length trim_drop_length drop_tag_length)

text \<open>\<open>Add\<close> of the DeepSeek parser returns for every state, text and decoder.\<close>

theorem deepseek3_add_returns: "\<exists>result p'. ds_Add unmarshal p s don = Some (result, p')"
proof -
  obtain es t where "drain (ds_eat unmarshal) (p\<lparr>ds_buffer := ds_buffer p @ s\<rparr>) = Some (es, t)"
    using ds_loop.drain_total by blast
  then show ?thesis by (cases "ds_collect es") (simp add: ds_Add_def ds_parseEvents_def)
qed

section \<open>A whole answer\<close>

text \<open>The text of an answer as the model writes it.\<close>

definition ds_render_call :: "string \<times> string \<Rightarrow> string" where
  "ds_render_call c = deepseekToolCallBeginTag @ fst c @ deepseekToolSepTag @ snd c @ deepseekToolCallEndTag"

definition ds_render :: "string \<Rightarrow> string \<Rightarrow> (string \<times> string) list \<Rightarrow> string" where
  "ds_render thinking content calls =
     thinking @ deepseekThinkingCloseTag @ content @ deepseekToolCallsBeginTag @
       concat (map ds_render_call calls) @ deepseekToolCallsEndTag"

text \<open>The calls that can be written: no tag inside, and the arguments decode.\<close>

definition ds_writable :: "(string \<Rightarrow> 'args option) \<Rightarrow> string \<times> string \<Rightarrow> bool" where
  "ds_writable unmarshal c \<longleftrightarrow>
     ends_at (fst c) deepseekToolSepTag \<and> ends_at (fst c @ deepseekToolSepTag @ snd c) deepseekToolCallEndTag \<and>
     unmarshal (trim_space (snd c)) \<noteq> None"

definition ds_call :: "(string \<Rightarrow> 'args option) \<Rightarrow> string \<times> string \<Rightarrow> 'args api_tool_call" where
  "ds_call unmarshal c = \<lparr>tc_Index = 0, tc_Name = trim_space (fst c), tc_Arguments = the (unmarshal (trim_space (snd c)))\<rparr>"

lemma ds_trim_tag [simp]:
  "trim_left (deepseekToolCallBeginTag @ s) = deepseekToolCallBeginTag @ s"
  "trim_left deepseekToolCallsEndTag = deepseekToolCallsEndTag"
  "trim_left (deepseekToolCallsBeginTag @ s) = deepseekToolCallsBeginTag @ s"
  by (simp_all add: deepseekToolCallBeginTag_def deepseekToolCallsEndTag_def deepseekToolCallsBeginTag_def
      trim_left_ascii is_space_def)

lemma ds_next_call_render:
  assumes "ds_writable unmarshal c" "trim_left r = r"
  shows "ds_next_call unmarshal (ds_render_call c @ r) = Some (ds_call unmarshal c, r)"
proof -
  let ?body = "fst c @ deepseekToolSepTag @ snd c" and ?s = "ds_render_call c @ r"
  have s: "?s = deepseekToolCallBeginTag @ ?body @ deepseekToolCallEndTag @ r" by (simp add: ds_render_call_def)
  have "index ?s deepseekToolCallBeginTag = Some 0" unfolding s by (rule index_at_start)
  moreover have "index (?body @ deepseekToolCallEndTag @ r) deepseekToolCallEndTag = Some (length ?body)"
    using assms(1) by (intro ends_at_index) (simp add: ds_writable_def)
  moreover have "cut ?body deepseekToolSepTag = Some (fst c, snd c)"
    using assms(1) by (intro ends_at_cut) (simp add: ds_writable_def)
  ultimately show ?thesis
    using assms by (auto simp: ds_next_call_def s ds_parseToolCallContent_def ds_call_def ds_writable_def simp del: append_assoc
      split: prod.split)
qed

lemma ds_drain_calls:
  assumes "list_all (ds_writable unmarshal) calls" "ds_state p = DeepSeekCollectingToolCalls"
    and "ds_buffer p = concat (map ds_render_call calls) @ deepseekToolCallsEndTag"
  shows "drain (ds_eat unmarshal) p =
    Some (map (\<lambda>c. deepseekEventToolCall (ds_call unmarshal c)) calls,
      p\<lparr>ds_state := DeepSeekCollectingContent, ds_buffer := []\<rparr>)"
  using assms
proof (induction calls arbitrary: p)
  case Nil
  have "index deepseekToolCallsEndTag deepseekToolCallBeginTag = None"
    by (simp add: deepseekToolCallsEndTag_def deepseekToolCallBeginTag_def low_block_def wide_bar_def has_prefix_def)
  then have "ds_next_call unmarshal deepseekToolCallsEndTag = None" by (simp add: ds_next_call_def)
  moreover have "index deepseekToolCallsEndTag deepseekToolCallsEndTag = Some 0"
    using index_at_start [of deepseekToolCallsEndTag "[]"] by simp
  ultimately have "ds_eat unmarshal p = ([], p\<lparr>ds_buffer := [], ds_state := DeepSeekCollectingContent\<rparr>, True)"
    using Nil by (simp add: ds_eat_def Let_def)
  moreover have "ds_eat unmarshal (p\<lparr>ds_buffer := [], ds_state := DeepSeekCollectingContent\<rparr>) =
      ([], p\<lparr>ds_buffer := [], ds_state := DeepSeekCollectingContent\<rparr>, False)"
    by (simp add: ds_eat_def)
  ultimately show ?case by (simp add: drain_more drain_stop)
next
  case (Cons c calls)
  let ?r = "concat (map ds_render_call calls) @ deepseekToolCallsEndTag"
  have r: "trim_left ?r = ?r" by (cases calls) (simp_all add: ds_render_call_def)
  have w: "ds_writable unmarshal c" "list_all (ds_writable unmarshal) calls" using Cons.prems by auto
  have "ds_buffer p \<noteq> []" using Cons.prems(3) by simp
  then have "ds_eat unmarshal p = ([deepseekEventToolCall (ds_call unmarshal c)], p\<lparr>ds_buffer := ?r\<rparr>, True)"
    using ds_next_call_render [OF w(1) r] Cons.prems by (simp add: ds_eat_def Let_def)
  then show ?case
    using Cons.IH [OF w(2), of "p\<lparr>ds_buffer := ?r\<rparr>"] Cons.prems(2) by (simp add: drain_more)
qed

lemma ds_collect_append:
  "ds_collect (es @ fs) = (case ds_collect es of (c, t, cs) \<Rightarrow> case ds_collect fs of (c', t', cs') \<Rightarrow> (c @ c', t @ t', cs @ cs'))"
  by (induction es rule: ds_collect.induct) (auto split: prod.split)

lemma ds_collect_emit [simp]:
  "ds_collect (emit_if deepseekEventThinkingContent s) = ([], s, [])"
  "ds_collect (emit_if deepseekEventContent s) = (s, [], [])"
  by (simp_all add: emit_if_def)

lemma ds_collect_calls: "ds_collect (map (\<lambda>c. deepseekEventToolCall (f c)) cs) = ([], [], map f cs)"
  by (induction cs) auto

text \<open>C22: the parser reads back an answer the way the model writes it.  For a thinking text, a content and
  a list of calls whose texts do not run into the tags, one call of \<open>Add\<close> with the whole answer returns
  the thinking and the content without white space at the end, and exactly the calls, in order, with
  trimmed names, decoded arguments and consecutive indices, and it leaves nothing in the buffer.\<close>

theorem deepseek3_reads_answer:
  assumes "ends_at thinking deepseekThinkingCloseTag" "ends_at content deepseekToolCallsBeginTag"
    and "valid_utf8 content" "trim_left content = content" "list_all (ds_writable unmarshal) calls"
  shows "ds_Add unmarshal \<lparr>ds_state = DeepSeekCollectingThinking, ds_buffer = [], ds_callIndex = n, ds_hasThinkingSupport = True\<rparr>
      (ds_render thinking content calls) don =
    Some ((trim_right content, trim_right thinking, number_calls n (map (ds_call unmarshal) calls)),
      \<lparr>ds_state = DeepSeekCollectingContent, ds_buffer = [], ds_callIndex = n + length calls, ds_hasThinkingSupport = True\<rparr>)"
proof -
  let ?tail = "concat (map ds_render_call calls) @ deepseekToolCallsEndTag"
  let ?rest = "content @ deepseekToolCallsBeginTag @ ?tail"
  let ?p = "\<lambda>st b. \<lparr>ds_state = st, ds_buffer = b, ds_callIndex = n, ds_hasThinkingSupport = True\<rparr>"
  have rest: "trim_left ?rest = ?rest"
    using assms(3,4) by (simp add: trim_left_append)
  have "ds_eat unmarshal (?p DeepSeekCollectingThinking (ds_render thinking content calls)) =
      (emit_if deepseekEventThinkingContent (trim_right thinking), ?p DeepSeekCollectingContent ?rest, True)"
    using ends_at_cut [OF assms(1), of ?rest] rest by (simp add: ds_eat_def Let_def ds_render_def)
  moreover have "ds_eat unmarshal (?p DeepSeekCollectingContent ?rest) =
      (emit_if deepseekEventContent (trim_right content), ?p DeepSeekCollectingToolCalls ?tail, True)"
    using ends_at_cut [OF assms(2), of ?tail] by (simp add: ds_eat_def Let_def)
  ultimately have "drain (ds_eat unmarshal) (?p DeepSeekCollectingThinking (ds_render thinking content calls)) =
    Some (emit_if deepseekEventThinkingContent (trim_right thinking) @ emit_if deepseekEventContent (trim_right content) @
        map (\<lambda>c. deepseekEventToolCall (ds_call unmarshal c)) calls, ?p DeepSeekCollectingContent [])"
    using ds_drain_calls [OF assms(5), of "?p DeepSeekCollectingToolCalls ?tail"] by (simp add: drain_more)
  then show ?thesis
    by (simp add: ds_Add_def ds_parseEvents_def ds_collect_append ds_collect_calls)
qed

text \<open>Content is returned without looking for the beginning of a tag at its end: when the tag that
  opens the tool calls is cut in two, its first part is returned as content, and the calls that follow
  are returned as content too instead of being parsed.\<close>

theorem deepseek3_split_tag_lost:
  assumes "ds_state p = DeepSeekCollectingContent" "ds_buffer p = []"
    and "\<not> contains (drop 4 deepseekToolCallsBeginTag @ rest) deepseekToolCallsBeginTag"
    and "\<not> contains (drop 4 deepseekToolCallsBeginTag @ rest) deepseekToolOutputBeginTag"
  shows "\<exists>q q'. ds_Add unmarshal p (take 4 deepseekToolCallsBeginTag) False =
      Some ((take 4 deepseekToolCallsBeginTag, [], []), q) \<and>
    ds_Add unmarshal q (drop 4 deepseekToolCallsBeginTag @ rest) True =
      Some ((drop 4 deepseekToolCallsBeginTag @ rest, [], []), q')"
proof -
  have add: "ds_Add unmarshal p s don = Some ((s, [], []), p)"
    if "\<not> contains s deepseekToolCallsBeginTag" "\<not> contains s deepseekToolOutputBeginTag" for s don
  proof -
    have "ds_eat unmarshal (p\<lparr>ds_buffer := s\<rparr>) = (emit_if deepseekEventContent s, p, False)"
      using that assms(1,2) cut_None_iff [of s deepseekToolCallsBeginTag] cut_None_iff [of s deepseekToolOutputBeginTag]
      by (auto simp: ds_eat_def Let_def)
    then show ?thesis using assms(2) by (simp add: ds_Add_def ds_parseEvents_def drain_stop)
  qed
  have "\<not> contains (take 4 deepseekToolCallsBeginTag) deepseekToolCallsBeginTag"
    "\<not> contains (take 4 deepseekToolCallsBeginTag) deepseekToolOutputBeginTag"
    by (auto dest!: contains_length simp: deepseekToolCallsBeginTag_def deepseekToolOutputBeginTag_def wide_bar_def low_block_def)
  with add assms(3,4) show ?thesis by blast
qed

theorem deepseek3_split_tag_lost_witness:
  "\<exists>q q'. ds_Add Some \<lparr>ds_state = DeepSeekCollectingContent, ds_buffer = [], ds_callIndex = 0, ds_hasThinkingSupport = True\<rparr>
      (take 4 deepseekToolCallsBeginTag) False = Some ((take 4 deepseekToolCallsBeginTag, [], []), q) \<and>
    ds_Add Some q (drop 4 deepseekToolCallsBeginTag @ ''f'') True =
      Some ((drop 4 deepseekToolCallsBeginTag @ ''f'', [], []), q')"
  by (rule deepseek3_split_tag_lost)
    (simp_all add: contains_def deepseekToolCallsBeginTag_def deepseekToolOutputBeginTag_def wide_bar_def low_block_def
      has_prefix_def)

theorem deepseek3_reads_answer_witness:
  "ds_Add Some \<lparr>ds_state = DeepSeekCollectingThinking, ds_buffer = [], ds_callIndex = 0, ds_hasThinkingSupport = True\<rparr>
      (ds_render ''hm'' ''ok '' [('' f'', ''{}'')]) True =
    Some ((trim_right ''ok '', trim_right ''hm'', number_calls 0 (map (ds_call Some) [('' f'', ''{}'')])),
      \<lparr>ds_state = DeepSeekCollectingContent, ds_buffer = [], ds_callIndex = 0 + length [('' f'', ''{}'')], ds_hasThinkingSupport = True\<rparr>)"
  by (rule deepseek3_reads_answer)
    (simp_all add: ends_at_def ds_writable_def deepseekThinkingCloseTag_def deepseekToolCallsBeginTag_def deepseekToolSepTag_def
      deepseekToolCallEndTag_def wide_bar_def low_block_def has_prefix_def valid_utf8_asciiI trim_left_ascii is_space_def)

end
