(* ===== verification/Cogito.thy ===== *)
theory Cogito
  imports ParserCommon
begin

text \<open>
  \<open>model/parsers/cogito.go\<close>: thinking, content and tool calls of the Cogito models; tool outputs are
  skipped.  The arguments of a call come in a fenced JSON block; decoding them is \<open>unmarshal\<close>.
\<close>

section \<open>Model\<close>

datatype CogitoParserState =
    CogitoCollectingThinking
  | CogitoCollectingContent
  | CogitoCollectingToolCalls
  | CogitoCollectingToolOutput

definition cogito_tag :: "string \<Rightarrow> string \<Rightarrow> string" where
  "cogito_tag a b = ''<'' @ wide_bar @ ''tool'' @ low_block @ a @ (if b = [] then [] else low_block @ b) @ wide_bar @ ''>''"

definition cogitoThinkingOpenTag :: string where "cogitoThinkingOpenTag = ''<think>''"
definition cogitoThinkingCloseTag :: string where "cogitoThinkingCloseTag = ''</think>''"
definition cogitoToolCallsBeginTag :: string where "cogitoToolCallsBeginTag = cogito_tag ''calls'' ''begin''"
definition cogitoToolCallsEndTag :: string where "cogitoToolCallsEndTag = cogito_tag ''calls'' ''end''"
definition cogitoToolCallBeginTag :: string where "cogitoToolCallBeginTag = cogito_tag ''call'' ''begin''"
definition cogitoToolCallEndTag :: string where "cogitoToolCallEndTag = cogito_tag ''call'' ''end''"
definition cogitoToolSepTag :: string where "cogitoToolSepTag = cogito_tag ''sep'' []"
definition cogitoToolOutputBeginTag :: string where "cogitoToolOutputBeginTag = cogito_tag ''output'' ''begin''"
definition cogitoToolOutputEndTag :: string where "cogitoToolOutputEndTag = cogito_tag ''output'' ''end''"
definition cogitoToolOutputsBeginTag :: string where "cogitoToolOutputsBeginTag = cogito_tag ''outputs'' ''begin''"
definition cogitoToolOutputsEndTag :: string where "cogitoToolOutputsEndTag = cogito_tag ''outputs'' ''end''"

text \<open>The fences around the arguments: a line break, three back quotes (and \<open>json\<close> and a line break).\<close>

definition cogito_fence_end :: string where
  "cogito_fence_end = [CHR 0x0A, CHR 0x60, CHR 0x60, CHR 0x60]"

definition cogito_fence_json :: string where
  "cogito_fence_json = cogito_fence_end @ ''json'' @ [CHR 0x0A]"

record CogitoParser =
  cg_state :: CogitoParserState
  cg_buffer :: string
  cg_callIndex :: nat

datatype 'args cogitoEvent =
    cogitoEventThinkingContent string
  | cogitoEventContent string
  | cogitoEventToolCall "'args api_tool_call"

definition cg_HasToolSupport :: "CogitoParser \<Rightarrow> bool" where
  "cg_HasToolSupport p = True"

definition cg_HasThinkingSupport :: "CogitoParser \<Rightarrow> bool" where
  "cg_HasThinkingSupport p = True"

definition cg_ThinkingClose :: "CogitoParser \<Rightarrow> string list" where
  "cg_ThinkingClose p = (if cg_state p = CogitoCollectingThinking then [cogitoThinkingCloseTag] else [])"

definition cg_ThinkingTags :: "CogitoParser \<Rightarrow> string \<times> string" where
  "cg_ThinkingTags p = (cogitoThinkingOpenTag, cogitoThinkingCloseTag)"

definition cg_PreservedTokens :: "CogitoParser \<Rightarrow> string list" where
  "cg_PreservedTokens p =
     [cogitoThinkingCloseTag, cogitoToolCallsBeginTag, cogitoToolCallsEndTag, cogitoToolCallBeginTag,
      cogitoToolCallEndTag, cogitoToolSepTag, cogitoToolOutputBeginTag, cogitoToolOutputEndTag,
      cogitoToolOutputsBeginTag, cogitoToolOutputsEndTag]"

definition cg_setInitialState ::
  "CogitoParser \<Rightarrow> api_message option \<Rightarrow> 'tool list \<Rightarrow> think_value option \<Rightarrow> CogitoParser" where
  "cg_setInitialState p last_message tools think =
     (let thinkingEnabled = think \<noteq> None \<and> think_Bool think in
      if \<not> thinkingEnabled then p\<lparr>cg_state := CogitoCollectingContent\<rparr>
      else if prefilled last_message then p\<lparr>cg_state := CogitoCollectingContent\<rparr>
      else if length tools > 0 then p\<lparr>cg_state := CogitoCollectingContent\<rparr>
      else p\<lparr>cg_state := CogitoCollectingThinking\<rparr>)"

definition cg_Init ::
  "CogitoParser \<Rightarrow> 'tool list \<Rightarrow> api_message option \<Rightarrow> think_value option \<Rightarrow> 'tool list \<times> CogitoParser" where
  "cg_Init p tools last_message think =
     (tools, cg_setInitialState (p\<lparr>cg_callIndex := 0\<rparr>) last_message tools think)"

definition cg_parseToolCallContent :: "(string \<Rightarrow> 'args option) \<Rightarrow> string \<Rightarrow> 'args api_tool_call option" where
  "cg_parseToolCallContent unmarshal content =
     (case cut content cogitoToolSepTag of
        None \<Rightarrow> None
      | Some (_, nameAndArgs) \<Rightarrow>
          (case index nameAndArgs cogito_fence_json of
             None \<Rightarrow> None
           | Some jsonStart \<Rightarrow>
               (let toolName = trim_space (take jsonStart nameAndArgs);
                    jsonContent = drop (jsonStart + length cogito_fence_json) nameAndArgs
                in case index jsonContent cogito_fence_end of
                     None \<Rightarrow> None
                   | Some jsonEnd \<Rightarrow>
                       (case unmarshal (take jsonEnd jsonContent) of
                          None \<Rightarrow> None
                        | Some args \<Rightarrow> Some \<lparr>tc_Index = 0, tc_Name = toolName, tc_Arguments = args\<rparr>))))"

text \<open>A complete, well-formed call in the buffer: the call and what follows it.\<close>

definition cg_next_call :: "(string \<Rightarrow> 'args option) \<Rightarrow> string \<Rightarrow> ('args api_tool_call \<times> string) option" where
  "cg_next_call unmarshal bufStr =
     (case index bufStr cogitoToolCallBeginTag of
        None \<Rightarrow> None
      | Some idx \<Rightarrow>
          (let startIdx = idx + length cogitoToolCallBeginTag in
           case index (drop startIdx bufStr) cogitoToolCallEndTag of
             None \<Rightarrow> None
           | Some endIdx \<Rightarrow>
               map_option (\<lambda>toolCall. (toolCall,
                   trim_left (drop (startIdx + endIdx + length cogitoToolCallEndTag) bufStr)))
                 (cg_parseToolCallContent unmarshal (take endIdx (drop startIdx bufStr)))))"

text \<open>A complete tool output in the buffer: what follows it.\<close>

definition cg_next_output :: "string \<Rightarrow> string option" where
  "cg_next_output bufStr =
     (case index bufStr cogitoToolOutputBeginTag of
        None \<Rightarrow> None
      | Some idx \<Rightarrow>
          (let startIdx = idx + length cogitoToolOutputBeginTag in
           map_option (\<lambda>endIdx. trim_left (drop (startIdx + endIdx + length cogitoToolOutputEndTag) bufStr))
             (index (drop startIdx bufStr) cogitoToolOutputEndTag)))"

definition cg_eat ::
  "(string \<Rightarrow> 'args option) \<Rightarrow> CogitoParser \<Rightarrow> 'args cogitoEvent list \<times> CogitoParser \<times> bool" where
  "cg_eat unmarshal p =
     (let bufStr = cg_buffer p in
      if bufStr = [] then ([], p, False)
      else case cg_state p of
        CogitoCollectingThinking \<Rightarrow>
          (case cut bufStr cogitoThinkingCloseTag of
             Some (thinking, remaining) \<Rightarrow>
               (emit_if cogitoEventThinkingContent (trim_right thinking),
                p\<lparr>cg_buffer := trim_left remaining, cg_state := CogitoCollectingContent\<rparr>, True)
           | None \<Rightarrow>
               (case hold_emit cogitoEventThinkingContent bufStr (overlap bufStr cogitoThinkingCloseTag) of
                  (events, ambiguous) \<Rightarrow> (events, p\<lparr>cg_buffer := ambiguous\<rparr>, False)))
      | CogitoCollectingContent \<Rightarrow>
          (case cut bufStr cogitoToolCallsBeginTag of
             Some (contentBefore, remaining) \<Rightarrow>
               (emit_if cogitoEventContent (trim_right contentBefore),
                p\<lparr>cg_buffer := remaining, cg_state := CogitoCollectingToolCalls\<rparr>, True)
           | None \<Rightarrow>
               (case cut bufStr cogitoToolOutputsBeginTag of
                  Some (contentBefore, remaining) \<Rightarrow>
                    (emit_if cogitoEventContent (trim_right contentBefore),
                     p\<lparr>cg_buffer := remaining, cg_state := CogitoCollectingToolOutput\<rparr>, True)
                | None \<Rightarrow> (emit_if cogitoEventContent bufStr, p\<lparr>cg_buffer := []\<rparr>, False)))
      | CogitoCollectingToolCalls \<Rightarrow>
          (case cg_next_call unmarshal bufStr of
             Some (toolCall, remaining) \<Rightarrow> ([cogitoEventToolCall toolCall], p\<lparr>cg_buffer := remaining\<rparr>, True)
           | None \<Rightarrow>
               (case index bufStr cogitoToolCallsEndTag of
                  Some idx \<Rightarrow>
                    ([], p\<lparr>cg_buffer := trim_left (drop (idx + length cogitoToolCallsEndTag) bufStr),
                          cg_state := CogitoCollectingContent\<rparr>, True)
                | None \<Rightarrow> ([], p, False)))
      | CogitoCollectingToolOutput \<Rightarrow>
          (case cg_next_output bufStr of
             Some remaining \<Rightarrow> ([], p\<lparr>cg_buffer := remaining\<rparr>, True)
           | None \<Rightarrow>
               (case index bufStr cogitoToolOutputsEndTag of
                  Some idx \<Rightarrow>
                    ([], p\<lparr>cg_buffer := trim_left (drop (idx + length cogitoToolOutputsEndTag) bufStr),
                          cg_state := CogitoCollectingContent\<rparr>, True)
                | None \<Rightarrow> ([], p, False))))"

definition cg_parseEvents ::
  "(string \<Rightarrow> 'args option) \<Rightarrow> CogitoParser \<Rightarrow> ('args cogitoEvent list \<times> CogitoParser) option" where
  "cg_parseEvents unmarshal p = drain (cg_eat unmarshal) p"

fun cg_collect :: "'args cogitoEvent list \<Rightarrow> string \<times> string \<times> 'args api_tool_call list" where
  "cg_collect [] = ([], [], [])"
| "cg_collect (cogitoEventToolCall toolCall # es) = (case cg_collect es of (c, t, calls) \<Rightarrow> (c, t, toolCall # calls))"
| "cg_collect (cogitoEventThinkingContent s # es) = (case cg_collect es of (c, t, calls) \<Rightarrow> (c, s @ t, calls))"
| "cg_collect (cogitoEventContent s # es) = (case cg_collect es of (c, t, calls) \<Rightarrow> (s @ c, t, calls))"

definition cg_Add ::
  "(string \<Rightarrow> 'args option) \<Rightarrow> CogitoParser \<Rightarrow> string \<Rightarrow> bool \<Rightarrow>
     ((string \<times> string \<times> 'args api_tool_call list) \<times> CogitoParser) option" where
  "cg_Add unmarshal p s don =
     map_option (\<lambda>(events, p).
         case cg_collect events of (content, thinking, toolCalls) \<Rightarrow>
           ((content, thinking, number_calls (cg_callIndex p) toolCalls),
            p\<lparr>cg_callIndex := cg_callIndex p + length toolCalls\<rparr>))
       (cg_parseEvents unmarshal (p\<lparr>cg_buffer := cg_buffer p @ s\<rparr>))"

section \<open>Termination\<close>

lemma cogito_tag_ne [simp]: "cogito_tag a b \<noteq> []"
  by (simp add: cogito_tag_def)

lemmas cogito_tag_defs = cogitoToolCallsBeginTag_def cogitoToolCallsEndTag_def cogitoToolCallBeginTag_def
  cogitoToolCallEndTag_def cogitoToolSepTag_def cogitoToolOutputBeginTag_def cogitoToolOutputEndTag_def
  cogitoToolOutputsBeginTag_def cogitoToolOutputsEndTag_def

lemma cg_tags [simp]:
  "cogitoThinkingCloseTag \<noteq> []" "cogitoToolCallsBeginTag \<noteq> []" "cogitoToolCallsEndTag \<noteq> []"
  "cogitoToolCallBeginTag \<noteq> []" "cogitoToolCallEndTag \<noteq> []" "cogitoToolOutputBeginTag \<noteq> []"
  "cogitoToolOutputEndTag \<noteq> []" "cogitoToolOutputsBeginTag \<noteq> []" "cogitoToolOutputsEndTag \<noteq> []"
  by (simp_all add: cogito_tag_defs cogitoThinkingCloseTag_def)

lemma cg_next_call_length: "cg_next_call unmarshal s = Some (c, r) \<Longrightarrow> length r < length s"
  by (auto simp: cg_next_call_def Let_def split: option.splits dest: trim_drop_more_length)

lemma cg_next_output_length: "cg_next_output s = Some r \<Longrightarrow> length r < length s"
  by (auto simp: cg_next_output_def Let_def split: option.splits dest: trim_drop_more_length)

interpretation cg_loop: draining "cg_eat unmarshal" "\<lambda>_. True" "\<lambda>p. length (cg_buffer p)" for unmarshal
  by unfold_locales
    (auto simp: cg_eat_def Let_def split: if_splits CogitoParserState.splits option.splits prod.splits
      dest: cut_after_length cut_after_trim_length cg_next_call_length cg_next_output_length trim_drop_length)

text \<open>\<open>Add\<close> of the Cogito parser returns for every state, text and decoder.\<close>

theorem cogito_add_returns: "\<exists>result p'. cg_Add unmarshal p s don = Some (result, p')"
proof -
  obtain es t where "drain (cg_eat unmarshal) (p\<lparr>cg_buffer := cg_buffer p @ s\<rparr>) = Some (es, t)"
    using cg_loop.drain_total by blast
  then show ?thesis by (cases "cg_collect es") (simp add: cg_Add_def cg_parseEvents_def)
qed

section \<open>A whole answer\<close>

text \<open>The text of an answer as the model writes it: a call is its kind, its name and its arguments.\<close>

definition cg_render_body :: "string \<times> string \<times> string \<Rightarrow> string" where
  "cg_render_body c = (case c of (kind, name, args) \<Rightarrow>
     kind @ cogitoToolSepTag @ name @ cogito_fence_json @ args @ cogito_fence_end)"

definition cg_render_call :: "string \<times> string \<times> string \<Rightarrow> string" where
  "cg_render_call c = cogitoToolCallBeginTag @ cg_render_body c @ cogitoToolCallEndTag"

definition cg_render :: "string \<Rightarrow> string \<Rightarrow> (string \<times> string \<times> string) list \<Rightarrow> string" where
  "cg_render thinking content calls =
     thinking @ cogitoThinkingCloseTag @ content @ cogitoToolCallsBeginTag @
       concat (map cg_render_call calls) @ cogitoToolCallsEndTag"

definition cg_writable :: "(string \<Rightarrow> 'args option) \<Rightarrow> string \<times> string \<times> string \<Rightarrow> bool" where
  "cg_writable unmarshal c \<longleftrightarrow> (case c of (kind, name, args) \<Rightarrow>
     ends_at kind cogitoToolSepTag \<and> ends_at name cogito_fence_json \<and> ends_at args cogito_fence_end \<and>
     ends_at (cg_render_body c) cogitoToolCallEndTag \<and> unmarshal args \<noteq> None)"

definition cg_call :: "(string \<Rightarrow> 'args option) \<Rightarrow> string \<times> string \<times> string \<Rightarrow> 'args api_tool_call" where
  "cg_call unmarshal c = (case c of (kind, name, args) \<Rightarrow>
     \<lparr>tc_Index = 0, tc_Name = trim_space name, tc_Arguments = the (unmarshal args)\<rparr>)"

lemma cogito_tag_trim [simp]: "trim_left (cogito_tag a b @ s) = cogito_tag a b @ s" "trim_left (cogito_tag a b) = cogito_tag a b"
  by (simp_all add: cogito_tag_def trim_left_ascii is_space_def)

lemma cg_parse_render:
  assumes "cg_writable unmarshal c"
  shows "cg_parseToolCallContent unmarshal (cg_render_body c) = Some (cg_call unmarshal c)"
proof -
  obtain kind name args where c: "c = (kind, name, args)" by (rule prod_cases3)
  have "cut (cg_render_body c) cogitoToolSepTag = Some (kind, name @ cogito_fence_json @ args @ cogito_fence_end)"
    using assms by (simp add: c cg_render_body_def cg_writable_def ends_at_cut)
  moreover have "index (name @ cogito_fence_json @ args @ cogito_fence_end) cogito_fence_json = Some (length name)"
    using assms by (intro ends_at_index) (simp add: c cg_writable_def)
  moreover have "index (args @ cogito_fence_end) cogito_fence_end = Some (length args)"
    using assms by (simp add: c cg_writable_def ends_at_def)
  ultimately show ?thesis
    using assms by (auto simp: cg_parseToolCallContent_def c cg_call_def cg_writable_def)
qed

lemma cg_next_call_render:
  assumes "cg_writable unmarshal c" "trim_left r = r"
  shows "cg_next_call unmarshal (cg_render_call c @ r) = Some (cg_call unmarshal c, r)"
proof -
  let ?s = "cg_render_call c @ r"
  have s: "?s = cogitoToolCallBeginTag @ cg_render_body c @ cogitoToolCallEndTag @ r" by (simp add: cg_render_call_def)
  have "index ?s cogitoToolCallBeginTag = Some 0" unfolding s by (rule index_at_start)
  moreover have "index (cg_render_body c @ cogitoToolCallEndTag @ r) cogitoToolCallEndTag = Some (length (cg_render_body c))"
    using assms(1) by (intro ends_at_index) (auto simp: cg_writable_def split: prod.splits)
  ultimately show ?thesis
    using assms cg_parse_render [OF assms(1)] by (simp add: cg_next_call_def s)
qed

lemma cg_drain_calls:
  assumes "list_all (cg_writable unmarshal) calls" "cg_state p = CogitoCollectingToolCalls"
    and "cg_buffer p = concat (map cg_render_call calls) @ cogitoToolCallsEndTag"
  shows "drain (cg_eat unmarshal) p =
    Some (map (\<lambda>c. cogitoEventToolCall (cg_call unmarshal c)) calls,
      p\<lparr>cg_state := CogitoCollectingContent, cg_buffer := []\<rparr>)"
  using assms
proof (induction calls arbitrary: p)
  case Nil
  have "index cogitoToolCallsEndTag cogitoToolCallBeginTag = None"
    by (simp add: cogito_tag_defs cogito_tag_def low_block_def wide_bar_def has_prefix_def)
  then have "cg_next_call unmarshal cogitoToolCallsEndTag = None" by (simp add: cg_next_call_def)
  moreover have "index cogitoToolCallsEndTag cogitoToolCallsEndTag = Some 0"
    using index_at_start [of cogitoToolCallsEndTag "[]"] by simp
  ultimately have "cg_eat unmarshal p = ([], p\<lparr>cg_buffer := [], cg_state := CogitoCollectingContent\<rparr>, True)"
    using Nil by (simp add: cg_eat_def Let_def)
  moreover have "cg_eat unmarshal (p\<lparr>cg_buffer := [], cg_state := CogitoCollectingContent\<rparr>) =
      ([], p\<lparr>cg_buffer := [], cg_state := CogitoCollectingContent\<rparr>, False)"
    by (simp add: cg_eat_def)
  ultimately show ?case by (simp add: drain_more drain_stop)
next
  case (Cons c calls)
  let ?r = "concat (map cg_render_call calls) @ cogitoToolCallsEndTag"
  have r: "trim_left ?r = ?r" by (cases calls) (simp_all add: cg_render_call_def cogito_tag_defs)
  have w: "cg_writable unmarshal c" "list_all (cg_writable unmarshal) calls" using Cons.prems by auto
  have "cg_buffer p \<noteq> []" using Cons.prems(3) by simp
  then have "cg_eat unmarshal p = ([cogitoEventToolCall (cg_call unmarshal c)], p\<lparr>cg_buffer := ?r\<rparr>, True)"
    using cg_next_call_render [OF w(1) r] Cons.prems by (simp add: cg_eat_def Let_def)
  then show ?case
    using Cons.IH [OF w(2), of "p\<lparr>cg_buffer := ?r\<rparr>"] Cons.prems(2) by (simp add: drain_more)
qed

lemma cg_collect_append:
  "cg_collect (es @ fs) = (case cg_collect es of (c, t, cs) \<Rightarrow> case cg_collect fs of (c', t', cs') \<Rightarrow> (c @ c', t @ t', cs @ cs'))"
  by (induction es rule: cg_collect.induct) (auto split: prod.split)

lemma cg_collect_emit [simp]:
  "cg_collect (emit_if cogitoEventThinkingContent s) = ([], s, [])"
  "cg_collect (emit_if cogitoEventContent s) = (s, [], [])"
  by (simp_all add: emit_if_def)

lemma cg_collect_calls: "cg_collect (map (\<lambda>c. cogitoEventToolCall (f c)) cs) = ([], [], map f cs)"
  by (induction cs) auto

text \<open>C23: the Cogito parser reads back an answer the way the model writes it: thinking, content, and the
  calls in order with trimmed names, decoded arguments and consecutive indices.\<close>

theorem cogito_reads_answer:
  assumes "ends_at thinking cogitoThinkingCloseTag" "ends_at content cogitoToolCallsBeginTag"
    and "valid_utf8 content" "trim_left content = content" "list_all (cg_writable unmarshal) calls"
  shows "cg_Add unmarshal \<lparr>cg_state = CogitoCollectingThinking, cg_buffer = [], cg_callIndex = n\<rparr>
      (cg_render thinking content calls) don =
    Some ((trim_right content, trim_right thinking, number_calls n (map (cg_call unmarshal) calls)),
      \<lparr>cg_state = CogitoCollectingContent, cg_buffer = [], cg_callIndex = n + length calls\<rparr>)"
proof -
  let ?tail = "concat (map cg_render_call calls) @ cogitoToolCallsEndTag"
  let ?rest = "content @ cogitoToolCallsBeginTag @ ?tail"
  let ?p = "\<lambda>st b. \<lparr>cg_state = st, cg_buffer = b, cg_callIndex = n\<rparr>"
  have rest: "trim_left ?rest = ?rest"
    using assms(3,4) by (simp add: trim_left_append cogito_tag_defs)
  have "cg_eat unmarshal (?p CogitoCollectingThinking (cg_render thinking content calls)) =
      (emit_if cogitoEventThinkingContent (trim_right thinking), ?p CogitoCollectingContent ?rest, True)"
    using ends_at_cut [OF assms(1), of ?rest] rest by (simp add: cg_eat_def Let_def cg_render_def)
  moreover have "cg_eat unmarshal (?p CogitoCollectingContent ?rest) =
      (emit_if cogitoEventContent (trim_right content), ?p CogitoCollectingToolCalls ?tail, True)"
    using ends_at_cut [OF assms(2), of ?tail] by (simp add: cg_eat_def Let_def)
  ultimately have "drain (cg_eat unmarshal) (?p CogitoCollectingThinking (cg_render thinking content calls)) =
    Some (emit_if cogitoEventThinkingContent (trim_right thinking) @ emit_if cogitoEventContent (trim_right content) @
        map (\<lambda>c. cogitoEventToolCall (cg_call unmarshal c)) calls, ?p CogitoCollectingContent [])"
    using cg_drain_calls [OF assms(5), of "?p CogitoCollectingToolCalls ?tail"] by (simp add: drain_more)
  then show ?thesis
    by (simp add: cg_Add_def cg_parseEvents_def cg_collect_append cg_collect_calls)
qed

theorem cogito_reads_answer_witness:
  "cg_Add Some \<lparr>cg_state = CogitoCollectingThinking, cg_buffer = [], cg_callIndex = 2\<rparr>
      (cg_render ''hm'' ''ok '' [(''function'', ''f'', ''{}'')]) True =
    Some ((trim_right ''ok '', trim_right ''hm'', number_calls 2 (map (cg_call Some) [(''function'', ''f'', ''{}'')])),
      \<lparr>cg_state = CogitoCollectingContent, cg_buffer = [], cg_callIndex = 2 + length [(''function'', ''f'', ''{}'')]\<rparr>)"
  by (rule cogito_reads_answer)
    (simp_all add: ends_at_def cg_writable_def cg_render_body_def cogitoThinkingCloseTag_def cogito_tag_defs cogito_tag_def
      cogito_fence_json_def cogito_fence_end_def wide_bar_def low_block_def has_prefix_def valid_utf8_asciiI
      trim_left_ascii is_space_def)

end
