(* ===== verification/Modelfile.thy ===== *)
theory Modelfile
  imports GoPath
begin

text \<open>
  \<open>parser/parser.go\<close>: the Modelfile, its printing and its parser.  The input of \<open>ParseFile\<close> is the list of
  runes its reader delivers: byte-order marks and UTF-16 are decoded by a package outside the
  repository, and read errors are left out.  Of \<open>strconv.IsPrint\<close> and \<open>strings.ToLower\<close> the Latin-1 and
  the ASCII part are written out; \<open>wide\<close> and \<open>lower_wide\<close> are the tables beyond.
\<close>

section \<open>Model\<close>

record command =
  cmd_Name :: string
  cmd_Args :: string

text \<open>A \<open>Modelfile\<close> is its list of commands.\<close>

type_synonym modelfile = "command list"

definition newline :: string where
  "newline = [CHR 0x0A]"

definition dquote :: char where
  "dquote = CHR 0x22"

definition dquote3 :: string where
  "dquote3 = [dquote, dquote, dquote]"

definition mf_quote :: "string \<Rightarrow> string" where
  "mf_quote s =
     (if contains s newline \<or> has_prefix s '' '' \<or> has_suffix s '' '' then
        (if contains s [dquote] then dquote3 @ s @ dquote3
         else [dquote] @ s @ [dquote])
      else s)"

definition mf_unquote :: "string \<Rightarrow> string \<times> bool" where
  "mf_unquote s =
     (if length s \<ge> 3 \<and> take 3 s = dquote3 then
        (if length s \<ge> 6 \<and> drop (length s - 3) s = dquote3 then (take (length s - 6) (drop 3 s), True)
         else ([], False))
      else if length s \<ge> 1 \<and> hd s = dquote then
        (if length s \<ge> 2 \<and> last s = dquote then (take (length s - 2) (drop 1 s), True)
         else ([], False))
      else (s, True))"

definition rune_isAlpha :: "nat \<Rightarrow> bool" where
  "rune_isAlpha r \<longleftrightarrow> 97 \<le> r \<and> r \<le> 122 \<or> 65 \<le> r \<and> r \<le> 90"

definition rune_isNumber :: "nat \<Rightarrow> bool" where
  "rune_isNumber r \<longleftrightarrow> 48 \<le> r \<and> r \<le> 57"

definition rune_isSpace :: "nat \<Rightarrow> bool" where
  "rune_isSpace r \<longleftrightarrow> r = 32 \<or> r = 9"

definition rune_isNewline :: "nat \<Rightarrow> bool" where
  "rune_isNewline r \<longleftrightarrow> r = 13 \<or> r = 10"

definition is_print :: "(nat \<Rightarrow> bool) \<Rightarrow> nat \<Rightarrow> bool" where
  "is_print wide r \<longleftrightarrow> (if r \<le> 255 then 32 \<le> r \<and> r < 127 \<or> 161 \<le> r \<and> r \<noteq> 173 else wide r)"

text \<open>\<open>strings.ToUpper\<close> on ASCII; \<open>Command.String\<close> applies it to the names in its switch only.\<close>

definition to_upper_ascii :: "string \<Rightarrow> string" where
  "to_upper_ascii s =
     map (\<lambda>c. let b = (of_char c :: nat) in if 97 \<le> b \<and> b \<le> 122 then char_of (b - 32) else c) s"

definition quoted_commands :: "string list" where
  "quoted_commands = [''license'', ''template'', ''system'', ''adapter'', ''renderer'', ''parser'', ''requires'',
     ''draft'', ''capability'', ''xollama'']"

definition command_String :: "command \<Rightarrow> string" where
  "command_String c =
     (if cmd_Name c = ''model'' then ''FROM '' @ cmd_Args c
      else if cmd_Name c \<in> set quoted_commands then
        to_upper_ascii (cmd_Name c) @ '' '' @ mf_quote (cmd_Args c)
      else if cmd_Name c = ''message'' then
        (let (role, message) = (case cut (cmd_Args c) '': '' of Some (a, b) \<Rightarrow> (a, b) | None \<Rightarrow> (cmd_Args c, []))
         in ''MESSAGE '' @ role @ '' '' @ mf_quote message)
      else ''PARAMETER '' @ cmd_Name c @ '' '' @ mf_quote (cmd_Args c))"

definition modelfile_String :: "modelfile \<Rightarrow> string" where
  "modelfile_String f = concat (map (\<lambda>c. command_String c @ newline) f)"

definition isValidMessageRole :: "string \<Rightarrow> bool" where
  "isValidMessageRole role \<longleftrightarrow> role = ''system'' \<or> role = ''user'' \<or> role = ''assistant''"

definition isValidCommand :: "(nat \<Rightarrow> nat) \<Rightarrow> string \<Rightarrow> bool" where
  "isValidCommand lower_wide cmd \<longleftrightarrow>
     to_lower lower_wide cmd \<in> set [''from'', ''license'', ''template'', ''system'', ''adapter'', ''draft'', ''renderer'',
       ''parser'', ''parameter'', ''message'', ''requires'', ''capability'', ''xollama'']"

subsection \<open>Swallowed directives\<close>

definition directive_keywords :: "string list" where
  "directive_keywords = [''FROM'', ''ADAPTER'', ''DRAFT'', ''TEMPLATE'', ''RENDERER'', ''PARSER'', ''PARAMETER'',
     ''REQUIRES'', ''CAPABILITY'']"

definition blank_char :: "char \<Rightarrow> bool" where
  "blank_char c \<longleftrightarrow> c = CHR '' '' \<or> c = CHR 0x09"

text \<open>Does a line match \<open>[ \t]*(FROM|...)[ \t]+\S.*\<close>?  In a Go regular expression \<open>\S\<close> excludes tab, line
  feed, form feed, carriage return and space.\<close>

definition directive_line :: "string \<Rightarrow> bool" where
  "directive_line line =
     (let l = dropWhile blank_char line in
      list_ex (\<lambda>kw. has_prefix l kw \<and>
          (let rest = drop (length kw) l; arg = dropWhile blank_char rest
           in rest \<noteq> arg \<and> arg \<noteq> [] \<and> hd arg \<notin> {CHR 0x0A, CHR 0x0C, CHR 0x0D}))
        directive_keywords)"

definition SwallowedDirective :: "string \<Rightarrow> string \<Rightarrow> string" where
  "SwallowedDirective name val =
     (if name \<noteq> ''template'' \<and> name \<noteq> ''system'' then []
      else if CHR 0x0D \<notin> set val \<and> CHR 0x0A \<notin> set val then []
      else case List.find directive_line (split_all val newline) of
             None \<Rightarrow> []
           | Some line \<Rightarrow> trim_space line)"

definition checkSwallowedDirective :: "string \<Rightarrow> string \<Rightarrow> string option" where
  "checkSwallowedDirective name val =
     (let line = SwallowedDirective name val in if line = [] then None else Some line)"

subsection \<open>The parser\<close>

datatype mf_state = stateNil | stateName | stateValue | stateParameter | stateMessage | stateComment

datatype mf_msg = MsgInvalidCommand | MsgInvalidMessageRole | MsgSwallowed string string

datatype mf_error =
    ErrUnexpectedEOF
  | ErrUnexpectedEOFAt string
  | ParserError nat mf_msg
  | ErrMissingFrom

datatype rune_error_kind = RuneInvalidCommand | RuneUnexpectedEOF

text \<open>The next state and the rune to keep (0 for none), or an error.\<close>

definition parseRuneForState :: "nat \<Rightarrow> mf_state \<Rightarrow> rune_error_kind + mf_state \<times> nat" where
  "parseRuneForState r cs =
     (case cs of
        stateNil \<Rightarrow>
          (if r = 35 then Inr (stateComment, 0)
           else if rune_isSpace r \<or> rune_isNewline r then Inr (stateNil, 0)
           else Inr (stateName, r))
      | stateName \<Rightarrow>
          (if rune_isAlpha r then Inr (stateName, r)
           else if rune_isSpace r then Inr (stateValue, 0)
           else Inl RuneInvalidCommand)
      | stateValue \<Rightarrow>
          (if rune_isNewline r then Inr (stateNil, r)
           else if rune_isSpace r then Inr (stateNil, r)
           else Inr (stateValue, r))
      | stateParameter \<Rightarrow>
          (if rune_isAlpha r \<or> rune_isNumber r \<or> r = 95 then Inr (stateParameter, r)
           else if rune_isSpace r then Inr (stateValue, 0)
           else Inl RuneUnexpectedEOF)
      | stateMessage \<Rightarrow>
          (if rune_isAlpha r then Inr (stateMessage, r)
           else if rune_isSpace r then Inr (stateValue, 0)
           else Inl RuneUnexpectedEOF)
      | stateComment \<Rightarrow>
          (if rune_isNewline r then Inr (stateNil, 0) else Inr (stateComment, 0)))"

text \<open>The variables of \<open>ParseFile\<close>.\<close>

record mf_vars =
  pf_cmd :: command
  pf_curr :: mf_state
  pf_line :: nat
  pf_b :: string
  pf_role :: string
  pf_cmds :: modelfile

definition pf_init :: mf_vars where
  "pf_init = \<lparr>pf_cmd = \<lparr>cmd_Name = [], cmd_Args = []\<rparr>, pf_curr = stateNil, pf_line = 1, pf_b = [],
     pf_role = [], pf_cmds = []\<rparr>"

text \<open>A value is complete: the command is checked and appended.\<close>

definition pf_emit :: "mf_vars \<Rightarrow> string \<Rightarrow> mf_error + mf_vars" where
  "pf_emit v s =
     (let s = (if pf_role v \<noteq> [] then pf_role v @ '': '' @ s else s);
          cmd = (pf_cmd v)\<lparr>cmd_Args := s\<rparr>
      in case checkSwallowedDirective (cmd_Name (pf_cmd v)) s of
           Some line \<Rightarrow> Inl (ParserError (pf_line v) (MsgSwallowed (cmd_Name (pf_cmd v)) line))
         | None \<Rightarrow> Inr (v\<lparr>pf_role := [], pf_cmd := cmd, pf_cmds := pf_cmds v @ [cmd]\<rparr>))"

text \<open>Leaving a state: the new state, or \<open>None\<close> where the rune belongs to the value (\<open>continue\<close>).\<close>

definition pf_leave ::
  "(nat \<Rightarrow> nat) \<Rightarrow> mf_vars \<Rightarrow> mf_state \<Rightarrow> nat \<Rightarrow> mf_error + (mf_state \<times> mf_vars) option" where
  "pf_leave lower_wide v nxt r =
     (case pf_curr v of
        stateName \<Rightarrow>
          (if \<not> isValidCommand lower_wide (pf_b v) then Inl (ParserError (pf_line v) MsgInvalidCommand)
           else
             (let s = to_lower lower_wide (pf_b v);
                  name = (\<lambda>n. v\<lparr>pf_cmd := (pf_cmd v)\<lparr>cmd_Name := n\<rparr>\<rparr>)
              in if s = ''from'' then Inr (Some (nxt, name ''model''))
                 else if s = ''parameter'' then Inr (Some (stateParameter, v))
                 else if s = ''message'' then Inr (Some (stateMessage, name s))
                 else Inr (Some (nxt, name s))))
      | stateParameter \<Rightarrow> Inr (Some (nxt, v\<lparr>pf_cmd := (pf_cmd v)\<lparr>cmd_Name := pf_b v\<rparr>\<rparr>))
      | stateMessage \<Rightarrow>
          (if \<not> isValidMessageRole (pf_b v) then Inl (ParserError (pf_line v) MsgInvalidMessageRole)
           else Inr (Some (nxt, v\<lparr>pf_role := pf_b v\<rparr>)))
      | stateComment \<Rightarrow> Inr (Some (nxt, v))
      | stateNil \<Rightarrow> Inr (Some (nxt, v))
      | stateValue \<Rightarrow>
          (let (s, ok) = mf_unquote (trim_space (pf_b v)) in
           if \<not> ok \<or> rune_isSpace r then Inr None
           else (case pf_emit v s of Inl e \<Rightarrow> Inl e | Inr v \<Rightarrow> Inr (Some (nxt, v)))))"

definition pf_step ::
  "(nat \<Rightarrow> bool) \<Rightarrow> (nat \<Rightarrow> nat) \<Rightarrow> nat \<Rightarrow> mf_vars \<Rightarrow> mf_error + mf_vars" where
  "pf_step wide lower_wide r v =
     (let v = (if rune_isNewline r then v\<lparr>pf_line := pf_line v + 1\<rparr> else v);
          keep = (\<lambda>r v. if is_print wide r then v\<lparr>pf_b := pf_b v @ encode_rune r\<rparr> else v)
      in case parseRuneForState r (pf_curr v) of
           Inl RuneUnexpectedEOF \<Rightarrow> Inl (ErrUnexpectedEOFAt (pf_b v))
         | Inl RuneInvalidCommand \<Rightarrow> Inl (ParserError (pf_line v) MsgInvalidCommand)
         | Inr (nxt, r) \<Rightarrow>
             if nxt \<noteq> pf_curr v then
               (case pf_leave lower_wide v nxt r of
                  Inl e \<Rightarrow> Inl e
                | Inr None \<Rightarrow> Inr (v\<lparr>pf_b := pf_b v @ encode_rune r\<rparr>)
                | Inr (Some (nxt, v)) \<Rightarrow> Inr (keep r (v\<lparr>pf_b := [], pf_curr := nxt\<rparr>)))
             else Inr (keep r v))"

primrec pf_run ::
  "(nat \<Rightarrow> bool) \<Rightarrow> (nat \<Rightarrow> nat) \<Rightarrow> nat list \<Rightarrow> mf_vars \<Rightarrow> mf_error + mf_vars" where
  "pf_run wide lower_wide [] v = Inr v"
| "pf_run wide lower_wide (r # rs) v =
     (case pf_step wide lower_wide r v of Inl e \<Rightarrow> Inl e | Inr v \<Rightarrow> pf_run wide lower_wide rs v)"

text \<open>After the last rune.\<close>

definition pf_flush :: "mf_vars \<Rightarrow> mf_error + mf_vars" where
  "pf_flush v =
     (case pf_curr v of
        stateComment \<Rightarrow> Inr v
      | stateNil \<Rightarrow> Inr v
      | stateValue \<Rightarrow>
          (let (s, ok) = mf_unquote (trim_space (pf_b v)) in
           if \<not> ok then Inl ErrUnexpectedEOF else pf_emit v s)
      | _ \<Rightarrow> Inl ErrUnexpectedEOF)"

definition ParseFile ::
  "(nat \<Rightarrow> bool) \<Rightarrow> (nat \<Rightarrow> nat) \<Rightarrow> nat list \<Rightarrow> mf_error + modelfile" where
  "ParseFile wide lower_wide rs =
     (case pf_run wide lower_wide rs pf_init of
        Inl e \<Rightarrow> Inl e
      | Inr v \<Rightarrow>
          (case pf_flush v of
             Inl e \<Rightarrow> Inl e
           | Inr v \<Rightarrow>
               if list_ex (\<lambda>c. cmd_Name c = ''model'') (pf_cmds v) then Inr (pf_cmds v) else Inl ErrMissingFrom))"

section \<open>Quoting\<close>

lemma quote_cases:
  obtains (plain) "mf_quote s = s" "\<not> contains s newline" "\<not> has_prefix s '' ''" "\<not> has_suffix s '' ''"
    | (triple) "mf_quote s = dquote3 @ s @ dquote3" "contains s [dquote]"
    | (single) "mf_quote s = dquote # s @ [dquote]" "\<not> contains s [dquote]" "s \<noteq> []"
  by (cases "contains s newline \<or> has_prefix s '' '' \<or> has_suffix s '' ''"; cases "contains s [dquote]")
    (cases s; auto simp: mf_quote_def newline_def has_suffix_def contains_iff)+

lemma unquote_triple: "mf_unquote (dquote3 @ s @ dquote3) = (s, True)"
  by (simp add: mf_unquote_def dquote3_def)

lemma contains_single: "contains s [c] \<longleftrightarrow> c \<in> set s"
  by (auto simp: contains_iff in_set_conv_decomp)

lemma unquote_single: "s \<noteq> [] \<Longrightarrow> \<not> contains s [dquote] \<Longrightarrow> mf_unquote (dquote # s @ [dquote]) = (s, True)"
  by (cases s) (auto simp: mf_unquote_def dquote3_def contains_single)

lemma unquote_plain: "s = [] \<or> hd s \<noteq> dquote \<Longrightarrow> mf_unquote s = (s, True)"
  by (cases s) (auto simp: mf_unquote_def dquote3_def)

lemma unquote_shorter: "s \<noteq> [] \<Longrightarrow> hd s = dquote \<Longrightarrow> mf_unquote s \<noteq> (s, True)"
  by (cases s) (auto simp: mf_unquote_def Let_def dest!: arg_cong [where f = length] split: if_splits)

text \<open>C27: quoting is undone by unquoting for exactly the texts that need quotes by the rule of \<open>quote\<close> (a
  line feed inside, or a space at either end) and for those that do not begin with a quotation mark;
  a text like \<open>"a" b\<close> is printed without quotes and is not read back.\<close>

theorem modelfile_quote_round_trip:
  "mf_unquote (mf_quote s) = (s, True) \<longleftrightarrow>
     contains s newline \<or> has_prefix s '' '' \<or> has_suffix s '' '' \<or> s = [] \<or> hd s \<noteq> dquote"
proof (cases rule: quote_cases [of s])
  case plain
  then show ?thesis using unquote_plain [of s] unquote_shorter [of s] by auto
next
  case triple
  then have "mf_quote s \<noteq> s" by (simp add: dquote3_def)
  then show ?thesis using triple unquote_triple by (auto simp: mf_quote_def split: if_splits)
next
  case single
  then have "mf_quote s \<noteq> s" by auto
  then show ?thesis using single unquote_single by (auto simp: mf_quote_def split: if_splits)
qed

theorem modelfile_quote_round_trip_witness: "mf_unquote (mf_quote '' two words'') = ('' two words'', True)"
  unfolding modelfile_quote_round_trip by (simp add: has_prefix_def)

end
