(* ===== verification/ModelfileClean.thy ===== *)
theory ModelfileClean
  imports Modelfile
begin

text \<open>
  What every parsed Modelfile satisfies: an invariant of the parser's loop, kept by each of its steps.  Also the
  reader of runes that feeds the parser, and its inverse on valid text.
\<close>

section \<open>The reader\<close>

text \<open>The runes \<open>ReadRune\<close> delivers for a text without a byte-order mark, and the text of a list of runes.\<close>

function runes :: "string \<Rightarrow> nat list" where
  "runes s = (if s = [] then [] else fst (decode_rune s) # runes (drop (snd (decode_rune s)) s))"
  by pat_completeness auto
termination
  by (relation "measure length") (auto dest: decode_rune_size)

declare runes.simps [simp del]

definition enc :: "nat list \<Rightarrow> string" where
  "enc rs = concat (map encode_rune rs)"

lemma enc_simps [simp]: "enc [] = []" "enc (r # rs) = encode_rune r @ enc rs" "enc (xs @ ys) = enc xs @ enc ys"
  by (simp_all add: enc_def)

lemma runes_Nil [simp]: "runes [] = []"
  by (simp add: runes.simps)

lemma runes_encode [simp]: "valid_rune r \<Longrightarrow> runes (encode_rune r @ s) = r # runes s"
  using is_enc_length [OF is_enc_encode [of r]] by (subst runes.simps) (auto simp: decode_encode_rune)

lemma runes_valid: "r \<in> set (runes s) \<Longrightarrow> valid_rune r"
proof (induction s rule: runes.induct)
  case (1 s)
  then show ?case by (cases "s = []") (auto simp: runes.simps [of s] decode_rune_valid)
qed

lemma runes_enc: "(\<And>r. r \<in> set rs \<Longrightarrow> valid_rune r) \<Longrightarrow> runes (enc rs @ s) = rs @ runes s"
  by (induction rs) auto

lemma runes_append: "enc (runes s) = s \<Longrightarrow> runes (s @ t) = runes s @ runes t"
  using runes_enc [of "runes s" t] runes_valid by auto

lemma runes_ascii [simp]: "of_char c < (128 :: nat) \<Longrightarrow> runes (c # s) = of_char c # runes s"
  using decode_rune_enc [OF is_enc_ascii, of c s] by (subst runes.simps) (simp add: rune_value_bytes_def)

lemma runes_ascii_append:
  "list_all (\<lambda>c. of_char c < (128 :: nat)) s \<Longrightarrow> runes (s @ t) = map of_char s @ runes t"
  by (induction s) auto

lemma enc_ascii: "list_all (\<lambda>c. of_char c < (128 :: nat)) s \<Longrightarrow> enc (map of_char s) = s"
  by (induction s) (auto simp: encode_rune_char)

lemma enc_char: "c \<in> set (enc rs) \<Longrightarrow> of_char c < (128 :: nat) \<Longrightarrow> of_char c \<in> set rs"
  by (auto simp: enc_def dest: encode_rune_ascii)

section \<open>Running the parser\<close>

lemma pf_run_append:
  "pf_run wide lw (xs @ ys) v =
     (case pf_run wide lw xs v of Inl e \<Rightarrow> Inl e | Inr v \<Rightarrow> pf_run wide lw ys v)"
  by (induction xs arbitrary: v) (auto split: sum.split)

section \<open>What a parsed Modelfile is\<close>

definition name_char :: "char \<Rightarrow> bool" where
  "name_char c \<longleftrightarrow> (let r = (of_char c :: nat) in rune_isAlpha r \<or> rune_isNumber r \<or> r = 95)"

text \<open>A command the parser delivers: its name is a word and its argument hides no directive.\<close>

definition clean_command :: "command \<Rightarrow> bool" where
  "clean_command c \<longleftrightarrow> list_all name_char (cmd_Name c) \<and> SwallowedDirective (cmd_Name c) (cmd_Args c) = []"

text \<open>The invariant of the loop: the commands so far are clean, a stored name is a word, and in the state of
  a parameter name the buffer is one.\<close>

definition pf_inv :: "mf_vars \<Rightarrow> bool" where
  "pf_inv v \<longleftrightarrow> list_all clean_command (pf_cmds v) \<and> list_all name_char (cmd_Name (pf_cmd v)) \<and>
     (pf_curr v = stateParameter \<longrightarrow> list_all name_char (pf_b v))"

lemma valid_command_word: "isValidCommand lw b \<Longrightarrow> list_all name_char (to_lower lw b)"
  by (auto simp: isValidCommand_def name_char_def rune_isAlpha_def Let_def)

lemma name_char_encode: "rune_isAlpha r \<or> rune_isNumber r \<or> r = 95 \<Longrightarrow> list_all name_char (encode_rune r)"
  by (auto simp: encode_rune_def encode_rune_bytes_def rune_isAlpha_def rune_isNumber_def name_char_def Let_def)

lemma pf_emit_inv: "pf_inv v \<Longrightarrow> pf_emit v s = Inr w \<Longrightarrow> list_all clean_command (pf_cmds w) \<and>
    list_all name_char (cmd_Name (pf_cmd w))"
  by (auto simp: pf_emit_def pf_inv_def clean_command_def checkSwallowedDirective_def Let_def
      split: if_splits option.splits)

lemma pf_leave_inv:
  "pf_inv v \<Longrightarrow> pf_leave lw v nxt r = Inr (Some (nxt', w)) \<Longrightarrow>
   list_all clean_command (pf_cmds w) \<and> list_all name_char (cmd_Name (pf_cmd w))"
  using valid_command_word [of lw "pf_b v"]
  by (auto simp: pf_leave_def Let_def name_char_def rune_isAlpha_def pf_inv_def
      split: mf_state.splits if_splits prod.splits sum.splits dest: pf_emit_inv [rotated])

lemma pf_leave_same: "pf_leave lw v nxt r = Inr None \<Longrightarrow> pf_curr v = stateValue"
  by (auto simp: pf_leave_def Let_def split: mf_state.splits if_splits)

lemma rune_parameter:
  "parseRuneForState r cs = Inr (stateParameter, r') \<Longrightarrow>
     cs = stateParameter \<and> (rune_isAlpha r' \<or> rune_isNumber r' \<or> r' = 95)"
  by (auto simp: parseRuneForState_def split: mf_state.splits if_splits)

lemma leave_parameter:
  "pf_leave lw v nxt r = Inr (Some (stateParameter, w)) \<Longrightarrow> nxt = stateParameter \<or> pf_curr v = stateName"
  by (auto simp: pf_leave_def Let_def split: mf_state.splits if_splits prod.splits sum.splits)

lemma rune_leaves_name: "parseRuneForState r stateName = Inr (nxt, r') \<Longrightarrow> nxt \<noteq> stateName \<Longrightarrow> r' = 0"
  by (auto simp: parseRuneForState_def split: if_splits)

lemma pf_step_inv:
  assumes "pf_inv v" "pf_step wide lw r v = Inr w"
  shows "pf_inv w"
proof -
  define u where "u = (if rune_isNewline r then v\<lparr>pf_line := pf_line v + 1\<rparr> else v)"
  have u: "pf_inv u" "pf_curr u = pf_curr v" using assms(1) by (auto simp: u_def pf_inv_def)
  obtain nxt r' where p: "parseRuneForState r (pf_curr u) = Inr (nxt, r')"
    using assms(2) by (auto simp: pf_step_def u_def [symmetric] Let_def u(2) split: sum.splits rune_error_kind.splits)
  let ?keep = "\<lambda>v. if is_print wide r' then v\<lparr>pf_b := pf_b v @ encode_rune r'\<rparr> else v"
  show ?thesis
  proof (cases "nxt = pf_curr u")
    case True
    then have "w = ?keep u"
      using assms(2) p by (auto simp: pf_step_def u_def [symmetric] Let_def u(2) split: if_splits)
    then show ?thesis
      using u(1) rune_parameter [of r "pf_curr u" r'] p True name_char_encode [of r'] by (auto simp: pf_inv_def)
  next
    case False
    then consider (same) "pf_leave lw u nxt r' = Inr None" "w = u\<lparr>pf_b := pf_b u @ encode_rune r'\<rparr>"
      | (move) nxt' x where "pf_leave lw u nxt r' = Inr (Some (nxt', x))"
          "w = ?keep (x\<lparr>pf_b := [], pf_curr := nxt'\<rparr>)"
      using assms(2) p
      by (auto simp: pf_step_def u_def [symmetric] Let_def u(2) split: sum.splits option.splits)
    then show ?thesis
    proof cases
      case same
      with u(1) pf_leave_same [OF same(1)] show ?thesis by (auto simp: pf_inv_def)
    next
      case move
      have "list_all name_char (if is_print wide r' then encode_rune r' else [])" if "nxt' = stateParameter"
        using leave_parameter [of lw u nxt r' x] move(1) that rune_parameter [of r "pf_curr u" r'] p False
          rune_leaves_name [of r nxt r'] by (auto simp: is_print_def)
      then show ?thesis using pf_leave_inv [OF u(1) move(1)] move(2) by (auto simp: pf_inv_def)
    qed
  qed
qed

lemma pf_run_inv: "pf_inv v \<Longrightarrow> pf_run wide lw rs v = Inr w \<Longrightarrow> pf_inv w"
  by (induction rs arbitrary: v) (auto split: sum.splits dest: pf_step_inv)

lemma pf_init_inv: "pf_inv pf_init"
  by (simp add: pf_inv_def pf_init_def)

lemma pf_flush_inv: "pf_inv v \<Longrightarrow> pf_flush v = Inr w \<Longrightarrow> list_all clean_command (pf_cmds w)"
  by (auto simp: pf_flush_def pf_inv_def split: mf_state.splits prod.splits if_splits dest!: pf_emit_inv [rotated])

lemma parsed_clean:
  "ParseFile wide lw rs = Inr f \<Longrightarrow>
     list_ex (\<lambda>c. cmd_Name c = ''model'') f \<and> list_all clean_command f"
  by (auto simp: ParseFile_def split: sum.splits if_splits dest!: pf_run_inv [OF pf_init_inv] pf_flush_inv)

end
