(* ===== verification/ModelfileRoundTrip.thy ===== *)
theory ModelfileRoundTrip
  imports ModelfileClean
begin

text \<open>
  \<open>Modelfile.String\<close> and \<open>ParseFile\<close> are inverse on readable commands.  The proof follows the parser through a
  printed file: a keyword, a parameter name or a role, a value in one of the three forms of \<open>quote\<close>, a line feed.
\<close>

section \<open>Printing and reading back\<close>

subsection \<open>A value\<close>

text \<open>The runes a value may hold: what \<open>IsPrint\<close> lets through, and the runes that are always kept.\<close>

definition kept :: "(nat \<Rightarrow> bool) \<Rightarrow> nat \<Rightarrow> bool" where
  "kept wide r \<longleftrightarrow> rune_isSpace r \<or> rune_isNewline r \<or> is_print wide r"

lemma step_value:
  assumes "pf_curr v = stateValue" "kept wide r"
    and "rune_isNewline r \<Longrightarrow> \<not> snd (mf_unquote (trim_space (pf_b v)))"
  shows "\<exists>l. pf_step wide lw r v = Inr (v\<lparr>pf_line := l, pf_b := pf_b v @ encode_rune r\<rparr>)"
  using assms
  by (cases v) (auto simp: pf_step_def parseRuneForState_def pf_leave_def kept_def Let_def split: prod.splits)

lemma value_reads:
  assumes "pf_curr v = stateValue" "\<And>r. r \<in> set rs \<Longrightarrow> kept wide r"
    and "\<And>xs r ys. rs = xs @ r # ys \<Longrightarrow> rune_isNewline r \<Longrightarrow> \<not> snd (mf_unquote (trim_space (pf_b v @ enc xs)))"
  shows "\<exists>l. pf_run wide lw rs v = Inr (v\<lparr>pf_line := l, pf_b := pf_b v @ enc rs\<rparr>)"
  using assms
proof (induction rs arbitrary: v)
  case Nil
  then show ?case by (cases v) auto
next
  case (Cons r rs)
  obtain l where l: "pf_step wide lw r v = Inr (v\<lparr>pf_line := l, pf_b := pf_b v @ encode_rune r\<rparr>)" (is "_ = Inr ?w")
    using step_value [of v wide r lw] Cons.prems(1,2) Cons.prems(3) [of "[]" r rs] by auto
  have "\<not> snd (mf_unquote (trim_space (pf_b ?w @ enc xs)))" if "rs = xs @ q # ys" "rune_isNewline q" for xs q ys
    using Cons.prems(3) [of "r # xs" q ys] that by simp
  then obtain l' where "pf_run wide lw rs ?w = Inr (?w\<lparr>pf_line := l', pf_b := pf_b ?w @ enc rs\<rparr>)"
    using Cons.IH [of ?w] Cons.prems(1,2) by auto
  then show ?case using l by auto
qed

text \<open>The texts that are read back from what \<open>quote\<close> prints.\<close>

definition text_arg :: "(nat \<Rightarrow> bool) \<Rightarrow> string \<Rightarrow> bool" where
  "text_arg wide s \<longleftrightarrow> enc (runes s) = s \<and> list_all (kept wide) (runes s) \<and>
     (if contains s newline \<or> has_prefix s '' '' \<or> has_suffix s '' ''
      then \<not> contains s dquote3
      else CHR 0x0D \<notin> set s \<and> trim_space s = s \<and> (s = [] \<or> hd s \<noteq> dquote))"

lemma kept_ascii [simp]: "kept wide 34" "kept wide 10" "kept wide 32"
  by (simp_all add: kept_def rune_isSpace_def rune_isNewline_def is_print_def)

lemma trim_left_quote [simp]: "trim_left (dquote # s) = dquote # s"
  by (simp add: trim_left_ascii dquote_def is_space_def)

lemma valid_enc [simp]: "valid_utf8 (enc rs)"
  by (auto simp: enc_def intro!: valid_utf8_concat)

lemma valid_quote [simp]: "valid_utf8 (dquote # s) = valid_utf8 s" "valid_utf8 [dquote]"
  using valid_utf8_enc_append [OF is_enc_ascii, of dquote s] valid_utf8_enc [OF is_enc_ascii, of dquote]
  by (simp_all add: dquote_def)

lemma trim_right_quote_end [simp]: "trim_right (s @ [dquote]) = s @ [dquote]"
  by (subst trim_right_ascii) (simp_all add: dquote_def is_space_def)

lemma trim_right_quote: "valid_utf8 s \<Longrightarrow> trim_right (dquote # s) = dquote # trim_right s"
  using trim_right_append [of s "[dquote]"] trim_right_quote_end [of "[]"] by (auto split: if_splits)

lemma trim_space_quote: "valid_utf8 s \<Longrightarrow> trim_space (dquote # s) = dquote # trim_right s"
  by (simp add: trim_space_def trim_right_quote)

text \<open>Inside the quotes a value is not complete.\<close>

lemma open_single:
  assumes "dquote \<notin> set s" "valid_utf8 s"
  shows "\<not> snd (mf_unquote (trim_space (dquote # s)))"
proof -
  have n: "dquote \<notin> set (trim_right s)" using assms(1) trim_right_prefix [of s] by (metis UnCI set_append)
  then have "trim_right s = [] \<or> last (trim_right s) \<noteq> dquote" by (auto dest: last_in_set)
  moreover have "take 3 (dquote # trim_right s) \<noteq> dquote3"
    using n by (cases "trim_right s") (auto simp: dquote3_def)
  ultimately show ?thesis by (auto simp: trim_space_quote assms(2) mf_unquote_def)
qed

lemma open_triple:
  assumes "\<not> contains s dquote3" "valid_utf8 s"
  shows "\<not> snd (mf_unquote (trim_space (dquote3 @ s)))"
proof -
  have t: "trim_space (dquote3 @ s) = dquote3 @ trim_right s"
    by (simp add: dquote3_def trim_space_quote trim_right_quote assms(2))
  have "\<not> has_suffix (trim_right s) dquote3"
    using assms(1) trim_right_prefix [of s] by (auto simp: contains_iff has_suffix_iff)
  moreover have "drop (length r) (dquote3 @ r) = drop (length r - 3) r" if "3 \<le> length r" for r
    using that by (subst drop_append) (simp add: dquote3_def numeral_3_eq_3)
  ultimately show ?thesis
    unfolding t by (auto simp: mf_unquote_def has_suffix_def) (auto simp: dquote3_def)
qed

lemma trim_space_closed: "valid_utf8 s \<Longrightarrow> trim_space (dquote # s @ [dquote]) = dquote # s @ [dquote]"
  by (simp add: trim_space_quote)

lemma trim_space_closed3: "valid_utf8 s \<Longrightarrow> trim_space (dquote3 @ s @ dquote3) = dquote3 @ s @ dquote3"
  using trim_space_closed [of "dquote # dquote # s @ [dquote, dquote]"] by (simp add: dquote3_def)

lemma quote_char: "of_char dquote = (34 :: nat)" "of_char dquote < (128 :: nat)"
  by (simp_all add: dquote_def)

lemma runes_dquote3: "runes (dquote3 @ s) = [34, 34, 34] @ runes s"
  by (simp add: dquote3_def quote_char)

lemma enc_quotes: "enc [34] = [dquote]" "encode_rune 34 = [dquote]"
  using encode_rune_char [of dquote] by (simp_all add: quote_char)

lemma enc_prefix: "enc rs = a @ b \<Longrightarrow> valid_utf8 a \<Longrightarrow> valid_utf8 b"
  using valid_enc [of rs] by simp

lemma split_between:
  assumes "qs @ rs @ qs' = xs @ r # ys" "r \<notin> set qs" "r \<notin> set qs'"
  shows "\<exists>p u. xs = qs @ p \<and> rs = p @ r # u"
proof -
  have "length qs \<le> length xs"
  proof (rule ccontr)
    assume l: "\<not> length qs \<le> length xs"
    then have "(qs @ rs @ qs') ! length xs = qs ! length xs" by (simp add: nth_append)
    with l assms(1,2) show False by (metis not_le_imp_less nth_append_length nth_mem)
  qed
  with assms(1) obtain p where p: "xs = qs @ p" "rs @ qs' = p @ r # ys" by (auto dest: append_eq_longer)
  have "length p < length rs"
  proof (rule ccontr)
    assume "\<not> length p < length rs"
    then obtain u where "p = rs @ u" "qs' = u @ r # ys" using append_eq_longer [OF p(2)] by auto
    with assms(3) show False by simp
  qed
  then obtain u where u: "rs = p @ u" "r # ys = u @ qs'" using append_eq_longer [OF p(2) [symmetric]] by auto
  with \<open>length p < length rs\<close> have "u \<noteq> []" by auto
  with u obtain u' where "u = r # u'" by (cases u) auto
  with p(1) u(1) show ?thesis by blast
qed

lemma reads_quoted:
  assumes v: "pf_curr v = stateValue" "pf_b v = []" and s: "enc (runes s) = s" "list_all (kept wide) (runes s)"
    and q: "q = replicate n dquote"
    and op: "\<And>p u. s = enc p @ u \<Longrightarrow> \<not> snd (mf_unquote (trim_space (q @ enc p)))"
  shows "\<exists>l. pf_run wide lw (runes (q @ s @ q)) v = Inr (v\<lparr>pf_line := l, pf_b := q @ s @ q\<rparr>)"
proof -
  let ?q = "replicate n 34 :: nat list"
  have q': "runes (q @ t) = ?q @ runes t" "enc ?q = q" for t
    unfolding q by (induction n) (auto simp: quote_char enc_quotes)
  have r: "runes (q @ s @ q) = ?q @ runes s @ ?q"
    using runes_append [OF s(1), of q] q'(1) [of "[]"] q'(1) [of "s @ q"] by simp
  have "\<not> snd (mf_unquote (trim_space (enc xs)))"
    if x: "?q @ runes s @ ?q = xs @ r # ys" "rune_isNewline r" for xs r ys
  proof -
    have "r \<notin> set ?q" using x(2) by (auto simp: rune_isNewline_def)
    then obtain p u where p: "xs = ?q @ p" "runes s = p @ r # u" using split_between [OF x(1)] by blast
    then have "s = enc p @ enc (r # u)" using s(1) enc_simps(3) by metis
    with op [of p] show ?thesis by (simp add: p(1) q'(2))
  qed
  moreover have "kept wide r" if "r \<in> set (?q @ runes s @ ?q)" for r
    using that s(2) by (auto simp: list_all_iff)
  ultimately show ?thesis
    using value_reads [of v "?q @ runes s @ ?q" wide lw] v s(1) q'(2) by (simp add: r)
qed

lemma newline_chars: "char_of (13 :: nat) = CHR 0x0D" "char_of (10 :: nat) = CHR 0x0A"
  by code_simp+

lemma reads_text:
  assumes v: "pf_curr v = stateValue" "pf_b v = []" and s: "text_arg wide s"
  shows "\<exists>l. pf_run wide lw (runes (mf_quote s)) v = Inr (v\<lparr>pf_line := l, pf_b := mf_quote s\<rparr>) \<and>
    mf_unquote (trim_space (mf_quote s)) = (s, True)"
proof -
  let ?Q = "contains s newline \<or> has_prefix s '' '' \<or> has_suffix s '' ''"
  have e: "enc (runes s) = s" "list_all (kept wide) (runes s)" and k: "\<And>r. r \<in> set (runes s) \<Longrightarrow> kept wide r"
    and vs: "valid_utf8 s" using s valid_enc [of "runes s"] by (auto simp: text_arg_def list_all_iff)
  consider (plain) "mf_quote s = s" "\<not> ?Q" | (single) "mf_quote s = [dquote] @ s @ [dquote]" "?Q" "dquote \<notin> set s"
    | (triple) "mf_quote s = dquote3 @ s @ dquote3" "?Q"
    unfolding mf_quote_def contains_single by (cases ?Q; cases "dquote \<in> set s") simp_all
  then show ?thesis
  proof cases
    case plain
    then have p: "CHR 0x0D \<notin> set s" "trim_space s = s" "s = [] \<or> hd s \<noteq> dquote" using s by (auto simp: text_arg_def)
    have "\<not> rune_isNewline r" if "r \<in> set (runes s)" for r
    proof -
      have "char_of r \<in> set s" if "r < 128"
      proof -
        have "encode_rune r = [char_of r]" using that by (simp add: encode_rune_def encode_rune_bytes_def)
        with \<open>r \<in> set (runes s)\<close> have "char_of r \<in> set (enc (runes s))" by (force simp: enc_def)
        with e(1) show ?thesis by simp
      qed
      moreover have "CHR 0x0A \<notin> set s" using plain(2) by (simp add: newline_def contains_single)
      ultimately show ?thesis using p(1) by (auto simp: rune_isNewline_def newline_chars)
    qed
    then show ?thesis
      using value_reads [of v "runes s" wide lw] v k p(2) e unquote_plain [OF p(3)] plain(1) by auto
  next
    case single
    have "\<not> snd (mf_unquote (trim_space ([dquote] @ enc p)))" if "s = enc p @ u" for p u
      using open_single [of "enc p"] single(3) that by auto
    moreover have "s \<noteq> []" using single(2) by (auto simp: newline_def has_suffix_def)
    ultimately show ?thesis
      using reads_quoted [OF v e, of "[dquote]" 1] single trim_space_closed [OF vs]
        unquote_single [of s] by (auto simp: contains_single)
  next
    case triple
    have "\<not> snd (mf_unquote (trim_space (dquote3 @ enc p)))" if "s = enc p @ u" for p u
      using open_triple [of "enc p"] triple(2) s that by (auto simp: text_arg_def dest: contains_append)
    then show ?thesis
      using reads_quoted [OF v e, of dquote3 3] triple(1) trim_space_closed3 [OF vs] unquote_triple [of s]
      by (simp add: dquote3_def numeral_3_eq_3)
  qed
qed


text \<open>The line feed completes a value.\<close>

lemma value_ends:
  assumes "pf_curr v = stateValue" "mf_unquote (trim_space (pf_b v)) = (s, True)" "arg = (if pf_role v \<noteq> [] then pf_role v @ '': '' @ s else s)"
    and "SwallowedDirective (cmd_Name (pf_cmd v)) arg = []"
  shows "\<exists>w. pf_step wide lw 10 v = Inr w \<and> pf_curr w = stateNil \<and> pf_b w = [] \<and> pf_role w = [] \<and>
    pf_cmds w = pf_cmds v @ [\<lparr>cmd_Name = cmd_Name (pf_cmd v), cmd_Args = arg\<rparr>]"
  using assms
  by (cases "pf_cmd v"; cases "pf_role v = []")
    (simp_all add: pf_step_def parseRuneForState_def rune_isNewline_def rune_isSpace_def pf_leave_def pf_emit_def
      checkSwallowedDirective_def is_print_def Let_def)

subsection \<open>A command\<close>

text \<open>Between two commands.\<close>

definition ready :: "modelfile \<Rightarrow> mf_vars \<Rightarrow> bool" where
  "ready cmds v \<longleftrightarrow> pf_curr v = stateNil \<and> pf_b v = [] \<and> pf_role v = [] \<and> pf_cmds v = cmds"

text \<open>Before a value: the name and the role of the command are known.\<close>

definition at_value :: "modelfile \<Rightarrow> string \<Rightarrow> string \<Rightarrow> mf_vars \<Rightarrow> bool" where
  "at_value cmds name role v \<longleftrightarrow> pf_curr v = stateValue \<and> pf_b v = [] \<and> pf_role v = role \<and> pf_cmds v = cmds \<and>
     cmd_Name (pf_cmd v) = name"

lemma reads_value:
  assumes v: "at_value cmds name role v" and s: "text_arg wide s"
    and d: "SwallowedDirective name arg = []" and a: "arg = (if role \<noteq> [] then role @ '': '' @ s else s)"
  shows "\<exists>w. pf_run wide lw (runes (mf_quote s @ newline @ t)) v = pf_run wide lw (runes t) w \<and>
    ready (cmds @ [\<lparr>cmd_Name = name, cmd_Args = arg\<rparr>]) w"
proof -
  have q: "enc (runes (mf_quote s)) = mf_quote s"
  proof -
    have e: "enc (runes s) = s" using s by (simp add: text_arg_def)
    have "runes (dquote # t) = 34 # runes t" for t by (simp add: quote_char)
    with runes_append [OF e] show ?thesis
      by (auto simp: mf_quote_def dquote3_def e enc_quotes)
  qed
  obtain l where l: "pf_run wide lw (runes (mf_quote s)) v = Inr (v\<lparr>pf_line := l, pf_b := mf_quote s\<rparr>)"
    and u: "mf_unquote (trim_space (mf_quote s)) = (s, True)"
    using reads_text [OF _ _ s, of v lw] v by (auto simp: at_value_def)
  let ?v = "v\<lparr>pf_line := l, pf_b := mf_quote s\<rparr>"
  have "\<exists>w. pf_step wide lw 10 ?v = Inr w \<and> pf_curr w = stateNil \<and> pf_b w = [] \<and> pf_role w = [] \<and>
    pf_cmds w = pf_cmds ?v @ [\<lparr>cmd_Name = cmd_Name (pf_cmd ?v), cmd_Args = arg\<rparr>]"
    using v u d a by (intro value_ends) (auto simp: at_value_def)
  then show ?thesis
    using v by (auto simp: runes_append [OF q] pf_run_append l newline_def ready_def at_value_def)
qed

lemma reads_word:
  assumes "list_all (\<lambda>c. rune_isAlpha (of_char c)) w" "pf_curr v = st" "st = stateName \<or> st = stateMessage"
  shows "pf_run wide lw (map of_char w) v = Inr (v\<lparr>pf_b := pf_b v @ w\<rparr>)"
  using assms(1,2)
proof (induction w arbitrary: v)
  case (Cons c w)
  then have "pf_step wide lw (of_char c) v = Inr (v\<lparr>pf_b := pf_b v @ [c]\<rparr>)"
    using assms(3)
    by (auto simp: pf_step_def parseRuneForState_def rune_isAlpha_def rune_isNewline_def is_print_def encode_rune_char)
  with Cons show ?case by simp
qed (cases v, simp)

lemma reads_parameter_name:
  assumes "list_all name_char w" "pf_curr v = stateParameter"
  shows "pf_run wide lw (map of_char w) v = Inr (v\<lparr>pf_b := pf_b v @ w\<rparr>)"
  using assms
proof (induction w arbitrary: v)
  case (Cons c w)
  then have "pf_step wide lw (of_char c) v = Inr (v\<lparr>pf_b := pf_b v @ [c]\<rparr>)"
    by (auto simp: pf_step_def parseRuneForState_def name_char_def rune_isAlpha_def rune_isNumber_def
        rune_isNewline_def is_print_def encode_rune_char Let_def)
  with Cons show ?case by simp
qed (cases v, simp)


lemma reads_keyword:
  assumes v: "ready cmds v" and w: "list_all (\<lambda>c. rune_isAlpha (of_char c)) w" "w \<noteq> []"
    and k: "isValidCommand lw w" and lo: "to_lower lw w = s" and r: "list_all (\<lambda>c. of_char c < (128 :: nat)) w"
  shows "\<exists>u. pf_run wide lw (runes (w @ '' '' @ t)) v = pf_run wide lw (runes t) u \<and>
    pf_b u = [] \<and> pf_role u = [] \<and> pf_cmds u = cmds \<and>
    pf_curr u = (if s = ''parameter'' then stateParameter else if s = ''message'' then stateMessage else stateValue) \<and>
    (s \<noteq> ''parameter'' \<longrightarrow> cmd_Name (pf_cmd u) = (if s = ''from'' then ''model'' else s))"
proof -
  obtain c x where c: "w = c # x" using w(2) by (cases w) auto
  let ?v = "v\<lparr>pf_b := [c], pf_curr := stateName\<rparr>"
  have 1: "pf_step wide lw (of_char c) v = Inr ?v"
    using v w(1) r unfolding c ready_def
    by (cases v) (auto simp: pf_step_def parseRuneForState_def pf_leave_def rune_isAlpha_def rune_isNewline_def
      rune_isSpace_def is_print_def encode_rune_char Let_def)
  have 2: "pf_run wide lw (map of_char x) ?v = Inr (?v\<lparr>pf_b := w\<rparr>)"
    using reads_word [of x ?v stateName wide lw] w(1) by (simp add: c)
  have 3: "\<exists>u. pf_step wide lw 32 (?v\<lparr>pf_b := w\<rparr>) = Inr u \<and> 
    pf_b u = [] \<and> pf_role u = [] \<and> pf_cmds u = cmds \<and>
    pf_curr u = (if s = ''parameter'' then stateParameter else if s = ''message'' then stateMessage else stateValue) \<and>
    (s \<noteq> ''parameter'' \<longrightarrow> cmd_Name (pf_cmd u) = (if s = ''from'' then ''model'' else s))"
    using v k lo by (auto simp: ready_def pf_step_def parseRuneForState_def pf_leave_def rune_isAlpha_def rune_isNewline_def
      rune_isSpace_def is_print_def Let_def)
  have "runes (w @ '' '' @ t) = map of_char w @ 32 # runes t"
    using runes_ascii_append [OF r, of "'' '' @ t"] by simp
  moreover obtain u where u: "pf_step wide lw 32 (?v\<lparr>pf_b := w\<rparr>) = Inr u"
    "pf_b u = [] \<and> pf_role u = [] \<and> pf_cmds u = cmds \<and>
    pf_curr u = (if s = ''parameter'' then stateParameter else if s = ''message'' then stateMessage else stateValue) \<and>
    (s \<noteq> ''parameter'' \<longrightarrow> cmd_Name (pf_cmd u) = (if s = ''from'' then ''model'' else s))"
    using 3 by blast
  ultimately have "pf_run wide lw (runes (w @ '' '' @ t)) v = pf_run wide lw (runes t) u"
    using 1 2 by (simp add: c pf_run_append)
  with u(2) show ?thesis by blast
qed

text \<open>The keyword of each command, as it is printed, is an ASCII word that is read back in lower case.\<close>

lemma upper_names: "map to_upper_ascii quoted_commands = [''LICENSE'', ''TEMPLATE'', ''SYSTEM'', ''ADAPTER'',
    ''RENDERER'', ''PARSER'', ''REQUIRES'', ''DRAFT'', ''CAPABILITY'', ''XOLLAMA'']"
  by (simp add: quoted_commands_def to_upper_ascii_def char_of_eq_iff)

definition keyword_ok :: "string \<Rightarrow> string \<Rightarrow> bool" where
  "keyword_ok w s \<longleftrightarrow> list_all (\<lambda>c. rune_isAlpha (of_char c)) w \<and> w \<noteq> [] \<and> list_all (\<lambda>c. of_char c < (128 :: nat)) w \<and>
     (\<forall>lw. to_lower lw w = s)"

lemma to_lower_ascii:
  "list_all (\<lambda>c. of_char c < (128 :: nat)) w \<Longrightarrow>
     to_lower lw w = map (\<lambda>c. let b = (of_char c :: nat) in if 65 \<le> b \<and> b \<le> 90 then char_of (b + 32) else c) w"
proof (induction w)
  case Nil
  then show ?case by (simp add: to_lower_def)
next
  case (Cons c w)
  moreover have "encode_rune (b + 32) = [char_of (b + 32)]" if "b \<le> 90" for b
    using that by (simp add: encode_rune_def encode_rune_bytes_def)
  ultimately show ?case
    by (auto simp: to_lower_def map_runes_ascii encode_rune_char Let_def)
qed

lemma keyword_okI:
  "list_all (\<lambda>c. rune_isAlpha (of_char c)) w \<and> w \<noteq> [] \<and> list_all (\<lambda>c. of_char c < (128 :: nat)) w \<Longrightarrow>
   map (\<lambda>c. let b = (of_char c :: nat) in if 65 \<le> b \<and> b \<le> 90 then char_of (b + 32) else c) w = s \<Longrightarrow> keyword_ok w s"
  by (auto simp: keyword_ok_def to_lower_ascii)

lemma keywords_ok:
  "keyword_ok ''FROM'' ''from''" "keyword_ok ''PARAMETER'' ''parameter''" "keyword_ok ''MESSAGE'' ''message''"
  "n \<in> set quoted_commands \<Longrightarrow> keyword_ok (to_upper_ascii n) n"
proof -
  have "list_all2 keyword_ok (map to_upper_ascii quoted_commands) quoted_commands"
    by (subst upper_names, unfold quoted_commands_def) (simp; intro conjI keyword_okI; simp add: rune_isAlpha_def char_of_eq_iff)
  then show "n \<in> set quoted_commands \<Longrightarrow> keyword_ok (to_upper_ascii n) n"
    by (auto simp: list_all2_map1 list_all2_same)
qed (rule keyword_okI; simp add: rune_isAlpha_def char_of_eq_iff)+


definition is_keyword :: "string \<Rightarrow> bool" where
  "is_keyword n \<longleftrightarrow> n = ''model'' \<or> n = ''message'' \<or> n \<in> set quoted_commands"

lemma keyword_reads:
  assumes "ready cmds v" "keyword_ok w s" "s \<in> {''from'', ''parameter'', ''message''} \<union> set quoted_commands"
  shows "\<exists>u. pf_run wide lw (runes (w @ '' '' @ t)) v = pf_run wide lw (runes t) u \<and>
    pf_b u = [] \<and> pf_role u = [] \<and> pf_cmds u = cmds \<and>
    pf_curr u = (if s = ''parameter'' then stateParameter else if s = ''message'' then stateMessage else stateValue) \<and>
    (s \<noteq> ''parameter'' \<longrightarrow> cmd_Name (pf_cmd u) = (if s = ''from'' then ''model'' else s))"
proof (rule reads_keyword [OF assms(1)])
  show "isValidCommand lw w"
  proof -
    have "s \<in> set [''from'', ''license'', ''template'', ''system'', ''adapter'', ''draft'', ''renderer'',
       ''parser'', ''parameter'', ''message'', ''requires'', ''capability'', ''xollama'']"
      using assms(3) by (auto simp only: quoted_commands_def list.set insert_iff Un_iff empty_iff)
    then show ?thesis using assms(2) by (simp only: keyword_ok_def isValidCommand_def simp_thms)
  qed
qed (use assms(2) in \<open>simp_all add: keyword_ok_def\<close>)

text \<open>After \<open>PARAMETER\<close> comes the name, after \<open>MESSAGE\<close> the role.\<close>

lemma parameter_reads:
  assumes v: "ready cmds v" and w: "list_all name_char w" "list_all (\<lambda>c. of_char c < (128 :: nat)) w"
  shows "\<exists>u. pf_run wide lw (runes (''PARAMETER '' @ w @ '' '' @ t)) v = pf_run wide lw (runes t) u \<and> at_value cmds w [] u"
proof -
  obtain u where u: "pf_run wide lw (runes (''PARAMETER'' @ '' '' @ w @ '' '' @ t)) v = pf_run wide lw (runes (w @ '' '' @ t)) u"
    "pf_b u = []" "pf_role u = []" "pf_cmds u = cmds" "pf_curr u = stateParameter"
    using keyword_reads [OF v keywords_ok(2), where wide = wide and lw = lw and t = "w @ '' '' @ t"] by auto
  have r: "runes (w @ '' '' @ t) = map of_char w @ 32 # runes t"
    using runes_ascii_append [OF w(2), of "'' '' @ t"] by simp
  obtain x where x: "pf_step wide lw 32 (u\<lparr>pf_b := w\<rparr>) = Inr x" "at_value cmds w [] x"
    using u by (auto simp: at_value_def pf_step_def parseRuneForState_def pf_leave_def rune_isAlpha_def rune_isNumber_def
      rune_isNewline_def rune_isSpace_def is_print_def Let_def)
  have "pf_run wide lw (runes (w @ '' '' @ t)) u = pf_run wide lw (runes t) x"
    using reads_parameter_name [OF w(1), of u wide lw] u(2,5) x(1) unfolding r by (simp add: pf_run_append)
  moreover have "''PARAMETER '' @ w @ '' '' @ t = ''PARAMETER'' @ '' '' @ w @ '' '' @ t" by simp
  ultimately show ?thesis using u(1) x(2) by metis
qed

lemma message_reads:
  assumes v: "ready cmds v" and w: "isValidMessageRole w"
  shows "\<exists>u. pf_run wide lw (runes (''MESSAGE '' @ w @ '' '' @ t)) v = pf_run wide lw (runes t) u \<and>
    at_value cmds ''message'' w u"
proof -
  obtain u where u: "pf_run wide lw (runes (''MESSAGE'' @ '' '' @ w @ '' '' @ t)) v = pf_run wide lw (runes (w @ '' '' @ t)) u"
    "pf_b u = []" "pf_role u = []" "pf_cmds u = cmds" "pf_curr u = stateMessage" "cmd_Name (pf_cmd u) = ''message''"
    using keyword_reads [OF v keywords_ok(3), where wide = wide and lw = lw and t = "w @ '' '' @ t"] by auto
  have a: "list_all (\<lambda>c. rune_isAlpha (of_char c)) w" "list_all (\<lambda>c. of_char c < (128 :: nat)) w"
    using w by (auto simp: isValidMessageRole_def rune_isAlpha_def)
  have r: "runes (w @ '' '' @ t) = map of_char w @ 32 # runes t"
    using runes_ascii_append [OF a(2), of "'' '' @ t"] by simp
  obtain x where x: "pf_step wide lw 32 (u\<lparr>pf_b := w\<rparr>) = Inr x" "at_value cmds ''message'' w x"
    using u w by (auto simp: at_value_def pf_step_def parseRuneForState_def pf_leave_def rune_isAlpha_def
      rune_isNewline_def rune_isSpace_def is_print_def Let_def)
  have "pf_run wide lw (runes (w @ '' '' @ t)) u = pf_run wide lw (runes t) x"
    using reads_word [OF a(1), of u stateMessage wide lw] u(2,5) x(1) unfolding r by (simp add: pf_run_append)
  moreover have "''MESSAGE '' @ w @ '' '' @ t = ''MESSAGE'' @ '' '' @ w @ '' '' @ t" by simp
  ultimately show ?thesis using u(1) x(2) by metis
qed

text \<open>The commands that are read back: clean ones with a text that is, a base model being printed without quotes.\<close>

definition readable :: "(nat \<Rightarrow> bool) \<Rightarrow> command \<Rightarrow> bool" where
  "readable wide c \<longleftrightarrow> clean_command c \<and> list_all (\<lambda>ch. of_char ch < (128 :: nat)) (cmd_Name c) \<and>
     (if cmd_Name c = ''message'' then
        (case cut (cmd_Args c) '': '' of
           None \<Rightarrow> False
         | Some (role, message) \<Rightarrow> isValidMessageRole role \<and> text_arg wide message)
      else text_arg wide (cmd_Args c) \<and> (cmd_Name c = ''model'' \<longrightarrow> mf_quote (cmd_Args c) = cmd_Args c))"

lemma command_reads:
  assumes v: "ready cmds v" and c: "readable wide c"
  shows "\<exists>w. pf_run wide lw (runes (command_String c @ newline @ t)) v = pf_run wide lw (runes t) w \<and>
    ready (cmds @ [c]) w"
proof -
  let ?n = "cmd_Name c" and ?a = "cmd_Args c"
  have e: "\<lparr>cmd_Name = ?n, cmd_Args = ?a\<rparr> = c" by simp
  have d: "SwallowedDirective ?n ?a = []" and nm: "list_all name_char ?n" "list_all (\<lambda>ch. of_char ch < (128 :: nat)) ?n"
    using c by (auto simp: readable_def clean_command_def)
  consider (model) "?n = ''model''" | (quoted) "?n \<noteq> ''model''" "?n \<in> set quoted_commands" | (message) "?n = ''message''"
    | (parameter) "?n \<noteq> ''model''" "?n \<notin> set quoted_commands" "?n \<noteq> ''message''"
    by blast
  then show ?thesis
  proof cases
    case model
    obtain u where u: "pf_run wide lw (runes (''FROM'' @ '' '' @ mf_quote ?a @ newline @ t)) v = pf_run wide lw (runes (mf_quote ?a @ newline @ t)) u"
      "at_value cmds ?n [] u"
      using keyword_reads [OF v keywords_ok(1), where wide = wide and lw = lw and t = "mf_quote ?a @ newline @ t"] model by (auto simp: at_value_def)
    have "command_String c @ newline @ t = ''FROM'' @ '' '' @ mf_quote ?a @ newline @ t" "text_arg wide ?a"
      using c model by (simp_all add: command_String_def readable_def)
    with u reads_value [OF u(2) _ d, where wide = wide and s = ?a and lw = lw and t = t] show ?thesis by (simp only: e list.simps simp_thms if_False if_True refl)
  next
    case quoted
    then have "?n \<noteq> ''from''" "?n \<noteq> ''parameter''" "?n \<noteq> ''message''" by (auto simp: quoted_commands_def)
    then obtain u where u: "pf_run wide lw (runes (to_upper_ascii ?n @ '' '' @ mf_quote ?a @ newline @ t)) v = pf_run wide lw (runes (mf_quote ?a @ newline @ t)) u"
      "at_value cmds ?n [] u"
      using keyword_reads [OF v keywords_ok(4), of ?n, where wide = wide and lw = lw and t = "mf_quote ?a @ newline @ t"] quoted by (auto simp: at_value_def)
    have "command_String c @ newline @ t = to_upper_ascii ?n @ '' '' @ mf_quote ?a @ newline @ t" "text_arg wide ?a"
      using c quoted \<open>?n \<noteq> ''message''\<close> by (simp_all add: command_String_def readable_def)
    with u reads_value [OF u(2) _ d, where wide = wide and s = ?a and lw = lw and t = t] show ?thesis by (simp only: e list.simps simp_thms if_False if_True refl)
  next
    case message
    obtain role m where m: "cut ?a '': '' = Some (role, m)" "isValidMessageRole role" "text_arg wide m"
      using c message by (auto simp: readable_def split: option.splits)
    then have a: "?a = role @ '': '' @ m" "role \<noteq> []" by (auto dest: cut_SomeD simp: isValidMessageRole_def)
    obtain u where u: "pf_run wide lw (runes (''MESSAGE '' @ role @ '' '' @ mf_quote m @ newline @ t)) v = pf_run wide lw (runes (mf_quote m @ newline @ t)) u"
      "at_value cmds ?n role u"
      using message_reads [OF v m(2), where wide = wide and lw = lw and t = "mf_quote m @ newline @ t"] message by auto
    have "command_String c @ newline @ t = ''MESSAGE '' @ role @ '' '' @ mf_quote m @ newline @ t"
      using message m(1) by (simp add: command_String_def quoted_commands_def)
    moreover obtain x where "pf_run wide lw (runes (mf_quote m @ newline @ t)) u = pf_run wide lw (runes t) x"
      "ready (cmds @ [c]) x"
      using reads_value [OF u(2) m(3) d, where lw = lw and t = t] a unfolding e by auto
    ultimately show ?thesis using u(1) by metis
  next
    case parameter
    obtain u where u: "pf_run wide lw (runes (''PARAMETER '' @ ?n @ '' '' @ mf_quote ?a @ newline @ t)) v = pf_run wide lw (runes (mf_quote ?a @ newline @ t)) u"
      "at_value cmds ?n [] u"
      using parameter_reads [OF v nm, where wide = wide and lw = lw and t = "mf_quote ?a @ newline @ t"] by auto
    have "command_String c @ newline @ t = ''PARAMETER '' @ ?n @ '' '' @ mf_quote ?a @ newline @ t" "text_arg wide ?a"
      using c parameter by (simp_all add: command_String_def readable_def)
    with u reads_value [OF u(2) _ d, where wide = wide and s = ?a and lw = lw and t = t] show ?thesis by (simp only: e list.simps simp_thms if_False if_True refl)
  qed
qed

lemma modelfile_reads:
  "list_all (readable wide) f \<Longrightarrow> ready cmds v \<Longrightarrow>
     \<exists>w. pf_run wide lw (runes (modelfile_String f)) v = Inr w \<and> ready (cmds @ f) w"
proof (induction f arbitrary: cmds v)
  case (Cons c f)
  obtain u where u: "pf_run wide lw (runes (command_String c @ newline @ modelfile_String f)) v =
      pf_run wide lw (runes (modelfile_String f)) u" "ready (cmds @ [c]) u"
    using command_reads [OF Cons.prems(2), of wide c lw "modelfile_String f"] Cons.prems(1) by auto
  with Cons.IH [OF _ u(2)] Cons.prems(1) show ?case by (simp add: modelfile_String_def)
qed (simp add: modelfile_String_def)

lemma printed_file_parses:
  "list_all (readable wide) f \<and> list_ex (\<lambda>c. cmd_Name c = ''model'') f \<Longrightarrow>
     ParseFile wide lw (runes (modelfile_String f)) = Inr f"
  using modelfile_reads [of wide f "[]" pf_init lw]
  by (auto simp: ready_def pf_init_def ParseFile_def pf_flush_def)


text \<open>A parameter can be called \<open>model\<close>, which is the name the \<open>FROM\<close> command gets: the file has no base model
  line, and is accepted with one.\<close>

theorem parameter_named_model:
  "ParseFile wide lw (runes (''PARAMETER model x'' @ newline)) = Inr [\<lparr>cmd_Name = ''model'', cmd_Args = ''x''\<rparr>]"
proof -
  have t: "text_arg wide ''x''" and q: "mf_quote ''x'' = ''x''"
    by (simp_all add: text_arg_def mf_quote_def contains_def newline_def has_suffix_def has_prefix_def encode_rune_char
      kept_def is_print_def trim_space_def str_simps is_space_def dquote_def enc_def encode_rune_def encode_rune_bytes_def char_of_eq_iff)
  have v: "ready [] pf_init" by (simp add: ready_def pf_init_def)
  obtain u where u: "pf_run wide lw (runes (''PARAMETER '' @ ''model'' @ '' '' @ mf_quote ''x'' @ newline @ [])) pf_init =
      pf_run wide lw (runes (mf_quote ''x'' @ newline @ [])) u" "at_value [] ''model'' [] u"
    using parameter_reads [OF v, of "''model''" wide lw "mf_quote ''x'' @ newline @ []"]
    by (auto simp: name_char_def rune_isAlpha_def Let_def)
  obtain x where "pf_run wide lw (runes (mf_quote ''x'' @ newline @ [])) u = pf_run wide lw (runes []) x"
    "ready [\<lparr>cmd_Name = ''model'', cmd_Args = ''x''\<rparr>] x"
    using reads_value [OF u(2) t, of "''x''" lw "[]"] by (auto simp: SwallowedDirective_def)
  with u(1) show ?thesis
    by (simp add: q ParseFile_def ready_def pf_flush_def)
qed

lemma text_arg_ascii:
  "list_all (\<lambda>c. of_char c < (128 :: nat) \<and> kept wide (of_char c)) s \<Longrightarrow>
     enc (runes s) = s \<and> list_all (kept wide) (runes s)"
  using runes_ascii_append [of s "[]"] enc_ascii [of s] by (auto simp: list_all_iff)

definition example_modelfile :: modelfile where
  "example_modelfile = [\<lparr>cmd_Name = ''model'', cmd_Args = ''x''\<rparr>, \<lparr>cmd_Name = ''message'', cmd_Args = ''user: a \"b\" ''\<rparr>,
     \<lparr>cmd_Name = ''top_k'', cmd_Args = ''1''\<rparr>]"

lemma contains_decide [simp]:
  "contains [] (c # d) = False" "contains (x # s) (c # d) = (has_prefix (x # s) (c # d) \<or> contains s (c # d))"
  by (simp_all add: contains_def split: option.splits)

lemma example_readable: "list_all (readable (\<lambda>_. False)) example_modelfile"
proof -
  have "text_arg (\<lambda>_. False) ''x''" "text_arg (\<lambda>_. False) ''1''" "text_arg (\<lambda>_. False) ''a \"b\" ''"
    using text_arg_ascii [of "\<lambda>_. False" "''x''"] text_arg_ascii [of "\<lambda>_. False" "''1''"]
      text_arg_ascii [of "\<lambda>_. False" "''a \"b\" ''"]
    by (simp_all add: text_arg_def newline_def has_suffix_def has_prefix_def
      kept_def is_print_def trim_space_def str_simps is_space_def dquote_def dquote3_def rune_isSpace_def)
  moreover have "cut ''user: a \"b\" '' '': '' = Some (''user'', ''a \"b\" '')"
    by (simp add: cut_def has_prefix_def)
  ultimately show ?thesis
    by (simp add: example_modelfile_def readable_def clean_command_def SwallowedDirective_def isValidMessageRole_def
      mf_quote_def newline_def has_suffix_def has_prefix_def name_char_def rune_isAlpha_def rune_isNumber_def Let_def)
qed


text \<open>C19: a Modelfile of readable commands with a base model is read back, from the text \<open>String\<close> prints, as it was.\<close>

theorem modelfile_round_trip:
  "list_all (readable wide) f \<and> list_ex (\<lambda>c. cmd_Name c = ''model'') f \<Longrightarrow>
     ParseFile wide lw (runes (modelfile_String f)) = Inr f"
  by (rule printed_file_parses)

theorem modelfile_round_trip_witness:
  "ParseFile (\<lambda>_. False) id (runes (modelfile_String example_modelfile)) = Inr example_modelfile"
  using modelfile_round_trip [of "\<lambda>_. False" example_modelfile id] example_readable
  by (simp add: example_modelfile_def)



end
