(* ===== verification/CacheTrie.thy ===== *)
theory CacheTrie
  imports Prelude "HOL-Library.Word"
begin

text \<open>
  \<open>mlxrunner/cache_trie.go\<close>: the compressed prefix trie of the prefix cache.  The nodes live in a store, a
  pointer is an index into it; parent pointers, children and edges are changed in place as the code does.  A node
  that is cut off stays in the store, as an object does that nothing in the trie refers to any more.

  A snapshot of a cache layer has a size and an optional hook, which charges what a lazy snapshot allocates later
  to the counter of paged-out bytes.  \<open>Split\<close> and \<open>Merge\<close> are operations of the cache layers, which work on
  device arrays: they are parameters.  A panic is \<open>None\<close>.
\<close>

section \<open>Model\<close>

type_synonym trieKey = "64 word"

record 'd snapshot =
  ss_data :: 'd
  ss_size :: int
  ss_hook :: bool

type_synonym 'd layers = "'d snapshot option list"

record 'd trieNode =
  tn_tokens :: "trieKey list"
  tn_endOffset :: int
  tn_parent :: "nat option"
  tn_children :: "nat list"
  tn_lastUsed :: int
  tn_snapshots :: "'d layers"
  tn_user :: bool

text \<open>The store: the nodes, the next free index, and the counter the trie operations are given.\<close>

record 'd store =
  st_node :: "nat \<Rightarrow> 'd trieNode"
  st_next :: nat
  st_bytes :: int

text \<open>What the trie uses of a cache layer; a stateless layer is \<open>None\<close> in the list of layers.\<close>

record 'd layer_ops =
  lo_Split :: "'d snapshot \<Rightarrow> int \<Rightarrow> 'd snapshot option \<times> 'd snapshot option"
  lo_Merge :: "'d snapshot option \<Rightarrow> 'd snapshot option \<Rightarrow> 'd snapshot option"

definition set_node :: "nat \<Rightarrow> 'd trieNode \<Rightarrow> 'd store \<Rightarrow> 'd store" where
  "set_node n x h = h\<lparr>st_node := (st_node h)(n := x)\<rparr>"

definition new_node :: "'d trieNode \<Rightarrow> 'd store \<Rightarrow> nat \<times> 'd store" where
  "new_node x h = (st_next h, h\<lparr>st_node := (st_node h)(st_next h := x), st_next := Suc (st_next h)\<rparr>)"

definition startOffset :: "'d trieNode \<Rightarrow> int" where
  "startOffset n = tn_endOffset n - int (length (tn_tokens n))"

definition layers_bytes :: "'d layers \<Rightarrow> int" where
  "layers_bytes ss = sum_list (map (\<lambda>s. case s of Some s \<Rightarrow> ss_size s | None \<Rightarrow> 0) ss)"

definition snapshotBytes :: "'d trieNode \<Rightarrow> int" where
  "snapshotBytes n = layers_bytes (tn_snapshots n)"

definition set_hooks :: "bool \<Rightarrow> 'd layers \<Rightarrow> 'd layers" where
  "set_hooks b ss = map (map_option (\<lambda>s. s\<lparr>ss_hook := b\<rparr>)) ss"

text \<open>\<open>counter\<close> says whether a counter is given; it is the one of the store.\<close>

definition swapSnapshots :: "nat \<Rightarrow> 'd layers \<Rightarrow> bool \<Rightarrow> 'd store \<Rightarrow> 'd layers \<times> 'd store" where
  "swapSnapshots n snaps counter h =
     (let nd = st_node h n;
          old = set_hooks False (tn_snapshots nd);
          h = (if counter then h\<lparr>st_bytes := st_bytes h - snapshotBytes nd\<rparr> else h);
          nd = nd\<lparr>tn_snapshots := if counter then set_hooks True snaps else snaps\<rparr>;
          h = set_node n nd h;
          h = (if counter then h\<lparr>st_bytes := st_bytes h + snapshotBytes nd\<rparr> else h)
      in (old, h))"

text \<open>The old snapshots are closed: nothing refers to them any more.\<close>

definition setSnapshots :: "nat \<Rightarrow> 'd layers \<Rightarrow> bool \<Rightarrow> 'd store \<Rightarrow> 'd store" where
  "setSnapshots n snaps counter h = snd (swapSnapshots n snaps counter h)"

definition hasSnapshots :: "'d trieNode \<Rightarrow> bool" where
  "hasSnapshots n \<longleftrightarrow> list_ex (\<lambda>s. s \<noteq> None) (tn_snapshots n)"

text \<open>A lazy snapshot of a node materialises: it grows, and its hook charges the counter.\<close>

definition materialize :: "nat \<Rightarrow> nat \<Rightarrow> int \<Rightarrow> 'd store \<Rightarrow> 'd store" where
  "materialize n i delta h =
     (let nd = st_node h n in
      if i < length (tn_snapshots nd) then
        (case tn_snapshots nd ! i of
           None \<Rightarrow> h
         | Some s \<Rightarrow>
             (let h' = set_node n (nd\<lparr>tn_snapshots := (tn_snapshots nd)[i := Some (s\<lparr>ss_size := ss_size s + delta\<rparr>)]\<rparr>) h
              in if ss_hook s then h'\<lparr>st_bytes := st_bytes h' + delta\<rparr> else h'))
      else h)"

definition hasAllSnapshots :: "'d trieNode \<Rightarrow> 'c option list \<Rightarrow> bool" where
  "hasAllSnapshots n caches \<longleftrightarrow>
     tn_snapshots n \<noteq> [] \<and>
     list_all (\<lambda>i. caches ! i = None \<or> (i < length (tn_snapshots n) \<and> tn_snapshots n ! i \<noteq> None)) [0..<length caches]"

subsection \<open>Matching\<close>

fun common_len :: "'k list \<Rightarrow> 'k list \<Rightarrow> nat" where
  "common_len (x # xs) (y # ys) = (if x = y then Suc (common_len xs ys) else 0)"
| "common_len _ _ = 0"

text \<open>The loop over the children: the best one so far, how much of it matched and whether all of its edge did.\<close>

definition better_child ::
  "'d store \<Rightarrow> trieKey list \<Rightarrow> nat \<Rightarrow> (nat \<times> nat \<times> bool) option \<Rightarrow> (nat \<times> nat \<times> bool) option" where
  "better_child h toks child best =
     (let edge = tn_tokens (st_node h child) in
      if edge = [] then best
      else if hd edge \<noteq> hd toks then best
      else
        (let j = common_len edge toks; full = (j = length edge) in
         case best of
           None \<Rightarrow> Some (child, j, full)
         | Some (_, bestMatched, bestFull) \<Rightarrow>
             if full \<and> \<not> bestFull \<or> full = bestFull \<and> j > bestMatched then Some (child, j, full) else best))"

definition best_child :: "'d store \<Rightarrow> trieKey list \<Rightarrow> nat list \<Rightarrow> (nat \<times> nat \<times> bool) option" where
  "best_child h toks children = fold (better_child h toks) children None"

definition fits :: "'d store \<Rightarrow> trieKey list \<Rightarrow> nat list \<Rightarrow> nat \<times> nat \<times> bool \<Rightarrow> bool" where
  "fits h toks cs = (\<lambda>(c, j, full). c \<in> set cs \<and> tn_tokens (st_node h c) \<noteq> [] \<and> hd (tn_tokens (st_node h c)) = hd toks \<and>
     j = common_len (tn_tokens (st_node h c)) toks \<and> full = (j = length (tn_tokens (st_node h c))))"

lemma best_child_fits: "best_child h toks cs = Some b \<Longrightarrow> fits h toks cs b"
proof -
  have "fold (better_child h toks) xs best = Some b \<Longrightarrow> (\<And>b. best = Some b \<Longrightarrow> fits h toks cs b) \<Longrightarrow>
    set xs \<subseteq> set cs \<Longrightarrow> fits h toks cs b" for xs best
  proof (induction xs arbitrary: best)
    case (Cons x xs)
    have "fits h toks cs b" if "better_child h toks x best = Some b" for b
      using that Cons.prems(2,3)
      by (auto simp: better_child_def fits_def Let_def split: if_splits option.splits)
    with Cons.IH [of "better_child h toks x best"] Cons.prems show ?case by simp
  qed simp
  from this [of cs None] show "best_child h toks cs = Some b \<Longrightarrow> fits h toks cs b"
    by (simp add: best_child_def)
qed

lemma best_child_pos: "best_child h toks cs = Some (c, j, full) \<Longrightarrow> toks \<noteq> [] \<Longrightarrow> 0 < j"
  by (drule best_child_fits) (cases toks; cases "tn_tokens (st_node h c)"; auto simp: fits_def)

text \<open>The walk below a node: the nodes entered and how many tokens they matched.\<close>

function match_below :: "'d store \<Rightarrow> nat \<Rightarrow> trieKey list \<Rightarrow> nat list \<times> nat" where
  "match_below h node toks =
     (if toks = [] then ([], 0)
      else case best_child h toks (tn_children (st_node h node)) of
             None \<Rightarrow> ([], 0)
           | Some (best, bestMatched, bestFull) \<Rightarrow>
               if \<not> bestFull then ([best], bestMatched)
               else (let (path, pos) = match_below h best (drop bestMatched toks)
                     in (best # path, bestMatched + pos)))"
  by pat_completeness auto
termination
  by (relation "measure (\<lambda>(h, node, toks). length toks)") (auto dest: best_child_pos)

declare match_below.simps [simp del]

definition findBestMatch :: "'d store \<Rightarrow> nat option \<Rightarrow> trieKey list \<Rightarrow> nat list \<times> nat" where
  "findBestMatch h root tokens =
     (case root of
        None \<Rightarrow> ([], 0)
      | Some r \<Rightarrow> (let (path, matched) = match_below h r tokens in (r # path, matched)))"

subsection \<open>Changing the trie\<close>

definition appendChild :: "nat \<Rightarrow> trieKey list \<Rightarrow> int \<Rightarrow> 'd store \<Rightarrow> nat \<times> 'd store" where
  "appendChild n tokens endOffset h =
     (let (child, h) = new_node \<lparr>tn_tokens = tokens, tn_endOffset = endOffset, tn_parent = Some n, tn_children = [],
            tn_lastUsed = tn_lastUsed (st_node h n), tn_snapshots = [], tn_user = False\<rparr> h;
          nd = st_node h n
      in (child, set_node n (nd\<lparr>tn_children := tn_children nd @ [child]\<rparr>) h))"

definition removeNode :: "nat \<Rightarrow> 'd store \<Rightarrow> 'd store option" where
  "removeNode node h =
     (case tn_parent (st_node h node) of
        None \<Rightarrow> None
      | Some p \<Rightarrow>
          if tn_children (st_node h node) \<noteq> [] then None
          else
            (let pd = st_node h p;
                 h = set_node p (pd\<lparr>tn_children := remove1 node (tn_children pd)\<rparr>) h;
                 h = set_node node ((st_node h node)\<lparr>tn_parent := None\<rparr>) h
             in Some (setSnapshots node [] True h)))"

definition split_layers ::
  "'d layer_ops option list \<Rightarrow> int \<Rightarrow> 'd layers \<Rightarrow> ('d layers \<times> 'd layers) option" where
  "split_layers caches at old =
     (if list_ex (\<lambda>i. old ! i \<noteq> None \<and> i \<ge> length caches) [0..<length old] then None
      else
        (let halves = map (\<lambda>i. case old ! i of
                 None \<Rightarrow> (None, None)
               | Some snap \<Rightarrow> (case caches ! i of None \<Rightarrow> (None, None) | Some c \<Rightarrow> lo_Split c snap at)) [0..<length old]
         in Some (map fst halves, map snd halves)))"

text \<open>The first occurrence in a list replaced.\<close>

fun replace1 :: "'a \<Rightarrow> 'a \<Rightarrow> 'a list \<Rightarrow> 'a list" where
  "replace1 x y [] = []"
| "replace1 x y (z # zs) = (if z = x then y # zs else z # replace1 x y zs)"

text \<open>The three parts of \<open>splitNode\<close>: the new parent takes the head of the edge, the snapshots are split between
  the two, the new parent takes the place of the node.\<close>

definition split_edge :: "nat \<Rightarrow> int \<Rightarrow> 'd store \<Rightarrow> nat \<times> 'd store" where
  "split_edge node at h =
     (let nd = st_node h node;
          (newParent, h) = new_node \<lparr>tn_tokens = take (nat at) (tn_tokens nd), tn_endOffset = startOffset nd + at,
             tn_parent = tn_parent nd, tn_children = [node], tn_lastUsed = tn_lastUsed nd,
             tn_snapshots = [], tn_user = False\<rparr> h
      in (newParent, set_node node ((st_node h node)\<lparr>tn_tokens := drop (nat at) (tn_tokens nd)\<rparr>) h))"

definition split_snapshots :: "nat \<Rightarrow> nat \<Rightarrow> 'd layer_ops option list \<Rightarrow> 'd store \<Rightarrow> 'd store option" where
  "split_snapshots node newParent caches h =
     (if hasSnapshots (st_node h node) then
        (let (oldSnaps, h) = swapSnapshots node [] True h in
         map_option (\<lambda>(parentSnaps, childSnaps).
             setSnapshots node childSnaps True (setSnapshots newParent parentSnaps True h))
           (split_layers caches (tn_endOffset (st_node h newParent)) oldSnaps))
      else Some h)"

definition split_relink :: "nat \<Rightarrow> nat \<Rightarrow> 'd store \<Rightarrow> 'd store" where
  "split_relink node newParent h =
     (let h = (case tn_parent (st_node h node) of
                 None \<Rightarrow> h
               | Some p \<Rightarrow>
                   (let pd = st_node h p
                    in set_node p (pd\<lparr>tn_children := replace1 node newParent (tn_children pd)\<rparr>) h))
      in set_node node ((st_node h node)\<lparr>tn_parent := Some newParent\<rparr>) h)"

definition splitNode ::
  "nat \<Rightarrow> int \<Rightarrow> 'd layer_ops option list \<Rightarrow> 'd store \<Rightarrow> (nat \<times> 'd store) option" where
  "splitNode node at caches h =
     (if at \<le> 0 \<or> at \<ge> int (length (tn_tokens (st_node h node))) then None
      else
        (let (newParent, h) = split_edge node at h in
         map_option (\<lambda>h. (newParent, split_relink node newParent h)) (split_snapshots node newParent caches h)))"

definition merge_layers ::
  "'d layer_ops option list \<Rightarrow> 'd layers \<Rightarrow> 'd layers \<Rightarrow> 'd layers option" where
  "merge_layers caches nodeSnaps childSnaps =
     (if list_ex (\<lambda>i. caches ! i \<noteq> None \<and>
            (nodeSnaps \<noteq> [] \<and> i \<ge> length nodeSnaps \<or> childSnaps \<noteq> [] \<and> i \<ge> length childSnaps)) [0..<length caches]
      then None
      else Some (map (\<lambda>i. case caches ! i of
               None \<Rightarrow> None
             | Some c \<Rightarrow> lo_Merge c (if nodeSnaps \<noteq> [] then nodeSnaps ! i else None)
                                   (if childSnaps \<noteq> [] then childSnaps ! i else None)) [0..<length caches]))"

definition set_parents :: "nat \<Rightarrow> nat list \<Rightarrow> 'd store \<Rightarrow> 'd store" where
  "set_parents p cs h = fold (\<lambda>c h. set_node c ((st_node h c)\<lparr>tn_parent := Some p\<rparr>) h) cs h"

text \<open>The parts of \<open>mergeWithChild\<close>: the edges, the snapshots, the children.\<close>

definition merge_edge :: "nat \<Rightarrow> nat \<Rightarrow> 'd store \<Rightarrow> 'd store" where
  "merge_edge node child h =
     (let nd = st_node h node; cd = st_node h child
      in set_node node (nd\<lparr>tn_tokens := tn_tokens nd @ tn_tokens cd, tn_endOffset := tn_endOffset cd\<rparr>) h)"

definition merge_snapshots :: "nat \<Rightarrow> nat \<Rightarrow> 'd layer_ops option list \<Rightarrow> 'd store \<Rightarrow> 'd store option" where
  "merge_snapshots node child caches h =
     (if tn_snapshots (st_node h node) \<noteq> [] \<or> tn_snapshots (st_node h child) \<noteq> [] then
        (let (nodeSnaps, h) = swapSnapshots node [] True h;
             (childSnaps, h) = swapSnapshots child [] True h
         in map_option (\<lambda>merged. setSnapshots node merged True h) (merge_layers caches nodeSnaps childSnaps))
      else Some h)"

definition merge_adopt :: "nat \<Rightarrow> nat \<Rightarrow> 'd store \<Rightarrow> 'd store" where
  "merge_adopt node child h =
     (let h = set_node node ((st_node h node)\<lparr>tn_children := tn_children (st_node h child)\<rparr>) h;
          h = set_parents node (tn_children (st_node h node)) h;
          h = set_node node ((st_node h node)\<lparr>tn_user := tn_user (st_node h child)\<rparr>) h;
          h = (if tn_lastUsed (st_node h child) > tn_lastUsed (st_node h node)
               then set_node node ((st_node h node)\<lparr>tn_lastUsed := tn_lastUsed (st_node h child)\<rparr>) h else h)
      in set_node child ((st_node h child)\<lparr>tn_parent := None, tn_children := []\<rparr>) h)"

definition mergeWithChild :: "nat \<Rightarrow> 'd layer_ops option list \<Rightarrow> 'd store \<Rightarrow> 'd store option" where
  "mergeWithChild node caches h =
     (case tn_children (st_node h node) of
        [child] \<Rightarrow> map_option (merge_adopt node child) (merge_snapshots node child caches (merge_edge node child h))
      | _ \<Rightarrow> None)"

text \<open>The nodes in the order \<open>walkNodes\<close> visits them, when it is not stopped; \<open>None\<close> where it never returns.\<close>

partial_function (option) walk_stack :: "'d store \<Rightarrow> nat list \<Rightarrow> nat list option" where
  "walk_stack h stack =
     (case stack of
        [] \<Rightarrow> Some []
      | n # rest \<Rightarrow> Option.bind (walk_stack h (tn_children (st_node h n) @ rest)) (\<lambda>ns. Some (n # ns)))"

declare walk_stack.simps [code]

definition walkNodes :: "'d store \<Rightarrow> nat option \<Rightarrow> nat list option" where
  "walkNodes h root = (case root of None \<Rightarrow> Some [] | Some r \<Rightarrow> walk_stack h [r])"

end
