(* ===== verification/PrefixCache.thy ===== *)
theory PrefixCache
  imports CacheTrie "HOL-Library.Monad_Syntax"
begin

unbundle bit_operations_syntax

text \<open>
  \<open>mlxrunner/prefix_cache.go\<close>: the prefix cache over the trie and the live caches.  The live caches hold device
  arrays; what the code uses of their interface is a record of operations, a parameter.  A Go \<open>int\<close> that counts
  tokens is an \<open>int\<close>; the clock is a sequence of readings.  A panic, and an eviction loop that never ends, are
  \<open>None\<close>.  Logging and the copies of device arrays at the end of a session are left out.
\<close>

section \<open>Model\<close>

record ('c, 'd) cache_ops =
  co_Offset :: "'c \<Rightarrow> int"
  co_Restore :: "'c \<Rightarrow> 'd snapshot option \<Rightarrow> int \<Rightarrow> 'c \<times> bool"
  co_Free :: "'c \<Rightarrow> 'c"
  co_Snapshot :: "'c \<Rightarrow> int \<Rightarrow> 'd snapshot option"
  co_Split :: "'c \<Rightarrow> 'd snapshot \<Rightarrow> int \<Rightarrow> 'd snapshot option \<times> 'd snapshot option"
  co_Merge :: "'c \<Rightarrow> 'd snapshot option \<Rightarrow> 'd snapshot option \<Rightarrow> 'd snapshot option"
  co_PrepareSnapshots :: "'c \<Rightarrow> int list \<Rightarrow> 'c option"
  co_TakeSnapshots :: "'c \<Rightarrow> 'c \<times> 'd layers"

definition maxPagedOutBytes :: int where
  "maxPagedOutBytes = 8 * 2 ^ 30"

text \<open>The counter \<open>pagedOutBytes\<close> is the one of the store; \<open>pc_tick\<close> counts the readings of the clock.\<close>

record ('c, 'd) prefixCache =
  pc_root :: "nat option"
  pc_activePath :: "nat list"
  pc_caches :: "'c option list"
  pc_store :: "'d store"
  pc_draftLookahead :: nat
  pc_tick :: nat

record mediaItem =
  mi_pos :: int
  mi_length :: int
  mi_fold :: "32 word"
  mi_atomic :: bool

record pendingSnapshot =
  ps_offset :: int
  ps_user :: bool

record cacheSession =
  cs_inputs :: "32 word list"
  cs_effInputs :: "32 word list"
  cs_items :: "mediaItem list"
  cs_outputs :: "32 word list"
  cs_remaining :: "32 word list"
  cs_pendingSnapshots :: "pendingSnapshot list"

definition the_layers :: "('c, 'd) cache_ops \<Rightarrow> 'c option list \<Rightarrow> 'd layer_ops option list" where
  "the_layers ops caches =
     map (map_option (\<lambda>kv. \<lparr>lo_Split = co_Split ops kv, lo_Merge = co_Merge ops kv\<rparr>)) caches"

definition newPrefixCache :: "'c option list \<Rightarrow> 'd store \<Rightarrow> ('c, 'd) prefixCache" where
  "newPrefixCache caches h =
     \<lparr>pc_root = None, pc_activePath = [], pc_caches = caches, pc_store = h\<lparr>st_bytes := 0\<rparr>, pc_draftLookahead = 0, pc_tick = 0\<rparr>"

text \<open>\<open>node.lastUsed = time.Now()\<close>.\<close>

definition touch :: "(nat \<Rightarrow> int) \<Rightarrow> nat \<Rightarrow> ('c, 'd) prefixCache \<Rightarrow> ('c, 'd) prefixCache" where
  "touch clock n c =
     c\<lparr>pc_store := set_node n ((st_node (pc_store c) n)\<lparr>tn_lastUsed := clock (pc_tick c)\<rparr>) (pc_store c), pc_tick := Suc (pc_tick c)\<rparr>"

definition ensureRoot :: "(nat \<Rightarrow> int) \<Rightarrow> ('c, 'd) prefixCache \<Rightarrow> ('c, 'd) prefixCache" where
  "ensureRoot clock c =
     (case pc_root c of
        Some _ \<Rightarrow> c
      | None \<Rightarrow>
          (let (r, h) = new_node \<lparr>tn_tokens = [], tn_endOffset = 0, tn_parent = None, tn_children = [],
                 tn_lastUsed = clock (pc_tick c), tn_snapshots = [], tn_user = False\<rparr> (pc_store c)
           in c\<lparr>pc_root := Some r, pc_store := h, pc_activePath := [r], pc_tick := Suc (pc_tick c)\<rparr>))"

subsection \<open>Keys\<close>

definition insideAtomicItem :: "mediaItem list \<Rightarrow> int \<Rightarrow> mediaItem option" where
  "insideAtomicItem items offset =
     List.find (\<lambda>i. mi_atomic i \<and> mi_pos i < offset \<and> offset < mi_pos i + mi_length i) items"

text \<open>The fold value of an item over its range; an index out of range is a panic.\<close>

definition fold_item :: "mediaItem \<Rightarrow> 32 word list \<Rightarrow> 32 word list option" where
  "fold_item i eff =
     (if mi_length i \<le> 0 then Some eff
      else if mi_pos i < 0 \<or> mi_pos i + mi_length i > int (length eff) then None
      else Some (take (nat (mi_pos i)) eff @ replicate (nat (mi_length i)) (mi_fold i) @
                 drop (nat (mi_pos i + mi_length i)) eff))"

fun effectiveKeyTokens :: "32 word list \<Rightarrow> mediaItem list \<Rightarrow> 32 word list option" where
  "effectiveKeyTokens tokens [] = Some tokens"
| "effectiveKeyTokens tokens (i # items) = Option.bind (fold_item i tokens) (\<lambda>eff. effectiveKeyTokens eff items)"

fun pair_keys :: "32 word list \<Rightarrow> trieKey list" where
  "pair_keys (a # b # ts) = (push_bit 32 (ucast a) OR ucast b) # pair_keys (b # ts)"
| "pair_keys _ = []"

definition pc_key :: "nat \<Rightarrow> 32 word list \<Rightarrow> trieKey list option" where
  "pc_key draftLookahead tokens =
     (if draftLookahead = 0 then Some (map ucast tokens)
      else if draftLookahead = 1 then Some (pair_keys tokens)
      else None)"

definition storedKeys :: "('c, 'd) prefixCache \<Rightarrow> cacheSession \<Rightarrow> trieKey list option" where
  "storedKeys c s = pc_key (pc_draftLookahead c) (cs_effInputs s @ cs_outputs s)"

subsection \<open>Eviction\<close>

definition compare_int :: "int \<Rightarrow> int \<Rightarrow> int" where
  "compare_int a b = (if a < b then -1 else if a > b then 1 else 0)"

text \<open>Oldest, then deepest, then largest; the earlier one in the walk on a tie.\<close>

definition evict_before :: "'d trieNode \<Rightarrow> 'd trieNode \<Rightarrow> bool" where
  "evict_before n best \<longleftrightarrow>
     (let a = compare_int (tn_lastUsed n) (tn_lastUsed best);
          b = compare_int (tn_endOffset best) (tn_endOffset n);
          d = compare_int (snapshotBytes best) (snapshotBytes n)
      in (if a \<noteq> 0 then a else if b \<noteq> 0 then b else d) < 0)"

definition evict_pick :: "'d store \<Rightarrow> nat option \<Rightarrow> nat \<Rightarrow> nat \<Rightarrow> nat option \<Rightarrow> nat option" where
  "evict_pick h root frontier n best =
     (if Some n = root \<or> n = frontier \<or> length (tn_children (st_node h n)) > 1 then best
      else case best of
             None \<Rightarrow> Some n
           | Some b \<Rightarrow> if evict_before (st_node h n) (st_node h b) then Some n else best)"

definition evict_candidate :: "('c, 'd) prefixCache \<Rightarrow> nat option option" where
  "evict_candidate c =
     (if pc_activePath c = [] then None
      else map_option (\<lambda>ns. fold (evict_pick (pc_store c) (pc_root c) (last (pc_activePath c))) ns None)
             (walkNodes (pc_store c) (pc_root c)))"

definition evictNode :: "('c, 'd) cache_ops \<Rightarrow> nat \<Rightarrow> ('c, 'd) prefixCache \<Rightarrow> ('c, 'd) prefixCache option" where
  "evictNode ops n c =
     (case tn_children (st_node (pc_store c) n) of
        [] \<Rightarrow> map_option (\<lambda>h. c\<lparr>pc_store := h\<rparr>) (removeNode n (pc_store c))
      | [child] \<Rightarrow>
          map_option (\<lambda>h. c\<lparr>pc_store := h, pc_activePath := remove1 child (pc_activePath c)\<rparr>)
            (mergeWithChild n (the_layers ops (pc_caches c)) (pc_store c))
      | _ \<Rightarrow> None)"

partial_function (option) evict_loop ::
  "('c, 'd) cache_ops \<Rightarrow> ('c, 'd) prefixCache \<Rightarrow> ('c, 'd) prefixCache option" where
  "evict_loop ops c =
     (if st_bytes (pc_store c) > maxPagedOutBytes then
        Option.bind (evict_candidate c) (\<lambda>best.
          case best of
            None \<Rightarrow> Some c
          | Some n \<Rightarrow> Option.bind (evictNode ops n c) (evict_loop ops))
      else Some c)"

declare evict_loop.simps [code]

definition enforceEvictionPolicy ::
  "('c, 'd) cache_ops \<Rightarrow> ('c, 'd) prefixCache \<Rightarrow> ('c, 'd) prefixCache option" where
  "enforceEvictionPolicy ops c =
     (if st_bytes (pc_store c) \<le> maxPagedOutBytes then Some c else evict_loop ops c)"

subsection \<open>The active path\<close>

definition advancePath ::
  "('c, 'd) cache_ops \<Rightarrow> nat \<Rightarrow> trieKey list \<Rightarrow> int \<Rightarrow> ('c, 'd) prefixCache \<Rightarrow> (nat \<times> ('c, 'd) prefixCache) option" where
  "advancePath ops frontier tokens endOffset c =
     (let (matchPath, matched) = findBestMatch (pc_store c) (Some frontier) tokens;
          remaining = drop matched tokens;
          lastNode = last matchPath;
          matchedInEdge = tn_endOffset (st_node (pc_store c) frontier) + int matched - startOffset (st_node (pc_store c) lastNode)
      in do {
        (matchPath, h) \<leftarrow>
          (if length matchPath > 1 \<and> matchedInEdge > 0 \<and>
              matchedInEdge < int (length (tn_tokens (st_node (pc_store c) lastNode)))
           then map_option (\<lambda>(f, h). (butlast matchPath @ [f], h))
                  (splitNode lastNode matchedInEdge (the_layers ops (pc_caches c)) (pc_store c))
           else Some (matchPath, pc_store c));
        let path = pc_activePath c @ tl matchPath;
        let dest = last matchPath;
        if remaining \<noteq> [] then
          (let (dest, h) = appendChild dest remaining endOffset h
           in Some (dest, c\<lparr>pc_store := h, pc_activePath := path @ [dest]\<rparr>))
        else Some (dest, c\<lparr>pc_store := h, pc_activePath := path\<rparr>)
      })"

definition compactPath :: "('c, 'd) cache_ops \<Rightarrow> ('c, 'd) prefixCache \<Rightarrow> ('c, 'd) prefixCache option" where
  "compactPath ops c =
     (let n = length (pc_activePath c) in
      if n < 2 then Some c
      else
        (let parent = pc_activePath c ! (n - 2); pd = st_node (pc_store c) parent in
         if Some parent = pc_root c \<or> tn_user pd \<or> length (tn_children pd) \<noteq> 1 then Some c
         else map_option (\<lambda>h. c\<lparr>pc_store := h, pc_activePath := butlast (pc_activePath c)\<rparr>)
                (mergeWithChild parent (the_layers ops (pc_caches c)) (pc_store c))))"

definition layer_at :: "'d layers \<Rightarrow> nat \<Rightarrow> 'd snapshot option" where
  "layer_at ss i = (if i < length ss then ss ! i else None)"

definition pageOut :: "('c, 'd) cache_ops \<Rightarrow> nat \<Rightarrow> ('c, 'd) prefixCache \<Rightarrow> ('c, 'd) prefixCache option" where
  "pageOut ops n c =
     (let nd = st_node (pc_store c) n in
      if hasAllSnapshots nd (pc_caches c) then Some c
      else
        (let snaps = map (\<lambda>i. case pc_caches c ! i of
                 None \<Rightarrow> layer_at (tn_snapshots nd) i
               | Some kv \<Rightarrow> (case layer_at (tn_snapshots nd) i of
                              Some s \<Rightarrow> Some s
                            | None \<Rightarrow> co_Snapshot ops kv (startOffset nd))) [0..<length (pc_caches c)]
         in enforceEvictionPolicy ops (c\<lparr>pc_store := snd (swapSnapshots n snaps True (pc_store c))\<rparr>)))"

definition freeAll :: "('c, 'd) cache_ops \<Rightarrow> 'c option list \<Rightarrow> 'c option list" where
  "freeAll ops caches = map (map_option (co_Free ops)) caches"

fun minCacheOffset :: "('c, 'd) cache_ops \<Rightarrow> 'c option list \<Rightarrow> int option" where
  "minCacheOffset ops [] = None"
| "minCacheOffset ops (None # cs) = minCacheOffset ops cs"
| "minCacheOffset ops (Some kv # cs) =
     (case minCacheOffset ops cs of None \<Rightarrow> Some (co_Offset ops kv) | Some m \<Rightarrow> Some (min (co_Offset ops kv) m))"

text \<open>0 when there is no stateful layer.\<close>

definition min_offset :: "('c, 'd) cache_ops \<Rightarrow> 'c option list \<Rightarrow> int" where
  "min_offset ops caches = (case minCacheOffset ops caches of None \<Rightarrow> 0 | Some m \<Rightarrow> m)"

subsection \<open>Switching to another path\<close>

definition rewind :: "('c, 'd) cache_ops \<Rightarrow> int \<Rightarrow> 'c option list \<Rightarrow> 'c option list" where
  "rewind ops target caches =
     map (map_option (\<lambda>kv. let (kv', ok) = co_Restore ops kv None target in if ok then kv' else co_Free ops kv')) caches"

text \<open>The snapshots of one node; \<open>False\<close> stops the page-in.\<close>

fun page_in_node ::
  "('c, 'd) cache_ops \<Rightarrow> int \<Rightarrow> 'd layers \<Rightarrow> 'c option list \<Rightarrow> 'c option list \<times> bool" where
  "page_in_node ops target ss [] = ([], True)"
| "page_in_node ops target [] (kv # cs) = (kv # cs, True)"
| "page_in_node ops target (s # ss) (kv # cs) =
     (case (kv, s) of
        (Some kv', Some s') \<Rightarrow>
          (if co_Offset ops kv' \<ge> target then apfst ((#) kv) (page_in_node ops target ss cs)
           else (let (kv'', ok) = co_Restore ops kv' (Some s') target
                 in if ok then apfst ((#) (Some kv'')) (page_in_node ops target ss cs)
                    else (Some kv'' # cs, False)))
      | _ \<Rightarrow> apfst ((#) kv) (page_in_node ops target ss cs))"

fun page_in :: "('c, 'd) cache_ops \<Rightarrow> 'd store \<Rightarrow> int \<Rightarrow> nat list \<Rightarrow> 'c option list \<Rightarrow> 'c option list" where
  "page_in ops h matched [] caches = caches"
| "page_in ops h matched (n # path) caches =
     (let nd = st_node h n in
      if \<not> hasSnapshots nd then page_in ops h matched path caches
      else
        (let (caches, ok) = page_in_node ops (min (tn_endOffset nd) matched) (tn_snapshots nd) caches
         in if ok then page_in ops h matched path caches else caches))"

text \<open>Every cache to the least offset; if one cannot go there all of them are freed.\<close>

fun align_loop :: "('c, 'd) cache_ops \<Rightarrow> int \<Rightarrow> 'c option list \<Rightarrow> 'c option list \<Rightarrow> 'c option list" where
  "align_loop ops minOff done [] = done"
| "align_loop ops minOff done (None # cs) = align_loop ops minOff (done @ [None]) cs"
| "align_loop ops minOff done (Some kv # cs) =
     (if co_Offset ops kv = minOff then align_loop ops minOff (done @ [Some kv]) cs
      else (let (kv', ok) = co_Restore ops kv None minOff
            in if ok then align_loop ops minOff (done @ [Some kv']) cs
               else freeAll ops (done @ Some kv' # cs)))"

text \<open>The loop that cuts the path at the live offset, from its end; the root stays.\<close>

fun cut_path ::
  "'d layer_ops option list \<Rightarrow> int \<Rightarrow> nat list \<Rightarrow> 'd store \<Rightarrow> (nat list \<times> 'd store) option" where
  "cut_path caches minOff [] h = Some ([], h)"
| "cut_path caches minOff (n # front) h =
     (let nd = st_node h n in
      if front \<noteq> [] \<and> startOffset nd \<ge> minOff then cut_path caches minOff front h
      else if tn_endOffset nd > minOff then
        map_option (\<lambda>(f, h). (rev front @ [f], h)) (splitNode n (minOff - startOffset nd) caches h)
      else Some (rev front @ [n], h))"

definition switchToPath ::
  "('c, 'd) cache_ops \<Rightarrow> (nat \<Rightarrow> int) \<Rightarrow> nat list \<Rightarrow> int \<Rightarrow> ('c, 'd) prefixCache \<Rightarrow> ('c, 'd) prefixCache option" where
  "switchToPath ops clock newPath matched c =
     (let h = pc_store c;
          commonLen = common_len (pc_activePath c) newPath;
          ancestorOffset = (if commonLen > 0 then tn_endOffset (st_node h (pc_activePath c ! (commonLen - 1))) else 0);
          caches = rewind ops (min ancestorOffset matched) (pc_caches c);
          caches = page_in ops h matched newPath caches;
          minOff = min_offset ops caches;
          caches = align_loop ops minOff [] caches
      in do {
        (path, h) \<leftarrow> cut_path (the_layers ops caches) minOff (rev newPath) h;
        let c = c\<lparr>pc_caches := caches, pc_activePath := path, pc_store := h\<rparr>;
        let c = (if path \<noteq> [] then touch clock (last path) c else c);
        enforceEvictionPolicy ops c
      })"

subsection \<open>Sessions\<close>

definition beginAt ::
  "('c, 'd) cache_ops \<Rightarrow> (nat \<Rightarrow> int) \<Rightarrow> 32 word list \<Rightarrow> mediaItem list \<Rightarrow> nat \<Rightarrow> ('c, 'd) prefixCache \<Rightarrow>
     (cacheSession \<times> ('c, 'd) prefixCache) option" where
  "beginAt ops clock inputs items maxReuse c = do {
     let c = ensureRoot clock c;
     effInputs \<leftarrow> effectiveKeyTokens inputs items;
     keys \<leftarrow> pc_key (pc_draftLookahead c) effInputs;
     let (matchPath, matched) = findBestMatch (pc_store c) (pc_root c) keys;
     let (matchPath, matched) =
       (if matched > maxReuse then findBestMatch (pc_store c) (pc_root c) (take maxReuse keys) else (matchPath, matched));
     let (matchPath, matched) =
       (case insideAtomicItem items (int matched) of
          None \<Rightarrow> (matchPath, matched)
        | Some item \<Rightarrow> findBestMatch (pc_store c) (pc_root c) (take (nat (mi_pos item)) keys));
     c \<leftarrow> switchToPath ops clock matchPath (int matched) c;
     let prefix = min_offset ops (pc_caches c);
     if prefix < 0 \<or> nat prefix > length inputs then None
     else Some (\<lparr>cs_inputs = inputs, cs_effInputs = effInputs, cs_items = items, cs_outputs = [],
            cs_remaining = drop (nat prefix) inputs,
            cs_pendingSnapshots = (if prefix < int matched then [\<lparr>ps_offset = int matched, ps_user = False\<rparr>] else [])\<rparr>, c)
   }"

text \<open>\<open>begin\<close> and \<open>beginScore\<close>.\<close>

definition pc_begin ::
  "('c, 'd) cache_ops \<Rightarrow> (nat \<Rightarrow> int) \<Rightarrow> 32 word list \<Rightarrow> mediaItem list \<Rightarrow> ('c, 'd) prefixCache \<Rightarrow>
     (cacheSession \<times> ('c, 'd) prefixCache) option" where
  "pc_begin ops clock inputs items c = beginAt ops clock inputs items (length inputs - 1) c"

definition beginScore ::
  "('c, 'd) cache_ops \<Rightarrow> (nat \<Rightarrow> int) \<Rightarrow> 32 word list \<Rightarrow> mediaItem list \<Rightarrow> ('c, 'd) prefixCache \<Rightarrow>
     (cacheSession \<times> ('c, 'd) prefixCache) option" where
  "beginScore ops clock inputs items c = beginAt ops clock inputs items (length inputs) c"

text \<open>One offset of \<open>schedulePrefillSnapshots\<close>.\<close>

fun upgrade :: "int \<Rightarrow> pendingSnapshot list \<Rightarrow> pendingSnapshot list" where
  "upgrade offset [] = [\<lparr>ps_offset = offset, ps_user = True\<rparr>]"
| "upgrade offset (p # ps) = (if ps_offset p = offset then p\<lparr>ps_user := True\<rparr> # ps else p # upgrade offset ps)"

definition schedule_one ::
  "int \<Rightarrow> int \<Rightarrow> int \<Rightarrow> mediaItem list \<Rightarrow> int \<Rightarrow> pendingSnapshot list \<Rightarrow> pendingSnapshot list" where
  "schedule_one base lookahead len items offset pending =
     (let offset = offset - lookahead;
          offset = (case insideAtomicItem items offset of Some i \<Rightarrow> mi_pos i + mi_length i | None \<Rightarrow> offset)
      in if offset \<le> base \<or> offset > len then pending else upgrade offset pending)"

definition prepare_all :: "('c, 'd) cache_ops \<Rightarrow> int list \<Rightarrow> 'c option list \<Rightarrow> 'c option list option" where
  "prepare_all ops offsets caches =
     those (map (\<lambda>kv. case kv of None \<Rightarrow> Some None | Some kv \<Rightarrow> map_option Some (co_PrepareSnapshots ops kv offsets)) caches)"

definition schedulePrefillSnapshots ::
  "('c, 'd) cache_ops \<Rightarrow> int list \<Rightarrow> cacheSession \<Rightarrow> ('c, 'd) prefixCache \<Rightarrow>
     (cacheSession \<times> ('c, 'd) prefixCache) option" where
  "schedulePrefillSnapshots ops offsets s c =
     (let base = min_offset ops (pc_caches c);
          pending = fold (schedule_one base (int (pc_draftLookahead c)) (int (length (cs_inputs s))) (cs_items s)) offsets
            (cs_pendingSnapshots s);
          pending = sort_key ps_offset pending;
          s = s\<lparr>cs_pendingSnapshots := pending\<rparr>
      in if pending = [] then Some (s, c)
         else map_option (\<lambda>caches. (s, c\<lparr>pc_caches := caches\<rparr>)) (prepare_all ops (map ps_offset pending) (pc_caches c)))"

definition attachCapturedSnapshots ::
  "('c, 'd) cache_ops \<Rightarrow> (nat \<Rightarrow> int) \<Rightarrow> nat \<Rightarrow> 'd layers \<Rightarrow> ('c, 'd) prefixCache \<Rightarrow> ('c, 'd) prefixCache" where
  "attachCapturedSnapshots ops clock n snaps c =
     (let nd = st_node (pc_store c) n;
          next = map (\<lambda>i. let old = layer_at (tn_snapshots nd) i in
                   case (pc_caches c ! i, layer_at snaps i, old) of
                     (Some kv, Some s, None) \<Rightarrow> snd (co_Split ops kv s (startOffset nd))
                   | _ \<Rightarrow> old) [0..<length (pc_caches c)]
      in touch clock n (c\<lparr>pc_store := snd (swapSnapshots n next True (pc_store c))\<rparr>))"

text \<open>The row of captures for each pending offset.\<close>

definition capture_rows :: "('c, 'd) cache_ops \<Rightarrow> nat \<Rightarrow> 'c option list \<Rightarrow> 'd layers list" where
  "capture_rows ops n caches =
     map (\<lambda>i. map (\<lambda>kv. case kv of None \<Rightarrow> None | Some kv \<Rightarrow> layer_at (snd (co_TakeSnapshots ops kv)) i) caches) [0..<n]"

fun attach_rows ::
  "('c, 'd) cache_ops \<Rightarrow> (nat \<Rightarrow> int) \<Rightarrow> int \<Rightarrow> trieKey list \<Rightarrow> (pendingSnapshot \<times> 'd layers) list \<Rightarrow>
     ('c, 'd) prefixCache \<Rightarrow> ('c, 'd) prefixCache option" where
  "attach_rows ops clock reached stored [] c = Some c"
| "attach_rows ops clock reached stored ((p, row) # rows) c =
     (if ps_offset p > reached then attach_rows ops clock reached stored rows c
      else if pc_activePath c = [] then None
      else do {
        let frontier = last (pc_activePath c);
        let e = tn_endOffset (st_node (pc_store c) frontier);
        (frontier, c) \<leftarrow>
          (if e < ps_offset p then
             (if e < 0 \<or> ps_offset p > int (length stored) then None
              else advancePath ops frontier (take (nat (ps_offset p - e)) (drop (nat e) stored)) (ps_offset p) c)
           else Some (frontier, c));
        let c = (if ps_user p
                 then c\<lparr>pc_store := set_node frontier ((st_node (pc_store c) frontier)\<lparr>tn_user := True\<rparr>) (pc_store c)\<rparr>
                 else c);
        c \<leftarrow> compactPath ops (attachCapturedSnapshots ops clock frontier row c);
        attach_rows ops clock reached stored rows c
      })"

definition attachPrefillSnapshots ::
  "('c, 'd) cache_ops \<Rightarrow> (nat \<Rightarrow> int) \<Rightarrow> cacheSession \<Rightarrow> ('c, 'd) prefixCache \<Rightarrow>
     (cacheSession \<times> ('c, 'd) prefixCache) option" where
  "attachPrefillSnapshots ops clock s c =
     (if cs_pendingSnapshots s = [] then Some (s, c)
      else do {
        let pending = cs_pendingSnapshots s;
        let rows = capture_rows ops (length pending) (pc_caches c);
        let c = c\<lparr>pc_caches := map (map_option (\<lambda>kv. fst (co_TakeSnapshots ops kv))) (pc_caches c)\<rparr>;
        let s = s\<lparr>cs_pendingSnapshots := []\<rparr>;
        stored \<leftarrow> storedKeys c s;
        c \<leftarrow> attach_rows ops clock (min_offset ops (pc_caches c)) stored (zip pending rows) c;
        c \<leftarrow> enforceEvictionPolicy ops c;
        Some (s, c)
      })"

text \<open>\<open>cacheSession.close\<close>, without the copies of device arrays.\<close>

definition session_close ::
  "('c, 'd) cache_ops \<Rightarrow> (nat \<Rightarrow> int) \<Rightarrow> cacheSession \<Rightarrow> ('c, 'd) prefixCache \<Rightarrow>
     (cacheSession \<times> ('c, 'd) prefixCache) option" where
  "session_close ops clock s c = do {
     (s, c) \<leftarrow> attachPrefillSnapshots ops clock s c;
     let offset = min_offset ops (pc_caches c);
     if offset \<le> 0 then Some (s, c)
     else do {
       stored \<leftarrow> storedKeys c s;
       if offset > int (length stored) then None
       else if pc_activePath c = [] then Some (s, c)
       else do {
         let frontier = last (pc_activePath c);
         let e = tn_endOffset (st_node (pc_store c) frontier);
         c \<leftarrow>
           (if offset > e then
              (if e < 0 then None
               else do {
                 (n, c) \<leftarrow> advancePath ops frontier (take (nat (offset - e)) (drop (nat e) stored)) offset c;
                 c \<leftarrow> pageOut ops n c;
                 compactPath ops c
               })
            else Some c);
         if pc_activePath c = [] then None else Some (s, touch clock (last (pc_activePath c)) c)
       }
     }
   }"

text \<open>\<open>prefixCache.close\<close>: the snapshots of the nodes in the order its stack is worked off.\<close>

partial_function (option) close_stack :: "'d store \<Rightarrow> nat list \<Rightarrow> 'd store option" where
  "close_stack h stack =
     (if stack = [] then Some h
      else
        (let n = last stack
         in close_stack (setSnapshots n [] False h) (butlast stack @ tn_children (st_node h n))))"

declare close_stack.simps [code]

definition pc_close :: "('c, 'd) cache_ops \<Rightarrow> ('c, 'd) prefixCache \<Rightarrow> ('c, 'd) prefixCache option" where
  "pc_close ops c =
     map_option (\<lambda>h. c\<lparr>pc_caches := freeAll ops (pc_caches c), pc_root := None, pc_activePath := [], pc_store := h\<lparr>st_bytes := 0\<rparr>\<rparr>)
       (close_stack (pc_store c) (case pc_root c of None \<Rightarrow> [] | Some r \<Rightarrow> [r]))"

end
