(* ===== verification/CacheTrieInv.thy ===== *)
theory CacheTrieInv
  imports CacheTrie
begin

text \<open>
  The invariants of the trie.  \<open>shape_of\<close> forgets the snapshots, \<open>trie_wf\<close> says that the nodes of a set form a
  compressed trie, \<open>balanced\<close> that the counter is the number of bytes its snapshots hold.  Each operation of
  \<open>CacheTrie\<close> is described by what it does to the shapes, and keeps both.
\<close>

record shape =
  sh_tokens :: "trieKey list"
  sh_end :: int
  sh_parent :: "nat option"
  sh_children :: "nat list"

definition shape_of :: "'d store \<Rightarrow> nat \<Rightarrow> shape" where
  "shape_of h n = \<lparr>sh_tokens = tn_tokens (st_node h n), sh_end = tn_endOffset (st_node h n),
     sh_parent = tn_parent (st_node h n), sh_children = tn_children (st_node h n)\<rparr>"

section \<open>Well-formed tries\<close>

definition children_ok :: "(nat \<Rightarrow> shape) \<Rightarrow> nat set \<Rightarrow> nat \<Rightarrow> bool" where
  "children_ok g S n \<longleftrightarrow> distinct (sh_children (g n)) \<and> inj_on (\<lambda>c. hd (sh_tokens (g c))) (set (sh_children (g n))) \<and>
     (\<forall>c \<in> set (sh_children (g n)). c \<in> S \<and> sh_parent (g c) = Some n)"

definition parent_ok :: "(nat \<Rightarrow> shape) \<Rightarrow> nat set \<Rightarrow> nat \<Rightarrow> bool" where
  "parent_ok g S n \<longleftrightarrow> sh_tokens (g n) \<noteq> [] \<and>
     (\<exists>p \<in> S. sh_parent (g n) = Some p \<and> n \<in> set (sh_children (g p)) \<and>
        sh_end (g n) = sh_end (g p) + int (length (sh_tokens (g n))))"

definition shape_wf :: "(nat \<Rightarrow> shape) \<Rightarrow> nat \<Rightarrow> nat set \<Rightarrow> bool" where
  "shape_wf g r S \<longleftrightarrow> finite S \<and> r \<in> S \<and> sh_parent (g r) = None \<and> sh_tokens (g r) = [] \<and> sh_end (g r) = 0 \<and>
     (\<forall>n \<in> S. children_ok g S n) \<and> (\<forall>n \<in> S - {r}. parent_ok g S n)"

definition trie_wf :: "'d store \<Rightarrow> nat \<Rightarrow> nat set \<Rightarrow> bool" where
  "trie_wf h r S \<longleftrightarrow> shape_wf (shape_of h) r S \<and> (\<forall>n \<in> S. n < st_next h)"

lemma shape_wf_childD:
  assumes "shape_wf g r S" "n \<in> S" "c \<in> set (sh_children (g n))"
  shows "c \<in> S \<and> sh_parent (g c) = Some n \<and> c \<noteq> r \<and> sh_tokens (g c) \<noteq> [] \<and>
    sh_end (g c) = sh_end (g n) + int (length (sh_tokens (g c)))"
proof -
  have c: "c \<in> S" "sh_parent (g c) = Some n" using assms by (auto simp: shape_wf_def children_ok_def)
  moreover have "c \<noteq> r" using c assms(1) by (auto simp: shape_wf_def)
  moreover from this c have "parent_ok g S c" using assms(1) by (auto simp: shape_wf_def)
  ultimately show ?thesis by (auto simp: parent_ok_def)
qed

lemma shape_wf_child_later: "shape_wf g r S \<Longrightarrow> n \<in> S \<Longrightarrow> c \<in> set (sh_children (g n)) \<Longrightarrow> sh_end (g n) < sh_end (g c)"
  using shape_wf_childD [of g r S n c] by auto

lemma shape_wf_parentD:
  assumes "shape_wf g r S" "n \<in> S" "n \<noteq> r"
  obtains p where "p \<in> S" "sh_parent (g n) = Some p" "n \<in> set (sh_children (g p))" "sh_tokens (g n) \<noteq> []"
    "sh_end (g n) = sh_end (g p) + int (length (sh_tokens (g n)))"
  using assms by (auto simp: shape_wf_def parent_ok_def)

lemma shape_wf_neq: "shape_wf g r S \<Longrightarrow> n \<in> S \<Longrightarrow> c \<in> set (sh_children (g n)) \<Longrightarrow> c \<noteq> n"
  by (drule (2) shape_wf_childD) auto

subsection \<open>Appending a leaf\<close>

definition shape_append :: "nat \<Rightarrow> nat \<Rightarrow> trieKey list \<Rightarrow> int \<Rightarrow> (nat \<Rightarrow> shape) \<Rightarrow> nat \<Rightarrow> shape" where
  "shape_append n c toks e g =
     g(c := \<lparr>sh_tokens = toks, sh_end = e, sh_parent = Some n, sh_children = []\<rparr>,
       n := (g n)\<lparr>sh_children := sh_children (g n) @ [c]\<rparr>)"

lemma shape_wf_append:
  assumes wf: "shape_wf g r S" and n: "n \<in> S" "c \<notin> S" and t: "toks \<noteq> []" "e = sh_end (g n) + int (length toks)"
    and hd: "\<forall>d \<in> set (sh_children (g n)). hd (sh_tokens (g d)) \<noteq> hd toks"
  shows "shape_wf (shape_append n c toks e g) r (insert c S)"
proof -
  define G where "G = shape_append n c toks e g"
  have nc: "n \<noteq> c" "r \<noteq> c" using n wf by (auto simp: shape_wf_def)
  have sub: "d \<in> S" "d \<noteq> c" if "d \<in> set (sh_children (g m))" "m \<in> S" for d m
    using shape_wf_childD [OF wf that(2,1)] n(2) by auto
  have tok: "sh_tokens (G d) = (if d = c then toks else sh_tokens (g d))" for d
    using nc by (simp add: G_def shape_append_def)
  have par: "sh_parent (G d) = (if d = c then Some n else sh_parent (g d))" for d
    using nc by (simp add: G_def shape_append_def)
  have endo: "sh_end (G d) = (if d = c then e else sh_end (g d))" for d
    using nc by (simp add: G_def shape_append_def)
  have ch: "sh_children (G d) = (if d = c then [] else if d = n then sh_children (g n) @ [c] else sh_children (g d))" for d
    using nc by (simp add: G_def shape_append_def)
  have "children_ok G (insert c S) m" if m: "m \<in> insert c S" for m
  proof (cases "m = c")
    case False
    with m have mS: "m \<in> S" by simp
    then have ok: "children_ok g S m" using wf by (simp add: shape_wf_def)
    have "c \<notin> set (sh_children (g m))" using sub mS by blast
    then show ?thesis
      using ok hd mS False sub n nc
      by (auto simp: children_ok_def ch tok par inj_on_def)
  qed (simp add: children_ok_def ch)
  moreover have "parent_ok G (insert c S) m" if m: "m \<in> insert c S - {r}" for m
  proof (cases "m = c")
    case True
    then show ?thesis using n nc t by (auto simp: parent_ok_def tok par ch endo)
  next
    case False
    with m obtain p where "p \<in> S" "sh_parent (g m) = Some p" "m \<in> set (sh_children (g p))" "sh_tokens (g m) \<noteq> []"
      "sh_end (g m) = sh_end (g p) + int (length (sh_tokens (g m)))" by (auto elim: shape_wf_parentD [OF wf])
    with False n(2) show ?thesis by (auto simp: parent_ok_def tok par ch endo)
  qed
  ultimately show ?thesis using wf nc unfolding G_def [symmetric] by (auto simp: shape_wf_def tok par endo)
qed

subsection \<open>Removing a leaf\<close>

definition shape_remove :: "nat \<Rightarrow> nat \<Rightarrow> (nat \<Rightarrow> shape) \<Rightarrow> nat \<Rightarrow> shape" where
  "shape_remove n p g =
     g(p := (g p)\<lparr>sh_children := remove1 n (sh_children (g p))\<rparr>, n := (g n)\<lparr>sh_parent := None\<rparr>)"

lemma shape_wf_remove:
  assumes wf: "shape_wf g r S" and n: "n \<in> S" "sh_parent (g n) = Some p" "sh_children (g n) = []"
  shows "shape_wf (shape_remove n p g) r (S - {n})"
proof -
  define G where "G = shape_remove n p g"
  have nr: "n \<noteq> r" using n(2) wf by (auto simp: shape_wf_def)
  then have p: "p \<in> S" "n \<in> set (sh_children (g p))" using shape_wf_parentD [OF wf n(1)] n(2) by auto
  then have np: "n \<noteq> p" using n(3) by auto
  have ch: "sh_children (G d) = (if d = p then remove1 n (sh_children (g p)) else sh_children (g d))" if "d \<noteq> n" for d
    using that np by (simp add: G_def shape_remove_def)
  have oth: "sh_tokens (G d) = sh_tokens (g d)" "sh_end (G d) = sh_end (g d)"
    "d \<noteq> n \<Longrightarrow> sh_parent (G d) = sh_parent (g d)" for d
    using np by (auto simp: G_def shape_remove_def)
  have nin: "n \<notin> set (sh_children (g d))" if "d \<in> S" "d \<noteq> p" for d
    using shape_wf_childD [OF wf that(1)] n(2) that(2) by auto
  have "children_ok G (S - {n}) m" if m: "m \<in> S - {n}" for m
  proof -
    have ok: "children_ok g S m" using wf m by (simp add: shape_wf_def)
    moreover have "set (sh_children (G m)) = set (sh_children (g m)) - {n}" "distinct (sh_children (G m))"
      using ok m nin by (auto simp: children_ok_def ch)
    ultimately show ?thesis by (auto simp: children_ok_def oth inj_on_def)
  qed
  moreover have "parent_ok G (S - {n}) m" if m: "m \<in> S - {n} - {r}" for m
  proof -
    from m obtain q where q: "q \<in> S" "sh_parent (g m) = Some q" "m \<in> set (sh_children (g q))" "sh_tokens (g m) \<noteq> []"
      "sh_end (g m) = sh_end (g q) + int (length (sh_tokens (g m)))" by (auto elim: shape_wf_parentD [OF wf])
    moreover have "q \<noteq> n" using q(3) n(3) by auto
    ultimately show ?thesis using m by (auto simp: parent_ok_def oth ch)
  qed
  ultimately show ?thesis using wf nr unfolding G_def [symmetric] by (auto simp: shape_wf_def oth)
qed

subsection \<open>Splitting an edge\<close>

lemma set_replace1: "distinct xs \<Longrightarrow> x \<in> set xs \<Longrightarrow> set (replace1 x y xs) = insert y (set xs - {x})"
  by (induction xs) auto

lemma distinct_replace1: "distinct xs \<Longrightarrow> y \<notin> set xs \<Longrightarrow> distinct (replace1 x y xs)"
proof (induction xs)
  case (Cons z zs)
  have "set (replace1 x y zs) \<subseteq> insert y (set zs)" by (induction zs) auto
  with Cons show ?case by auto
qed simp

definition shape_split :: "nat \<Rightarrow> nat \<Rightarrow> nat \<Rightarrow> nat \<Rightarrow> (nat \<Rightarrow> shape) \<Rightarrow> nat \<Rightarrow> shape" where
  "shape_split n f p k g =
     g(f := \<lparr>sh_tokens = take k (sh_tokens (g n)), sh_end = sh_end (g n) - int (length (sh_tokens (g n))) + int k,
             sh_parent = Some p, sh_children = [n]\<rparr>,
       n := (g n)\<lparr>sh_tokens := drop k (sh_tokens (g n)), sh_parent := Some f\<rparr>,
       p := (g p)\<lparr>sh_children := replace1 n f (sh_children (g p))\<rparr>)"

lemma shape_wf_split:
  assumes wf: "shape_wf g r S" and n: "n \<in> S" "f \<notin> S" "sh_parent (g n) = Some p"
    and k: "0 < k" "k < length (sh_tokens (g n))"
  shows "shape_wf (shape_split n f p k g) r (insert f S)"
proof -
  define G where "G = shape_split n f p k g"
  have nr: "n \<noteq> r" using n(3) wf by (auto simp: shape_wf_def)
  then have p: "p \<in> S" "n \<in> set (sh_children (g p))" "sh_end (g n) = sh_end (g p) + int (length (sh_tokens (g n)))"
    using shape_wf_parentD [OF wf n(1)] n(3) by auto
  have ne: "n \<noteq> p" "f \<noteq> p" "f \<noteq> n" "f \<noteq> r" using shape_wf_neq [OF wf p(1,2)] p(1) n wf by (auto simp: shape_wf_def)
  have okp: "children_ok g S p" using wf p(1) by (simp add: shape_wf_def)
  have fp: "f \<notin> set (sh_children (g m))" if "m \<in> S" for m
    using shape_wf_childD [OF wf that, of f] n(2) by blast
  have chp: "set (sh_children (G p)) = insert f (set (sh_children (g p)) - {n})" "distinct (sh_children (G p))"
    using okp p(2) fp [OF p(1)] ne
    by (simp_all add: G_def shape_split_def children_ok_def set_replace1 distinct_replace1)
  have ch: "sh_children (G d) = sh_children (g d)" if "d \<noteq> p" "d \<noteq> f" for d
    using that ne by (simp add: G_def shape_split_def)
  have oth: "sh_tokens (G d) = sh_tokens (g d)" "sh_parent (G d) = sh_parent (g d)" if "d \<noteq> n" "d \<noteq> f" for d
    using that ne by (auto simp: G_def shape_split_def)
  have endo: "sh_end (G d) = sh_end (g d)" if "d \<noteq> f" for d
    using that ne by (auto simp: G_def shape_split_def)
  have Gf: "sh_tokens (G f) = take k (sh_tokens (g n))" "sh_end (G f) = sh_end (g p) + int k" "sh_parent (G f) = Some p"
    "sh_children (G f) = [n]" using ne p(3) by (auto simp: G_def shape_split_def)
  have Gn: "sh_tokens (G n) = drop k (sh_tokens (g n))" "sh_parent (G n) = Some f"
    using ne by (auto simp: G_def shape_split_def)
  have hdf: "hd (sh_tokens (G f)) = hd (sh_tokens (g n))" using k by (simp add: Gf hd_take)
  have nin: "n \<notin> set (sh_children (g d))" if "d \<in> S" "d \<noteq> p" for d
    using shape_wf_childD [OF wf that(1)] n(3) that(2) by auto
  have "children_ok G (insert f S) m" if m: "m \<in> insert f S" for m
  proof (cases "m = f")
    case True
    then show ?thesis using n Gn Gf by (simp add: children_ok_def)
  next
    case False
    with m have mS: "m \<in> S" by simp
    then have ok: "children_ok g S m" using wf by (simp add: shape_wf_def)
    show ?thesis
    proof (cases "m = p")
      case True
      have "inj_on (\<lambda>c. hd (sh_tokens (G c))) (insert f (set (sh_children (g p)) - {n}))"
      proof (rule inj_onI)
        fix a b
        assume "a \<in> insert f (set (sh_children (g p)) - {n})" "b \<in> insert f (set (sh_children (g p)) - {n})"
          "hd (sh_tokens (G a)) = hd (sh_tokens (G b))"
        moreover have "hd (sh_tokens (G x)) = hd (sh_tokens (g (if x = f then n else x)))" if "x \<noteq> n" for x
          using that hdf by (simp add: oth)
        moreover have "inj_on (\<lambda>c. hd (sh_tokens (g c))) (set (sh_children (g p)))"
          using okp by (simp add: children_ok_def)
        ultimately have "(if a = f then n else a) = (if b = f then n else b)"
          using p(2) ne(3) by (elim inj_onD) (auto split: if_splits)
        then show "a = b"
          using \<open>a \<in> _\<close> \<open>b \<in> _\<close> ne(3) by (auto split: if_splits)
      qed
      moreover have "sh_parent (G d) = Some p" if "d \<in> set (sh_children (g p))" "d \<noteq> n" for d
      proof -
        have "d \<noteq> f" using that fp [OF p(1)] by auto
        then show ?thesis using that okp by (simp add: children_ok_def oth)
      qed
      ultimately show ?thesis
        using True chp ok Gf(3) unfolding children_ok_def by auto
    next
      case False
      moreover have "sh_tokens (G d) = sh_tokens (g d)" "sh_parent (G d) = sh_parent (g d)"
        if "d \<in> set (sh_children (g m))" for d
        using that fp [OF mS] nin [OF mS] False oth [of d] by metis+
      ultimately show ?thesis
        using ok \<open>m \<noteq> f\<close> by (auto simp: children_ok_def ch inj_on_def)
    qed
  qed
  moreover have "parent_ok G (insert f S) m" if m: "m \<in> insert f S - {r}" for m
  proof -
    consider "m = f" | "m = n" | "m \<in> S" "m \<noteq> f" "m \<noteq> n" using m by blast
    then show ?thesis
    proof cases
      case 1
      then show ?thesis using p k ne chp Gf endo by (auto simp: parent_ok_def)
    next
      case 2
      then show ?thesis using p k ne Gf Gn endo by (auto simp: parent_ok_def)
    next
      case 3
      with m obtain q where q: "q \<in> S" "sh_parent (g m) = Some q" "m \<in> set (sh_children (g q))" "sh_tokens (g m) \<noteq> []"
        "sh_end (g m) = sh_end (g q) + int (length (sh_tokens (g m)))" by (auto elim: shape_wf_parentD [OF wf])
      moreover have "q \<noteq> f" using q(1) n(2) by auto
      moreover have "m \<in> set (sh_children (G q))" using q(3) 3 chp(1) ch [of q] \<open>q \<noteq> f\<close> by (cases "q = p") auto
      ultimately show ?thesis using 3 by (auto simp: parent_ok_def oth endo)
    qed
  qed
  ultimately show ?thesis
    using wf nr ne unfolding G_def [symmetric] by (auto simp: shape_wf_def oth endo)
qed

subsection \<open>Merging with the only child\<close>

definition shape_merge :: "nat \<Rightarrow> nat \<Rightarrow> (nat \<Rightarrow> shape) \<Rightarrow> nat \<Rightarrow> shape" where
  "shape_merge n c g =
     (\<lambda>d. if d = c then (g c)\<lparr>sh_parent := None, sh_children := []\<rparr>
          else if d = n then (g n)\<lparr>sh_tokens := sh_tokens (g n) @ sh_tokens (g c), sh_end := sh_end (g c),
                               sh_children := sh_children (g c)\<rparr>
          else if d \<in> set (sh_children (g c)) then (g d)\<lparr>sh_parent := Some n\<rparr>
          else g d)"

lemma shape_wf_merge:
  assumes wf: "shape_wf g r S" and n: "n \<in> S" "n \<noteq> r" "sh_children (g n) = [c]"
  shows "shape_wf (shape_merge n c g) r (S - {c})"
proof -
  define G where "G = shape_merge n c g"
  have c: "c \<in> S" "sh_parent (g c) = Some n" "c \<noteq> r" "sh_end (g c) = sh_end (g n) + int (length (sh_tokens (g c)))"
    using shape_wf_childD [OF wf n(1), of c] n(3) by auto
  have nc: "c \<noteq> n" using shape_wf_neq [OF wf n(1), of c] n(3) by auto
  let ?C = "set (sh_children (g c))"
  have gc: "d \<in> S" "sh_parent (g d) = Some c" "d \<noteq> c" "d \<noteq> n" "d \<noteq> r" if "d \<in> ?C" for d
  proof -
    show "d \<in> S" "sh_parent (g d) = Some c" "d \<noteq> c" "d \<noteq> r"
      using shape_wf_childD [OF wf c(1) that] shape_wf_neq [OF wf c(1) that] by auto
    have "0 < int (length (sh_tokens (g c)))" "0 < int (length (sh_tokens (g d)))"
      using shape_wf_childD [OF wf n(1), of c] n(3) shape_wf_childD [OF wf c(1) that] by auto
    then have "sh_end (g n) < sh_end (g d)" using shape_wf_childD [OF wf c(1) that] c(4) by linarith
    then show "d \<noteq> n" by auto
  qed
  have tok: "sh_tokens (G d) = (if d = n then sh_tokens (g n) @ sh_tokens (g c) else sh_tokens (g d))" if "d \<noteq> c" for d
    using that by (simp add: G_def shape_merge_def)
  have endo: "sh_end (G d) = (if d = n then sh_end (g c) else sh_end (g d))" if "d \<noteq> c" for d
    using that by (simp add: G_def shape_merge_def)
  have par: "sh_parent (G d) = (if d \<in> ?C then Some n else sh_parent (g d))" if "d \<noteq> c" for d
    using that gc by (auto simp: G_def shape_merge_def)
  have ch: "sh_children (G d) = (if d = n then sh_children (g c) else sh_children (g d))" if "d \<noteq> c" for d
    using that by (simp add: G_def shape_merge_def)
  have nE: "sh_tokens (g n) \<noteq> []" using shape_wf_parentD [OF wf n(1,2)] by blast
  have hdn: "hd (sh_tokens (G d)) = hd (sh_tokens (g d))" if "d \<noteq> c" for d
    using that nE by (simp add: tok)
  have nin: "c \<notin> set (sh_children (g d))" if "d \<in> S" "d \<noteq> n" for d
    using shape_wf_childD [OF wf that(1)] c(2) that(2) by auto
  have "children_ok G (S - {c}) m" if m: "m \<in> S - {c}" for m
  proof (cases "m = n")
    case True
    have "children_ok g S c" using wf c(1) by (simp add: shape_wf_def)
    then show ?thesis
      using True nc gc unfolding children_ok_def
      by (auto simp: ch par inj_on_def hdn)
  next
    case False
    with m have ok: "children_ok g S m" using wf by (simp add: shape_wf_def)
    have "d \<noteq> c \<and> d \<notin> ?C" if "d \<in> set (sh_children (g m))" for d
      using that nin [of m] m False gc(2) shape_wf_childD [OF wf, of m d] by auto
    with ok m False show ?thesis unfolding children_ok_def
      by (auto simp: ch par inj_on_def hdn)
  qed
  moreover have "parent_ok G (S - {c}) m" if m: "m \<in> S - {c} - {r}" for m
  proof -
    from m obtain q where q: "q \<in> S" "sh_parent (g m) = Some q" "m \<in> set (sh_children (g q))" "sh_tokens (g m) \<noteq> []"
      "sh_end (g m) = sh_end (g q) + int (length (sh_tokens (g m)))" by (auto elim: shape_wf_parentD [OF wf])
    show ?thesis
    proof (cases "q = c")
      case True
      then show ?thesis using q m n(1) nc gc [of m] by (auto simp: parent_ok_def tok endo par ch)
    next
      case False
      moreover have "m \<notin> ?C" using gc(2) q(2) False by auto
      moreover have "q \<noteq> n" using q(3) n(3) m by auto
      ultimately show ?thesis using q m c(4) by (auto simp: parent_ok_def tok endo par ch)
    qed
  qed
  moreover have "r \<notin> ?C" using gc(5) by blast
  ultimately show ?thesis
    using wf n c unfolding G_def [symmetric] by (auto simp: shape_wf_def tok endo par)
qed

end
