(* ===== verification/CacheTrieOps.thy ===== *)
theory CacheTrieOps
  imports CacheTrieInv
begin

text \<open>
  What each operation of \<open>cache_trie.go\<close> does to the shapes of the nodes and to the counter of paged-out bytes, and
  that it keeps the trie well formed and the counter balanced.
\<close>

section \<open>Shapes\<close>

lemma shape_of_set_node: "shape_of (set_node n x h) = (shape_of h)(n := \<lparr>sh_tokens = tn_tokens x, sh_end = tn_endOffset x,
    sh_parent = tn_parent x, sh_children = tn_children x\<rparr>)"
  by (auto simp: shape_of_def set_node_def)

lemma shape_of_bytes [simp]: "shape_of (h\<lparr>st_bytes := b\<rparr>) = shape_of h"
  by (auto simp: shape_of_def)

lemma st_next_set_node [simp]: "st_next (set_node n x h) = st_next h"
  by (simp add: set_node_def)

lemma shape_of_swap [simp]: "shape_of (snd (swapSnapshots n ss c h)) = shape_of h"
  by (auto simp: swapSnapshots_def Let_def shape_of_set_node) (auto simp: shape_of_def)

lemma st_next_swap [simp]: "st_next (snd (swapSnapshots n ss c h)) = st_next h"
  by (simp add: swapSnapshots_def Let_def)

lemma shape_of_setSnapshots [simp]: "shape_of (setSnapshots n ss c h) = shape_of h"
  and st_next_setSnapshots [simp]: "st_next (setSnapshots n ss c h) = st_next h"
  by (simp_all add: setSnapshots_def)

lemma shape_of_sel: "tn_tokens (st_node h n) = sh_tokens (shape_of h n)" "tn_endOffset (st_node h n) = sh_end (shape_of h n)"
  "tn_parent (st_node h n) = sh_parent (shape_of h n)" "tn_children (st_node h n) = sh_children (shape_of h n)"
  by (simp_all add: shape_of_def)

lemma shape_of_new: "shape_of (snd (new_node x h)) = (shape_of h)(st_next h := \<lparr>sh_tokens = tn_tokens x, sh_end = tn_endOffset x,
    sh_parent = tn_parent x, sh_children = tn_children x\<rparr>)"
  by (auto simp: shape_of_def new_node_def)

lemma appendChild_shape:
  assumes "appendChild n toks e h = (c, h')" "n \<noteq> st_next h"
  shows "c = st_next h \<and> st_next h' = Suc (st_next h) \<and> shape_of h' = shape_append n c toks e (shape_of h)"
  using assms by (auto simp: appendChild_def new_node_def Let_def shape_of_set_node shape_append_def)
    (auto simp: shape_of_def)

lemma removeNode_shape:
  assumes "removeNode n h = Some h'" "sh_parent (shape_of h n) = Some p" "n \<noteq> p"
  shows "st_next h' = st_next h \<and> shape_of h' = shape_remove n p (shape_of h) \<and> sh_children (shape_of h n) = []"
  using assms
  by (auto simp: removeNode_def Let_def shape_of_set_node shape_remove_def shape_of_sel split: if_splits)

lemma split_edge_shape:
  assumes "split_edge n at h = (f, h')" "n < st_next h" "0 < at"
  shows "f = st_next h \<and> st_next h' = Suc f \<and>
    shape_of h' = (shape_of h)(f := \<lparr>sh_tokens = take (nat at) (sh_tokens (shape_of h n)),
      sh_end = sh_end (shape_of h n) - int (length (sh_tokens (shape_of h n))) + int (nat at),
      sh_parent = sh_parent (shape_of h n), sh_children = [n]\<rparr>,
      n := (shape_of h n)\<lparr>sh_tokens := drop (nat at) (sh_tokens (shape_of h n))\<rparr>)"
  using assms by (auto simp: split_edge_def new_node_def Let_def shape_of_set_node startOffset_def)
    (auto simp: shape_of_def)

lemma split_snapshots_shape:
  "split_snapshots n f caches h = Some h' \<Longrightarrow> shape_of h' = shape_of h \<and> st_next h' = st_next h"
  using shape_of_swap [of n "[]" True h] st_next_swap [of n "[]" True h]
  by (auto simp: split_snapshots_def case_prod_beta Let_def split: if_splits)

lemma split_relink_shape:
  assumes "sh_parent (shape_of h n) = Some p" "n \<noteq> p"
  shows "st_next (split_relink n f h) = st_next h \<and> shape_of (split_relink n f h) =
    (shape_of h)(p := (shape_of h p)\<lparr>sh_children := replace1 n f (sh_children (shape_of h p))\<rparr>,
      n := (shape_of h n)\<lparr>sh_parent := Some f\<rparr>)"
  using assms by (auto simp: split_relink_def shape_of_sel Let_def shape_of_set_node)

lemma splitNode_shape:
  assumes "splitNode n at caches h = Some (f, h')" "sh_parent (shape_of h n) = Some p" "n \<noteq> p" "n < st_next h" "p < st_next h"
  shows "f = st_next h \<and> st_next h' = Suc f \<and> 0 < nat at \<and> nat at < length (sh_tokens (shape_of h n)) \<and>
    shape_of h' = shape_split n f p (nat at) (shape_of h)"
proof -
  obtain h1 h2 where h: "0 < at" "at < int (length (sh_tokens (shape_of h n)))" "split_edge n at h = (f, h1)"
    "split_snapshots n f caches h1 = Some h2" "h' = split_relink n f h2"
    using assms(1) by (auto simp: splitNode_def shape_of_sel split: if_splits prod.splits)
  note e = split_edge_shape [OF h(3) assms(4) h(1)]
  note s = split_snapshots_shape [OF h(4)]
  have "sh_parent (shape_of h2 n) = Some p" using e s assms(2) by simp
  from split_relink_shape [OF this assms(3), of f] show ?thesis
    using e s h(1,2) assms by (auto simp: h(5) shape_split_def fun_eq_iff)
qed

lemma merge_edge_shape: "st_next (merge_edge n c h) = st_next h \<and> shape_of (merge_edge n c h) =
    (shape_of h)(n := (shape_of h n)\<lparr>sh_tokens := sh_tokens (shape_of h n) @ sh_tokens (shape_of h c),
      sh_end := sh_end (shape_of h c)\<rparr>)"
  by (auto simp: merge_edge_def Let_def shape_of_set_node) (auto simp: shape_of_def)

lemma merge_snapshots_shape:
  "merge_snapshots n c caches h = Some h' \<Longrightarrow> shape_of h' = shape_of h \<and> st_next h' = st_next h"
  by (auto simp: merge_snapshots_def case_prod_beta Let_def split: if_splits)

lemma set_parents_shape: "st_next (set_parents p cs h) = st_next h \<and> shape_of (set_parents p cs h) =
    (\<lambda>d. if d \<in> set cs then (shape_of h d)\<lparr>sh_parent := Some p\<rparr> else shape_of h d)"
proof (induction cs arbitrary: h)
  case (Cons c cs)
  show ?case using Cons [of "set_node c ((st_node h c)\<lparr>tn_parent := Some p\<rparr>) h"]
    by (auto simp: set_parents_def shape_of_set_node fun_eq_iff) (auto simp: shape_of_def)
qed (simp add: set_parents_def)

lemma merge_adopt_shape:
  assumes "n \<noteq> c" "c \<notin> set (sh_children (shape_of h c))" "n \<notin> set (sh_children (shape_of h c))"
  shows "st_next (merge_adopt n c h) = st_next h \<and> shape_of (merge_adopt n c h) =
    (\<lambda>d. if d = c then (shape_of h c)\<lparr>sh_parent := None, sh_children := []\<rparr>
          else if d = n then (shape_of h n)\<lparr>sh_children := sh_children (shape_of h c)\<rparr>
          else if d \<in> set (sh_children (shape_of h c)) then (shape_of h d)\<lparr>sh_parent := Some n\<rparr>
          else shape_of h d)"
proof -
  define h1 where "h1 = set_node n ((st_node h n)\<lparr>tn_children := tn_children (st_node h c)\<rparr>) h"
  define h2 where "h2 = set_parents n (tn_children (st_node h1 n)) h1"
  have 1: "shape_of h1 = (shape_of h)(n := (shape_of h n)\<lparr>sh_children := sh_children (shape_of h c)\<rparr>)" "st_next h1 = st_next h"
    by (auto simp: h1_def shape_of_set_node) (auto simp: shape_of_def)
  have 2: "shape_of h2 = (\<lambda>d. if d \<in> set (sh_children (shape_of h c)) then (shape_of h1 d)\<lparr>sh_parent := Some n\<rparr> else shape_of h1 d)"
    "st_next h2 = st_next h"
    using set_parents_shape [of n "tn_children (st_node h1 n)" h1] by (simp_all add: h2_def shape_of_sel 1)
  have 3: "shape_of (merge_adopt n c h) = (shape_of h2)(c := (shape_of h2 c)\<lparr>sh_parent := None, sh_children := []\<rparr>)"
    "st_next (merge_adopt n c h) = st_next h2"
    using assms(1)
    by (auto simp: merge_adopt_def h1_def [symmetric] h2_def [symmetric] Let_def shape_of_set_node fun_eq_iff)
      (auto simp: shape_of_def set_node_def)
  show ?thesis using assms by (auto simp: 2 3 1 fun_eq_iff)
qed

lemma mergeWithChild_shape:
  assumes "mergeWithChild n caches h = Some h'"
    and "\<And>c. sh_children (shape_of h n) = [c] \<Longrightarrow>
      n \<noteq> c \<and> c \<notin> set (sh_children (shape_of h c)) \<and> n \<notin> set (sh_children (shape_of h c))"
  shows "\<exists>c. sh_children (shape_of h n) = [c] \<and> st_next h' = st_next h \<and> shape_of h' = shape_merge n c (shape_of h)"
proof -
  obtain c h2 where h: "sh_children (shape_of h n) = [c]" "merge_snapshots n c caches (merge_edge n c h) = Some h2"
    "h' = merge_adopt n c h2"
    using assms(1) by (auto simp: mergeWithChild_def shape_of_sel split: list.splits)
  note n = assms(2) [OF h(1)]
  have 2: "shape_of h2 = (shape_of h)(n := (shape_of h n)\<lparr>sh_tokens := sh_tokens (shape_of h n) @ sh_tokens (shape_of h c),
      sh_end := sh_end (shape_of h c)\<rparr>)" "st_next h2 = st_next h"
    using merge_snapshots_shape [OF h(2)] merge_edge_shape [of n c h] by auto
  then show ?thesis using merge_adopt_shape [of n c h2] n h(1,3) by (auto simp: shape_merge_def fun_eq_iff)
qed

section \<open>The operations keep the trie well formed\<close>

lemma trie_wf_append:
  assumes wf: "trie_wf h r S" and a: "appendChild n toks e h = (c, h')" and n: "n \<in> S"
    and t: "toks \<noteq> []" "e = sh_end (shape_of h n) + int (length toks)"
    and hd: "\<forall>d \<in> set (sh_children (shape_of h n)). hd (sh_tokens (shape_of h d)) \<noteq> hd toks"
  shows "trie_wf h' r (insert c S) \<and> c \<notin> S \<and> shape_of h' = shape_append n c toks e (shape_of h)"
proof -
  have lt: "\<forall>m \<in> S. m < st_next h" using wf by (simp add: trie_wf_def)
  then have "n \<noteq> st_next h" using n by auto
  note s = appendChild_shape [OF a this]
  have "c \<notin> S" using s lt by auto
  moreover from this have "shape_wf (shape_append n c toks e (shape_of h)) r (insert c S)"
    using wf n t hd by (intro shape_wf_append) (auto simp: trie_wf_def)
  ultimately show ?thesis using s lt by (auto simp: trie_wf_def less_Suc_eq)
qed

lemma trie_wf_remove:
  assumes wf: "trie_wf h r S" and a: "removeNode n h = Some h'" and n: "n \<in> S" "n \<noteq> r"
  shows "\<exists>p. sh_parent (shape_of h n) = Some p \<and> trie_wf h' r (S - {n}) \<and> shape_of h' = shape_remove n p (shape_of h)"
proof -
  have w: "shape_wf (shape_of h) r S" using wf by (simp add: trie_wf_def)
  from shape_wf_parentD [OF w n] obtain p where p: "p \<in> S" "sh_parent (shape_of h n) = Some p"
    "n \<in> set (sh_children (shape_of h p))" by blast
  have "n \<noteq> p" using shape_wf_neq [OF w p(1,3)] .
  note s = removeNode_shape [OF a p(2) this]
  have "shape_wf (shape_remove n p (shape_of h)) r (S - {n})" using s by (intro shape_wf_remove [OF w n(1) p(2)]) auto
  then show ?thesis using s p(2) wf by (auto simp: trie_wf_def)
qed

lemma trie_wf_split:
  assumes wf: "trie_wf h r S" and a: "splitNode n at caches h = Some (f, h')" and n: "n \<in> S" "n \<noteq> r"
  shows "\<exists>p. sh_parent (shape_of h n) = Some p \<and> p \<in> S \<and> p \<noteq> n \<and> f \<notin> S \<and> trie_wf h' r (insert f S) \<and>
    0 < nat at \<and> nat at < length (sh_tokens (shape_of h n)) \<and> shape_of h' = shape_split n f p (nat at) (shape_of h)"
proof -
  have w: "shape_wf (shape_of h) r S" and lt: "\<forall>m \<in> S. m < st_next h" using wf by (auto simp: trie_wf_def)
  from shape_wf_parentD [OF w n] obtain p where p: "p \<in> S" "sh_parent (shape_of h n) = Some p"
    "n \<in> set (sh_children (shape_of h p))" by blast
  have np: "n \<noteq> p" using shape_wf_neq [OF w p(1,3)] .
  have s: "f = st_next h \<and> st_next h' = Suc f \<and> 0 < nat at \<and> nat at < length (sh_tokens (shape_of h n)) \<and>
    shape_of h' = shape_split n f p (nat at) (shape_of h)"
    using splitNode_shape [OF a p(2) np] lt n(1) p(1) by blast
  have f: "f \<notin> S" using s lt by auto
  then have "shape_wf (shape_split n f p (nat at) (shape_of h)) r (insert f S)"
    using s by (intro shape_wf_split [OF w n(1) _ p(2)]) auto
  then show ?thesis using s p np f lt by (auto simp: trie_wf_def less_Suc_eq)
qed

lemma trie_wf_merge:
  assumes wf: "trie_wf h r S" and a: "mergeWithChild n caches h = Some h'" and n: "n \<in> S" "n \<noteq> r"
  shows "\<exists>c. sh_children (shape_of h n) = [c] \<and> c \<in> S \<and> c \<noteq> n \<and> trie_wf h' r (S - {c}) \<and>
    shape_of h' = shape_merge n c (shape_of h)"
proof -
  have w: "shape_wf (shape_of h) r S" using wf by (simp add: trie_wf_def)
  have side: "c \<in> S \<and> n \<noteq> c \<and> c \<notin> set (sh_children (shape_of h c)) \<and> n \<notin> set (sh_children (shape_of h c))"
    if c: "sh_children (shape_of h n) = [c]" for c
  proof -
    have cS: "c \<in> S" "sh_parent (shape_of h c) = Some n" using shape_wf_childD [OF w n(1), of c] c by auto
    moreover have "c \<noteq> n" using shape_wf_neq [OF w n(1), of c] c by simp
    moreover have "c \<notin> set (sh_children (shape_of h c))" using shape_wf_neq [OF w cS(1)] by blast
    moreover have "n \<notin> set (sh_children (shape_of h c))"
    proof
      assume "n \<in> set (sh_children (shape_of h c))"
      from shape_wf_child_later [OF w cS(1) this] shape_wf_child_later [OF w n(1), of c] c
      show False by simp
    qed
    ultimately show ?thesis by blast
  qed
  obtain c where c: "sh_children (shape_of h n) = [c]" "st_next h' = st_next h" "shape_of h' = shape_merge n c (shape_of h)"
    using mergeWithChild_shape [OF a] side by blast
  then show ?thesis using shape_wf_merge [OF w n c(1)] side [OF c(1)] wf by (auto simp: trie_wf_def)
qed

section \<open>The counter\<close>

definition hooked :: "'d layers \<Rightarrow> bool" where
  "hooked ss \<longleftrightarrow> list_all (\<lambda>s. case s of Some s \<Rightarrow> ss_hook s | None \<Rightarrow> True) ss"

text \<open>The counter is the number of bytes the snapshots of the nodes hold, each of them is charged to it, and a node
  has a snapshot slot for each of the \<open>k\<close> cache layers or none.\<close>

definition balanced :: "nat \<Rightarrow> 'd store \<Rightarrow> nat set \<Rightarrow> bool" where
  "balanced k h S \<longleftrightarrow> st_bytes h = (\<Sum>n\<in>S. snapshotBytes (st_node h n)) \<and>
     (\<forall>n\<in>S. hooked (tn_snapshots (st_node h n)) \<and> length (tn_snapshots (st_node h n)) \<in> {0, k})"

lemma length_set_hooks [simp]: "length (set_hooks b ss) = length ss" "set_hooks b [] = []"
  by (simp_all add: set_hooks_def)

lemma swap_old [simp]: "fst (swapSnapshots n ss c h) = set_hooks False (tn_snapshots (st_node h n))"
  by (simp add: swapSnapshots_def Let_def)

lemma split_layers_length:
  "split_layers caches at old = Some (a, b) \<Longrightarrow> length a = length old \<and> length b = length old"
  by (auto simp: split_layers_def Let_def split: if_splits)

lemma split_layers_total: "length old \<le> length caches \<Longrightarrow> split_layers caches at old \<noteq> None"
  by (auto simp: split_layers_def Let_def list_ex_iff)

lemma merge_layers_length: "merge_layers caches a b = Some ss \<Longrightarrow> length ss = length caches"
  by (auto simp: merge_layers_def split: if_splits)

lemma merge_layers_total:
  "length a \<in> {0, length caches} \<Longrightarrow> length b \<in> {0, length caches} \<Longrightarrow> merge_layers caches a b \<noteq> None"
  by (auto simp: merge_layers_def list_ex_iff)

lemma layers_bytes_hooks [simp]: "layers_bytes (set_hooks b ss) = layers_bytes ss"
  by (induction ss) (auto simp: layers_bytes_def set_hooks_def split: option.split)

lemma layers_bytes_Nil [simp]: "layers_bytes [] = 0"
  by (simp add: layers_bytes_def)

lemma hooked_set_hooks [simp]: "hooked (set_hooks True ss)" "hooked []"
  by (induction ss) (auto simp: hooked_def set_hooks_def split: option.split)

lemma swap_fields: "st_node (snd (swapSnapshots n ss True h)) =
      (st_node h)(n := (st_node h n)\<lparr>tn_snapshots := set_hooks True ss\<rparr>)"
    "st_bytes (snd (swapSnapshots n ss True h)) = st_bytes h - snapshotBytes (st_node h n) + layers_bytes ss"
  by (simp_all add: swapSnapshots_def Let_def set_node_def snapshotBytes_def)

lemma balanced_swap:
  assumes "balanced k h S" "finite S" "n \<in> S" "length ss \<in> {0, k}"
  shows "balanced k (snd (swapSnapshots n ss True h)) S"
  using assms
  by (auto simp: balanced_def swap_fields sum.remove [of S n] snapshotBytes_def)

lemma balanced_set: "balanced k h S \<Longrightarrow> finite S \<Longrightarrow> n \<in> S \<Longrightarrow> length ss \<in> {0, k} \<Longrightarrow> balanced k (setSnapshots n ss True h) S"
  by (simp add: setSnapshots_def balanced_swap)

lemma balanced_node:
  assumes "balanced k h S" "tn_snapshots x = tn_snapshots (st_node h n)"
  shows "balanced k (set_node n x h) S"
proof -
  have "(st_node (set_node n x h) m) = st_node h m \<or> tn_snapshots (st_node (set_node n x h) m) = tn_snapshots (st_node h m)" for m
    using assms(2) by (auto simp: set_node_def)
  then have "tn_snapshots (st_node (set_node n x h) m) = tn_snapshots (st_node h m)" for m by metis
  then show ?thesis using assms(1) by (simp add: balanced_def snapshotBytes_def) (simp add: set_node_def)
qed

lemma balanced_new:
  assumes "balanced k h S" "finite S" "st_next h \<notin> S" "tn_snapshots x = []"
  shows "balanced k (snd (new_node x h)) (insert (st_next h) S)"
proof -
  have "st_node (snd (new_node x h)) m = st_node h m" if "m \<in> S" for m
    using that assms(3) by (auto simp: new_node_def)
  then show ?thesis using assms by (simp add: balanced_def new_node_def snapshotBytes_def)
qed

lemma balanced_drop:
  assumes "balanced k h S" "finite S" "tn_snapshots (st_node h n) = []"
  shows "balanced k h (S - {n})"
  using assms by (cases "n \<in> S") (auto simp: balanced_def sum.remove [of S n] snapshotBytes_def)

lemma balanced_parents: "balanced k h S \<Longrightarrow> balanced k (set_parents p cs h) S"
  by (induction cs arbitrary: h) (auto simp: set_parents_def balanced_node)

lemma snapshots_parents: "tn_snapshots (st_node (set_parents p cs h) n) = tn_snapshots (st_node h n)"
proof (induction cs arbitrary: h)
  case (Cons c cs)
  show ?case using Cons [of "set_node c ((st_node h c)\<lparr>tn_parent := Some p\<rparr>) h"]
    by (simp add: set_parents_def) (simp add: set_node_def)
qed (simp add: set_parents_def)

lemma snapshots_set_node:
  "tn_snapshots x = tn_snapshots (st_node h n) \<Longrightarrow> tn_snapshots (st_node (set_node n x h) m) = tn_snapshots (st_node h m)"
  by (simp add: set_node_def)

lemma merge_adopt_balanced:
  assumes "balanced k h S"
  shows "balanced k (merge_adopt n c h) S \<and> tn_snapshots (st_node (merge_adopt n c h) m) = tn_snapshots (st_node h m)"
proof -
  define h1 where "h1 = set_node n ((st_node h n)\<lparr>tn_children := tn_children (st_node h c)\<rparr>) h"
  define h2 where "h2 = set_parents n (tn_children (st_node h1 n)) h1"
  define h3 where "h3 = set_node n ((st_node h2 n)\<lparr>tn_user := tn_user (st_node h2 c)\<rparr>) h2"
  define h4 where "h4 = (if tn_lastUsed (st_node h3 c) > tn_lastUsed (st_node h3 n)
               then set_node n ((st_node h3 n)\<lparr>tn_lastUsed := tn_lastUsed (st_node h3 c)\<rparr>) h3 else h3)"
  have m: "merge_adopt n c h = set_node c ((st_node h4 c)\<lparr>tn_parent := None, tn_children := []\<rparr>) h4"
    unfolding merge_adopt_def Let_def h4_def h3_def h2_def h1_def by (rule refl)
  have "balanced k h1 S" "\<And>m. tn_snapshots (st_node h1 m) = tn_snapshots (st_node h m)"
    using assms by (auto simp: h1_def balanced_node snapshots_set_node)
  then have "balanced k h2 S" "\<And>m. tn_snapshots (st_node h2 m) = tn_snapshots (st_node h m)"
    by (auto simp: h2_def balanced_parents snapshots_parents)
  then have "balanced k h3 S" "\<And>m. tn_snapshots (st_node h3 m) = tn_snapshots (st_node h m)"
    by (auto simp: h3_def balanced_node snapshots_set_node)
  then have "balanced k h4 S" "\<And>m. tn_snapshots (st_node h4 m) = tn_snapshots (st_node h m)"
    by (auto simp: h4_def balanced_node snapshots_set_node)
  then show ?thesis by (auto simp: m balanced_node snapshots_set_node)
qed

lemma balanced_append:
  assumes "balanced k h S" "finite S" "st_next h \<notin> S" "appendChild n toks e h = (c, h')"
  shows "balanced k h' (insert c S)"
  using assms(4) balanced_new [OF assms(1-3)]
  by (auto simp: appendChild_def Let_def case_prod_beta new_node_def intro!: balanced_node)

lemma balanced_remove:
  assumes "balanced k h S" "finite S" "n \<in> S" "removeNode n h = Some h'"
  shows "balanced k h' (S - {n})"
proof -
  obtain p where p: "tn_parent (st_node h n) = Some p"
    using assms(4) by (auto simp: removeNode_def split: option.splits)
  define h1 where "h1 = set_node p ((st_node h p)\<lparr>tn_children := remove1 n (tn_children (st_node h p))\<rparr>) h"
  define h2 where "h2 = set_node n ((st_node h1 n)\<lparr>tn_parent := None\<rparr>) h1"
  have h2: "balanced k h2 S" "h' = setSnapshots n [] True h2"
    using assms(1,4) p by (auto simp: removeNode_def Let_def h1_def h2_def split: if_splits intro!: balanced_node)
  then have "balanced k h' S" using assms(2,3) by (simp add: balanced_set)
  then show ?thesis
    using assms(2) h2(2) by (intro balanced_drop) (simp_all add: setSnapshots_def swap_fields set_hooks_def)
qed

lemma balanced_split:
  assumes b: "balanced k h S" "finite S" "st_next h \<notin> S" "n \<in> S" and s: "splitNode n at caches h = Some (f, h')"
  shows "balanced k h' (insert f S)"
proof -
  obtain h1 h2 where h: "split_edge n at h = (f, h1)" "split_snapshots n f caches h1 = Some h2" "h' = split_relink n f h2"
    using s by (auto simp: splitNode_def split: if_splits prod.splits)
  have f: "f = st_next h" using h(1) by (auto simp: split_edge_def Let_def new_node_def)
  have 1: "balanced k h1 (insert f S)"
    using h(1) balanced_new [OF b(1-3)] f
    by (auto simp: split_edge_def Let_def new_node_def intro!: balanced_node)
  have 2: "balanced k h2 (insert f S)"
  proof (cases "hasSnapshots (st_node h1 n)")
    case True
    then obtain a d where ad: "split_layers caches (tn_endOffset (st_node (snd (swapSnapshots n [] True h1)) f))
        (set_hooks False (tn_snapshots (st_node h1 n))) = Some (a, d)"
      "h2 = setSnapshots n d True (setSnapshots f a True (snd (swapSnapshots n [] True h1)))"
      using h(2) by (auto simp: split_snapshots_def case_prod_beta Let_def)
    have "length (tn_snapshots (st_node h1 n)) \<in> {0, k}" using 1 b(4) by (auto simp: balanced_def)
    then have "length a \<in> {0, k}" "length d \<in> {0, k}" using split_layers_length [OF ad(1)] by auto
    then show ?thesis
      using balanced_swap [OF 1, of n "[]"] b(2,4) unfolding ad(2) by (intro balanced_set) auto
  next
    case False
    then show ?thesis using h(2) 1 by (simp add: split_snapshots_def)
  qed
  then show ?thesis
    by (auto simp: h(3) split_relink_def Let_def intro!: balanced_node split: option.split)
qed

lemma balanced_merge:
  assumes b: "balanced k h S" "finite S" "n \<in> S" "c \<in> S" "c \<noteq> n" and k: "length caches = k"
    and c: "sh_children (shape_of h n) = [c]" and m: "mergeWithChild n caches h = Some h'"
  shows "balanced k h' (S - {c})"
proof -
  obtain h2 where h: "merge_snapshots n c caches (merge_edge n c h) = Some h2" "h' = merge_adopt n c h2"
    using m c by (auto simp: mergeWithChild_def shape_of_sel)
  have 1: "balanced k (merge_edge n c h) S" using b(1) by (auto simp: merge_edge_def Let_def intro: balanced_node)
  let ?h = "snd (swapSnapshots c [] True (snd (swapSnapshots n [] True (merge_edge n c h))))"
  have "balanced k ?h S" using 1 b(2-4) by (intro balanced_swap) auto
  then have 2: "balanced k h2 S \<and> tn_snapshots (st_node h2 c) = []"
    using h(1) 1 b(2-5) k merge_layers_length [of caches]
    by (auto simp: merge_snapshots_def case_prod_beta Let_def setSnapshots_def balanced_swap swap_fields set_hooks_def
        split: if_splits)
  have "balanced k h' S \<and> tn_snapshots (st_node h' c) = []"
    using 2 merge_adopt_balanced [of k h2 S n c c] by (simp add: h(2))
  then show ?thesis using b(2) by (intro balanced_drop) auto
qed

lemma layers_bytes_update:
  "i < length ss \<Longrightarrow> ss ! i = Some s \<Longrightarrow> layers_bytes (ss[i := Some s']) = layers_bytes ss + ss_size s' - ss_size s"
  by (induction ss arbitrary: i) (auto simp: layers_bytes_def nth_Cons' split: nat.splits)

lemma hooked_update: "hooked ss \<Longrightarrow> ss_hook s \<Longrightarrow> hooked (ss[i := Some s])"
  by (induction ss arbitrary: i) (auto simp: hooked_def split: nat.splits)

text \<open>A snapshot that materialises later is charged to the counter by its hook.\<close>

lemma balanced_materialize:
  assumes b: "balanced k h S" "finite S" "n \<in> S"
  shows "balanced k (materialize n i delta h) S"
proof (cases "i < length (tn_snapshots (st_node h n)) \<and> tn_snapshots (st_node h n) ! i \<noteq> None")
  case True
  then obtain s where i: "i < length (tn_snapshots (st_node h n))" "tn_snapshots (st_node h n) ! i = Some s" by auto
  have hk: "hooked (tn_snapshots (st_node h n))" using b by (simp add: balanced_def)
  then have s: "ss_hook s" using i by (force simp: hooked_def list_all_iff in_set_conv_nth)
  have "hooked ((tn_snapshots (st_node h n))[i := Some (s\<lparr>ss_size := ss_size s + delta\<rparr>)])"
    using hooked_update [OF hk] s by simp
  then show ?thesis
    using b i s
    by (auto simp: materialize_def Let_def balanced_def set_node_def snapshotBytes_def sum.remove [of S n]
      layers_bytes_update)
qed (use b in \<open>auto simp: materialize_def Let_def split: option.split\<close>)

section \<open>The operations return\<close>

lemma splitNode_total:
  assumes "0 < at" "at < int (length (sh_tokens (shape_of h n)))" "n \<noteq> st_next h"
    and "length (tn_snapshots (st_node h n)) \<in> {0, length caches}"
  shows "\<exists>f h'. splitNode n at caches h = Some (f, h')"
proof -
  obtain f h1 where e: "split_edge n at h = (f, h1)" by fastforce
  then have s: "tn_snapshots (st_node h1 n) = tn_snapshots (st_node h n)"
    using assms(3) by (auto simp: split_edge_def Let_def new_node_def set_node_def)
  have "split_snapshots n f caches h1 \<noteq> None"
  proof (cases "hasSnapshots (st_node h1 n)")
    case True
    have "split_layers caches (tn_endOffset (st_node (snd (swapSnapshots n [] True h1)) f))
        (set_hooks False (tn_snapshots (st_node h1 n))) \<noteq> None"
      using assms(4) s by (intro split_layers_total) auto
    then show ?thesis using True by (auto simp: split_snapshots_def case_prod_beta Let_def)
  qed (simp add: split_snapshots_def)
  then show ?thesis using e assms(1,2) by (auto simp: splitNode_def shape_of_sel)
qed

lemma mergeWithChild_total:
  assumes "sh_children (shape_of h n) = [c]" "c \<noteq> n"
    and "length (tn_snapshots (st_node h n)) \<in> {0, length caches}" "length (tn_snapshots (st_node h c)) \<in> {0, length caches}"
  shows "\<exists>h'. mergeWithChild n caches h = Some h'"
proof -
  let ?h = "merge_edge n c h"
  have s: "tn_snapshots (st_node ?h m) = tn_snapshots (st_node h m)" for m
    by (simp add: merge_edge_def Let_def set_node_def)
  have "merge_layers caches (set_hooks False (tn_snapshots (st_node h n))) (set_hooks False (tn_snapshots (st_node h c))) \<noteq> None"
    using assms(3,4) by (intro merge_layers_total) auto
  then have "merge_snapshots n c caches ?h \<noteq> None"
    using assms(2) by (auto simp: merge_snapshots_def case_prod_beta Let_def s swap_fields)
  then show ?thesis using assms(1) by (auto simp: mergeWithChild_def shape_of_sel)
qed

lemma removeNode_total:
  "sh_parent (shape_of h n) \<noteq> None \<Longrightarrow> sh_children (shape_of h n) = [] \<Longrightarrow> \<exists>h'. removeNode n h = Some h'"
  by (auto simp: removeNode_def shape_of_sel Let_def)

end
