(* ===== verification/CacheTrieMatch.thy ===== *)
theory CacheTrieMatch
  imports CacheTrieOps
begin

text \<open>
  What a trie stores: the key sequences that can be read from a node downwards, in whole edges and a part of the
  last one.  \<open>findBestMatch\<close> finds the longest of them that begins the given keys; splitting and merging do
  not change them.
\<close>

section \<open>Stored sequences\<close>

inductive reads :: "(nat \<Rightarrow> shape) \<Rightarrow> nat \<Rightarrow> trieKey list \<Rightarrow> bool" for g where
  reads_Nil: "reads g n []"
| reads_edge: "c \<in> set (sh_children (g n)) \<Longrightarrow> reads g n (take k (sh_tokens (g c)))"
| reads_step: "c \<in> set (sh_children (g n)) \<Longrightarrow> reads g c ks \<Longrightarrow> reads g n (sh_tokens (g c) @ ks)"

fun chain :: "(nat \<Rightarrow> shape) \<Rightarrow> nat \<Rightarrow> nat list \<Rightarrow> bool" where
  "chain g n [] \<longleftrightarrow> True"
| "chain g n (c # cs) \<longleftrightarrow> c \<in> set (sh_children (g n)) \<and> chain g c cs"

lemma chain_append: "chain g n (xs @ ys) \<longleftrightarrow> chain g n xs \<and> chain g (last (n # xs)) ys"
  by (induction xs arbitrary: n) auto

lemma chain_in: "shape_wf g r S \<Longrightarrow> n \<in> S \<Longrightarrow> chain g n cs \<Longrightarrow> set cs \<subseteq> S"
proof (induction cs arbitrary: n)
  case (Cons c cs)
  then show ?case using shape_wf_childD [OF Cons.prems(1,2), of c] by auto
qed simp

section \<open>The best match\<close>

lemma common_len_le: "common_len xs ys \<le> length xs \<and> common_len xs ys \<le> length ys"
  by (induction xs ys rule: common_len.induct) auto

lemma common_len_take: "take (common_len xs ys) xs = take (common_len xs ys) ys"
  by (induction xs ys rule: common_len.induct) auto

lemma common_len_max: "take m xs = take m ys \<Longrightarrow> m \<le> length xs \<Longrightarrow> m \<le> length ys \<Longrightarrow> m \<le> common_len xs ys"
proof (induction xs ys arbitrary: m rule: common_len.induct)
  case (1 x xs y ys)
  then show ?case by (cases m) auto
qed auto

lemma common_len_all: "common_len xs ys = length xs \<Longrightarrow> take (length xs) ys = xs"
  using common_len_take [of xs ys] by simp

lemma common_len_stop:
  "common_len xs ys < length xs \<Longrightarrow> common_len xs ys < length ys \<Longrightarrow>
   hd (drop (common_len xs ys) xs) \<noteq> hd (drop (common_len xs ys) ys)"
  by (induction xs ys rule: common_len.induct) (auto split: if_splits)

lemma better_child_Some: "\<exists>b'. better_child h toks x (Some b) = Some b'"
  by (cases b) (auto simp: better_child_def Let_def)

lemma best_child_found:
  assumes "c \<in> set cs" "tn_tokens (st_node h c) \<noteq> []" "hd (tn_tokens (st_node h c)) = hd toks"
  shows "best_child h toks cs \<noteq> None"
proof -
  have some: "fold (better_child h toks) xs (Some b) \<noteq> None" for xs b
  proof (induction xs arbitrary: b)
    case (Cons x xs)
    obtain b' where "better_child h toks x (Some b) = Some b'" using better_child_Some by blast
    then show ?case using Cons by simp
  qed simp
  have "fold (better_child h toks) cs best \<noteq> None" for best
    using assms(1)
  proof (induction cs arbitrary: best)
    case (Cons x xs)
    show ?case
    proof (cases "x = c")
      case True
      then have "\<exists>b. better_child h toks x best = Some b"
        using assms(2,3) better_child_Some [of h toks x] by (cases best) (auto simp: better_child_def Let_def)
      then obtain b where "better_child h toks x best = Some b" by blast
      then show ?thesis using some [of xs b] by simp
    qed (use Cons in auto)
  qed simp
  then show ?thesis by (simp add: best_child_def)
qed

lemma best_child_unique:
  assumes "children_ok (shape_of h) S n" "c \<in> set (sh_children (shape_of h n))" "sh_tokens (shape_of h c) \<noteq> []"
    "hd (sh_tokens (shape_of h c)) = hd toks"
  shows "best_child h toks (tn_children (st_node h n)) =
    Some (c, common_len (sh_tokens (shape_of h c)) toks,
      common_len (sh_tokens (shape_of h c)) toks = length (sh_tokens (shape_of h c)))"
proof -
  obtain d j full where b: "best_child h toks (tn_children (st_node h n)) = Some (d, j, full)"
    using best_child_found [of c _ h toks] assms(2-4) by (force simp: shape_of_sel)
  have f: "d \<in> set (sh_children (shape_of h n))" "hd (sh_tokens (shape_of h d)) = hd toks"
    "j = common_len (sh_tokens (shape_of h d)) toks" "full = (j = length (sh_tokens (shape_of h d)))"
    using best_child_fits [OF b] by (auto simp: fits_def shape_of_sel)
  have "inj_on (\<lambda>c. hd (sh_tokens (shape_of h c))) (set (sh_children (shape_of h n)))"
    using assms(1) by (simp add: children_ok_def)
  then have "d = c" using assms(2,4) f(1,2) by (elim inj_onD) auto
  with b f show ?thesis by simp
qed

text \<open>The ways a step of the walk can go.\<close>

lemma match_below_cases [case_names stop part full]:
  assumes "match_below h n toks = (path, m)"
  obtains "path = []" "m = 0" "toks = [] \<or> best_child h toks (tn_children (st_node h n)) = None"
  | c where "toks \<noteq> []" "best_child h toks (tn_children (st_node h n)) = Some (c, m, False)" "path = [c]"
      "c \<in> set (sh_children (shape_of h n))" "m = common_len (sh_tokens (shape_of h c)) toks"
      "m < length (sh_tokens (shape_of h c))" "0 < m"
  | c p q where "toks \<noteq> []" "best_child h toks (tn_children (st_node h n)) = Some (c, length (sh_tokens (shape_of h c)), True)"
      "path = c # p" "m = length (sh_tokens (shape_of h c)) + q" "c \<in> set (sh_children (shape_of h n))"
      "toks = sh_tokens (shape_of h c) @ drop (length (sh_tokens (shape_of h c))) toks" "sh_tokens (shape_of h c) \<noteq> []"
      "match_below h c (drop (length (sh_tokens (shape_of h c))) toks) = (p, q)"
proof (cases "toks = [] \<or> best_child h toks (tn_children (st_node h n)) = None")
  case True
  then have "match_below h n toks = ([], 0)" by (subst match_below.simps) auto
  then have "path = []" "m = 0" using assms by auto
  with True that(1) show thesis by blast
next
  case False
  then obtain c j full where b: "toks \<noteq> []" "best_child h toks (tn_children (st_node h n)) = Some (c, j, full)" by auto
  have f: "c \<in> set (sh_children (shape_of h n))" "j = common_len (sh_tokens (shape_of h c)) toks"
    "full = (j = length (sh_tokens (shape_of h c)))"
    using best_child_fits [OF b(2)] by (auto simp: fits_def shape_of_sel)
  have j: "0 < j" "j \<le> length (sh_tokens (shape_of h c))" "j \<le> length toks"
    using best_child_pos [OF b(2,1)] common_len_le [of "sh_tokens (shape_of h c)" toks] f(2) by auto
  show thesis
  proof (cases full)
    case False
    then have "path = [c]" "m = j" using assms b by (auto simp: match_below.simps [of h n])
    with that(2) [of c] b f j False show thesis by auto
  next
    case True
    obtain p q where pq: "match_below h c (drop j toks) = (p, q)" by fastforce
    then have pm: "path = c # p" "m = j + q" using assms b True by (auto simp: match_below.simps [of h n])
    have "take j toks = sh_tokens (shape_of h c)" using common_len_all f(2,3) True by metis
    then have t: "toks = sh_tokens (shape_of h c) @ drop j toks" by (metis append_take_drop_id)
    have "j = length (sh_tokens (shape_of h c))" using f(3) True by simp
    with b pq pm f(1) t j(1) True show thesis by (intro that(3) [of c p q]) auto
  qed
qed

lemma match_below_reads:
  assumes "match_below h n toks = (path, m)"
  shows "reads (shape_of h) n (take m toks) \<and> m \<le> length toks \<and> chain (shape_of h) n path"
  using assms
proof (induction "length toks" arbitrary: n toks path m rule: less_induct)
  case less
  from less.prems show ?case
  proof (cases rule: match_below_cases)
    case stop
    then show ?thesis by (auto intro: reads_Nil)
  next
    case (part c)
    then have "take m toks = take m (sh_tokens (shape_of h c))" "m \<le> length toks"
      using common_len_take [of "sh_tokens (shape_of h c)" toks] common_len_le [of "sh_tokens (shape_of h c)" toks] by auto
    then show ?thesis using part reads_edge [of c "shape_of h" n m] by simp
  next
    case (full c p q)
    let ?e = "sh_tokens (shape_of h c)"
    have e: "take m toks = ?e @ take q (drop (length ?e) toks)" "length ?e \<le> length toks"
    proof -
      show "length ?e \<le> length toks" by (subst full(6)) simp
      show "take m toks = ?e @ take q (drop (length ?e) toks)" by (subst full(6)) (simp add: full(4))
    qed
    have "reads (shape_of h) c (take q (drop (length ?e) toks)) \<and> q \<le> length (drop (length ?e) toks) \<and> chain (shape_of h) c p"
      using less.hyps [OF _ full(8)] full(1,7) e(2) by (cases ?e) auto
    then show ?thesis using reads_step [of c "shape_of h" n] e full(3,4,5) by auto
  qed
qed

lemma match_below_longest:
  assumes wf: "shape_wf (shape_of h) r S" and n: "n \<in> S" and m: "reads (shape_of h) n (take m toks)" "m \<le> length toks"
  shows "m \<le> snd (match_below h n toks)"
  using n m
proof (induction "length toks" arbitrary: n m toks rule: less_induct)
  case less
  obtain path k where k: "match_below h n toks = (path, k)" by fastforce
  have ok: "children_ok (shape_of h) S n" using wf less.prems(1) by (simp add: shape_wf_def)
  have found: "best_child h toks (tn_children (st_node h n)) = Some (c, common_len (sh_tokens (shape_of h c)) toks,
      common_len (sh_tokens (shape_of h c)) toks = length (sh_tokens (shape_of h c)))"
    if "c \<in> set (sh_children (shape_of h n))" "hd (sh_tokens (shape_of h c)) = hd toks" for c
    using best_child_unique [OF ok that(1) _ that(2)] shape_wf_childD [OF wf less.prems(1) that(1)] by blast
  from less.prems(2) show ?case
  proof cases
    case reads_Nil
    then show ?thesis using less.prems(3) by auto
  next
    case (reads_edge c j)
    let ?e = "sh_tokens (shape_of h c)"
    have eN: "?e \<noteq> []" using shape_wf_childD [OF wf less.prems(1) reads_edge(2)] by blast
    show ?thesis
    proof (cases "m = 0")
      case False
      then have t: "toks \<noteq> []" using less.prems(3) by auto
      then have jp: "0 < j" using reads_edge(1) False eN by (cases j) auto
      have hd: "hd ?e = hd toks" using reads_edge(1) False jp t eN by (metis hd_take neq0_conv)
      have "m = length (take j ?e)" using reads_edge(1) less.prems(3) by (metis length_take min.absorb2)
      then have "take m toks = take m ?e" "m \<le> length ?e" using reads_edge(1) by (auto simp: min_def split: if_splits)
      then have "m \<le> common_len ?e toks" using common_len_max [of m ?e toks] less.prems(3) by auto
      then show ?thesis using k found [OF reads_edge(2) hd] t
        by (cases rule: match_below_cases [OF k]) auto
    qed simp
  next
    case (reads_step c ks)
    let ?e = "sh_tokens (shape_of h c)"
    have c: "?e \<noteq> []" "c \<in> S" using shape_wf_childD [OF wf less.prems(1) reads_step(2)] by auto
    have t: "toks \<noteq> []" using reads_step(1) c(1) by auto
    have pre: "toks = (?e @ ks) @ drop m toks" using reads_step(1) by (metis append_take_drop_id)
    have pe: "take (length ?e) toks = ?e" "length ?e \<le> length toks" by (subst pre, simp)+
    have "length ?e \<le> common_len ?e toks" by (rule common_len_max) (simp_all add: pe)
    then have full: "common_len ?e toks = length ?e" using common_len_le [of ?e toks] by simp
    have hd: "hd ?e = hd toks" using pre c(1) by (metis append_assoc hd_append2)
    have ml: "m = length ?e + length ks" using reads_step(1) less.prems(3) by (metis length_append length_take min.absorb2)
    from k show ?thesis
    proof (cases rule: match_below_cases)
      case (full d p q)
      have d: "d = c" using full(2) found [OF reads_step(2) hd] by simp
      let ?r = "drop (length ?e) toks"
      have "?r = ks @ drop m toks" by (subst pre) simp
      then have "take (length ks) ?r = ks" "length ks \<le> length ?r" by auto
      then have "length ks \<le> snd (match_below h c ?r)"
        using less.hyps [of ?r c "length ks"] c reads_step(3) t by (cases ?e) auto
      then show ?thesis using full(4,8) d k ml by simp
    qed (use found [OF reads_step(2) hd] t full in auto)
  qed
qed

section \<open>Splitting, merging and appending\<close>

lemma take_add_append: "take k xs @ take j (drop k xs) = take (k + j) xs"
  by (simp add: take_add)

lemma reads_split:
  assumes wf: "shape_wf g r S" and n: "n \<in> S" "f \<notin> S" "sh_parent (g n) = Some p"
    and k: "0 < k" "k < length (sh_tokens (g n))" and m: "m \<in> S"
  shows "reads (shape_split n f p k g) m ks \<longleftrightarrow> reads g m ks"
proof -
  define G where "G = shape_split n f p k g"
  have nr: "n \<noteq> r" using n(3) wf by (auto simp: shape_wf_def)
  then have p: "p \<in> S" "n \<in> set (sh_children (g p))" using shape_wf_parentD [OF wf n(1)] n(3) by auto
  have ne: "n \<noteq> p" "f \<noteq> p" "f \<noteq> n" using shape_wf_neq [OF wf p(1,2)] p(1) n by auto
  have "children_ok g S p" using wf p(1) by (simp add: shape_wf_def)
  then have chp: "set (sh_children (G p)) = insert f (set (sh_children (g p)) - {n})"
    using p(2) ne by (simp add: G_def shape_split_def children_ok_def set_replace1)
  have ch: "sh_children (G d) = sh_children (g d)" if "d \<noteq> p" "d \<noteq> f" for d
    using that ne by (simp add: G_def shape_split_def)
  have tok: "sh_tokens (G d) = sh_tokens (g d)" if "d \<noteq> n" "d \<noteq> f" for d
    using that ne by (auto simp: G_def shape_split_def)
  have Gf: "sh_tokens (G f) = take k (sh_tokens (g n))" "sh_children (G f) = [n]"
    and Gn: "sh_tokens (G n) = drop k (sh_tokens (g n))" using ne by (auto simp: G_def shape_split_def)
  have fresh: "d \<noteq> f" "d \<in> S" "d = n \<Longrightarrow> q = p" if "d \<in> set (sh_children (g q))" "q \<in> S" for d q
    using shape_wf_childD [OF wf that(2,1)] n(2,3) by auto
  have kid: "c \<in> set (sh_children (g m)) \<and> c \<noteq> n \<and> c \<noteq> f"
    if "c \<in> set (sh_children (G m))" "m \<in> S" "\<not> (m = p \<and> c = f)" for c m
  proof (cases "m = p")
    case True
    then have "c \<in> set (sh_children (g p))" "c \<noteq> n" using that chp by auto
    then show ?thesis using fresh(1) [of c p] p(1) True by simp
  next
    case False
    moreover have "m \<noteq> f" using that(2) n(2) by auto
    ultimately have c: "c \<in> set (sh_children (g m))" using that(1) ch [of m] by simp
    then show ?thesis using fresh [OF c that(2)] False by blast
  qed
  have kid': "c \<in> set (sh_children (G m)) \<and> c \<noteq> f \<and> c \<in> S" if "c \<in> set (sh_children (g m))" "m \<in> S" "c \<noteq> n" for c m
  proof -
    have "m \<noteq> f" using that(2) n(2) by auto
    then show ?thesis using that fresh(1,2) [OF that(1,2)] chp ch [of m] by (cases "m = p") auto
  qed
  have fwd: "(m \<in> S \<longrightarrow> reads g m ks) \<and> (m = f \<longrightarrow> reads g p (take k (sh_tokens (g n)) @ ks))" if "reads G m ks" for m ks
    using that
  proof (induction rule: reads.induct)
    case (reads_Nil m)
    then show ?case using reads_edge [of n g p k] p(2) by (auto intro: reads.reads_Nil)
  next
    case (reads_edge c m j)
    have "reads g m (take j (sh_tokens (G c)))" if mS: "m \<in> S"
    proof (cases "m = p \<and> c = f")
      case True
      then show ?thesis using reads.reads_edge [of n g p "min j k"] p(2) Gf by (simp add: min.commute)
    next
      case False
      then have "c \<in> set (sh_children (g m))" "c \<noteq> n" "c \<noteq> f"
        using kid [OF reads_edge mS] by auto
      then show ?thesis using reads.reads_edge [of c g m j] tok by simp
    qed
    moreover have "reads g p (take k (sh_tokens (g n)) @ take j (sh_tokens (G c)))" if "m = f"
      using reads_edge that Gf Gn reads.reads_edge [of n g p "k + j"] p(2) by (simp add: take_add_append)
    ultimately show ?case by blast
  next
    case (reads_step c m ks)
    have "reads g m (sh_tokens (G c) @ ks)" if mS: "m \<in> S"
    proof (cases "m = p \<and> c = f")
      case True
      then show ?thesis using reads_step Gf by simp
    next
      case False
      then have "c \<in> set (sh_children (g m))" "c \<noteq> n" "c \<noteq> f"
        using kid [OF reads_step(1) mS] by auto
      then show ?thesis using reads.reads_step [of c g m ks] tok fresh [of c m] mS reads_step by simp
    qed
    moreover have "reads g p (take k (sh_tokens (g n)) @ sh_tokens (G c) @ ks)" if "m = f"
      using reads_step that Gf Gn n(1) reads.reads_step [of n g p ks] p(2) by (simp flip: append_assoc)
    ultimately show ?case by blast
  qed
  have bwd: "m \<in> S \<longrightarrow> reads G m ks" if "reads g m ks" for m ks
    using that
  proof (induction rule: reads.induct)
    case (reads_Nil m)
    then show ?case by (simp add: reads.reads_Nil)
  next
    case (reads_edge c m j)
    show ?case
    proof (rule impI, cases "c = n")
      case True
      assume "m \<in> S"
      then have mp: "m = p" using fresh reads_edge True by blast
      show "reads G m (take j (sh_tokens (g c)))"
      proof (cases "j \<le> k")
        case True
        then show ?thesis using reads.reads_edge [of f G p j] chp Gf mp \<open>c = n\<close> by (simp add: min_def)
      next
        case False
        have "reads G f (take (j - k) (sh_tokens (G n)))" using Gf by (intro reads.reads_edge) simp
        then have "reads G p (sh_tokens (G f) @ take (j - k) (sh_tokens (G n)))" using chp by (intro reads.reads_step) auto
        then show ?thesis using False mp \<open>c = n\<close> by (simp add: Gf Gn take_add_append)
      qed
    next
      case False
      assume "m \<in> S"
      then have "c \<in> set (sh_children (G m))" "c \<noteq> f"
        using kid' [OF reads_edge _ False] by auto
      then show "reads G m (take j (sh_tokens (g c)))" using reads.reads_edge [of c G m j] tok False by simp
    qed
  next
    case (reads_step c m ks)
    show ?case
    proof (rule impI, cases "c = n")
      case True
      assume "m \<in> S"
      then have mp: "m = p" using fresh reads_step True by blast
      have "reads G f (sh_tokens (G n) @ ks)" using reads_step True n(1) Gf by (intro reads.reads_step) auto
      then have "reads G p (sh_tokens (G f) @ sh_tokens (G n) @ ks)"
        using chp reads.reads_step [of f G p "sh_tokens (G n) @ ks"] by simp
      then show "reads G m (sh_tokens (g c) @ ks)" using True mp by (simp add: Gf Gn flip: append_assoc)
    next
      case False
      assume mS: "m \<in> S"
      then have "c \<in> set (sh_children (G m))" "c \<noteq> f" "c \<in> S"
        using kid' [OF reads_step(1) mS False] by auto
      then show "reads G m (sh_tokens (g c) @ ks)" using reads.reads_step [of c G m ks] reads_step tok False by simp
    qed
  qed
  show ?thesis using fwd bwd m unfolding G_def by blast
qed

lemma reads_merge:
  assumes wf: "shape_wf g r S" and n: "n \<in> S" "n \<noteq> r" "sh_children (g n) = [c]" and m: "m \<in> S" "m \<noteq> n" "m \<noteq> c"
  shows "reads (shape_merge n c g) m ks \<longleftrightarrow> reads g m ks"
proof -
  define G where "G = shape_merge n c g"
  have c: "c \<in> S" "sh_parent (g c) = Some n" using shape_wf_childD [OF wf n(1), of c] n(3) by auto
  have nc: "c \<noteq> n" using shape_wf_neq [OF wf n(1), of c] n(3) by auto
  have gc: "d \<in> S \<and> d \<noteq> c \<and> d \<noteq> n" if "d \<in> set (sh_children (g c))" for d
    using shape_wf_childD [OF wf c(1) that] shape_wf_neq [OF wf c(1) that] shape_wf_child_later [OF wf c(1) that]
      shape_wf_child_later [OF wf n(1), of c] n(3) by auto
  have tok: "sh_tokens (G d) = (if d = n then sh_tokens (g n) @ sh_tokens (g c) else sh_tokens (g d))" if "d \<noteq> c" for d
    using that by (simp add: G_def shape_merge_def)
  have ch: "sh_children (G d) = (if d = n then sh_children (g c) else sh_children (g d))" if "d \<noteq> c" for d
    using that by (simp add: G_def shape_merge_def)
  have nin: "d \<in> S \<and> d \<noteq> c" if "d \<in> set (sh_children (g q))" "q \<in> S" "q \<noteq> n" for d q
    using shape_wf_childD [OF wf that(2,1)] c(2) that(3) by auto
  have edge_n: "reads g q (take j (sh_tokens (g n) @ sh_tokens (g c)))" if "n \<in> set (sh_children (g q))" for q j
  proof (cases "j \<le> length (sh_tokens (g n))")
    case True
    then show ?thesis using reads_edge [of n g q j] that by simp
  next
    case False
    have "reads g n (take (j - length (sh_tokens (g n))) (sh_tokens (g c)))" using n(3) by (intro reads_edge) simp
    from reads_step [of n g q, OF that this] show ?thesis using False by simp
  qed
  have fwd: "(m \<in> S - {n, c} \<longrightarrow> reads g m ks) \<and> (m = n \<longrightarrow> reads g c ks)" if "reads G m ks" for m ks
    using that
  proof (induction rule: reads.induct)
    case (reads_edge d m j)
    then show ?case
      using nin [of d m] edge_n [of m j] reads.reads_edge [of d g m j] reads.reads_edge [of d g c j] nc gc [of d]
      by (auto simp: ch tok)
  next
    case (reads_step d m ks)
    have "reads g m (sh_tokens (G d) @ ks)" if mS: "m \<in> S - {n, c}"
    proof -
      have d: "d \<in> set (sh_children (g m))" "d \<in> S" "d \<noteq> c" using reads_step mS nin [of d m] by (auto simp: ch)
      show ?thesis
      proof (cases "d = n")
        case True
        then have "reads g n (sh_tokens (g c) @ ks)" using reads_step n(3) by (intro reads.reads_step) auto
        from reads.reads_step [of n g m, OF d(1) [unfolded True] this] show ?thesis using True nc by (simp add: tok)
      next
        case False
        then show ?thesis using reads_step d reads.reads_step [of d g m ks] by (simp add: tok)
      qed
    qed
    moreover have "reads g c (sh_tokens (G d) @ ks)" if mn: "m = n"
    proof -
      have d: "d \<in> set (sh_children (g c))" using reads_step mn nc by (simp add: ch)
      then show ?thesis using gc [OF d] reads_step reads.reads_step [of d g c ks] d by (simp add: tok)
    qed
    ultimately show ?case by blast
  qed (auto intro: reads.reads_Nil)
  have bwd: "(m \<in> S - {n, c} \<longrightarrow> reads G m ks) \<and> (m = c \<longrightarrow> reads G n ks) \<and>
      (m = n \<longrightarrow> (\<forall>q \<in> S. n \<in> set (sh_children (g q)) \<longrightarrow> reads G q (sh_tokens (g n) @ ks)))" if "reads g m ks" for m ks
    using that
  proof (induction rule: reads.induct)
    case (reads_Nil m)
    have "reads G q (sh_tokens (g n) @ [])" if "q \<in> S" "n \<in> set (sh_children (g q))" for q
    proof -
      have "q \<noteq> c" "q \<noteq> n" using that gc n(3) nc by auto
      then show ?thesis using that nc reads.reads_edge [of n G q "length (sh_tokens (g n))"] by (simp add: ch tok)
    qed
    then show ?case by (auto intro: reads.reads_Nil)
  next
    case (reads_edge d m j)
    have "reads G m (take j (sh_tokens (g d)))" if mS: "m \<in> S - {n, c}"
    proof (cases "d = n")
      case True
      then show ?thesis
        using reads_edge mS nc reads.reads_edge [of n G m "min j (length (sh_tokens (g n)))"]
        by (auto simp: ch tok min_def split: if_splits)
    next
      case False
      then show ?thesis using reads_edge mS nin [of d m] reads.reads_edge [of d G m j] by (simp add: ch tok)
    qed
    moreover have "reads G n (take j (sh_tokens (g d)))" if "m = c"
      using reads_edge that gc [of d] reads.reads_edge [of d G n j] nc by (simp add: ch tok)
    moreover have "reads G q (sh_tokens (g n) @ take j (sh_tokens (g d)))" if "m = n" "q \<in> S" "n \<in> set (sh_children (g q))" for q
    proof -
      have "q \<noteq> c" "q \<noteq> n" "d = c" using that gc n(3) nc reads_edge by auto
      then show ?thesis
        using that nc reads.reads_edge [of n G q "length (sh_tokens (g n)) + j"] by (simp add: ch tok)
    qed
    ultimately show ?case by blast
  next
    case (reads_step d m ks)
    have "reads G m (sh_tokens (g d) @ ks)" if mS: "m \<in> S - {n, c}"
    proof (cases "d = n")
      case True
      then show ?thesis using reads_step mS by auto
    next
      case False
      then show ?thesis using reads_step mS nin [of d m] reads.reads_step [of d G m ks] by (simp add: ch tok)
    qed
    moreover have "reads G n (sh_tokens (g d) @ ks)" if "m = c"
      using reads_step that gc [of d] reads.reads_step [of d G n ks] nc by (simp add: ch tok)
    moreover have "reads G q (sh_tokens (g n) @ sh_tokens (g d) @ ks)" if "m = n" "q \<in> S" "n \<in> set (sh_children (g q))" for q
    proof -
      have "q \<noteq> c" "q \<noteq> n" "d = c" using that gc n(3) nc reads_step by auto
      then show ?thesis
        using that nc reads_step reads.reads_step [of n G q ks] by (simp add: ch tok)
    qed
    ultimately show ?case by blast
  qed
  show ?thesis using fwd [of m ks] bwd [of m ks] m unfolding G_def by blast
qed

end
