(* ===== verification/CacheTrieWalk.thy ===== *)
theory CacheTrieWalk
  imports CacheTrieMatch
begin

text \<open>
  \<open>walkNodes\<close> returns on a well-formed trie and visits exactly its nodes; appending a leaf adds its edge to what
  the trie stores; where the best match of some keys ends.
\<close>

section \<open>The walk\<close>

definition below :: "(nat \<Rightarrow> shape) \<Rightarrow> nat \<Rightarrow> nat set" where
  "below g n = {last (n # cs) | cs. chain g n cs}"

lemma below_unfold: "below g n = insert n (\<Union>c \<in> set (sh_children (g n)). below g c)"
proof
  show "below g n \<subseteq> insert n (\<Union>c \<in> set (sh_children (g n)). below g c)"
  proof
    fix m assume "m \<in> below g n"
    then obtain cs where "chain g n cs" "m = last (n # cs)" by (auto simp: below_def)
    then show "m \<in> insert n (\<Union>c \<in> set (sh_children (g n)). below g c)"
      by (cases cs) (auto simp: below_def)
  qed
  have "n \<in> below g n" by (auto simp: below_def intro: exI [of _ "[]"])
  moreover have "below g c \<subseteq> below g n" if "c \<in> set (sh_children (g n))" for c
  proof
    fix m assume "m \<in> below g c"
    then obtain cs where "chain g c cs" "m = last (c # cs)" by (auto simp: below_def)
    then show "m \<in> below g n" using that unfolding below_def by (intro CollectI exI [of _ "c # cs"]) auto
  qed
  ultimately show "insert n (\<Union>c \<in> set (sh_children (g n)). below g c) \<subseteq> below g n" by blast
qed

text \<open>The numbers of nodes that end earlier and later: measures for going up and down the trie.\<close>

definition earlier :: "(nat \<Rightarrow> shape) \<Rightarrow> nat set \<Rightarrow> nat \<Rightarrow> nat" where
  "earlier g S n = card {q \<in> S. sh_end (g q) < sh_end (g n)}"

definition later :: "(nat \<Rightarrow> shape) \<Rightarrow> nat set \<Rightarrow> nat \<Rightarrow> nat" where
  "later g S n = card {q \<in> S. sh_end (g n) < sh_end (g q)}"

lemma child_measures:
  assumes "shape_wf g r S" "n \<in> S" "c \<in> set (sh_children (g n))"
  shows "earlier g S n < earlier g S c" "later g S c < later g S n"
proof -
  have c: "c \<in> S" "sh_end (g n) < sh_end (g c)" "finite S"
    using shape_wf_childD [OF assms] shape_wf_child_later [OF assms] assms(1) by (auto simp: shape_wf_def)
  then have "{q \<in> S. sh_end (g q) < sh_end (g n)} \<subset> {q \<in> S. sh_end (g q) < sh_end (g c)}"
    "{q \<in> S. sh_end (g c) < sh_end (g q)} \<subset> {q \<in> S. sh_end (g n) < sh_end (g q)}"
    using assms(2) by force+
  then show "earlier g S n < earlier g S c" "later g S c < later g S n"
    using c(3) by (auto simp: earlier_def later_def intro: psubset_card_mono)
qed

lemma below_root:
  assumes wf: "shape_wf g r S"
  shows "below g r = S"
proof
  have r: "r \<in> S" using wf by (simp add: shape_wf_def)
  show "below g r \<subseteq> S"
  proof
    fix m assume "m \<in> below g r"
    then obtain cs where "chain g r cs" "m = last (r # cs)" by (auto simp: below_def)
    then show "m \<in> S" using chain_in [OF wf r, of cs] r by (cases cs rule: rev_cases) auto
  qed
  show "S \<subseteq> below g r"
  proof
    fix m assume "m \<in> S"
    then show "m \<in> below g r"
    proof (induction "earlier g S m" arbitrary: m rule: less_induct)
      case less
      show ?case
      proof (cases "m = r")
        case True
        then show ?thesis by (subst below_unfold) simp
      next
        case False
        from shape_wf_parentD [OF wf less.prems False] obtain p where p: "p \<in> S" "m \<in> set (sh_children (g p))" by blast
        then have "p \<in> below g r" using less.hyps child_measures [OF wf p] by simp
        then obtain cs where "chain g r cs" "p = last (r # cs)" by (auto simp: below_def)
        then show ?thesis using p(2) unfolding below_def
          by (intro CollectI exI [of _ "cs @ [m]"]) (auto simp: chain_append)
      qed
    qed
  qed
qed

lemma walk_stack_Nil [simp]: "walk_stack h [] = Some []"
  by (subst walk_stack.simps) simp

lemma walk_stack_Cons:
  "walk_stack h (n # rest) =
     Option.bind (walk_stack h (tn_children (st_node h n) @ rest)) (\<lambda>ns. Some (n # ns))"
  by (subst walk_stack.simps) simp

lemma walk_node:
  assumes wf: "shape_wf (shape_of h) r S"
  shows "n \<in> S \<Longrightarrow> \<exists>ns. set ns = below (shape_of h) n \<and>
    (\<forall>rest ms. walk_stack h rest = Some ms \<longrightarrow> walk_stack h (n # rest) = Some (ns @ ms))"
proof (induction "later (shape_of h) S n" arbitrary: n rule: less_induct)
  case less
  let ?g = "shape_of h"
  have kids: "\<exists>ns. set ns = (\<Union>c \<in> set cs. below ?g c) \<and>
      (\<forall>rest ms. walk_stack h rest = Some ms \<longrightarrow> walk_stack h (cs @ rest) = Some (ns @ ms))"
    if "set cs \<subseteq> set (sh_children (?g n))" for cs
    using that
  proof (induction cs)
    case Nil
    then show ?case by (intro exI [of _ "[]"]) simp
  next
    case (Cons c cs)
    then obtain ns where ns: "set ns = (\<Union>c \<in> set cs. below ?g c)"
      "\<And>rest ms. walk_stack h rest = Some ms \<Longrightarrow> walk_stack h (cs @ rest) = Some (ns @ ms)" by auto
    have c: "c \<in> set (sh_children (?g n))" using Cons.prems by simp
    obtain ms where "set ms = below ?g c" "\<And>rest ks. walk_stack h rest = Some ks \<Longrightarrow> walk_stack h (c # rest) = Some (ms @ ks)"
      using less.hyps [of c] child_measures [OF wf less.prems c] shape_wf_childD [OF wf less.prems c] by blast
    with ns show ?case by (intro exI [of _ "ms @ ns"]) auto
  qed
  from kids [OF order_refl] obtain ns where
    "set ns = (\<Union>c \<in> set (sh_children (?g n)). below ?g c)"
    "\<And>rest ms. walk_stack h rest = Some ms \<Longrightarrow> walk_stack h (sh_children (?g n) @ rest) = Some (ns @ ms)" by blast
  then show ?case
    by (intro exI [of _ "n # ns"]) (auto simp: below_unfold [of ?g n] walk_stack_Cons shape_of_sel)
qed

lemma walkNodes_all:
  assumes "trie_wf h r S"
  shows "\<exists>ns. walkNodes h (Some r) = Some ns \<and> set ns = S"
proof -
  have wf: "shape_wf (shape_of h) r S" using assms by (simp add: trie_wf_def)
  then have "r \<in> S" by (simp add: shape_wf_def)
  from walk_node [OF wf this] obtain ns where ns: "set ns = below (shape_of h) r"
    "\<And>rest ms. walk_stack h rest = Some ms \<Longrightarrow> walk_stack h (r # rest) = Some (ns @ ms)" by blast
  from ns(2) [of "[]" "[]"] ns(1) below_root [OF wf] show ?thesis by (auto simp: walkNodes_def)
qed

section \<open>Where a match ends\<close>

text \<open>The node the match ends in, the keys that are left, and what can still be said of its children.\<close>

lemma match_below_end:
  assumes wf: "shape_wf (shape_of h) r S" and n: "n \<in> S" and m: "match_below h n toks = (path, m)"
  defines "l \<equiv> last (n # path)" and "g \<equiv> shape_of h"
  shows "l \<in> S \<and> m \<le> length toks \<and> sh_end (g n) + int m \<le> sh_end (g l) \<and>
    (path \<noteq> [] \<longrightarrow> sh_end (g l) - int (length (sh_tokens (g l))) < sh_end (g n) + int m) \<and>
    (m < length toks \<longrightarrow>
      (if sh_end (g n) + int m = sh_end (g l) then \<forall>d \<in> set (sh_children (g l)). hd (sh_tokens (g d)) \<noteq> hd (drop m toks)
       else hd (drop (nat (sh_end (g n) + int m - (sh_end (g l) - int (length (sh_tokens (g l)))))) (sh_tokens (g l))) \<noteq> hd (drop m toks)))"
  using n m unfolding l_def g_def
proof (induction "length toks" arbitrary: n toks path m rule: less_induct)
  case less
  let ?g = "shape_of h"
  have ok: "children_ok ?g S n" using wf less.prems(1) by (simp add: shape_wf_def)
  from less.prems(2) show ?case
  proof (cases rule: match_below_cases)
    case stop
    have "hd (sh_tokens (?g d)) \<noteq> hd toks" if "toks \<noteq> []" "d \<in> set (sh_children (?g n))" for d
      using stop(3) that best_child_unique [OF ok that(2)] shape_wf_childD [OF wf less.prems(1) that(2)] by auto
    then show ?thesis using stop less.prems(1) by auto
  next
    case (part c)
    have c: "c \<in> S" "sh_end (?g c) = sh_end (?g n) + int (length (sh_tokens (?g c)))"
      using shape_wf_childD [OF wf less.prems(1) part(4)] by auto
    have "m \<le> length toks" using part(5) common_len_le [of "sh_tokens (?g c)" toks] by simp
    moreover have "hd (drop m (sh_tokens (?g c))) \<noteq> hd (drop m toks)" if "m < length toks"
      using common_len_stop [of "sh_tokens (?g c)" toks] part(5,6) that by simp
    ultimately show ?thesis using part c by auto
  next
    case (full c p q)
    let ?e = "sh_tokens (?g c)"
    have c: "c \<in> S" "sh_end (?g c) = sh_end (?g n) + int (length ?e)"
      using shape_wf_childD [OF wf less.prems(1) full(5)] by auto
    have len: "length toks = length ?e + length (drop (length ?e) toks)" by (subst full(6)) simp
    have "length (drop (length ?e) toks) < length toks" using full(1,7) by (cases ?e) auto
    note IH = less.hyps [OF this c(1) full(8)]
    have l: "last (n # path) = last (c # p)" using full(3) by simp
    have e: "sh_end (?g n) + int m = sh_end (?g c) + int q" using full(4) c(2) by simp
    have d: "drop m toks = drop q (drop (length ?e) toks)" using full(4) by (simp add: add.commute)
    have lt: "m < length toks \<longleftrightarrow> q < length (drop (length ?e) toks)" "m \<le> length toks \<longleftrightarrow> q \<le> length (drop (length ?e) toks)"
      using full(4) len unfolding length_drop by linarith+
    have "0 < length ?e" using full(7) by simp
    then have "p = [] \<Longrightarrow> sh_end (?g c) - int (length ?e) < sh_end (?g c) + int q" by linarith
    then have "sh_end (?g (last (c # p))) - int (length (sh_tokens (?g (last (c # p))))) < sh_end (?g c) + int q"
      using IH by (cases "p = []") auto
    then show ?thesis unfolding l e d lt using IH by blast
  qed
qed

end
