(* ===== verification/PrefixCacheInv.thy ===== *)
theory PrefixCacheInv
  imports PrefixCache CacheTrieWalk
begin

text \<open>
  The invariant of the prefix cache, \<open>pc_inv\<close>: there is a root, the nodes below it form a compressed trie, the
  counter of paged-out bytes is what their snapshots hold, and the active path is a path down from the root.
  Every operation of \<open>prefix_cache.go\<close> keeps it and returns.
\<close>

section \<open>Paths\<close>

lemma chain_mono:
  "chain g n cs \<Longrightarrow> (\<And>d c. d \<in> set (n # cs) \<Longrightarrow> c \<in> set cs \<Longrightarrow> c \<in> set (sh_children (g d)) \<Longrightarrow> c \<in> set (sh_children (g' d))) \<Longrightarrow>
   chain g' n cs"
proof (induction cs arbitrary: n)
  case (Cons c cs)
  have "chain g' c cs" using Cons.prems by (intro Cons.IH) auto
  then show ?case using Cons.prems by simp
qed simp

lemma chain_next:
  "chain g n cs \<Longrightarrow> d \<in> set (n # cs) \<Longrightarrow> d \<noteq> last (n # cs) \<Longrightarrow> \<exists>c \<in> set cs. c \<in> set (sh_children (g d))"
proof (induction cs arbitrary: n)
  case (Cons c cs)
  then show ?case by (cases "d = n") auto
qed simp

lemma chain_prev:
  "chain g n cs \<Longrightarrow> c \<in> set cs \<Longrightarrow> \<exists>xs d ys. n # cs = xs @ d # c # ys \<and> c \<in> set (sh_children (g d))"
proof (induction cs arbitrary: n)
  case (Cons e cs)
  show ?case
  proof (cases "c = e")
    case True
    with Cons.prems have "n # e # cs = [] @ n # c # cs \<and> c \<in> set (sh_children (g n))" by simp
    then show ?thesis by blast
  next
    case False
    with Cons.prems have "chain g e cs" "c \<in> set cs" by auto
    from Cons.IH [OF this] obtain xs d ys where "e # cs = xs @ d # c # ys" "c \<in> set (sh_children (g d))" by blast
    then have "n # e # cs = (n # xs) @ d # c # ys \<and> c \<in> set (sh_children (g d))" by simp
    then show ?thesis by blast
  qed
qed simp

lemma chain_later:
  "shape_wf g r S \<Longrightarrow> n \<in> S \<Longrightarrow> chain g n cs \<Longrightarrow> d \<in> set cs \<Longrightarrow> sh_end (g n) < sh_end (g d)"
proof (induction cs arbitrary: n)
  case (Cons c cs)
  have c: "c \<in> set (sh_children (g n))" "chain g c cs" using Cons.prems(3) by auto
  have "c \<in> S" using shape_wf_childD [OF Cons.prems(1,2) c(1)] by blast
  note IH = Cons.IH [OF Cons.prems(1) this c(2)]
  have "sh_end (g n) < sh_end (g c)" using shape_wf_child_later [OF Cons.prems(1,2) c(1)] .
  then show ?case using IH Cons.prems(4) by fastforce
qed simp

lemma chain_distinct: "shape_wf g r S \<Longrightarrow> n \<in> S \<Longrightarrow> chain g n cs \<Longrightarrow> distinct (n # cs)"
proof (induction cs arbitrary: n)
  case (Cons c cs)
  have c: "c \<in> S" using shape_wf_childD [OF Cons.prems(1,2), of c] Cons.prems(3) by auto
  have "n \<notin> set (c # cs)" using chain_later [OF Cons.prems] by blast
  moreover have "distinct (c # cs)" using Cons c by auto
  ultimately show ?case by simp
qed simp

lemma chain_remove:
  assumes "chain g r cs" "n \<notin> set (r # cs)"
  shows "chain (shape_remove n p g) r cs"
proof -
  have "c \<in> set (remove1 n xs) \<longleftrightarrow> c \<in> set xs" if "c \<in> set cs" for c xs
    using that assms(2) by (intro in_set_remove1) auto
  then show ?thesis using assms by (elim chain_mono) (auto simp: shape_remove_def)
qed

lemma chain_extend:
  assumes "chain g r cs" "l = last (r # cs)" "c \<notin> set (r # cs)"
  shows "chain (shape_append l c toks e g) r (cs @ [c])"
proof -
  have "l \<in> set (r # cs)" unfolding assms(2) by (rule last_in_set) simp
  then have "l \<noteq> c" using assms(3) by blast
  moreover have "chain (shape_append l c toks e g) r cs"
    using assms(1,3) by (elim chain_mono) (auto simp: shape_append_def)
  ultimately show ?thesis using assms(2) by (simp add: chain_append shape_append_def)
qed

lemma chain_split:
  assumes wf: "shape_wf g r S" and ch: "chain g r (xs @ [n])" and p: "sh_parent (g n) = Some p" and f: "f \<notin> S" "p \<noteq> n"
  shows "chain (shape_split n f p k g) r (xs @ [f])"
proof -
  have r: "r \<in> S" using wf by (simp add: shape_wf_def)
  have S: "set (xs @ [n]) \<subseteq> S" using chain_in [OF wf r ch] .
  have n: "n \<notin> set xs" using chain_distinct [OF wf r ch] by simp
  have l: "n \<in> set (sh_children (g (last (r # xs))))" "chain g r xs" using ch by (auto simp: chain_append)
  have "last (r # xs) \<in> S" using S r last_in_set [of "r # xs"] by (auto split: if_splits)
  then have lp: "last (r # xs) = p" using shape_wf_childD [OF wf _ l(1)] p by simp
  have pS: "p \<in> S" "p \<noteq> f" using lp \<open>last (r # xs) \<in> S\<close> f by auto
  have dis: "distinct (sh_children (g p))" using wf pS(1) by (simp add: shape_wf_def children_ok_def)
  have set: "set (replace1 n f (sh_children (g p))) = insert f (set (sh_children (g p)) - {n})"
    using l(1) unfolding lp by (rule set_replace1 [OF dis])
  have "chain (shape_split n f p k g) r xs"
    using l(2)
  proof (rule chain_mono)
    fix d c assume d: "d \<in> set (r # xs)" "c \<in> set xs" "c \<in> set (sh_children (g d))"
    have "d \<noteq> f" "c \<noteq> n" using d S r f(1) n by auto
    then show "c \<in> set (sh_children (shape_split n f p k g d))"
      using d(3) set f(2) by (auto simp: shape_split_def)
  qed
  then show ?thesis using lp set by (simp add: chain_append shape_split_def)
qed

text \<open>Merging a node with its only child takes the child from the path, if it is on it; the keys along the path stay.\<close>

definition spells :: "(nat \<Rightarrow> shape) \<Rightarrow> nat list \<Rightarrow> trieKey list" where
  "spells g cs = concat (map (\<lambda>d. sh_tokens (g d)) cs)"

lemma spells_simps [simp]: "spells g [] = []" "spells g (x # xs) = sh_tokens (g x) @ spells g xs"
    "spells g (xs @ ys) = spells g xs @ spells g ys"
  by (simp_all add: spells_def)

lemma spells_cong: "(\<And>d. d \<in> set cs \<Longrightarrow> sh_tokens (g d) = sh_tokens (g' d)) \<Longrightarrow> spells g cs = spells g' cs"
  by (induction cs) auto

lemma chain_merge:
  assumes wf: "shape_wf g r S" and n: "n \<in> S" "n \<noteq> r" "sh_children (g n) = [c]"
    and ch: "chain g r cs" "n \<noteq> last (r # cs)"
  shows "\<exists>cs'. remove1 c (r # cs) = r # cs' \<and> chain (shape_merge n c g) r cs' \<and>
    spells (shape_merge n c g) (r # cs') = spells g (r # cs)"
proof -
  define G where "G = shape_merge n c g"
  have r: "r \<in> S" using wf by (simp add: shape_wf_def)
  have c: "c \<in> S" "c \<noteq> r" "sh_parent (g c) = Some n" using shape_wf_childD [OF wf n(1), of c] n(3) by auto
  have nc: "c \<noteq> n" using shape_wf_neq [OF wf n(1), of c] n(3) by simp
  have oth: "sh_children (G d) = sh_children (g d)" if "d \<noteq> n" "d \<noteq> c" for d
    using that by (simp add: G_def shape_merge_def)
  have Gn: "sh_children (G n) = sh_children (g c)" using nc by (simp add: G_def shape_merge_def)
  have tok: "sh_tokens (G d) = sh_tokens (g d)" if "d \<noteq> n" for d
    using that by (simp add: G_def shape_merge_def)
  have tokn: "sh_tokens (G n) = sh_tokens (g n) @ sh_tokens (g c)" using nc by (simp add: G_def shape_merge_def)
  have dis: "distinct (r # cs)" by (rule chain_distinct [OF wf r ch(1)])
  show ?thesis
  proof (cases "c \<in> set cs")
    case False
    then have n': "n \<notin> set (r # cs)" using chain_next [OF ch(1) _ ch(2)] n(3) by auto
    have "chain G r cs"
      using n' False c(2) by (intro chain_mono [OF ch(1)]) (metis oth set_ConsD)
    moreover have "spells G (r # cs) = spells g (r # cs)"
      using n' by (intro spells_cong tok) auto
    ultimately show ?thesis using False c(2) by (simp add: G_def remove1_idem)
  next
    case True
    from chain_prev [OF ch(1) this] obtain xs d ys where x: "r # cs = xs @ d # c # ys" "c \<in> set (sh_children (g d))"
      by blast
    have "set cs \<subseteq> S" by (rule chain_in [OF wf r ch(1)])
    then have "set (r # cs) \<subseteq> S" using r by simp
    then have "d \<in> S" using x(1) by simp
    then have "d = n" using shape_wf_childD [OF wf _ x(2)] c(3) by simp
    then obtain xs' where x': "xs = r # xs'" "cs = xs' @ n # c # ys" using x(1) n(2) by (cases xs) auto
    have nin: "n \<notin> set xs'" "n \<notin> set ys" "c \<notin> set xs'" "c \<notin> set ys" using dis x' by auto
    have ch': "chain g r (xs' @ [n])" "chain g c ys"
      using ch(1) unfolding x'(2) by (auto simp: chain_append)
    have "chain G r (xs' @ [n])"
    proof (rule chain_mono [OF ch'(1)])
      fix d e assume d: "d \<in> set (r # xs' @ [n])" "e \<in> set (xs' @ [n])" "e \<in> set (sh_children (g d))"
      have "e \<noteq> c" "d \<noteq> c" using d nin(3) nc c(2) by auto
      moreover from this have "d \<noteq> n" using d(3) n(3) by auto
      ultimately show "e \<in> set (sh_children (G d))" using d(3) by (simp add: oth)
    qed
    moreover have "chain G n ys"
    proof (cases ys)
      case (Cons y ys')
      then have "chain g y ys'" using ch'(2) by simp
      then have "chain G y ys'" by (rule chain_mono) (metis Cons nin(2,4) oth)
      then show ?thesis using ch'(2) Cons Gn by simp
    qed simp
    ultimately have "chain G r (xs' @ n # ys)" by (simp add: chain_append)
    moreover have "remove1 c (r # cs) = r # xs' @ n # ys"
      using c(2) nc nin(3) by (simp add: x'(2) remove1_append)
    moreover have "spells G (r # xs' @ n # ys) = spells g (r # cs)"
    proof -
      have "spells G xs' = spells g xs'" "spells G ys = spells g ys"
        by (rule spells_cong, metis nin(1) tok) (rule spells_cong, metis nin(2) tok)
      then show ?thesis using n(2) by (simp add: x'(2) tokn tok)
    qed
    ultimately show ?thesis unfolding G_def by blast
  qed
qed

section \<open>The invariant\<close>

text \<open>\<open>X\<close> is what else is to hold of the trie: nothing, or that its snapshots are what they should be.\<close>

type_synonym 'd slots = "'d store \<Rightarrow> nat \<Rightarrow> nat set \<Rightarrow> bool"

definition pc_inv :: "'d slots \<Rightarrow> ('c, 'd) prefixCache \<Rightarrow> nat set \<Rightarrow> bool" where
  "pc_inv X c S \<longleftrightarrow> (\<exists>r cs. pc_root c = Some r \<and> pc_activePath c = r # cs \<and> trie_wf (pc_store c) r S \<and>
     balanced (length (pc_caches c)) (pc_store c) S \<and> chain (shape_of (pc_store c)) r cs \<and>
     X (pc_store c) r S)"

lemma pc_invE:
  assumes "pc_inv X c S"
  obtains r cs where "pc_root c = Some r" "pc_activePath c = r # cs" "trie_wf (pc_store c) r S"
    "shape_wf (shape_of (pc_store c)) r S" "finite S" "r \<in> S" "set cs \<subseteq> S"
    "balanced (length (pc_caches c)) (pc_store c) S" "chain (shape_of (pc_store c)) r cs" "distinct (r # cs)"
    "last (r # cs) \<in> S" "st_next (pc_store c) \<notin> S" "X (pc_store c) r S"
proof -
  from assms obtain r cs where c: "pc_root c = Some r" "pc_activePath c = r # cs" "trie_wf (pc_store c) r S"
    "balanced (length (pc_caches c)) (pc_store c) S" "chain (shape_of (pc_store c)) r cs" "X (pc_store c) r S" by (auto simp: pc_inv_def)
  then have wf: "shape_wf (shape_of (pc_store c)) r S" "finite S" "r \<in> S" "st_next (pc_store c) \<notin> S"
    by (auto simp: trie_wf_def shape_wf_def)
  have "set cs \<subseteq> S" by (rule chain_in [OF wf(1,3) c(5)])
  moreover have "distinct (r # cs)" by (rule chain_distinct [OF wf(1,3) c(5)])
  moreover from calculation(1) have "last (r # cs) \<in> S" using wf(3) last_in_set [of "r # cs"] by (auto split: if_splits)
  ultimately show thesis using that c wf by blast
qed

lemma pc_invI:
  "pc_root c = Some r \<Longrightarrow> pc_activePath c = r # cs \<Longrightarrow> trie_wf (pc_store c) r S \<Longrightarrow>
   balanced (length (pc_caches c)) (pc_store c) S \<Longrightarrow> chain (shape_of (pc_store c)) r cs \<Longrightarrow> X (pc_store c) r S \<Longrightarrow> pc_inv X c S"
  by (auto simp: pc_inv_def)

lemma pc_inv_slots: "pc_inv X c S \<Longrightarrow> n \<in> S \<Longrightarrow> length (tn_snapshots (st_node (pc_store c) n)) \<in> {0, length (pc_caches c)}"
  by (elim pc_invE) (auto simp: balanced_def)

lemma the_layers_length [simp]: "length (the_layers ops caches) = length caches"
  by (simp add: the_layers_def)

text \<open>Changes that leave the shapes as they are.\<close>

lemma pc_inv_store:
  assumes "pc_inv X c S" "shape_of h = shape_of (pc_store c)" "st_next h = st_next (pc_store c)"
    and "balanced (length (pc_caches c)) h S" "\<And>r. pc_root c = Some r \<Longrightarrow> X (pc_store c) r S \<Longrightarrow> X h r S"
  shows "pc_inv X (c\<lparr>pc_store := h\<rparr>) S"
  using assms by (auto simp: pc_inv_def trie_wf_def)

lemma pc_inv_caches: "pc_inv X c S \<Longrightarrow> length cs = length (pc_caches c) \<Longrightarrow> pc_inv X (c\<lparr>pc_caches := cs\<rparr>) S"
  by (auto simp: pc_inv_def)

lemma pc_inv_tick: "pc_inv X (c\<lparr>pc_tick := t\<rparr>) S \<longleftrightarrow> pc_inv X c S"
  by (auto simp: pc_inv_def)

lemma pc_inv_swap:
  assumes "pc_inv X c S" "n \<in> S" "length ss \<in> {0, length (pc_caches c)}"
    and "\<And>r. pc_root c = Some r \<Longrightarrow> X (pc_store c) r S \<Longrightarrow> X (snd (swapSnapshots n ss True (pc_store c))) r S"
  shows "pc_inv X (c\<lparr>pc_store := snd (swapSnapshots n ss True (pc_store c))\<rparr>) S"
  using assms by (intro pc_inv_store) (auto elim!: pc_invE intro: balanced_swap)

text \<open>The trie operations keep \<open>X\<close>; it depends on the shapes and on the data of the snapshots.\<close>

locale kept_slots =
  fixes ops :: "('c, 'd) cache_ops" and X :: "'d slots"
  assumes X_root: "tn_children (st_node h r) = [] \<Longrightarrow> tn_snapshots (st_node h r) = [] \<Longrightarrow> X h r {r}"
    and X_same: "X h r S \<Longrightarrow> shape_of h' = shape_of h \<Longrightarrow>
      (\<And>m. map (map_option ss_data) (tn_snapshots (st_node h' m)) = map (map_option ss_data) (tn_snapshots (st_node h m))) \<Longrightarrow>
      X h' r S"
    and X_append: "trie_wf h r S \<Longrightarrow> X h r S \<Longrightarrow> n \<in> S \<Longrightarrow> appendChild n toks e h = (d, h') \<Longrightarrow> trie_wf h' r (insert d S) \<Longrightarrow>
      X h' r (insert d S)"
    and X_remove: "trie_wf h r S \<Longrightarrow> X h r S \<Longrightarrow> n \<in> S \<Longrightarrow> n \<noteq> r \<Longrightarrow> removeNode n h = Some h' \<Longrightarrow> X h' r (S - {n})"
    and X_split: "trie_wf h r S \<Longrightarrow> X h r S \<Longrightarrow> n \<in> S \<Longrightarrow> n \<noteq> r \<Longrightarrow>
      length (tn_snapshots (st_node h n)) \<in> {0, length caches} \<Longrightarrow>
      splitNode n at (the_layers ops caches) h = Some (f, h') \<Longrightarrow> X h' r (insert f S)"
    and X_merge: "trie_wf h r S \<Longrightarrow> X h r S \<Longrightarrow> n \<in> S \<Longrightarrow> n \<noteq> r \<Longrightarrow> sh_children (shape_of h n) = [d] \<Longrightarrow>
      (\<And>m. m \<in> S \<Longrightarrow> length (tn_snapshots (st_node h m)) \<in> {0, length caches}) \<Longrightarrow>
      mergeWithChild n (the_layers ops caches) h = Some h' \<Longrightarrow> X h' r (S - {d})"

text \<open>Nothing more.\<close>

definition no_slots :: "'d slots" where
  "no_slots h r S = True"

interpretation no_slots: kept_slots ops no_slots for ops :: "('c, 'd) cache_ops"
  by unfold_locales (simp_all add: no_slots_def)

context kept_slots
begin

lemma pc_inv_node:
  assumes "pc_inv X c S" "tn_snapshots x = tn_snapshots (st_node (pc_store c) n)" "tn_tokens x = tn_tokens (st_node (pc_store c) n)"
    "tn_endOffset x = tn_endOffset (st_node (pc_store c) n)" "tn_parent x = tn_parent (st_node (pc_store c) n)"
    "tn_children x = tn_children (st_node (pc_store c) n)"
  shows "pc_inv X (c\<lparr>pc_store := set_node n x (pc_store c)\<rparr>) S"
proof (rule pc_inv_store [OF assms(1)])
  show sh: "shape_of (set_node n x (pc_store c)) = shape_of (pc_store c)"
    using assms(3-6) by (simp add: shape_of_set_node) (auto simp: shape_of_def)
  show "balanced (length (pc_caches c)) (set_node n x (pc_store c)) S"
    using assms(1,2) by (auto elim!: pc_invE intro: balanced_node)
  show "X (set_node n x (pc_store c)) r S" if "X (pc_store c) r S" for r
    using that sh by (rule X_same) (simp add: snapshots_set_node assms(2))
qed simp

lemma pc_inv_touch: "pc_inv X c S \<Longrightarrow> pc_inv X (touch clock n c) S"
  using pc_inv_node [of c S "(st_node (pc_store c) n)\<lparr>tn_lastUsed := clock (pc_tick c)\<rparr>" n]
    pc_inv_tick [where c = "c\<lparr>pc_store := set_node n ((st_node (pc_store c) n)\<lparr>tn_lastUsed := clock (pc_tick c)\<rparr>) (pc_store c)\<rparr>"]
  by (simp add: touch_def)

end

text \<open>The keys along the active path.\<close>

definition path_keys :: "('c, 'd) prefixCache \<Rightarrow> trieKey list" where
  "path_keys c = spells (shape_of (pc_store c)) (pc_activePath c)"

lemma chain_end:
  "shape_wf g r S \<Longrightarrow> n \<in> S \<Longrightarrow> chain g n cs \<Longrightarrow> sh_end (g (last (n # cs))) = sh_end (g n) + int (length (spells g cs))"
proof (induction cs arbitrary: n)
  case (Cons c cs)
  have "c \<in> S" "sh_end (g c) = sh_end (g n) + int (length (sh_tokens (g c)))"
    using shape_wf_childD [OF Cons.prems(1,2), of c] Cons.prems(3) by auto
  with Cons show ?case by simp
qed simp

lemma path_keys_end:
  assumes "pc_inv X c S"
  shows "tn_endOffset (st_node (pc_store c) (last (pc_activePath c))) = int (length (path_keys c))"
proof -
  from assms obtain r cs where c: "pc_activePath c = r # cs" "shape_wf (shape_of (pc_store c)) r S" "r \<in> S"
    "chain (shape_of (pc_store c)) r cs" by (rule pc_invE)
  from chain_end [OF c(2-4)] c(2) show ?thesis by (simp add: path_keys_def c(1) shape_of_sel shape_wf_def)
qed

end
