(* ===== verification/PrefixCacheEvict.thy ===== *)
theory PrefixCacheEvict
  imports PrefixCacheInv
begin

text \<open>
  Eviction: a node that may go is removed or merged with its only child; the invariant holds afterwards, the active
  path spells the same keys, and the loop ends, with the counter within the limit or nothing left that may go.
\<close>

section \<open>One node\<close>

context kept_slots
begin

lemma pc_inv_merge:
  assumes c: "pc_inv X c S" and n: "n \<in> S" "Some n \<noteq> pc_root c" "n \<noteq> last (pc_activePath c)"
    "tn_children (st_node (pc_store c) n) = [d]"
  shows "\<exists>h. mergeWithChild n (the_layers ops (pc_caches c)) (pc_store c) = Some h \<and> d \<in> S \<and>
    pc_inv X (c\<lparr>pc_store := h, pc_activePath := remove1 d (pc_activePath c)\<rparr>) (S - {d}) \<and>
    path_keys (c\<lparr>pc_store := h, pc_activePath := remove1 d (pc_activePath c)\<rparr>) = path_keys c"
proof -
  from c obtain r cs where r: "pc_root c = Some r" "pc_activePath c = r # cs" "trie_wf (pc_store c) r S"
    "shape_wf (shape_of (pc_store c)) r S" "finite S" "r \<in> S" "balanced (length (pc_caches c)) (pc_store c) S"
    "chain (shape_of (pc_store c)) r cs" "X (pc_store c) r S" by (rule pc_invE)
  have d: "sh_children (shape_of (pc_store c) n) = [d]" using n(4) by (simp add: shape_of_def)
  have nr: "n \<noteq> r" using n(2) r(1) by simp
  have dS: "d \<in> S" "d \<noteq> n" using shape_wf_childD [OF r(4) n(1), of d] shape_wf_neq [OF r(4) n(1), of d] d by auto
  have "length (tn_snapshots (st_node (pc_store c) m)) \<in> {0, length (the_layers ops (pc_caches c))}" if "m \<in> S" for m
    using pc_inv_slots [OF c that] by simp
  then obtain h where h: "mergeWithChild n (the_layers ops (pc_caches c)) (pc_store c) = Some h"
    using mergeWithChild_total [OF d dS(2)] n(1) dS(1) by blast
  have s: "trie_wf h r (S - {d})" "shape_of h = shape_merge n d (shape_of (pc_store c))"
    using trie_wf_merge [OF r(3) h n(1) nr] d by auto
  have b: "balanced (length (pc_caches c)) h (S - {d})"
    by (rule balanced_merge [OF r(7,5) n(1) dS _ d h]) simp
  have x: "X h r (S - {d})"
    by (rule X_merge [OF r(3,9) n(1) nr d _ h]) (rule pc_inv_slots [OF c])
  have "n \<noteq> last (r # cs)" using n(3) by (simp add: r(2))
  from chain_merge [OF r(4) n(1) nr d r(8) this] obtain cs' where
    "remove1 d (r # cs) = r # cs'" "chain (shape_of h) r cs'" "spells (shape_of h) (r # cs') = spells (shape_of (pc_store c)) (r # cs)"
    unfolding s(2) by blast
  then show ?thesis using h dS(1) s(1) b x r(1,2) by (auto simp: pc_inv_def path_keys_def)
qed

lemma evictNode_ok:
  assumes c: "pc_inv X c S" and n: "n \<in> S" "Some n \<noteq> pc_root c" "n \<noteq> last (pc_activePath c)"
    "length (tn_children (st_node (pc_store c) n)) \<le> 1"
  shows "\<exists>h p m. evictNode ops n c = Some (c\<lparr>pc_store := h, pc_activePath := p\<rparr>) \<and> m \<in> S \<and>
    pc_inv X (c\<lparr>pc_store := h, pc_activePath := p\<rparr>) (S - {m}) \<and>
    path_keys (c\<lparr>pc_store := h, pc_activePath := p\<rparr>) = path_keys c"
proof (cases "tn_children (st_node (pc_store c) n)")
  case Nil
  from c obtain r cs where r: "pc_root c = Some r" "pc_activePath c = r # cs" "trie_wf (pc_store c) r S"
    "shape_wf (shape_of (pc_store c)) r S" "finite S" "balanced (length (pc_caches c)) (pc_store c) S"
    "chain (shape_of (pc_store c)) r cs" "X (pc_store c) r S" by (rule pc_invE)
  have ch: "sh_children (shape_of (pc_store c) n) = []" using Nil by (simp add: shape_of_def)
  have nr: "n \<noteq> r" using n(2) r(1) by simp
  have "sh_parent (shape_of (pc_store c) n) \<noteq> None" using shape_wf_parentD [OF r(4) n(1) nr] by auto
  from removeNode_total [OF this ch] obtain h where h: "removeNode n (pc_store c) = Some h" by blast
  obtain p where p: "trie_wf h r (S - {n})" "shape_of h = shape_remove n p (shape_of (pc_store c))"
    using trie_wf_remove [OF r(3) h n(1) nr] by blast
  have nin: "n \<notin> set (r # cs)"
    using chain_next [OF r(7), of n] n(3) ch by (auto simp: r(2))
  have ch': "chain (shape_of h) r cs" unfolding p(2) by (rule chain_remove [OF r(7) nin])
  have tok: "sh_tokens (shape_of h d) = sh_tokens (shape_of (pc_store c) d)" for d
    by (simp add: p(2) shape_remove_def)
  have "spells (shape_of h) (r # cs) = spells (shape_of (pc_store c)) (r # cs)"
    by (rule spells_cong) (rule tok)
  moreover have "balanced (length (pc_caches c)) h (S - {n})"
    by (rule balanced_remove [OF r(6,5) n(1) h])
  ultimately have "pc_inv X (c\<lparr>pc_store := h, pc_activePath := pc_activePath c\<rparr>) (S - {n})"
      "path_keys (c\<lparr>pc_store := h, pc_activePath := pc_activePath c\<rparr>) = path_keys c"
    using p(1) ch' r(1,2) X_remove [OF r(3,8) n(1) nr h] by (auto simp: pc_inv_def path_keys_def)
  then show ?thesis
    using h Nil n(1) by (intro exI [of _ h] exI [of _ "pc_activePath c"] exI [of _ n]) (simp add: evictNode_def)
next
  case (Cons d ds)
  then have d: "tn_children (st_node (pc_store c) n) = [d]" using n(4) by simp
  from pc_inv_merge [OF c n(1-3) d] show ?thesis by (auto simp: evictNode_def d)
qed

end

section \<open>The choice\<close>

lemma evict_before_iff: "evict_before n b \<longleftrightarrow> tn_lastUsed n < tn_lastUsed b \<or> tn_lastUsed n = tn_lastUsed b \<and>
    (tn_endOffset b < tn_endOffset n \<or> tn_endOffset b = tn_endOffset n \<and> snapshotBytes b < snapshotBytes n)"
  by (auto simp: evict_before_def compare_int_def Let_def)

lemma evict_before_trans: "\<not> evict_before a b \<Longrightarrow> \<not> evict_before b d \<Longrightarrow> \<not> evict_before a d"
  by (auto simp: evict_before_iff)

lemma evict_before_asym: "evict_before a b \<Longrightarrow> \<not> evict_before b a"
  by (auto simp: evict_before_iff)

definition may_evict :: "'d store \<Rightarrow> nat option \<Rightarrow> nat \<Rightarrow> nat \<Rightarrow> bool" where
  "may_evict h root frontier n \<longleftrightarrow> Some n \<noteq> root \<and> n \<noteq> frontier \<and> length (tn_children (st_node h n)) \<le> 1"

lemma evict_pick_fold:
  assumes "\<And>b. best = Some b \<Longrightarrow> may_evict h root f b"
  shows "case fold (evict_pick h root f) ns best of
      None \<Rightarrow> best = None \<and> (\<forall>n \<in> set ns. \<not> may_evict h root f n)
    | Some b \<Rightarrow> may_evict h root f b \<and> (b \<in> set ns \<or> best = Some b) \<and>
        (\<forall>n \<in> set ns. may_evict h root f n \<longrightarrow> \<not> evict_before (st_node h n) (st_node h b)) \<and>
        (\<forall>n. best = Some n \<longrightarrow> \<not> evict_before (st_node h n) (st_node h b))"
  using assms
proof (induction ns arbitrary: best)
  case Nil
  then show ?case by (auto simp: evict_before_iff split: option.split)
next
  case (Cons n ns)
  have el: "may_evict h root f b" if "evict_pick h root f n best = Some b" for b
    using that Cons.prems by (auto simp: evict_pick_def may_evict_def split: if_splits option.splits)
  have IH: "case fold (evict_pick h root f) ns (evict_pick h root f n best) of
      None \<Rightarrow> evict_pick h root f n best = None \<and> (\<forall>n \<in> set ns. \<not> may_evict h root f n)
    | Some b \<Rightarrow> may_evict h root f b \<and> (b \<in> set ns \<or> evict_pick h root f n best = Some b) \<and>
        (\<forall>n \<in> set ns. may_evict h root f n \<longrightarrow> \<not> evict_before (st_node h n) (st_node h b)) \<and>
        (\<forall>m. evict_pick h root f n best = Some m \<longrightarrow> \<not> evict_before (st_node h m) (st_node h b))"
    by (rule Cons.IH) (rule el)
  show ?case
  proof (cases "may_evict h root f n")
    case False
    then have "evict_pick h root f n best = best" by (auto simp: evict_pick_def may_evict_def)
    then show ?thesis using IH False by (auto split: option.splits)
  next
    case True
    then have p: "evict_pick h root f n best =
        (case best of None \<Rightarrow> Some n | Some b \<Rightarrow> if evict_before (st_node h n) (st_node h b) then Some n else best)"
      by (auto simp: evict_pick_def may_evict_def)
    show ?thesis
    proof (cases best)
      case None
      then show ?thesis using IH True p by (auto split: option.splits)
    next
      case (Some b)
      then show ?thesis using IH True p
        by (auto split: option.splits if_splits dest: evict_before_trans [rotated] evict_before_asym)
    qed
  qed
qed

lemma evict_candidate_ok:
  assumes "pc_inv X c S"
  shows "\<exists>best. evict_candidate c = Some best \<and> (case best of
      None \<Rightarrow> \<forall>n \<in> S. \<not> may_evict (pc_store c) (pc_root c) (last (pc_activePath c)) n
    | Some b \<Rightarrow> b \<in> S \<and> may_evict (pc_store c) (pc_root c) (last (pc_activePath c)) b \<and>
        (\<forall>n \<in> S. may_evict (pc_store c) (pc_root c) (last (pc_activePath c)) n \<longrightarrow>
           \<not> evict_before (st_node (pc_store c) n) (st_node (pc_store c) b)))"
proof -
  from assms obtain r cs where r: "pc_root c = Some r" "pc_activePath c = r # cs" "trie_wf (pc_store c) r S"
    by (rule pc_invE)
  from walkNodes_all [OF r(3)] obtain ns where "walkNodes (pc_store c) (pc_root c) = Some ns" "set ns = S"
    by (auto simp: r(1))
  with evict_pick_fold [of None "pc_store c" "pc_root c" "last (pc_activePath c)" ns] show ?thesis
    by (auto simp: evict_candidate_def r(2) split: option.splits)
qed

section \<open>The loop\<close>

context kept_slots
begin

lemma evict_loop_ok:
  assumes "pc_inv X c S"
  shows "\<exists>h p S'. evict_loop ops c = Some (c\<lparr>pc_store := h, pc_activePath := p\<rparr>) \<and> S' \<subseteq> S \<and>
    pc_inv X (c\<lparr>pc_store := h, pc_activePath := p\<rparr>) S' \<and> path_keys (c\<lparr>pc_store := h, pc_activePath := p\<rparr>) = path_keys c \<and>
    (st_bytes h \<le> maxPagedOutBytes \<or> (\<forall>n \<in> S'. \<not> may_evict h (pc_root c) (last p) n))"
  using assms
proof (induction "card S" arbitrary: c S rule: less_induct)
  case less
  have same: "c\<lparr>pc_store := pc_store c, pc_activePath := pc_activePath c\<rparr> = c" by simp
  show ?case
  proof (cases "st_bytes (pc_store c) > maxPagedOutBytes")
    case False
    then show ?thesis using less.prems
      by (intro exI [of _ "pc_store c"] exI [of _ "pc_activePath c"] exI [of _ S]) (simp add: evict_loop.simps)
  next
    case True
    from evict_candidate_ok [OF less.prems] obtain best where best: "evict_candidate c = Some best" "case best of
      None \<Rightarrow> \<forall>n \<in> S. \<not> may_evict (pc_store c) (pc_root c) (last (pc_activePath c)) n
    | Some b \<Rightarrow> b \<in> S \<and> may_evict (pc_store c) (pc_root c) (last (pc_activePath c)) b \<and>
        (\<forall>n \<in> S. may_evict (pc_store c) (pc_root c) (last (pc_activePath c)) n \<longrightarrow>
           \<not> evict_before (st_node (pc_store c) n) (st_node (pc_store c) b))" by blast
    show ?thesis
    proof (cases best)
      case None
      then show ?thesis using best True less.prems
        by (intro exI [of _ "pc_store c"] exI [of _ "pc_activePath c"] exI [of _ S]) (simp add: evict_loop.simps)
    next
      case (Some b)
      have b: "b \<in> S" "Some b \<noteq> pc_root c" "b \<noteq> last (pc_activePath c)" "length (tn_children (st_node (pc_store c) b)) \<le> 1"
        using best(2) unfolding Some by (auto simp: may_evict_def)
      from evictNode_ok [OF less.prems b] obtain h p m where e:
        "evictNode ops b c = Some (c\<lparr>pc_store := h, pc_activePath := p\<rparr>)" "m \<in> S"
        "pc_inv X (c\<lparr>pc_store := h, pc_activePath := p\<rparr>) (S - {m})"
        "path_keys (c\<lparr>pc_store := h, pc_activePath := p\<rparr>) = path_keys c" by blast
      have "finite S" using less.prems by (elim pc_invE)
      then have "card (S - {m}) < card S" using e(2) by (rule card_Diff1_less)
      from less.hyps [OF this e(3)] obtain h' p' S' where IH:
        "evict_loop ops (c\<lparr>pc_store := h, pc_activePath := p\<rparr>) = Some (c\<lparr>pc_store := h', pc_activePath := p'\<rparr>)"
        "S' \<subseteq> S - {m}" "pc_inv X (c\<lparr>pc_store := h', pc_activePath := p'\<rparr>) S'"
        "path_keys (c\<lparr>pc_store := h', pc_activePath := p'\<rparr>) = path_keys (c\<lparr>pc_store := h, pc_activePath := p\<rparr>)"
        "st_bytes h' \<le> maxPagedOutBytes \<or> (\<forall>n \<in> S'. \<not> may_evict h' (pc_root c) (last p') n)" by auto
      have "evict_loop ops c = Some (c\<lparr>pc_store := h', pc_activePath := p'\<rparr>)"
        using True best(1) e(1) IH(1) by (subst evict_loop.simps) (simp add: Some)
      then show ?thesis using IH e(4) by (intro exI [of _ h'] exI [of _ p'] exI [of _ S']) auto
    qed
  qed
qed

lemma enforceEvictionPolicy_ok:
  assumes "pc_inv X c S"
  shows "\<exists>h p S'. enforceEvictionPolicy ops c = Some (c\<lparr>pc_store := h, pc_activePath := p\<rparr>) \<and> S' \<subseteq> S \<and>
    pc_inv X (c\<lparr>pc_store := h, pc_activePath := p\<rparr>) S' \<and> path_keys (c\<lparr>pc_store := h, pc_activePath := p\<rparr>) = path_keys c \<and>
    (st_bytes h \<le> maxPagedOutBytes \<or> (\<forall>n \<in> S'. \<not> may_evict h (pc_root c) (last p) n))"
proof -
  have "enforceEvictionPolicy ops c = evict_loop ops c"
    by (subst evict_loop.simps) (simp add: enforceEvictionPolicy_def evict_loop.simps [of ops c])
  then show ?thesis using evict_loop_ok [OF assms] by simp
qed

end

end
