(* ===== verification/PrefixCachePath.thy ===== *)
theory PrefixCachePath
  imports PrefixCacheEvict
begin

text \<open>
  The operations that move the active path: \<open>advancePath\<close>, \<open>compactPath\<close>, \<open>pageOut\<close>, \<open>attachCapturedSnapshots\<close> and
  the cut of \<open>switchToPath\<close>.  Each returns, keeps the invariant, and is described by the keys its path spells.
\<close>

section \<open>Steps on the path\<close>

lemma match_below_spells:
  "match_below h n toks = (path, m) \<Longrightarrow> take m toks = take m (spells (shape_of h) path) \<and> m \<le> length (spells (shape_of h) path)"
proof (induction "length toks" arbitrary: n toks path m rule: less_induct)
  case less
  from less.prems show ?case
  proof (cases rule: match_below_cases)
    case (part c)
    then show ?thesis using common_len_take [of "sh_tokens (shape_of h c)" toks] by simp
  next
    case (full c p q)
    let ?e = "sh_tokens (shape_of h c)"
    have "length ?e \<le> length toks" by (subst full(6)) simp
    then have "length (drop (length ?e) toks) < length toks" using full(1,7) by (cases ?e) auto
    note IH = less.hyps [OF this full(8)]
    have "take m toks = ?e @ take q (drop (length ?e) toks)" by (subst full(6)) (simp add: full(4))
    then show ?thesis using IH by (simp add: full(3,4))
  qed simp
qed

context kept_slots
begin

lemma pc_inv_walk:
  assumes "pc_inv X c S" "chain (shape_of (pc_store c)) (last (pc_activePath c)) ms"
  shows "pc_inv X (c\<lparr>pc_activePath := pc_activePath c @ ms\<rparr>) S"
  using assms by (auto simp: pc_inv_def chain_append)

lemma pc_inv_append:
  assumes c: "pc_inv X c S" and rem: "rem \<noteq> []" "e = int (length (path_keys c) + length rem)"
    and hd: "\<forall>d \<in> set (sh_children (shape_of (pc_store c) (last (pc_activePath c)))).
      hd (sh_tokens (shape_of (pc_store c) d)) \<noteq> hd rem"
    and a: "appendChild (last (pc_activePath c)) rem e (pc_store c) = (d, h)"
  shows "pc_inv X (c\<lparr>pc_store := h, pc_activePath := pc_activePath c @ [d]\<rparr>) (insert d S) \<and>
    path_keys (c\<lparr>pc_store := h, pc_activePath := pc_activePath c @ [d]\<rparr>) = path_keys c @ rem \<and>
    tn_tokens (st_node h d) = rem"
proof -
  define l where "l = last (pc_activePath c)"
  from c obtain r cs where r: "pc_root c = Some r" "pc_activePath c = r # cs" "trie_wf (pc_store c) r S"
    "shape_wf (shape_of (pc_store c)) r S" "finite S" "set cs \<subseteq> S" "r \<in> S" "balanced (length (pc_caches c)) (pc_store c) S"
    "chain (shape_of (pc_store c)) r cs" "last (r # cs) \<in> S" "st_next (pc_store c) \<notin> S" "X (pc_store c) r S" by (rule pc_invE)
  have l: "l \<in> S" "l = last (r # cs)" using r(2,10) by (simp_all add: l_def)
  have "e = sh_end (shape_of (pc_store c) l) + int (length rem)"
    using rem(2) path_keys_end [OF c] by (simp add: l_def shape_of_sel)
  from trie_wf_append [OF r(3) a [folded l_def] l(1) rem(1) this hd [folded l_def]]
  have w: "trie_wf h r (insert d S)" "d \<notin> S" "shape_of h = shape_append l d rem e (shape_of (pc_store c))" by auto
  have b: "balanced (length (pc_caches c)) h (insert d S)"
    by (rule balanced_append [OF r(8,5,11) a])
  have "d \<notin> set (r # cs)" using w(2) r(6,7) by auto
  from chain_extend [OF r(9) l(2) this] have ch: "chain (shape_of h) r (cs @ [d])" by (simp add: w(3))
  have tok: "sh_tokens (shape_of h m) = (if m = d then rem else sh_tokens (shape_of (pc_store c) m))" for m
    using l(1) w(2) by (auto simp: w(3) shape_append_def)
  have "spells (shape_of h) (r # cs) = spells (shape_of (pc_store c)) (r # cs)"
    using \<open>d \<notin> set (r # cs)\<close> by (intro spells_cong) (auto simp: tok)
  then show ?thesis
    using w(1) b ch r(1,2) X_append [OF r(3,12) l(1) a [folded l_def] w(1)] by (auto simp: pc_inv_def path_keys_def tok shape_of_sel)
qed

text \<open>Splitting the last node of the path: the path ends at the new parent.\<close>

lemma pc_inv_split:
  assumes c: "pc_inv X c S" and p: "pc_activePath c = xs @ [n]" "xs \<noteq> []"
    and at: "0 < at" "at < int (length (tn_tokens (st_node (pc_store c) n)))"
  shows "\<exists>f h. splitNode n at (the_layers ops (pc_caches c)) (pc_store c) = Some (f, h) \<and>
    pc_inv X (c\<lparr>pc_store := h, pc_activePath := xs @ [f]\<rparr>) (insert f S) \<and>
    path_keys (c\<lparr>pc_store := h, pc_activePath := xs @ [f]\<rparr>) =
      take (length (path_keys c) - length (tn_tokens (st_node (pc_store c) n)) + nat at) (path_keys c) \<and>
    tn_tokens (st_node h f) = take (nat at) (tn_tokens (st_node (pc_store c) n)) \<and>
    sh_children (shape_of h f) = [n] \<and> sh_tokens (shape_of h n) = drop (nat at) (tn_tokens (st_node (pc_store c) n))"
proof -
  from c obtain r cs where r: "pc_root c = Some r" "pc_activePath c = r # cs" "trie_wf (pc_store c) r S"
    "shape_wf (shape_of (pc_store c)) r S" "finite S" "set cs \<subseteq> S" "r \<in> S" "balanced (length (pc_caches c)) (pc_store c) S"
    "chain (shape_of (pc_store c)) r cs" "distinct (r # cs)" "st_next (pc_store c) \<notin> S" "X (pc_store c) r S" by (rule pc_invE)
  obtain ys where ys: "xs = r # ys" "cs = ys @ [n]" using p r(2) by (cases xs) auto
  have n: "n \<in> S" "n \<noteq> r" using r(6,10) ys(2) by auto
  have "length (tn_snapshots (st_node (pc_store c) n)) \<in> {0, length (the_layers ops (pc_caches c))}"
    using pc_inv_slots [OF c n(1)] by simp
  moreover have "n \<noteq> st_next (pc_store c)" using n(1) r(11) by auto
  ultimately obtain f h where s: "splitNode n at (the_layers ops (pc_caches c)) (pc_store c) = Some (f, h)"
    using splitNode_total [OF at(1), of "pc_store c" n "the_layers ops (pc_caches c)"] at(2) by (auto simp: shape_of_sel)
  obtain q where q: "sh_parent (shape_of (pc_store c) n) = Some q" "q \<noteq> n" "f \<notin> S" "trie_wf h r (insert f S)"
    "shape_of h = shape_split n f q (nat at) (shape_of (pc_store c))"
    using trie_wf_split [OF r(3) s n] by blast
  have b: "balanced (length (pc_caches c)) h (insert f S)"
    by (rule balanced_split [OF r(8,5,11) n(1) s])
  have x: "X h r (insert f S)" by (rule X_split [OF r(3,12) n pc_inv_slots [OF c n(1)] s])
  have ch: "chain (shape_of h) r (ys @ [f])"
    unfolding q(5) using chain_split [OF r(4) r(9) [unfolded ys(2)] q(1,3,2)] .
  have nin: "n \<notin> set xs" "f \<notin> set xs" "f \<noteq> n" using r(6,7,10) q(3) n(1) ys by auto
  have "f \<noteq> q" using shape_wf_parentD [OF r(4) n] q(1,3) by auto
  have qn: "sh_tokens (shape_of h m) = (if m = f then take (nat at) (sh_tokens (shape_of (pc_store c) n))
      else if m = n then drop (nat at) (sh_tokens (shape_of (pc_store c) n)) else sh_tokens (shape_of (pc_store c) m))" for m
    using nin(3) q(2) \<open>f \<noteq> q\<close> by (auto simp: q(5) shape_split_def)
  have "spells (shape_of h) xs = spells (shape_of (pc_store c)) xs"
    using nin(1,2) by (intro spells_cong) (auto simp: qn)
  moreover have "sh_children (shape_of h f) = [n]" using nin(3) q(2) \<open>f \<noteq> q\<close> by (simp add: q(5) shape_split_def)
  ultimately show ?thesis
    using s q(4) b ch x r(1) ys nin(3) by (auto simp: pc_inv_def path_keys_def p(1) qn shape_of_sel)
qed

section \<open>Advancing\<close>

text \<open>\<open>advancePath\<close> makes the path spell the given keys after those it spells already.\<close>

lemma advancePath_ok:
  assumes c: "pc_inv X c S" and f: "f = last (pc_activePath c)" and e: "e = int (length (path_keys c) + length toks)"
  shows "\<exists>h p S'. advancePath ops f toks e c = Some (last p, c\<lparr>pc_store := h, pc_activePath := p\<rparr>) \<and>
    pc_inv X (c\<lparr>pc_store := h, pc_activePath := p\<rparr>) S' \<and>
    path_keys (c\<lparr>pc_store := h, pc_activePath := p\<rparr>) = path_keys c @ toks \<and>
    (toks \<noteq> [] \<longrightarrow> length (tn_tokens (st_node h (last p))) \<le> length toks)"
proof -
  from c obtain r cs where r: "pc_activePath c = r # cs" "shape_wf (shape_of (pc_store c)) r S" "r \<in> S"
    "chain (shape_of (pc_store c)) r cs" "last (r # cs) \<in> S" by (rule pc_invE)
  define g where "g = shape_of (pc_store c)"
  obtain ms m where mm: "match_below (pc_store c) f toks = (ms, m)" by fastforce
  define l where "l = last (f # ms)"
  have fS: "f \<in> S" using r(1,5) f by simp
  have fe: "sh_end (g f) = int (length (path_keys c))" using path_keys_end [OF c] f by (simp add: g_def shape_of_sel)
  note me = match_below_end [OF r(2) fS mm, folded l_def g_def]
  have chm: "chain g f ms" "m \<le> length toks" using match_below_reads [OF mm] by (auto simp: g_def)
  note sp = match_below_spells [OF mm, folded g_def]
  define at where "at = sh_end (g f) + int m - (sh_end (g l) - int (length (sh_tokens (g l))))"
  have lend: "sh_end (g l) = sh_end (g f) + int (length (spells g ms))"
    using chain_end [OF r(2) fS] chm(1) by (simp add: l_def g_def)
  have at_eq: "tn_endOffset (st_node (pc_store c) f) + int m - startOffset (st_node (pc_store c) l) = at"
    by (simp add: at_def g_def startOffset_def shape_of_sel)
  define c1 where "c1 = c\<lparr>pc_activePath := pc_activePath c @ ms\<rparr>"
  have c1: "pc_inv X c1 S" unfolding c1_def using pc_inv_walk [OF c] chm(1) f by (simp add: g_def)
  have k1: "path_keys c1 = path_keys c @ spells g ms" by (simp add: c1_def path_keys_def g_def)
  have l1: "last (pc_activePath c1) = l" using r(1) f by (simp add: c1_def l_def)
  \<comment> \<open>what is left is appended to the node the path ends in\<close>
  have app: "\<exists>h' p S'. (if drop m toks \<noteq> [] then
        (let (dest, h') = appendChild (last p0) (drop m toks) e h in Some (dest, c\<lparr>pc_store := h', pc_activePath := p0 @ [dest]\<rparr>))
      else Some (last p0, c\<lparr>pc_store := h, pc_activePath := p0\<rparr>)) = Some (last p, c\<lparr>pc_store := h', pc_activePath := p\<rparr>) \<and>
      pc_inv X (c\<lparr>pc_store := h', pc_activePath := p\<rparr>) S' \<and>
      path_keys (c\<lparr>pc_store := h', pc_activePath := p\<rparr>) = path_keys c @ toks \<and>
      (toks \<noteq> [] \<longrightarrow> length (tn_tokens (st_node h' (last p))) \<le> length toks)"
    if inv: "pc_inv X (c\<lparr>pc_store := h, pc_activePath := p0\<rparr>) S0"
      and keys: "path_keys (c\<lparr>pc_store := h, pc_activePath := p0\<rparr>) = path_keys c @ take m toks"
      and hd: "m < length toks \<Longrightarrow> \<forall>d \<in> set (sh_children (shape_of h (last p0))). hd (sh_tokens (shape_of h d)) \<noteq> hd (drop m toks)"
      and short: "toks \<noteq> [] \<Longrightarrow> m = length toks \<Longrightarrow> length (tn_tokens (st_node h (last p0))) \<le> length toks"
    for h p0 S0
  proof (cases "drop m toks = []")
    case True
    then show ?thesis using inv keys short chm(2) by (intro exI [of _ h] exI [of _ p0] exI [of _ S0]) simp
  next
    case False
    obtain d h' where a: "appendChild (last p0) (drop m toks) e h = (d, h')" by fastforce
    have lt: "m < length toks" using False by simp
    have "e = int (length (path_keys (c\<lparr>pc_store := h, pc_activePath := p0\<rparr>)) + length (drop m toks))"
      using e lt by (simp add: keys)
    with pc_inv_append [OF inv False this, of d h'] hd [OF lt] a
    have "pc_inv X (c\<lparr>pc_store := h', pc_activePath := p0 @ [d]\<rparr>) (insert d S0)"
        "path_keys (c\<lparr>pc_store := h', pc_activePath := p0 @ [d]\<rparr>) = path_keys c @ take m toks @ drop m toks"
        "tn_tokens (st_node h' d) = drop m toks"
      by (auto simp: keys simp del: append_take_drop_id)
    then show ?thesis using False a by (intro exI [of _ h'] exI [of _ "p0 @ [d]"] exI [of _ "insert d S0"]) simp
  qed
  have adv: "advancePath ops f toks e c = Option.bind
      (if length (f # ms) > 1 \<and> at > 0 \<and> at < int (length (sh_tokens (g l)))
       then map_option (\<lambda>(x, h). (butlast (f # ms) @ [x], h)) (splitNode l at (the_layers ops (pc_caches c)) (pc_store c))
       else Some (f # ms, pc_store c))
      (\<lambda>(mp, h). if drop m toks \<noteq> [] then
          (let (dest, h') = appendChild (last mp) (drop m toks) e h
           in Some (dest, c\<lparr>pc_store := h', pc_activePath := (pc_activePath c @ tl mp) @ [dest]\<rparr>))
        else Some (last mp, c\<lparr>pc_store := h, pc_activePath := pc_activePath c @ tl mp\<rparr>))"
    unfolding advancePath_def findBestMatch_def option.case mm prod.case Let_def l_def [symmetric] at_eq
    by (simp add: g_def shape_of_sel case_prod_beta)
  show ?thesis
  proof (cases "ms \<noteq> [] \<and> at < int (length (sh_tokens (g l)))")
    case True
    then have at0: "0 < at" using me by (simp add: at_def)
    have p1: "pc_activePath c1 = (pc_activePath c @ butlast ms) @ [l]"
      using True by (simp add: c1_def l_def append_butlast_last_id)
    from pc_inv_split [OF c1 p1 _ at0] True r(1) obtain x h where s:
      "splitNode l at (the_layers ops (pc_caches c)) (pc_store c) = Some (x, h)"
      "pc_inv X (c\<lparr>pc_store := h, pc_activePath := pc_activePath c @ butlast ms @ [x]\<rparr>) (insert x S)"
      "path_keys (c\<lparr>pc_store := h, pc_activePath := pc_activePath c @ butlast ms @ [x]\<rparr>) =
        take (length (path_keys c1) - length (sh_tokens (g l)) + nat at) (path_keys c1)"
      "sh_children (shape_of h x) = [l]" "sh_tokens (shape_of h l) = drop (nat at) (sh_tokens (g l))"
      "tn_tokens (st_node h x) = take (nat at) (sh_tokens (g l))"
      by (auto simp: c1_def g_def shape_of_sel)
    have "length (sh_tokens (g l)) \<le> length (spells g ms)"
      using True by (subst append_butlast_last_id [of ms, symmetric]) (simp_all add: l_def del: append_butlast_last_id)
    then have "length (path_keys c1) - length (sh_tokens (g l)) + nat at = length (path_keys c) + m"
      using at0 by (simp add: k1 at_def lend)
    then have keys: "path_keys (c\<lparr>pc_store := h, pc_activePath := pc_activePath c @ butlast ms @ [x]\<rparr>) = path_keys c @ take m toks"
      using s(3) sp by (simp add: k1)
    have "sh_end (g f) + int m \<noteq> sh_end (g l)" using True at_def by auto
    then have hd: "\<forall>d \<in> set (sh_children (shape_of h (last (pc_activePath c @ butlast ms @ [x])))).
        hd (sh_tokens (shape_of h d)) \<noteq> hd (drop m toks)" if "m < length toks"
      using me that s(4,5) by (simp add: at_def)
    have short: "length (tn_tokens (st_node h (last (pc_activePath c @ butlast ms @ [x])))) \<le> length toks"
      using s(6) \<open>length (sh_tokens (g l)) \<le> length (spells g ms)\<close> chm(2) by (simp add: at_def lend)
    have "tl (butlast (f # ms) @ [x]) = butlast ms @ [x]" "last (butlast (f # ms) @ [x]) = last (pc_activePath c @ butlast ms @ [x])"
      using True by auto
    then show ?thesis using app [OF s(2) keys hd short] True at0 s(1)
      unfolding adv by (simp add: case_prod_beta split del: if_split cong: if_cong)
  next
    case False
    have full: "sh_end (g f) + int m = sh_end (g l)" and m: "m = length (spells g ms)"
    proof -
      show "m = length (spells g ms)"
      proof (cases "ms = []")
        case True
        then show ?thesis using sp by simp
      next
        case ms: False
        then have "at \<ge> int (length (sh_tokens (g l)))" using False by simp
        then show ?thesis using sp by (simp add: at_def lend)
      qed
      then show "sh_end (g f) + int m = sh_end (g l)" using lend by simp
    qed
    have inv: "pc_inv X (c\<lparr>pc_store := pc_store c, pc_activePath := pc_activePath c @ ms\<rparr>) S"
      using c1 by (simp add: c1_def)
    have keys: "path_keys (c\<lparr>pc_store := pc_store c, pc_activePath := pc_activePath c @ ms\<rparr>) = path_keys c @ take m toks"
      using k1 sp m by (simp add: c1_def)
    have hd: "\<forall>d \<in> set (sh_children (shape_of (pc_store c) (last (pc_activePath c @ ms)))).
        hd (sh_tokens (shape_of (pc_store c) d)) \<noteq> hd (drop m toks)" if "m < length toks"
      using me full that l1 by (simp add: c1_def g_def)
    have short: "length (tn_tokens (st_node (pc_store c) (last (pc_activePath c @ ms)))) \<le> length toks"
      if "toks \<noteq> []" "m = length toks"
    proof -
      have "ms \<noteq> []" using that m by auto
      then have "length (sh_tokens (g l)) \<le> length (spells g ms)"
        by (subst append_butlast_last_id [of ms, symmetric]) (simp_all add: l_def del: append_butlast_last_id)
      then show ?thesis using l1 m that(2) by (simp add: c1_def g_def shape_of_sel)
    qed
    have "last (f # ms) = last (pc_activePath c @ ms)" using l1 by (simp add: c1_def l_def)
    moreover have "\<not> (length (f # ms) > 1 \<and> at > 0 \<and> at < int (length (sh_tokens (g l))))" using False by auto
    ultimately show ?thesis
      unfolding adv by (simp only: if_False bind.simps prod.case list.sel) (rule app [OF inv keys hd short])
  qed
qed

section \<open>Compacting, paging out, attaching\<close>

lemma compactPath_ok:
  assumes c: "pc_inv X c S"
  shows "\<exists>h p S'. compactPath ops c = Some (c\<lparr>pc_store := h, pc_activePath := p\<rparr>) \<and>
    pc_inv X (c\<lparr>pc_store := h, pc_activePath := p\<rparr>) S' \<and> path_keys (c\<lparr>pc_store := h, pc_activePath := p\<rparr>) = path_keys c"
proof -
  from c obtain r cs where r: "pc_root c = Some r" "pc_activePath c = r # cs"
    "shape_wf (shape_of (pc_store c)) r S" "r \<in> S" "chain (shape_of (pc_store c)) r cs" "set cs \<subseteq> S" "distinct (r # cs)"
    by (rule pc_invE)
  define n where "n = pc_activePath c ! (length (pc_activePath c) - 2)"
  have same: ?thesis if "compactPath ops c = Some c"
    using that c by (intro exI [of _ "pc_store c"] exI [of _ "pc_activePath c"] exI [of _ S]) simp
  show ?thesis
  proof (cases "length (pc_activePath c) < 2 \<or> Some n = pc_root c \<or> tn_user (st_node (pc_store c) n) \<or>
      length (tn_children (st_node (pc_store c) n)) \<noteq> 1")
    case True
    then show ?thesis by (intro same) (auto simp: compactPath_def Let_def n_def)
  next
    case False
    then obtain xs l where x: "pc_activePath c = xs @ [n, l]"
    proof -
      obtain ys l where l: "pc_activePath c = ys @ [l]" using r(2) by (metis list.distinct(1) rev_exhaust)
      then obtain xs m where "ys = xs @ [m]" using False by (cases ys rule: rev_cases) auto
      then show thesis using that [of xs l] l by (simp add: n_def)
    qed
    obtain xs' where x': "xs = r # xs'" using x r(1,2) False by (cases xs) auto
    have cs: "cs = xs' @ [n, l]" using x r(2) by (simp add: x')
    have n: "n \<in> S" "Some n \<noteq> pc_root c" "n \<noteq> last (pc_activePath c)" using r(6,7) False cs x by auto
    have "l \<in> set (tn_children (st_node (pc_store c) n))"
      using r(5) by (simp add: cs chain_append shape_of_sel)
    then have ch: "tn_children (st_node (pc_store c) n) = [l]"
      using False by (cases "tn_children (st_node (pc_store c) n)") auto
    have "distinct (xs @ [n, l])" using r(2,7) x by metis
    then have "l \<notin> set (xs @ [n])" by auto
    then have "remove1 l (pc_activePath c) = butlast (pc_activePath c)"
      by (simp add: x remove1_append butlast_append)
    with pc_inv_merge [OF c n ch] obtain h where
      "mergeWithChild n (the_layers ops (pc_caches c)) (pc_store c) = Some h"
      "pc_inv X (c\<lparr>pc_store := h, pc_activePath := butlast (pc_activePath c)\<rparr>) (S - {l})"
      "path_keys (c\<lparr>pc_store := h, pc_activePath := butlast (pc_activePath c)\<rparr>) = path_keys c" by auto
    then show ?thesis using False by (auto simp: compactPath_def Let_def n_def)
  qed
qed

lemma path_keys_swap: "path_keys (c\<lparr>pc_store := snd (swapSnapshots n ss b (pc_store c))\<rparr>) = path_keys c"
  by (simp add: path_keys_def)

text \<open>The snapshots a page-out gives a node, and those an attachment does.\<close>

end

definition page_snaps :: "('c, 'd) cache_ops \<Rightarrow> nat \<Rightarrow> ('c, 'd) prefixCache \<Rightarrow> 'd layers" where
  "page_snaps ops n c = map (\<lambda>i. case pc_caches c ! i of
       None \<Rightarrow> layer_at (tn_snapshots (st_node (pc_store c) n)) i
     | Some kv \<Rightarrow> (case layer_at (tn_snapshots (st_node (pc_store c) n)) i of
          Some s \<Rightarrow> Some s | None \<Rightarrow> co_Snapshot ops kv (startOffset (st_node (pc_store c) n)))) [0..<length (pc_caches c)]"

definition capture_snaps :: "('c, 'd) cache_ops \<Rightarrow> nat \<Rightarrow> 'd layers \<Rightarrow> ('c, 'd) prefixCache \<Rightarrow> 'd layers" where
  "capture_snaps ops n snaps c = map (\<lambda>i. let old = layer_at (tn_snapshots (st_node (pc_store c) n)) i in
       case (pc_caches c ! i, layer_at snaps i, old) of
         (Some kv, Some s, None) \<Rightarrow> snd (co_Split ops kv s (startOffset (st_node (pc_store c) n)))
       | _ \<Rightarrow> old) [0..<length (pc_caches c)]"

text \<open>A swap that keeps \<open>X\<close>.\<close>

definition slots_fit :: "'d slots \<Rightarrow> nat \<Rightarrow> 'd layers \<Rightarrow> ('c, 'd) prefixCache \<Rightarrow> nat set \<Rightarrow> bool" where
  "slots_fit X n ss c S \<longleftrightarrow> (\<forall>r. pc_root c = Some r \<longrightarrow> X (pc_store c) r S \<longrightarrow>
     X (snd (swapSnapshots n ss True (pc_store c))) r S)"

context kept_slots
begin

lemma pageOut_ok:
  assumes c: "pc_inv X c S" and n: "n \<in> S" and fit: "slots_fit X n (page_snaps ops n c) c S"
  shows "\<exists>h p S'. pageOut ops n c = Some (c\<lparr>pc_store := h, pc_activePath := p\<rparr>) \<and>
    pc_inv X (c\<lparr>pc_store := h, pc_activePath := p\<rparr>) S' \<and> path_keys (c\<lparr>pc_store := h, pc_activePath := p\<rparr>) = path_keys c"
proof (cases "hasAllSnapshots (st_node (pc_store c) n) (pc_caches c)")
  case True
  then show ?thesis using c
    by (intro exI [of _ "pc_store c"] exI [of _ "pc_activePath c"] exI [of _ S]) (simp add: pageOut_def Let_def)
next
  case False
  define snaps where "snaps = page_snaps ops n c"
  define c1 where "c1 = c\<lparr>pc_store := snd (swapSnapshots n snaps True (pc_store c))\<rparr>"
  have c1: "pc_inv X c1 S" unfolding c1_def
    using fit by (intro pc_inv_swap [OF c n]) (auto simp: snaps_def page_snaps_def slots_fit_def)
  have "pageOut ops n c = enforceEvictionPolicy ops c1"
    using False unfolding pageOut_def Let_def c1_def snaps_def page_snaps_def by simp
  then show ?thesis using enforceEvictionPolicy_ok [OF c1]
    by (auto simp: c1_def path_keys_swap)
qed

lemma attachCapturedSnapshots_ok:
  assumes c: "pc_inv X c S" and n: "n \<in> S" and fit: "slots_fit X n (capture_snaps ops n snaps c) c S"
  shows "\<exists>h t. attachCapturedSnapshots ops clock n snaps c = c\<lparr>pc_store := h, pc_tick := t\<rparr> \<and>
    pc_inv X (c\<lparr>pc_store := h, pc_tick := t\<rparr>) S \<and> path_keys (c\<lparr>pc_store := h, pc_tick := t\<rparr>) = path_keys c"
proof -
  define next' where "next' = capture_snaps ops n snaps c"
  define c1 where "c1 = c\<lparr>pc_store := snd (swapSnapshots n next' True (pc_store c))\<rparr>"
  have c1: "pc_inv X c1 S" unfolding c1_def
    using fit by (intro pc_inv_swap [OF c n]) (auto simp: next'_def capture_snaps_def slots_fit_def)
  have k1: "path_keys c1 = path_keys c" by (simp add: c1_def path_keys_swap)
  have a: "attachCapturedSnapshots ops clock n snaps c = touch clock n c1"
    unfolding attachCapturedSnapshots_def Let_def c1_def next'_def capture_snaps_def by simp
  have "shape_of (pc_store (touch clock n c1)) = shape_of (pc_store c1)"
    by (auto simp: touch_def shape_of_set_node) (auto simp: shape_of_def)
  then have "path_keys (touch clock n c1) = path_keys c" using k1 by (simp add: path_keys_def touch_def)
  moreover have "touch clock n c1 = c\<lparr>pc_store := pc_store (touch clock n c1), pc_tick := pc_tick (touch clock n c1)\<rparr>"
    by (simp add: touch_def c1_def)
  ultimately show ?thesis using pc_inv_touch [OF c1] a by metis
qed

section \<open>Cutting the path at the live offset\<close>

lemma cut_path_ok:
  assumes "pc_inv X (c\<lparr>pc_activePath := rev rp\<rparr>) S" "0 \<le> off"
  shows "\<exists>p h S'. cut_path (the_layers ops (pc_caches c)) off rp (pc_store c) = Some (p, h) \<and>
    pc_inv X (c\<lparr>pc_store := h, pc_activePath := p\<rparr>) S' \<and>
    path_keys (c\<lparr>pc_store := h, pc_activePath := p\<rparr>) = take (nat off) (path_keys (c\<lparr>pc_activePath := rev rp\<rparr>))"
  using assms(1)
proof (induction rp)
  case Nil
  then show ?case by (auto simp: pc_inv_def)
next
  case (Cons n before)
  let ?c = "c\<lparr>pc_activePath := rev before @ [n]\<rparr>"
  have inv: "pc_inv X ?c S" using Cons.prems by simp
  from inv obtain r cs where r: "pc_activePath ?c = r # cs" "shape_wf (shape_of (pc_store ?c)) r S"
    "chain (shape_of (pc_store ?c)) r cs" by (rule pc_invE)
  have nend: "tn_endOffset (st_node (pc_store c) n) = int (length (path_keys ?c))"
    using path_keys_end [OF inv] by simp
  have keys: "path_keys ?c = path_keys (c\<lparr>pc_activePath := rev before\<rparr>) @ tn_tokens (st_node (pc_store c) n)"
    by (simp add: path_keys_def shape_of_sel)
  then have start: "startOffset (st_node (pc_store c) n) = int (length (path_keys (c\<lparr>pc_activePath := rev before\<rparr>)))"
    by (simp add: startOffset_def nend)
  show ?case
  proof (cases "before \<noteq> [] \<and> startOffset (st_node (pc_store c) n) \<ge> off")
    case True
    then obtain cs' where cs': "rev before = r # cs'" "cs = cs' @ [n]" using r(1) by (cases "rev before") auto
    have "pc_inv X (c\<lparr>pc_activePath := rev before\<rparr>) S"
      using inv r(1) cs' by (auto simp: pc_inv_def chain_append)
    from Cons.IH [OF this] obtain p h S' where
      "cut_path (the_layers ops (pc_caches c)) off before (pc_store c) = Some (p, h)"
      "pc_inv X (c\<lparr>pc_store := h, pc_activePath := p\<rparr>) S'"
      "path_keys (c\<lparr>pc_store := h, pc_activePath := p\<rparr>) = take (nat off) (path_keys (c\<lparr>pc_activePath := rev before\<rparr>))" by blast
    moreover have "nat off \<le> length (path_keys (c\<lparr>pc_activePath := rev before\<rparr>))" using True start by linarith
    ultimately show ?thesis using True keys
      by (intro exI [of _ p] exI [of _ h] exI [of _ S']) (simp add: Let_def)
  next
    case False
    show ?thesis
    proof (cases "tn_endOffset (st_node (pc_store c) n) > off")
      case True
      have bne: "before \<noteq> []"
      proof
        assume "before = []"
        then have "n = r" using r(1) by simp
        then have "path_keys ?c = []" using r(2) \<open>before = []\<close> by (simp add: path_keys_def shape_wf_def)
        then show False using True nend assms(2) by simp
      qed
      then have lt: "0 < off - startOffset (st_node (pc_store ?c) n)" using False by simp
      moreover have "off - startOffset (st_node (pc_store ?c) n) < int (length (tn_tokens (st_node (pc_store ?c) n)))"
        using True by (simp add: startOffset_def)
      ultimately obtain f h where s: "splitNode n (off - startOffset (st_node (pc_store c) n)) (the_layers ops (pc_caches c)) (pc_store c) = Some (f, h)"
        "pc_inv X (c\<lparr>pc_store := h, pc_activePath := rev before @ [f]\<rparr>) (insert f S)"
        "path_keys (c\<lparr>pc_store := h, pc_activePath := rev before @ [f]\<rparr>) =
          take (length (path_keys ?c) - length (tn_tokens (st_node (pc_store c) n)) + nat (off - startOffset (st_node (pc_store c) n))) (path_keys ?c)"
        using pc_inv_split [OF inv _ _ lt, where xs = "rev before"] bne by auto
      moreover have "length (path_keys ?c) - length (tn_tokens (st_node (pc_store c) n)) + nat (off - startOffset (st_node (pc_store c) n)) = nat off"
        using lt start by (simp add: keys)
      ultimately show ?thesis using False True
        by (intro exI [of _ "rev before @ [f]"] exI [of _ h] exI [of _ "insert f S"]) (auto simp: Let_def)
    next
      case noend: False
      then show ?thesis using False inv nend
        by (intro exI [of _ "rev before @ [n]"] exI [of _ "pc_store c"] exI [of _ S]) (auto simp: Let_def)
    qed
  qed
qed

end

end
