(* ===== verification/PrefixCacheSession.thy ===== *)
theory PrefixCacheSession
  imports PrefixCachePath
begin

text \<open>
  Sessions over the prefix cache: what \<open>begin\<close>, the attachment of captured snapshots and \<open>close\<close> do to the active
  path, and the states the cache can get into.  The keys the path spells are always a prefix of the keys of the
  session, and after \<open>close\<close> they are as many as the live caches have reached.
\<close>

section \<open>Attaching\<close>

definition kept :: "('c, 'd) prefixCache \<Rightarrow> ('c, 'd) prefixCache \<Rightarrow> bool" where
  "kept c c' \<longleftrightarrow> pc_root c' = pc_root c \<and> pc_caches c' = pc_caches c \<and> pc_draftLookahead c' = pc_draftLookahead c"

lemma kept_refl [simp]: "kept c c"
  by (simp add: kept_def)

lemma kept_trans: "kept a b \<Longrightarrow> kept b c \<Longrightarrow> kept a c"
  by (simp add: kept_def)

lemma kept_upd [simp]: "kept c (c\<lparr>pc_store := h, pc_activePath := p\<rparr>)" "kept c (c\<lparr>pc_store := h, pc_tick := t\<rparr>)"
    "kept c (c\<lparr>pc_store := h\<rparr>)"
  by (simp_all add: kept_def)

text \<open>The keys of the path are the first ones of a sequence of keys.\<close>

definition spelled :: "('c, 'd) prefixCache \<Rightarrow> trieKey list \<Rightarrow> bool" where
  "spelled c ks \<longleftrightarrow> path_keys c = take (length (path_keys c)) ks"

lemma spelled_le: "spelled c ks \<Longrightarrow> length (path_keys c) \<le> length ks"
  by (metis spelled_def length_take min.cobounded1)

lemma spelledI: "path_keys c = take k ks \<Longrightarrow> spelled c ks"
  by (simp add: spelled_def min_def)

lemma spelled_append: "spelled c ks \<Longrightarrow> spelled c (ks @ ms)"
  using spelled_le [of c ks] by (simp add: spelled_def)

lemma spelled_advance:
  assumes "spelled c ks" "length (path_keys c) \<le> q" "q \<le> length ks"
  shows "path_keys c @ take (q - length (path_keys c)) (drop (length (path_keys c)) ks) = take q ks"
proof -
  have "take (length (path_keys c)) ks @ take (q - length (path_keys c)) (drop (length (path_keys c)) ks) = take q ks"
    using assms(2) by (simp add: take_add_append)
  then show ?thesis using assms(1) by (simp add: spelled_def)
qed

context kept_slots
begin

text \<open>One advance to an offset, as both \<open>attachPrefillSnapshots\<close> and \<open>close\<close> do it.\<close>

lemma advance_to:
  assumes c: "pc_inv X c S" "spelled c ks" and q: "int (length (path_keys c)) < q" "q \<le> int (length ks)"
  defines "e \<equiv> tn_endOffset (st_node (pc_store c) (last (pc_activePath c)))"
  shows "\<exists>h p S'. advancePath ops (last (pc_activePath c)) (take (nat (q - e)) (drop (nat e) ks)) q c =
      Some (last p, c\<lparr>pc_store := h, pc_activePath := p\<rparr>) \<and>
    pc_inv X (c\<lparr>pc_store := h, pc_activePath := p\<rparr>) S' \<and> path_keys (c\<lparr>pc_store := h, pc_activePath := p\<rparr>) = take (nat q) ks \<and>
    int (length (path_keys c)) \<le> startOffset (st_node h (last p))"
proof -
  have e: "e = int (length (path_keys c))" unfolding e_def by (rule path_keys_end [OF c(1)])
  let ?t = "take (nat (q - e)) (drop (nat e) ks)"
  have "length ?t = nat (q - e)" using q by (simp add: e nat_diff_distrib)
  then have "q = int (length (path_keys c) + length ?t)" using q(1) by (simp add: e)
  from advancePath_ok [OF c(1) refl this] obtain h p S' where
    a: "advancePath ops (last (pc_activePath c)) ?t q c = Some (last p, c\<lparr>pc_store := h, pc_activePath := p\<rparr>)"
    "pc_inv X (c\<lparr>pc_store := h, pc_activePath := p\<rparr>) S'"
    "path_keys (c\<lparr>pc_store := h, pc_activePath := p\<rparr>) = path_keys c @ ?t"
    "?t \<noteq> [] \<longrightarrow> length (tn_tokens (st_node h (last p))) \<le> length ?t" by blast
  have "?t \<noteq> []" using \<open>length ?t = nat (q - e)\<close> q(1) by (auto simp: e)
  then have "int (length (tn_tokens (st_node h (last p)))) \<le> q - int (length (path_keys c))"
    using a(4) \<open>length ?t = nat (q - e)\<close> q(1) unfolding e by linarith
  moreover have "tn_endOffset (st_node h (last p)) = q"
    using path_keys_end [OF a(2)] a(3) \<open>length ?t = nat (q - e)\<close> q(1) by (simp add: e)
  ultimately have "int (length (path_keys c)) \<le> startOffset (st_node h (last p))" by (simp add: startOffset_def)
  moreover have "path_keys c @ ?t = take (nat q) ks"
    using spelled_advance [OF c(2), of "nat q"] q by (simp add: e nat_diff_distrib)
  ultimately show ?thesis using a by auto
qed

lemma set_user_ok:
  assumes "pc_inv X c S"
  shows "pc_inv X (c\<lparr>pc_store := set_node n ((st_node (pc_store c) n)\<lparr>tn_user := b\<rparr>) (pc_store c)\<rparr>) S \<and>
    path_keys (c\<lparr>pc_store := set_node n ((st_node (pc_store c) n)\<lparr>tn_user := b\<rparr>) (pc_store c)\<rparr>) = path_keys c"
proof
  show "pc_inv X (c\<lparr>pc_store := set_node n ((st_node (pc_store c) n)\<lparr>tn_user := b\<rparr>) (pc_store c)\<rparr>) S"
    by (rule pc_inv_node [OF assms]) simp_all
  have "shape_of (set_node n ((st_node (pc_store c) n)\<lparr>tn_user := b\<rparr>) (pc_store c)) = shape_of (pc_store c)"
    by (simp add: shape_of_set_node) (auto simp: shape_of_def)
  then show "path_keys (c\<lparr>pc_store := set_node n ((st_node (pc_store c) n)\<lparr>tn_user := b\<rparr>) (pc_store c)\<rparr>) = path_keys c"
    by (simp add: path_keys_def)
qed

lemma pc_inv_path_in: "pc_inv X c S \<Longrightarrow> pc_activePath c \<noteq> [] \<and> last (pc_activePath c) \<in> S"
  by (elim pc_invE) simp

end

text \<open>That the captures can be attached one after the other: \<open>B k rows\<close> says it of the rows that are left when the path
  spells \<open>k\<close> keys.\<close>

definition rows_fit :: "'d slots \<Rightarrow> ('c, 'd) cache_ops \<Rightarrow> 'c option list \<Rightarrow> int \<Rightarrow> trieKey list \<Rightarrow>
    (nat \<Rightarrow> (pendingSnapshot \<times> 'd layers) list \<Rightarrow> bool) \<Rightarrow> bool" where
  "rows_fit X ops C reached ks B \<longleftrightarrow> (\<forall>k p row rows. B k ((p, row) # rows) \<longrightarrow>
     (if ps_offset p > reached then B k rows
      else ps_offset p \<le> int (length ks) \<longrightarrow> B (max k (nat (ps_offset p))) rows \<and>
        (\<forall>c S. pc_inv X c S \<longrightarrow> pc_caches c = C \<longrightarrow> path_keys c = take (max k (nat (ps_offset p))) ks \<longrightarrow>
           (int k < ps_offset p \<longrightarrow> int k \<le> startOffset (st_node (pc_store c) (last (pc_activePath c)))) \<longrightarrow>
           slots_fit X (last (pc_activePath c)) (capture_snaps ops (last (pc_activePath c)) row c) c S)))"

lemma rows_fit_no_slots: "rows_fit no_slots ops C reached ks (\<lambda>_ _. True)"
  by (simp add: rows_fit_def slots_fit_def no_slots_def)

context kept_slots
begin

lemma attach_rows_ok:
  assumes "pc_inv X c S" "spelled c ks" "B (length (path_keys c)) rows" and fit: "rows_fit X ops (pc_caches c) reached ks B"
  shows "case attach_rows ops clock reached ks rows c of
      None \<Rightarrow> reached > int (length ks)
    | Some c' \<Rightarrow> (\<exists>S'. pc_inv X c' S') \<and> spelled c' ks \<and> kept c c' \<and>
        length (path_keys c) \<le> length (path_keys c') \<and> length (path_keys c') \<le> max (length (path_keys c)) (nat reached)"
  using assms
proof (induction rows arbitrary: c S)
  case Nil
  then show ?case by auto
next
  case (Cons pr rows)
  obtain p row where pr: "pr = (p, row)" by fastforce
  have ne: "pc_activePath c \<noteq> []" using pc_inv_path_in [OF Cons.prems(1)] by simp
  let ?e = "tn_endOffset (st_node (pc_store c) (last (pc_activePath c)))"
  have e: "?e = int (length (path_keys c))" by (rule path_keys_end [OF Cons.prems(1)])
  have fitD: "if ps_offset p > reached then B (length (path_keys c)) rows
      else ps_offset p \<le> int (length ks) \<longrightarrow> B (max (length (path_keys c)) (nat (ps_offset p))) rows \<and>
        (\<forall>c' S. pc_inv X c' S \<longrightarrow> pc_caches c' = pc_caches c \<longrightarrow>
           path_keys c' = take (max (length (path_keys c)) (nat (ps_offset p))) ks \<longrightarrow>
           (int (length (path_keys c)) < ps_offset p \<longrightarrow>
             int (length (path_keys c)) \<le> startOffset (st_node (pc_store c') (last (pc_activePath c')))) \<longrightarrow>
           slots_fit X (last (pc_activePath c')) (capture_snaps ops (last (pc_activePath c')) row c') c' S)"
    using Cons.prems(3,4) unfolding rows_fit_def pr by blast
  show ?case
  proof (cases "ps_offset p > reached")
    case True
    then have "B (length (path_keys c)) rows" using fitD by simp
    then show ?thesis using True Cons.IH [OF Cons.prems(1,2) _ Cons.prems(4)] by (simp add: pr)
  next
    case in_reach: False
    show ?thesis
    proof (cases "ps_offset p > int (length ks)")
      case True
      then have "?e < ps_offset p" using spelled_le [OF Cons.prems(2)] e by simp
      then have "attach_rows ops clock reached ks (pr # rows) c = None"
        using True in_reach ne by (simp add: pr Let_def)
      then show ?thesis using True in_reach by simp
    next
      case False
      define adv where "adv = (if ?e < ps_offset p then
             (if ?e < 0 \<or> ps_offset p > int (length ks) then None
              else advancePath ops (last (pc_activePath c)) (take (nat (ps_offset p - ?e)) (drop (nat ?e) ks)) (ps_offset p) c)
           else Some (last (pc_activePath c), c))"
      have "\<exists>h q S1. adv = Some (last q, c\<lparr>pc_store := h, pc_activePath := q\<rparr>) \<and>
          pc_inv X (c\<lparr>pc_store := h, pc_activePath := q\<rparr>) S1 \<and>
          path_keys (c\<lparr>pc_store := h, pc_activePath := q\<rparr>) = take (max (length (path_keys c)) (nat (ps_offset p))) ks \<and>
          (int (length (path_keys c)) < ps_offset p \<longrightarrow> int (length (path_keys c)) \<le> startOffset (st_node h (last q)))"
      proof (cases "?e < ps_offset p")
        case True
        have "adv = advancePath ops (last (pc_activePath c)) (take (nat (ps_offset p - ?e)) (drop (nat ?e) ks)) (ps_offset p) c"
          using True False e by (simp add: adv_def)
        moreover have "max (length (path_keys c)) (nat (ps_offset p)) = nat (ps_offset p)" using True e by simp
        ultimately show ?thesis using advance_to [OF Cons.prems(1,2), of "ps_offset p"] True False e by simp
      next
        case less: False
        then have m: "max (length (path_keys c)) (nat (ps_offset p)) = length (path_keys c)" using e by simp
        have "path_keys c = take (max (length (path_keys c)) (nat (ps_offset p))) ks"
          using Cons.prems(2) by (simp add: m spelled_def)
        then show ?thesis using less Cons.prems(1) e
          by (intro exI [of _ "pc_store c"] exI [of _ "pc_activePath c"] exI [of _ S]) (simp add: adv_def)
      qed
      then obtain h q S1 where a: "adv = Some (last q, c\<lparr>pc_store := h, pc_activePath := q\<rparr>)"
        "pc_inv X (c\<lparr>pc_store := h, pc_activePath := q\<rparr>) S1"
        "path_keys (c\<lparr>pc_store := h, pc_activePath := q\<rparr>) = take (max (length (path_keys c)) (nat (ps_offset p))) ks"
        "int (length (path_keys c)) < ps_offset p \<longrightarrow> int (length (path_keys c)) \<le> startOffset (st_node h (last q))" by blast
      define c1 where "c1 = c\<lparr>pc_store := h, pc_activePath := q\<rparr>"
      have c1: "pc_inv X c1 S1" "kept c c1" using a(2) by (simp_all add: c1_def)
      define c2 where "c2 = (if ps_user p
                 then c1\<lparr>pc_store := set_node (last q) ((st_node (pc_store c1) (last q))\<lparr>tn_user := True\<rparr>) (pc_store c1)\<rparr> else c1)"
      have c2: "pc_inv X c2 S1" "path_keys c2 = path_keys c1" "kept c1 c2" "pc_activePath c2 = q"
        using set_user_ok [OF c1(1)] c1(1) unfolding c2_def by (auto simp: c1_def kept_def)
      have "startOffset (st_node (pc_store c2) (last q)) = startOffset (st_node h (last q))"
        by (simp add: c2_def c1_def startOffset_def set_node_def)
      then have fit2: "slots_fit X (last q) (capture_snaps ops (last q) row c2) c2 S1"
        using fitD c2 c1(2) a(3,4) in_reach False by (auto simp: kept_def c1_def)
      have "last q \<in> S1" using pc_inv_path_in [OF c1(1)] by (simp add: c1_def)
      from attachCapturedSnapshots_ok [OF c2(1) this fit2, where clock = clock] obtain c3 where
        c3: "attachCapturedSnapshots ops clock (last q) row c2 = c3" "pc_inv X c3 S1" "path_keys c3 = path_keys c2" "kept c2 c3" by auto
      from compactPath_ok [OF c3(2)] obtain c4 S4 where
        c4: "compactPath ops c3 = Some c4" "pc_inv X c4 S4" "path_keys c4 = path_keys c3" "kept c3 c4" by auto
      have step: "attach_rows ops clock reached ks (pr # rows) c = attach_rows ops clock reached ks rows c4"
        using in_reach ne a(1) c3(1) c4(1)
        by (simp add: pr Let_def adv_def [symmetric] c1_def [symmetric] c2_def [symmetric])
      have k4: "path_keys c4 = take (max (length (path_keys c)) (nat (ps_offset p))) ks" using c2(2) c3(3) c4(3) a(3) by (simp add: c1_def)
      then have sp: "spelled c4 ks" by (rule spelledI)
      have kp: "kept c c4" using c1(2) c2(3) c3(4) c4(4) by (meson kept_trans)
      have "length (path_keys c) \<le> length ks" by (rule spelled_le [OF Cons.prems(2)])
      then have len: "length (path_keys c) \<le> length (path_keys c4)" "length (path_keys c4) \<le> max (length (path_keys c)) (nat reached)"
        using in_reach by (auto simp: k4)
      have "length (path_keys c4) = max (length (path_keys c)) (nat (ps_offset p))"
        using \<open>length (path_keys c) \<le> length ks\<close> False by (auto simp: k4)
      then have B4: "B (length (path_keys c4)) rows" using fitD in_reach False by simp
      have "rows_fit X ops (pc_caches c4) reached ks B" using Cons.prems(4) kp by (simp add: kept_def)
      from Cons.IH [OF c4(2) sp B4 this] show ?thesis
        using kp len unfolding step by (auto split: option.splits intro: kept_trans)
    qed
  qed
qed

end

text \<open>The caches after the captures are drained.\<close>

definition drained :: "('c, 'd) cache_ops \<Rightarrow> cacheSession \<Rightarrow> ('c, 'd) prefixCache \<Rightarrow> 'c option list" where
  "drained ops s c = (if cs_pendingSnapshots s = [] then pc_caches c
     else map (map_option (\<lambda>kv. fst (co_TakeSnapshots ops kv))) (pc_caches c))"

text \<open>The captures with their offsets.\<close>

definition pending_rows :: "('c, 'd) cache_ops \<Rightarrow> cacheSession \<Rightarrow> ('c, 'd) prefixCache \<Rightarrow> (pendingSnapshot \<times> 'd layers) list" where
  "pending_rows ops s c = zip (cs_pendingSnapshots s) (capture_rows ops (length (cs_pendingSnapshots s)) (pc_caches c))"

lemma storedKeys_pending [simp]: "storedKeys c (s\<lparr>cs_pendingSnapshots := p\<rparr>) = storedKeys c s"
  by (simp add: storedKeys_def)

lemma path_keys_touch: "path_keys (touch clock n c) = path_keys c"
proof -
  have "shape_of (pc_store (touch clock n c)) = shape_of (pc_store c)"
    by (auto simp: touch_def shape_of_set_node) (auto simp: shape_of_def)
  then show ?thesis by (simp add: path_keys_def touch_def)
qed

text \<open>That the page-out of the last node fits.\<close>

definition page_fits :: "'d slots \<Rightarrow> ('c, 'd) cache_ops \<Rightarrow> 'c option list \<Rightarrow> int \<Rightarrow> trieKey list \<Rightarrow> bool" where
  "page_fits X ops C off ks \<longleftrightarrow> (0 < off \<longrightarrow> (\<forall>c S. pc_inv X c S \<longrightarrow> pc_caches c = C \<longrightarrow> path_keys c = take (nat off) ks \<longrightarrow>
     slots_fit X (last (pc_activePath c)) (page_snaps ops (last (pc_activePath c)) c) c S))"

lemma page_fits_no_slots: "page_fits no_slots ops C off ks"
  by (simp add: page_fits_def slots_fit_def no_slots_def)

context kept_slots
begin

lemma attachPrefillSnapshots_ok:
  assumes c: "pc_inv X c S" "storedKeys c s = Some ks" "spelled c ks" "B (length (path_keys c)) (pending_rows ops s c)"
    and fit: "rows_fit X ops (drained ops s c) (min_offset ops (drained ops s c)) ks B"
  shows "case attachPrefillSnapshots ops clock s c of
      None \<Rightarrow> min_offset ops (drained ops s c) > int (length ks)
    | Some (s', c') \<Rightarrow> (\<exists>S'. pc_inv X c' S') \<and> spelled c' ks \<and> s' = s\<lparr>cs_pendingSnapshots := []\<rparr> \<and>
        pc_root c' = pc_root c \<and> pc_draftLookahead c' = pc_draftLookahead c \<and> pc_caches c' = drained ops s c \<and>
        length (path_keys c) \<le> length (path_keys c') \<and>
        length (path_keys c') \<le> max (length (path_keys c)) (nat (min_offset ops (pc_caches c')))"
proof (cases "cs_pendingSnapshots s = []")
  case True
  then show ?thesis using c by (auto simp: attachPrefillSnapshots_def drained_def)
next
  case False
  define C where "C = map (map_option (\<lambda>kv. fst (co_TakeSnapshots ops kv))) (pc_caches c)"
  define rows where "rows = pending_rows ops s c"
  let ?c = "c\<lparr>pc_caches := C\<rparr>"
  have 1: "pc_inv X ?c S" by (rule pc_inv_caches [OF c(1)]) (simp add: C_def)
  have pk: "path_keys ?c = path_keys c" by (simp add: path_keys_def)
  have sp: "spelled ?c ks" using c(3) by (simp add: spelled_def pk)
  have st: "storedKeys ?c (s\<lparr>cs_pendingSnapshots := []\<rparr>) = Some ks" using c(2) by (simp add: storedKeys_def)
  have a: "attachPrefillSnapshots ops clock s c = Option.bind (attach_rows ops clock (min_offset ops C) ks rows ?c)
      (\<lambda>c. Option.bind (enforceEvictionPolicy ops c) (\<lambda>c. Some (s\<lparr>cs_pendingSnapshots := []\<rparr>, c)))"
    using False st by (simp add: attachPrefillSnapshots_def Let_def C_def rows_def pending_rows_def)
  have B: "B (length (path_keys ?c)) rows" using c(4) by (simp add: pk rows_def)
  have fit': "rows_fit X ops (pc_caches ?c) (min_offset ops C) ks B" using fit False by (simp add: drained_def C_def)
  show ?thesis
  proof (cases "attach_rows ops clock (min_offset ops C) ks rows ?c")
    case None
    then show ?thesis using attach_rows_ok [where B = B, OF 1 sp B fit', where clock = clock] a False
      by (simp add: C_def drained_def)
  next
    case (Some c1)
    with attach_rows_ok [where B = B, OF 1 sp B fit', where clock = clock] obtain S1 where
      c1: "pc_inv X c1 S1" "spelled c1 ks" "kept ?c c1" "length (path_keys c) \<le> length (path_keys c1)"
      "length (path_keys c1) \<le> max (length (path_keys c)) (nat (min_offset ops C))" by (auto simp: pk)
    from enforceEvictionPolicy_ok [OF c1(1)] obtain c2 S2 where
      c2: "enforceEvictionPolicy ops c1 = Some c2" "pc_inv X c2 S2" "path_keys c2 = path_keys c1" "kept c1 c2" by auto
    have "kept ?c c2" using c1(3) c2(4) by (rule kept_trans)
    then show ?thesis
      using a Some c2 c1 False by (auto simp: kept_def spelled_def C_def drained_def)
  qed
qed

section \<open>Closing a session\<close>

lemma session_close_ok:
  assumes c: "pc_inv X c S" "storedKeys c s = Some ks" "spelled c ks" "B (length (path_keys c)) (pending_rows ops s c)"
    and fit: "rows_fit X ops (drained ops s c) (min_offset ops (drained ops s c)) ks B"
    and page: "page_fits X ops (drained ops s c) (min_offset ops (drained ops s c)) ks"
  shows "case session_close ops clock s c of
      None \<Rightarrow> min_offset ops (drained ops s c) > int (length ks)
    | Some (s', c') \<Rightarrow> (\<exists>S'. pc_inv X c' S') \<and> s' = s\<lparr>cs_pendingSnapshots := []\<rparr> \<and>
        pc_caches c' = drained ops s c \<and> pc_root c' = pc_root c \<and> pc_draftLookahead c' = pc_draftLookahead c \<and>
        path_keys c' = take (max (length (path_keys c)) (nat (min_offset ops (pc_caches c')))) ks"
proof (cases "attachPrefillSnapshots ops clock s c")
  case None
  then show ?thesis using attachPrefillSnapshots_ok [where B = B, OF c fit, where clock = clock] by (simp add: session_close_def)
next
  case (Some sc)
  then obtain s1 c1 where a: "attachPrefillSnapshots ops clock s c = Some (s1, c1)" by (cases sc) auto
  with attachPrefillSnapshots_ok [where B = B, OF c fit, where clock = clock] obtain S1 where
    c1: "pc_inv X c1 S1" "spelled c1 ks" "s1 = s\<lparr>cs_pendingSnapshots := []\<rparr>" "pc_root c1 = pc_root c"
    "pc_draftLookahead c1 = pc_draftLookahead c" "pc_caches c1 = drained ops s c"
    "length (path_keys c) \<le> length (path_keys c1)"
    "length (path_keys c1) \<le> max (length (path_keys c)) (nat (min_offset ops (pc_caches c1)))" by auto
  have st: "storedKeys c1 s1 = Some ks" using c(2) c1(3,5) by (simp add: storedKeys_def)
  have ne: "pc_activePath c1 \<noteq> []" using pc_inv_path_in [OF c1(1)] by simp
  define off where "off = min_offset ops (pc_caches c1)"
  let ?e = "tn_endOffset (st_node (pc_store c1) (last (pc_activePath c1)))"
  have e: "?e = int (length (path_keys c1))" by (rule path_keys_end [OF c1(1)])
  show ?thesis
  proof (cases "off \<le> 0")
    case True
    then show ?thesis using a c1 by (auto simp: session_close_def off_def Let_def spelled_def)
  next
    case pos: False
    show ?thesis
    proof (cases "off > int (length ks)")
      case True
      then show ?thesis using a pos st c1(6) by (simp add: session_close_def off_def Let_def)
    next
      case False
      define grow where "grow = (if off > ?e then
              (if ?e < 0 then None
               else Option.bind (advancePath ops (last (pc_activePath c1)) (take (nat (off - ?e)) (drop (nat ?e) ks)) off c1)
                 (\<lambda>(n, c). Option.bind (pageOut ops n c) (compactPath ops)))
            else Some c1)"
      have "\<exists>c2 S2. grow = Some c2 \<and> pc_inv X c2 S2 \<and> kept c1 c2 \<and> path_keys c2 = take (max (length (path_keys c1)) (nat off)) ks"
      proof (cases "off > ?e")
        case True
        from advance_to [OF c1(1,2), of off] True False e obtain h p S2 where
          adv: "advancePath ops (last (pc_activePath c1)) (take (nat (off - ?e)) (drop (nat ?e) ks)) off c1 =
            Some (last p, c1\<lparr>pc_store := h, pc_activePath := p\<rparr>)"
          "pc_inv X (c1\<lparr>pc_store := h, pc_activePath := p\<rparr>) S2"
          "path_keys (c1\<lparr>pc_store := h, pc_activePath := p\<rparr>) = take (nat off) ks" by auto
        have fit': "slots_fit X (last p) (page_snaps ops (last p) (c1\<lparr>pc_store := h, pc_activePath := p\<rparr>))
            (c1\<lparr>pc_store := h, pc_activePath := p\<rparr>) S2"
          using page [unfolded page_fits_def, rule_format, OF _ adv(2)] pos adv(3) c1(6) by (simp add: off_def)
        have lp: "last p \<in> S2" using pc_inv_path_in [OF adv(2)] by simp
        obtain c3 S3 where
          c3: "pageOut ops (last p) (c1\<lparr>pc_store := h, pc_activePath := p\<rparr>) = Some c3" "pc_inv X c3 S3"
          "path_keys c3 = take (nat off) ks" "kept (c1\<lparr>pc_store := h, pc_activePath := p\<rparr>) c3"
          using pageOut_ok [OF adv(2) lp fit'] by (auto simp: adv(3) kept_def)
        from compactPath_ok [OF c3(2)] obtain c4 S4 where
          c4: "compactPath ops c3 = Some c4" "pc_inv X c4 S4" "path_keys c4 = take (nat off) ks" "kept c3 c4" by (auto simp: c3(3))
        have "kept c1 c4" using kept_trans [OF kept_trans [OF kept_upd(1) c3(4)] c4(4)] .
        moreover have "max (length (path_keys c1)) (nat off) = nat off" using True e by simp
        ultimately show ?thesis using True e adv(1) c3(1) c4 by (auto simp: grow_def)
      next
        case less: False
        then have "max (length (path_keys c1)) (nat off) = length (path_keys c1)" using e by simp
        then show ?thesis using less c1(1,2) by (auto simp: grow_def spelled_def)
      qed
      then obtain c2 S2 where g: "grow = Some c2" "pc_inv X c2 S2" "kept c1 c2"
        "path_keys c2 = take (max (length (path_keys c1)) (nat off)) ks" by blast
      have ne2: "pc_activePath c2 \<noteq> []" using pc_inv_path_in [OF g(2)] by simp
      have "session_close ops clock s c =
          Option.bind grow (\<lambda>c. if pc_activePath c = [] then None else Some (s1, touch clock (last (pc_activePath c)) c))"
        using pos False st ne
        by (simp add: session_close_def a off_def [symmetric] Let_def grow_def split del: if_split cong: if_cong)
      then have "session_close ops clock s c = Some (s1, touch clock (last (pc_activePath c2)) c2)"
        using g(1) ne2 by simp
      moreover have "pc_inv X (touch clock (last (pc_activePath c2)) c2) S2" by (rule pc_inv_touch [OF g(2)])
      moreover have "path_keys (touch clock (last (pc_activePath c2)) c2) = path_keys c2"
        by (rule path_keys_touch)
      moreover have "max (length (path_keys c1)) (nat off) = max (length (path_keys c)) (nat off)"
        using c1(7,8) by (auto simp: off_def)
      moreover have "pc_caches (touch clock (last (pc_activePath c2)) c2) = pc_caches c1"
        "pc_root (touch clock (last (pc_activePath c2)) c2) = pc_root c1"
        "pc_draftLookahead (touch clock (last (pc_activePath c2)) c2) = pc_draftLookahead c1"
        using g(3) by (simp_all add: touch_def kept_def)
      ultimately show ?thesis using c1(3-6) g(4) by (auto simp: off_def)
    qed
  qed
qed

end

end
