(* ===== verification/LiveCache.thy ===== *)
theory LiveCache
  imports PrefixCache
begin

text \<open>
  The contract of \<open>cache.Cache\<close> that the prefix cache relies on, as the interface documents it: \<open>Restore\<close> brings a
  cache to its target or reports that it cannot, \<open>Free\<close> empties it, scheduling and draining captures does not move
  it.  The lemmas say what \<open>switchToPath\<close> makes of the offsets of the live caches.
\<close>

locale live_cache =
  fixes ops :: "('c, 'd) cache_ops" and ok :: "'c \<Rightarrow> bool"
  assumes offset_nonneg: "ok kv \<Longrightarrow> 0 \<le> co_Offset ops kv"
    and restore_True: "ok kv \<Longrightarrow> 0 \<le> t \<Longrightarrow> co_Restore ops kv s t = (kv', True) \<Longrightarrow> ok kv' \<and> co_Offset ops kv' = t"
    and restore_False: "ok kv \<Longrightarrow> co_Restore ops kv s t = (kv', False) \<Longrightarrow> ok kv' \<and> co_Offset ops kv' = co_Offset ops kv"
    and free_ok: "ok kv \<Longrightarrow> ok (co_Free ops kv) \<and> co_Offset ops (co_Free ops kv) = 0"
    and prepare_ok: "ok kv \<Longrightarrow> co_PrepareSnapshots ops kv offs = Some kv' \<Longrightarrow> ok kv' \<and> co_Offset ops kv' = co_Offset ops kv"
    and take_ok: "ok kv \<Longrightarrow> ok (fst (co_TakeSnapshots ops kv)) \<and> co_Offset ops (fst (co_TakeSnapshots ops kv)) = co_Offset ops kv"

text \<open>Each stateful layer has a property.\<close>

definition layers_all :: "('c \<Rightarrow> bool) \<Rightarrow> 'c option list \<Rightarrow> bool" where
  "layers_all P caches \<longleftrightarrow> (\<forall>kv. Some kv \<in> set caches \<longrightarrow> P kv)"

lemma layers_all_simps [simp]: "layers_all P []" "layers_all P (None # cs) = layers_all P cs"
    "layers_all P (Some kv # cs) \<longleftrightarrow> P kv \<and> layers_all P cs" "layers_all P (xs @ ys) \<longleftrightarrow> layers_all P xs \<and> layers_all P ys"
  by (auto simp: layers_all_def)

lemma layers_all_map: "layers_all P (map (map_option f) cs) \<longleftrightarrow> layers_all (\<lambda>kv. P (f kv)) cs"
proof (induction cs)
  case (Cons x cs)
  then show ?case by (cases x) auto
qed simp

lemma layers_all_mono: "layers_all P cs \<Longrightarrow> (\<And>kv. P kv \<Longrightarrow> Q kv) \<Longrightarrow> layers_all Q cs"
  by (simp add: layers_all_def)

lemma minCacheOffset_None: "minCacheOffset ops cs = None \<Longrightarrow> layers_all P cs"
  by (induction cs rule: minCacheOffset.induct) (auto split: option.splits)

lemma minCacheOffset_Some:
  "minCacheOffset ops cs = Some m \<Longrightarrow> layers_all (\<lambda>kv. m \<le> co_Offset ops kv) cs \<and> (\<exists>kv. Some kv \<in> set cs \<and> co_Offset ops kv = m)"
proof (induction cs arbitrary: m rule: minCacheOffset.induct)
  case (3 ops kv cs)
  then show ?case
  proof (cases "minCacheOffset ops cs")
    case None
    then show ?thesis using 3 minCacheOffset_None [OF None] by auto
  next
    case (Some k)
    from 3(1) [OF this] 3(2) Some show ?thesis
      by (auto simp: min_def layers_all_def split: if_splits; fastforce)
  qed
qed auto

lemma min_offset_eq: "layers_all (\<lambda>kv. co_Offset ops kv = t) cs \<Longrightarrow> \<exists>kv. Some kv \<in> set cs \<Longrightarrow> min_offset ops cs = t"
  using minCacheOffset_None [of ops cs "\<lambda>_. False"] minCacheOffset_Some [of ops cs]
  by (auto simp: min_offset_def layers_all_def split: option.splits)

context live_cache
begin

lemma min_offset_nonneg: "layers_all ok cs \<Longrightarrow> 0 \<le> min_offset ops cs"
  using minCacheOffset_Some [of ops cs] offset_nonneg
  by (auto simp: min_offset_def layers_all_def split: option.splits)

lemma rewind_ok:
  assumes "layers_all ok cs" "0 \<le> t"
  shows "layers_all (\<lambda>kv. ok kv \<and> co_Offset ops kv \<le> t) (rewind ops t cs)"
  unfolding rewind_def layers_all_map
proof (rule layers_all_mono [OF assms(1)])
  fix kv assume kv: "ok kv"
  obtain kv' b where r: "co_Restore ops kv None t = (kv', b)" by fastforce
  show "ok (let (kv', ok) = co_Restore ops kv None t in if ok then kv' else co_Free ops kv') \<and>
    co_Offset ops (let (kv', ok) = co_Restore ops kv None t in if ok then kv' else co_Free ops kv') \<le> t"
    using restore_True [OF kv] restore_False [OF kv] free_ok r assms(2) by (cases b) auto
qed

lemma page_in_node_ok:
  assumes "page_in_node ops t ss cs = (cs', b)" "layers_all (\<lambda>kv. ok kv \<and> co_Offset ops kv \<le> m) cs" "t \<le> m" "0 \<le> t"
  shows "layers_all (\<lambda>kv. ok kv \<and> co_Offset ops kv \<le> m) cs' \<and> length cs' = length cs"
  using assms
proof (induction cs arbitrary: ss cs' b)
  case (Cons kv cs)
  show ?case
  proof (cases ss)
    case Nil
    then show ?thesis using Cons.prems by simp
  next
    case ss: (Cons s ss')
    have rest: "layers_all (\<lambda>kv. ok kv \<and> co_Offset ops kv \<le> m) cs" using Cons.prems(2) by (cases kv) auto
    obtain cs2 b2 where p: "page_in_node ops t ss' cs = (cs2, b2)" by fastforce
    note IH = Cons.IH [OF p rest Cons.prems(3,4)]
    show ?thesis
    proof (cases "\<exists>kv' s'. kv = Some kv' \<and> s = Some s' \<and> \<not> co_Offset ops kv' \<ge> t")
      case False
      then have "page_in_node ops t ss (kv # cs) = (kv # cs2, b2)" using p by (auto simp: ss split: option.splits)
      then show ?thesis using IH Cons.prems(1,2) by (cases kv) auto
    next
      case True
      then obtain kv' s' where ks: "kv = Some kv'" "s = Some s'" "\<not> co_Offset ops kv' \<ge> t" by blast
      obtain kv'' c where r: "co_Restore ops kv' (Some s') t = (kv'', c)" by fastforce
      have kv': "ok kv'" "co_Offset ops kv' \<le> m" using Cons.prems(2) ks(1) by auto
      have kv'': "ok kv'' \<and> co_Offset ops kv'' \<le> m"
        using restore_True [OF kv'(1)] restore_False [OF kv'(1)] r kv'(2) Cons.prems(3,4) by (cases c) auto
      then show ?thesis using Cons.prems(1) ks r IH p rest by (cases c) (auto simp: ss)
    qed
  qed
qed simp

lemma page_in_ok:
  assumes "layers_all (\<lambda>kv. ok kv \<and> co_Offset ops kv \<le> int m) cs" "\<forall>n \<in> set path. 0 \<le> tn_endOffset (st_node h n)"
  shows "layers_all (\<lambda>kv. ok kv \<and> co_Offset ops kv \<le> int m) (page_in ops h (int m) path cs) \<and>
    length (page_in ops h (int m) path cs) = length cs"
  using assms
proof (induction path arbitrary: cs)
  case (Cons n path)
  obtain cs' b where p: "page_in_node ops (min (tn_endOffset (st_node h n)) (int m)) (tn_snapshots (st_node h n)) cs = (cs', b)"
    by fastforce
  from page_in_node_ok [OF p Cons.prems(1)] Cons.prems(2) have "layers_all (\<lambda>kv. ok kv \<and> co_Offset ops kv \<le> int m) cs'" "length cs' = length cs"
    by auto
  then show ?case using Cons.IH [of cs] Cons.IH [of cs'] Cons.prems p by (simp add: Let_def)
qed simp

text \<open>After the alignment every cache is at the same offset: the least one, or zero when one could not go there.\<close>

lemma align_loop_ok:
  assumes "layers_all (\<lambda>kv. ok kv \<and> co_Offset ops kv = t) done" "layers_all ok cs" "0 \<le> t"
  shows "length (align_loop ops t done cs) = length done + length cs \<and>
    (layers_all (\<lambda>kv. ok kv \<and> co_Offset ops kv = t) (align_loop ops t done cs) \<or>
     layers_all (\<lambda>kv. ok kv \<and> co_Offset ops kv = 0) (align_loop ops t done cs))"
  using assms
proof (induction cs arbitrary: "done")
  case (Cons x cs)
  show ?case
  proof (cases x)
    case None
    then show ?thesis using Cons.IH [of "done @ [None]"] Cons.prems by simp
  next
    case (Some kv)
    show ?thesis
    proof (cases "co_Offset ops kv = t")
      case True
      then show ?thesis using Cons.IH [of "done @ [Some kv]"] Cons.prems Some by simp
    next
      case False
      obtain kv' b where r: "co_Restore ops kv None t = (kv', b)" by fastforce
      have kv: "ok kv" using Cons.prems(2) Some by simp
      show ?thesis
      proof (cases b)
        case True
        then have "ok kv' \<and> co_Offset ops kv' = t" using restore_True [OF kv Cons.prems(3)] r by simp
        then show ?thesis using Cons.IH [of "done @ [Some kv']"] Cons.prems Some False r True by simp
      next
        case b: False
        then have "ok kv'" using restore_False [OF kv] r by simp
        moreover have "layers_all ok (done @ cs)" using Cons.prems by (auto simp: Some elim: layers_all_mono)
        ultimately have "layers_all (\<lambda>kv. ok kv \<and> co_Offset ops kv = 0) (freeAll ops (done @ Some kv' # cs))"
          unfolding freeAll_def layers_all_map using free_ok by (auto simp: layers_all_def)
        then show ?thesis using Some False r b by (simp add: freeAll_def)
      qed
    qed
  qed
qed simp

lemma prepare_all_ok:
  assumes "prepare_all ops offs cs = Some cs'" "layers_all ok cs"
  shows "layers_all ok cs' \<and> length cs' = length cs \<and> min_offset ops cs' = min_offset ops cs"
proof -
  have "layers_all ok cs' \<and> length cs' = length cs \<and> minCacheOffset ops cs' = minCacheOffset ops cs"
    using assms
  proof (induction cs arbitrary: cs')
    case (Cons kv cs)
    then show ?case
      by (cases kv) (auto simp: prepare_all_def split: option.splits dest: prepare_ok)
  qed (simp add: prepare_all_def)
  then show ?thesis by (simp add: min_offset_def)
qed

lemma take_all_ok:
  assumes "layers_all ok cs"
  shows "layers_all ok (map (map_option (\<lambda>kv. fst (co_TakeSnapshots ops kv))) cs) \<and>
    min_offset ops (map (map_option (\<lambda>kv. fst (co_TakeSnapshots ops kv))) cs) = min_offset ops cs"
proof -
  have "minCacheOffset ops (map (map_option (\<lambda>kv. fst (co_TakeSnapshots ops kv))) cs) = minCacheOffset ops cs"
    using assms
  proof (induction cs)
    case (Cons kv cs)
    then show ?case by (cases kv) (auto split: option.split dest: take_ok)
  qed simp
  moreover have "layers_all ok (map (map_option (\<lambda>kv. fst (co_TakeSnapshots ops kv))) cs)"
    using assms take_ok by (auto simp: layers_all_map elim!: layers_all_mono)
  ultimately show ?thesis by (simp add: min_offset_def)
qed

end

end
