(* ===== verification/PrefixCacheBegin.thy ===== *)
theory PrefixCacheBegin
  imports PrefixCacheSession LiveCache
begin

text \<open>
  The start of a session: the match, the switch to its path and the offsets of the live caches afterwards; and the
  states a prefix cache goes through, as a step relation whose reachable states satisfy the invariant.
\<close>

section \<open>Before the first session\<close>

definition pc_good :: "'d slots \<Rightarrow> ('c, 'd) prefixCache \<Rightarrow> bool" where
  "pc_good X c \<longleftrightarrow> pc_root c = None \<and> pc_activePath c = [] \<and> st_bytes (pc_store c) = 0 \<or> (\<exists>S. pc_inv X c S)"

lemma newPrefixCache_good: "pc_good X (newPrefixCache caches h)"
  by (simp add: pc_good_def newPrefixCache_def)

lemma pc_close_good: "pc_close ops c = Some c' \<Longrightarrow> pc_good X c'"
  by (auto simp: pc_close_def pc_good_def)

context kept_slots
begin

lemma ensureRoot_ok:
  assumes "pc_good X c"
  shows "(\<exists>S. pc_inv X (ensureRoot clock c) S) \<and> pc_caches (ensureRoot clock c) = pc_caches c \<and> path_keys (ensureRoot clock c) = path_keys c \<and>
    pc_draftLookahead (ensureRoot clock c) = pc_draftLookahead c \<and> pc_root (ensureRoot clock c) \<noteq> None"
proof (cases "pc_root c")
  case None
  define r where "r = st_next (pc_store c)"
  define h where "h = snd (new_node \<lparr>tn_tokens = [], tn_endOffset = 0, tn_parent = None, tn_children = [],
       tn_lastUsed = clock (pc_tick c), tn_snapshots = [], tn_user = False\<rparr> (pc_store c))"
  have e: "ensureRoot clock c = c\<lparr>pc_root := Some r, pc_store := h, pc_activePath := [r], pc_tick := Suc (pc_tick c)\<rparr>"
    using None by (simp add: ensureRoot_def r_def h_def new_node_def)
  have s: "shape_of h r = \<lparr>sh_tokens = [], sh_end = 0, sh_parent = None, sh_children = []\<rparr>" "st_next h = Suc r"
    "st_node h r = \<lparr>tn_tokens = [], tn_endOffset = 0, tn_parent = None, tn_children = [], tn_lastUsed = clock (pc_tick c),
      tn_snapshots = [], tn_user = False\<rparr>" "st_bytes h = st_bytes (pc_store c)"
    by (simp_all add: h_def r_def new_node_def shape_of_def)
  have "trie_wf h r {r}" using s by (simp add: trie_wf_def shape_wf_def children_ok_def)
  moreover have "st_bytes h = 0" using assms None s(4) by (auto simp: pc_good_def elim: pc_invE)
  then have "balanced (length (pc_caches c)) h {r}" using s by (simp add: balanced_def snapshotBytes_def)
  moreover have "X h r {r}" using s by (intro X_root) (simp_all add: shape_of_def)
  ultimately have "pc_inv X (ensureRoot clock c) {r}" by (simp add: e pc_inv_def)
  moreover have "path_keys c = []" using assms None by (auto simp: pc_good_def path_keys_def elim: pc_invE)
  ultimately show ?thesis using s(1) by (auto simp: e path_keys_def)
next
  case (Some r)
  then show ?thesis using assms by (auto simp: ensureRoot_def pc_good_def)
qed

end

section \<open>Switching\<close>

text \<open>The live caches before they are aligned.\<close>

definition paged_in :: "('c, 'd) cache_ops \<Rightarrow> nat list \<Rightarrow> int \<Rightarrow> ('c, 'd) prefixCache \<Rightarrow> 'c option list" where
  "paged_in ops newPath matched c =
     (let commonLen = common_len (pc_activePath c) newPath;
          ancestorOffset = (if commonLen > 0 then tn_endOffset (st_node (pc_store c) (pc_activePath c ! (commonLen - 1))) else 0)
      in page_in ops (pc_store c) matched newPath (rewind ops (min ancestorOffset matched) (pc_caches c)))"

lemma length_rewind [simp]: "length (rewind ops t cs) = length cs"
  by (simp add: rewind_def)

lemma length_freeAll [simp]: "length (freeAll ops cs) = length cs"
  by (simp add: freeAll_def)

lemma length_page_in_node: "length (fst (page_in_node ops t ss cs)) = length cs"
proof (induction cs arbitrary: ss)
  case (Cons kv cs)
  then show ?case
  proof (cases ss)
    case (Cons s ss')
    then show ?thesis using Cons.IH [of ss'] by (cases "page_in_node ops t ss' cs") (auto split: option.split prod.split)
  qed simp
qed simp

lemma length_page_in [simp]: "length (page_in ops h m path cs) = length cs"
proof (induction path arbitrary: cs)
  case (Cons n path)
  show ?case using length_page_in_node [of ops "min (tn_endOffset (st_node h n)) m" "tn_snapshots (st_node h n)" cs]
    by (auto simp: Let_def Cons split: prod.split)
qed simp

lemma length_align_loop [simp]: "length (align_loop ops t done cs) = length done + length cs"
proof (induction cs arbitrary: "done")
  case (Cons x cs)
  then show ?case by (cases x) (auto split: prod.split)
qed simp

lemma switchToPath_eq:
  "switchToPath ops clock newPath matched c =
     (let P = paged_in ops newPath matched c; m = min_offset ops P; C = align_loop ops m [] P
      in Option.bind (cut_path (the_layers ops C) m (rev newPath) (pc_store c)) (\<lambda>(path, h).
        enforceEvictionPolicy ops
          (if path \<noteq> [] then touch clock (last path) (c\<lparr>pc_caches := C, pc_activePath := path, pc_store := h\<rparr>)
           else c\<lparr>pc_caches := C, pc_activePath := path, pc_store := h\<rparr>)))"
  unfolding switchToPath_def paged_in_def Let_def by (rule refl)

context kept_slots
begin

lemma switchToPath_ok:
  assumes c: "pc_inv X c S" and p: "pc_root c = Some r" "chain (shape_of (pc_store c)) r ms"
    and off: "0 \<le> min_offset ops (paged_in ops (r # ms) matched c)"
  shows "\<exists>c' S'. switchToPath ops clock (r # ms) matched c = Some c' \<and> pc_inv X c' S' \<and>
    pc_root c' = pc_root c \<and> pc_draftLookahead c' = pc_draftLookahead c \<and>
    pc_caches c' = align_loop ops (min_offset ops (paged_in ops (r # ms) matched c)) [] (paged_in ops (r # ms) matched c) \<and>
    path_keys c' = take (nat (min_offset ops (paged_in ops (r # ms) matched c))) (spells (shape_of (pc_store c)) (r # ms))"
proof -
  define P where "P = paged_in ops (r # ms) matched c"
  define m where "m = min_offset ops P"
  define C where "C = align_loop ops m [] P"
  have lenP: "length P = length (pc_caches c)" by (simp add: P_def paged_in_def Let_def del: page_in.simps)
  then have len: "length C = length (pc_caches c)" by (simp add: C_def)
  let ?c1 = "c\<lparr>pc_caches := C\<rparr>"
  have c1: "pc_inv X ?c1 S" by (rule pc_inv_caches [OF c len])
  have c2: "pc_inv X (?c1\<lparr>pc_activePath := rev (rev (r # ms))\<rparr>) S"
    using c1 p by (auto simp: pc_inv_def)
  from cut_path_ok [OF c2, of m] off obtain q h S1 where
    cut: "cut_path (the_layers ops C) m (rev (r # ms)) (pc_store c) = Some (q, h)"
    "pc_inv X (?c1\<lparr>pc_store := h, pc_activePath := q\<rparr>) S1"
    "path_keys (?c1\<lparr>pc_store := h, pc_activePath := q\<rparr>) = take (nat m) (path_keys (?c1\<lparr>pc_activePath := r # ms\<rparr>))"
    by (auto simp: m_def P_def)
  define c3 where "c3 = touch clock (last q) (?c1\<lparr>pc_store := h, pc_activePath := q\<rparr>)"
  have q: "q \<noteq> []" using pc_inv_path_in [OF cut(2)] by simp
  have "path_keys (?c1\<lparr>pc_activePath := r # ms\<rparr>) = spells (shape_of (pc_store c)) (r # ms)"
    by (simp add: path_keys_def)
  then have k3: "path_keys c3 = take (nat m) (spells (shape_of (pc_store c)) (r # ms))"
    unfolding c3_def path_keys_touch using cut(3) by (simp only:)
  have c3: "pc_inv X c3 S1"
    "pc_root c3 = pc_root c" "pc_draftLookahead c3 = pc_draftLookahead c" "pc_caches c3 = C"
    unfolding c3_def by (rule pc_inv_touch [OF cut(2)]) (simp_all add: touch_def)
  have eq: "c\<lparr>pc_caches := C, pc_activePath := q, pc_store := h\<rparr> = ?c1\<lparr>pc_store := h, pc_activePath := q\<rparr>" by simp
  have "switchToPath ops clock (r # ms) matched c = enforceEvictionPolicy ops c3"
    unfolding switchToPath_eq Let_def P_def [symmetric] m_def [symmetric] C_def [symmetric] cut(1) bind.simps prod.case
    using q by (simp add: c3_def eq)
  then show ?thesis using enforceEvictionPolicy_ok [OF c3(1)] k3 c3(2-4)
    by (auto simp: P_def m_def C_def)
qed

end

section \<open>The match\<close>

lemma findBestMatch_ok:
  assumes "shape_wf (shape_of h) r S"
  obtains ms m where "findBestMatch h (Some r) ks = (r # ms, m)" "chain (shape_of h) r ms" "m \<le> length ks"
    "take m ks = take m (spells (shape_of h) ms)"
proof -
  obtain ms m where m: "match_below h r ks = (ms, m)" by fastforce
  then show thesis using that [of ms m] match_below_reads [OF m] match_below_spells [OF m]
    by (simp add: findBestMatch_def)
qed

lemma pair_keys_length: "length (pair_keys ts) = length ts - 1"
  by (induction ts rule: pair_keys.induct) auto

lemma pc_key_length: "pc_key la ts = Some ks \<Longrightarrow> length ks = length ts - la"
  by (auto simp: pc_key_def pair_keys_length split: if_splits)

lemma effectiveKeyTokens_length: "effectiveKeyTokens ts items = Some eff \<Longrightarrow> length eff = length ts"
  by (induction items arbitrary: ts) (auto simp: fold_item_def bind_eq_Some_conv split: if_splits)

lemma insideAtomicItem_Some: "insideAtomicItem items off = Some i \<Longrightarrow> mi_pos i < off"
  by (auto simp: insideAtomicItem_def find_Some_iff)

text \<open>The path and the number of matched keys \<open>beginAt\<close> settles on.\<close>

definition begin_match :: "mediaItem list \<Rightarrow> nat \<Rightarrow> 'd store \<Rightarrow> nat option \<Rightarrow> trieKey list \<Rightarrow> nat list \<times> nat" where
  "begin_match items maxReuse h root keys =
     (let (matchPath, matched) = findBestMatch h root keys;
          (matchPath, matched) =
            (if matched > maxReuse then findBestMatch h root (take maxReuse keys) else (matchPath, matched))
      in case insideAtomicItem items (int matched) of
           None \<Rightarrow> (matchPath, matched)
         | Some item \<Rightarrow> findBestMatch h root (take (nat (mi_pos item)) keys))"

definition open_session ::
  "('c, 'd) cache_ops \<Rightarrow> 32 word list \<Rightarrow> 32 word list \<Rightarrow> mediaItem list \<Rightarrow> nat \<Rightarrow> ('c, 'd) prefixCache \<Rightarrow>
     (cacheSession \<times> ('c, 'd) prefixCache) option" where
  "open_session ops inputs eff items matched c =
     (let prefix = min_offset ops (pc_caches c) in
      if prefix < 0 \<or> nat prefix > length inputs then None
      else Some (\<lparr>cs_inputs = inputs, cs_effInputs = eff, cs_items = items, cs_outputs = [],
        cs_remaining = drop (nat prefix) inputs,
        cs_pendingSnapshots = (if prefix < int matched then [\<lparr>ps_offset = int matched, ps_user = False\<rparr>] else [])\<rparr>, c))"

lemma beginAt_eq:
  "beginAt ops clock inputs items maxReuse c =
     Option.bind (effectiveKeyTokens inputs items) (\<lambda>eff.
       Option.bind (pc_key (pc_draftLookahead (ensureRoot clock c)) eff) (\<lambda>keys.
         case begin_match items maxReuse (pc_store (ensureRoot clock c)) (pc_root (ensureRoot clock c)) keys of
           (matchPath, matched) \<Rightarrow>
             Option.bind (switchToPath ops clock matchPath (int matched) (ensureRoot clock c))
               (open_session ops inputs eff items matched)))"
  unfolding beginAt_def begin_match_def open_session_def Let_def case_prod_beta by (rule refl)

lemma begin_match_ok:
  assumes wf: "shape_wf (shape_of h) r S"
  obtains ms m where "begin_match items maxReuse h (Some r) ks = (r # ms, m)" "chain (shape_of h) r ms"
    "m \<le> length ks" "m \<le> maxReuse" "take m ks = take m (spells (shape_of h) (r # ms))"
proof -
  have root: "spells (shape_of h) (r # ms) = spells (shape_of h) ms" for ms using wf by (simp add: shape_wf_def)
  obtain a i where a: "findBestMatch h (Some r) ks = (r # a, i)" "chain (shape_of h) r a" "i \<le> length ks"
    "take i ks = take i (spells (shape_of h) a)" by (rule findBestMatch_ok [OF wf])
  define q where "q = (if i > maxReuse then findBestMatch h (Some r) (take maxReuse ks) else (r # a, i))"
  have cut: "\<exists>b j. findBestMatch h (Some r) (take n ks) = (r # b, j) \<and> chain (shape_of h) r b \<and> j \<le> length ks \<and> j \<le> n \<and>
      take j ks = take j (spells (shape_of h) b)" for n
  proof -
    obtain b j where b: "findBestMatch h (Some r) (take n ks) = (r # b, j)" "chain (shape_of h) r b" "j \<le> length (take n ks)"
      "take j (take n ks) = take j (spells (shape_of h) b)" by (rule findBestMatch_ok [OF wf])
    then show ?thesis by (intro exI [of _ b] exI [of _ j]) (auto simp: min_def split: if_splits)
  qed
  obtain b j where b: "q = (r # b, j)" "chain (shape_of h) r b" "j \<le> length ks" "j \<le> maxReuse"
    "take j ks = take j (spells (shape_of h) b)"
    using a cut [of maxReuse] by (cases "i > maxReuse") (auto simp: q_def)
  show thesis
  proof (cases "insideAtomicItem items (int j)")
    case None
    then have "begin_match items maxReuse h (Some r) ks = (r # b, j)"
      using a(1) b(1) by (simp add: begin_match_def q_def [symmetric])
    then show thesis using that b(2-5) root by simp
  next
    case (Some item)
    from cut [of "nat (mi_pos item)"] obtain d k where d: "findBestMatch h (Some r) (take (nat (mi_pos item)) ks) = (r # d, k)"
      "chain (shape_of h) r d" "k \<le> length ks" "k \<le> nat (mi_pos item)" "take k ks = take k (spells (shape_of h) d)" by blast
    have "begin_match items maxReuse h (Some r) ks = (r # d, k)"
      using a(1) b(1) Some d(1) by (simp add: begin_match_def q_def [symmetric])
    moreover have "k \<le> maxReuse" using d(4) b(4) insideAtomicItem_Some [OF Some] by linarith
    ultimately show thesis using that d root by simp
  qed
qed

context live_cache
begin

lemma paged_in_ok:
  assumes "layers_all ok (pc_caches c)" "\<And>n. n \<in> set (pc_activePath c) \<Longrightarrow> 0 \<le> tn_endOffset (st_node (pc_store c) n)"
    and "\<forall>n \<in> set path. 0 \<le> tn_endOffset (st_node (pc_store c) n)"
  shows "layers_all (\<lambda>kv. ok kv \<and> co_Offset ops kv \<le> int m) (paged_in ops path (int m) c)"
proof -
  define n where "n = common_len (pc_activePath c) path"
  define anc where "anc = (if n > 0 then tn_endOffset (st_node (pc_store c) (pc_activePath c ! (n - 1))) else 0)"
  have "n \<le> length (pc_activePath c)" using common_len_le [of "pc_activePath c" path] by (simp add: n_def)
  then have "0 \<le> anc" using assms(2) by (auto simp: anc_def)
  then have "layers_all (\<lambda>kv. ok kv \<and> co_Offset ops kv \<le> min anc (int m)) (rewind ops (min anc (int m)) (pc_caches c))"
    by (intro rewind_ok assms(1)) simp
  then have "layers_all (\<lambda>kv. ok kv \<and> co_Offset ops kv \<le> int m) (rewind ops (min anc (int m)) (pc_caches c))"
    by (rule layers_all_mono) simp
  from page_in_ok [OF this assms(3)] show ?thesis
    unfolding paged_in_def Let_def n_def [symmetric] anc_def [symmetric] by simp
qed

lemma min_offset_le: "layers_all (\<lambda>kv. co_Offset ops kv \<le> int m) cs \<Longrightarrow> min_offset ops cs \<le> int m"
  using minCacheOffset_Some [of ops cs] by (auto simp: min_offset_def layers_all_def split: option.splits)

end

locale live_slots = live_cache ops ok + kept_slots ops X
  for ops :: "('c, 'd) cache_ops" and ok :: "'c \<Rightarrow> bool" and X :: "'d slots"

sublocale live_cache \<subseteq> plain: live_slots ops ok no_slots ..

lemma live_cache_plain: "live_cache ops ok \<Longrightarrow> live_slots ops ok no_slots"
  by (simp add: live_slots_def no_slots.kept_slots_axioms)

context live_slots
begin

text \<open>A session begins for every request whose media items lie in the prompt: the path to the match, the live caches
  paged in along it and aligned.\<close>

lemma beginAt_parts:
  assumes c: "pc_good X c" "layers_all ok (pc_caches c)"
    and keys: "effectiveKeyTokens inputs items = Some eff" "pc_key (pc_draftLookahead c) eff = Some ks"
  obtains s c' S S' r ms m P off where "beginAt ops clock inputs items maxReuse c = Some (s, c')" "pc_inv X c' S'"
    "pc_inv X (ensureRoot clock c) S" "pc_root (ensureRoot clock c) = Some r"
    "chain (shape_of (pc_store (ensureRoot clock c))) r ms" "m \<le> length ks" "m \<le> maxReuse"
    "take m ks = take m (spells (shape_of (pc_store (ensureRoot clock c))) (r # ms))"
    "P = paged_in ops (r # ms) (int m) (ensureRoot clock c)" "off = min_offset ops P" "0 \<le> off" "off \<le> int m"
    "layers_all (\<lambda>kv. ok kv \<and> co_Offset ops kv \<le> int m) P"
    "pc_caches c' = align_loop ops off [] P" "path_keys c' = take (nat off) ks"
    "layers_all (\<lambda>kv. ok kv \<and> co_Offset ops kv = min_offset ops (pc_caches c')) (pc_caches c')"
    "0 \<le> min_offset ops (pc_caches c')" "min_offset ops (pc_caches c') \<le> off"
    "pc_draftLookahead c' = pc_draftLookahead c" "length (pc_caches c') = length (pc_caches c)"
    "cs_remaining s = drop (nat (min_offset ops (pc_caches c'))) inputs" "cs_inputs s = inputs" "storedKeys c' s = Some ks"
    "cs_pendingSnapshots s = (if min_offset ops (pc_caches c') < int m then [\<lparr>ps_offset = int m, ps_user = False\<rparr>] else [])"
proof -
  define c0 where "c0 = ensureRoot clock c"
  from ensureRoot_ok [OF c(1), of clock] obtain S r where c0: "pc_inv X c0 S" "pc_caches c0 = pc_caches c"
    "pc_draftLookahead c0 = pc_draftLookahead c" "pc_root c0 = Some r" by (auto simp: c0_def)
  have wf: "shape_wf (shape_of (pc_store c0)) r S" and path: "set (pc_activePath c0) \<subseteq> S"
    using c0(1,4) by (auto elim!: pc_invE)
  obtain ms m where bm: "begin_match items maxReuse (pc_store c0) (Some r) ks = (r # ms, m)" "chain (shape_of (pc_store c0)) r ms"
    "m \<le> length ks" "m \<le> maxReuse" "take m ks = take m (spells (shape_of (pc_store c0)) (r # ms))"
    by (rule begin_match_ok [OF wf])
  define P where "P = paged_in ops (r # ms) (int m) c0"
  define off where "off = min_offset ops P"
  have ends: "0 \<le> tn_endOffset (st_node (pc_store c0) n)" if "n \<in> set (r # cs)" "chain (shape_of (pc_store c0)) r cs" for n cs
  proof -
    have r: "r \<in> S" "sh_end (shape_of (pc_store c0) r) = 0" using wf by (simp_all add: shape_wf_def)
    then show ?thesis using chain_later [OF wf r(1) that(2), of n] that(1) by (fastforce simp: shape_of_sel)
  qed
  obtain cs where cs: "pc_activePath c0 = r # cs" "chain (shape_of (pc_store c0)) r cs"
    using c0(1,4) by (auto elim!: pc_invE)
  have P: "layers_all (\<lambda>kv. ok kv \<and> co_Offset ops kv \<le> int m) P"
    unfolding P_def using c(2) c0(2) ends [OF _ cs(2)] ends [OF _ bm(2)] by (intro paged_in_ok) (auto simp: cs(1))
  then have okP: "layers_all ok P" "layers_all (\<lambda>kv. co_Offset ops kv \<le> int m) P" by (auto elim: layers_all_mono)
  have off: "0 \<le> off" "off \<le> int m" using min_offset_nonneg [OF okP(1)] min_offset_le [OF okP(2)] by (simp_all add: off_def)
  from switchToPath_ok [OF c0(1,4) bm(2), of "int m" clock] off(1) obtain c' S' where
    c': "switchToPath ops clock (r # ms) (int m) c0 = Some c'" "pc_inv X c' S'" "pc_root c' = pc_root c0"
    "pc_draftLookahead c' = pc_draftLookahead c0" "pc_caches c' = align_loop ops off [] P"
    "path_keys c' = take (nat off) (spells (shape_of (pc_store c0)) (r # ms))" by (auto simp: off_def P_def)
  have al: "layers_all (\<lambda>kv. ok kv \<and> co_Offset ops kv = off) (pc_caches c') \<or>
      layers_all (\<lambda>kv. ok kv \<and> co_Offset ops kv = 0) (pc_caches c')"
    using align_loop_ok [of off "[]" P] okP(1) off(1) by (simp add: c'(5))
  have lenC: "length (pc_caches c') = length (pc_caches c)" using c0(2) by (simp add: c'(5) P_def paged_in_def Let_def del: page_in.simps)
  define pre where "pre = min_offset ops (pc_caches c')"
  have pre: "layers_all (\<lambda>kv. ok kv \<and> co_Offset ops kv = pre) (pc_caches c') \<and> 0 \<le> pre \<and> pre \<le> off"
  proof (cases "\<exists>kv. Some kv \<in> set (pc_caches c')")
    case False
    then have "minCacheOffset ops (pc_caches c') = None" using minCacheOffset_Some [of ops "pc_caches c'"]
      by (cases "minCacheOffset ops (pc_caches c')") auto
    then show ?thesis using False off(1) by (auto simp: pre_def min_offset_def layers_all_def)
  next
    case True
    from al show ?thesis
    proof
      assume a: "layers_all (\<lambda>kv. ok kv \<and> co_Offset ops kv = off) (pc_caches c')"
      then have "layers_all (\<lambda>kv. co_Offset ops kv = off) (pc_caches c')" by (rule layers_all_mono) simp
      from min_offset_eq [OF this True] a off(1) show ?thesis by (simp add: pre_def)
    next
      assume a: "layers_all (\<lambda>kv. ok kv \<and> co_Offset ops kv = 0) (pc_caches c')"
      then have "layers_all (\<lambda>kv. co_Offset ops kv = 0) (pc_caches c')" by (rule layers_all_mono) simp
      from min_offset_eq [OF this True] a off(1) show ?thesis by (simp add: pre_def)
    qed
  qed
  have "nat off \<le> m" using off(2) by simp
  then have keys': "path_keys c' = take (nat off) ks"
    unfolding c'(6) using bm(5) by (metis take_take min.absorb1)
  have "length ks \<le> length inputs"
    using pc_key_length [OF keys(2)] effectiveKeyTokens_length [OF keys(1)] by simp
  then have lin: "\<not> (pre < 0 \<or> nat pre > length inputs)" using pre \<open>nat off \<le> m\<close> bm(3) by auto
  define s where "s = \<lparr>cs_inputs = inputs, cs_effInputs = eff, cs_items = items, cs_outputs = [], cs_remaining = drop (nat pre) inputs,
    cs_pendingSnapshots = (if pre < int m then [\<lparr>ps_offset = int m, ps_user = False\<rparr>] else [])\<rparr>"
  have b: "beginAt ops clock inputs items maxReuse c = Some (s, c')"
    using keys lin by (simp add: beginAt_eq c0_def [symmetric] c0(3,4) bm(1) c'(1) open_session_def pre_def [symmetric] s_def)
  have st: "storedKeys c' s = Some ks" using keys(2) c'(4) c0(3) by (simp add: storedKeys_def s_def)
  have preA: "min_offset ops (align_loop ops off [] P) = pre" using c'(5) by (simp add: pre_def)
  show thesis
    by (rule that [of s c' S' S r ms m P off])
      (use b st c0(1,4) c'(2,4,5) bm(2-5) P off pre keys' lenC in
        \<open>simp_all add: preA c0_def [symmetric] c0(3) off_def [symmetric] P_def [symmetric] pre_def [symmetric] s_def\<close>)
qed

lemma beginAt_ok:
  assumes c: "pc_good X c" "layers_all ok (pc_caches c)"
    and keys: "effectiveKeyTokens inputs items = Some eff" "pc_key (pc_draftLookahead c) eff = Some ks"
  shows "\<exists>s c' S' k. beginAt ops clock inputs items maxReuse c = Some (s, c') \<and> pc_inv X c' S' \<and>
    layers_all (\<lambda>kv. ok kv \<and> co_Offset ops kv = min_offset ops (pc_caches c')) (pc_caches c') \<and>
    path_keys c' = take k ks \<and> 0 \<le> min_offset ops (pc_caches c') \<and> min_offset ops (pc_caches c') \<le> int k \<and>
    k \<le> length ks \<and> k \<le> maxReuse \<and> pc_draftLookahead c' = pc_draftLookahead c \<and> length (pc_caches c') = length (pc_caches c) \<and>
    cs_remaining s = drop (nat (min_offset ops (pc_caches c'))) inputs \<and> cs_inputs s = inputs \<and> storedKeys c' s = Some ks"
proof -
  obtain s c' S' m off where "beginAt ops clock inputs items maxReuse c = Some (s, c')" "pc_inv X c' S'"
    "m \<le> length ks" "m \<le> maxReuse" "0 \<le> off" "off \<le> int m" "path_keys c' = take (nat off) ks"
    "layers_all (\<lambda>kv. ok kv \<and> co_Offset ops kv = min_offset ops (pc_caches c')) (pc_caches c')"
    "0 \<le> min_offset ops (pc_caches c')" "min_offset ops (pc_caches c') \<le> off"
    "pc_draftLookahead c' = pc_draftLookahead c" "length (pc_caches c') = length (pc_caches c)"
    "cs_remaining s = drop (nat (min_offset ops (pc_caches c'))) inputs" "cs_inputs s = inputs" "storedKeys c' s = Some ks"
    by (rule beginAt_parts [OF c keys]) blast
  moreover from this have "nat off \<le> m" by simp
  ultimately show ?thesis by (intro exI [of _ s] exI [of _ c'] exI [of _ S'] exI [of _ "nat off"]) simp
qed

end

end
