(* ===== verification/PrefixCacheSteps.thy ===== *)
theory PrefixCacheSteps
  imports PrefixCacheBegin
begin

text \<open>
  The life of a prefix cache as a step relation: requests begin, schedule and drain captures, run forward passes and
  close, lazy snapshots of the trie materialise meanwhile.  A forward pass leaves live caches about which only the
  contract is known, and the generated tokens.  \<open>reach_inv\<close> is the invariant of the reachable states.
\<close>

datatype phase = Idle | Begun cacheSession | Running cacheSession

fun session_of :: "phase \<Rightarrow> cacheSession option" where
  "session_of Idle = None"
| "session_of (Begun s) = Some s"
| "session_of (Running s) = Some s"

type_synonym ('c, 'd) pc_state = "('c, 'd) prefixCache \<times> phase"

text \<open>What is known of the live caches at the start, of a forward pass, and of the caches when a session is closed.\<close>

record ('c, 'd) runner =
  rn_start :: "'c option list \<Rightarrow> bool"
  rn_pass :: "('c, 'd) prefixCache \<Rightarrow> cacheSession \<Rightarrow> 'c option list \<Rightarrow> 32 word list \<Rightarrow> bool"
  rn_rest :: "'c option list \<Rightarrow> bool"

inductive pc_step :: "('c, 'd) cache_ops \<Rightarrow> ('c, 'd) runner \<Rightarrow> (nat \<Rightarrow> int) \<Rightarrow> ('c, 'd) pc_state \<Rightarrow> ('c, 'd) pc_state \<Rightarrow> bool"
  for ops R clock where
  begin_step: "beginAt ops clock inputs items maxReuse c = Some (s, c') \<Longrightarrow> pc_step ops R clock (c, Idle) (c', Begun s)"
| schedule_step: "schedulePrefillSnapshots ops offsets s c = Some (s', c') \<Longrightarrow>
    pc_step ops R clock (c, Begun s) (c', Running s')"
| forward_step: "rn_pass R c s caches toks \<Longrightarrow>
    pc_step ops R clock (c, Running s) (c\<lparr>pc_caches := caches\<rparr>, Running (s\<lparr>cs_outputs := cs_outputs s @ toks\<rparr>))"
| materialize_step: "walkNodes (pc_store c) (pc_root c) = Some ns \<Longrightarrow> n \<in> set ns \<Longrightarrow>
    pc_step ops R clock (c, ph) (c\<lparr>pc_store := materialize n i delta (pc_store c)\<rparr>, ph)"
| attach_step: "attachPrefillSnapshots ops clock s c = Some (s', c') \<Longrightarrow> pc_step ops R clock (c, Running s) (c', Running s')"
| close_step: "session_of ph = Some s \<Longrightarrow> rn_rest R (pc_caches c) \<Longrightarrow> session_close ops clock s c = Some (s', c') \<Longrightarrow>
    pc_step ops R clock (c, ph) (c', Idle)"
| shutdown_step: "pc_close ops c = Some c' \<Longrightarrow> pc_step ops R clock (c, Idle) (c', Idle)"

inductive pc_reach :: "('c, 'd) cache_ops \<Rightarrow> ('c, 'd) runner \<Rightarrow> (nat \<Rightarrow> int) \<Rightarrow> ('c, 'd) pc_state \<Rightarrow> bool"
  for ops R clock where
  reach_init: "rn_start R caches \<Longrightarrow> pc_reach ops R clock (newPrefixCache caches h, Idle)"
| reach_step: "pc_reach ops R clock st \<Longrightarrow> pc_step ops R clock st st' \<Longrightarrow> pc_reach ops R clock st'"

text \<open>A runner of which only the contract of the live caches is known.\<close>

definition any_runner :: "('c \<Rightarrow> bool) \<Rightarrow> ('c, 'd) runner" where
  "any_runner ok = \<lparr>rn_start = layers_all ok,
     rn_pass = (\<lambda>c s caches toks. length caches = length (pc_caches c) \<and> layers_all ok caches), rn_rest = (\<lambda>_. True)\<rparr>"

section \<open>The invariant of the states\<close>

definition state_ok :: "('c \<Rightarrow> bool) \<Rightarrow> ('c, 'd) pc_state \<Rightarrow> bool" where
  "state_ok ok = (\<lambda>(c, ph). pc_good no_slots c \<and> layers_all ok (pc_caches c) \<and>
     (case session_of ph of None \<Rightarrow> True
      | Some s \<Rightarrow> (\<exists>S. pc_inv no_slots c S) \<and> (\<exists>ks. storedKeys c s = Some ks \<and> spelled c ks)))"

lemma pair_keys_append: "\<exists>zs. pair_keys (xs @ ys) = pair_keys xs @ zs"
proof (induction xs)
  case (Cons x xs)
  then show ?case by (cases xs; cases ys) auto
qed simp

lemma pc_key_append: "pc_key la xs = Some ks \<Longrightarrow> \<exists>zs. pc_key la (xs @ ys) = Some (ks @ zs)"
  using pair_keys_append [of xs ys] by (auto simp: pc_key_def split: if_splits)

lemma storedKeys_outputs:
  "storedKeys c s = Some ks \<Longrightarrow> \<exists>zs. storedKeys (c\<lparr>pc_caches := C\<rparr>) (s\<lparr>cs_outputs := cs_outputs s @ toks\<rparr>) = Some (ks @ zs)"
  using pc_key_append [of "pc_draftLookahead c" "cs_effInputs s @ cs_outputs s" ks toks] by (simp add: storedKeys_def)

lemma shape_of_materialize [simp]: "shape_of (materialize n i d h) = shape_of h" "st_next (materialize n i d h) = st_next h"
proof -
  show "shape_of (materialize n i d h) = shape_of h"
    by (auto simp: materialize_def Let_def shape_of_set_node split: option.split) (auto simp: shape_of_def)
  show "st_next (materialize n i d h) = st_next h"
    by (simp add: materialize_def Let_def split: option.split)
qed

lemma data_materialize: "map (map_option ss_data) (tn_snapshots (st_node (materialize n i d h) m)) =
    map (map_option ss_data) (tn_snapshots (st_node h m))"
  by (auto simp: materialize_def Let_def set_node_def map_update list_update_same_conv split: option.split)

context kept_slots
begin

lemma pc_inv_materialize:
  "pc_inv X c S \<Longrightarrow> n \<in> S \<Longrightarrow> pc_inv X (c\<lparr>pc_store := materialize n i d (pc_store c)\<rparr>) S"
  by (rule pc_inv_store) (auto elim!: pc_invE intro: balanced_materialize X_same simp: data_materialize)

lemma walkNodes_in: "pc_inv X c S \<Longrightarrow> walkNodes (pc_store c) (pc_root c) = Some ns \<Longrightarrow> set ns = S"
  using walkNodes_all by (fastforce elim!: pc_invE)

lemma materialize_good:
  assumes "pc_good X c" "walkNodes (pc_store c) (pc_root c) = Some ns" "n \<in> set ns"
  shows "pc_good X (c\<lparr>pc_store := materialize n i d (pc_store c)\<rparr>)"
proof (cases "pc_root c")
  case None
  then show ?thesis using assms(2,3) by (simp add: walkNodes_def)
next
  case (Some r)
  then obtain S where S: "pc_inv X c S" using assms(1) by (auto simp: pc_good_def)
  then have "n \<in> S" using walkNodes_in [OF S assms(2)] assms(3) by simp
  from pc_inv_materialize [OF S this] show ?thesis by (auto simp: pc_good_def)
qed

end

context live_cache
begin

lemma schedule_ok:
  assumes "schedulePrefillSnapshots ops offsets s c = Some (s', c')" "layers_all ok (pc_caches c)"
  shows "\<exists>p. s' = s\<lparr>cs_pendingSnapshots := p\<rparr> \<and> (\<exists>C. c' = c\<lparr>pc_caches := C\<rparr> \<and> layers_all ok C \<and> length C = length (pc_caches c))"
proof (cases "sort_key ps_offset (fold (schedule_one (min_offset ops (pc_caches c)) (int (pc_draftLookahead c))
    (int (length (cs_inputs s))) (cs_items s)) offsets (cs_pendingSnapshots s)) = []")
  case True
  have "c = c\<lparr>pc_caches := pc_caches c\<rparr>" by simp
  moreover have "s' = s\<lparr>cs_pendingSnapshots := []\<rparr>" "c' = c" using True assms(1) by (simp_all add: schedulePrefillSnapshots_def Let_def)
  ultimately show ?thesis using assms(2) by metis
next
  case False
  then show ?thesis using assms prepare_all_ok [OF _ assms(2)]
    by (auto simp: schedulePrefillSnapshots_def Let_def)
qed

lemma drained_ok: "layers_all ok (pc_caches c) \<Longrightarrow> layers_all ok (drained ops s c)"
  using take_all_ok [of "pc_caches c"] by (simp add: drained_def)

lemma pc_close_ok:
  assumes "pc_close ops c = Some c'" "layers_all ok (pc_caches c)"
  shows "layers_all ok (pc_caches c')"
proof -
  have "layers_all (\<lambda>kv. ok (co_Free ops kv)) (pc_caches c)"
    using assms(2) by (rule layers_all_mono) (simp add: free_ok)
  then have "layers_all ok (freeAll ops (pc_caches c))" by (simp add: freeAll_def layers_all_map)
  then show ?thesis using assms(1) by (auto simp: pc_close_def)
qed

lemma beginAt_Some:
  assumes "pc_good no_slots c" "layers_all ok (pc_caches c)" "beginAt ops clock inputs items maxReuse c = Some (s, c')"
  shows "\<exists>S' k ks. pc_inv no_slots c' S' \<and> layers_all ok (pc_caches c') \<and> storedKeys c' s = Some ks \<and> path_keys c' = take k ks"
proof -
  obtain eff ks where k: "effectiveKeyTokens inputs items = Some eff" "pc_key (pc_draftLookahead (ensureRoot clock c)) eff = Some ks"
    using assms(3) by (auto simp: beginAt_eq bind_eq_Some_conv)
  then have "pc_key (pc_draftLookahead c) eff = Some ks" using plain.ensureRoot_ok [OF assms(1), of clock] by simp
  from plain.beginAt_ok [OF assms(1,2) k(1) this, of clock maxReuse] assms(3) show ?thesis
    by (auto elim!: layers_all_mono)
qed

lemma state_ok_step:
  assumes "pc_step ops (any_runner ok) clock st st'" "state_ok ok st"
  shows "state_ok ok st'"
  using assms
proof (induction rule: pc_step.induct)
  case (begin_step inputs items maxReuse c s c')
  then have "pc_good no_slots c" "layers_all ok (pc_caches c)" by (simp_all add: state_ok_def)
  from beginAt_Some [OF this begin_step(1)] show ?case
    by (auto simp: state_ok_def pc_good_def intro: spelledI)
next
  case (schedule_step offs s c s' c')
  then have "layers_all ok (pc_caches c)" by (simp add: state_ok_def)
  from schedule_ok [OF schedule_step(1) this] obtain p C where
    e: "s' = s\<lparr>cs_pendingSnapshots := p\<rparr>" "c' = c\<lparr>pc_caches := C\<rparr>" "layers_all ok C" "length C = length (pc_caches c)" by blast
  from schedule_step(2) obtain S ks where S: "pc_inv no_slots c S" "storedKeys c s = Some ks" "spelled c ks" by (auto simp: state_ok_def)
  have "pc_inv no_slots c' S" using pc_inv_caches [OF S(1) e(4)] by (simp add: e(2))
  moreover have "storedKeys c' s' = Some ks" using S(2) by (simp add: e storedKeys_def)
  moreover have "spelled c' ks" using S(3) by (simp add: e(2) spelled_def path_keys_def)
  ultimately show ?case using e(2,3) by (auto simp: state_ok_def pc_good_def)
next
  case (forward_step c s caches toks)
  then obtain S ks where S: "pc_inv no_slots c S" "storedKeys c s = Some ks" "spelled c ks"
    and C: "length caches = length (pc_caches c)" "layers_all ok caches" by (auto simp: state_ok_def any_runner_def)
  have "pc_inv no_slots (c\<lparr>pc_caches := caches\<rparr>) S" by (rule pc_inv_caches [OF S(1) C(1)])
  moreover obtain zs where "storedKeys (c\<lparr>pc_caches := caches\<rparr>) (s\<lparr>cs_outputs := cs_outputs s @ toks\<rparr>) = Some (ks @ zs)"
    using storedKeys_outputs [OF S(2)] by blast
  moreover have "spelled (c\<lparr>pc_caches := caches\<rparr>) (ks @ zs)"
    using spelled_append [OF S(3), of zs] by (simp add: spelled_def path_keys_def)
  ultimately show ?case using C(2) by (auto simp: state_ok_def pc_good_def)
next
  case (materialize_step c ns n ph i d)
  show ?case
  proof (cases "session_of ph")
    case None
    then show ?thesis using materialize_step plain.materialize_good by (auto simp: state_ok_def)
  next
    case (Some s)
    then obtain S ks where S: "pc_inv no_slots c S" "storedKeys c s = Some ks" "spelled c ks"
      using materialize_step(3) by (auto simp: state_ok_def)
    have "n \<in> S" using plain.walkNodes_in [OF S(1) materialize_step(1)] materialize_step(2) by simp
    from plain.pc_inv_materialize [OF S(1) this, of i d] show ?thesis
      using S materialize_step(3) Some by (auto simp: state_ok_def pc_good_def spelled_def path_keys_def storedKeys_def)
  qed
next
  case (attach_step s c s' c')
  then obtain S ks where S: "pc_inv no_slots c S" "storedKeys c s = Some ks" "spelled c ks" "layers_all ok (pc_caches c)"
    by (auto simp: state_ok_def)
  from plain.attachPrefillSnapshots_ok [OF S(1-3), where B = "\<lambda>_ _. True" and clock = clock] attach_step(1)
    drained_ok [OF S(4), of s] S(2) show ?case
    by (auto simp: state_ok_def pc_good_def storedKeys_def rows_fit_no_slots)
next
  case (close_step ph s c s' c')
  then obtain S ks where S: "pc_inv no_slots c S" "storedKeys c s = Some ks" "spelled c ks" "layers_all ok (pc_caches c)"
    by (auto simp: state_ok_def)
  from plain.session_close_ok [OF S(1-3), where B = "\<lambda>_ _. True" and clock = clock] close_step(3)
    drained_ok [OF S(4), of s] show ?case
    by (auto simp: state_ok_def pc_good_def rows_fit_no_slots page_fits_no_slots)
next
  case (shutdown_step c c')
  then show ?case using pc_close_good [OF shutdown_step(1)] pc_close_ok [OF shutdown_step(1)] by (auto simp: state_ok_def)
qed

lemma reach_inv: "pc_reach ops (any_runner ok) clock st \<Longrightarrow> state_ok ok st"
proof (induction rule: pc_reach.induct)
  case (reach_init caches h)
  then show ?case by (simp add: state_ok_def newPrefixCache_good any_runner_def) (simp add: newPrefixCache_def)
qed (rule state_ok_step)

end

end
