(* ===== verification/SnapshotContent.thy ===== *)
theory SnapshotContent
  imports PrefixCacheSteps
begin

text \<open>
  What the snapshots of a trie hold.  \<open>leads\<close> relates a node to the keys on the way to it; \<open>slots_ok\<close> says that every
  snapshot holds the state of its layer for the keys of its edge, where \<open>covers i k ks d\<close> is what that means for the
  data \<open>d\<close> of a snapshot of layer \<open>i\<close> from key \<open>k\<close> to the end of \<open>ks\<close>.  The locale \<open>slot_laws\<close> states that \<open>Split\<close> and
  \<open>Merge\<close> do what the interface \<open>cache.Cache\<close> says; then every operation on the trie keeps \<open>slots_ok\<close>.
\<close>

section \<open>The keys that lead to a node\<close>

inductive leads :: "(nat \<Rightarrow> shape) \<Rightarrow> nat \<Rightarrow> nat \<Rightarrow> trieKey list \<Rightarrow> bool" for g r where
  leads_root: "leads g r r []"
| leads_child: "leads g r n ks \<Longrightarrow> c \<in> set (sh_children (g n)) \<Longrightarrow> leads g r c (ks @ sh_tokens (g c))"

lemma leads_in: "leads g r n ks \<Longrightarrow> shape_wf g r S \<Longrightarrow> n \<in> S"
proof (induction rule: leads.induct)
  case leads_root
  then show ?case by (simp add: shape_wf_def)
next
  case (leads_child n ks c)
  then show ?case using shape_wf_childD [of g r S n c] by simp
qed

lemma leads_end:
  assumes "leads g r n ks" "shape_wf g r S"
  shows "sh_end (g n) = int (length ks) \<and> length (sh_tokens (g n)) \<le> length ks"
  using assms
proof (induction rule: leads.induct)
  case leads_root
  then show ?case by (simp add: shape_wf_def)
next
  case (leads_child n ks c)
  then show ?case using shape_wf_childD [OF leads_child.prems leads_in [OF leads_child.hyps(1) leads_child.prems] leads_child.hyps(2)]
    by simp
qed

lemma leads_chain: "leads g r n ks \<Longrightarrow> chain g n cs \<Longrightarrow> leads g r (last (n # cs)) (ks @ spells g cs)"
proof (induction cs arbitrary: n ks)
  case (Cons c cs)
  have "leads g r c (ks @ sh_tokens (g c))" using Cons.prems by (intro leads_child) auto
  from Cons.IH [OF this] Cons.prems show ?case by simp
qed simp

lemma leads_unique:
  assumes "leads g r n ks" "leads g r n ks'" "shape_wf g r S"
  shows "ks = ks'"
  using assms
proof (induction arbitrary: ks' rule: leads.induct)
  case leads_root
  from leads_root.prems(1) show ?case
  proof (cases rule: leads.cases)
    case (leads_child m ms)
    have "m \<in> S" using leads_in [OF leads_child(2) leads_root.prems(2)] .
    from shape_wf_childD [OF leads_root.prems(2) this leads_child(3)] leads_root.prems(2) show ?thesis
      by (simp add: shape_wf_def)
  qed simp
next
  case (leads_child n ks c)
  note S = leads_in [OF leads_child.hyps(1) leads_child.prems(2)]
  note c = shape_wf_childD [OF leads_child.prems(2) S leads_child.hyps(2)]
  from leads_child.prems(1) show ?case
  proof (cases rule: leads.cases)
    case leads_root
    then show ?thesis using c leads_child.prems(2) by (simp add: shape_wf_def)
  next
    case (leads_child m ms)
    have "m \<in> S" using leads_in [OF leads_child(2) leads_child.prems(2)] .
    then have "m = n" using shape_wf_childD [OF leads_child.prems(2) _ leads_child(3)] c by simp
    then show ?thesis using leads_child.IH leads_child(1,2) leads_child.prems(2) by blast
  qed
qed

text \<open>How the operations on the trie change the keys on the way to a node.\<close>

lemma leads_append:
  assumes "leads (shape_append n c toks e g) r m ks" "n \<noteq> c" "r \<noteq> c" "shape_wf g r S" "c \<notin> S"
  shows "m = c \<or> leads g r m ks"
  using assms(1)
proof (induction rule: leads.induct)
  case leads_root
  show ?case by (simp add: leads.leads_root)
next
  case (leads_child m ks d)
  have "m \<noteq> c" using leads_child.hyps(2) assms(2) by (auto simp: shape_append_def)
  then have m: "leads g r m ks" using leads_child.IH by simp
  then have "m \<in> S" using leads_in assms(4) by blast
  show ?case
  proof (cases "d = c")
    case False
    then have "d \<in> set (sh_children (g m))" "sh_tokens (shape_append n c toks e g d) = sh_tokens (g d)"
      using leads_child.hyps(2) \<open>m \<noteq> c\<close> by (auto simp: shape_append_def split: if_splits)
    then show ?thesis using leads.leads_child [OF m] by simp
  qed simp
qed

lemma leads_remove:
  assumes "leads (shape_remove n p g) r m ks" "shape_wf g r S" "n \<in> S" "n \<noteq> r" "sh_parent (g n) = Some p"
  shows "m \<noteq> n \<and> leads g r m ks"
  using assms(1)
proof (induction rule: leads.induct)
  case leads_root
  show ?case using assms(4) leads.leads_root by metis
next
  case (leads_child m ks d)
  then have m: "m \<noteq> n" "leads g r m ks" by auto
  then have mS: "m \<in> S" using leads_in assms(2) by blast
  have d: "d \<in> set (sh_children (g m))" "d \<noteq> n"
  proof -
    show "d \<in> set (sh_children (g m))"
      using leads_child.hyps(2) m(1) by (auto simp: shape_remove_def dest: subsetD [OF set_remove1_subset] split: if_splits)
    show "d \<noteq> n"
    proof
      assume dn: "d = n"
      then have "p = m" using shape_wf_childD [OF assms(2) mS \<open>d \<in> set (sh_children (g m))\<close>] assms(5) by simp
      moreover have "distinct (sh_children (g m))" using assms(2) mS by (simp add: shape_wf_def children_ok_def)
      ultimately show False using leads_child.hyps(2) m(1) dn by (simp add: shape_remove_def)
    qed
  qed
  then show ?case using leads.leads_child [OF m(2) d(1)] by (auto simp: shape_remove_def)
qed

lemma leads_split:
  assumes "leads (shape_split n f p k g) r m ks" "shape_wf g r S" "n \<in> S" "n \<noteq> r" "f \<notin> S" "sh_parent (g n) = Some p" "p \<noteq> n"
  shows "if m = f then \<exists>ls. leads g r n (ls @ sh_tokens (g n)) \<and> ks = ls @ take k (sh_tokens (g n)) else leads g r m ks"
  using assms(1)
proof (induction rule: leads.induct)
  case leads_root
  have "r \<noteq> f" using assms(2,5) by (auto simp: shape_wf_def)
  then show ?case by (simp add: leads.leads_root)
next
  case (leads_child m ks d)
  have pS: "p \<in> S" "n \<in> set (sh_children (g p))" using shape_wf_parentD [OF assms(2-4)] assms(6) by auto
  then have pf: "p \<noteq> f" "n \<noteq> f" using assms(3,5) by auto
  have tok: "sh_tokens (shape_split n f p k g x) = (if x = f then take k (sh_tokens (g n)) else
      if x = n then drop k (sh_tokens (g n)) else sh_tokens (g x))" for x
    using pf assms(7) by (auto simp: shape_split_def)
  show ?case
  proof (cases "m = f")
    case True
    then have "d = n" using leads_child.hyps(2) pf by (simp add: shape_split_def)
    then show ?thesis using leads_child.IH True pf tok by auto
  next
    case False
    then have m: "leads g r m ks" using leads_child.IH by simp
    then have mS: "m \<in> S" using leads_in assms(2) by blast
    show ?thesis
    proof (cases "m = p")
      case mp: True
      then have d: "d \<in> set (replace1 n f (sh_children (g p)))"
        using leads_child.hyps(2) pf assms(7) by (simp add: shape_split_def)
      have dis: "distinct (sh_children (g p))" using assms(2) pS(1) by (simp add: shape_wf_def children_ok_def)
      have d: "d = f \<or> d \<in> set (sh_children (g p)) - {n}" using d set_replace1 [OF dis pS(2)] by auto
      show ?thesis
      proof (cases "d = f")
        case True
        then show ?thesis using leads.leads_child [OF m, of n] mp pS(2) tok by auto
      next
        case False
        then show ?thesis using leads.leads_child [OF m, of d] mp d tok by auto
      qed
    next
      case mp: False
      then have d: "d \<in> set (sh_children (g m))" using leads_child.hyps(2) False by (auto simp: shape_split_def split: if_splits)
      then have "d \<in> S" "sh_parent (g d) = Some m" using shape_wf_childD [OF assms(2) mS d] by auto
      then have "d \<noteq> f" "d \<noteq> n" using assms(5,6) mp by auto
      then show ?thesis using leads.leads_child [OF m d] tok by auto
    qed
  qed
qed

lemma leads_merge:
  assumes "leads (shape_merge n c g) r m ks" "shape_wf g r S" "n \<in> S" "n \<noteq> r" "sh_children (g n) = [c]"
  shows "m \<noteq> c \<and> (if m = n then leads g r c ks else leads g r m ks)"
  using assms(1)
proof (induction rule: leads.induct)
  have c: "c \<in> S" "sh_parent (g c) = Some n" "c \<noteq> r" using shape_wf_childD [OF assms(2,3), of c] assms(5) by auto
  have nc: "c \<noteq> n" using shape_wf_neq [OF assms(2,3), of c] assms(5) by simp
  {
    case leads_root
    show ?case using c(3) assms(4) by (simp add: leads.leads_root)
  next
    case (leads_child m ks d)
    then have m: "m \<noteq> c" "if m = n then leads g r c ks else leads g r m ks" by auto
    show ?case
    proof (cases "m = n")
      case True
      then have d: "d \<in> set (sh_children (g c))" using leads_child.hyps(2) nc by (simp add: shape_merge_def)
      have "d \<noteq> c" "d \<noteq> n"
        using shape_wf_neq [OF assms(2) c(1) d] shape_wf_child_later [OF assms(2) c(1) d]
          shape_wf_child_later [OF assms(2,3), of c] assms(5) by auto
      then show ?thesis using leads.leads_child [of g r c ks d] m True d by (simp add: shape_merge_def)
    next
      case False
      then have lm: "leads g r m ks" using m by simp
      then have mS: "m \<in> S" using leads_in assms(2) by blast
      have d: "d \<in> set (sh_children (g m))" using leads_child.hyps(2) m(1) False by (auto simp: shape_merge_def split: if_splits)
      note dS = shape_wf_childD [OF assms(2) mS d]
      then have dc: "d \<noteq> c" using c(2) False by auto
      show ?thesis
      proof (cases "d = n")
        case True
        then have "leads g r n (ks @ sh_tokens (g n))" using leads.leads_child [OF lm d] by simp
        from leads.leads_child [OF this, of c] assms(5) show ?thesis using True nc by (simp add: shape_merge_def)
      next
        case dn: False
        then show ?thesis using leads.leads_child [OF lm d] dc by (simp add: shape_merge_def)
      qed
    qed
  }
qed

section \<open>The snapshots after an operation\<close>

definition slot :: "'d store \<Rightarrow> nat \<Rightarrow> nat \<Rightarrow> 'd option" where
  "slot h n i = map_option ss_data (layer_at (tn_snapshots (st_node h n)) i)"

lemma slot_set_hooks: "map_option ss_data (layer_at (set_hooks b ss) i) = map_option ss_data (layer_at ss i)"
  by (auto simp: layer_at_def set_hooks_def option.map_comp comp_def)

lemma slot_swap: "slot (snd (swapSnapshots n ss True h)) m i = (if m = n then map_option ss_data (layer_at ss i) else slot h m i)"
  by (simp add: slot_def swap_fields slot_set_hooks)

lemma layer_at_Nil [simp]: "layer_at [] i = None"
  by (simp add: layer_at_def)

lemma slot_cong: "tn_snapshots (st_node h' m) = tn_snapshots (st_node h m) \<Longrightarrow> slot h' m i = slot h m i"
  by (simp add: slot_def)

lemma slot_append:
  assumes "appendChild n toks e h = (d, h')" "n \<noteq> st_next h"
  shows "slot h' m i = (if m = d then None else slot h m i)"
  using assms by (auto simp: appendChild_def new_node_def Let_def slot_def set_node_def)

lemma slot_links:
  "slot (set_node n ((st_node h n)\<lparr>tn_parent := p\<rparr>) h) m i = slot h m i"
  "slot (set_node n ((st_node h n)\<lparr>tn_children := cs\<rparr>) h) m i = slot h m i"
  by (simp_all add: slot_def set_node_def)

lemma slot_remove:
  assumes "removeNode n h = Some h'" "m \<noteq> n"
  shows "slot h' m i = slot h m i"
  using assms
  by (auto simp: removeNode_def Let_def setSnapshots_def slot_swap slot_links split: option.splits if_splits)

lemma split_layers_Some:
  assumes "split_layers caches at old = Some (a, b)" "layer_at a i = Some x \<or> layer_at b i = Some x"
  shows "\<exists>s l. layer_at old i = Some s \<and> i < length caches \<and> caches ! i = Some l \<and>
    layer_at a i = fst (lo_Split l s at) \<and> layer_at b i = snd (lo_Split l s at)"
proof -
  have len: "length a = length old" "length b = length old" and out: "\<forall>j \<in> {0..<length old}. old ! j = None \<or> j < length caches"
    using assms(1) by (auto simp: split_layers_def Let_def list_ex_iff not_le split: if_splits)
  have i: "i < length old" using assms(2) len by (auto simp: layer_at_def split: if_splits)
  have "a ! i = fst (case old ! i of None \<Rightarrow> (None, None) | Some snap \<Rightarrow> (case caches ! i of None \<Rightarrow> (None, None) | Some c \<Rightarrow> lo_Split c snap at))"
    "b ! i = snd (case old ! i of None \<Rightarrow> (None, None) | Some snap \<Rightarrow> (case caches ! i of None \<Rightarrow> (None, None) | Some c \<Rightarrow> lo_Split c snap at))"
    using assms(1) i by (auto simp: split_layers_def Let_def split: if_splits)
  then show ?thesis using assms(2) i len bspec [OF out, of i]
    by (auto simp: layer_at_def split: option.splits)
qed

lemma slot_split:
  assumes "splitNode n at (the_layers ops caches) h = Some (f, h')" "n \<noteq> st_next h"
  shows "m \<noteq> n \<Longrightarrow> m \<noteq> f \<Longrightarrow> slot h' m i = slot h m i"
    and "slot h' n i = Some x \<Longrightarrow> (\<exists>s kv a b. Some (ss_data s) = slot h n i \<and> co_Split ops kv s (tn_endOffset (st_node h' f)) = (a, Some b) \<and> x = ss_data b)"
    and "slot h' f i = Some x \<Longrightarrow>
      (\<exists>s kv a b. Some (ss_data s) = slot h n i \<and> co_Split ops kv s (tn_endOffset (st_node h' f)) = (Some a, b) \<and> x = ss_data a)"
proof -
  obtain h1 h2 where h: "split_edge n at h = (f, h1)" "split_snapshots n f (the_layers ops caches) h1 = Some h2" "h' = split_relink n f h2"
    using assms(1) by (auto simp: splitNode_def split: if_splits prod.splits)
  have f: "f = st_next h" using h(1) by (auto simp: split_edge_def Let_def new_node_def)
  have s1: "slot h1 m i = (if m = f then None else slot h m i)" for m
    using h(1) assms(2) by (auto simp: split_edge_def Let_def new_node_def slot_def set_node_def)
  have t1: "tn_snapshots (st_node h1 n) = tn_snapshots (st_node h n)"
    using h(1) assms(2) by (auto simp: split_edge_def Let_def new_node_def set_node_def)
  have s3: "slot h' m i = slot h2 m i" for m
    by (auto simp: h(3) split_relink_def Let_def slot_def set_node_def split: option.split)
  define E where "E = tn_endOffset (st_node h1 f)"
  have e: "tn_endOffset (st_node h' f) = E"
  proof -
    have "shape_of h2 = shape_of h1" using split_snapshots_shape [OF h(2)] by simp
    then have "tn_endOffset (st_node h2 f) = E" by (simp add: shape_of_sel E_def)
    then show ?thesis by (auto simp: h(3) split_relink_def Let_def set_node_def split: option.split)
  qed
  have nf: "n \<noteq> f" using assms(2) f by simp
  have "(m \<noteq> n \<longrightarrow> m \<noteq> f \<longrightarrow> slot h2 m i = slot h m i) \<and>
    (\<forall>x. slot h2 n i = Some x \<longrightarrow> (\<exists>s kv a b. Some (ss_data s) = slot h n i \<and> co_Split ops kv s E = (a, Some b) \<and> x = ss_data b)) \<and>
    (\<forall>x. slot h2 f i = Some x \<longrightarrow>
      (\<exists>s kv a b. Some (ss_data s) = slot h n i \<and> co_Split ops kv s E = (Some a, b) \<and> x = ss_data a))"
  proof (cases "hasSnapshots (st_node h1 n)")
    case False
    then have "h2 = h1" using h(2) by (simp add: split_snapshots_def)
    moreover have "slot h n i = None" for i
      using False by (auto simp: hasSnapshots_def t1 slot_def layer_at_def list_ex_iff)
    ultimately show ?thesis using s1 nf by simp
  next
    case True
    let ?old = "set_hooks False (tn_snapshots (st_node h1 n))"
    have "tn_endOffset (st_node (snd (swapSnapshots n [] True h1)) f) = E"
      by (simp add: E_def swap_fields)
    then obtain A B where ab: "split_layers (the_layers ops caches) E ?old = Some (A, B)"
      "h2 = setSnapshots n B True (setSnapshots f A True (snd (swapSnapshots n [] True h1)))"
      using h(2) True by (auto simp: split_snapshots_def case_prod_beta Let_def)
    have old: "map_option ss_data (layer_at ?old i) = slot h n i" by (simp add: slot_set_hooks slot_def t1)
    have sl: "slot h2 x i = (if x = n then map_option ss_data (layer_at B i) else if x = f then map_option ss_data (layer_at A i)
        else slot h1 x i)" for x
      by (simp add: ab(2) setSnapshots_def slot_swap)
    have "\<exists>s kv. Some (ss_data s) = slot h n i \<and> layer_at A i = fst (co_Split ops kv s E) \<and> layer_at B i = snd (co_Split ops kv s E)"
      if "layer_at A i = Some y \<or> layer_at B i = Some y" for y
    proof -
      from split_layers_Some [OF ab(1) that] obtain s l where sl: "layer_at ?old i = Some s" "i < length caches"
        "the_layers ops caches ! i = Some l" "layer_at A i = fst (lo_Split l s E)" "layer_at B i = snd (lo_Split l s E)" by auto
      then obtain kv where "lo_Split l = co_Split ops kv" by (auto simp: the_layers_def)
      then show ?thesis using sl old by (auto intro!: exI [of _ s] exI [of _ kv])
    qed
    then show ?thesis using sl s1 nf
      by auto (metis prod.collapse)+
  qed
  then show "m \<noteq> n \<Longrightarrow> m \<noteq> f \<Longrightarrow> slot h' m i = slot h m i"
    and "slot h' n i = Some x \<Longrightarrow> (\<exists>s kv a b. Some (ss_data s) = slot h n i \<and> co_Split ops kv s (tn_endOffset (st_node h' f)) = (a, Some b) \<and> x = ss_data b)"
    and "slot h' f i = Some x \<Longrightarrow>
      (\<exists>s kv a b. Some (ss_data s) = slot h n i \<and> co_Split ops kv s (tn_endOffset (st_node h' f)) = (Some a, b) \<and> x = ss_data a)"
    by (auto simp: s3 e)
qed

lemma merge_layers_Some:
  assumes "merge_layers caches a b = Some ss" "layer_at ss i = Some y"
  shows "\<exists>l. i < length caches \<and> caches ! i = Some l \<and> lo_Merge l (layer_at a i) (layer_at b i) = Some y"
proof -
  define f where "f i = (case caches ! i of None \<Rightarrow> None
      | Some c \<Rightarrow> lo_Merge c (if a \<noteq> [] then a ! i else None) (if b \<noteq> [] then b ! i else None))" for i
  have ss: "ss = map f [0..<length caches]" and out: "\<forall>i \<in> {0..<length caches}. caches ! i = None \<or>
      \<not> (a \<noteq> [] \<and> i \<ge> length a \<or> b \<noteq> [] \<and> i \<ge> length b)"
    using assms(1) unfolding merge_layers_def f_def [symmetric] by (auto simp: list_ex_iff split: if_splits)
  have i: "i < length caches" "f i = Some y" using assms(2) by (auto simp: ss layer_at_def split: if_splits)
  then obtain l where l: "caches ! i = Some l" "lo_Merge l (if a \<noteq> [] then a ! i else None) (if b \<noteq> [] then b ! i else None) = Some y"
    by (auto simp: f_def split: option.splits)
  moreover have "(if a \<noteq> [] then a ! i else None) = layer_at a i" "(if b \<noteq> [] then b ! i else None) = layer_at b i"
    using bspec [OF out, of i] i(1) l(1) by (auto simp: layer_at_def)
  ultimately show ?thesis using i(1) by simp
qed

lemma snapshots_adopt: "tn_snapshots (st_node (merge_adopt n c h) m) = tn_snapshots (st_node h m)"
  by (auto simp: merge_adopt_def Let_def snapshots_set_node snapshots_parents)

lemma slot_merge:
  assumes "mergeWithChild n (the_layers ops caches) h = Some h'" "sh_children (shape_of h n) = [c]" "c \<noteq> n"
  shows "m \<noteq> n \<Longrightarrow> m \<noteq> c \<Longrightarrow> slot h' m i = slot h m i"
    and "slot h' n i = Some x \<Longrightarrow> \<exists>kv a b s. map_option ss_data a = slot h n i \<and> map_option ss_data b = slot h c i \<and>
      co_Merge ops kv a b = Some s \<and> x = ss_data s"
proof -
  obtain h2 where h: "merge_snapshots n c (the_layers ops caches) (merge_edge n c h) = Some h2" "h' = merge_adopt n c h2"
    using assms(1,2) by (auto simp: mergeWithChild_def shape_of_sel)
  have t1: "tn_snapshots (st_node (merge_edge n c h) m) = tn_snapshots (st_node h m)" for m
    by (simp add: merge_edge_def Let_def set_node_def)
  have s3: "slot h' m i = slot h2 m i" for m by (simp add: h(2) slot_def snapshots_adopt)
  have "(m \<noteq> n \<longrightarrow> m \<noteq> c \<longrightarrow> slot h2 m i = slot h m i) \<and>
    (\<forall>x. slot h2 n i = Some x \<longrightarrow> (\<exists>kv a b s. map_option ss_data a = slot h n i \<and> map_option ss_data b = slot h c i \<and>
      co_Merge ops kv a b = Some s \<and> x = ss_data s))"
  proof (cases "tn_snapshots (st_node h n) \<noteq> [] \<or> tn_snapshots (st_node h c) \<noteq> []")
    case False
    then have "h2 = merge_edge n c h" using h(1) by (simp add: merge_snapshots_def t1)
    then show ?thesis using False by (simp add: slot_def t1)
  next
    case True
    let ?a = "set_hooks False (tn_snapshots (st_node h n))" and ?b = "set_hooks False (tn_snapshots (st_node h c))"
    obtain M where M: "merge_layers (the_layers ops caches) ?a ?b = Some M"
      "h2 = setSnapshots n M True (snd (swapSnapshots c [] True (snd (swapSnapshots n [] True (merge_edge n c h)))))"
      using h(1) True assms(3) by (auto simp: merge_snapshots_def t1 case_prod_beta Let_def swap_fields)
    have len: "length M = length caches" using merge_layers_length [OF M(1)] by simp
    have "\<exists>kv a b. map_option ss_data a = slot h n i \<and> map_option ss_data b = slot h c i \<and> co_Merge ops kv a b = Some y"
      if y: "layer_at M i = Some y" for y
    proof -
      from merge_layers_Some [OF M(1) y] obtain l where l: "i < length caches" "the_layers ops caches ! i = Some l"
        "lo_Merge l (layer_at ?a i) (layer_at ?b i) = Some y" by auto
      then obtain kv where "lo_Merge l = co_Merge ops kv" by (auto simp: the_layers_def)
      then have "co_Merge ops kv (layer_at ?a i) (layer_at ?b i) = Some y" using l(3) by simp
      moreover have "map_option ss_data (layer_at ?a i) = slot h n i" "map_option ss_data (layer_at ?b i) = slot h c i"
        by (simp_all add: slot_def slot_set_hooks)
      ultimately show ?thesis by blast
    qed
    moreover have "slot h2 x i = (if x = n then map_option ss_data (layer_at M i) else if x = c then None else slot h x i)" for x
      by (simp add: M(2) setSnapshots_def slot_swap) (simp add: slot_def t1)
    ultimately show ?thesis using assms(3) by (auto; blast)
  qed
  then show "m \<noteq> n \<Longrightarrow> m \<noteq> c \<Longrightarrow> slot h' m i = slot h m i"
    and "slot h' n i = Some x \<Longrightarrow> \<exists>kv a b s. map_option ss_data a = slot h n i \<and> map_option ss_data b = slot h c i \<and>
      co_Merge ops kv a b = Some s \<and> x = ss_data s"
    by (auto simp: s3)
qed

section \<open>Snapshots that hold what they should\<close>

definition slots_ok :: "(nat \<Rightarrow> nat \<Rightarrow> trieKey list \<Rightarrow> 'd \<Rightarrow> bool) \<Rightarrow> 'd slots" where
  "slots_ok covers h r S \<longleftrightarrow> (\<forall>n ks i d. leads (shape_of h) r n ks \<longrightarrow> slot h n i = Some d \<longrightarrow>
     covers i (length ks - length (sh_tokens (shape_of h n))) ks d)"

locale slot_laws =
  fixes ops :: "('c, 'd) cache_ops" and covers :: "nat \<Rightarrow> nat \<Rightarrow> trieKey list \<Rightarrow> 'd \<Rightarrow> bool"
  assumes split_parent: "covers i k ks (ss_data s) \<Longrightarrow> k < a \<Longrightarrow> a < length ks \<Longrightarrow> co_Split ops kv s (int a) = (Some p, qq) \<Longrightarrow>
      covers i k (take a ks) (ss_data p)"
    and split_child: "covers i k ks (ss_data s) \<Longrightarrow> k \<le> a \<Longrightarrow> a < length ks \<Longrightarrow> co_Split ops kv s (int a) = (pp, Some q) \<Longrightarrow>
      covers i a ks (ss_data q)"
    and merge_covers: "(\<And>p. pp = Some p \<Longrightarrow> covers i k (take m ks) (ss_data p)) \<Longrightarrow> (\<And>q. qq = Some q \<Longrightarrow> covers i m ks (ss_data q)) \<Longrightarrow>
      k \<le> m \<Longrightarrow> m < length ks \<Longrightarrow> co_Merge ops kv pp qq = Some s \<Longrightarrow> covers i k ks (ss_data s)"

lemma slots_okD: "slots_ok covers h r S \<Longrightarrow> leads (shape_of h) r n ks \<Longrightarrow> slot h n i = Some d \<Longrightarrow>
    covers i (length ks - length (sh_tokens (shape_of h n))) ks d"
  by (simp add: slots_ok_def)

sublocale slot_laws \<subseteq> kept_slots ops "slots_ok covers"
proof
  fix h :: "'d store" and r
  assume e: "tn_children (st_node h r) = []" "tn_snapshots (st_node h r) = []"
  have "n = r" if "leads (shape_of h) r n ks" for n ks
    using that by induction (use e in \<open>auto simp: shape_of_def\<close>)
  then show "slots_ok covers h r {r}" using e unfolding slots_ok_def slot_def by (metis layer_at_Nil option.distinct(1) option.simps(8))
next
  fix h h' :: "'d store" and r S
  assume a: "slots_ok covers h r S" "shape_of h' = shape_of h"
    "\<And>m. map (map_option ss_data) (tn_snapshots (st_node h' m)) = map (map_option ss_data) (tn_snapshots (st_node h m))"
  have "slot h' m i = slot h m i" for m i
    using arg_cong [OF a(3) [of m], of length] arg_cong [OF a(3) [of m], of "\<lambda>xs. xs ! i"] by (auto simp: slot_def layer_at_def)
  then show "slots_ok covers h' r S" using a(1,2) by (simp add: slots_ok_def)
next
  fix h h' :: "'d store" and r S n toks e d
  assume a: "trie_wf h r S" "slots_ok covers h r S" "n \<in> S" "appendChild n toks e h = (d, h')" "trie_wf h' r (insert d S)"
  have n: "n \<noteq> st_next h" "r \<noteq> st_next h" "st_next h \<notin> S" using a(1,3) by (auto simp: trie_wf_def shape_wf_def)
  note sh = appendChild_shape [OF a(4) n(1)]
  show "slots_ok covers h' r (insert d S)"
    unfolding slots_ok_def
  proof (intro allI impI)
    fix m ks i x assume m: "leads (shape_of h') r m ks" "slot h' m i = Some x"
    then have "m \<noteq> d" "slot h m i = Some x" using slot_append [OF a(4) n(1), of m i] by (auto split: if_splits)
    moreover from this have "leads (shape_of h) r m ks"
      using leads_append [of n d toks e "shape_of h" r m ks S] m(1) sh n a(1) by (simp add: trie_wf_def)
    moreover from calculation have "sh_tokens (shape_of h' m) = sh_tokens (shape_of h m)"
      using sh by (auto simp: shape_append_def)
    ultimately show "covers i (length ks - length (sh_tokens (shape_of h' m))) ks x" using slots_okD [OF a(2)] by simp
  qed
next
  fix h h' :: "'d store" and r S n
  assume a: "trie_wf h r S" "slots_ok covers h r S" "n \<in> S" "n \<noteq> r" "removeNode n h = Some h'"
  from trie_wf_remove [OF a(1,5,3,4)] obtain p where p: "sh_parent (shape_of h n) = Some p" "shape_of h' = shape_remove n p (shape_of h)"
    by blast
  have wf: "shape_wf (shape_of h) r S" using a(1) by (simp add: trie_wf_def)
  show "slots_ok covers h' r (S - {n})"
    unfolding slots_ok_def
  proof (intro allI impI)
    fix m ks i x assume m: "leads (shape_of h') r m ks" "slot h' m i = Some x"
    from leads_remove [OF m(1) [unfolded p(2)] wf a(3,4) p(1)] have l: "m \<noteq> n" "leads (shape_of h) r m ks" by auto
    then have "slot h m i = Some x" using slot_remove [OF a(5) l(1)] m(2) by simp
    moreover have "sh_tokens (shape_of h' m) = sh_tokens (shape_of h m)" using p(2) by (auto simp: shape_remove_def)
    ultimately show "covers i (length ks - length (sh_tokens (shape_of h' m))) ks x" using slots_okD [OF a(2) l(2)] by simp
  qed
next
  fix h h' :: "'d store" and r S n at and caches :: "'c option list" and f
  assume a: "trie_wf h r S" "slots_ok covers h r S" "n \<in> S" "n \<noteq> r"
    "splitNode n at (the_layers ops caches) h = Some (f, h')"
  have wf: "shape_wf (shape_of h) r S" and n: "n \<noteq> st_next h" using a(1,3) by (auto simp: trie_wf_def)
  from trie_wf_split [OF a(1,5,3,4)] obtain p where p: "sh_parent (shape_of h n) = Some p" "p \<noteq> n" "f \<notin> S" "0 < nat at"
    "nat at < length (sh_tokens (shape_of h n))" "shape_of h' = shape_split n f p (nat at) (shape_of h)" "p \<in> S"
    by blast
  have nf: "n \<noteq> f" "p \<noteq> f" using a(3) p(3,7) by auto
  have tok: "sh_tokens (shape_of h' m) = (if m = f then take (nat at) (sh_tokens (shape_of h n))
      else if m = n then drop (nat at) (sh_tokens (shape_of h n)) else sh_tokens (shape_of h m))" for m
    using nf p(2) by (auto simp: p(6) shape_split_def)
  have fe: "tn_endOffset (st_node h' f) = sh_end (shape_of h n) - int (length (sh_tokens (shape_of h n))) + int (nat at)"
    using nf by (simp add: shape_of_sel p(6) shape_split_def)
  show "slots_ok covers h' r (insert f S)"
    unfolding slots_ok_def
  proof (intro allI impI)
    fix m ks i x assume m: "leads (shape_of h') r m ks" "slot h' m i = Some x"
    note l = leads_split [OF m(1) [unfolded p(6)] wf a(3,4) p(3,1,2)]
    show "covers i (length ks - length (sh_tokens (shape_of h' m))) ks x"
    proof (cases "m = f")
      case True
      then obtain ls where ls: "leads (shape_of h) r n (ls @ sh_tokens (shape_of h n))" "ks = ls @ take (nat at) (sh_tokens (shape_of h n))"
        using l by auto
      have e: "tn_endOffset (st_node h' f) = int (length ls + nat at)" using leads_end [OF ls(1) wf] fe by simp
      obtain s kv a' b where s: "Some (ss_data s) = slot h n i" "co_Split ops kv s (int (length ls + nat at)) = (Some a', b)" "x = ss_data a'"
        using slot_split(3) [OF a(5) n, of i x] m(2) True e by auto
      have "covers i (length ls) (ls @ sh_tokens (shape_of h n)) (ss_data s)" using slots_okD [OF a(2) ls(1) s(1) [symmetric]] by simp
      from split_parent [OF this _ _ s(2)] p(4,5) have "covers i (length ls) ks x" by (simp add: ls(2) s(3))
      then show ?thesis using True p(5) tok by (simp add: ls(2))
    next
      case mf: False
      then have lm: "leads (shape_of h) r m ks" using l by simp
      show ?thesis
      proof (cases "m = n")
        case True
        define ls where "ls = take (length ks - length (sh_tokens (shape_of h n))) ks"
        have le: "sh_end (shape_of h n) = int (length ks)" "length (sh_tokens (shape_of h n)) \<le> length ks"
          using leads_end [OF lm wf] True by auto
        have e: "tn_endOffset (st_node h' f) = int (length ks - length (sh_tokens (shape_of h n)) + nat at)" using le fe by simp
        obtain s kv a' b where s: "Some (ss_data s) = slot h n i"
          "co_Split ops kv s (int (length ks - length (sh_tokens (shape_of h n)) + nat at)) = (a', Some b)" "x = ss_data b"
          using slot_split(2) [OF a(5) n, of i x] m(2) True e by auto
        have "covers i (length ks - length (sh_tokens (shape_of h n))) ks (ss_data s)"
          using slots_okD [OF a(2) lm] s(1) True by simp
        from split_child [OF this _ _ s(2)] p(4,5) le(2) have
          "covers i (length ks - length (sh_tokens (shape_of h n)) + nat at) ks x" by (simp add: s(3))
        moreover have "length ks - length (sh_tokens (shape_of h' m)) = length ks - length (sh_tokens (shape_of h n)) + nat at"
          using p(5) le(2) True nf tok by simp
        ultimately show ?thesis by simp
      next
        case False
        then have "slot h m i = Some x" using slot_split(1) [OF a(5) n False mf] m(2) by simp
        then show ?thesis using slots_okD [OF a(2) lm] False mf tok by simp
      qed
    qed
  qed
next
  fix h h' :: "'d store" and r S n and caches :: "'c option list" and c
  assume a: "trie_wf h r S" "slots_ok covers h r S" "n \<in> S" "n \<noteq> r" "sh_children (shape_of h n) = [c]"
    "mergeWithChild n (the_layers ops caches) h = Some h'"
  have wf: "shape_wf (shape_of h) r S" using a(1) by (simp add: trie_wf_def)
  from trie_wf_merge [OF a(1,6,3,4)] a(5) have c: "c \<in> S" "c \<noteq> n" "shape_of h' = shape_merge n c (shape_of h)" by auto
  show "slots_ok covers h' r (S - {c})"
    unfolding slots_ok_def
  proof (intro allI impI)
    fix m ks i x assume m: "leads (shape_of h') r m ks" "slot h' m i = Some x"
    note l = leads_merge [OF m(1) [unfolded c(3)] wf a(3-5)]
    show "covers i (length ks - length (sh_tokens (shape_of h' m))) ks x"
    proof (cases "m = n")
      case False
      then have "slot h m i = Some x" "leads (shape_of h) r m ks" using slot_merge(1) [OF a(6,5) c(2), of m i] m(2) l by auto
      moreover have "sh_tokens (shape_of h' m) = sh_tokens (shape_of h m)" using False l by (simp add: c(3) shape_merge_def)
      ultimately show ?thesis using slots_okD [OF a(2)] by simp
    next
      case True
      then have lc: "leads (shape_of h) r c ks" using l by simp
      then obtain ls where ls: "leads (shape_of h) r n ls" "ks = ls @ sh_tokens (shape_of h c)"
      proof (cases rule: leads.cases)
        case leads_root
        then show ?thesis using c(1) shape_wf_childD [OF wf a(3), of c] a(5) by simp
      next
        case (leads_child p ps)
        have "p \<in> S" using leads_in [OF leads_child(2) wf] .
        then have "p = n" using shape_wf_childD [OF wf _ leads_child(3)] shape_wf_childD [OF wf a(3), of c] a(5) by simp
        then show ?thesis using that leads_child by simp
      qed
      note ln = leads_end [OF ls(1) wf]
      have ne: "sh_tokens (shape_of h c) \<noteq> []" using shape_wf_childD [OF wf a(3), of c] a(5) by simp
      obtain kv p q s where s: "map_option ss_data p = slot h n i" "map_option ss_data q = slot h c i"
        "co_Merge ops kv p q = Some s" "x = ss_data s" using slot_merge(2) [OF a(6,5) c(2), of i x] m(2) True by auto
      have "covers i (length ls - length (sh_tokens (shape_of h n))) ks (ss_data s)"
      proof (rule merge_covers [OF _ _ _ _ s(3), of i "length ls - length (sh_tokens (shape_of h n))" "length ls" ks])
        show "covers i (length ls - length (sh_tokens (shape_of h n))) (take (length ls) ks) (ss_data y)" if "p = Some y" for y
          using slots_okD [OF a(2) ls(1), of i "ss_data y"] that s(1) by (auto simp: ls(2))
        show "covers i (length ls) ks (ss_data y)" if "q = Some y" for y
          using slots_okD [OF a(2) lc, of i "ss_data y"] that s(2) by (auto simp: ls(2))
      qed (use ne in \<open>simp_all add: ls(2)\<close>)
      moreover have "length ks - length (sh_tokens (shape_of h' m)) = length ls - length (sh_tokens (shape_of h n))"
        using True c(2) by (simp add: c(3) shape_merge_def ls(2))
      ultimately show ?thesis by (simp add: s(4))
    qed
  qed
qed

end
