(* ===== verification/FaithfulCache.thy ===== *)
theory FaithfulCache
  imports SnapshotContent
begin

text \<open>
  Live caches that hold what they should: the locale \<open>faithful_cache\<close> adds to the contract of \<open>cache.Cache\<close> what its
  operations make of the state a cache holds.  \<open>filled i b offs ks kv\<close> says that the cache \<open>kv\<close> of layer \<open>i\<close> holds the state
  for the keys \<open>ks\<close>, and that it was scheduled at offset \<open>b\<close> to capture \<open>offs\<close> and has captured those it has reached; with
  no offsets it is not scheduled at all.  The lemmas say that a session begins with the state of the reused keys in every
  live cache, and that this is so after any history.
\<close>

section \<open>The contract\<close>

text \<open>The boundaries a schedule captures: from the previous offset to this one.\<close>

definition bound :: "int \<Rightarrow> int list \<Rightarrow> nat \<Rightarrow> int" where
  "bound b offs j = (b # offs) ! j"

locale faithful_cache = live_cache ops ok + slot_laws ops covers
  for ops :: "('c, 'd) cache_ops" and ok :: "'c \<Rightarrow> bool" and covers :: "nat \<Rightarrow> nat \<Rightarrow> trieKey list \<Rightarrow> 'd \<Rightarrow> bool" +
  fixes filled :: "nat \<Rightarrow> int \<Rightarrow> int list \<Rightarrow> trieKey list \<Rightarrow> 'c \<Rightarrow> bool"
    and writes :: "nat \<Rightarrow> trieKey list \<Rightarrow> trieKey list \<Rightarrow> 'c \<Rightarrow> 'c \<Rightarrow> bool"
  assumes filled_ok: "filled i b offs ks kv \<Longrightarrow> ok kv \<and> co_Offset ops kv = int (length ks)"
    and filled_idle: "filled i b [] ks kv \<Longrightarrow> filled i b' [] ks kv"
    and restore_live: "filled i 0 [] ks kv \<Longrightarrow> 0 \<le> t \<Longrightarrow> co_Restore ops kv None t = (kv', True) \<Longrightarrow>
      filled i 0 [] (take (nat t) ks) kv'"
    and restore_snap: "filled i 0 [] (take j ks) kv \<Longrightarrow> covers i k ks (ss_data s) \<Longrightarrow> j < n \<Longrightarrow> n \<le> length ks \<Longrightarrow>
      co_Restore ops kv (Some s) (int n) = (kv', True) \<Longrightarrow> filled i 0 [] (take n ks) kv'"
    and restore_fails: "filled i 0 [] ks kv \<Longrightarrow> co_Restore ops kv ss t = (kv', False) \<Longrightarrow> filled i 0 [] ks kv'"
    and free_filled: "filled i b offs ks kv \<Longrightarrow> filled i 0 [] [] (co_Free ops kv)"
    and snapshot_covers: "filled i 0 [] ks kv \<Longrightarrow> k < length ks \<Longrightarrow> co_Snapshot ops kv (int k) = Some s \<Longrightarrow> covers i k ks (ss_data s)"
    and prepare_filled: "filled i 0 [] ks kv \<Longrightarrow> offs \<noteq> [] \<Longrightarrow> co_PrepareSnapshots ops kv offs = Some kv' \<Longrightarrow>
      filled i (int (length ks)) offs ks kv'"
    and write_filled: "filled i b offs ks kv \<Longrightarrow> writes i ks ms kv kv' \<Longrightarrow> filled i b offs (ks @ ms) kv'"
    and take_filled: "filled i b offs ks kv \<Longrightarrow> filled i 0 [] ks (fst (co_TakeSnapshots ops kv))"
    and take_covers: "filled i b offs ks kv \<Longrightarrow> layer_at (snd (co_TakeSnapshots ops kv)) j = Some s \<Longrightarrow>
      j < length offs \<and> offs ! j \<le> int (length ks) \<and> covers i (nat (bound b offs j)) (take (nat (offs ! j)) ks) (ss_data s)"

text \<open>Caches that can always be rewound.\<close>

definition rewinds :: "('c, 'd) cache_ops \<Rightarrow> (nat \<Rightarrow> int \<Rightarrow> int list \<Rightarrow> trieKey list \<Rightarrow> 'c \<Rightarrow> bool) \<Rightarrow> bool" where
  "rewinds ops filled \<longleftrightarrow>
     (\<forall>i ks kv n. filled i 0 [] ks kv \<longrightarrow> n \<le> length ks \<longrightarrow> snd (co_Restore ops kv None (int n)))"

text \<open>Each layer's cache has a property that may depend on the layer.\<close>

definition each_layer :: "(nat \<Rightarrow> 'c \<Rightarrow> bool) \<Rightarrow> 'c option list \<Rightarrow> bool" where
  "each_layer P cs \<longleftrightarrow> (\<forall>i kv. i < length cs \<longrightarrow> cs ! i = Some kv \<longrightarrow> P i kv)"

lemma each_layer_mono: "each_layer P cs \<Longrightarrow> (\<And>i kv. P i kv \<Longrightarrow> Q i kv) \<Longrightarrow> each_layer Q cs"
  by (simp add: each_layer_def)

lemma each_layer_Nil [simp]: "each_layer P []"
  by (simp add: each_layer_def)

lemma each_layer_Cons: "each_layer P (x # cs) \<longleftrightarrow> (\<forall>kv. x = Some kv \<longrightarrow> P 0 kv) \<and> each_layer (\<lambda>i. P (Suc i)) cs"
  by (auto simp: each_layer_def nth_Cons split: nat.splits)

lemma each_layer_map: "each_layer P (map (map_option f) cs) \<longleftrightarrow> each_layer (\<lambda>i kv. P i (f kv)) cs"
  by (auto simp: each_layer_def)

lemma each_layer_all: "each_layer P cs \<Longrightarrow> (\<And>i kv. P i kv \<Longrightarrow> Q kv) \<Longrightarrow> layers_all Q cs"
  by (auto simp: each_layer_def layers_all_def in_set_conv_nth)

lemma each_layer_conj: "each_layer P cs \<Longrightarrow> layers_all Q cs \<Longrightarrow> each_layer (\<lambda>i kv. P i kv \<and> Q kv) cs"
  by (auto simp: each_layer_def layers_all_def in_set_conv_nth)

text \<open>Two sequences of keys of which one begins the other.\<close>

definition agree :: "trieKey list \<Rightarrow> trieKey list \<Rightarrow> bool" where
  "agree xs ys \<longleftrightarrow> (\<forall>n. n \<le> length xs \<longrightarrow> n \<le> length ys \<longrightarrow> take n xs = take n ys)"

lemma agree_take: "agree (take a ks) (take b ks)"
  by (simp add: agree_def min_def)

lemma agree_Nil [simp]: "agree [] ys" "agree xs []"
  by (simp_all add: agree_def)

section \<open>Beginning a session\<close>

context faithful_cache
begin

lemma rewind_filled:
  assumes "each_layer (\<lambda>i kv. \<exists>ls. filled i 0 [] ls kv \<and> agree ls ps) cs" "0 \<le> t" "nat t \<le> length ps"
  shows "each_layer (\<lambda>i kv. \<exists>j \<le> nat t. filled i 0 [] (take j ps) kv) (rewind ops t cs)"
  unfolding rewind_def each_layer_map
proof (rule each_layer_mono [OF assms(1)])
  fix i kv assume "\<exists>ls. filled i 0 [] ls kv \<and> agree ls ps"
  then obtain ls where ls: "filled i 0 [] ls kv" "agree ls ps" by blast
  obtain kv' b where r: "co_Restore ops kv None t = (kv', b)" by fastforce
  show "\<exists>j \<le> nat t. filled i 0 [] (take j ps) (let (kv', ok) = co_Restore ops kv None t in if ok then kv' else co_Free ops kv')"
  proof (cases b)
    case True
    then have f: "filled i 0 [] (take (nat t) ls) kv'" using restore_live [OF ls(1) assms(2)] r by simp
    have "ok kv" using filled_ok [OF ls(1)] by simp
    then have "co_Offset ops kv' = t" using restore_True [OF _ assms(2)] r True by simp
    then have "nat t \<le> length ls" using filled_ok [OF f] by (simp add: min_def split: if_splits)
    then have "take (nat t) ls = take (nat t) ps" using ls(2) assms(3) by (simp add: agree_def)
    then show ?thesis using f r True by (intro exI [of _ "nat t"]) simp
  next
    case False
    then have "filled i 0 [] ls kv'" using restore_fails [OF ls(1)] r by simp
    then show ?thesis using free_filled r False by (intro exI [of _ 0]) simp
  qed
qed

lemma page_in_node_filled:
  assumes "page_in_node ops (int t) ss cs = (cs', b)"
    and "\<And>i kv. i < length cs \<Longrightarrow> cs ! i = Some kv \<Longrightarrow> \<exists>j \<le> m. filled (i0 + i) 0 [] (take j ks) kv"
    and "\<And>i s. layer_at ss i = Some s \<Longrightarrow> covers (i0 + i) k (take n ks) (ss_data s)" "t \<le> m" "t \<le> n" "n \<le> length ks"
  shows "length cs' = length cs \<and> (\<forall>i kv. i < length cs' \<longrightarrow> cs' ! i = Some kv \<longrightarrow> (\<exists>j \<le> m. filled (i0 + i) 0 [] (take j ks) kv))"
  using assms(1-3)
proof (induction cs arbitrary: ss cs' b i0)
  case (Cons x cs)
  show ?case
  proof (cases ss)
    case Nil
    then show ?thesis using Cons.prems by auto
  next
    case ss: (Cons s ss')
    obtain cs2 b2 where p: "page_in_node ops (int t) ss' cs = (cs2, b2)" by fastforce
    have hd: "\<exists>j \<le> m. filled i0 0 [] (take j ks) kv" if "x = Some kv" for kv using Cons.prems(2) [of 0] that by simp
    have tl: "\<exists>j \<le> m. filled (Suc i0 + i) 0 [] (take j ks) kv" if "i < length cs" "cs ! i = Some kv" for i kv
      using Cons.prems(2) [of "Suc i" kv] that by simp
    have IH: "length cs2 = length cs \<and> (\<forall>i kv. i < length cs2 \<longrightarrow> cs2 ! i = Some kv \<longrightarrow>
        (\<exists>j \<le> m. filled (Suc i0 + i) 0 [] (take j ks) kv))"
    proof (rule Cons.IH [OF p tl])
      show "covers (Suc i0 + i) k (take n ks) (ss_data s')" if "layer_at ss' i = Some s'" for i s'
        using Cons.prems(3) [of "Suc i" s'] that by (simp add: ss layer_at_def split: if_splits)
    qed
    have join: "length (y # zs) = length (x # cs) \<and> (\<forall>i kv. i < length (y # zs) \<longrightarrow> (y # zs) ! i = Some kv \<longrightarrow>
        (\<exists>j \<le> m. filled (i0 + i) 0 [] (take j ks) kv))"
      if "\<And>kv. y = Some kv \<Longrightarrow> \<exists>j \<le> m. filled i0 0 [] (take j ks) kv" "length zs = length cs"
        "\<And>i kv. i < length zs \<Longrightarrow> zs ! i = Some kv \<Longrightarrow> \<exists>j \<le> m. filled (Suc i0 + i) 0 [] (take j ks) kv" for y zs
      using that by (auto simp: nth_Cons split: nat.splits)
    show ?thesis
    proof (cases "\<exists>kv s'. x = Some kv \<and> s = Some s' \<and> \<not> co_Offset ops kv \<ge> int t")
      case False
      then have "cs' = x # cs2" using p Cons.prems(1) by (auto simp: ss split: option.splits)
      then show ?thesis using join [of x cs2] hd IH by auto
    next
      case True
      then obtain kv s' where xs: "x = Some kv" "s = Some s'" "co_Offset ops kv < int t" by auto
      from hd [OF xs(1)] obtain j where j: "j \<le> m" "filled i0 0 [] (take j ks) kv" by blast
      then have jt: "length (take j ks) < t" using filled_ok [OF j(2)] xs(3) by simp
      then have "j < t" using assms(5,6) by simp
      have cov: "covers i0 k (take n ks) (ss_data s')" using Cons.prems(3) [of 0 s'] by (simp add: ss xs(2) layer_at_def)
      obtain kv' c where r: "co_Restore ops kv (Some s') (int t) = (kv', c)" by fastforce
      have "j \<le> n" using \<open>j < t\<close> assms(5) by simp
      then have j': "filled i0 0 [] (take j (take n ks)) kv" using j(2) by (simp add: min_absorb1)
      show ?thesis
      proof (cases c)
        case True
        have "filled i0 0 [] (take t (take n ks)) kv'"
          using restore_snap [OF j' cov \<open>j < t\<close>] assms(5,6) r True by simp
        then have "filled i0 0 [] (take t ks) kv'" using assms(5) by (simp add: min_absorb1)
        then have "\<exists>j \<le> m. filled i0 0 [] (take j ks) kv'" using assms(4) by blast
        moreover have "cs' = Some kv' # cs2" using Cons.prems(1) p r xs True by (auto simp: ss)
        ultimately show ?thesis using join [of "Some kv'" cs2] IH by simp
      next
        case False
        then have "filled i0 0 [] (take j ks) kv'" using restore_fails [OF j(2)] r by simp
        then have "\<exists>j \<le> m. filled i0 0 [] (take j ks) kv'" using j(1) by blast
        moreover have "cs' = Some kv' # cs" using Cons.prems(1) p r xs False by (auto simp: ss)
        ultimately show ?thesis using join [of "Some kv'" cs] tl by simp
      qed
    qed
  qed
qed simp

text \<open>Paging in along a path keeps every cache at a prefix of the keys of the path, as long as its snapshots hold what they
  should.\<close>

lemma page_in_filled:
  assumes "each_layer (\<lambda>i kv. \<exists>j \<le> m. filled i 0 [] (take j F) kv) cs"
    and "\<And>n. n \<in> set path \<Longrightarrow> \<exists>e k. tn_endOffset (st_node h n) = int e \<and> e \<le> length F \<and>
      (\<forall>i s. layer_at (tn_snapshots (st_node h n)) i = Some s \<longrightarrow> covers i k (take e F) (ss_data s))"
  shows "each_layer (\<lambda>i kv. \<exists>j \<le> m. filled i 0 [] (take j F) kv) (page_in ops h (int m) path cs)"
  using assms
proof (induction path arbitrary: cs)
  case (Cons n path)
  obtain cs' b where p: "page_in_node ops (min (tn_endOffset (st_node h n)) (int m)) (tn_snapshots (st_node h n)) cs = (cs', b)"
    by fastforce
  obtain e k where e: "tn_endOffset (st_node h n) = int e" "e \<le> length F"
    "\<And>i s. layer_at (tn_snapshots (st_node h n)) i = Some s \<Longrightarrow> covers i k (take e F) (ss_data s)"
    using Cons.prems(2) [of n] by auto
  have p': "page_in_node ops (int (min e m)) (tn_snapshots (st_node h n)) cs = (cs', b)" using p e(1) by (simp add: of_nat_min)
  have cs: "\<exists>j \<le> m. filled (0 + i) 0 [] (take j F) kv" if "i < length cs" "cs ! i = Some kv" for i kv
    using Cons.prems(1) that by (simp add: each_layer_def)
  have cov: "covers (0 + i) k (take e F) (ss_data s)" if "layer_at (tn_snapshots (st_node h n)) i = Some s" for i s
    using e(3) [OF that] by simp
  have "each_layer (\<lambda>i kv. \<exists>j \<le> m. filled i 0 [] (take j F) kv) cs'"
    using page_in_node_filled [OF p' cs cov _ _ e(2)] unfolding each_layer_def by auto
  then show ?case using Cons.IH [of cs] Cons.IH [of cs'] Cons.prems p by (simp add: Let_def)
qed simp

text \<open>After the alignment every cache holds the same keys, or none when one could not be rewound.\<close>

lemma align_filled:
  assumes "each_layer (\<lambda>i kv. filled i 0 [] (take m F) kv) done" "m \<le> length F"
    and "\<And>i kv. i < length cs \<Longrightarrow> cs ! i = Some kv \<Longrightarrow> \<exists>j \<ge> m. filled (length done + i) 0 [] (take j F) kv"
  shows "each_layer (\<lambda>i kv. filled i 0 [] (take m F) kv) (align_loop ops (int m) done cs) \<or>
    \<not> rewinds ops filled \<and> each_layer (\<lambda>i kv. filled i 0 [] [] kv) (align_loop ops (int m) done cs)"
  using assms(1,3)
proof (induction cs arbitrary: "done")
  case (Cons x cs)
  have tl: "\<exists>j \<ge> m. filled (length (done @ [y]) + i) 0 [] (take j F) kv" if "i < length cs" "cs ! i = Some kv" for i kv y
    using Cons.prems(2) [of "Suc i" kv] that by simp
  have grow: "each_layer (\<lambda>i kv. filled i 0 [] (take m F) kv) (done @ [y])"
    if "\<And>kv. y = Some kv \<Longrightarrow> filled (length done) 0 [] (take m F) kv" for y
    using Cons.prems(1) that by (auto simp: each_layer_def nth_append less_Suc_eq)
  have IH: "each_layer (\<lambda>i kv. filled i 0 [] (take m F) kv) (align_loop ops (int m) (done @ [y]) cs) \<or>
      \<not> rewinds ops filled \<and> each_layer (\<lambda>i kv. filled i 0 [] [] kv) (align_loop ops (int m) (done @ [y]) cs)"
    if "\<And>kv. y = Some kv \<Longrightarrow> filled (length done) 0 [] (take m F) kv" for y
    by (rule Cons.IH [OF grow [OF that] tl])
  show ?case
  proof (cases x)
    case None
    then show ?thesis using IH [of None] by simp
  next
    case (Some kv)
    then obtain j where j: "filled (length done) 0 [] (take j F) kv" "m \<le> j" using Cons.prems(2) [of 0 kv] by auto
    show ?thesis
    proof (cases "co_Offset ops kv = int m")
      case True
      then have "take j F = take m F" using filled_ok [OF j(1)] assms(2) by (auto simp: min_def split: if_splits)
      then have "filled (length done) 0 [] (take m F) kv" using j by simp
      moreover have "align_loop ops (int m) done (x # cs) = align_loop ops (int m) (done @ [Some kv]) cs" using True Some by simp
      ultimately show ?thesis using IH [of "Some kv"] by simp
    next
      case False
      obtain kv' b where r: "co_Restore ops kv None (int m) = (kv', b)" by fastforce
      show ?thesis
      proof (cases b)
        case True
        have f: "filled (length done) 0 [] (take m (take j F)) kv'" using restore_live [OF j(1), of "int m" kv'] r True by simp
        have "ok kv" using filled_ok [OF j(1)] by simp
        then have "co_Offset ops kv' = int m" using restore_True [of kv "int m" None kv'] r True by simp
        then have "take m (take j F) = take m F" using filled_ok [OF f] assms(2) by (auto simp: min_def split: if_splits)
        then have "filled (length done) 0 [] (take m F) kv'" using f by simp
        moreover have "align_loop ops (int m) done (x # cs) = align_loop ops (int m) (done @ [Some kv']) cs" using False Some r True by simp
        ultimately show ?thesis using IH [of "Some kv'"] by simp
      next
        case b: False
        then have kv': "filled (length done) 0 [] (take j F) kv'" using restore_fails [OF j(1)] r by simp
        have "\<exists>ks. filled i 0 [] ks y" if "i < length (done @ Some kv' # cs)" "(done @ Some kv' # cs) ! i = Some y" for i y
        proof (cases "i < length done")
          case True
          then show ?thesis using Cons.prems(1) that by (auto simp: each_layer_def nth_append)
        next
          case False
          then obtain l where "i = length done + l" by (metis le_add_diff_inverse not_le)
          then show ?thesis using kv' that Cons.prems(2) [of l y] by (cases l) (auto simp: nth_append)
        qed
        then have "each_layer (\<lambda>i kv. filled i 0 [] [] (co_Free ops kv)) (done @ Some kv' # cs)"
          unfolding each_layer_def using free_filled by blast
        then have "each_layer (\<lambda>i kv. filled i 0 [] [] kv) (freeAll ops (done @ Some kv' # cs))"
          unfolding freeAll_def each_layer_map .
        moreover have "\<not> rewinds ops filled"
          using j assms(2) r b unfolding rewinds_def by (metis length_take min.boundedI snd_conv)
        moreover have "align_loop ops (int m) done (x # cs) = freeAll ops (done @ Some kv' # cs)"
          using Some False r b by simp
        ultimately show ?thesis by simp
      qed
    qed
  qed
qed simp

end

text \<open>The keys and the snapshots along a path.\<close>

lemma chain_leads_take:
  assumes "chain g r ms" "n \<in> set (r # ms)" "sh_tokens (g r) = []"
  shows "\<exists>e. leads g r n (take e (spells g (r # ms))) \<and> e \<le> length (spells g (r # ms))"
proof -
  obtain xs ys where x: "r # ms = xs @ n # ys" using split_list [OF assms(2)] by blast
  have "\<exists>zs. xs @ [n] = r # zs" using x by (cases xs) auto
  then obtain zs where z: "xs @ [n] = r # zs" by blast
  then have zs: "last (r # zs) = n" "ms = zs @ ys" using x by (metis last_snoc) (use x z in \<open>metis append_Cons append_assoc append_self_conv2 list.inject\<close>)
  have "chain g r zs" using assms(1) by (simp add: zs(2) chain_append)
  from leads_chain [OF leads_root this] have "leads g r n (spells g zs)" using zs(1) by simp
  moreover have "spells g zs = take (length (spells g zs)) (spells g (r # ms))" using assms(3) by (simp add: zs(2))
  ultimately show ?thesis using assms(3) by (intro exI [of _ "length (spells g zs)"]) (simp add: zs(2))
qed

lemma path_covered:
  assumes "trie_wf h r S" "slots_ok covers h r S" "chain (shape_of h) r ms" "n \<in> set (r # ms)"
  shows "\<exists>e k. tn_endOffset (st_node h n) = int e \<and> e \<le> length (spells (shape_of h) (r # ms)) \<and>
      (\<forall>i s. layer_at (tn_snapshots (st_node h n)) i = Some s \<longrightarrow> covers i k (take e (spells (shape_of h) (r # ms))) (ss_data s))"
proof -
  let ?F = "spells (shape_of h) (r # ms)"
  have wf: "shape_wf (shape_of h) r S" using assms(1) by (simp add: trie_wf_def)
  then have "sh_tokens (shape_of h r) = []" by (simp add: shape_wf_def)
  from chain_leads_take [OF assms(3,4) this] obtain e where e: "leads (shape_of h) r n (take e ?F)" "e \<le> length ?F" by blast
  then have "tn_endOffset (st_node h n) = int e" using leads_end [OF e(1) wf] by (simp add: shape_of_sel)
  moreover have "covers i (length (take e ?F) - length (sh_tokens (shape_of h n))) (take e ?F) (ss_data s)"
    if "layer_at (tn_snapshots (st_node h n)) i = Some s" for i s
    using slots_okD [OF assms(2) e(1), of i "ss_data s"] that by (simp add: slot_def)
  ultimately show ?thesis using e(2) by blast
qed


text \<open>What the common part of two paths spells.\<close>

lemma common_spells:
  assumes "shape_wf g r S" "chain g r cs" "chain g r ms" "n = common_len (r # cs) (r # ms)" "n > 0"
  shows "\<exists>a. sh_end (g ((r # cs) ! (n - 1))) = int a \<and> a \<le> length (spells g (r # cs)) \<and>
    (\<forall>t \<le> a. take t (spells g (r # cs)) = take t (spells g (r # ms)))"
proof -
  obtain n' where n': "n = Suc n'" "n' = common_len cs ms" using assms(4) by simp
  have le: "n' \<le> length cs" using common_len_le [of cs ms] n'(2) by simp
  have r: "r \<in> S" "sh_end (g r) = 0" "sh_tokens (g r) = []" using assms(1) by (auto simp: shape_wf_def)
  define zs where "zs = take n' cs"
  have ch: "chain g r zs" using assms(2) chain_append [of g r "take n' cs" "drop n' cs"] by (simp add: zs_def)
  have "(r # cs) ! (n - 1) = last (r # zs)"
    using le by (cases n') (simp_all add: n'(1) zs_def take_Suc_conv_app_nth)
  then have e: "sh_end (g ((r # cs) ! (n - 1))) = int (length (spells g zs))"
    using chain_end [OF assms(1) r(1) ch] r(2) by simp
  have "spells g (r # cs) = spells g zs @ spells g (drop n' cs)" using r(3) by (simp add: zs_def flip: spells_simps(3))
  moreover have "spells g (r # ms) = spells g zs @ spells g (drop n' ms)"
    using r(3) common_len_take [of cs ms] n'(2) by (simp add: zs_def flip: spells_simps(3))
  ultimately show ?thesis using e by (intro exI [of _ "length (spells g zs)"]) simp
qed

lemma align_loop_live: "Some kv \<in> set done \<or> Some kv \<in> set cs \<Longrightarrow> \<exists>kv'. Some kv' \<in> set (align_loop ops t done cs)"
proof (induction cs arbitrary: "done" kv)
  case (Cons x cs)
  show ?case
  proof (cases x)
    case None
    then show ?thesis using Cons.IH [of kv "done @ [None]"] Cons.prems by auto
  next
    case (Some kv')
    obtain kv2 b where r: "co_Restore ops kv' None t = (kv2, b)" by fastforce
    have "\<exists>y. Some y \<in> set (freeAll ops (done @ Some kv2 # cs))" by (auto simp: freeAll_def)
    then show ?thesis using Some r Cons.IH [of kv' "done @ [Some kv']"] Cons.IH [of kv2 "done @ [Some kv2]"] by auto
  qed
qed auto

sublocale faithful_cache \<subseteq> live_slots ops ok "slots_ok covers" ..

context faithful_cache
begin

lemma paged_in_filled:
  assumes c: "pc_inv (slots_ok covers) c S" "pc_root c = Some r" "chain (shape_of (pc_store c)) r ms"
    and live: "each_layer (\<lambda>i kv. \<exists>ls. filled i 0 [] ls kv \<and> agree ls (path_keys c)) (pc_caches c)"
  shows "each_layer (\<lambda>i kv. \<exists>j \<le> m. filled i 0 [] (take j (spells (shape_of (pc_store c)) (r # ms))) kv)
    (paged_in ops (r # ms) (int m) c)"
proof -
  let ?F = "spells (shape_of (pc_store c)) (r # ms)"
  from c(1,2) obtain cs where r: "pc_activePath c = r # cs" "trie_wf (pc_store c) r S" "shape_wf (shape_of (pc_store c)) r S"
    "chain (shape_of (pc_store c)) r cs" "slots_ok covers (pc_store c) r S" by (auto elim!: pc_invE)
  define n where "n = common_len (r # cs) (r # ms)"
  have n: "n > 0" by (simp add: n_def)
  from common_spells [OF r(3,4) c(3) n_def n] obtain a where
    a: "sh_end (shape_of (pc_store c) ((r # cs) ! (n - 1))) = int a" "a \<le> length (path_keys c)"
    "\<forall>t \<le> a. take t (path_keys c) = take t ?F" by (auto simp: path_keys_def r(1))
  have "each_layer (\<lambda>i kv. \<exists>j \<le> min a m. filled i 0 [] (take j (path_keys c)) kv)
      (rewind ops (int (min a m)) (pc_caches c))"
    using rewind_filled [OF live, of "int (min a m)"] a(2) by (simp only: nat_int)
  then have "each_layer (\<lambda>i kv. \<exists>j \<le> m. filled i 0 [] (take j ?F) kv) (rewind ops (min (int a) (int m)) (pc_caches c))"
    unfolding of_nat_min
  proof (rule each_layer_mono)
    fix i kv assume "\<exists>j \<le> min a m. filled i 0 [] (take j (path_keys c)) kv"
    then obtain j where "j \<le> a" "j \<le> m" "filled i 0 [] (take j (path_keys c)) kv" by auto
    then show "\<exists>j \<le> m. filled i 0 [] (take j ?F) kv" using a(3) by (intro exI [of _ j]) simp
  qed
  then have "each_layer (\<lambda>i kv. \<exists>j \<le> m. filled i 0 [] (take j ?F) kv)
      (page_in ops (pc_store c) (int m) (r # ms) (rewind ops (min (int a) (int m)) (pc_caches c)))"
    by (rule page_in_filled) (rule path_covered [OF r(2,5) c(3)])
  moreover have "paged_in ops (r # ms) (int m) c =
      page_in ops (pc_store c) (int m) (r # ms) (rewind ops (min (int a) (int m)) (pc_caches c))"
    using n a(1) unfolding paged_in_def Let_def r(1) n_def [symmetric] shape_of_sel by simp
  ultimately show ?thesis by simp
qed

lemma beginAt_filled:
  assumes c: "pc_good (slots_ok covers) c" "each_layer (\<lambda>i kv. \<exists>ls. filled i 0 [] ls kv \<and> agree ls (path_keys c)) (pc_caches c)"
    and keys: "effectiveKeyTokens inputs items = Some eff" "pc_key (pc_draftLookahead c) eff = Some ks"
  obtains s c' S' n p where "beginAt ops clock inputs items maxReuse c = Some (s, c')" "pc_inv (slots_ok covers) c' S'"
    "each_layer (\<lambda>i kv. filled i 0 [] (take n ks) kv) (pc_caches c')" "path_keys c' = take p ks" "n \<le> p" "p \<le> length ks" "p \<le> maxReuse"
    "storedKeys c' s = Some ks" "cs_inputs s = inputs" "cs_remaining s = drop n inputs" "min_offset ops (pc_caches c') = int n"
    "rewinds ops filled \<longrightarrow> n = p"
    "cs_pendingSnapshots s = [] \<or> (\<exists>q. cs_pendingSnapshots s = [\<lparr>ps_offset = int q, ps_user = False\<rparr>] \<and> n < q \<and> p \<le> q \<and> q \<le> length ks)"
proof -
  have ok: "layers_all ok (pc_caches c)" using c(2) by (rule each_layer_all) (use filled_ok in blast)
  obtain s c' S S' r ms m P off where b: "beginAt ops clock inputs items maxReuse c = Some (s, c')" "pc_inv (slots_ok covers) c' S'"
    "pc_inv (slots_ok covers) (ensureRoot clock c) S" "pc_root (ensureRoot clock c) = Some r"
    "chain (shape_of (pc_store (ensureRoot clock c))) r ms" "m \<le> length ks" "m \<le> maxReuse"
    "take m ks = take m (spells (shape_of (pc_store (ensureRoot clock c))) (r # ms))"
    "P = paged_in ops (r # ms) (int m) (ensureRoot clock c)" "off = min_offset ops P" "0 \<le> off" "off \<le> int m"
    "pc_caches c' = align_loop ops off [] P" "path_keys c' = take (nat off) ks"
    "layers_all (\<lambda>kv. ok kv \<and> co_Offset ops kv = min_offset ops (pc_caches c')) (pc_caches c')"
    "0 \<le> min_offset ops (pc_caches c')" "min_offset ops (pc_caches c') \<le> off"
    "cs_remaining s = drop (nat (min_offset ops (pc_caches c'))) inputs" "cs_inputs s = inputs" "storedKeys c' s = Some ks"
    "cs_pendingSnapshots s = (if min_offset ops (pc_caches c') < int m then [\<lparr>ps_offset = int m, ps_user = False\<rparr>] else [])"
    by (rule beginAt_parts [OF c(1) ok keys]) blast
  let ?F = "spells (shape_of (pc_store (ensureRoot clock c))) (r # ms)"
  obtain p where p: "off = int p" "p \<le> m" using b(11,12) by (metis nonneg_int_cases of_nat_le_iff)
  have m: "m \<le> length ?F" using b(6,8) by (metis length_take min.absorb2 min.cobounded1 min.commute)
  have live: "each_layer (\<lambda>i kv. \<exists>ls. filled i 0 [] ls kv \<and> agree ls (path_keys (ensureRoot clock c))) (pc_caches (ensureRoot clock c))"
    using c(2) ensureRoot_ok [OF c(1), of clock] by simp
  have P: "each_layer (\<lambda>i kv. \<exists>j \<le> m. filled i 0 [] (take j ?F) kv) P"
    unfolding b(9) by (rule paged_in_filled [OF b(3-5) live])
  have Pj: "\<exists>j \<ge> p. filled i 0 [] (take j ?F) kv" if i: "i < length P" "P ! i = Some kv" for i kv
  proof -
    obtain j where j: "filled i 0 [] (take j ?F) kv" using P i unfolding each_layer_def by blast
    have "off \<le> co_Offset ops kv"
      using i b(10) minCacheOffset_Some [of ops P] minCacheOffset_None [of ops P "\<lambda>kv. off \<le> co_Offset ops kv"]
      by (fastforce simp: min_offset_def layers_all_def in_set_conv_nth split: option.splits)
    then have "p \<le> j" using filled_ok [OF j] p(1) by simp
    then show ?thesis using j by blast
  qed
  have al: "each_layer (\<lambda>i kv. filled i 0 [] (take p ?F) kv) (pc_caches c') \<or>
      \<not> rewinds ops filled \<and> each_layer (\<lambda>i kv. filled i 0 [] [] kv) (pc_caches c')"
    unfolding b(13) p(1) using p(2) m Pj by (intro align_filled) auto
  have pF: "take p ?F = take p ks" using b(8) p(2) by (metis take_take min.absorb1)
  define n where "n = nat (min_offset ops (pc_caches c'))"
  have n: "min_offset ops (pc_caches c') = int n" "n \<le> p" using b(16,17) p(1) by (simp_all add: n_def)
  have off: "co_Offset ops kv = int n" if "i < length (pc_caches c')" "pc_caches c' ! i = Some kv" for i kv
    using b(15) n(1) that by (auto simp: layers_all_def in_set_conv_nth)
  have "p \<le> length ks" using p(2) b(6) by simp
  have "filled i 0 [] (take n ks) kv" if i: "i < length (pc_caches c')" "pc_caches c' ! i = Some kv" and f: "filled i 0 [] (take q ks) kv" "q \<le> length ks"
    for i kv q using off [OF i] filled_ok [OF f(1)] f by simp
  from this [of _ _ p] this [of _ _ 0] have fn: "each_layer (\<lambda>i kv. filled i 0 [] (take n ks) kv) (pc_caches c')"
    using al pF \<open>p \<le> length ks\<close> unfolding each_layer_def by auto
  have np: "rewinds ops filled \<longrightarrow> n = p"
  proof
    assume "rewinds ops filled"
    then have f: "each_layer (\<lambda>i kv. filled i 0 [] (take p ks) kv) (pc_caches c')" using al pF by simp
    show "n = p"
    proof (cases "\<exists>kv. Some kv \<in> set (pc_caches c')")
      case True
      then obtain i kv where i: "i < length (pc_caches c')" "pc_caches c' ! i = Some kv" by (auto simp: in_set_conv_nth)
      then have "filled i 0 [] (take p ks) kv" using f by (simp add: each_layer_def)
      then show ?thesis using filled_ok off [OF i] \<open>p \<le> length ks\<close> by fastforce
    next
      case False
      then have no: "pc_caches c' ! i = None" if "i < length (pc_caches c')" for i using that by (metis not_None_eq nth_mem)
      have "length (pc_caches c') = length P" using b(13) by simp
      have "Some kv \<notin> set P" for kv
      proof
        assume "Some kv \<in> set P"
        then have "\<exists>kv. Some kv \<in> set (align_loop ops off [] P)" by (intro align_loop_live) simp
        then show False using False b(13) by simp
      qed
      then have "min_offset ops P = 0" using minCacheOffset_Some [of ops P] by (auto simp: min_offset_def split: option.splits)
      then show ?thesis using b(10) p(1) n(2) by simp
    qed
  qed
  show thesis
  proof (rule that [OF b(1,2)])
    show "path_keys c' = take p ks" using b(14) p(1) by simp
    show "cs_remaining s = drop n inputs" using b(18) by (simp add: n_def)
    show "p \<le> maxReuse" using p(2) b(7) by simp
    show "cs_pendingSnapshots s = [] \<or> (\<exists>q. cs_pendingSnapshots s = [\<lparr>ps_offset = int q, ps_user = False\<rparr>] \<and> n < q \<and> p \<le> q \<and> q \<le> length ks)"
      using b(21) n(1) p(2) b(6) by auto
  qed (rule n \<open>p \<le> length ks\<close> b np fn)+
qed

end

end
