(* ===== verification/FaithfulSession.thy ===== *)
theory FaithfulSession
  imports FaithfulCache
begin

text \<open>
  Sessions over faithful caches: what is captured and paged out is what the snapshots of the trie are to hold, so the
  trie stays faithful over every session; \<open>faithful_state\<close> is the invariant of the steps of a runner whose forward
  passes write what they should.
\<close>

section \<open>Attaching\<close>

lemma path_leads:
  assumes "pc_inv X c S"
  shows "leads (shape_of (pc_store c)) (the (pc_root c)) (last (pc_activePath c)) (path_keys c)"
proof -
  from assms obtain r cs where c: "pc_root c = Some r" "pc_activePath c = r # cs" "shape_wf (shape_of (pc_store c)) r S"
    "chain (shape_of (pc_store c)) r cs" by (rule pc_invE)
  from leads_chain [OF leads_root c(4)] c(1-3) show ?thesis by (simp add: path_keys_def shape_wf_def)
qed

lemma slots_fit_last:
  assumes c: "pc_inv (slots_ok covers) c S"
    and ss: "\<And>i s. layer_at ss i = Some s \<Longrightarrow>
      covers i (length (path_keys c) - length (tn_tokens (st_node (pc_store c) (last (pc_activePath c))))) (path_keys c) (ss_data s)"
  shows "slots_fit (slots_ok covers) (last (pc_activePath c)) ss c S"
  unfolding slots_fit_def
proof (intro allI impI)
  fix r assume r: "pc_root c = Some r" "slots_ok covers (pc_store c) r S"
  let ?l = "last (pc_activePath c)"
  from c r(1) have wf: "shape_wf (shape_of (pc_store c)) r S" by (auto elim!: pc_invE)
  show "slots_ok covers (snd (swapSnapshots ?l ss True (pc_store c))) r S"
    unfolding slots_ok_def
  proof (intro allI impI)
    fix n ks i d
    assume n: "leads (shape_of (snd (swapSnapshots ?l ss True (pc_store c)))) r n ks" "slot (snd (swapSnapshots ?l ss True (pc_store c))) n i = Some d"
    then have l: "leads (shape_of (pc_store c)) r n ks" by simp
    show "covers i (length ks - length (sh_tokens (shape_of (snd (swapSnapshots ?l ss True (pc_store c))) n))) ks d"
    proof (cases "n = ?l")
      case True
      then have "ks = path_keys c" using leads_unique [OF l _ wf] path_leads [OF c] r(1) by simp
      moreover obtain s where "layer_at ss i = Some s" "d = ss_data s" using n(2) True by (auto simp: slot_swap)
      ultimately show ?thesis using ss [of i s] True by (simp add: shape_of_sel)
    next
      case False
      then show ?thesis using slots_okD [OF r(2) l, of i d] n(2) by (simp add: slot_swap)
    qed
  qed
qed

text \<open>Where the last node of the path begins, when the path is not just the root.\<close>

lemma last_start:
  assumes "pc_inv X c S" "path_keys c \<noteq> []"
  shows "startOffset (st_node (pc_store c) (last (pc_activePath c))) =
      int (length (path_keys c) - length (tn_tokens (st_node (pc_store c) (last (pc_activePath c))))) \<and>
    length (path_keys c) - length (tn_tokens (st_node (pc_store c) (last (pc_activePath c)))) < length (path_keys c)"
proof -
  from assms(1) obtain r cs where c: "pc_root c = Some r" "pc_activePath c = r # cs" "shape_wf (shape_of (pc_store c)) r S" "r \<in> S"
    "chain (shape_of (pc_store c)) r cs" "last (r # cs) \<in> S" by (rule pc_invE)
  let ?t = "tn_tokens (st_node (pc_store c) (last (pc_activePath c)))"
  have le: "length ?t \<le> length (path_keys c)"
    using leads_end [OF path_leads [OF assms(1)]] c(1,3) by (simp add: shape_of_sel)
  have "last (r # cs) \<noteq> r"
  proof
    assume "last (r # cs) = r"
    then have "cs = []" using chain_distinct [OF c(3-5)] by (cases cs rule: rev_cases) auto
    then show False using assms(2) c(2,3) by (simp add: path_keys_def shape_wf_def)
  qed
  from shape_wf_parentD [OF c(3,6) this] have "?t \<noteq> []" by (metis c(2) shape_of_sel(1))
  then have "0 < length ?t" by simp
  then have "length (path_keys c) - length ?t < length (path_keys c)" using le by linarith
  then show ?thesis using le path_keys_end [OF assms(1)] by (simp add: startOffset_def of_nat_diff)
qed

fun rows_cover :: "(nat \<Rightarrow> nat \<Rightarrow> trieKey list \<Rightarrow> 'd \<Rightarrow> bool) \<Rightarrow> int \<Rightarrow> trieKey list \<Rightarrow> nat \<Rightarrow> (pendingSnapshot \<times> 'd layers) list \<Rightarrow> bool" where
  "rows_cover covers reached ks b [] \<longleftrightarrow> True"
| "rows_cover covers reached ks b ((p, row) # rows) \<longleftrightarrow>
     (if ps_offset p > reached then rows_cover covers reached ks b rows
      else int b < ps_offset p \<and>
        (\<forall>i s. layer_at row i = Some s \<longrightarrow> covers i b (take (nat (ps_offset p)) ks) (ss_data s)) \<and>
        rows_cover covers reached ks (nat (ps_offset p)) rows)"

lemma layer_at_map [simp]: "layer_at (map f [0..<n]) i = (if i < n then f i else None)"
  by (simp add: layer_at_def)

context slot_laws
begin

lemma rows_fit_cover: "rows_fit (slots_ok covers) ops C reached ks (rows_cover covers reached ks)"
  unfolding rows_fit_def
proof (intro allI impI)
  fix k p row rows
  assume B: "rows_cover covers reached ks k ((p, row) # rows)"
  show "if ps_offset p > reached then rows_cover covers reached ks k rows
      else ps_offset p \<le> int (length ks) \<longrightarrow> rows_cover covers reached ks (max k (nat (ps_offset p))) rows \<and>
        (\<forall>c S. pc_inv (slots_ok covers) c S \<longrightarrow> pc_caches c = C \<longrightarrow> path_keys c = take (max k (nat (ps_offset p))) ks \<longrightarrow>
           (int k < ps_offset p \<longrightarrow> int k \<le> startOffset (st_node (pc_store c) (last (pc_activePath c)))) \<longrightarrow>
           slots_fit (slots_ok covers) (last (pc_activePath c)) (capture_snaps ops (last (pc_activePath c)) row c) c S)"
  proof (cases "ps_offset p > reached")
    case True
    then show ?thesis using B by simp
  next
    case False
    define q where "q = nat (ps_offset p)"
    have q: "ps_offset p = int q" "k < q" "rows_cover covers reached ks q rows" "max k q = q"
      and cov: "\<And>i s. layer_at row i = Some s \<Longrightarrow> covers i k (take q ks) (ss_data s)" using B False by (auto simp: q_def)
    have "slots_fit (slots_ok covers) (last (pc_activePath c)) (capture_snaps ops (last (pc_activePath c)) row c) c S"
      if c: "pc_inv (slots_ok covers) c S" and k: "path_keys c = take q ks" "q \<le> length ks"
        "int k \<le> startOffset (st_node (pc_store c) (last (pc_activePath c)))" for c S
    proof (rule slots_fit_last [OF c])
      fix i s assume s: "layer_at (capture_snaps ops (last (pc_activePath c)) row c) i = Some s"
      let ?l = "last (pc_activePath c)" and ?a = "length (path_keys c) - length (tn_tokens (st_node (pc_store c) (last (pc_activePath c))))"
      have ne: "path_keys c \<noteq> []" using k(1,2) q(2) by auto
      note st = last_start [OF c ne]
      from s consider "layer_at (tn_snapshots (st_node (pc_store c) ?l)) i = Some s"
        | kv t where "layer_at row i = Some t" "snd (co_Split ops kv t (startOffset (st_node (pc_store c) ?l))) = Some s"
        by (auto simp: capture_snaps_def Let_def split: if_splits option.splits)
      then show "covers i ?a (path_keys c) (ss_data s)"
      proof cases
        case 1
        obtain r where r: "pc_root c = Some r" "slots_ok covers (pc_store c) r S" using c by (auto elim!: pc_invE)
        from slots_okD [OF r(2), of ?l "path_keys c" i "ss_data s"] path_leads [OF c] r(1) 1 show ?thesis
          by (simp add: slot_def shape_of_sel)
      next
        case 2
        have "covers i k (path_keys c) (ss_data t)" using cov [OF 2(1)] k(1) by simp
        moreover have "k \<le> ?a" using k(3) st by simp
        moreover obtain z where "co_Split ops kv t (int ?a) = (z, Some s)" using 2(2) st by (metis prod.collapse)
        ultimately show ?thesis using split_child st by blast
      qed
    qed
    then show ?thesis using False q by (auto simp: q_def [symmetric])
  qed
qed

end

context faithful_cache
begin

lemma page_fits_filled:
  assumes C: "each_layer (\<lambda>i kv. filled i 0 [] (take (nat off) ks) kv) C" and len: "off \<le> int (length ks)"
  shows "page_fits (slots_ok covers) ops C off ks"
  unfolding page_fits_def
proof (intro impI allI)
  fix c S assume off: "0 < off" and c: "pc_inv (slots_ok covers) c S" "pc_caches c = C" "path_keys c = take (nat off) ks"
  show "slots_fit (slots_ok covers) (last (pc_activePath c)) (page_snaps ops (last (pc_activePath c)) c) c S"
  proof (rule slots_fit_last [OF c(1)])
    fix i s assume s: "layer_at (page_snaps ops (last (pc_activePath c)) c) i = Some s"
    let ?l = "last (pc_activePath c)" and ?a = "length (path_keys c) - length (tn_tokens (st_node (pc_store c) (last (pc_activePath c))))"
    have ne: "path_keys c \<noteq> []" using off len c(3) by auto
    note st = last_start [OF c(1) ne]
    from s consider "layer_at (tn_snapshots (st_node (pc_store c) ?l)) i = Some s"
      | kv where "i < length C" "C ! i = Some kv" "co_Snapshot ops kv (startOffset (st_node (pc_store c) ?l)) = Some s"
      by (auto simp: page_snaps_def c(2) split: if_splits option.splits)
    then show "covers i ?a (path_keys c) (ss_data s)"
    proof cases
      case 1
      obtain r where r: "pc_root c = Some r" "slots_ok covers (pc_store c) r S" using c(1) by (auto elim!: pc_invE)
      from slots_okD [OF r(2), of ?l "path_keys c" i "ss_data s"] path_leads [OF c(1)] r(1) 1 show ?thesis
        by (simp add: slot_def shape_of_sel)
    next
      case 2
      then have "filled i 0 [] (path_keys c) kv" using C c(3) by (simp add: each_layer_def)
      from snapshot_covers [OF this, of ?a s] 2(3) st show ?thesis by simp
    qed
  qed
qed

end

section \<open>The captures of a session\<close>

lemma rows_cover_beyond: "(\<And>p row. (p, row) \<in> set rows \<Longrightarrow> ps_offset p > reached) \<Longrightarrow> rows_cover covers reached ks b rows"
proof (induction rows)
  case (Cons x rows)
  then show ?case by (cases x) auto
qed simp

lemma rows_cover_zip:
  assumes "sorted_wrt (<) (int b # map ps_offset ps)" "length rows = length ps"
    and "\<And>i l t. i < length ps \<Longrightarrow> layer_at (rows ! i) l = Some t \<Longrightarrow>
      covers l (nat (bound (int b) (map ps_offset ps) i)) (take (nat (ps_offset (ps ! i))) ks) (ss_data t)"
  shows "rows_cover covers reached ks b (zip ps rows)"
  using assms
proof (induction ps arbitrary: b rows)
  case (Cons p ps)
  then obtain row rows' where r: "rows = row # rows'" "length rows' = length ps" by (cases rows) auto
  have p: "int b < ps_offset p" "\<forall>x \<in> set ps. ps_offset p < ps_offset x" using Cons.prems(1) by auto
  show ?case
  proof (cases "ps_offset p > reached")
    case True
    have "rows_cover covers reached ks b (zip ps rows')"
      by (rule rows_cover_beyond) (use p(2) True in \<open>fastforce dest: set_zip_leftD\<close>)
    then show ?thesis using True by (simp add: r)
  next
    case False
    have e: "int (nat (ps_offset p)) = ps_offset p" using p(1) by simp
    have "rows_cover covers reached ks (nat (ps_offset p)) (zip ps rows')"
    proof (rule Cons.IH [OF _ r(2)])
      show "sorted_wrt (<) (int (nat (ps_offset p)) # map ps_offset ps)" using Cons.prems(1) e by simp
      show "covers l (nat (bound (int (nat (ps_offset p))) (map ps_offset ps) i)) (take (nat (ps_offset (ps ! i))) ks) (ss_data t)"
        if "i < length ps" "layer_at (rows' ! i) l = Some t" for i l t
        using Cons.prems(3) [of "Suc i" l t] that e by (simp add: r bound_def)
    qed
    moreover have "covers l b (take (nat (ps_offset p)) ks) (ss_data t)" if "layer_at row l = Some t" for l t
      using Cons.prems(3) [of 0 l t] that by (simp add: r bound_def)
    ultimately show ?thesis using False p(1) by (simp add: r)
  qed
qed simp

text \<open>The schedule of a session: ascending offsets beyond where its caches are.\<close>

lemma upgrade_offsets: "map ps_offset (upgrade x ps) = (if x \<in> ps_offset ` set ps then map ps_offset ps else map ps_offset ps @ [x])"
  by (induction ps) auto

lemma schedule_one_offsets:
  assumes "distinct (map ps_offset ps)" "\<forall>p \<in> set ps. base < ps_offset p"
  shows "distinct (map ps_offset (schedule_one base la len items x ps)) \<and> (\<forall>p \<in> set (schedule_one base la len items x ps). base < ps_offset p)"
proof -
  have "distinct (map ps_offset (upgrade y ps)) \<and> (\<forall>p \<in> set (upgrade y ps). base < ps_offset p)" if "base < y" for y
  proof -
    have "ps_offset ` set (upgrade y ps) \<subseteq> insert y (ps_offset ` set ps)"
      using arg_cong [OF upgrade_offsets [of y ps], of set] by (auto split: if_splits)
    then have "\<forall>p \<in> set (upgrade y ps). base < ps_offset p" using assms(2) that by fastforce
    moreover have "distinct (map ps_offset (upgrade y ps))" using assms(1) by (auto simp: upgrade_offsets)
    ultimately show ?thesis by blast
  qed
  moreover have "schedule_one base la len items x ps = ps \<or> (\<exists>y. base < y \<and> schedule_one base la len items x ps = upgrade y ps)"
  proof -
    define y where "y = (case insideAtomicItem items (x - la) of Some i \<Rightarrow> mi_pos i + mi_length i | None \<Rightarrow> x - la)"
    have "schedule_one base la len items x ps = (if y \<le> base \<or> y > len then ps else upgrade y ps)"
      by (simp add: schedule_one_def Let_def y_def)
    then show ?thesis by (metis not_le)
  qed
  ultimately show ?thesis using assms by metis
qed

lemma schedule_offsets:
  assumes "distinct (map ps_offset ps)" "\<forall>p \<in> set ps. base < ps_offset p"
  shows "sorted_wrt (<) (base # map ps_offset (sort_key ps_offset (fold (schedule_one base la len items) offs ps)))"
proof -
  let ?q = "fold (schedule_one base la len items) offs ps"
  have q: "distinct (map ps_offset ?q) \<and> (\<forall>p \<in> set ?q. base < ps_offset p)"
    using assms
  proof (induction offs arbitrary: ps)
    case (Cons x offs)
    show ?case using Cons.IH schedule_one_offsets [OF Cons.prems, of la len items x] unfolding fold_simps comp_def by blast
  qed simp
  then have "distinct (map ps_offset (sort_key ps_offset ?q))" by (simp add: distinct_map)
  then have "sorted_wrt (<) (map ps_offset (sort_key ps_offset ?q))" by (simp add: strict_sorted_iff)
  then show ?thesis using q by simp
qed

text \<open>The keys that are stored grow with the generated tokens.\<close>

definition level :: "('c, 'd) cache_ops \<Rightarrow> 'c option list \<Rightarrow> bool" where
  "level ops cs \<longleftrightarrow> layers_all (\<lambda>kv. co_Offset ops kv = min_offset ops cs) cs"

definition faithful_pass ::
  "('c, 'd) cache_ops \<Rightarrow> (nat \<Rightarrow> trieKey list \<Rightarrow> trieKey list \<Rightarrow> 'c \<Rightarrow> 'c \<Rightarrow> bool) \<Rightarrow>
     ('c, 'd) prefixCache \<Rightarrow> cacheSession \<Rightarrow> 'c option list \<Rightarrow> 32 word list \<Rightarrow> bool" where
  "faithful_pass ops writes c s caches toks \<longleftrightarrow> length caches = length (pc_caches c) \<and>
     (\<exists>ks. storedKeys c (s\<lparr>cs_outputs := cs_outputs s @ toks\<rparr>) = Some ks \<and>
        (\<forall>i < length caches. case pc_caches c ! i of
             None \<Rightarrow> caches ! i = None
           | Some kv \<Rightarrow> (\<exists>kv' m. caches ! i = Some kv' \<and> nat (co_Offset ops kv) \<le> m \<and> m \<le> length ks \<and>
               writes i (take (nat (co_Offset ops kv)) ks) (drop (nat (co_Offset ops kv)) (take m ks)) kv kv')))"

text \<open>A runner whose forward passes write the state of the keys that are stored, and whose sessions end with all
  live caches at one offset.\<close>

definition faithful_runner ::
  "('c, 'd) cache_ops \<Rightarrow> (nat \<Rightarrow> int \<Rightarrow> int list \<Rightarrow> trieKey list \<Rightarrow> 'c \<Rightarrow> bool) \<Rightarrow>
     (nat \<Rightarrow> trieKey list \<Rightarrow> trieKey list \<Rightarrow> 'c \<Rightarrow> 'c \<Rightarrow> bool) \<Rightarrow> ('c, 'd) runner" where
  "faithful_runner ops filled writes =
     \<lparr>rn_start = each_layer (\<lambda>i. filled i 0 [] []), rn_pass = faithful_pass ops writes, rn_rest = level ops\<rparr>"

definition holds_upto :: "(nat \<Rightarrow> int \<Rightarrow> int list \<Rightarrow> trieKey list \<Rightarrow> 'c \<Rightarrow> bool) \<Rightarrow> int \<Rightarrow> int list \<Rightarrow> trieKey list \<Rightarrow> 'c option list \<Rightarrow> bool" where
  "holds_upto filled b offs ks cs \<longleftrightarrow> each_layer (\<lambda>i kv. \<exists>j \<le> length ks. filled i b offs (take j ks) kv) cs"

context faithful_cache
begin

lemma pending_cover:
  assumes live: "holds_upto filled b offs ks (pc_caches c)"
    and offs: "offs = [] \<or> offs = map ps_offset (cs_pendingSnapshots s) \<and> b = int k"
    and sorted: "sorted_wrt (<) (int k # map ps_offset (cs_pendingSnapshots s))"
  shows "rows_cover covers reached ks k (pending_rows ops s c)"
  unfolding pending_rows_def
proof (rule rows_cover_zip [OF sorted])
  let ?ps = "cs_pendingSnapshots s" and ?C = "pc_caches c"
  show "length (capture_rows ops (length ?ps) ?C) = length ?ps" by (simp add: capture_rows_def)
  fix i l t assume i: "i < length ?ps" and t: "layer_at (capture_rows ops (length ?ps) ?C ! i) l = Some t"
  obtain kv where kv: "l < length ?C" "?C ! l = Some kv" "layer_at (snd (co_TakeSnapshots ops kv)) i = Some t"
  proof -
    have "capture_rows ops (length ?ps) ?C ! i = map (\<lambda>kv. case kv of None \<Rightarrow> None | Some kv \<Rightarrow> layer_at (snd (co_TakeSnapshots ops kv)) i) ?C"
      using i by (simp add: capture_rows_def)
    then have "l < length ?C" "(case ?C ! l of None \<Rightarrow> None | Some kv \<Rightarrow> layer_at (snd (co_TakeSnapshots ops kv)) i) = Some t"
      using t by (simp_all add: layer_at_def [of "map _ _"] split: if_splits)
    then show ?thesis using that by (cases "?C ! l") auto
  qed
  then obtain j where "filled l b offs (take j ks) kv" using live by (auto simp: holds_upto_def each_layer_def)
  from take_covers [OF this kv(3)] have c: "i < length offs" "offs ! i \<le> int (length (take j ks))"
    "covers l (nat (bound b offs i)) (take (nat (offs ! i)) (take j ks)) (ss_data t)" by auto
  then have "offs = map ps_offset ?ps" "b = int k" using offs by auto
  moreover have "take (nat (offs ! i)) (take j ks) = take (nat (offs ! i)) ks"
  proof (cases "nat (offs ! i) \<le> j")
    case False
    then have "length ks \<le> j" using c(2) by (simp add: min_def split: if_splits)
    then show ?thesis by simp
  qed (simp add: min_absorb1)
  ultimately show "covers l (nat (bound (int k) (map ps_offset ?ps) i)) (take (nat (ps_offset (?ps ! i))) ks) (ss_data t)"
    using c i by simp
qed

lemma drained_holds:
  assumes "holds_upto filled b offs ks (pc_caches c)" "cs_pendingSnapshots s = [] \<Longrightarrow> offs = []"
  shows "holds_upto filled 0 [] ks (drained ops s c)"
proof (cases "cs_pendingSnapshots s = []")
  case True
  then show ?thesis using assms filled_idle by (fastforce simp: holds_upto_def drained_def each_layer_def)
next
  case False
  then show ?thesis using assms(1) take_filled
    unfolding holds_upto_def drained_def by (simp add: each_layer_map) (fastforce simp: each_layer_def)
qed

lemma holds_min_offset:
  assumes "holds_upto filled b offs ks cs"
  shows "0 \<le> min_offset ops cs \<and> min_offset ops cs \<le> int (length ks)"
proof -
  have "layers_all (\<lambda>kv. 0 \<le> co_Offset ops kv \<and> co_Offset ops kv \<le> int (length ks)) cs"
    using assms filled_ok by (fastforce simp: holds_upto_def each_layer_def layers_all_def in_set_conv_nth)
  then show ?thesis using minCacheOffset_Some [of ops cs]
    by (auto simp: min_offset_def layers_all_def split: option.splits)
qed

lemma holds_level:
  assumes "holds_upto filled 0 [] ks cs" "level ops cs"
  shows "each_layer (\<lambda>i kv. filled i 0 [] (take (nat (min_offset ops cs)) ks) kv) cs"
  unfolding each_layer_def
proof (intro allI impI)
  fix i kv assume i: "i < length cs" "cs ! i = Some kv"
  then obtain j where j: "filled i 0 [] (take j ks) kv" "j \<le> length ks" using assms(1) by (auto simp: holds_upto_def each_layer_def)
  have "Some kv \<in> set cs" using i by (metis nth_mem)
  then have "co_Offset ops kv = min_offset ops cs" using assms(2) by (simp add: level_def layers_all_def)
  then have "nat (min_offset ops cs) = j" using filled_ok [OF j(1)] j(2) by simp
  then show "filled i 0 [] (take (nat (min_offset ops cs)) ks) kv" using j(1) by simp
qed

lemma holds_ok: "holds_upto filled b offs ks cs \<Longrightarrow> layers_all ok cs"
  unfolding holds_upto_def by (erule each_layer_all) (use filled_ok in blast)

lemma drained_level:
  assumes "layers_all ok (pc_caches c)" "level ops (pc_caches c)"
  shows "level ops (drained ops s c) \<and> min_offset ops (drained ops s c) = min_offset ops (pc_caches c)"
proof (cases "cs_pendingSnapshots s = []")
  case False
  have m: "min_offset ops (drained ops s c) = min_offset ops (pc_caches c)"
    using take_all_ok [OF assms(1)] False by (simp add: drained_def)
  moreover have "level ops (drained ops s c)"
    unfolding level_def m using assms take_ok False
    by (auto simp: drained_def layers_all_map level_def) (auto simp: layers_all_def)
  ultimately show ?thesis by simp
qed (use assms in \<open>simp add: drained_def\<close>)

end

end
