(* ===== verification/FaithfulRunner.thy ===== *)
theory FaithfulRunner
  imports FaithfulSession
begin

text \<open>
  The invariant of a faithful runner, by rule induction over its steps: between sessions every live cache holds keys that
  agree with those of the active path, during a session those of the session, and the snapshots of the trie are right at
  all times.  With it, a session begins with the state of exactly the reused keys, whatever happened before.
\<close>

definition idle_holds :: "(nat \<Rightarrow> int \<Rightarrow> int list \<Rightarrow> trieKey list \<Rightarrow> 'c \<Rightarrow> bool) \<Rightarrow> trieKey list \<Rightarrow> 'c option list \<Rightarrow> bool" where
  "idle_holds filled ps cs \<longleftrightarrow> each_layer (\<lambda>i kv. \<exists>ls. filled i 0 [] ls kv \<and> agree ls ps) cs"

definition begun_holds ::
  "('c, 'd) cache_ops \<Rightarrow> (nat \<Rightarrow> int \<Rightarrow> int list \<Rightarrow> trieKey list \<Rightarrow> 'c \<Rightarrow> bool) \<Rightarrow> trieKey list \<Rightarrow> cacheSession \<Rightarrow> ('c, 'd) prefixCache \<Rightarrow> bool" where
  "begun_holds ops filled ks s c \<longleftrightarrow> (\<exists>n \<le> length ks. path_keys c = take n ks \<and> min_offset ops (pc_caches c) = int n \<and>
     each_layer (\<lambda>i kv. filled i 0 [] (take n ks) kv) (pc_caches c) \<and>
     sorted_wrt (<) (int n # map ps_offset (cs_pendingSnapshots s)))"

definition running_holds ::
  "(nat \<Rightarrow> int \<Rightarrow> int list \<Rightarrow> trieKey list \<Rightarrow> 'c \<Rightarrow> bool) \<Rightarrow> trieKey list \<Rightarrow> cacheSession \<Rightarrow> ('c, 'd) prefixCache \<Rightarrow> bool" where
  "running_holds filled ks s c \<longleftrightarrow> spelled c ks \<and> (\<exists>b offs. holds_upto filled b offs ks (pc_caches c) \<and>
     (offs = [] \<or> offs = map ps_offset (cs_pendingSnapshots s) \<and> b = int (length (path_keys c))) \<and>
     sorted_wrt (<) (int (length (path_keys c)) # map ps_offset (cs_pendingSnapshots s)))"

definition faithful_state ::
  "('c, 'd) cache_ops \<Rightarrow> (nat \<Rightarrow> nat \<Rightarrow> trieKey list \<Rightarrow> 'd \<Rightarrow> bool) \<Rightarrow> (nat \<Rightarrow> int \<Rightarrow> int list \<Rightarrow> trieKey list \<Rightarrow> 'c \<Rightarrow> bool) \<Rightarrow>
     ('c, 'd) pc_state \<Rightarrow> bool" where
  "faithful_state ops covers filled = (\<lambda>(c, ph). case ph of
       Idle \<Rightarrow> pc_good (slots_ok covers) c \<and> idle_holds filled (path_keys c) (pc_caches c)
     | Begun s \<Rightarrow> (\<exists>S. pc_inv (slots_ok covers) c S) \<and> (\<exists>ks. storedKeys c s = Some ks \<and> begun_holds ops filled ks s c)
     | Running s \<Rightarrow> (\<exists>S. pc_inv (slots_ok covers) c S) \<and> (\<exists>ks. storedKeys c s = Some ks \<and> running_holds filled ks s c))"

locale rewinding_cache = faithful_cache +
  assumes rewinding: "rewinds ops filled"
begin

lemma begin_faithful:
  assumes "faithful_state ops covers filled (c, Idle)" "beginAt ops clock inputs items maxReuse c = Some (s, c')"
  shows "\<exists>ks n. faithful_state ops covers filled (c', Begun s) \<and> storedKeys c' s = Some ks \<and> n \<le> length ks \<and> n \<le> maxReuse \<and>
    path_keys c' = take n ks \<and> cs_inputs s = inputs \<and> cs_remaining s = drop n inputs \<and>
    each_layer (\<lambda>i kv. filled i 0 [] (take n ks) kv) (pc_caches c')"
proof -
  have c: "pc_good (slots_ok covers) c" "each_layer (\<lambda>i kv. \<exists>ls. filled i 0 [] ls kv \<and> agree ls (path_keys c)) (pc_caches c)"
    using assms(1) by (simp_all add: faithful_state_def idle_holds_def)
  obtain eff ks where k: "effectiveKeyTokens inputs items = Some eff" "pc_key (pc_draftLookahead (ensureRoot clock c)) eff = Some ks"
    using assms(2) by (auto simp: beginAt_eq bind_eq_Some_conv)
  then have k': "pc_key (pc_draftLookahead c) eff = Some ks" using ensureRoot_ok [OF c(1), of clock] by simp
  obtain s1 c1 S' n p where b: "beginAt ops clock inputs items maxReuse c = Some (s1, c1)" "pc_inv (slots_ok covers) c1 S'"
    "each_layer (\<lambda>i kv. filled i 0 [] (take n ks) kv) (pc_caches c1)" "path_keys c1 = take p ks" "p \<le> length ks" "p \<le> maxReuse"
    "storedKeys c1 s1 = Some ks" "cs_inputs s1 = inputs" "cs_remaining s1 = drop n inputs" "min_offset ops (pc_caches c1) = int n"
    "rewinds ops filled \<longrightarrow> n = p"
    "cs_pendingSnapshots s1 = [] \<or> (\<exists>q. cs_pendingSnapshots s1 = [\<lparr>ps_offset = int q, ps_user = False\<rparr>] \<and> n < q \<and> p \<le> q \<and> q \<le> length ks)"
    by (rule beginAt_filled [OF c k(1) k', of clock maxReuse])
  have np: "n = p" using b(11) rewinding by simp
  have "begun_holds ops filled ks s1 c1"
    unfolding begun_holds_def using b(3-5,10,12) np by (intro exI [of _ p]) auto
  then show ?thesis using assms(2) b np unfolding faithful_state_def by auto
qed

lemma prepare_all_filled:
  assumes "prepare_all ops offs cs = Some cs'" "each_layer (\<lambda>i kv. filled i 0 [] ks kv) cs" "offs \<noteq> []"
  shows "each_layer (\<lambda>i kv. filled i (int (length ks)) offs ks kv) cs' \<and> length cs' = length cs"
proof -
  have len: "length cs' = length cs" and nth: "\<And>i. i < length cs \<Longrightarrow>
      Some (cs' ! i) = (case cs ! i of None \<Rightarrow> Some None | Some kv \<Rightarrow> map_option Some (co_PrepareSnapshots ops kv offs))"
  proof -
    have "those xs = Some ys \<Longrightarrow> xs = map Some ys" for xs :: "'a option option list" and ys
      by (induction xs arbitrary: ys) (auto split: option.splits)
    then have m: "map (\<lambda>kv. case kv of None \<Rightarrow> Some None | Some kv \<Rightarrow> map_option Some (co_PrepareSnapshots ops kv offs)) cs = map Some cs'"
      using assms(1) by (simp add: prepare_all_def)
    from arg_cong [OF m, of length] show "length cs' = length cs" by simp
    then show "Some (cs' ! i) = (case cs ! i of None \<Rightarrow> Some None | Some kv \<Rightarrow> map_option Some (co_PrepareSnapshots ops kv offs))"
      if "i < length cs" for i using arg_cong [OF m, of "\<lambda>xs. xs ! i"] that by simp
  qed
  have "filled i (int (length ks)) offs ks kv'" if i: "i < length cs'" "cs' ! i = Some kv'" for i kv'
  proof -
    obtain kv where "cs ! i = Some kv" "co_PrepareSnapshots ops kv offs = Some kv'"
      using nth [of i] i len by (cases "cs ! i") (auto simp: map_option_case split: option.splits)
    then show ?thesis using prepare_filled assms(2,3) i len by (auto simp: each_layer_def)
  qed
  then show ?thesis using len by (simp add: each_layer_def)
qed

lemma schedule_faithful:
  assumes "faithful_state ops covers filled (c, Begun s)" "schedulePrefillSnapshots ops offsets s c = Some (s', c')"
  shows "faithful_state ops covers filled (c', Running s')"
proof -
  obtain S ks n where c: "pc_inv (slots_ok covers) c S" "storedKeys c s = Some ks" "n \<le> length ks" "path_keys c = take n ks"
    "min_offset ops (pc_caches c) = int n" "each_layer (\<lambda>i kv. filled i 0 [] (take n ks) kv) (pc_caches c)"
    "sorted_wrt (<) (int n # map ps_offset (cs_pendingSnapshots s))"
    using assms(1) unfolding faithful_state_def begun_holds_def by auto
  define P where "P = sort_key ps_offset (fold (schedule_one (int n) (int (pc_draftLookahead c)) (int (length (cs_inputs s))) (cs_items s))
    offsets (cs_pendingSnapshots s))"
  have P: "sorted_wrt (<) (int n # map ps_offset P)" unfolding P_def
    using c(7) by (intro schedule_offsets) (auto simp: strict_sorted_iff)
  have len: "length (path_keys c) = n" using c(3,4) by simp
  have sp: "spelled c ks" by (rule spelledI [OF c(4)])
  show ?thesis
  proof (cases "P = []")
    case True
    then have e: "s' = s\<lparr>cs_pendingSnapshots := []\<rparr>" "c' = c"
      using assms(2) c(5) by (auto simp: schedulePrefillSnapshots_def Let_def P_def)
    have "holds_upto filled 0 [] ks (pc_caches c)" unfolding holds_upto_def
      using c(3,6) by (elim each_layer_mono) blast
    then have "running_holds filled ks s' c'" using sp e by (auto simp: running_holds_def)
    then show ?thesis using c(1,2) e by (auto simp: faithful_state_def)
  next
    case False
    then obtain C where C: "prepare_all ops (map ps_offset P) (pc_caches c) = Some C" "s' = s\<lparr>cs_pendingSnapshots := P\<rparr>"
      "c' = c\<lparr>pc_caches := C\<rparr>"
      using assms(2) c(5) by (auto simp: schedulePrefillSnapshots_def Let_def P_def)
    from prepare_all_filled [OF C(1) c(6)] False c(3) have
      f: "each_layer (\<lambda>i kv. filled i (int n) (map ps_offset P) (take n ks) kv) C" "length C = length (pc_caches c)" by (auto simp: min_absorb2)
    have "holds_upto filled (int n) (map ps_offset P) ks C" unfolding holds_upto_def
      using f(1) c(3) by (elim each_layer_mono) blast
    then have "running_holds filled ks s' c'"
      using sp P len unfolding running_holds_def C(2,3) by (auto simp: spelled_def path_keys_def)
    moreover have "pc_inv (slots_ok covers) c' S" unfolding C(3) by (rule pc_inv_caches [OF c(1) f(2)])
    moreover have "storedKeys c' s' = Some ks" using c(2) by (simp add: C(2,3) storedKeys_def)
    ultimately show ?thesis by (auto simp: faithful_state_def)
  qed
qed

lemma pass_faithful:
  assumes "faithful_state ops covers filled (c, Running s)" "faithful_pass ops writes c s caches toks"
  shows "faithful_state ops covers filled (c\<lparr>pc_caches := caches\<rparr>, Running (s\<lparr>cs_outputs := cs_outputs s @ toks\<rparr>))"
proof -
  let ?s = "s\<lparr>cs_outputs := cs_outputs s @ toks\<rparr>" and ?c = "c\<lparr>pc_caches := caches\<rparr>"
  obtain S ks b offs where c: "pc_inv (slots_ok covers) c S" "storedKeys c s = Some ks" "spelled c ks"
    "holds_upto filled b offs ks (pc_caches c)"
    "offs = [] \<or> offs = map ps_offset (cs_pendingSnapshots s) \<and> b = int (length (path_keys c))"
    "sorted_wrt (<) (int (length (path_keys c)) # map ps_offset (cs_pendingSnapshots s))"
    using assms(1) by (auto simp: faithful_state_def running_holds_def)
  obtain zs where st: "storedKeys ?c ?s = Some (ks @ zs)" using storedKeys_outputs [OF c(2)] by blast
  then have st': "storedKeys c ?s = Some (ks @ zs)" by (simp add: storedKeys_def)
  have len: "length caches = length (pc_caches c)" and w: "\<And>i. i < length caches \<Longrightarrow> case pc_caches c ! i of
             None \<Rightarrow> caches ! i = None
           | Some kv \<Rightarrow> (\<exists>kv' m. caches ! i = Some kv' \<and> nat (co_Offset ops kv) \<le> m \<and> m \<le> length (ks @ zs) \<and>
               writes i (take (nat (co_Offset ops kv)) (ks @ zs)) (drop (nat (co_Offset ops kv)) (take m (ks @ zs))) kv kv')"
    using assms(2) st' by (auto simp: faithful_pass_def)
  have "holds_upto filled b offs (ks @ zs) caches"
    unfolding holds_upto_def each_layer_def
  proof (intro allI impI)
    fix i kv' assume i: "i < length caches" "caches ! i = Some kv'"
    with w [OF i(1)] obtain kv m where kv: "pc_caches c ! i = Some kv" "nat (co_Offset ops kv) \<le> m" "m \<le> length (ks @ zs)"
      "writes i (take (nat (co_Offset ops kv)) (ks @ zs)) (drop (nat (co_Offset ops kv)) (take m (ks @ zs))) kv kv'"
      by (auto split: option.splits)
    from c(4) kv(1) i(1) len obtain j where j: "j \<le> length ks" "filled i b offs (take j ks) kv"
      by (auto simp: holds_upto_def each_layer_def)
    have o: "nat (co_Offset ops kv) = j" using filled_ok [OF j(2)] j(1) by simp
    have e: "take j (ks @ zs) = take j ks" using j(1) by simp
    have "filled i b offs (take j (ks @ zs) @ drop j (take m (ks @ zs))) kv'"
      unfolding e by (rule write_filled [OF j(2) kv(4) [unfolded o e]])
    moreover have "take j (ks @ zs) @ drop j (take m (ks @ zs)) = take m (ks @ zs)"
      using kv(2) unfolding o by (metis append_take_drop_id min.absorb1 take_take)
    ultimately show "\<exists>j \<le> length (ks @ zs). filled i b offs (take j (ks @ zs)) kv'" using kv(3) by auto
  qed
  moreover have "spelled ?c (ks @ zs)" using spelled_append [OF c(3), of zs] by (simp add: spelled_def path_keys_def)
  ultimately have "running_holds filled (ks @ zs) ?s ?c"
    unfolding running_holds_def using c(5,6) by (auto simp: path_keys_def)
  moreover have "pc_inv (slots_ok covers) ?c S" by (rule pc_inv_caches [OF c(1) len])
  ultimately show ?thesis using st by (auto simp: faithful_state_def)
qed

lemma attach_faithful:
  assumes "faithful_state ops covers filled (c, Running s)" "attachPrefillSnapshots ops clock s c = Some (s', c')"
  shows "faithful_state ops covers filled (c', Running s')"
proof -
  obtain S ks b offs where c: "pc_inv (slots_ok covers) c S" "storedKeys c s = Some ks" "spelled c ks"
    "holds_upto filled b offs ks (pc_caches c)"
    "offs = [] \<or> offs = map ps_offset (cs_pendingSnapshots s) \<and> b = int (length (path_keys c))"
    "sorted_wrt (<) (int (length (path_keys c)) # map ps_offset (cs_pendingSnapshots s))"
    using assms(1) by (auto simp: faithful_state_def running_holds_def)
  let ?r = "min_offset ops (drained ops s c)"
  from attachPrefillSnapshots_ok [where B = "rows_cover covers ?r ks", OF c(1-3) pending_cover [OF c(4-6)] rows_fit_cover, where clock = clock]
    assms(2) obtain S' where
    a: "pc_inv (slots_ok covers) c' S'" "spelled c' ks" "s' = s\<lparr>cs_pendingSnapshots := []\<rparr>"
      "pc_draftLookahead c' = pc_draftLookahead c" "pc_caches c' = drained ops s c" by auto
  have "holds_upto filled 0 [] ks (pc_caches c')"
    unfolding a(5) by (rule drained_holds [OF c(4)]) (use c(5) in auto)
  then have "running_holds filled ks s' c'" using a(2,3) by (auto simp: running_holds_def)
  moreover have "storedKeys c' s' = Some ks" using c(2) a(3,4) by (simp add: storedKeys_def)
  ultimately show ?thesis using a(1) by (auto simp: faithful_state_def)
qed

lemma begun_running:
  assumes "faithful_state ops covers filled (c, Begun s)"
  shows "faithful_state ops covers filled (c, Running s)"
proof -
  obtain S ks n where c: "pc_inv (slots_ok covers) c S" "storedKeys c s = Some ks" "n \<le> length ks" "path_keys c = take n ks"
    "each_layer (\<lambda>i kv. filled i 0 [] (take n ks) kv) (pc_caches c)"
    "sorted_wrt (<) (int n # map ps_offset (cs_pendingSnapshots s))"
    using assms unfolding faithful_state_def begun_holds_def by auto
  have "holds_upto filled 0 [] ks (pc_caches c)" unfolding holds_upto_def using c(3,5) by (elim each_layer_mono) blast
  then have "running_holds filled ks s c"
    using c(3,4,6) spelledI [OF c(4)] unfolding running_holds_def by auto
  then show ?thesis using c(1,2) by (auto simp: faithful_state_def)
qed

lemma close_faithful_aux:
  assumes c: "pc_inv (slots_ok covers) c S" "storedKeys c s = Some ks" "spelled c ks" "holds_upto filled b offs ks (pc_caches c)"
    and rows: "\<And>r. rows_cover covers r ks (length (path_keys c)) (pending_rows ops s c)"
    and offs: "cs_pendingSnapshots s = [] \<Longrightarrow> offs = []"
    and level: "level ops (pc_caches c)" and close: "session_close ops clock s c = Some (s', c')"
  shows "faithful_state ops covers filled (c', Idle)"
proof -
  let ?r = "min_offset ops (drained ops s c)"
  have d: "holds_upto filled 0 [] ks (drained ops s c)" by (rule drained_holds [OF c(4) offs])
  have lv: "level ops (drained ops s c)" using drained_level [OF holds_ok [OF c(4)] level] by simp
  have r: "0 \<le> ?r" "?r \<le> int (length ks)" using holds_min_offset [OF d] by auto
  have page: "page_fits (slots_ok covers) ops (drained ops s c) ?r ks"
    by (rule page_fits_filled [OF holds_level [OF d lv] r(2)])
  from session_close_ok [where B = "rows_cover covers ?r ks", OF c(1-3) rows rows_fit_cover page, where clock = clock] close
  obtain S' where a: "pc_inv (slots_ok covers) c' S'" "pc_caches c' = drained ops s c"
    "path_keys c' = take (max (length (path_keys c)) (nat (min_offset ops (pc_caches c')))) ks" by auto
  have "idle_holds filled (path_keys c') (pc_caches c')"
    unfolding idle_holds_def a(2) a(3)
    using d [unfolded holds_upto_def] by (elim each_layer_mono) (use agree_take in blast)
  then show ?thesis using a(1) by (auto simp: faithful_state_def pc_good_def)
qed

lemma close_faithful:
  assumes "faithful_state ops covers filled (c, ph)" "session_of ph = Some s" "level ops (pc_caches c)"
    "session_close ops clock s c = Some (s', c')"
  shows "faithful_state ops covers filled (c', Idle)"
proof -
  have "faithful_state ops covers filled (c, Running s)"
    using assms(1,2) begun_running by (cases ph) auto
  then obtain S ks b offs where c: "pc_inv (slots_ok covers) c S" "storedKeys c s = Some ks" "spelled c ks"
    "holds_upto filled b offs ks (pc_caches c)"
    "offs = [] \<or> offs = map ps_offset (cs_pendingSnapshots s) \<and> b = int (length (path_keys c))"
    "sorted_wrt (<) (int (length (path_keys c)) # map ps_offset (cs_pendingSnapshots s))"
    by (auto simp: faithful_state_def running_holds_def)
  show ?thesis
    by (rule close_faithful_aux [OF c(1-4) pending_cover [OF c(4-6)] _ assms(3,4)]) (use c(5) in auto)
qed

lemma materialize_faithful:
  assumes "faithful_state ops covers filled (c, ph)" "walkNodes (pc_store c) (pc_root c) = Some ns" "n \<in> set ns"
  shows "faithful_state ops covers filled (c\<lparr>pc_store := materialize n i d (pc_store c)\<rparr>, ph)"
proof -
  let ?c = "c\<lparr>pc_store := materialize n i d (pc_store c)\<rparr>"
  have k: "path_keys ?c = path_keys c" "storedKeys ?c s = storedKeys c s" "spelled ?c ks = spelled c ks" for s ks
    by (simp_all add: path_keys_def storedKeys_def spelled_def)
  have inv: "\<exists>S. pc_inv (slots_ok covers) ?c S" if "pc_inv (slots_ok covers) c S" for S
    using pc_inv_materialize [OF that] walkNodes_in [OF that assms(2)] assms(3) by blast
  show ?thesis
  proof (cases ph)
    case Idle
    then show ?thesis using assms materialize_good [OF _ assms(2,3)] k by (auto simp: faithful_state_def)
  next
    case (Begun s)
    then show ?thesis using assms(1) inv k by (auto simp: faithful_state_def begun_holds_def)
  next
    case (Running s)
    then show ?thesis using assms(1) inv k by (auto simp: faithful_state_def running_holds_def)
  qed
qed

lemma shutdown_faithful:
  assumes "faithful_state ops covers filled (c, Idle)" "pc_close ops c = Some c'"
  shows "faithful_state ops covers filled (c', Idle)"
proof -
  have "each_layer (\<lambda>i kv. filled i 0 [] [] (co_Free ops kv)) (pc_caches c)"
    using assms(1) free_filled by (fastforce simp: faithful_state_def idle_holds_def each_layer_def)
  then have "each_layer (\<lambda>i kv. filled i 0 [] [] kv) (pc_caches c')"
    using assms(2) by (auto simp: pc_close_def freeAll_def each_layer_map)
  then have "idle_holds filled (path_keys c') (pc_caches c')"
    unfolding idle_holds_def by (elim each_layer_mono) (use agree_Nil in blast)
  then show ?thesis using pc_close_good [OF assms(2)] by (simp add: faithful_state_def)
qed

lemma faithful_step:
  assumes "pc_step ops (faithful_runner ops filled writes) clock st st'" "faithful_state ops covers filled st"
  shows "faithful_state ops covers filled st'"
  using assms
proof (induction rule: pc_step.induct)
  case begin_step
  then show ?case using begin_faithful by blast
next
  case schedule_step
  then show ?case using schedule_faithful by blast
next
  case forward_step
  then show ?case using pass_faithful by (simp add: faithful_runner_def)
next
  case materialize_step
  then show ?case using materialize_faithful by blast
next
  case attach_step
  then show ?case using attach_faithful by blast
next
  case close_step
  then show ?case using close_faithful by (simp add: faithful_runner_def)
next
  case shutdown_step
  then show ?case using shutdown_faithful by blast
qed

lemma faithful_reach:
  "pc_reach ops (faithful_runner ops filled writes) clock st \<Longrightarrow> faithful_state ops covers filled st"
proof (induction rule: pc_reach.induct)
  case (reach_init caches h)
  then have "idle_holds filled [] caches"
    by (auto simp: faithful_runner_def idle_holds_def elim!: each_layer_mono intro: agree_Nil)
  then show ?case by (simp add: faithful_state_def newPrefixCache_good) (simp add: newPrefixCache_def path_keys_def)
qed (rule faithful_step)

text \<open>Whatever happened before, a session begins with the state of exactly the reused keys in every live cache.\<close>

lemma begin_serves:
  assumes "pc_reach ops (faithful_runner ops filled writes) clock (c, Idle)" "beginAt ops clock inputs items maxReuse c = Some (s, c')"
  shows "\<exists>ks n. storedKeys c' s = Some ks \<and> n \<le> length ks \<and> n \<le> maxReuse \<and> cs_remaining s = drop n inputs \<and>
    each_layer (\<lambda>i kv. filled i 0 [] (take n ks) kv) (pc_caches c')"
  using begin_faithful [OF faithful_reach [OF assms(1)] assms(2)] by blast

end

end
