(* ===== verification/SnapshotSchedule.thy ===== *)
theory SnapshotSchedule
  imports CacheTrie
begin

text \<open>
  The schedule of snapshot captures every kind of cache shares: \<open>pendingSnapshots\<close> of \<open>mlxrunner/cache/cache.go\<close>.
  A nil list of captures is \<open>None\<close>; a capture that is nil, because nothing reached its offset or its range is empty,
  is \<open>None\<close> in the list.
\<close>

record 'd schedule =
  pn_offsets :: "int list"
  pn_captured :: "'d layers option"
  pn_base :: int

definition sched_empty :: "'d schedule" where
  "sched_empty = \<lparr>pn_offsets = [], pn_captured = None, pn_base = 0\<rparr>"

text \<open>A panic for a schedule that is not drained, or offsets that are passed or not ascending.\<close>

definition prepare :: "int \<Rightarrow> int list \<Rightarrow> 'd schedule \<Rightarrow> 'd schedule option" where
  "prepare currentOffset offsets p =
     (if pn_captured p \<noteq> None then None
      else if list_ex (\<lambda>i. offsets ! i < currentOffset \<or> (i > 0 \<and> offsets ! i \<le> offsets ! (i - 1))) [0..<length offsets] then None
      else Some \<lparr>pn_offsets = offsets, pn_captured = Some (replicate (length offsets) None), pn_base = currentOffset\<rparr>)"

definition take_captured :: "'d schedule \<Rightarrow> 'd layers \<times> 'd schedule" where
  "take_captured p =
     ((case pn_captured p of None \<Rightarrow> [] | Some ss \<Rightarrow> ss), p\<lparr>pn_offsets := [], pn_captured := None\<rparr>)"

definition captureReached :: "int \<Rightarrow> (int \<Rightarrow> 'd snapshot option) \<Rightarrow> 'd schedule \<Rightarrow> 'd schedule" where
  "captureReached reached snap p =
     (case pn_captured p of
        None \<Rightarrow> p
      | Some ss \<Rightarrow>
          (let due = (\<lambda>(o', s). s = None \<and> o' = reached);
               p = p\<lparr>pn_captured := Some (map (\<lambda>(o', s). if due (o', s) then snap o' else s) (zip (pn_offsets p) ss))\<rparr>
           in if list_ex due (zip (pn_offsets p) ss) then p\<lparr>pn_base := reached\<rparr> else p))"

definition scheduledIn :: "int \<Rightarrow> int \<Rightarrow> 'd schedule \<Rightarrow> int list" where
  "scheduledIn start end p = filter (\<lambda>o'. o' \<ge> start \<and> o' \<le> end) (pn_offsets p)"

section \<open>What is captured\<close>

lemma prepare_Some:
  assumes "prepare cur offs p = Some q"
  shows "pn_captured p = None \<and> q = \<lparr>pn_offsets = offs, pn_captured = Some (replicate (length offs) None), pn_base = cur\<rparr> \<and>
    sorted_wrt (<) offs \<and> (\<forall>x \<in> set offs. cur \<le> x)"
proof -
  have a: "pn_captured p = None" "q = \<lparr>pn_offsets = offs, pn_captured = Some (replicate (length offs) None), pn_base = cur\<rparr>"
    and n: "\<not> list_ex (\<lambda>i. offs ! i < cur \<or> (i > 0 \<and> offs ! i \<le> offs ! (i - 1))) [0..<length offs]"
    using assms by (simp_all add: prepare_def split: if_splits)
  have a3: "cur \<le> offs ! i \<and> (0 < i \<longrightarrow> offs ! (i - 1) < offs ! i)" if "i < length offs" for i
  proof -
    have "\<not> (offs ! i < cur \<or> (i > 0 \<and> offs ! i \<le> offs ! (i - 1)))"
      using n that unfolding list_ex_iff set_upt by (metis atLeastLessThan_iff le0)
    then show ?thesis by linarith
  qed
  have "sorted_wrt (<) offs"
    unfolding sorted_wrt_iff_nth_Suc_transp [OF transp_on_less] using a3 [of "Suc _"] by auto
  moreover have "\<forall>x \<in> set offs. cur \<le> x" using a3 by (auto simp: in_set_conv_nth)
  ultimately show ?thesis using a by blast
qed

text \<open>A write from one offset to another, for a view of the cache that yields the data of a range.\<close>

definition capture_write :: "(int \<Rightarrow> int \<Rightarrow> 'd snapshot option) \<Rightarrow> int \<Rightarrow> int \<Rightarrow> 'd schedule \<Rightarrow> 'd schedule" where
  "capture_write view start end p = fold (\<lambda>o' p. captureReached o' (view (pn_base p)) p) (scheduledIn start end p) p"

text \<open>The captures of offsets that are all reached: the data of the ranges between the boundaries.\<close>

fun caps :: "(int \<Rightarrow> int \<Rightarrow> 'd option) \<Rightarrow> int \<Rightarrow> int list \<Rightarrow> 'd option list" where
  "caps V b [] = []"
| "caps V b (o' # os) = V b o' # caps V o' os"

lemma caps_append: "caps V b (xs @ ys) = caps V b xs @ caps V (last (b # xs)) ys"
  by (induction xs arbitrary: b) auto

lemma length_caps [simp]: "length (caps V b xs) = length xs"
  by (induction xs arbitrary: b) auto

lemma caps_cong: "(\<And>a o'. o' \<in> set xs \<Longrightarrow> V a o' = W a o') \<Longrightarrow> caps V b xs = caps W b xs"
  by (induction xs arbitrary: b) auto

definition sched_at :: "(int \<Rightarrow> int \<Rightarrow> 'd option) \<Rightarrow> int \<Rightarrow> int list \<Rightarrow> int list \<Rightarrow> 'd schedule \<Rightarrow> bool" where
  "sched_at V base done rest p \<longleftrightarrow> pn_offsets p = done @ rest \<and> sorted_wrt (<) (done @ rest) \<and> (\<forall>x \<in> set (done @ rest). base \<le> x) \<and>
     pn_base p = last (base # done) \<and>
     (\<exists>ss. pn_captured p = Some (ss @ replicate (length rest) None) \<and> map (map_option ss_data) ss = caps V base done)"

lemma sched_at_prepare: "prepare cur offs p = Some q \<Longrightarrow> sched_at V cur [] offs q"
  by (drule prepare_Some) (simp add: sched_at_def)

lemma map_zip_keep:
  assumes "length xs = length ss" "\<And>i. i < length ss \<Longrightarrow> xs ! i \<noteq> r \<or> ss ! i \<noteq> None"
  shows "map (\<lambda>(o', s). if s = None \<and> o' = r then f o' else s) (zip xs ss) = ss \<and>
    \<not> list_ex (\<lambda>(o', s). s = None \<and> o' = r) (zip xs ss)"
  using assms
proof (induction xs ss rule: list_induct2)
  case (Cons x xs s ss)
  have "xs ! i \<noteq> r \<or> ss ! i \<noteq> None" if "i < length ss" for i using Cons.prems [of "Suc i"] that by simp
  then show ?case using Cons.prems [of 0] Cons.IH by auto
qed simp

lemma sched_at_step:
  assumes p: "sched_at V base done (x # rest) p" and v: "\<And>b. base \<le> b \<Longrightarrow> map_option ss_data (view b x) = V b x"
  shows "sched_at V base (done @ [x]) rest (captureReached x (view (pn_base p)) p)"
proof -
  from p obtain ss where ss: "pn_captured p = Some (ss @ None # replicate (length rest) None)"
    "map (map_option ss_data) ss = caps V base done" "pn_offsets p = done @ x # rest" "sorted_wrt (<) (done @ x # rest)"
    "\<forall>y \<in> set (done @ x # rest). base \<le> y" "pn_base p = last (base # done)" by (auto simp: sched_at_def)
  have len: "length ss = length done" using arg_cong [OF ss(2), of length] by simp
  let ?f = "\<lambda>(o', s). if s = None \<and> o' = x then view (pn_base p) o' else s"
  let ?d = "\<lambda>(o', s). s = None \<and> o' = x"
  have neq: "x \<notin> set done" "x \<notin> set rest" using ss(4) by (auto simp: sorted_wrt_append)
  have d: "map ?f (zip done ss) = ss"
    using neq(1) len by (intro conjunct1 [OF map_zip_keep]) (auto simp: in_set_conv_nth)
  have r: "map ?f (zip rest (replicate (length rest) None)) = replicate (length rest) None"
    using neq(2) by (intro conjunct1 [OF map_zip_keep]) (auto simp: in_set_conv_nth)
  have z: "zip (done @ x # rest) (ss @ None # replicate (length rest) None) =
      zip done ss @ (x, None) # zip rest (replicate (length rest) None)" using len by simp
  have c: "captureReached x (view (pn_base p)) p =
      p\<lparr>pn_captured := Some ((ss @ [view (pn_base p) x]) @ replicate (length rest) None), pn_base := x\<rparr>"
    unfolding captureReached_def ss(1) option.case Let_def using d r z ss(3) by simp
  have "map (map_option ss_data) (ss @ [view (pn_base p) x]) = caps V base (done @ [x])"
    using ss(2) v [of "pn_base p"] ss(5,6) by (auto simp: caps_append)
  then show ?thesis using ss(3-5) unfolding c sched_at_def by (intro conjI exI [of _ "ss @ [view (pn_base p) x]"]) simp_all
qed

text \<open>An offset that is due again: either it is captured, or its range is empty.\<close>

lemma sched_at_again:
  assumes p: "sched_at V base (done @ [x]) rest p"
    and v: "view x x = None"
  shows "sched_at V base (done @ [x]) rest (captureReached x (view (pn_base p)) p)"
proof -
  from p obtain ss where ss: "pn_captured p = Some (ss @ replicate (length rest) None)"
    "map (map_option ss_data) ss = caps V base (done @ [x])" "pn_offsets p = (done @ [x]) @ rest"
    "sorted_wrt (<) ((done @ [x]) @ rest)" "\<forall>y \<in> set ((done @ [x]) @ rest). base \<le> y" "pn_base p = x"
    by (auto simp: sched_at_def)
  obtain ts t where ts: "ss = ts @ [t]" "map (map_option ss_data) ts = caps V base done" "map_option ss_data t = V (last (base # done)) x"
    using ss(2) by (cases ss rule: rev_cases) (auto simp: caps_append)
  have len: "length ts = length done" using arg_cong [OF ts(2), of length] by simp
  have neq: "x \<notin> set done" "x \<notin> set rest" using ss(4) by (auto simp: sorted_wrt_append)
  let ?f = "\<lambda>(o', s). if s = None \<and> o' = x then view (pn_base p) o' else s"
  let ?d = "\<lambda>(o', s). s = None \<and> o' = x"
  have d: "map ?f (zip done ts) = ts"
    using neq(1) len by (intro conjunct1 [OF map_zip_keep]) (auto simp: in_set_conv_nth)
  have r: "map ?f (zip rest (replicate (length rest) None)) = replicate (length rest) None"
    using neq(2) by (intro conjunct1 [OF map_zip_keep]) (auto simp: in_set_conv_nth)
  have z: "zip ((done @ [x]) @ rest) ((ts @ [t]) @ replicate (length rest) None) =
      zip done ts @ (x, t) # zip rest (replicate (length rest) None)" using len by simp
  have t': "(if t = None \<and> x = x then view (pn_base p) x else t) = t"
  proof (cases t)
    case None
    then show ?thesis using v ss(6) by simp
  qed simp
  have "captureReached x (view (pn_base p)) p = p"
    unfolding captureReached_def ss(1) ts(1) option.case Let_def ss(3) z
    using d r t' ss(1,6) by (auto simp: ts(1))
  then show ?thesis using p by simp
qed

lemma sched_at_all:
  assumes "sched_at V base done (todo @ rest) p" "\<And>b x. x \<in> set todo \<Longrightarrow> base \<le> b \<Longrightarrow> map_option ss_data (view b x) = V b x"
  shows "sched_at V base (done @ todo) rest (fold (\<lambda>o' p. captureReached o' (view (pn_base p)) p) todo p)"
  using assms
proof (induction todo arbitrary: "done" p)
  case (Cons x todo)
  have "sched_at V base (done @ [x]) (todo @ rest) (captureReached x (view (pn_base p)) p)"
    using Cons.prems by (intro sched_at_step) auto
  from Cons.IH [OF this] Cons.prems(2) show ?case by simp
qed simp

lemma filter_disj_sorted:
  assumes "sorted_wrt (<) xs" "\<And>x y. P x \<Longrightarrow> Q y \<Longrightarrow> x < (y :: int)" "\<And>x. R x \<longleftrightarrow> P x \<or> Q x"
  shows "filter R xs = filter P xs @ filter Q xs"
  using assms(1)
proof (induction xs)
  case (Cons x xs)
  show ?case
  proof (cases "Q x")
    case True
    have "\<not> P y" if "y = x \<or> y \<in> set xs" for y using that assms(2) [OF _ True] Cons.prems by fastforce
    then have "filter P (x # xs) = []" by (auto simp: filter_empty_conv)
    then show ?thesis using Cons True assms(3) by (simp split: if_splits)
  next
    case False
    then show ?thesis using Cons assms(3) by simp
  qed
qed simp

text \<open>A write takes the schedule from what its start had reached to what its end has.\<close>

lemma sched_at_write:
  assumes p: "sched_at V base [o' \<leftarrow> offs. o' \<le> start] [o' \<leftarrow> offs. o' > start] p" and le: "start \<le> end" "sorted_wrt (<) offs"
    and v: "\<And>b x. x \<in> set offs \<Longrightarrow> x \<le> end \<Longrightarrow> base \<le> b \<Longrightarrow> map_option ss_data (view b x) = V b x"
    and V: "\<And>x. view x x = None"
  shows "sched_at V base [o' \<leftarrow> offs. o' \<le> end] [o' \<leftarrow> offs. o' > end] (capture_write view start end p)"
proof -
  define A where "A = [o' \<leftarrow> offs. o' < start]"
  define E where "E = [o' \<leftarrow> offs. o' = start]"
  define B where "B = [o' \<leftarrow> offs. start < o' \<and> o' \<le> end]"
  define C where "C = [o' \<leftarrow> offs. o' > end]"
  have parts: "[o' \<leftarrow> offs. o' \<le> start] = A @ E" "[o' \<leftarrow> offs. o' \<le> end] = A @ E @ B"
    "[o' \<leftarrow> offs. o' > start] = B @ C" "[o' \<leftarrow> offs. start \<le> o' \<and> o' \<le> end] = E @ B"
  proof -
    show l: "[o' \<leftarrow> offs. o' \<le> start] = A @ E" "[o' \<leftarrow> offs. o' > start] = B @ C"
      "[o' \<leftarrow> offs. start \<le> o' \<and> o' \<le> end] = E @ B"
      unfolding A_def E_def B_def C_def using le by (intro filter_disj_sorted; auto)+
    have "[o' \<leftarrow> offs. o' \<le> end] = [o' \<leftarrow> offs. o' \<le> start] @ B"
      unfolding B_def using le by (intro filter_disj_sorted) auto
    then show "[o' \<leftarrow> offs. o' \<le> end] = A @ E @ B" by (simp add: l)
  qed
  have offs: "scheduledIn start end p = E @ B"
  proof -
    have "pn_offsets p = A @ E @ B @ C" using p by (simp add: sched_at_def parts)
    moreover have "[o' \<leftarrow> offs. True] = [o' \<leftarrow> offs. o' \<le> end] @ [o' \<leftarrow> offs. o' > end]"
      using le by (intro filter_disj_sorted) auto
    then have "A @ E @ B @ C = offs" by (simp add: parts C_def)
    ultimately have "pn_offsets p = offs" by simp
    then show ?thesis using parts(4) by (simp add: scheduledIn_def)
  qed
  have E: "E = [] \<or> E = [start]" using le(2)
  proof -
    have "distinct E" using le(2) by (simp add: E_def strict_sorted_iff)
    moreover have "set E \<subseteq> {start}" by (auto simp: E_def)
    ultimately show ?thesis by (cases E rule: remdups_adj.cases) auto
  qed
  have sub: "x \<in> set offs \<and> x \<le> end" if "x \<in> set (E @ B)" for x using that le(1) by (auto simp: E_def B_def)
  have "sched_at V base (A @ E) (B @ C) (fold (\<lambda>o' p. captureReached o' (view (pn_base p)) p) E p)"
  proof (cases "E = []")
    case True
    then show ?thesis using p by (simp add: parts)
  next
    case False
    then have Es: "E = [start]" using E by simp
    have "sched_at V base (A @ [start]) (B @ C) (captureReached start (view (pn_base p)) p)"
      using p V by (intro sched_at_again) (auto simp: parts Es)
    then show ?thesis by (simp add: Es)
  qed
  then have "sched_at V base ((A @ E) @ B) C
      (fold (\<lambda>o' p. captureReached o' (view (pn_base p)) p) B (fold (\<lambda>o' p. captureReached o' (view (pn_base p)) p) E p))"
    by (rule sched_at_all) (use v sub in auto)
  then show ?thesis by (simp add: capture_write_def offs parts C_def)
qed

text \<open>The schedule while it is filled, and what is taken from it.\<close>

definition sched_run :: "(int \<Rightarrow> int \<Rightarrow> 'd option) \<Rightarrow> int \<Rightarrow> int list \<Rightarrow> int \<Rightarrow> 'd schedule \<Rightarrow> bool" where
  "sched_run V base offs reached p \<longleftrightarrow> sorted_wrt (<) offs \<and> sched_at V base [o' \<leftarrow> offs. o' \<le> reached] [o' \<leftarrow> offs. o' > reached] p"

lemma sched_run_prepare:
  assumes "prepare cur offs p = Some q" "V cur cur = None"
  shows "sched_run V cur offs cur q"
proof -
  note q = prepare_Some [OF assms(1)]
  have split: "offs = [o' \<leftarrow> offs. o' \<le> cur] @ [o' \<leftarrow> offs. o' > cur]"
    using filter_disj_sorted [of offs "\<lambda>x. x \<le> cur" "\<lambda>x. x > cur" "\<lambda>_. True"] q by fastforce
  have "set [o' \<leftarrow> offs. o' \<le> cur] \<subseteq> {cur}" using q by auto
  moreover have "distinct [o' \<leftarrow> offs. o' \<le> cur]" using q by (simp add: strict_sorted_iff)
  ultimately have "[o' \<leftarrow> offs. o' \<le> cur] = [] \<or> [o' \<leftarrow> offs. o' \<le> cur] = [cur]"
    by (cases "[o' \<leftarrow> offs. o' \<le> cur]" rule: remdups_adj.cases) auto
  then show ?thesis
  proof
    assume e: "[o' \<leftarrow> offs. o' \<le> cur] = []"
    then have "[o' \<leftarrow> offs. o' > cur] = offs" using split by simp
    then show ?thesis using sched_at_prepare [OF assms(1), of V] q e by (simp add: sched_run_def)
  next
    assume e: "[o' \<leftarrow> offs. o' \<le> cur] = [cur]"
    then obtain rest where r: "offs = cur # rest" "[o' \<leftarrow> offs. o' > cur] = rest" using split by (metis append_Cons append_Nil)
    have "\<exists>ss. replicate (length offs) None = ss @ replicate (length rest) None \<and> map (map_option ss_data) ss = caps V cur [cur]"
      using assms(2) r(1) by (intro exI [of _ "[None]"]) simp
    then show ?thesis using q unfolding sched_run_def sched_at_def e r(2) by (simp add: r(1))
  qed
qed

lemma sched_run_write:
  assumes "sched_run V base offs start p" "start \<le> end" "\<And>x. view x x = None"
    and "\<And>b x. x \<in> set offs \<Longrightarrow> x \<le> end \<Longrightarrow> base \<le> b \<Longrightarrow> map_option ss_data (view b x) = V b x"
  shows "sched_run V base offs end (capture_write view start end p)"
  using assms unfolding sched_run_def by (intro conjI sched_at_write) auto

lemma sched_run_take:
  assumes "sched_run V base offs reached p"
  shows "map (map_option ss_data) (fst (take_captured p)) = caps (\<lambda>a b. if b \<le> reached then V a b else None) base offs"
proof -
  define D where "D = [o' \<leftarrow> offs. o' \<le> reached]"
  define R where "R = [o' \<leftarrow> offs. o' > reached]"
  from assms obtain ss where ss: "pn_captured p = Some (ss @ replicate (length R) None)" "map (map_option ss_data) ss = caps V base D"
    by (auto simp: sched_run_def sched_at_def D_def R_def)
  let ?W = "\<lambda>a b. if b \<le> reached then V a b else None"
  have offs: "offs = D @ R" unfolding D_def R_def
    using filter_disj_sorted [of offs "\<lambda>x. x \<le> reached" "\<lambda>x. x > reached" "\<lambda>_. True"] assms
    by (fastforce simp: sched_run_def)
  have "caps ?W base D = caps V base D" by (rule caps_cong) (auto simp: D_def)
  moreover have "caps ?W b R = replicate (length R) None" for b
  proof -
    have "caps ?W b xs = replicate (length xs) None" if "\<forall>x \<in> set xs. x > reached" for xs b
      using that by (induction xs arbitrary: b) auto
    then show ?thesis by (simp add: R_def)
  qed
  ultimately show ?thesis using ss by (simp add: take_captured_def offs caps_append)
qed

end
