(* ===== verification/HiddenCache.thy ===== *)
theory HiddenCache
  imports SnapshotSchedule PrefixCacheSteps
begin

text \<open>
  \<open>mlxrunner/cache/hidden.go\<close>: the cache of the hidden outputs of the backbone.  Its array is immutable, so a slice of
  it is a value: an array of one batch is the list of its rows, a nil array is \<open>None\<close>.  The bytes of a row are a
  parameter.  A view of a nil array is a panic, \<open>None\<close>.  Scopes only hold arrays alive and are left out.
\<close>

section \<open>Model\<close>

record 'r hiddenSnapshot =
  hs_hidden :: "'r list"
  hs_start :: int

record 'r hiddenCache =
  hc_hidden :: "'r list option"
  hc_backing :: int
  hc_snapshots :: "'r hiddenSnapshot schedule"

definition NewHiddenCache :: "'r hiddenCache" where
  "NewHiddenCache = \<lparr>hc_hidden = None, hc_backing = 0, hc_snapshots = sched_empty\<rparr>"

definition slice :: "int \<Rightarrow> int \<Rightarrow> 'r list \<Rightarrow> 'r list" where
  "slice a b rows = take (nat (b - a)) (drop (nat a) rows)"

definition NumBytes :: "int \<Rightarrow> 'r list \<Rightarrow> int" where
  "NumBytes rowBytes rows = rowBytes * int (length rows)"

definition hc_Offset :: "'r hiddenCache \<Rightarrow> int" where
  "hc_Offset c = (case hc_hidden c of None \<Rightarrow> 0 | Some rows \<Rightarrow> int (length rows))"

definition newHiddenSnapshot :: "'r list \<Rightarrow> int \<Rightarrow> int \<Rightarrow> 'r hiddenSnapshot snapshot" where
  "newHiddenSnapshot hidden start backingBytes =
     \<lparr>ss_data = \<lparr>hs_hidden = hidden, hs_start = start\<rparr>, ss_size = backingBytes, ss_hook = False\<rparr>"

definition hc_snapshot :: "int \<Rightarrow> int \<Rightarrow> 'r hiddenCache \<Rightarrow> 'r hiddenSnapshot snapshot option option" where
  "hc_snapshot start end c =
     (if start = end then Some None
      else case hc_hidden c of
             None \<Rightarrow> None
           | Some rows \<Rightarrow> Some (Some (newHiddenSnapshot (slice start end rows) start (hc_backing c))))"

definition hc_Snapshot :: "int \<Rightarrow> 'r hiddenCache \<Rightarrow> 'r hiddenSnapshot snapshot option option" where
  "hc_Snapshot start c = hc_snapshot start (hc_Offset c) c"

definition hc_replace :: "'r list \<Rightarrow> int \<Rightarrow> 'r hiddenCache \<Rightarrow> 'r hiddenCache" where
  "hc_replace hidden backingBytes c = c\<lparr>hc_hidden := Some hidden, hc_backing := backingBytes\<rparr>"

definition orNil :: "'a option option \<Rightarrow> 'a option" where
  "orNil x = (case x of None \<Rightarrow> None | Some s \<Rightarrow> s)"

text \<open>The array is there when the captures are taken, so that none of them is a panic.\<close>

definition hc_Append :: "int \<Rightarrow> 'r list \<Rightarrow> 'r hiddenCache \<Rightarrow> 'r hiddenCache" where
  "hc_Append rowBytes hidden c =
     (let start = hc_Offset c;
          hidden = (case hc_hidden c of Some old \<Rightarrow> old @ hidden | None \<Rightarrow> hidden);
          c = hc_replace hidden (NumBytes rowBytes hidden) c
      in fold (\<lambda>offset c. c\<lparr>hc_snapshots :=
             captureReached offset (\<lambda>_. orNil (hc_snapshot (pn_base (hc_snapshots c)) offset c)) (hc_snapshots c)\<rparr>)
           (scheduledIn start (hc_Offset c) (hc_snapshots c)) c)"

definition hc_PrepareSnapshots :: "int list \<Rightarrow> 'r hiddenCache \<Rightarrow> 'r hiddenCache option" where
  "hc_PrepareSnapshots offsets c = map_option (\<lambda>p. c\<lparr>hc_snapshots := p\<rparr>) (prepare (hc_Offset c) offsets (hc_snapshots c))"

definition hc_TakeSnapshots :: "'r hiddenCache \<Rightarrow> 'r hiddenSnapshot layers \<times> 'r hiddenCache" where
  "hc_TakeSnapshots c = (let (taken, p) = take_captured (hc_snapshots c) in (taken, c\<lparr>hc_snapshots := p\<rparr>))"

definition hc_Free :: "'r hiddenCache \<Rightarrow> 'r hiddenCache" where
  "hc_Free c = (snd (hc_TakeSnapshots c))\<lparr>hc_hidden := None, hc_backing := 0\<rparr>"

definition hc_Restore :: "int \<Rightarrow> 'r hiddenSnapshot snapshot option \<Rightarrow> int \<Rightarrow> 'r hiddenCache \<Rightarrow> 'r hiddenCache \<times> bool" where
  "hc_Restore rowBytes snapshot target c =
     (if target < 0 then (c, False)
      else if target = 0 then (hc_Free c, True)
      else if target \<le> hc_Offset c then
        (case hc_hidden c of
           None \<Rightarrow> (c, True)
         | Some rows \<Rightarrow> (hc_replace (slice 0 target rows) (hc_backing c) c, True))
      else case snapshot of
             None \<Rightarrow> (c, False)
           | Some snap \<Rightarrow>
               (let s = ss_data snap in
                if hs_start s > hc_Offset c \<or> target > hs_start s + int (length (hs_hidden s)) then (c, False)
                else
                  (let part = slice (hc_Offset c - hs_start s) (target - hs_start s) (hs_hidden s)
                   in case hc_hidden c of
                        None \<Rightarrow> (hc_replace part (ss_size snap) c, True)
                      | Some _ \<Rightarrow> (hc_Append rowBytes part c, True))))"

definition hc_Split ::
  "'r hiddenSnapshot snapshot option \<Rightarrow> int \<Rightarrow> 'r hiddenSnapshot snapshot option \<times> 'r hiddenSnapshot snapshot option" where
  "hc_Split snapshot at =
     (case snapshot of
        None \<Rightarrow> (None, None)
      | Some snap \<Rightarrow>
          (let s = ss_data snap; n = at - hs_start s in
           if n \<le> 0 then (None, Some snap)
           else if n \<ge> int (length (hs_hidden s)) then (Some snap, None)
           else (Some (newHiddenSnapshot (slice 0 n (hs_hidden s)) (hs_start s) (ss_size snap)),
                 Some (newHiddenSnapshot (drop (nat n) (hs_hidden s)) at (ss_size snap)))))"

definition hc_Merge ::
  "int \<Rightarrow> 'r hiddenSnapshot snapshot option \<Rightarrow> 'r hiddenSnapshot snapshot option \<Rightarrow> 'r hiddenSnapshot snapshot option" where
  "hc_Merge rowBytes parent child =
     (case (parent, child) of
        (Some a, Some b) \<Rightarrow>
          (let joined = hs_hidden (ss_data a) @ hs_hidden (ss_data b)
           in Some (newHiddenSnapshot joined (hs_start (ss_data a)) (NumBytes rowBytes joined)))
      | _ \<Rightarrow> None)"

text \<open>As the layers of a prefix cache.  A page-out only asks for the rows of a cache that has some.\<close>

definition hidden_ops :: "int \<Rightarrow> ('r hiddenCache, 'r hiddenSnapshot) cache_ops" where
  "hidden_ops rowBytes =
     \<lparr>co_Offset = hc_Offset, co_Restore = (\<lambda>c s t. hc_Restore rowBytes s t c), co_Free = hc_Free,
      co_Snapshot = (\<lambda>c start. orNil (hc_Snapshot start c)), co_Split = (\<lambda>_ s. hc_Split (Some s)),
      co_Merge = (\<lambda>_. hc_Merge rowBytes), co_PrepareSnapshots = (\<lambda>c offsets. hc_PrepareSnapshots offsets c),
      co_TakeSnapshots = (\<lambda>c. (let (taken, c) = hc_TakeSnapshots c in (c, taken)))\<rparr>"

section \<open>The contract\<close>

lemma length_slice [simp]: "0 \<le> a \<Longrightarrow> b \<le> int (length rows) \<Longrightarrow> int (length (slice a b rows)) = (if a \<le> b then b - a else 0)"
  by (auto simp: slice_def)

lemma slice_append:
  assumes "0 \<le> a" "b \<le> int (length rows)"
  shows "slice a b (rows @ ys) = slice a b rows"
proof -
  have "nat (b - a) - (length rows - nat a) = 0" using assms by linarith
  then show ?thesis by (simp add: slice_def)
qed

lemma append_slice: "0 \<le> a \<Longrightarrow> a \<le> b \<Longrightarrow> slice 0 a rows @ slice a b rows = slice 0 b rows"
  using take_add [of "nat a" "nat (b - a)" rows] by (simp add: slice_def nat_add_distrib [symmetric])

lemma hc_capture_fold:
  assumes "hc_hidden c = Some rows"
  shows "fold (\<lambda>offset c. c\<lparr>hc_snapshots :=
      captureReached offset (\<lambda>_. orNil (hc_snapshot (pn_base (hc_snapshots c)) offset c)) (hc_snapshots c)\<rparr>) os c =
    c\<lparr>hc_snapshots := fold (\<lambda>o' p. captureReached o'
      (\<lambda>_. if pn_base p = o' then None else Some (newHiddenSnapshot (slice (pn_base p) o' rows) (pn_base p) (hc_backing c))) p)
      os (hc_snapshots c)\<rparr>"
  using assms
proof (induction os arbitrary: c)
  case (Cons x os)
  have "orNil (hc_snapshot b x c) = (if b = x then None else Some (newHiddenSnapshot (slice b x rows) b (hc_backing c)))" for b
    using Cons.prems by (simp add: hc_snapshot_def orNil_def)
  then show ?case using Cons by (simp cong: if_cong)
qed simp

lemma captureReached_const:
  "captureReached r (\<lambda>_. f r) p = captureReached r f p"
proof -
  have "(\<lambda>(o', s). if s = None \<and> o' = r then f r else s) = (\<lambda>(o', s). if s = None \<and> o' = r then f o' else s)"
    by (auto split: if_splits)
  then show ?thesis unfolding captureReached_def Let_def prod.case by (simp only:)
qed

definition hc_view :: "'r list \<Rightarrow> int \<Rightarrow> int \<Rightarrow> int \<Rightarrow> 'r hiddenSnapshot snapshot option" where
  "hc_view rows backing a b = (if a = b then None else Some (newHiddenSnapshot (slice a b rows) a backing))"

text \<open>What a write does.\<close>

lemma hc_Append_eq:
  "hc_Append nb ys c =
     (let rows = (case hc_hidden c of Some old \<Rightarrow> old @ ys | None \<Rightarrow> ys)
      in c\<lparr>hc_hidden := Some rows, hc_backing := NumBytes nb rows,
           hc_snapshots := capture_write (hc_view rows (NumBytes nb rows)) (hc_Offset c) (int (length rows)) (hc_snapshots c)\<rparr>)"
proof -
  define rows where "rows = (case hc_hidden c of Some old \<Rightarrow> old @ ys | None \<Rightarrow> ys)"
  let ?c = "hc_replace rows (NumBytes nb rows) c"
  have r: "hc_hidden ?c = Some rows" "hc_Offset ?c = int (length rows)" "hc_snapshots ?c = hc_snapshots c"
    "hc_backing ?c = NumBytes nb rows" by (simp_all add: hc_replace_def hc_Offset_def)
  have f: "(\<lambda>o' p. captureReached o'
      (\<lambda>_. if pn_base p = o' then None else Some (newHiddenSnapshot (slice (pn_base p) o' rows) (pn_base p) (NumBytes nb rows))) p) =
    (\<lambda>o' p. captureReached o' (hc_view rows (NumBytes nb rows) (pn_base p)) p)"
    using captureReached_const [of _ "hc_view rows (NumBytes nb rows) _"] by (simp add: hc_view_def fun_eq_iff)
  show ?thesis
    unfolding hc_Append_def Let_def rows_def [symmetric] hc_capture_fold [OF r(1)] r(2-4) f
    by (simp add: capture_write_def hc_replace_def)
qed

lemma hc_Offset_Append: "hc_Offset (hc_Append nb ys c) = hc_Offset c + int (length ys)"
  by (simp add: hc_Append_eq Let_def hc_Offset_def split: option.split)

lemma hc_Free_empty [simp]: "hc_hidden (hc_Free c) = None" "hc_Offset (hc_Free c) = 0"
  by (simp_all add: hc_Free_def hc_Offset_def)

lemma hc_Restore_Offset:
  assumes "hc_Restore nb s t c = (c', b)"
  shows "if b then hc_Offset c' = t else c' = c"
proof (cases "t < 0 \<or> t = 0 \<or> t \<le> hc_Offset c \<or> s = None")
  case True
  moreover have "hc_Offset (hc_replace (slice 0 t rows) k c) = t" if "0 < t" "t \<le> hc_Offset c" "hc_hidden c = Some rows" for rows k
    using that by (simp add: hc_replace_def hc_Offset_def)
  moreover have "hc_Offset c = 0" if "hc_hidden c = None" using that by (simp add: hc_Offset_def)
  moreover note assms
  ultimately show ?thesis by (auto simp: hc_Restore_def split: if_splits option.splits)
next
  case False
  then obtain sn where sn: "s = Some sn" by auto
  let ?r = "hs_hidden (ss_data sn)" and ?st = "hs_start (ss_data sn)"
  have "hc_Offset (hc_replace (slice (hc_Offset c - ?st) (t - ?st) ?r) k c) = t - hc_Offset c"
      "hc_Offset (hc_Append nb (slice (hc_Offset c - ?st) (t - ?st) ?r) c) = t"
    if "?st \<le> hc_Offset c" "t \<le> ?st + int (length ?r)" for k
    using that False by (simp_all add: hc_Offset_Append) (simp add: hc_replace_def hc_Offset_def)
  moreover have "hc_Offset c = 0" if "hc_hidden c = None" using that by (simp add: hc_Offset_def)
  moreover note assms
  ultimately show ?thesis using False by (auto simp: hc_Restore_def Let_def sn split: if_splits option.splits)
qed

interpretation hidden: live_cache "hidden_ops nb" "\<lambda>_. True" for nb :: int
proof unfold_locales
  fix c c' :: "'a hiddenCache" and s t
  show "0 \<le> co_Offset (hidden_ops nb) c" by (simp add: hidden_ops_def hc_Offset_def split: option.split)
  show "True \<and> co_Offset (hidden_ops nb) c' = t" if "co_Restore (hidden_ops nb) c s t = (c', True)"
    using hc_Restore_Offset [of nb s t c c' True] that by (simp add: hidden_ops_def)
  show "True \<and> co_Offset (hidden_ops nb) c' = co_Offset (hidden_ops nb) c" if "co_Restore (hidden_ops nb) c s t = (c', False)"
    using hc_Restore_Offset [of nb s t c c' False] that by (simp add: hidden_ops_def)
  show "True \<and> co_Offset (hidden_ops nb) (co_Free (hidden_ops nb) c) = 0" by (simp add: hidden_ops_def)
  show "True \<and> co_Offset (hidden_ops nb) c' = co_Offset (hidden_ops nb) c"
    if "co_PrepareSnapshots (hidden_ops nb) c offs = Some c'" for offs
    using that by (auto simp: hidden_ops_def hc_PrepareSnapshots_def hc_Offset_def)
  show "True \<and> co_Offset (hidden_ops nb) (fst (co_TakeSnapshots (hidden_ops nb) c)) = co_Offset (hidden_ops nb) c"
    by (simp add: hidden_ops_def hc_TakeSnapshots_def case_prod_beta hc_Offset_def)
qed

section \<open>What the captures hold\<close>

definition hc_rows :: "'r hiddenCache \<Rightarrow> 'r list" where
  "hc_rows c = (case hc_hidden c of None \<Rightarrow> [] | Some rows \<Rightarrow> rows)"

lemma hc_Offset_rows: "hc_Offset c = int (length (hc_rows c))"
  by (simp add: hc_Offset_def hc_rows_def split: option.split)

lemma hc_rows_Append: "hc_rows (hc_Append nb ys c) = hc_rows c @ ys"
  by (simp add: hc_Append_eq Let_def hc_rows_def split: option.split)

text \<open>The captures a schedule asks for: the rows from one boundary to the next, those that are there.\<close>

fun edges :: "int \<Rightarrow> int list \<Rightarrow> 'r list \<Rightarrow> 'r hiddenSnapshot option list" where
  "edges b [] rows = []"
| "edges b (o' # os) rows =
     (if o' \<le> int (length rows) \<and> b \<noteq> o' then Some \<lparr>hs_hidden = slice b o' rows, hs_start = b\<rparr> else None) # edges o' os rows"

definition hc_want :: "'r list \<Rightarrow> int \<Rightarrow> int \<Rightarrow> 'r hiddenSnapshot option" where
  "hc_want rows a b = (if a = b then None else Some \<lparr>hs_hidden = slice a b rows, hs_start = a\<rparr>)"

lemma edges_caps: "edges b os rows =
    caps (\<lambda>a b. if b \<le> int (length rows) then hc_want rows a b else None) b os"
  by (induction os arbitrary: b) (auto simp: hc_want_def)

lemma hc_writes_run:
  assumes "sched_run (hc_want (hc_rows c @ concat writes @ zs))
      base offs (hc_Offset c) (hc_snapshots c)" "0 \<le> base"
  shows "sched_run (hc_want (hc_rows c @ concat writes @ zs))
      base offs (hc_Offset (fold (hc_Append nb) writes c)) (hc_snapshots (fold (hc_Append nb) writes c)) \<and>
    hc_rows (fold (hc_Append nb) writes c) = hc_rows c @ concat writes"
  using assms(1)
proof (induction writes arbitrary: c)
  case (Cons w writes)
  define rows where "rows = hc_rows c @ w"
  define V where "V = hc_want (hc_rows c @ concat (w # writes) @ zs)"
  have sn: "hc_snapshots (hc_Append nb w c) = capture_write (hc_view rows (NumBytes nb rows)) (hc_Offset c) (int (length rows)) (hc_snapshots c)"
    by (simp add: hc_Append_eq Let_def rows_def hc_rows_def split: option.split)
  have "sched_run V base offs (int (length rows)) (hc_snapshots (hc_Append nb w c))"
    unfolding sn
  proof (rule sched_run_write)
    show "sched_run V base offs (hc_Offset c) (hc_snapshots c)" using Cons.prems by (simp add: V_def)
    show "hc_Offset c \<le> int (length rows)" by (simp add: hc_Offset_rows rows_def)
    show "hc_view rows (NumBytes nb rows) x x = None" for x by (simp add: hc_view_def)
    show "map_option ss_data (hc_view rows (NumBytes nb rows) b x) = V b x" if "x \<le> int (length rows)" "base \<le> b" for b x
    proof -
      have "slice b x (rows @ concat writes @ zs) = slice b x rows" using that assms(2) by (intro slice_append) auto
      then show ?thesis by (simp add: V_def hc_want_def hc_view_def newHiddenSnapshot_def rows_def)
    qed
  qed
  moreover have "hc_Offset (hc_Append nb w c) = int (length rows)" by (simp add: hc_Offset_rows hc_rows_Append rows_def)
  ultimately show ?case using Cons.IH [of "hc_Append nb w c"] by (simp add: hc_rows_Append V_def)
qed simp

lemma hc_captures:
  assumes "hc_PrepareSnapshots offs c = Some c0"
  shows "map (map_option ss_data) (fst (hc_TakeSnapshots (fold (hc_Append nb) writes c0))) =
    edges (hc_Offset c) offs (hc_rows c @ concat writes)"
proof -
  from assms obtain p where p: "prepare (hc_Offset c) offs (hc_snapshots c) = Some p" "c0 = c\<lparr>hc_snapshots := p\<rparr>"
    by (auto simp: hc_PrepareSnapshots_def)
  have c0: "hc_Offset c0 = hc_Offset c" "hc_rows c0 = hc_rows c" by (simp_all add: p(2) hc_Offset_def hc_rows_def)
  let ?V = "hc_want (hc_rows c0 @ concat writes @ [])"
  have "sched_run ?V (hc_Offset c) offs (hc_Offset c0) (hc_snapshots c0)"
    using sched_run_prepare [OF p(1), of ?V] by (simp add: p(2) c0(1) hc_Offset_def hc_want_def)
  from hc_writes_run [OF this, of nb] have r: "sched_run ?V (hc_Offset c) offs (hc_Offset (fold (hc_Append nb) writes c0))
      (hc_snapshots (fold (hc_Append nb) writes c0))" "hc_rows (fold (hc_Append nb) writes c0) = hc_rows c @ concat writes"
    by (auto simp: hc_Offset_rows c0(2))
  from sched_run_take [OF r(1)] show ?thesis
    by (simp add: hc_TakeSnapshots_def case_prod_beta hc_Offset_rows r(2) edges_caps c0(2) cong: if_cong)
qed

end
