(* ===== verification/HiddenFaithful.thy ===== *)
theory HiddenFaithful
  imports FaithfulRunner HiddenCache
begin

text \<open>
  The cache of hidden outputs is a faithful cache: it interprets \<open>rewinding_cache\<close>.  The row at a position is a function
  of the layer and of the keys up to that position, the argument \<open>row\<close>: what the backbone computes.
\<close>

definition hidden_rows :: "(nat \<Rightarrow> trieKey list \<Rightarrow> 'r) \<Rightarrow> nat \<Rightarrow> trieKey list \<Rightarrow> 'r list" where
  "hidden_rows row i ks = map (\<lambda>j. row i (take (Suc j) ks)) [0..<length ks]"

lemma length_hidden_rows [simp]: "length (hidden_rows row i ks) = length ks"
  by (simp add: hidden_rows_def)

lemma take_hidden_rows: "take n (hidden_rows row i ks) = hidden_rows row i (take n ks)"
  by (auto simp: hidden_rows_def take_map min_def intro!: map_cong)

lemma hidden_rows_append: "hidden_rows row i (ks @ ms) = hidden_rows row i ks @ drop (length ks) (hidden_rows row i (ks @ ms))"
  using append_take_drop_id [of "length ks" "hidden_rows row i (ks @ ms)"] by (simp add: take_hidden_rows)

definition hidden_covers :: "(nat \<Rightarrow> trieKey list \<Rightarrow> 'r) \<Rightarrow> nat \<Rightarrow> nat \<Rightarrow> trieKey list \<Rightarrow> 'r hiddenSnapshot \<Rightarrow> bool" where
  "hidden_covers row i k ks d \<longleftrightarrow> hs_start d = int k \<and> k \<le> length ks \<and> hs_hidden d = drop k (hidden_rows row i ks)"

text \<open>A schedule that is not in use.\<close>

definition unscheduled :: "'d schedule \<Rightarrow> bool" where
  "unscheduled p \<longleftrightarrow> pn_offsets p = [] \<and> pn_captured p = None"

definition hidden_filled ::
  "(nat \<Rightarrow> trieKey list \<Rightarrow> 'r) \<Rightarrow> nat \<Rightarrow> int \<Rightarrow> int list \<Rightarrow> trieKey list \<Rightarrow> 'r hiddenCache \<Rightarrow> bool" where
  "hidden_filled row i b offs ks c \<longleftrightarrow> hc_rows c = hidden_rows row i ks \<and>
     (if offs = [] then unscheduled (hc_snapshots c)
      else 0 \<le> b \<and> (\<forall>zs. sched_run (hc_want (hidden_rows row i ks @ zs)) b offs (int (length ks)) (hc_snapshots c)))"

text \<open>A forward pass appends the rows of the new keys.\<close>

definition hidden_writes ::
  "int \<Rightarrow> (nat \<Rightarrow> trieKey list \<Rightarrow> 'r) \<Rightarrow> nat \<Rightarrow> trieKey list \<Rightarrow> trieKey list \<Rightarrow> 'r hiddenCache \<Rightarrow> 'r hiddenCache \<Rightarrow> bool" where
  "hidden_writes nb row i ks ms c c' \<longleftrightarrow> c' = hc_Append nb (drop (length ks) (hidden_rows row i (ks @ ms))) c"

section \<open>The laws\<close>

lemma caps_nth: "j < length os \<Longrightarrow> caps V b os ! j = V ((b # os) ! j) (os ! j)"
  by (induction os arbitrary: b j) (auto simp: nth_Cons split: nat.splits)

lemma slice_drop_take: "0 \<le> a \<Longrightarrow> slice a b rows = drop (nat a) (take (nat b) rows)"
proof -
  assume "0 \<le> a"
  then have "nat (b - a) = nat b - nat a" by linarith
  then show ?thesis by (simp add: slice_def drop_take)
qed

lemma unscheduled_write: "unscheduled p \<Longrightarrow> capture_write view a b p = p"
  by (simp add: unscheduled_def capture_write_def scheduledIn_def)

lemma hc_snapshots_Append: "unscheduled (hc_snapshots c) \<Longrightarrow> hc_snapshots (hc_Append nb ys c) = hc_snapshots c"
  by (simp add: hc_Append_eq Let_def unscheduled_write)

lemma hc_Free_idle: "unscheduled (hc_snapshots (hc_Free c)) \<and> hc_rows (hc_Free c) = []"
  by (simp add: hc_Free_def hc_TakeSnapshots_def take_captured_def unscheduled_def hc_rows_def case_prod_beta)

lemma hidden_rows_Nil [simp]: "hidden_rows row i [] = []"
  by (simp add: hidden_rows_def)

lemma hidden_restore:
  assumes f: "hidden_filled row i 0 [] (take j ks) c" and j: "j \<le> length ks" and t: "0 \<le> t"
    and s: "case s of None \<Rightarrow> True | Some sn \<Rightarrow> j < nat t \<and> nat t \<le> length ks \<and> (\<exists>k. hidden_covers row i k ks (ss_data sn))"
    and r: "hc_Restore nb s t c = (c', True)"
  shows "hidden_filled row i 0 [] (take (nat t) ks) c' \<and> (s = None \<longrightarrow> nat t \<le> j)"
proof -
  have c: "hc_rows c = hidden_rows row i (take j ks)" "unscheduled (hc_snapshots c)" using f by (simp_all add: hidden_filled_def)
  have off: "hc_Offset c = int j" using c(1) j by (simp add: hc_Offset_rows)
  consider "t = 0" | "0 < t" "t \<le> int j" | sn where "s = Some sn" "0 < t" "int j < t"
    using r t off by (cases s) (auto simp: hc_Restore_def split: if_splits)
  then show ?thesis
  proof cases
    case 1
    then have "c' = hc_Free c" using r by (simp add: hc_Restore_def)
    then show ?thesis using hc_Free_idle [of c] 1 by (simp add: hidden_filled_def)
  next
    case 2
    then have "hc_hidden c \<noteq> None" using off by (auto simp: hc_Offset_def split: option.splits)
    then obtain rows where rows: "hc_hidden c = Some rows" by auto
    then have c': "c' = hc_replace (slice 0 t rows) (hc_backing c) c" "rows = hidden_rows row i (take j ks)"
      using r 2 off c(1) by (auto simp: hc_Restore_def hc_rows_def)
    then have "hc_rows c' = hidden_rows row i (take (nat t) (take j ks))"
      by (simp add: hc_replace_def hc_rows_def slice_drop_take take_hidden_rows)
    moreover have "nat t \<le> j" using 2 by simp
    ultimately show ?thesis using c(2) c'(1) by (simp add: hidden_filled_def hc_replace_def min_absorb1)
  next
    case 3
    obtain k where k: "j < nat t" "nat t \<le> length ks" "hs_start (ss_data sn) = int k" "k \<le> length ks"
      "hs_hidden (ss_data sn) = drop k (hidden_rows row i ks)" using s 3(1) by (auto simp: hidden_covers_def)
    define part where "part = slice (int j - int k) (t - int k) (drop k (hidden_rows row i ks))"
    have kj: "k \<le> j" using r 3 off k by (auto simp: hc_Restore_def Let_def split: if_splits option.splits)
    have n: "nat (int j - int k) = j - k" "nat (t - int k) = nat t - k" "0 \<le> int j - int k" using kj k(1) by linarith+
    have "part = drop (j - k) (take (nat t - k) (drop k (hidden_rows row i ks)))"
      unfolding part_def slice_drop_take [OF n(3)] n(1,2) by (rule refl)
    also have "\<dots> = drop j (take (nat t) (hidden_rows row i ks))"
      using kj by (simp add: drop_take)
    finally have part: "part = drop j (hidden_rows row i (take (nat t) ks))" by (simp only: take_hidden_rows)
    have e: "hidden_rows row i (take j ks) @ part = hidden_rows row i (take (nat t) ks)"
      using append_take_drop_id [of j "hidden_rows row i (take (nat t) ks)"] k(1) by (simp add: part take_hidden_rows min_absorb1)
    have c': "c' = (case hc_hidden c of None \<Rightarrow> hc_replace part (ss_size sn) c | Some _ \<Rightarrow> hc_Append nb part c)"
      using r 3 off k kj by (auto simp: hc_Restore_def Let_def part_def split: if_splits option.splits)
    have "hc_rows c' = hidden_rows row i (take (nat t) ks)"
      using e c(1) unfolding c' by (cases "hc_hidden c") (auto simp: hc_rows_Append hc_replace_def, auto simp: hc_rows_def)
    moreover have "unscheduled (hc_snapshots c')" unfolding c'
      using c(2) by (cases "hc_hidden c") (simp_all add: hc_snapshots_Append hc_replace_def)
    ultimately show ?thesis using 3(1) by (simp add: hidden_filled_def)
  qed
qed

lemma hidden_write:
  assumes "hidden_filled row i b offs ks c" "hidden_writes nb row i ks ms c c'"
  shows "hidden_filled row i b offs (ks @ ms) c'"
proof -
  define w where "w = drop (length ks) (hidden_rows row i (ks @ ms))"
  have c: "hc_rows c = hidden_rows row i ks" using assms(1) by (simp add: hidden_filled_def)
  have c': "c' = hc_Append nb w c" using assms(2) by (simp add: hidden_writes_def w_def)
  have e: "hidden_rows row i ks @ w = hidden_rows row i (ks @ ms)" unfolding w_def by (rule hidden_rows_append [symmetric])
  have rows: "hc_rows c' = hidden_rows row i (ks @ ms)" by (simp add: c' hc_rows_Append c e)
  show ?thesis
  proof (cases "offs = []")
    case True
    then show ?thesis using assms(1) rows by (simp add: hidden_filled_def c' hc_snapshots_Append)
  next
    case False
    have "sched_run (hc_want (hidden_rows row i (ks @ ms) @ zs)) b offs (int (length (ks @ ms))) (hc_snapshots c')" for zs
    proof -
      have "sched_run (hc_want (hc_rows c @ concat [w] @ zs)) b offs (hc_Offset c) (hc_snapshots c)" "0 \<le> b"
        using assms(1) False by (simp_all add: hidden_filled_def c hc_Offset_rows)
      from hc_writes_run [OF this, of nb] show ?thesis
        using e by (simp add: c' c hc_Offset_rows hc_rows_Append flip: append_assoc)
    qed
    then show ?thesis using assms(1) False rows by (simp add: hidden_filled_def)
  qed
qed

lemma hidden_take:
  assumes f: "hidden_filled row i b offs ks c" and j: "layer_at (fst (hc_TakeSnapshots c)) j = Some s"
  shows "j < length offs \<and> offs ! j \<le> int (length ks) \<and> hidden_covers row i (nat (bound b offs j)) (take (nat (offs ! j)) ks) (ss_data s)"
proof (cases "offs = []")
  case True
  then show ?thesis using assms by (simp add: hidden_filled_def hc_TakeSnapshots_def take_captured_def unscheduled_def case_prod_beta)
next
  case False
  then have b: "0 \<le> b" and run: "sched_run (hc_want (hidden_rows row i ks)) b offs (int (length ks)) (hc_snapshots c)"
    using f spec [of _ "[]"] by (auto simp: hidden_filled_def dest: spec [of _ "[]"])
  let ?V = "\<lambda>a b. if b \<le> int (length ks) then hc_want (hidden_rows row i ks) a b else None"
  have m: "map (map_option ss_data) (fst (hc_TakeSnapshots c)) = caps ?V b offs"
    using sched_run_take [OF run] by (simp add: hc_TakeSnapshots_def case_prod_beta)
  have jl: "j < length (fst (hc_TakeSnapshots c))" "fst (hc_TakeSnapshots c) ! j = Some s" using j by (auto simp: layer_at_def split: if_splits)
  then have jo: "j < length offs" using arg_cong [OF m, of length] by simp
  then have "Some (ss_data s) = ?V (bound b offs j) (offs ! j)"
    using arg_cong [OF m, of "\<lambda>xs. xs ! j"] jl by (simp add: caps_nth bound_def cong: if_cong)
  then have s: "offs ! j \<le> int (length ks)" "ss_data s = \<lparr>hs_hidden = slice (bound b offs j) (offs ! j) (hidden_rows row i ks), hs_start = bound b offs j\<rparr>"
    by (auto simp: hc_want_def split: if_splits)
  have sorted: "sorted_wrt (<) offs" "\<forall>x \<in> set offs. b \<le> x"
    using run by (auto simp: sched_run_def sched_at_def)
  have le: "0 \<le> bound b offs j \<and> bound b offs j \<le> offs ! j"
  proof (cases j)
    case 0
    then show ?thesis using sorted(2) jo b by (simp add: bound_def)
  next
    case (Suc l)
    then have "offs ! l < offs ! j" "b \<le> offs ! l" using sorted jo by (auto simp: sorted_wrt_iff_nth_less)
    then show ?thesis using b Suc by (simp add: bound_def)
  qed
  have "hidden_covers row i (nat (bound b offs j)) (take (nat (offs ! j)) ks) (ss_data s)"
    using s le nat_mono [of "bound b offs j" "offs ! j"] by (simp add: hidden_covers_def slice_drop_take take_hidden_rows min_absorb2)
  then show ?thesis using jo s(1) by simp
qed

interpretation hidden_faithful: rewinding_cache "hidden_ops nb" "\<lambda>_. True" "hidden_covers row" "hidden_filled row" "hidden_writes nb row"
  for nb :: int and row :: "nat \<Rightarrow> trieKey list \<Rightarrow> 'r"
proof unfold_locales
  fix i k a and ks :: "trieKey list" and s p q :: "'r hiddenSnapshot snapshot" and kv :: "'r hiddenCache" and pp
  assume c: "hidden_covers row i k ks (ss_data s)" "a < length ks"
  show "hidden_covers row i k (take a ks) (ss_data p)"
    if "k < a" "co_Split (hidden_ops nb) kv s (int a) = (Some p, pp)"
    using c that by (auto simp: hidden_ops_def hc_Split_def hidden_covers_def Let_def newHiddenSnapshot_def slice_drop_take
      drop_take of_nat_diff nat_diff_distrib' simp flip: take_hidden_rows split: if_splits)
  show "hidden_covers row i a ks (ss_data q)"
    if "k \<le> a" "co_Split (hidden_ops nb) kv s (int a) = (pp, Some q)"
    using c that by (auto simp: hidden_ops_def hc_Split_def hidden_covers_def Let_def newHiddenSnapshot_def
      nat_diff_distrib' split: if_splits)
next
  fix i k m and ks :: "trieKey list" and pp qq :: "'r hiddenSnapshot snapshot option" and kv :: "'r hiddenCache" and s
  assume a: "\<And>p. pp = Some p \<Longrightarrow> hidden_covers row i k (take m ks) (ss_data p)" "\<And>q. qq = Some q \<Longrightarrow> hidden_covers row i m ks (ss_data q)"
    "k \<le> m" "m < length ks" "co_Merge (hidden_ops nb) kv pp qq = Some s"
  then obtain p q where pq: "pp = Some p" "qq = Some q" "s = newHiddenSnapshot (hs_hidden (ss_data p) @ hs_hidden (ss_data q))
      (hs_start (ss_data p)) (NumBytes nb (hs_hidden (ss_data p) @ hs_hidden (ss_data q)))"
    by (auto simp: hidden_ops_def hc_Merge_def Let_def split: option.splits)
  have "drop k (take m (hidden_rows row i ks)) @ drop m (hidden_rows row i ks) = drop k (hidden_rows row i ks)"
    using a(3,4) append_take_drop_id [of "m - k" "drop k (hidden_rows row i ks)"] by (simp add: drop_take)
  then show "hidden_covers row i k ks (ss_data s)"
    using a(1) [OF pq(1)] a(2) [OF pq(2)] a(3,4) by (simp add: pq(3) hidden_covers_def newHiddenSnapshot_def take_hidden_rows)
next
  fix i b offs and ks ms :: "trieKey list" and kv kv' :: "'r hiddenCache" and t :: int and ss :: "'r hiddenSnapshot snapshot option"
    and j k n :: nat and s :: "'r hiddenSnapshot snapshot" and b' :: int
  assume f: "hidden_filled row i b offs ks kv"
  then have rows: "hc_rows kv = hidden_rows row i ks" by (simp add: hidden_filled_def)
  show "True \<and> co_Offset (hidden_ops nb) kv = int (length ks)" using rows by (simp add: hidden_ops_def hc_Offset_rows)
  show "hidden_filled row i 0 [] [] (co_Free (hidden_ops nb) kv)" using hc_Free_idle [of kv] by (simp add: hidden_filled_def hidden_ops_def)
  show "hidden_filled row i b offs (ks @ ms) kv'" if "hidden_writes nb row i ks ms kv kv'" using hidden_write [OF f that] .
  show "hidden_filled row i 0 [] ks (fst (co_TakeSnapshots (hidden_ops nb) kv))"
    using rows by (simp add: hidden_filled_def hidden_ops_def hc_TakeSnapshots_def take_captured_def unscheduled_def case_prod_beta hc_rows_def)
  show "j < length offs \<and> offs ! j \<le> int (length ks) \<and> hidden_covers row i (nat (bound b offs j)) (take (nat (offs ! j)) ks) (ss_data s)"
    if "layer_at (snd (co_TakeSnapshots (hidden_ops nb) kv)) j = Some s"
    using hidden_take [OF f, of j s] that by (simp add: hidden_ops_def case_prod_beta)
next
  fix i b b' and ks :: "trieKey list" and kv :: "'r hiddenCache"
  show "hidden_filled row i b' [] ks kv" if "hidden_filled row i b [] ks kv" using that by (simp add: hidden_filled_def)
next
  fix i and ks :: "trieKey list" and kv kv' :: "'r hiddenCache" and t :: int and offs
  assume f: "hidden_filled row i 0 [] ks kv"
  show "hidden_filled row i 0 [] (take (nat t) ks) kv'" if "0 \<le> t" "co_Restore (hidden_ops nb) kv None t = (kv', True)"
    using hidden_restore [of row i "length ks" ks kv t None nb kv'] f that by (simp add: hidden_ops_def)
  show "hidden_filled row i (int (length ks)) offs ks kv'" if o: "offs \<noteq> []" "co_PrepareSnapshots (hidden_ops nb) kv offs = Some kv'"
  proof -
    have rows: "hc_rows kv = hidden_rows row i ks" using f by (simp add: hidden_filled_def)
    obtain p where p: "prepare (hc_Offset kv) offs (hc_snapshots kv) = Some p" "kv' = kv\<lparr>hc_snapshots := p\<rparr>"
      using o(2) by (auto simp: hidden_ops_def hc_PrepareSnapshots_def)
    have "sched_run (hc_want (hidden_rows row i ks @ zs)) (int (length ks)) offs (int (length ks)) p" for zs
      using sched_run_prepare [OF p(1), of "hc_want (hidden_rows row i ks @ zs)"] rows by (simp add: hc_Offset_rows hc_want_def)
    then show ?thesis using rows o(1) by (simp add: hidden_filled_def p(2) hc_rows_def)
  qed
next
  fix i j k n and ks :: "trieKey list" and kv kv' :: "'r hiddenCache" and s :: "'r hiddenSnapshot snapshot"
  assume "hidden_filled row i 0 [] (take j ks) kv" "hidden_covers row i k ks (ss_data s)" "j < n" "n \<le> length ks"
    "co_Restore (hidden_ops nb) kv (Some s) (int n) = (kv', True)"
  then show "hidden_filled row i 0 [] (take n ks) kv'"
    using hidden_restore [of row i j ks kv "int n" "Some s" nb kv'] by (auto simp: hidden_ops_def)
next
  fix i and ks :: "trieKey list" and kv kv' :: "'r hiddenCache" and ss :: "'r hiddenSnapshot snapshot option" and t :: int
  assume "hidden_filled row i 0 [] ks kv" "co_Restore (hidden_ops nb) kv ss t = (kv', False)"
  then show "hidden_filled row i 0 [] ks kv'" using hc_Restore_Offset [of nb ss t kv kv' False] by (simp add: hidden_ops_def)
next
  fix i k and ks :: "trieKey list" and kv :: "'r hiddenCache" and s :: "'r hiddenSnapshot snapshot"
  assume f: "hidden_filled row i 0 [] ks kv" and k: "k < length ks" "co_Snapshot (hidden_ops nb) kv (int k) = Some s"
  then have "hc_rows kv = hidden_rows row i ks" by (simp add: hidden_filled_def)
  moreover have "hc_hidden kv = Some (hidden_rows row i ks)"
  proof (cases "hc_hidden kv")
    case None
    then have "length ks = 0" using calculation by (metis hc_rows_def length_hidden_rows list.size(3) option.simps(4))
    then show ?thesis using k(1) by simp
  qed (use calculation in \<open>simp add: hc_rows_def\<close>)
  ultimately show "hidden_covers row i k ks (ss_data s)"
    using k by (auto simp: hidden_ops_def orNil_def hc_Snapshot_def hc_snapshot_def hidden_covers_def newHiddenSnapshot_def
      hc_Offset_rows slice_drop_take split: if_splits)
next
  show "rewinds (hidden_ops nb) (hidden_filled row)"
    unfolding rewinds_def
  proof (intro allI impI)
    fix i and ks :: "trieKey list" and kv :: "'r hiddenCache" and n
    assume "hidden_filled row i 0 [] ks kv" "n \<le> length ks"
    then have "int n \<le> hc_Offset kv" by (simp add: hidden_filled_def hc_Offset_rows)
    then show "snd (co_Restore (hidden_ops nb) kv None (int n))"
      by (simp add: hidden_ops_def hc_Restore_def split: option.split)
  qed
qed

end
