(* ===== verification/PrefixCacheSpec.thy ===== *)
theory PrefixCacheSpec
  imports HiddenCache
begin

text \<open>The properties of the prefix cache of the MLX runner, with the concrete tries their witnesses run on.\<close>

section \<open>Concrete tries\<close>

definition w_node :: "trieKey list \<Rightarrow> int \<Rightarrow> nat option \<Rightarrow> nat list \<Rightarrow> 'd layers \<Rightarrow> 'd trieNode" where
  "w_node toks e p cs ss = \<lparr>tn_tokens = toks, tn_endOffset = e, tn_parent = p, tn_children = cs, tn_lastUsed = 0,
     tn_snapshots = ss, tn_user = False\<rparr>"

text \<open>A root with one leaf, whose snapshots have the given size; the leaf has the keys 1 and 2.\<close>

definition w_store :: "int \<Rightarrow> int hiddenSnapshot store" where
  "w_store z = \<lparr>st_node = (\<lambda>n. if n = 0 then w_node [] 0 None [1] []
      else w_node [1, 2] 2 (Some 0) [] [Some (newHiddenSnapshot [10, 20] 0 z\<lparr>ss_hook := True\<rparr>)]),
    st_next = 2, st_bytes = z\<rparr>"

definition w_cache :: "int \<Rightarrow> (int hiddenCache, int hiddenSnapshot) prefixCache" where
  "w_cache z = \<lparr>pc_root = Some 0, pc_activePath = [0], pc_caches = [Some NewHiddenCache], pc_store = w_store z,
     pc_draftLookahead = 0, pc_tick = 0\<rparr>"

lemma w_shape: "shape_of (w_store z) 0 = \<lparr>sh_tokens = [], sh_end = 0, sh_parent = None, sh_children = [1]\<rparr>"
    "n \<noteq> 0 \<Longrightarrow> shape_of (w_store z) n = \<lparr>sh_tokens = [1, 2], sh_end = 2, sh_parent = Some 0, sh_children = []\<rparr>"
  by (simp_all add: shape_of_def w_store_def w_node_def)

lemma w_wf: "trie_wf (w_store z) 0 {0, 1}"
  by (simp add: trie_wf_def shape_wf_def children_ok_def parent_ok_def w_shape) (simp add: w_store_def)

lemma w_inv: "pc_inv no_slots (w_cache z) {0, 1}"
proof -
  have "balanced 1 (w_store z) {0, 1}"
    by (simp add: balanced_def snapshotBytes_def w_store_def w_node_def layers_bytes_def hooked_def newHiddenSnapshot_def)
  then show ?thesis using w_wf [of z] by (simp add: pc_inv_def w_cache_def no_slots_def)
qed

section \<open>The trie\<close>



text \<open>C29: Splitting an edge and merging a node with its only child change how the trie stores its key sequences, not
  which ones it stores: the stored set refines to the same abstract set.\<close>

theorem split_merge_keep_stored:
  assumes "trie_wf h r S" "n \<in> S" "n \<noteq> r"
    and "map_option snd (splitNode n at layers h) = Some h' \<or> mergeWithChild n layers h = Some h'"
  shows "{ks. reads (shape_of h') r ks} = {ks. reads (shape_of h) r ks}"
proof -
  have wf: "shape_wf (shape_of h) r S" "r \<in> S" using assms(1) by (auto simp: trie_wf_def shape_wf_def)
  from assms(4) show ?thesis
  proof
    assume "map_option snd (splitNode n at layers h) = Some h'"
    then obtain f where s: "splitNode n at layers h = Some (f, h')" by auto
    from trie_wf_split [OF assms(1) s assms(2,3)] obtain p where "sh_parent (shape_of h n) = Some p" "f \<notin> S"
      "0 < nat at" "nat at < length (sh_tokens (shape_of h n))" "shape_of h' = shape_split n f p (nat at) (shape_of h)" by blast
    with reads_split [OF wf(1) assms(2)] wf(2) show ?thesis by simp
  next
    assume m: "mergeWithChild n layers h = Some h'"
    from trie_wf_merge [OF assms(1) m assms(2,3)] obtain c where c: "sh_children (shape_of h n) = [c]"
      "shape_of h' = shape_merge n c (shape_of h)" by blast
    have "r \<noteq> c" using shape_wf_childD [OF wf(1) assms(2), of c] c(1) by auto
    with reads_merge [OF wf(1) assms(2,3) c(1) wf(2)] assms(3) c(2) show ?thesis by simp
  qed
qed

lemma w_split: "\<exists>h'. map_option snd (splitNode 1 1 [None] (w_store 5)) = Some h'"
  using splitNode_total [of 1 "w_store 5" 1 "[None]"] by (auto simp: w_shape) (auto simp: w_store_def w_node_def)

theorem split_merge_keep_stored_witness:
  "\<exists>h'. map_option snd (splitNode 1 1 [None] (w_store 5)) = Some h' \<and>
    {ks. reads (shape_of h') 0 ks} = {ks. reads (shape_of (w_store 5)) 0 ks}"
  using w_split split_merge_keep_stored [OF w_wf, of 1 1 "[None]" 5] by auto

section \<open>Eviction\<close>

text \<open>C30: Eviction ends.  Afterwards the counter of paged-out bytes is within the limit or every node that is left is the
  root, the end of the active path or a branch; the cache is still well formed and its active path spells the same keys.\<close>

theorem eviction_ends:
  assumes "pc_inv no_slots c S"
  shows "\<exists>c' S'. enforceEvictionPolicy ops c = Some c' \<and> S' \<subseteq> S \<and> pc_inv no_slots c' S' \<and> path_keys c' = path_keys c \<and>
    (st_bytes (pc_store c') \<le> maxPagedOutBytes \<or>
     (\<forall>n \<in> S'. Some n = pc_root c' \<or> n = last (pc_activePath c') \<or> length (tn_children (st_node (pc_store c') n)) > 1))"
proof -
  from no_slots.enforceEvictionPolicy_ok [OF assms, where ops = ops] obtain h p S' where
    "enforceEvictionPolicy ops c = Some (c\<lparr>pc_store := h, pc_activePath := p\<rparr>)" "S' \<subseteq> S"
    "pc_inv no_slots (c\<lparr>pc_store := h, pc_activePath := p\<rparr>) S'" "path_keys (c\<lparr>pc_store := h, pc_activePath := p\<rparr>) = path_keys c"
    "st_bytes h \<le> maxPagedOutBytes \<or> (\<forall>n \<in> S'. \<not> may_evict h (pc_root c) (last p) n)" by blast
  then show ?thesis
    by (intro exI [of _ "c\<lparr>pc_store := h, pc_activePath := p\<rparr>"] exI [of _ S']) (auto simp: may_evict_def not_le)
qed

theorem eviction_ends_witness:
  "\<exists>c' S'. enforceEvictionPolicy (hidden_ops 4) (w_cache (9 * 2 ^ 30)) = Some c' \<and> S' \<subseteq> {0, 1} \<and> pc_inv no_slots c' S' \<and>
    path_keys c' = path_keys (w_cache (9 * 2 ^ 30)) \<and>
    (st_bytes (pc_store c') \<le> maxPagedOutBytes \<or>
     (\<forall>n \<in> S'. Some n = pc_root c' \<or> n = last (pc_activePath c') \<or> length (tn_children (st_node (pc_store c') n)) > 1))"
  by (rule eviction_ends [OF w_inv])

section \<open>The active path\<close>

text \<open>C31: \<open>advancePath\<close> extends the keys the active path spells by exactly the given ones, whatever of them the trie
  stores already, and ends the path at the node it returns.\<close>

theorem advancePath_spells:
  assumes "pc_inv no_slots c S" "frontier = last (pc_activePath c)" "endOffset = int (length (path_keys c) + length tokens)"
  shows "\<exists>n c' S'. advancePath ops frontier tokens endOffset c = Some (n, c') \<and> pc_inv no_slots c' S' \<and>
    path_keys c' = path_keys c @ tokens \<and> n = last (pc_activePath c') \<and> tn_endOffset (st_node (pc_store c') n) = endOffset"
proof -
  from no_slots.advancePath_ok [OF assms, where ops = ops] obtain h p S' where
    a: "advancePath ops frontier tokens endOffset c = Some (last p, c\<lparr>pc_store := h, pc_activePath := p\<rparr>)"
    "pc_inv no_slots (c\<lparr>pc_store := h, pc_activePath := p\<rparr>) S'" "path_keys (c\<lparr>pc_store := h, pc_activePath := p\<rparr>) = path_keys c @ tokens"
    by blast
  then show ?thesis using path_keys_end [OF a(2)] assms(3)
    by (intro exI [of _ "last p"] exI [of _ "c\<lparr>pc_store := h, pc_activePath := p\<rparr>"] exI [of _ S']) simp
qed

theorem advancePath_spells_witness:
  "\<exists>n c' S'. advancePath (hidden_ops 4) 0 [1, 3] 2 (w_cache 5) = Some (n, c') \<and> pc_inv no_slots c' S' \<and>
    path_keys c' = path_keys (w_cache 5) @ [1, 3] \<and> n = last (pc_activePath c') \<and> tn_endOffset (st_node (pc_store c') n) = 2"
  by (rule advancePath_spells [OF w_inv]) (simp_all add: w_cache_def path_keys_def w_shape)

section \<open>Sessions\<close>

text \<open>C32: A request whose media items lie in its prompt begins: every live cache is at the same offset, the least one,
  the active path spells a prefix of the keys of the request, at least as far as the caches have come and no further than
  may be reused, and what is left to evaluate is the rest of the prompt.\<close>

theorem begin_aligned:
  assumes "live_cache ops ok" "pc_good no_slots c" "layers_all ok (pc_caches c)"
    and "effectiveKeyTokens inputs items = Some eff" "pc_key (pc_draftLookahead c) eff = Some keys"
  shows "\<exists>s c' offset k. beginAt ops clock inputs items maxReuse c = Some (s, c') \<and> pc_good no_slots c' \<and>
    layers_all (\<lambda>kv. ok kv \<and> co_Offset ops kv = offset) (pc_caches c') \<and> 0 \<le> offset \<and> offset \<le> int k \<and> k \<le> maxReuse \<and>
    k \<le> length keys \<and> path_keys c' = take k keys \<and> cs_remaining s = drop (nat offset) inputs"
  using live_slots.beginAt_ok [OF live_cache_plain [OF assms(1)] assms(2-5), where clock = clock and maxReuse = maxReuse] by (auto simp: pc_good_def)

theorem begin_aligned_witness:
  "\<exists>s c' offset k. beginAt (hidden_ops 4) int [1, 2, 7] [] 2 (w_cache 5) = Some (s, c') \<and> pc_good no_slots c' \<and>
    layers_all (\<lambda>kv. True \<and> co_Offset (hidden_ops 4) kv = offset) (pc_caches c') \<and> 0 \<le> offset \<and> offset \<le> int k \<and> k \<le> 2 \<and>
    k \<le> length [1, 2, 7 :: trieKey] \<and> path_keys c' = take k [1, 2, 7] \<and> cs_remaining s = drop (nat offset) [1, 2, 7]"
  using w_inv [of 5]
  by (intro begin_aligned [OF hidden.live_cache_axioms]) (auto simp: pc_good_def layers_all_def pc_key_def w_cache_def)

text \<open>C33: Closing a session does not fail unless the caches have advanced past the keys of the session; afterwards the
  active path spells the first keys of the prompt and the generated tokens, as far as the live caches have come or as far
  as it did before.\<close>

theorem close_spells:
  assumes "pc_inv no_slots c S" "storedKeys c s = Some keys" "path_keys c = take k keys"
    and "min_offset ops (drained ops s c) \<le> int (length keys)"
  shows "\<exists>s' c' S'. session_close ops clock s c = Some (s', c') \<and> pc_inv no_slots c' S' \<and> pc_caches c' = drained ops s c \<and>
    path_keys c' = take (max (length (path_keys c)) (nat (min_offset ops (pc_caches c')))) keys"
  using no_slots.session_close_ok [OF assms(1,2) spelledI [OF assms(3)], where B = "\<lambda>_ _. True" and ops = ops and clock = clock] assms(4)
  by (auto simp: rows_fit_no_slots page_fits_no_slots split: option.splits)

definition w_session :: cacheSession where
  "w_session = \<lparr>cs_inputs = [1, 2, 7], cs_effInputs = [1, 2, 7], cs_items = [], cs_outputs = [9], cs_remaining = [],
     cs_pendingSnapshots = [\<lparr>ps_offset = 2, ps_user = False\<rparr>]\<rparr>"

definition w_run :: "(int hiddenCache, int hiddenSnapshot) prefixCache" where
  "w_run = (w_cache 5)\<lparr>pc_caches := [Some (hc_Append 4 [10, 20, 30] NewHiddenCache)]\<rparr>"

theorem close_spells_witness:
  "\<exists>s' c' S'. session_close (hidden_ops 4) int w_session w_run = Some (s', c') \<and> pc_inv no_slots c' S' \<and>
    pc_caches c' = drained (hidden_ops 4) w_session w_run \<and>
    path_keys c' = take (max (length (path_keys w_run)) (nat (min_offset (hidden_ops 4) (pc_caches c')))) [1, 2, 7, 9]"
proof (rule close_spells [where k = 0])
  show "pc_inv no_slots w_run {0, 1}" unfolding w_run_def by (rule pc_inv_caches [OF w_inv]) (simp add: w_cache_def)
  show "storedKeys w_run w_session = Some [1, 2, 7, 9]" by (simp add: storedKeys_def w_run_def w_session_def w_cache_def pc_key_def)
  show "path_keys w_run = take 0 [1, 2, 7, 9]" by (simp add: path_keys_def w_run_def w_cache_def w_shape)
  have "drained (hidden_ops 4) w_session w_run = [Some (snd (hc_TakeSnapshots (hc_Append 4 [10, 20, 30] NewHiddenCache)))]"
    by (simp add: drained_def w_session_def w_run_def hidden_ops_def case_prod_beta)
  then show "min_offset (hidden_ops 4) (drained (hidden_ops 4) w_session w_run) \<le> int (length [1, 2, 7, 9 :: trieKey])"
    by (simp add: min_offset_def hidden_ops_def hc_TakeSnapshots_def hc_Append_eq Let_def NewHiddenCache_def hc_Offset_def case_prod_beta)
qed

text \<open>C34: In every state a prefix cache can get into, the nodes form a compressed trie with its parent and child pointers
  consistent, the counter of paged-out bytes is what the snapshots in it hold, lazily materialised ones included, and the
  active path leads down from the root.\<close>

theorem reachable_wellformed:
  assumes "live_cache ops ok" "pc_reach ops (any_runner ok) clock (c, phase)"
  shows "(pc_root c = None \<and> pc_activePath c = [] \<and> st_bytes (pc_store c) = 0) \<or>
    (\<exists>r S cs. pc_root c = Some r \<and> pc_activePath c = r # cs \<and> trie_wf (pc_store c) r S \<and>
       st_bytes (pc_store c) = (\<Sum>n\<in>S. snapshotBytes (st_node (pc_store c) n)) \<and> chain (shape_of (pc_store c)) r cs)"
  using live_cache.reach_inv [OF assms] by (auto simp: state_ok_def pc_good_def pc_inv_def balanced_def)

lemma w_reach: "\<exists>s c'. beginAt (hidden_ops 4) int [1, 2, 7] [] 2 (newPrefixCache [Some NewHiddenCache] (w_store 5)) = Some (s, c') \<and>
    pc_reach (hidden_ops 4) (any_runner (\<lambda>_. True)) int (c', Begun s)"
proof -
  let ?c = "newPrefixCache [Some NewHiddenCache] (w_store 5) :: (int hiddenCache, int hiddenSnapshot) prefixCache"
  have "\<exists>s c'. beginAt (hidden_ops 4) int [1, 2, 7] [] 2 ?c = Some (s, c')"
    using hidden.plain.beginAt_ok [of ?c "[1, 2, 7]" "[]" "[1, 2, 7]" "[1, 2, 7]" 4 int 2]
    by (auto simp: newPrefixCache_good layers_all_def pc_key_def) (auto simp: newPrefixCache_def)
  then obtain s c' where b: "beginAt (hidden_ops 4) int [1, 2, 7] [] 2 ?c = Some (s, c')" by blast
  have "pc_reach (hidden_ops 4) (any_runner (\<lambda>_. True)) int (?c, Idle)" by (rule reach_init) (simp add: layers_all_def any_runner_def)
  from reach_step [OF this begin_step [OF b]] b show ?thesis by blast
qed

theorem reachable_wellformed_witness:
  "\<exists>s (c' :: (int hiddenCache, int hiddenSnapshot) prefixCache). pc_reach (hidden_ops 4) (any_runner (\<lambda>_. True)) int (c', Begun s) \<and> ((pc_root c' = None \<and> pc_activePath c' = [] \<and> st_bytes (pc_store c') = 0) \<or>
    (\<exists>r S cs. pc_root c' = Some r \<and> pc_activePath c' = r # cs \<and> trie_wf (pc_store c') r S \<and>
       st_bytes (pc_store c') = (\<Sum>n\<in>S. snapshotBytes (st_node (pc_store c') n)) \<and> chain (shape_of (pc_store c')) r cs))"
proof -
  from w_reach obtain s and c' :: "(int hiddenCache, int hiddenSnapshot) prefixCache" where "pc_reach (hidden_ops 4) (any_runner (\<lambda>_. True)) int (c', Begun s)" by blast
  with reachable_wellformed [OF hidden.live_cache_axioms this] show ?thesis by blast
qed

section \<open>The cache of hidden outputs\<close>

text \<open>However the rows are split into writes, the captures of \<open>HiddenCache\<close> are the rows between the scheduled offsets,
  each from the boundary before it, and nothing for an offset that was not reached or at which the schedule began.\<close>

theorem hidden_captures_tile:
  assumes "hc_PrepareSnapshots offsets c = Some c0"
  shows "map (map_option ss_data) (fst (hc_TakeSnapshots (fold (hc_Append rowBytes) writes c0))) =
    edges (hc_Offset c) offsets (hc_rows c @ concat writes)"
  by (rule hc_captures [OF assms])

theorem hidden_captures_tile_witness:
  "\<exists>c0. hc_PrepareSnapshots [2, 5] (hc_Append 4 [7 :: int] NewHiddenCache) = Some c0 \<and>
    map (map_option ss_data) (fst (hc_TakeSnapshots (fold (hc_Append 4) [[8, 9], [10]] c0))) =
    edges (hc_Offset (hc_Append 4 [7 :: int] NewHiddenCache)) [2, 5] (hc_rows (hc_Append 4 [7] NewHiddenCache) @ concat [[8, 9], [10]])"
proof -
  have "\<exists>c0. hc_PrepareSnapshots [2, 5] (hc_Append 4 [7 :: int] NewHiddenCache) = Some c0"
    by (simp add: hc_PrepareSnapshots_def prepare_def hc_Append_eq hc_Offset_def NewHiddenCache_def capture_write_def
      scheduledIn_def sched_empty_def Let_def)
  then obtain c0 where "hc_PrepareSnapshots [2, 5] (hc_Append 4 [7 :: int] NewHiddenCache) = Some c0" by blast
  with hidden_captures_tile [OF this] show ?thesis by blast
qed

end
