(* ===== verification/ReuseSpec.thy ===== *)
theory ReuseSpec
  imports HiddenFaithful PrefixCacheSpec
begin

text \<open>
  The property the prefix cache is for: whatever requests were served, cancelled, captured and evicted before, a request
  begins with the live caches in the state of the keys it reuses.  The witness serves one request and begins another that
  shares its first token.
\<close>

text \<open>A runner over caches of hidden outputs; \<open>row\<close> is what the backbone computes for a position.\<close>

definition hidden_runner :: "int \<Rightarrow> (nat \<Rightarrow> trieKey list \<Rightarrow> 'r) \<Rightarrow> ('r hiddenCache, 'r hiddenSnapshot) runner" where
  "hidden_runner rowBytes row = faithful_runner (hidden_ops rowBytes) (hidden_filled row) (hidden_writes rowBytes row)"

text \<open>In every state a runner can get into between sessions, a request begins with live caches that hold exactly the
  rows of the keys it reuses, as many as the tokens it need not evaluate.\<close>

theorem begin_reuses_rows:
  assumes "pc_reach (hidden_ops rowBytes) (hidden_runner rowBytes row) clock (c, Idle)"
    and "beginAt (hidden_ops rowBytes) clock inputs items maxReuse c = Some (s, c')"
  shows "\<exists>keys n. storedKeys c' s = Some keys \<and> n \<le> length keys \<and> n \<le> maxReuse \<and> cs_remaining s = drop n inputs \<and>
    (\<forall>i kv. i < length (pc_caches c') \<longrightarrow> pc_caches c' ! i = Some kv \<longrightarrow> hc_rows kv = hidden_rows row i (take n keys))"
proof -
  from hidden_faithful.begin_serves [OF assms(1) [unfolded hidden_runner_def] assms(2)] obtain ks n where
    "storedKeys c' s = Some ks" "n \<le> length ks" "n \<le> maxReuse" "cs_remaining s = drop n inputs"
    "each_layer (\<lambda>i kv. hidden_filled row i 0 [] (take n ks) kv) (pc_caches c')" by blast
  then show ?thesis by (intro exI [of _ ks] exI [of _ n]) (auto simp: each_layer_def hidden_filled_def)
qed

definition w_row :: "nat \<Rightarrow> trieKey list \<Rightarrow> int" where
  "w_row i ks = int i + uint (sum_list ks)"

definition w_new :: "(int hiddenCache, int hiddenSnapshot) prefixCache" where
  "w_new = newPrefixCache [Some NewHiddenCache] \<lparr>st_node = (\<lambda>_. w_node [] 0 None [] []), st_next = 0, st_bytes = 0\<rparr>"

definition w_begun :: "cacheSession \<times> (int hiddenCache, int hiddenSnapshot) prefixCache" where
  "w_begun = the (beginAt (hidden_ops 4) int [1, 2] [] 2 w_new)"

definition w_scheduled :: "cacheSession \<times> (int hiddenCache, int hiddenSnapshot) prefixCache" where
  "w_scheduled = the (schedulePrefillSnapshots (hidden_ops 4) [] (fst w_begun) (snd w_begun))"

definition w_passed :: "(int hiddenCache, int hiddenSnapshot) prefixCache" where
  "w_passed = (snd w_scheduled)\<lparr>pc_caches := [Some (hc_Append 4 (hidden_rows w_row 0 [1, 2]) (the (hd (pc_caches (snd w_scheduled)))))]\<rparr>"

definition w_closed :: "cacheSession \<times> (int hiddenCache, int hiddenSnapshot) prefixCache" where
  "w_closed = the (session_close (hidden_ops 4) int (fst w_scheduled) w_passed)"

lemma w_served: "pc_reach (hidden_ops 4) (hidden_runner 4 w_row) int (snd w_closed, Idle)"
proof -
  have 0: "pc_reach (hidden_ops 4) (hidden_runner 4 w_row) int (w_new, Idle)"
    unfolding w_new_def by (rule reach_init)
      (simp add: hidden_runner_def faithful_runner_def each_layer_def hidden_filled_def NewHiddenCache_def hc_rows_def
        unscheduled_def sched_empty_def)
  have "beginAt (hidden_ops 4) int [1, 2] [] 2 w_new \<noteq> None" by code_simp
  then have b: "beginAt (hidden_ops 4) int [1, 2] [] 2 w_new = Some (fst w_begun, snd w_begun)" by (auto simp: w_begun_def)
  have "schedulePrefillSnapshots (hidden_ops 4) [] (fst w_begun) (snd w_begun) \<noteq> None" by code_simp
  then have s: "schedulePrefillSnapshots (hidden_ops 4) [] (fst w_begun) (snd w_begun) = Some (fst w_scheduled, snd w_scheduled)"
    by (auto simp: w_scheduled_def)
  have "session_close (hidden_ops 4) int (fst w_scheduled) w_passed \<noteq> None" by code_simp
  then have c: "session_close (hidden_ops 4) int (fst w_scheduled) w_passed = Some (fst w_closed, snd w_closed)"
    by (auto simp: w_closed_def)
  have live: "pc_caches (snd w_scheduled) = [Some NewHiddenCache]" by code_simp
  have keys: "storedKeys (snd w_scheduled) (fst w_scheduled) = Some [1, 2]" by code_simp
  have "faithful_pass (hidden_ops 4) (hidden_writes 4 w_row) (snd w_scheduled) (fst w_scheduled) (pc_caches w_passed) []"
    using keys by (auto simp: faithful_pass_def w_passed_def live hidden_writes_def hidden_ops_def hc_Offset_def NewHiddenCache_def
      intro!: exI [of _ 2])
  then have p: "pc_step (hidden_ops 4) (hidden_runner 4 w_row) int (snd w_scheduled, Running (fst w_scheduled)) (w_passed, Running (fst w_scheduled))"
    using forward_step [of "hidden_runner 4 w_row" "snd w_scheduled" "fst w_scheduled" "pc_caches w_passed" "[]" "hidden_ops 4" int]
    by (simp add: hidden_runner_def faithful_runner_def w_passed_def)
  have lv: "rn_rest (hidden_runner 4 w_row) (pc_caches w_passed)"
    by (simp add: hidden_runner_def faithful_runner_def level_def w_passed_def min_offset_def)
  note 1 = reach_step [OF 0 begin_step [OF b]]
  note 2 = reach_step [OF 1 schedule_step [OF s]]
  note 3 = reach_step [OF 2 p]
  show ?thesis by (rule reach_step [OF 3 close_step [OF _ lv c]]) simp
qed

theorem begin_reuses_rows_witness:
  "\<exists>s c' keys n. beginAt (hidden_ops 4) int [1, 9] [] 2 (snd w_closed) = Some (s, c') \<and> cs_remaining s = [9] \<and>
    storedKeys c' s = Some keys \<and> n \<le> length keys \<and> n \<le> 2 \<and> cs_remaining s = drop n [1, 9] \<and>
    (\<forall>i kv. i < length (pc_caches c') \<longrightarrow> pc_caches c' ! i = Some kv \<longrightarrow> hc_rows kv = hidden_rows w_row i (take n keys))"
proof -
  have "map_option (\<lambda>(s, c). cs_remaining s) (beginAt (hidden_ops 4) int [1, 9] [] 2 (snd w_closed)) = Some [9]" by code_simp
  then obtain s c' where b: "beginAt (hidden_ops 4) int [1, 9] [] 2 (snd w_closed) = Some (s, c')" "cs_remaining s = [9]" by auto
  from begin_reuses_rows [OF w_served b(1)] b show ?thesis by blast
qed

end
