(* ===== verification/KVCache.thy ===== *)
theory KVCache
  imports HiddenCache
begin

text \<open>
  \<open>mlxrunner/cache/kvcache.go\<close>: the cache of keys and values of an attention layer.  Its buffer is written in place, and a
  snapshot does not own its rows at first: it names a range of the buffer of the cache that issued it, until that cache
  is about to overwrite or free the range and copies it out.  So caches and snapshots live in a store, where a snapshot is an
  address.  Keys and values are written alike, and a slot of the two arrays is one row; \<open>zero\<close> is the row of zeros, \<open>rowBytes\<close>
  the bytes of a row.  A closed snapshot is removed from the store.  Scopes, which only hold arrays alive, and the batch argument
  of \<open>Update\<close>, which is not used, are left out.  The hook of a snapshot adds its bytes to a counter of the
  owner, here \<open>kh_paged\<close>.
\<close>

section \<open>State\<close>

record 'r kvSnapshot =
  ks_keys :: "'r list option"
  ks_fromOffset :: int
  ks_toOffset :: int
  ks_cache :: "nat option"
  ks_onMaterialize :: bool

record 'r kvCache =
  kc_keys :: "'r list option"
  kc_offset :: int
  kc_step :: int
  kc_snapshots :: "nat schedule"
  kc_lazySnapshots :: "nat list"

record 'r kvHeap =
  kh_cache :: "nat \<Rightarrow> 'r kvCache"
  kh_snap :: "nat \<Rightarrow> 'r kvSnapshot option"
  kh_next :: nat
  kh_paged :: int

definition NewKVCache :: "'r kvCache" where
  "NewKVCache = \<lparr>kc_keys = None, kc_offset = 0, kc_step = 256, kc_snapshots = sched_empty, kc_lazySnapshots = []\<rparr>"

text \<open>The slots of a buffer that is there.\<close>

definition kc_slots :: "'r kvCache \<Rightarrow> 'r list" where
  "kc_slots kc = (case kc_keys kc of None \<Rightarrow> [] | Some rows \<Rightarrow> rows)"

definition upd_cache :: "nat \<Rightarrow> ('r kvCache \<Rightarrow> 'r kvCache) \<Rightarrow> 'r kvHeap \<Rightarrow> 'r kvHeap" where
  "upd_cache c f h = h\<lparr>kh_cache := (kh_cache h)(c := f (kh_cache h c))\<rparr>"

definition upd_snap :: "nat \<Rightarrow> 'r kvSnapshot option \<Rightarrow> 'r kvHeap \<Rightarrow> 'r kvHeap" where
  "upd_snap a s h = h\<lparr>kh_snap := (kh_snap h)(a := s)\<rparr>"

definition new_snap :: "'r kvSnapshot \<Rightarrow> 'r kvHeap \<Rightarrow> 'r kvHeap \<times> nat" where
  "new_snap s h = ((upd_snap (kh_next h) (Some s) h)\<lparr>kh_next := kh_next h + 1\<rparr>, kh_next h)"

section \<open>Snapshots\<close>

definition kv_Size :: "int \<Rightarrow> 'r kvSnapshot \<Rightarrow> int" where
  "kv_Size rowBytes s = (case ks_keys s of Some rows \<Rightarrow> NumBytes rowBytes rows | None \<Rightarrow> 0)"

definition addLazySnapshot :: "nat \<Rightarrow> nat \<Rightarrow> 'r kvHeap \<Rightarrow> 'r kvHeap" where
  "addLazySnapshot c a = upd_cache c (\<lambda>kc. kc\<lparr>kc_lazySnapshots := kc_lazySnapshots kc @ [a]\<rparr>)"

definition dropLazySnapshot :: "nat \<Rightarrow> nat \<Rightarrow> 'r kvHeap \<Rightarrow> 'r kvHeap" where
  "dropLazySnapshot c a = upd_cache c (\<lambda>kc. kc\<lparr>kc_lazySnapshots := remove1 a (kc_lazySnapshots kc)\<rparr>)"

definition kv_Close :: "nat \<Rightarrow> 'r kvHeap \<Rightarrow> 'r kvHeap" where
  "kv_Close a h =
     (case kh_snap h a of
        None \<Rightarrow> h
      | Some s \<Rightarrow> upd_snap a None (case ks_cache s of None \<Rightarrow> h | Some c \<Rightarrow> dropLazySnapshot c a h))"

definition SetMaterializeHook :: "nat \<Rightarrow> bool \<Rightarrow> 'r kvHeap \<Rightarrow> 'r kvHeap" where
  "SetMaterializeHook a on h = upd_snap a (map_option (\<lambda>s. s\<lparr>ks_onMaterialize := on\<rparr>) (kh_snap h a)) h"

definition copyOut :: "int \<Rightarrow> nat \<Rightarrow> 'r kvHeap \<Rightarrow> 'r kvHeap" where
  "copyOut rowBytes a h =
     (case kh_snap h a of
        None \<Rightarrow> h
      | Some s \<Rightarrow>
          (case (ks_keys s, ks_cache s) of
             (None, Some c) \<Rightarrow>
               (let rows = slice (ks_fromOffset s) (ks_toOffset s) (kc_slots (kh_cache h c));
                    h = dropLazySnapshot c a (upd_snap a (Some (s\<lparr>ks_keys := Some rows, ks_cache := None, ks_onMaterialize := False\<rparr>)) h)
                in if ks_onMaterialize s then h\<lparr>kh_paged := kh_paged h + NumBytes rowBytes rows\<rparr> else h)
           | _ \<Rightarrow> h))"

definition lazySnapshot :: "nat \<Rightarrow> int \<Rightarrow> int \<Rightarrow> 'r kvHeap \<Rightarrow> 'r kvHeap \<times> nat option" where
  "lazySnapshot c fromOffset toOffset h =
     (if kc_keys (kh_cache h c) = None \<or> toOffset \<le> fromOffset then (h, None)
      else (let (h, a) = new_snap \<lparr>ks_keys = None, ks_fromOffset = fromOffset, ks_toOffset = toOffset, ks_cache = Some c,
                                   ks_onMaterialize = False\<rparr> h
            in (addLazySnapshot c a h, Some a)))"

definition kv_Snapshot :: "nat \<Rightarrow> int \<Rightarrow> 'r kvHeap \<Rightarrow> 'r kvHeap \<times> nat option" where
  "kv_Snapshot c fromOffset h = lazySnapshot c fromOffset (kc_offset (kh_cache h c)) h"

section \<open>Writing\<close>

definition grow :: "'r \<Rightarrow> int \<Rightarrow> 'r kvCache \<Rightarrow> 'r kvCache" where
  "grow zero L kc =
     (let prev = kc_offset kc
      in if kc_keys kc = None \<or> prev + L > int (length (kc_slots kc)) then
           (let steps = (kc_step kc + L - 1) div kc_step kc;
                newKeys = replicate (nat (steps * kc_step kc)) zero
            in kc\<lparr>kc_keys := Some (case kc_keys kc of
                 None \<Rightarrow> newKeys
               | Some rows \<Rightarrow> (if prev mod kc_step kc \<noteq> 0 then slice 0 prev rows else rows) @ newKeys)\<rparr>)
         else kc)"

definition write_slots :: "'r list \<Rightarrow> 'r kvCache \<Rightarrow> 'r kvCache" where
  "write_slots rows kc =
     (let prev = kc_offset kc; offset = prev + int (length rows)
      in kc\<lparr>kc_offset := offset,
            kc_keys := Some (take (nat prev) (kc_slots kc) @ rows @ drop (nat offset) (kc_slots kc))\<rparr>)"

definition appendKV :: "'r \<Rightarrow> int \<Rightarrow> nat \<Rightarrow> 'r list \<Rightarrow> 'r kvHeap \<Rightarrow> 'r kvHeap" where
  "appendKV zero rowBytes c rows h =
     (let prev = kc_offset (kh_cache h c); L = int (length rows);
          h = fold (\<lambda>a h. case kh_snap h a of
                Some s \<Rightarrow> (if ks_fromOffset s < prev + L \<and> ks_toOffset s > prev then copyOut rowBytes a h else h)
              | None \<Rightarrow> h) (kc_lazySnapshots (kh_cache h c)) h
      in upd_cache c (\<lambda>kc. write_slots rows (grow zero L kc)) h)"

text \<open>The rows a reader sees (\<open>State\<close>, and with it \<open>View\<close>): none while there is no buffer.\<close>

definition kv_State :: "'r kvCache \<Rightarrow> 'r list" where
  "kv_State kc = slice 0 (kc_offset kc) (kc_slots kc)"

text \<open>The captures: a snapshot is only made for an offset that is due.  The offsets of a schedule are distinct (\<open>prepare\<close>
  panics otherwise), so that at most one place is due for an offset.\<close>

definition capture_due :: "int \<Rightarrow> 'd schedule \<Rightarrow> bool" where
  "capture_due reached p =
     (case pn_captured p of None \<Rightarrow> False | Some ss \<Rightarrow> list_ex (\<lambda>(o', s). s = None \<and> o' = reached) (zip (pn_offsets p) ss))"

definition handle :: "nat \<Rightarrow> nat snapshot" where
  "handle a = \<lparr>ss_data = a, ss_size = 0, ss_hook = False\<rparr>"

definition capture_one :: "nat \<Rightarrow> int \<Rightarrow> 'r kvHeap \<Rightarrow> 'r kvHeap" where
  "capture_one c o' h =
     (let p = kc_snapshots (kh_cache h c)
      in if \<not> capture_due o' p then h
         else (let (h, s) = lazySnapshot c (pn_base p) o' h
               in upd_cache c (\<lambda>kc. kc\<lparr>kc_snapshots := captureReached o' (\<lambda>_. map_option handle s) p\<rparr>) h))"

definition captureLazySnapshots :: "nat \<Rightarrow> int \<Rightarrow> int \<Rightarrow> 'r kvHeap \<Rightarrow> 'r kvHeap" where
  "captureLazySnapshots c start end h = fold (capture_one c) (scheduledIn start end (kc_snapshots (kh_cache h c))) h"

definition kv_Update :: "'r \<Rightarrow> int \<Rightarrow> nat \<Rightarrow> 'r list \<Rightarrow> 'r kvHeap \<Rightarrow> 'r kvHeap" where
  "kv_Update zero rowBytes c rows h =
     (let start = kc_offset (kh_cache h c);
          h = appendKV zero rowBytes c rows h
      in captureLazySnapshots c start (kc_offset (kh_cache h c)) h)"

definition kv_PrepareSnapshots :: "nat \<Rightarrow> int list \<Rightarrow> 'r kvHeap \<Rightarrow> 'r kvHeap option" where
  "kv_PrepareSnapshots c offsets h =
     map_option (\<lambda>p. upd_cache c (\<lambda>kc. kc\<lparr>kc_snapshots := p\<rparr>) h)
       (prepare (kc_offset (kh_cache h c)) offsets (kc_snapshots (kh_cache h c)))"

definition kv_TakeSnapshots :: "nat \<Rightarrow> 'r kvHeap \<Rightarrow> 'r kvHeap \<times> nat layers" where
  "kv_TakeSnapshots c h =
     (let (taken, p) = take_captured (kc_snapshots (kh_cache h c)) in (upd_cache c (\<lambda>kc. kc\<lparr>kc_snapshots := p\<rparr>) h, taken))"

section \<open>Restoring, splitting and merging\<close>

definition set_offset :: "nat \<Rightarrow> int \<Rightarrow> 'r kvHeap \<Rightarrow> 'r kvHeap" where
  "set_offset c offset = upd_cache c (\<lambda>kc. kc\<lparr>kc_offset := offset\<rparr>)"

text \<open>The address of a snapshot that is not in the store is a closed snapshot, whose use is an error of the client.\<close>

definition kv_Restore :: "'r \<Rightarrow> int \<Rightarrow> nat \<Rightarrow> nat option \<Rightarrow> int \<Rightarrow> 'r kvHeap \<Rightarrow> 'r kvHeap \<times> bool" where
  "kv_Restore zero rowBytes c snapshot target h =
     (if target < 0 then (h, False)
      else case snapshot of
             None \<Rightarrow> (if target > kc_offset (kh_cache h c) then (h, False) else (set_offset c target h, True))
           | Some a \<Rightarrow>
               (case kh_snap h a of
                  None \<Rightarrow> (h, False)
                | Some s \<Rightarrow>
                    (if target > ks_toOffset s \<or> kc_offset (kh_cache h c) < ks_fromOffset s then (h, False)
                     else if ks_cache s = Some c \<and> ks_keys s = None then (set_offset c (min target (ks_toOffset s)) h, True)
                     else
                       (let h = copyOut rowBytes a h;
                            h = set_offset c (ks_fromOffset s) h;
                            h = appendKV zero rowBytes c (case kh_snap h a of Some s \<Rightarrow> (case ks_keys s of Some rows \<Rightarrow> rows | None \<Rightarrow> [])
                                                                           | None \<Rightarrow> []) h
                        in (if target < kc_offset (kh_cache h c) then set_offset c target h else h, True)))))"

definition close_opt :: "nat option \<Rightarrow> 'r kvHeap \<Rightarrow> 'r kvHeap" where
  "close_opt s h = (case s of None \<Rightarrow> h | Some a \<Rightarrow> kv_Close a h)"

definition owned_rows :: "nat \<Rightarrow> 'r kvHeap \<Rightarrow> 'r list" where
  "owned_rows a h = (case kh_snap h a of Some s \<Rightarrow> (case ks_keys s of Some rows \<Rightarrow> rows | None \<Rightarrow> []) | None \<Rightarrow> [])"

definition kv_Merge :: "int \<Rightarrow> nat option \<Rightarrow> nat option \<Rightarrow> 'r kvHeap \<Rightarrow> 'r kvHeap \<times> nat option" where
  "kv_Merge rowBytes parent child h =
     (case (parent, child) of
        (Some p, Some ch) \<Rightarrow>
          (case (kh_snap h p, kh_snap h ch) of
             (Some sp, Some sc) \<Rightarrow>
               (if ks_keys sp = None \<and> ks_keys sc = None \<and> ks_cache sp = ks_cache sc \<and> ks_toOffset sp = ks_fromOffset sc then
                  (let (h, a) = new_snap \<lparr>ks_keys = None, ks_fromOffset = ks_fromOffset sp, ks_toOffset = ks_toOffset sc,
                                          ks_cache = ks_cache sp, ks_onMaterialize = False\<rparr> h;
                       h = (case ks_cache sp of Some c \<Rightarrow> addLazySnapshot c a h | None \<Rightarrow> h)
                   in (kv_Close ch (kv_Close p h), Some a))
                else
                  (let h = copyOut rowBytes ch (copyOut rowBytes p h);
                       joined = owned_rows p h @ owned_rows ch h;
                       (h, a) = new_snap \<lparr>ks_keys = Some joined, ks_fromOffset = ks_fromOffset sp, ks_toOffset = ks_toOffset sc,
                                          ks_cache = None, ks_onMaterialize = False\<rparr> h
                   in (kv_Close ch (kv_Close p h), Some a)))
           | _ \<Rightarrow> (h, None))
      | _ \<Rightarrow> (close_opt child (close_opt parent h), None))"

definition kv_Split :: "nat option \<Rightarrow> int \<Rightarrow> 'r kvHeap \<Rightarrow> 'r kvHeap \<times> nat option \<times> nat option" where
  "kv_Split snapshot at h =
     (case snapshot of
        None \<Rightarrow> (h, None, None)
      | Some a \<Rightarrow>
          (case kh_snap h a of
             None \<Rightarrow> (h, None, None)
           | Some s \<Rightarrow>
               (let splitIdx = at - ks_fromOffset s; seqLen = ks_toOffset s - ks_fromOffset s
                in if splitIdx \<le> 0 then (h, None, Some a)
                   else if splitIdx \<ge> seqLen then (h, Some a, None)
                   else
                     (case (ks_keys s, ks_cache s) of
                        (None, Some c) \<Rightarrow>
                          (let (h, p) = new_snap \<lparr>ks_keys = None, ks_fromOffset = ks_fromOffset s, ks_toOffset = at, ks_cache = Some c,
                                                  ks_onMaterialize = False\<rparr> h;
                               (h, ch) = new_snap \<lparr>ks_keys = None, ks_fromOffset = at, ks_toOffset = ks_toOffset s, ks_cache = Some c,
                                                   ks_onMaterialize = False\<rparr> h
                           in (kv_Close a (addLazySnapshot c ch (addLazySnapshot c p h)), Some p, Some ch))
                      | _ \<Rightarrow>
                          (let rows = owned_rows a h;
                               (h, p) = new_snap \<lparr>ks_keys = Some (slice 0 splitIdx rows), ks_fromOffset = ks_fromOffset s, ks_toOffset = at,
                                                  ks_cache = None, ks_onMaterialize = False\<rparr> h;
                               (h, ch) = new_snap \<lparr>ks_keys = Some (slice splitIdx seqLen rows), ks_fromOffset = at,
                                                   ks_toOffset = ks_toOffset s, ks_cache = None, ks_onMaterialize = False\<rparr> h
                           in (kv_Close a h, Some p, Some ch))))))"

definition kv_Free :: "int \<Rightarrow> nat \<Rightarrow> 'r kvHeap \<Rightarrow> 'r kvHeap" where
  "kv_Free rowBytes c h =
     upd_cache c (\<lambda>kc. kc\<lparr>kc_keys := None, kc_offset := 0, kc_snapshots := sched_empty\<rparr>)
       (fold (copyOut rowBytes) (kc_lazySnapshots (kh_cache h c)) h)"

end
