(* ===== verification/KVRows.thy ===== *)
theory KVRows
  imports KVCache
begin

text \<open>
  What a key-value cache promises: it is the list of the rows it was given, a snapshot is a first offset with the rows from
  there on, and both are values.  There is no buffer, no range that has to be copied out in time, no growth.  \<open>KVRefine\<close>
  shows that the cache in the store keeps this promise, \<open>KVFaithful\<close> what the prefix cache makes of it.  The size of a
  snapshot is not part of it, as a snapshot has none until it is copied out.
\<close>

section \<open>State and operations\<close>

record 'r kvData =
  kd_from :: int
  kd_rows :: "'r list"

record 'r kvRows =
  kr_rows :: "'r list"
  kr_snapshots :: "'r kvData schedule"

definition kd_to :: "'r kvData \<Rightarrow> int" where
  "kd_to d = kd_from d + int (length (kd_rows d))"

definition kr_new :: "'r kvData \<Rightarrow> 'r kvData snapshot" where
  "kr_new d = \<lparr>ss_data = d, ss_size = 0, ss_hook = False\<rparr>"

definition kr_range :: "int \<Rightarrow> int \<Rightarrow> 'r list \<Rightarrow> 'r kvData option" where
  "kr_range a b rows = (if b \<le> a then None else Some \<lparr>kd_from = a, kd_rows = slice a b rows\<rparr>)"

definition kr_Offset :: "'r kvRows \<Rightarrow> int" where
  "kr_Offset c = int (length (kr_rows c))"

definition kr_Snapshot :: "int \<Rightarrow> 'r kvRows \<Rightarrow> 'r kvData option" where
  "kr_Snapshot start c = kr_range start (kr_Offset c) (kr_rows c)"

definition kr_Update :: "'r list \<Rightarrow> 'r kvRows \<Rightarrow> 'r kvRows" where
  "kr_Update new c =
     (let rows = kr_rows c @ new
      in \<lparr>kr_rows = rows, kr_snapshots = capture_write (\<lambda>a b. map_option kr_new (kr_range a b rows))
           (kr_Offset c) (int (length rows)) (kr_snapshots c)\<rparr>)"

definition kr_Prepare :: "int list \<Rightarrow> 'r kvRows \<Rightarrow> 'r kvRows option" where
  "kr_Prepare offsets c = map_option (\<lambda>p. c\<lparr>kr_snapshots := p\<rparr>) (prepare (kr_Offset c) offsets (kr_snapshots c))"

definition kr_Take :: "'r kvRows \<Rightarrow> 'r kvRows \<times> 'r kvData layers" where
  "kr_Take c = (let (taken, p) = take_captured (kr_snapshots c) in (c\<lparr>kr_snapshots := p\<rparr>, taken))"

definition kr_Restore :: "'r kvData option \<Rightarrow> int \<Rightarrow> 'r kvRows \<Rightarrow> 'r kvRows \<times> bool" where
  "kr_Restore s target c =
     (if target < 0 then (c, False)
      else case s of
             None \<Rightarrow> (if target > kr_Offset c then (c, False) else (c\<lparr>kr_rows := take (nat target) (kr_rows c)\<rparr>, True))
           | Some d \<Rightarrow>
               (if target > kd_to d \<or> kr_Offset c < kd_from d then (c, False)
                else (c\<lparr>kr_rows := take (nat target) (take (nat (kd_from d)) (kr_rows c) @ kd_rows d)\<rparr>, True)))"

definition kr_Merge :: "'r kvData option \<Rightarrow> 'r kvData option \<Rightarrow> 'r kvData option" where
  "kr_Merge parent child =
     (case (parent, child) of
        (Some p, Some ch) \<Rightarrow> Some \<lparr>kd_from = kd_from p, kd_rows = kd_rows p @ kd_rows ch\<rparr>
      | _ \<Rightarrow> None)"

definition kr_Split :: "'r kvData option \<Rightarrow> int \<Rightarrow> 'r kvData option \<times> 'r kvData option" where
  "kr_Split s at =
     (case s of
        None \<Rightarrow> (None, None)
      | Some d \<Rightarrow>
          (let n = at - kd_from d
           in if n \<le> 0 then (None, Some d)
              else if n \<ge> int (length (kd_rows d)) then (Some d, None)
              else (Some \<lparr>kd_from = kd_from d, kd_rows = take (nat n) (kd_rows d)\<rparr>,
                    Some \<lparr>kd_from = at, kd_rows = drop (nat n) (kd_rows d)\<rparr>)))"

definition kr_empty :: "'r kvRows" where
  "kr_empty = \<lparr>kr_rows = [], kr_snapshots = sched_empty\<rparr>"

definition kr_Free :: "'r kvRows \<Rightarrow> 'r kvRows" where
  "kr_Free _ = kr_empty"

section \<open>One operation, over any kind of snapshot\<close>

datatype ('r, 's) kvOp =
    UpdateOp "'r list"
  | SnapshotOp int
  | PrepareOp "int list"
  | TakeOp
  | RestoreOp "'s option" int
  | MergeOp "'s option" "'s option"
  | SplitOp "'s option" int
  | CloseOp 's
  | HookOp 's bool
  | FreeOp

text \<open>The snapshots that are handed over to the operation and are gone after it.\<close>

fun op_consumes :: "('r, 's) kvOp \<Rightarrow> 's set" where
  "op_consumes (MergeOp p ch) = set_option p \<union> set_option ch"
| "op_consumes (SplitOp s _) = set_option s"
| "op_consumes (CloseOp s) = {s}"
| "op_consumes _ = {}"

type_synonym ('w, 's) outcome = "('w \<times> 's option list \<times> bool) option"

fun kr_exec :: "('r, 'r kvData) kvOp \<Rightarrow> 'r kvRows \<Rightarrow> ('r kvRows, 'r kvData) outcome" where
  "kr_exec (UpdateOp new) c = Some (kr_Update new c, [], True)"
| "kr_exec (SnapshotOp start) c = Some (c, [kr_Snapshot start c], True)"
| "kr_exec (PrepareOp offsets) c = map_option (\<lambda>c. (c, [], True)) (kr_Prepare offsets c)"
| "kr_exec TakeOp c = (let (c, taken) = kr_Take c in Some (c, map (map_option ss_data) taken, True))"
| "kr_exec (RestoreOp s target) c = (let (c, ok) = kr_Restore s target c in Some (c, [], ok))"
| "kr_exec (MergeOp p ch) c = Some (c, [kr_Merge p ch], True)"
| "kr_exec (SplitOp s at) c = (let (p, q) = kr_Split s at in Some (c, [p, q], True))"
| "kr_exec (CloseOp s) c = Some (c, [], True)"
| "kr_exec (HookOp s on) c = Some (c, [], True)"
| "kr_exec FreeOp c = Some (kr_Free c, [], True)"

fun kv_exec :: "'r \<Rightarrow> int \<Rightarrow> nat \<Rightarrow> ('r, nat) kvOp \<Rightarrow> 'r kvHeap \<Rightarrow> ('r kvHeap, nat) outcome" where
  "kv_exec zero nb c (UpdateOp new) h = Some (kv_Update zero nb c new h, [], True)"
| "kv_exec zero nb c (SnapshotOp start) h = (let (h, s) = kv_Snapshot c start h in Some (h, [s], True))"
| "kv_exec zero nb c (PrepareOp offsets) h = map_option (\<lambda>h. (h, [], True)) (kv_PrepareSnapshots c offsets h)"
| "kv_exec zero nb c TakeOp h = (let (h, taken) = kv_TakeSnapshots c h in Some (h, map (map_option ss_data) taken, True))"
| "kv_exec zero nb c (RestoreOp s target) h = (let (h, ok) = kv_Restore zero nb c s target h in Some (h, [], ok))"
| "kv_exec zero nb c (MergeOp p ch) h = (let (h, s) = kv_Merge nb p ch h in Some (h, [s], True))"
| "kv_exec zero nb c (SplitOp s at) h = (let (h, p, q) = kv_Split s at h in Some (h, [p, q], True))"
| "kv_exec zero nb c (CloseOp s) h = Some (kv_Close s h, [], True)"
| "kv_exec zero nb c (HookOp s on) h = Some (SetMaterializeHook s on h, [], True)"
| "kv_exec zero nb c FreeOp h = Some (kv_Free nb c h, [], True)"

end
