(* ===== verification/KVFaithful.thy ===== *)
theory KVFaithful
  imports HiddenFaithful KVRows
begin

text \<open>
  The key-value cache as a layer of the prefix cache: on lists of rows it interprets \<open>rewinding_cache\<close>, so that a request
  begins with the rows of exactly the keys it reuses.  \<open>KVSpec\<close> has the step from the lists of rows to the buffers.
\<close>

definition kv_ops :: "('r kvRows, 'r kvData) cache_ops" where
  "kv_ops =
     \<lparr>co_Offset = kr_Offset, co_Restore = (\<lambda>c s t. kr_Restore (map_option ss_data s) t c), co_Free = kr_Free,
      co_Snapshot = (\<lambda>c start. map_option kr_new (kr_Snapshot start c)),
      co_Split = (\<lambda>_ s at. (let (p, q) = kr_Split (Some (ss_data s)) at in (map_option kr_new p, map_option kr_new q))),
      co_Merge = (\<lambda>_ p q. map_option kr_new (kr_Merge (map_option ss_data p) (map_option ss_data q))),
      co_PrepareSnapshots = (\<lambda>c offsets. kr_Prepare offsets c), co_TakeSnapshots = kr_Take\<rparr>"

definition kv_covers :: "(nat \<Rightarrow> trieKey list \<Rightarrow> 'r) \<Rightarrow> nat \<Rightarrow> nat \<Rightarrow> trieKey list \<Rightarrow> 'r kvData \<Rightarrow> bool" where
  "kv_covers row i k ks d \<longleftrightarrow> kd_from d = int k \<and> k \<le> length ks \<and> kd_rows d = drop k (hidden_rows row i ks)"

definition kv_filled :: "(nat \<Rightarrow> trieKey list \<Rightarrow> 'r) \<Rightarrow> nat \<Rightarrow> int \<Rightarrow> int list \<Rightarrow> trieKey list \<Rightarrow> 'r kvRows \<Rightarrow> bool" where
  "kv_filled row i b offs ks c \<longleftrightarrow> kr_rows c = hidden_rows row i ks \<and>
     (if offs = [] then unscheduled (kr_snapshots c)
      else 0 \<le> b \<and> (\<forall>zs. sched_run (\<lambda>a b. kr_range a b (hidden_rows row i ks @ zs)) b offs (int (length ks)) (kr_snapshots c)))"

definition kv_writes :: "(nat \<Rightarrow> trieKey list \<Rightarrow> 'r) \<Rightarrow> nat \<Rightarrow> trieKey list \<Rightarrow> trieKey list \<Rightarrow> 'r kvRows \<Rightarrow> 'r kvRows \<Rightarrow> bool" where
  "kv_writes row i ks ms c c' \<longleftrightarrow> c' = kr_Update (drop (length ks) (hidden_rows row i (ks @ ms))) c"

section \<open>The laws\<close>

lemma kr_Restore_Offset:
  assumes "kr_Restore s t c = (c', b)"
  shows "if b then kr_Offset c' = t \<and> kr_snapshots c' = kr_snapshots c else c' = c"
proof (cases s)
  case None
  then show ?thesis using assms by (auto simp: kr_Restore_def kr_Offset_def split: if_splits)
next
  case (Some d)
  show ?thesis
  proof (cases "t < 0 \<or> t > kd_to d \<or> kr_Offset c < kd_from d")
    case True
    then show ?thesis using assms by (auto simp: kr_Restore_def Some split: if_splits)
  next
    case False
    then have "nat t \<le> nat (kd_from d) + length (kd_rows d)" "nat (kd_from d) \<le> length (kr_rows c)"
      by (simp_all add: kd_to_def kr_Offset_def) linarith+
    then show ?thesis using assms False by (auto simp: kr_Restore_def kr_Offset_def Some min_def)
  qed
qed

lemma kr_range_append: "0 \<le> a \<Longrightarrow> b \<le> int (length rows) \<Longrightarrow> kr_range a b (rows @ zs) = kr_range a b rows"
  by (simp add: kr_range_def slice_append)

lemma kv_write:
  assumes "kv_filled row i b offs ks c" "kv_writes row i ks ms c c'"
  shows "kv_filled row i b offs (ks @ ms) c'"
proof -
  define w where "w = drop (length ks) (hidden_rows row i (ks @ ms))"
  have c: "kr_rows c = hidden_rows row i ks" using assms(1) by (simp add: kv_filled_def)
  have e: "hidden_rows row i ks @ w = hidden_rows row i (ks @ ms)" unfolding w_def by (rule hidden_rows_append [symmetric])
  have c': "kr_rows c' = hidden_rows row i (ks @ ms)" "kr_snapshots c' = capture_write
      (\<lambda>a b. map_option kr_new (kr_range a b (hidden_rows row i (ks @ ms)))) (int (length ks)) (int (length (ks @ ms))) (kr_snapshots c)"
    using assms(2) e by (simp_all add: kv_writes_def kr_Update_def Let_def c kr_Offset_def flip: w_def)
  show ?thesis
  proof (cases "offs = []")
    case True
    then show ?thesis using assms(1) c' by (simp add: kv_filled_def unscheduled_write)
  next
    case False
    then have b: "0 \<le> b" and run: "\<And>zs. sched_run (\<lambda>a b. kr_range a b (hidden_rows row i ks @ zs)) b offs (int (length ks)) (kr_snapshots c)"
      using assms(1) by (simp_all add: kv_filled_def)
    have "sched_run (\<lambda>a b. kr_range a b (hidden_rows row i (ks @ ms) @ zs)) b offs (int (length (ks @ ms))) (kr_snapshots c')" for zs
      unfolding c'(2)
    proof (rule sched_run_write)
      show "sched_run (\<lambda>a b. kr_range a b (hidden_rows row i (ks @ ms) @ zs)) b offs (int (length ks)) (kr_snapshots c)"
        using run [of "w @ zs"] by (simp add: e flip: append_assoc)
      show "map_option ss_data (map_option kr_new (kr_range x y (hidden_rows row i (ks @ ms)))) =
          kr_range x y (hidden_rows row i (ks @ ms) @ zs)" if "y \<le> int (length (ks @ ms))" "b \<le> x" for x y
        using that b by (simp add: kr_range_append option.map_comp comp_def kr_new_def option.map_ident)
    qed (simp_all add: kr_range_def)
    then show ?thesis using False b c'(1) by (simp add: kv_filled_def)
  qed
qed

lemma kv_take:
  assumes f: "kv_filled row i b offs ks c" and j: "layer_at (snd (kr_Take c)) j = Some s"
  shows "j < length offs \<and> offs ! j \<le> int (length ks) \<and> kv_covers row i (nat (bound b offs j)) (take (nat (offs ! j)) ks) (ss_data s)"
proof (cases "offs = []")
  case True
  then show ?thesis using assms by (simp add: kv_filled_def kr_Take_def take_captured_def unscheduled_def case_prod_beta)
next
  case False
  then have b: "0 \<le> b" and run: "sched_run (\<lambda>a b. kr_range a b (hidden_rows row i ks)) b offs (int (length ks)) (kr_snapshots c)"
    using f by (auto simp: kv_filled_def dest: spec [of _ "[]"])
  let ?V = "\<lambda>a b. if b \<le> int (length ks) then kr_range a b (hidden_rows row i ks) else None"
  have m: "map (map_option ss_data) (snd (kr_Take c)) = caps ?V b offs"
    using sched_run_take [OF run] by (simp add: kr_Take_def case_prod_beta)
  have jl: "j < length (snd (kr_Take c))" "snd (kr_Take c) ! j = Some s" using j by (auto simp: layer_at_def split: if_splits)
  then have jo: "j < length offs" using arg_cong [OF m, of length] by simp
  then have "Some (ss_data s) = ?V (bound b offs j) (offs ! j)"
    using arg_cong [OF m, of "\<lambda>xs. xs ! j"] jl by (simp add: caps_nth bound_def cong: if_cong)
  then have s: "offs ! j \<le> int (length ks)" "bound b offs j < offs ! j"
      "ss_data s = \<lparr>kd_from = bound b offs j, kd_rows = slice (bound b offs j) (offs ! j) (hidden_rows row i ks)\<rparr>"
    by (auto simp: kr_range_def split: if_splits)
  have sorted: "sorted_wrt (<) offs" "\<forall>x \<in> set offs. b \<le> x"
    using run by (auto simp: sched_run_def sched_at_def)
  have "0 \<le> bound b offs j"
  proof (cases j)
    case (Suc l)
    then have "b \<le> offs ! l" using sorted(2) jo by simp
    then show ?thesis using b Suc by (simp add: bound_def)
  qed (simp add: bound_def b)
  then have "kv_covers row i (nat (bound b offs j)) (take (nat (offs ! j)) ks) (ss_data s)"
    using s nat_mono [of "bound b offs j" "offs ! j"] by (simp add: kv_covers_def slice_drop_take take_hidden_rows min_absorb2)
  then show ?thesis using jo s(1) by simp
qed

lemma kv_restore:
  assumes f: "kv_filled row i 0 [] (take j ks) c" and j: "j \<le> length ks" and t: "0 \<le> t"
    and s: "case s of None \<Rightarrow> True | Some d \<Rightarrow> nat t \<le> length ks \<and> (\<exists>k. kv_covers row i k ks d)"
    and r: "kr_Restore s t c = (c', True)"
  shows "kv_filled row i 0 [] (take (nat t) ks) c' \<and> (s = None \<longrightarrow> nat t \<le> j)"
proof -
  have c: "kr_rows c = hidden_rows row i (take j ks)" "unscheduled (kr_snapshots c)" using f by (simp_all add: kv_filled_def)
  have sn: "kr_snapshots c' = kr_snapshots c" using kr_Restore_Offset [OF r] by simp
  have "kr_rows c' = hidden_rows row i (take (nat t) ks) \<and> (s = None \<longrightarrow> nat t \<le> j)"
  proof (cases s)
    case None
    then have "nat t \<le> j" "kr_rows c' = take (nat t) (hidden_rows row i (take j ks))"
      using r t j by (auto simp: kr_Restore_def kr_Offset_def c(1) split: if_splits)
    then show ?thesis by (simp add: take_hidden_rows min_absorb1)
  next
    case (Some d)
    then obtain k where k: "nat t \<le> length ks" "kd_from d = int k" "k \<le> length ks" "kd_rows d = drop k (hidden_rows row i ks)"
      using s by (auto simp: kv_covers_def)
    have r': "k \<le> j" "kr_rows c' = take (nat t) (take k (hidden_rows row i (take j ks)) @ drop k (hidden_rows row i ks))"
      using r t j by (auto simp: kr_Restore_def kr_Offset_def c(1) Some k(2,4) split: if_splits)
    have "take k (hidden_rows row i (take j ks)) = take k (hidden_rows row i ks)"
      using r'(1) by (simp add: take_hidden_rows min_absorb1)
    then have "kr_rows c' = take (nat t) (hidden_rows row i ks)" using r'(2) by (simp only: append_take_drop_id)
    then show ?thesis using Some by (simp add: take_hidden_rows)
  qed
  then show ?thesis using c(2) sn by (simp add: kv_filled_def)
qed

interpretation kv_faithful: rewinding_cache "kv_ops" "\<lambda>_. True" "kv_covers row" "kv_filled row" "kv_writes row"
  for row :: "nat \<Rightarrow> trieKey list \<Rightarrow> 'r"
proof unfold_locales
  fix c c' :: "'r kvRows" and s and t :: int
  show "0 \<le> co_Offset kv_ops c" by (simp add: kv_ops_def kr_Offset_def)
  show "True \<and> co_Offset kv_ops c' = t" if "co_Restore kv_ops c s t = (c', True)"
    using kr_Restore_Offset [of "map_option ss_data s" t c c' True] that by (simp add: kv_ops_def)
  show "True \<and> co_Offset kv_ops c' = co_Offset kv_ops c" if "co_Restore kv_ops c s t = (c', False)"
    using kr_Restore_Offset [of "map_option ss_data s" t c c' False] that by (simp add: kv_ops_def)
  show "True \<and> co_Offset kv_ops (co_Free kv_ops c) = 0" by (simp add: kv_ops_def kr_Free_def kr_empty_def kr_Offset_def)
  show "True \<and> co_Offset kv_ops c' = co_Offset kv_ops c" if "co_PrepareSnapshots kv_ops c offs = Some c'" for offs
    using that by (auto simp: kv_ops_def kr_Prepare_def kr_Offset_def)
  show "True \<and> co_Offset kv_ops (fst (co_TakeSnapshots kv_ops c)) = co_Offset kv_ops c"
    by (simp add: kv_ops_def kr_Take_def case_prod_beta kr_Offset_def)
next
  fix i k a and ks :: "trieKey list" and s p q :: "'r kvData snapshot" and kv :: "'r kvRows" and pp
  assume c: "kv_covers row i k ks (ss_data s)" "a < length ks"
  show "kv_covers row i k (take a ks) (ss_data p)"
    if "k < a" "co_Split kv_ops kv s (int a) = (Some p, pp)"
    using c that by (auto simp: kv_ops_def kr_Split_def kv_covers_def Let_def kr_new_def
      drop_take of_nat_diff nat_diff_distrib' simp flip: take_hidden_rows split: if_splits)
  show "kv_covers row i a ks (ss_data q)"
    if "k \<le> a" "co_Split kv_ops kv s (int a) = (pp, Some q)"
    using c that by (auto simp: kv_ops_def kr_Split_def kv_covers_def Let_def kr_new_def
      nat_diff_distrib' split: if_splits)
next
  fix i k m and ks :: "trieKey list" and pp qq :: "'r kvData snapshot option" and kv :: "'r kvRows" and s
  assume a: "\<And>p. pp = Some p \<Longrightarrow> kv_covers row i k (take m ks) (ss_data p)" "\<And>q. qq = Some q \<Longrightarrow> kv_covers row i m ks (ss_data q)"
    "k \<le> m" "m < length ks" "co_Merge kv_ops kv pp qq = Some s"
  then obtain p q where pq: "pp = Some p" "qq = Some q"
      "ss_data s = \<lparr>kd_from = kd_from (ss_data p), kd_rows = kd_rows (ss_data p) @ kd_rows (ss_data q)\<rparr>"
    by (auto simp: kv_ops_def kr_Merge_def kr_new_def split: option.splits)
  have "drop k (take m (hidden_rows row i ks)) @ drop m (hidden_rows row i ks) = drop k (hidden_rows row i ks)"
    using a(3,4) append_take_drop_id [of "m - k" "drop k (hidden_rows row i ks)"] by (simp add: drop_take)
  then show "kv_covers row i k ks (ss_data s)"
    using a(1) [OF pq(1)] a(2) [OF pq(2)] a(3,4) by (simp add: pq(3) kv_covers_def take_hidden_rows)
next
  fix i b offs and ks ms :: "trieKey list" and kv kv' :: "'r kvRows" and t :: int and ss :: "'r kvData snapshot option"
    and j k n :: nat and s :: "'r kvData snapshot" and b' :: int
  assume f: "kv_filled row i b offs ks kv"
  then have rows: "kr_rows kv = hidden_rows row i ks" by (simp add: kv_filled_def)
  show "True \<and> co_Offset kv_ops kv = int (length ks)" using rows by (simp add: kv_ops_def kr_Offset_def)
  show "kv_filled row i 0 [] [] (co_Free kv_ops kv)"
    by (simp add: kv_filled_def kv_ops_def kr_Free_def kr_empty_def unscheduled_def sched_empty_def)
  show "kv_filled row i b offs (ks @ ms) kv'" if "kv_writes row i ks ms kv kv'" using kv_write [OF f that] .
  show "kv_filled row i 0 [] ks (fst (co_TakeSnapshots kv_ops kv))"
    using rows by (simp add: kv_filled_def kv_ops_def kr_Take_def take_captured_def unscheduled_def case_prod_beta)
  show "j < length offs \<and> offs ! j \<le> int (length ks) \<and> kv_covers row i (nat (bound b offs j)) (take (nat (offs ! j)) ks) (ss_data s)"
    if "layer_at (snd (co_TakeSnapshots kv_ops kv)) j = Some s"
    using kv_take [OF f, of j s] that by (simp add: kv_ops_def)
next
  fix i b b' and ks :: "trieKey list" and kv :: "'r kvRows"
  show "kv_filled row i b' [] ks kv" if "kv_filled row i b [] ks kv" using that by (simp add: kv_filled_def)
next
  fix i and ks :: "trieKey list" and kv kv' :: "'r kvRows" and t :: int and offs
  assume f: "kv_filled row i 0 [] ks kv"
  show "kv_filled row i 0 [] (take (nat t) ks) kv'" if "0 \<le> t" "co_Restore kv_ops kv None t = (kv', True)"
    using kv_restore [of row i "length ks" ks kv t None kv'] f that by (simp add: kv_ops_def)
  show "kv_filled row i (int (length ks)) offs ks kv'" if o: "offs \<noteq> []" "co_PrepareSnapshots kv_ops kv offs = Some kv'"
  proof -
    have rows: "kr_rows kv = hidden_rows row i ks" using f by (simp add: kv_filled_def)
    obtain p where p: "prepare (kr_Offset kv) offs (kr_snapshots kv) = Some p" "kv' = kv\<lparr>kr_snapshots := p\<rparr>"
      using o(2) by (auto simp: kv_ops_def kr_Prepare_def)
    have "sched_run (\<lambda>a b. kr_range a b (hidden_rows row i ks @ zs)) (int (length ks)) offs (int (length ks)) p" for zs
      using sched_run_prepare [OF p(1), of "\<lambda>a b. kr_range a b (hidden_rows row i ks @ zs)"] rows
      by (simp add: kr_Offset_def kr_range_def)
    then show ?thesis using rows o(1) by (simp add: kv_filled_def p(2))
  qed
next
  fix i j k n and ks :: "trieKey list" and kv kv' :: "'r kvRows" and s :: "'r kvData snapshot"
  assume a: "kv_filled row i 0 [] (take j ks) kv" "kv_covers row i k ks (ss_data s)" "j < n" "n \<le> length ks"
    "co_Restore kv_ops kv (Some s) (int n) = (kv', True)"
  then show "kv_filled row i 0 [] (take n ks) kv'"
    using kv_restore [of row i j ks kv "int n" "Some (ss_data s)" kv'] by (auto simp: kv_ops_def)
next
  fix i and ks :: "trieKey list" and kv kv' :: "'r kvRows" and ss :: "'r kvData snapshot option" and t :: int
  assume "kv_filled row i 0 [] ks kv" "co_Restore kv_ops kv ss t = (kv', False)"
  then show "kv_filled row i 0 [] ks kv'" using kr_Restore_Offset [of "map_option ss_data ss" t kv kv' False] by (simp add: kv_ops_def)
next
  fix i k and ks :: "trieKey list" and kv :: "'r kvRows" and s :: "'r kvData snapshot"
  assume f: "kv_filled row i 0 [] ks kv" and k: "k < length ks" "co_Snapshot kv_ops kv (int k) = Some s"
  then have "kr_rows kv = hidden_rows row i ks" by (simp add: kv_filled_def)
  then show "kv_covers row i k ks (ss_data s)"
    using k by (auto simp: kv_ops_def kr_Snapshot_def kr_range_def kr_new_def kr_Offset_def kv_covers_def slice_drop_take split: if_splits)
next
  show "rewinds kv_ops (kv_filled row)"
    unfolding rewinds_def
  proof (intro allI impI)
    fix i and ks :: "trieKey list" and kv :: "'r kvRows" and n
    assume "kv_filled row i 0 [] ks kv" "n \<le> length ks"
    then have "int n \<le> kr_Offset kv" by (simp add: kv_filled_def kr_Offset_def)
    then show "snd (co_Restore kv_ops kv None (int n))" by (simp add: kv_ops_def kr_Restore_def)
  qed
qed

end
