(* ===== verification/CacheSum.thy ===== *)
theory CacheSum
  imports FaithfulRunner
begin

text \<open>
  Layers of two kinds.  A model has attention layers beside others, and \<open>[]cache.Cache\<close> holds caches of several types: a layer's
  snapshots are of its cache's own type, which the caches assert (\<open>snapshot.(*kvSnapshot)\<close>).  The sum of two kinds of
  caches, with the assertion as a failing restore or an absent result, satisfies the contract of the prefix cache when both do.
\<close>

section \<open>The operations\<close>

definition snap_map :: "('d \<Rightarrow> 'e) \<Rightarrow> 'd snapshot \<Rightarrow> 'e snapshot" where
  "snap_map f s = \<lparr>ss_data = f (ss_data s), ss_size = ss_size s, ss_hook = ss_hook s\<rparr>"

lemma ss_data_snap_map [simp]: "ss_data (snap_map f s) = f (ss_data s)"
  by (simp add: snap_map_def)

text \<open>The type assertion: \<open>None\<close> when the snapshot is of the other type.\<close>

definition assert_type :: "('x \<Rightarrow> 'd option) \<Rightarrow> 'x snapshot option \<Rightarrow> 'd snapshot option option" where
  "assert_type f s = (case s of
     None \<Rightarrow> Some None
   | Some s \<Rightarrow> (case f (ss_data s) of None \<Rightarrow> None | Some d \<Rightarrow> Some (Some (snap_map (\<lambda>_. d) s))))"

definition as_left :: "'a + 'b \<Rightarrow> 'a option" where
  "as_left x = (case x of Inl a \<Rightarrow> Some a | Inr _ \<Rightarrow> None)"

definition as_right :: "'a + 'b \<Rightarrow> 'b option" where
  "as_right x = (case x of Inl _ \<Rightarrow> None | Inr b \<Rightarrow> Some b)"

text \<open>The operations on a cache of one kind, with snapshots of either.\<close>

definition side_Restore ::
  "('c, 'd) cache_ops \<Rightarrow> ('x \<Rightarrow> 'd option) \<Rightarrow> ('c \<Rightarrow> 'k) \<Rightarrow> 'c \<Rightarrow> 'x snapshot option \<Rightarrow> int \<Rightarrow> 'k \<times> bool" where
  "side_Restore ops f emb c s t = (case assert_type f s of None \<Rightarrow> (emb c, False) | Some s \<Rightarrow> apfst emb (co_Restore ops c s t))"

definition side_Split ::
  "('c, 'd) cache_ops \<Rightarrow> ('x \<Rightarrow> 'd option) \<Rightarrow> ('d \<Rightarrow> 'x) \<Rightarrow> 'c \<Rightarrow> 'x snapshot \<Rightarrow> int \<Rightarrow> 'x snapshot option \<times> 'x snapshot option" where
  "side_Split ops f emb c s at = (case f (ss_data s) of
     None \<Rightarrow> (None, None)
   | Some d \<Rightarrow> map_prod (map_option (snap_map emb)) (map_option (snap_map emb)) (co_Split ops c (snap_map (\<lambda>_. d) s) at))"

definition side_Merge ::
  "('c, 'd) cache_ops \<Rightarrow> ('x \<Rightarrow> 'd option) \<Rightarrow> ('d \<Rightarrow> 'x) \<Rightarrow> 'c \<Rightarrow> 'x snapshot option \<Rightarrow> 'x snapshot option \<Rightarrow> 'x snapshot option" where
  "side_Merge ops f emb c p q =
     (if p = None \<and> q = None then None
      else case (assert_type f p, assert_type f q) of
             (Some p, Some q) \<Rightarrow> map_option (snap_map emb) (co_Merge ops c p q)
           | _ \<Rightarrow> None)"

definition sum_ops :: "('c1, 'd1) cache_ops \<Rightarrow> ('c2, 'd2) cache_ops \<Rightarrow> ('c1 + 'c2, 'd1 + 'd2) cache_ops" where
  "sum_ops L R =
     \<lparr>co_Offset = case_sum (co_Offset L) (co_Offset R),
      co_Restore = case_sum (side_Restore L as_left Inl) (side_Restore R as_right Inr),
      co_Free = map_sum (co_Free L) (co_Free R),
      co_Snapshot = case_sum (\<lambda>c t. map_option (snap_map Inl) (co_Snapshot L c t)) (\<lambda>c t. map_option (snap_map Inr) (co_Snapshot R c t)),
      co_Split = case_sum (side_Split L as_left Inl) (side_Split R as_right Inr),
      co_Merge = case_sum (side_Merge L as_left Inl) (side_Merge R as_right Inr),
      co_PrepareSnapshots = case_sum (\<lambda>c os. map_option Inl (co_PrepareSnapshots L c os)) (\<lambda>c os. map_option Inr (co_PrepareSnapshots R c os)),
      co_TakeSnapshots = case_sum (\<lambda>c. map_prod Inl (map (map_option (snap_map Inl))) (co_TakeSnapshots L c))
        (\<lambda>c. map_prod Inr (map (map_option (snap_map Inr))) (co_TakeSnapshots R c))\<rparr>"

text \<open>Which layers have a cache of the first kind is fixed.\<close>

definition sum_ok :: "('c1 \<Rightarrow> bool) \<Rightarrow> ('c2 \<Rightarrow> bool) \<Rightarrow> 'c1 + 'c2 \<Rightarrow> bool" where
  "sum_ok = case_sum"

definition sum_covers ::
  "(nat \<Rightarrow> bool) \<Rightarrow> (nat \<Rightarrow> nat \<Rightarrow> trieKey list \<Rightarrow> 'd1 \<Rightarrow> bool) \<Rightarrow> (nat \<Rightarrow> nat \<Rightarrow> trieKey list \<Rightarrow> 'd2 \<Rightarrow> bool) \<Rightarrow>
     nat \<Rightarrow> nat \<Rightarrow> trieKey list \<Rightarrow> 'd1 + 'd2 \<Rightarrow> bool" where
  "sum_covers left L R i k ks d = (case d of Inl d \<Rightarrow> left i \<and> L i k ks d | Inr d \<Rightarrow> \<not> left i \<and> R i k ks d)"

definition sum_filled ::
  "(nat \<Rightarrow> bool) \<Rightarrow> (nat \<Rightarrow> int \<Rightarrow> int list \<Rightarrow> trieKey list \<Rightarrow> 'c1 \<Rightarrow> bool) \<Rightarrow> (nat \<Rightarrow> int \<Rightarrow> int list \<Rightarrow> trieKey list \<Rightarrow> 'c2 \<Rightarrow> bool) \<Rightarrow>
     nat \<Rightarrow> int \<Rightarrow> int list \<Rightarrow> trieKey list \<Rightarrow> 'c1 + 'c2 \<Rightarrow> bool" where
  "sum_filled left L R i b offs ks kv = (case kv of Inl c \<Rightarrow> left i \<and> L i b offs ks c | Inr c \<Rightarrow> \<not> left i \<and> R i b offs ks c)"

definition sum_writes ::
  "(nat \<Rightarrow> trieKey list \<Rightarrow> trieKey list \<Rightarrow> 'c1 \<Rightarrow> 'c1 \<Rightarrow> bool) \<Rightarrow> (nat \<Rightarrow> trieKey list \<Rightarrow> trieKey list \<Rightarrow> 'c2 \<Rightarrow> 'c2 \<Rightarrow> bool) \<Rightarrow>
     nat \<Rightarrow> trieKey list \<Rightarrow> trieKey list \<Rightarrow> 'c1 + 'c2 \<Rightarrow> 'c1 + 'c2 \<Rightarrow> bool" where
  "sum_writes L R i ks ms kv kv' = (case (kv, kv') of (Inl c, Inl c') \<Rightarrow> L i ks ms c c' | (Inr c, Inr c') \<Rightarrow> R i ks ms c c' | _ \<Rightarrow> False)"

lemmas sum_defs = sum_ok_def sum_covers_def sum_filled_def sum_writes_def

lemma as_simps [simp]: "as_left (Inl a) = Some a" "as_left (Inr b) = None" "as_right (Inr b) = Some b" "as_right (Inl a) = None"
  by (simp_all add: as_left_def as_right_def)

lemma sum_sel [simp]:
  "co_Offset (sum_ops L R) (Inl c) = co_Offset L c" "co_Offset (sum_ops L R) (Inr e) = co_Offset R e"
  "co_Restore (sum_ops L R) (Inl c) = side_Restore L as_left Inl c" "co_Restore (sum_ops L R) (Inr e) = side_Restore R as_right Inr e"
  "co_Free (sum_ops L R) (Inl c) = Inl (co_Free L c)" "co_Free (sum_ops L R) (Inr e) = Inr (co_Free R e)"
  "co_Snapshot (sum_ops L R) (Inl c) t = map_option (snap_map Inl) (co_Snapshot L c t)"
  "co_Snapshot (sum_ops L R) (Inr e) t = map_option (snap_map Inr) (co_Snapshot R e t)"
  "co_Split (sum_ops L R) (Inl c) = side_Split L as_left Inl c" "co_Split (sum_ops L R) (Inr e) = side_Split R as_right Inr e"
  "co_Merge (sum_ops L R) (Inl c) = side_Merge L as_left Inl c" "co_Merge (sum_ops L R) (Inr e) = side_Merge R as_right Inr e"
  "co_PrepareSnapshots (sum_ops L R) (Inl c) os = map_option Inl (co_PrepareSnapshots L c os)"
  "co_PrepareSnapshots (sum_ops L R) (Inr e) os = map_option Inr (co_PrepareSnapshots R e os)"
  "co_TakeSnapshots (sum_ops L R) (Inl c) = map_prod Inl (map (map_option (snap_map Inl))) (co_TakeSnapshots L c)"
  "co_TakeSnapshots (sum_ops L R) (Inr e) = map_prod Inr (map (map_option (snap_map Inr))) (co_TakeSnapshots R e)"
  by (simp_all add: sum_ops_def)

section \<open>What one side does\<close>

lemma side_Restore_cases:
  assumes "side_Restore ops f emb c s t = (kv', b)"
  obtains (fails) "kv' = emb c" "\<not> b"
    | (runs) s' c' where "assert_type f s = Some s'" "co_Restore ops c s' t = (c', b)" "kv' = emb c'"
  using assms by (cases "assert_type f s") (auto simp: side_Restore_def apfst_def map_prod_def split: prod.splits)

lemma assert_type_cases:
  assumes "assert_type f s = Some s'"
  obtains (nil) "s = None" "s' = None" | (snap) x d y where "s = Some x" "f (ss_data x) = Some d" "s' = Some y" "ss_data y = d"
  using assms by (auto simp: assert_type_def split: option.splits)

lemma side_Split_Some:
  assumes "side_Split ops f emb c s at = (pp, qq)" "pp \<noteq> None \<or> qq \<noteq> None"
  obtains s' p' q' where "f (ss_data s) = Some (ss_data s')" "co_Split ops c s' at = (p', q')"
    "pp = map_option (snap_map emb) p'" "qq = map_option (snap_map emb) q'"
proof -
  obtain d where d: "f (ss_data s) = Some d" using assms by (cases "f (ss_data s)") (auto simp: side_Split_def)
  obtain p' q' where "co_Split ops c (snap_map (\<lambda>_. d) s) at = (p', q')" by fastforce
  then show ?thesis using assms(1) d by (intro that [of "snap_map (\<lambda>_. d) s" p' q']) (simp_all add: side_Split_def)
qed

lemma side_Merge_Some:
  assumes "side_Merge ops f emb c pp qq = Some s"
  obtains p' q' s' where "assert_type f pp = Some p'" "assert_type f qq = Some q'" "pp \<noteq> None \<or> qq \<noteq> None"
    "co_Merge ops c p' q' = Some s'" "ss_data s = emb (ss_data s')"
  using assms by (auto simp: side_Merge_def split: if_splits option.splits)

lemma layer_at_map_option: "layer_at (map (map_option g) ss) j = map_option g (layer_at ss j)"
  by (simp add: layer_at_def)

context live_cache
begin

lemma side_Restore_ok:
  assumes "side_Restore ops f emb c s t = (kv', b)" "ok c" "b \<longrightarrow> 0 \<le> t"
  obtains c' where "kv' = emb c'" "ok c'" "co_Offset ops c' = (if b then t else co_Offset ops c)"
  using assms(1)
proof (cases rule: side_Restore_cases)
  case fails
  then show ?thesis using assms(2) by (intro that) simp_all
next
  case (runs s' c')
  then show ?thesis using assms(2,3) restore_True [of c t s' c'] restore_False [of c s' t c'] by (cases b) (auto intro: that)
qed

end

context faithful_cache
begin

lemma side_restore_live:
  assumes "side_Restore ops f emb c None t = (kv', True)" "filled i 0 [] ks c" "0 \<le> t"
  obtains c' where "kv' = emb c'" "filled i 0 [] (take (nat t) ks) c'"
  using assms(1)
proof (cases rule: side_Restore_cases)
  case (runs s' c')
  then show ?thesis using assms(2,3) restore_live [of i ks c t c'] by (intro that) (simp_all add: assert_type_def)
qed simp

lemma side_restore_snap:
  assumes "side_Restore ops f emb c (Some s) (int n) = (kv', True)" "filled i 0 [] (take j ks) c" "j < n" "n \<le> length ks"
    and "\<And>d. f (ss_data s) = Some d \<Longrightarrow> covers i k ks d"
  obtains c' where "kv' = emb c'" "filled i 0 [] (take n ks) c'"
  using assms(1)
proof (cases rule: side_Restore_cases)
  case (runs s' c')
  from runs(1) obtain y where y: "s' = Some y" "covers i k ks (ss_data y)"
    by (cases rule: assert_type_cases) (use assms(5) in auto)
  then show ?thesis using runs restore_snap [OF assms(2) y(2) assms(3,4)] by (intro that) simp_all
qed simp

lemma side_restore_fails:
  assumes "side_Restore ops f emb c s t = (kv', False)" "filled i 0 [] ks c"
  obtains c' where "kv' = emb c'" "filled i 0 [] ks c'"
  using assms(1)
proof (cases rule: side_Restore_cases)
  case fails
  then show ?thesis using assms(2) by (intro that) simp_all
next
  case (runs s' c')
  then show ?thesis using restore_fails [OF assms(2)] by (intro that) simp_all
qed

end

context slot_laws
begin

lemma side_split_parent:
  assumes "side_Split ops f emb c s (int a) = (Some p, qq)" "\<And>d. f (ss_data s) = Some d \<Longrightarrow> covers i k ks d" "k < a" "a < length ks"
  shows "f (ss_data s) \<noteq> None \<and> (\<exists>d. ss_data p = emb d \<and> covers i k (take a ks) d)"
proof -
  obtain s' p' q' where x: "f (ss_data s) = Some (ss_data s')" "co_Split ops c s' (int a) = (p', q')" "Some p = map_option (snap_map emb) p'"
    by (rule side_Split_Some [OF assms(1)]) simp
  from x(3) obtain y where y: "p' = Some y" "p = snap_map emb y" by (cases p') simp_all
  show ?thesis using split_parent [OF assms(2) [OF x(1)] assms(3,4)] x(1,2) y by auto
qed

lemma side_split_child:
  assumes "side_Split ops f emb c s (int a) = (pp, Some q)" "\<And>d. f (ss_data s) = Some d \<Longrightarrow> covers i k ks d" "k \<le> a" "a < length ks"
  shows "f (ss_data s) \<noteq> None \<and> (\<exists>d. ss_data q = emb d \<and> covers i a ks d)"
proof -
  obtain s' p' q' where x: "f (ss_data s) = Some (ss_data s')" "co_Split ops c s' (int a) = (p', q')" "Some q = map_option (snap_map emb) q'"
    by (rule side_Split_Some [OF assms(1)]) simp
  from x(3) obtain y where y: "q' = Some y" "q = snap_map emb y" by (cases q') simp_all
  show ?thesis using split_child [OF assms(2) [OF x(1)] assms(3,4)] x(1,2) y by auto
qed

lemma side_merge_covers:
  assumes "side_Merge ops f emb c pp qq = Some s" "k \<le> m" "m < length ks"
    and p: "\<And>p d. pp = Some p \<Longrightarrow> f (ss_data p) = Some d \<Longrightarrow> covers i k (take m ks) d"
    and q: "\<And>q d. qq = Some q \<Longrightarrow> f (ss_data q) = Some d \<Longrightarrow> covers i m ks d"
  shows "(\<exists>x. (pp = Some x \<or> qq = Some x) \<and> f (ss_data x) \<noteq> None) \<and> (\<exists>d. ss_data s = emb d \<and> covers i k ks d)"
proof -
  obtain p' q' s' where x: "assert_type f pp = Some p'" "assert_type f qq = Some q'" "pp \<noteq> None \<or> qq \<noteq> None"
    "co_Merge ops c p' q' = Some s'" "ss_data s = emb (ss_data s')"
    by (rule side_Merge_Some [OF assms(1)])
  have "covers i k (take m ks) (ss_data y)" if "p' = Some y" for y
    using x(1) by (cases rule: assert_type_cases) (use that p in auto)
  moreover have "covers i m ks (ss_data y)" if "q' = Some y" for y
    using x(2) by (cases rule: assert_type_cases) (use that q in auto)
  ultimately have "covers i k ks (ss_data s')" by (rule merge_covers [OF _ _ assms(2,3) x(4)])
  moreover have "\<exists>x. (pp = Some x \<or> qq = Some x) \<and> f (ss_data x) \<noteq> None"
    using x(1-3) by (auto simp: assert_type_def split: option.splits)
  ultimately show ?thesis using x(5) by blast
qed

end

section \<open>The contract\<close>

lemma as_left_eq: "as_left x = Some a \<longleftrightarrow> x = Inl a"
  by (simp add: as_left_def split: sum.split)

lemma as_right_eq: "as_right x = Some b \<longleftrightarrow> x = Inr b"
  by (simp add: as_right_def split: sum.split)

locale two_kinds = L: faithful_cache opsL okL coversL filledL writesL + R: faithful_cache opsR okR coversR filledR writesR
  for opsL :: "('c1, 'd1) cache_ops" and okL and coversL and filledL and writesL
    and opsR :: "('c2, 'd2) cache_ops" and okR and coversR and filledR and writesR +
  fixes left :: "nat \<Rightarrow> bool"
begin

lemma sum_restore_ok:
  assumes "sum_ok okL okR kv" "b \<longrightarrow> 0 \<le> t" "co_Restore (sum_ops opsL opsR) kv s t = (kv', b)"
  shows "sum_ok okL okR kv' \<and> co_Offset (sum_ops opsL opsR) kv' = (if b then t else co_Offset (sum_ops opsL opsR) kv)"
proof (cases kv)
  case (Inl c)
  have "side_Restore opsL as_left Inl c s t = (kv', b)" "okL c" using Inl assms by (simp_all add: sum_ok_def)
  then obtain c' where "kv' = Inl c'" "okL c'" "co_Offset opsL c' = (if b then t else co_Offset opsL c)"
    using assms(2) by (rule L.side_Restore_ok)
  then show ?thesis using Inl by (simp add: sum_ok_def)
next
  case (Inr c)
  have "side_Restore opsR as_right Inr c s t = (kv', b)" "okR c" using Inr assms by (simp_all add: sum_ok_def)
  then obtain c' where "kv' = Inr c'" "okR c'" "co_Offset opsR c' = (if b then t else co_Offset opsR c)"
    using assms(2) by (rule R.side_Restore_ok)
  then show ?thesis using Inr by (simp add: sum_ok_def)
qed

lemma sum_live: "live_cache (sum_ops opsL opsR) (sum_ok okL okR)"
proof
  fix kv kv' :: "'c1 + 'c2" and s t
  assume ok: "sum_ok okL okR kv"
  show "0 \<le> co_Offset (sum_ops opsL opsR) kv"
    using ok L.offset_nonneg R.offset_nonneg by (cases kv) (simp_all add: sum_ok_def)
  show "sum_ok okL okR kv' \<and> co_Offset (sum_ops opsL opsR) kv' = t"
    if "0 \<le> t" "co_Restore (sum_ops opsL opsR) kv s t = (kv', True)"
    using sum_restore_ok [OF ok _ that(2)] that(1) by simp
  show "sum_ok okL okR kv' \<and> co_Offset (sum_ops opsL opsR) kv' = co_Offset (sum_ops opsL opsR) kv"
    if "co_Restore (sum_ops opsL opsR) kv s t = (kv', False)"
    using sum_restore_ok [OF ok _ that] by simp
  show "sum_ok okL okR (co_Free (sum_ops opsL opsR) kv) \<and> co_Offset (sum_ops opsL opsR) (co_Free (sum_ops opsL opsR) kv) = 0"
    using ok L.free_ok R.free_ok by (cases kv) (simp_all add: sum_ok_def)
  show "sum_ok okL okR kv' \<and> co_Offset (sum_ops opsL opsR) kv' = co_Offset (sum_ops opsL opsR) kv"
    if "co_PrepareSnapshots (sum_ops opsL opsR) kv offs = Some kv'" for offs
    using that ok L.prepare_ok R.prepare_ok by (cases kv) (auto simp: sum_ok_def)
  show "sum_ok okL okR (fst (co_TakeSnapshots (sum_ops opsL opsR) kv)) \<and>
      co_Offset (sum_ops opsL opsR) (fst (co_TakeSnapshots (sum_ops opsL opsR) kv)) = co_Offset (sum_ops opsL opsR) kv"
    using ok L.take_ok R.take_ok by (cases kv) (simp_all add: sum_ok_def)
qed

lemma sum_slots: "slot_laws (sum_ops opsL opsR) (sum_covers left coversL coversR)"
proof
  fix i k a and ks :: "trieKey list" and s p q :: "('d1 + 'd2) snapshot" and kv :: "'c1 + 'c2" and pp
  assume c: "sum_covers left coversL coversR i k ks (ss_data s)" and a: "a < length ks"
  have cl: "left i \<and> coversL i k ks d" if "as_left (ss_data s) = Some d" for d using c that by (auto simp: as_left_eq sum_covers_def)
  have cr: "\<not> left i \<and> coversR i k ks d" if "as_right (ss_data s) = Some d" for d using c that by (auto simp: as_right_eq sum_covers_def)
  show "sum_covers left coversL coversR i k (take a ks) (ss_data p)"
    if k: "k < a" and e: "co_Split (sum_ops opsL opsR) kv s (int a) = (Some p, pp)"
  proof (cases kv)
    case (Inl x)
    then have "side_Split opsL as_left Inl x s (int a) = (Some p, pp)" using e by simp
    from L.side_split_parent [OF this conjunct2 [OF cl] k a] cl show ?thesis by (auto simp: sum_covers_def)
  next
    case (Inr x)
    then have "side_Split opsR as_right Inr x s (int a) = (Some p, pp)" using e by simp
    from R.side_split_parent [OF this conjunct2 [OF cr] k a] cr show ?thesis by (auto simp: sum_covers_def)
  qed
  show "sum_covers left coversL coversR i a ks (ss_data q)"
    if k: "k \<le> a" and e: "co_Split (sum_ops opsL opsR) kv s (int a) = (pp, Some q)"
  proof (cases kv)
    case (Inl x)
    then have "side_Split opsL as_left Inl x s (int a) = (pp, Some q)" using e by simp
    from L.side_split_child [OF this conjunct2 [OF cl] k a] cl show ?thesis by (auto simp: sum_covers_def)
  next
    case (Inr x)
    then have "side_Split opsR as_right Inr x s (int a) = (pp, Some q)" using e by simp
    from R.side_split_child [OF this conjunct2 [OF cr] k a] cr show ?thesis by (auto simp: sum_covers_def)
  qed
next
  fix i k m and ks :: "trieKey list" and pp qq :: "('d1 + 'd2) snapshot option" and kv :: "'c1 + 'c2" and s
  assume c: "\<And>p. pp = Some p \<Longrightarrow> sum_covers left coversL coversR i k (take m ks) (ss_data p)"
    "\<And>q. qq = Some q \<Longrightarrow> sum_covers left coversL coversR i m ks (ss_data q)"
    and m: "k \<le> m" "m < length ks" "co_Merge (sum_ops opsL opsR) kv pp qq = Some s"
  show "sum_covers left coversL coversR i k ks (ss_data s)"
  proof (cases kv)
    case (Inl e)
    then have e: "side_Merge opsL as_left Inl e pp qq = Some s" using m(3) by simp
    have p: "left i \<and> coversL i k (take m ks) d" if "pp = Some x" "as_left (ss_data x) = Some d" for x d
      using c(1) [OF that(1)] that(2) by (simp add: as_left_eq sum_covers_def)
    have q: "left i \<and> coversL i m ks d" if "qq = Some x" "as_left (ss_data x) = Some d" for x d
      using c(2) [OF that(1)] that(2) by (simp add: as_left_eq sum_covers_def)
    have "(\<exists>x. (pp = Some x \<or> qq = Some x) \<and> as_left (ss_data x) \<noteq> None) \<and> (\<exists>d. ss_data s = Inl d \<and> coversL i k ks d)"
      by (rule L.side_merge_covers [OF e m(1,2)]) (use p q in blast)+
    then show ?thesis using p q by (auto simp: sum_covers_def)
  next
    case (Inr e)
    then have e: "side_Merge opsR as_right Inr e pp qq = Some s" using m(3) by simp
    have p: "\<not> left i \<and> coversR i k (take m ks) d" if "pp = Some x" "as_right (ss_data x) = Some d" for x d
      using c(1) [OF that(1)] that(2) by (simp add: as_right_eq sum_covers_def)
    have q: "\<not> left i \<and> coversR i m ks d" if "qq = Some x" "as_right (ss_data x) = Some d" for x d
      using c(2) [OF that(1)] that(2) by (simp add: as_right_eq sum_covers_def)
    have "(\<exists>x. (pp = Some x \<or> qq = Some x) \<and> as_right (ss_data x) \<noteq> None) \<and> (\<exists>d. ss_data s = Inr d \<and> coversR i k ks d)"
      by (rule R.side_merge_covers [OF e m(1,2)]) (use p q in blast)+
    then show ?thesis using p q by (auto simp: sum_covers_def)
  qed
qed

end

sublocale two_kinds \<subseteq> both: faithful_cache "sum_ops opsL opsR" "sum_ok okL okR" "sum_covers left coversL coversR"
    "sum_filled left filledL filledR" "sum_writes writesL writesR"
proof (intro faithful_cache.intro faithful_cache_axioms.intro sum_live sum_slots)
  fix i b offs and ks ms :: "trieKey list" and kv kv' :: "'c1 + 'c2" and j and s :: "('d1 + 'd2) snapshot"
  assume f: "sum_filled left filledL filledR i b offs ks kv"
  show "sum_ok okL okR kv \<and> co_Offset (sum_ops opsL opsR) kv = int (length ks)"
    using f L.filled_ok R.filled_ok by (cases kv) (auto simp: sum_defs)
  show "sum_filled left filledL filledR i 0 [] [] (co_Free (sum_ops opsL opsR) kv)"
    using f L.free_filled R.free_filled by (cases kv) (auto simp: sum_defs)
  show "sum_filled left filledL filledR i b offs (ks @ ms) kv'" if "sum_writes writesL writesR i ks ms kv kv'"
    using f that L.write_filled R.write_filled by (cases kv; cases kv') (auto simp: sum_defs)
  show "sum_filled left filledL filledR i 0 [] ks (fst (co_TakeSnapshots (sum_ops opsL opsR) kv))"
    using f L.take_filled R.take_filled by (cases kv) (auto simp: sum_defs)
  show "j < length offs \<and> offs ! j \<le> int (length ks) \<and>
      sum_covers left coversL coversR i (nat (bound b offs j)) (take (nat (offs ! j)) ks) (ss_data s)"
    if t: "layer_at (snd (co_TakeSnapshots (sum_ops opsL opsR) kv)) j = Some s"
  proof (cases kv)
    case (Inl c)
    then obtain y where "layer_at (snd (co_TakeSnapshots opsL c)) j = Some y" "s = snap_map Inl y" using t by (auto simp: layer_at_map_option)
    then show ?thesis using L.take_covers [of i b offs ks c j y] f Inl by (simp add: sum_defs)
  next
    case (Inr c)
    then obtain y where "layer_at (snd (co_TakeSnapshots opsR c)) j = Some y" "s = snap_map Inr y" using t by (auto simp: layer_at_map_option)
    then show ?thesis using R.take_covers [of i b offs ks c j y] f Inr by (simp add: sum_defs)
  qed
next
  fix i b b' and ks :: "trieKey list" and kv :: "'c1 + 'c2"
  show "sum_filled left filledL filledR i b' [] ks kv" if "sum_filled left filledL filledR i b [] ks kv"
    using that L.filled_idle [of i b ks _ b'] R.filled_idle [of i b ks _ b'] by (cases kv) (auto simp: sum_defs)
next
  fix i and ks :: "trieKey list" and kv kv' :: "'c1 + 'c2" and t :: int and offs and k :: nat and s :: "('d1 + 'd2) snapshot"
    and ss :: "('d1 + 'd2) snapshot option"
  assume f: "sum_filled left filledL filledR i 0 [] ks kv"
  show "sum_filled left filledL filledR i 0 [] (take (nat t) ks) kv'"
    if "0 \<le> t" "co_Restore (sum_ops opsL opsR) kv None t = (kv', True)"
  proof (cases kv)
    case (Inl c)
    then have "side_Restore opsL as_left Inl c (None :: ('d1 + 'd2) snapshot option) t = (kv', True)" "filledL i 0 [] ks c" "left i"
      using f that(2) by (simp_all add: sum_defs)
    then show ?thesis using that(1) by (auto elim: L.side_restore_live simp: sum_defs)
  next
    case (Inr c)
    then have "side_Restore opsR as_right Inr c (None :: ('d1 + 'd2) snapshot option) t = (kv', True)" "filledR i 0 [] ks c" "\<not> left i"
      using f that(2) by (simp_all add: sum_defs)
    then show ?thesis using that(1) by (auto elim: R.side_restore_live simp: sum_defs)
  qed
  show "sum_filled left filledL filledR i 0 [] ks kv'" if "co_Restore (sum_ops opsL opsR) kv ss t = (kv', False)"
  proof (cases kv)
    case (Inl c)
    then have "side_Restore opsL as_left Inl c ss t = (kv', False)" "filledL i 0 [] ks c" "left i"
      using f that by (simp_all add: sum_defs)
    then show ?thesis by (auto elim: L.side_restore_fails simp: sum_defs)
  next
    case (Inr c)
    then have "side_Restore opsR as_right Inr c ss t = (kv', False)" "filledR i 0 [] ks c" "\<not> left i"
      using f that by (simp_all add: sum_defs)
    then show ?thesis by (auto elim: R.side_restore_fails simp: sum_defs)
  qed
  show "sum_covers left coversL coversR i k ks (ss_data s)"
    if "k < length ks" "co_Snapshot (sum_ops opsL opsR) kv (int k) = Some s"
    using f that L.snapshot_covers [of i ks _ k] R.snapshot_covers [of i ks _ k] by (cases kv) (auto simp: sum_defs)
  show "sum_filled left filledL filledR i (int (length ks)) offs ks kv'"
    if "offs \<noteq> []" "co_PrepareSnapshots (sum_ops opsL opsR) kv offs = Some kv'"
    using f that L.prepare_filled [of i ks _ offs] R.prepare_filled [of i ks _ offs] by (cases kv) (auto simp: sum_defs)
next
  fix i and ks :: "trieKey list" and kv kv' :: "'c1 + 'c2" and j k n and s :: "('d1 + 'd2) snapshot"
  assume f: "sum_filled left filledL filledR i 0 [] (take j ks) kv" and c: "sum_covers left coversL coversR i k ks (ss_data s)"
    and n: "j < n" "n \<le> length ks" and r: "co_Restore (sum_ops opsL opsR) kv (Some s) (int n) = (kv', True)"
  show "sum_filled left filledL filledR i 0 [] (take n ks) kv'"
  proof (cases kv)
    case (Inl x)
    then have x: "side_Restore opsL as_left Inl x (Some s) (int n) = (kv', True)" "filledL i 0 [] (take j ks) x" "left i"
      using f r by (simp_all add: sum_defs)
    have "coversL i k ks d" if "as_left (ss_data s) = Some d" for d using c that by (simp add: as_left_eq sum_covers_def)
    then show ?thesis by (rule L.side_restore_snap [OF x(1,2) n]) (use x(3) in \<open>simp_all add: sum_defs\<close>)
  next
    case (Inr x)
    then have x: "side_Restore opsR as_right Inr x (Some s) (int n) = (kv', True)" "filledR i 0 [] (take j ks) x" "\<not> left i"
      using f r by (simp_all add: sum_defs)
    have "coversR i k ks d" if "as_right (ss_data s) = Some d" for d using c that by (simp add: as_right_eq sum_covers_def)
    then show ?thesis by (rule R.side_restore_snap [OF x(1,2) n]) (use x(3) in \<open>simp_all add: sum_defs\<close>)
  qed
qed

text \<open>Two kinds that can always be rewound.\<close>

locale two_rewinding = L: rewinding_cache opsL okL coversL filledL writesL + R: rewinding_cache opsR okR coversR filledR writesR
  for opsL :: "('c1, 'd1) cache_ops" and okL and coversL and filledL and writesL
    and opsR :: "('c2, 'd2) cache_ops" and okR and coversR and filledR and writesR +
  fixes left :: "nat \<Rightarrow> bool"

sublocale two_rewinding \<subseteq> two_kinds opsL okL coversL filledL writesL opsR okR coversR filledR writesR left
  by unfold_locales

sublocale two_rewinding \<subseteq> both: rewinding_cache "sum_ops opsL opsR" "sum_ok okL okR" "sum_covers left coversL coversR"
    "sum_filled left filledL filledR" "sum_writes writesL writesR"
proof
  show "rewinds (sum_ops opsL opsR) (sum_filled left filledL filledR)"
    unfolding rewinds_def
  proof (intro allI impI)
    fix i and ks :: "trieKey list" and kv :: "'c1 + 'c2" and n
    assume f: "sum_filled left filledL filledR i 0 [] ks kv" "n \<le> length ks"
    show "snd (co_Restore (sum_ops opsL opsR) kv None (int n))"
      using f L.rewinding R.rewinding by (cases kv) (auto simp: sum_defs rewinds_def side_Restore_def assert_type_def apfst_def)
  qed
qed

end
