(* ===== verification/ReuseLayers.thy ===== *)
theory ReuseLayers
  imports ReuseSpec KVFaithful CacheSum
begin






section \<open>A request that shares a token with the one before\<close>









end
