(* ===== verification/KVInv.thy ===== *)
theory KVInv
  imports KVRows
begin

text \<open>
  The invariant of the key-value caches and their snapshots, the rows a snapshot denotes, and the lemmas on the parts the
  operations share: copying out, appending, capturing, making and closing a snapshot.
\<close>

section \<open>What a snapshot denotes\<close>

definition snap_rows :: "'r kvHeap \<Rightarrow> 'r kvSnapshot \<Rightarrow> 'r list" where
  "snap_rows h s = (case ks_keys s of
     Some rows \<Rightarrow> rows
   | None \<Rightarrow> (case ks_cache s of None \<Rightarrow> [] | Some c \<Rightarrow> slice (ks_fromOffset s) (ks_toOffset s) (kc_slots (kh_cache h c))))"

definition denote :: "'r kvHeap \<Rightarrow> nat \<Rightarrow> 'r kvData option" where
  "denote h a = map_option (\<lambda>s. \<lparr>kd_from = ks_fromOffset s, kd_rows = snap_rows h s\<rparr>) (kh_snap h a)"

definition the_data :: "'r kvHeap \<Rightarrow> nat \<Rightarrow> 'r kvData" where
  "the_data h a = the (denote h a)"

definition abs_layers :: "'r kvHeap \<Rightarrow> nat layers \<Rightarrow> 'r kvData layers" where
  "abs_layers h = map (map_option (\<lambda>s. kr_new (the_data h (ss_data s))))"

definition abs_sched :: "'r kvHeap \<Rightarrow> nat schedule \<Rightarrow> 'r kvData schedule" where
  "abs_sched h p = \<lparr>pn_offsets = pn_offsets p, pn_captured = map_option (abs_layers h) (pn_captured p), pn_base = pn_base p\<rparr>"

definition abs_cache :: "'r kvHeap \<Rightarrow> nat \<Rightarrow> 'r kvRows" where
  "abs_cache h c = \<lparr>kr_rows = kv_State (kh_cache h c), kr_snapshots = abs_sched h (kc_snapshots (kh_cache h c))\<rparr>"

section \<open>The invariant\<close>

definition live :: "'r kvHeap \<Rightarrow> nat \<Rightarrow> bool" where
  "live h a \<longleftrightarrow> kh_snap h a \<noteq> None"

definition captures :: "nat schedule \<Rightarrow> nat set" where
  "captures p = {ss_data s | s ss. pn_captured p = Some ss \<and> Some s \<in> set ss}"

definition sched_good :: "'r kvHeap \<Rightarrow> nat schedule \<Rightarrow> bool" where
  "sched_good h p \<longleftrightarrow> 0 \<le> pn_base p \<and> (\<forall>a \<in> captures p. live h a) \<and>
     (case pn_captured p of None \<Rightarrow> True | Some ss \<Rightarrow> length ss = length (pn_offsets p))"

definition cache_good :: "'r kvHeap \<Rightarrow> nat \<Rightarrow> bool" where
  "cache_good h c \<longleftrightarrow> (let kc = kh_cache h c in
     0 < kc_step kc \<and> 0 \<le> kc_offset kc \<and> kc_offset kc \<le> int (length (kc_slots kc)) \<and> sched_good h (kc_snapshots kc) \<and>
     distinct (kc_lazySnapshots kc) \<and>
     (\<forall>a \<in> set (kc_lazySnapshots kc). \<exists>s. kh_snap h a = Some s \<and> ks_cache s = Some c \<and> ks_keys s = None))"

definition snap_good :: "'r kvHeap \<Rightarrow> nat \<Rightarrow> 'r kvSnapshot \<Rightarrow> bool" where
  "snap_good h a s \<longleftrightarrow> a < kh_next h \<and> 0 \<le> ks_fromOffset s \<and> ks_fromOffset s < ks_toOffset s \<and>
     (case ks_keys s of
        Some rows \<Rightarrow> ks_cache s = None \<and> int (length rows) = ks_toOffset s - ks_fromOffset s
      | None \<Rightarrow> (case ks_cache s of
          None \<Rightarrow> False
        | Some c \<Rightarrow> a \<in> set (kc_lazySnapshots (kh_cache h c)) \<and> ks_toOffset s \<le> int (length (kc_slots (kh_cache h c)))))"

text \<open>A snapshot waits to be taken in one cache at most.\<close>

definition caps_apart :: "'r kvHeap \<Rightarrow> bool" where
  "caps_apart h \<longleftrightarrow> (\<forall>c d a. a \<in> captures (kc_snapshots (kh_cache h c)) \<longrightarrow> a \<in> captures (kc_snapshots (kh_cache h d)) \<longrightarrow> c = d)"

definition kv_inv :: "'r kvHeap \<Rightarrow> bool" where
  "kv_inv h \<longleftrightarrow> (\<forall>c. cache_good h c) \<and> (\<forall>a s. kh_snap h a = Some s \<longrightarrow> snap_good h a s) \<and> caps_apart h"

text \<open>The snapshots a client has: those that are not waiting to be taken.\<close>

definition held :: "'r kvHeap \<Rightarrow> nat \<Rightarrow> bool" where
  "held h a \<longleftrightarrow> live h a \<and> (\<forall>c. a \<notin> captures (kc_snapshots (kh_cache h c)))"

text \<open>Two stores that differ only in the lists of lazy snapshots of their caches.\<close>

definition same_buffers :: "'r kvHeap \<Rightarrow> 'r kvHeap \<Rightarrow> bool" where
  "same_buffers h h' \<longleftrightarrow> (\<forall>c. kc_keys (kh_cache h' c) = kc_keys (kh_cache h c) \<and> kc_offset (kh_cache h' c) = kc_offset (kh_cache h c) \<and>
     kc_step (kh_cache h' c) = kc_step (kh_cache h c) \<and> kc_snapshots (kh_cache h' c) = kc_snapshots (kh_cache h c))"

lemma same_buffers_refl [simp]: "same_buffers h h"
  by (simp add: same_buffers_def)

lemma same_buffers_trans: "same_buffers h h' \<Longrightarrow> same_buffers h' h'' \<Longrightarrow> same_buffers h h''"
  by (simp add: same_buffers_def)

lemma same_buffers_slots: "same_buffers h h' \<Longrightarrow> kc_slots (kh_cache h' c) = kc_slots (kh_cache h c)"
  by (simp add: same_buffers_def kc_slots_def)

lemma same_buffers_State: "same_buffers h h' \<Longrightarrow> kv_State (kh_cache h' c) = kv_State (kh_cache h c)"
  by (simp add: kv_State_def same_buffers_slots) (simp add: same_buffers_def)

lemma same_buffers_apart: "same_buffers h h' \<Longrightarrow> kv_inv h \<Longrightarrow> caps_apart h'"
  by (simp add: caps_apart_def same_buffers_def kv_inv_def)

lemma same_buffers_rows: "same_buffers h h' \<Longrightarrow> snap_rows h' s = snap_rows h s"
  by (simp add: snap_rows_def same_buffers_slots split: option.split)

lemma live_denote: "live h a \<longleftrightarrow> denote h a \<noteq> None"
  by (simp add: live_def denote_def)

lemma abs_sched_cong:
  assumes "\<And>a. a \<in> captures p \<Longrightarrow> denote h' a = denote h a"
  shows "abs_sched h' p = abs_sched h p"
proof -
  have "abs_layers h' ss = abs_layers h ss" if "pn_captured p = Some ss" for ss
  proof -
    have "denote h' (ss_data z) = denote h (ss_data z)" if "Some z \<in> set ss" for z
      using that \<open>pn_captured p = Some ss\<close> by (intro assms) (auto simp: captures_def)
    then show ?thesis unfolding abs_layers_def by (intro map_cong refl option.map_cong) (auto simp: the_data_def)
  qed
  then show ?thesis by (cases "pn_captured p") (simp_all add: abs_sched_def)
qed

lemma abs_cache_cong:
  assumes "kv_State (kh_cache h' c) = kv_State (kh_cache h c)" "kc_snapshots (kh_cache h' c) = kc_snapshots (kh_cache h c)"
    and "\<And>a. a \<in> captures (kc_snapshots (kh_cache h c)) \<Longrightarrow> denote h' a = denote h a"
  shows "abs_cache h' c = abs_cache h c"
  using assms abs_sched_cong [of "kc_snapshots (kh_cache h c)" h' h] by (simp add: abs_cache_def)

lemma inv_cache: "kv_inv h \<Longrightarrow> cache_good h c"
  by (simp add: kv_inv_def)

lemma inv_snap: "kv_inv h \<Longrightarrow> kh_snap h a = Some s \<Longrightarrow> snap_good h a s"
  by (simp add: kv_inv_def)

lemma inv_captured: "kv_inv h \<Longrightarrow> a \<in> captures (kc_snapshots (kh_cache h c)) \<Longrightarrow> live h a"
  using inv_cache [of h c] by (simp add: cache_good_def sched_good_def Let_def)

lemma inv_fresh: "kv_inv h \<Longrightarrow> kh_snap h (kh_next h) = None"
  using inv_snap [of h "kh_next h"] by (cases "kh_snap h (kh_next h)") (auto simp: snap_good_def)

lemma inv_lazy:
  assumes "kv_inv h" "kh_snap h a = Some s" "ks_keys s = None"
  obtains c where "ks_cache s = Some c" "a \<in> set (kc_lazySnapshots (kh_cache h c))"
    "ks_toOffset s \<le> int (length (kc_slots (kh_cache h c)))"
  using inv_snap [OF assms(1,2)] assms(3) by (auto simp: snap_good_def split: option.splits)

lemma inv_lazies:
  assumes "kv_inv h" "a \<in> set (kc_lazySnapshots (kh_cache h c))"
  shows "\<exists>s. kh_snap h a = Some s \<and> ks_cache s = Some c \<and> ks_keys s = None"
  using inv_cache [OF assms(1), of c] assms(2) by (simp add: cache_good_def Let_def)

lemma inv_range: "kv_inv h \<Longrightarrow> kh_snap h a = Some s \<Longrightarrow> 0 \<le> ks_fromOffset s \<and> ks_fromOffset s < ks_toOffset s"
  using inv_snap by (auto simp: snap_good_def)

lemma denote_to:
  assumes "kv_inv h" "kh_snap h a = Some s" "denote h a = Some d"
  shows "kd_from d = ks_fromOffset s \<and> kd_to d = ks_toOffset s \<and> kd_rows d = snap_rows h s"
  using inv_snap [OF assms(1,2)] assms(2,3)
  by (auto simp: denote_def kd_to_def snap_rows_def snap_good_def split: option.splits)

lemma length_snap_rows: "kv_inv h \<Longrightarrow> kh_snap h a = Some s \<Longrightarrow> int (length (snap_rows h s)) = ks_toOffset s - ks_fromOffset s"
  using denote_to [of h a s "\<lparr>kd_from = ks_fromOffset s, kd_rows = snap_rows h s\<rparr>"] by (simp add: denote_def kd_to_def)

section \<open>Slices\<close>

lemma slice_cong:
  assumes "0 \<le> a" "\<And>j. nat a \<le> j \<Longrightarrow> j < nat b \<Longrightarrow> j < length xs \<Longrightarrow> j < length ys \<Longrightarrow> xs ! j = ys ! j"
    "b \<le> int (length xs)" "b \<le> int (length ys)"
  shows "slice a b xs = slice a b ys"
proof (cases "a \<le> b")
  case True
  have "length (slice a b xs) = length (slice a b ys)"
    using assms(1,3,4) True by (simp add: slice_def)
  moreover have "slice a b xs ! i = slice a b ys ! i" if "i < length (slice a b xs)" for i
  proof -
    have "nat a + i < nat b" "nat a + i < length xs" "nat a + i < length ys"
      using that assms(1,3,4) True unfolding slice_def by auto
    then show ?thesis using assms(2) [of "nat a + i"] assms(1) True by (auto simp: slice_def)
  qed
  ultimately show ?thesis by (simp add: list_eq_iff_nth_eq)
qed (simp add: slice_def)

lemma slice_slice_join: "0 \<le> a \<Longrightarrow> a \<le> b \<Longrightarrow> b \<le> c \<Longrightarrow> slice a b xs @ slice b c xs = slice a c xs"
proof -
  assume "0 \<le> a" "a \<le> b" "b \<le> c"
  then have n: "nat (c - a) = nat (b - a) + nat (c - b)" "nat b = nat (b - a) + nat a" by linarith+
  show ?thesis unfolding slice_def n(1) take_add n(2) by simp
qed

lemma take_slice: "nat n \<le> nat (b - a) \<Longrightarrow> take (nat n) (slice a b xs) = slice a (a + n) xs"
  by (auto simp: slice_def min_def)

lemma drop_slice: "0 \<le> a \<Longrightarrow> 0 \<le> n \<Longrightarrow> drop (nat n) (slice a b xs) = slice (a + n) b xs"
proof -
  assume "0 \<le> a" "0 \<le> n"
  then have "nat (b - a) - nat n = nat (b - (a + n))" "nat n + nat a = nat (a + n)" by linarith+
  then show ?thesis by (simp add: slice_def drop_take)
qed

lemma kv_State_take: "0 \<le> kc_offset kc \<Longrightarrow> kv_State kc = take (nat (kc_offset kc)) (kc_slots kc)"
  by (simp add: kv_State_def slice_def)

lemma length_kv_State: "cache_good h c \<Longrightarrow> int (length (kv_State (kh_cache h c))) = kc_offset (kh_cache h c)"
  by (auto simp: cache_good_def Let_def kv_State_take min_def)

section \<open>The store\<close>

lemma upd_simps [simp]:
  "kh_cache (upd_cache c f h) = (kh_cache h)(c := f (kh_cache h c))" "kh_snap (upd_cache c f h) = kh_snap h"
  "kh_next (upd_cache c f h) = kh_next h" "kh_cache (upd_snap a s h) = kh_cache h"
  "kh_snap (upd_snap a s h) = (kh_snap h)(a := s)" "kh_next (upd_snap a s h) = kh_next h"
  by (simp_all add: upd_cache_def upd_snap_def)

lemma kc_slots_lazy [simp]: "kc_slots (kc\<lparr>kc_lazySnapshots := ls\<rparr>) = kc_slots kc"
  by (simp add: kc_slots_def)

lemma kc_slots_more [simp]: "kc_slots (kc\<lparr>kc_offset := x\<rparr>) = kc_slots kc" "kc_slots (kc\<lparr>kc_snapshots := p\<rparr>) = kc_slots kc"
  "kc_slots (kc\<lparr>kc_keys := Some rows\<rparr>) = rows" "kc_slots (kc\<lparr>kc_keys := None\<rparr>) = []"
  by (simp_all add: kc_slots_def)

text \<open>The operations that change the store but not what it denotes.\<close>

definition kv_sim :: "'r kvHeap \<Rightarrow> 'r kvHeap \<Rightarrow> bool" where
  "kv_sim h h' \<longleftrightarrow> kv_inv h' \<and> same_buffers h h' \<and> denote h' = denote h"

lemma kv_sim_refl: "kv_inv h \<Longrightarrow> kv_sim h h"
  by (simp add: kv_sim_def)

lemma kv_sim_trans: "kv_sim h h' \<Longrightarrow> kv_sim h' h'' \<Longrightarrow> kv_sim h h''"
  by (auto simp: kv_sim_def intro: same_buffers_trans)

lemma kv_sim_abs: "kv_sim h h' \<Longrightarrow> abs_cache h' c = abs_cache h c"
  by (rule abs_cache_cong) (auto simp: kv_sim_def same_buffers_State same_buffers_def)

lemma sched_good_cong: "sched_good h p \<Longrightarrow> (\<And>a. a \<in> captures p \<Longrightarrow> live h a \<Longrightarrow> live h' a) \<Longrightarrow> sched_good h' p"
  by (auto simp: sched_good_def)

section \<open>Copying out\<close>

lemma denote_iff: "denote h a = Some d \<longleftrightarrow> (\<exists>s. kh_snap h a = Some s \<and> d = \<lparr>kd_from = ks_fromOffset s, kd_rows = snap_rows h s\<rparr>)"
  by (auto simp: denote_def)

lemma copyOut_sim:
  assumes inv: "kv_inv h" and s: "kh_snap h a = Some s"
  shows "kv_sim h (copyOut nb a h) \<and> kh_next (copyOut nb a h) = kh_next h \<and>
    (\<exists>s'. kh_snap (copyOut nb a h) a = Some s' \<and> ks_keys s' = Some (snap_rows h s) \<and> ks_cache s' = None \<and>
      ks_fromOffset s' = ks_fromOffset s \<and> ks_toOffset s' = ks_toOffset s) \<and>
    (\<forall>b. b \<noteq> a \<longrightarrow> kh_snap (copyOut nb a h) b = kh_snap h b) \<and>
    (\<forall>c. set (kc_lazySnapshots (kh_cache (copyOut nb a h) c)) = set (kc_lazySnapshots (kh_cache h c)) - {a})"
proof (cases "ks_keys s")
  case (Some rows)
  then have c: "ks_cache s = None" using inv_snap [OF inv s] by (auto simp: snap_good_def)
  have "a \<notin> set (kc_lazySnapshots (kh_cache h c))" for c
    using inv_cache [OF inv, of c] s Some by (auto simp: cache_good_def Let_def)
  then show ?thesis using s Some c inv by (simp add: copyOut_def kv_sim_refl snap_rows_def)
next
  case None
  obtain c where c: "ks_cache s = Some c" "a \<in> set (kc_lazySnapshots (kh_cache h c))"
    "ks_toOffset s \<le> int (length (kc_slots (kh_cache h c)))"
    by (rule inv_lazy [OF inv s None])
  define rows where "rows = slice (ks_fromOffset s) (ks_toOffset s) (kc_slots (kh_cache h c))"
  define s' where "s' = s\<lparr>ks_keys := Some rows, ks_cache := None, ks_onMaterialize := False\<rparr>"
  define h' where "h' = copyOut nb a h"
  have h': "kh_cache h' = (kh_cache h)(c := (kh_cache h c)\<lparr>kc_lazySnapshots := remove1 a (kc_lazySnapshots (kh_cache h c))\<rparr>)"
    "kh_snap h' = (kh_snap h)(a \<mapsto> s')" "kh_next h' = kh_next h"
    using s None c(1) by (simp_all add: h'_def copyOut_def dropLazySnapshot_def Let_def rows_def s'_def)
  have lz: "set (kc_lazySnapshots (kh_cache h' d)) = set (kc_lazySnapshots (kh_cache h d)) - {a}" for d
  proof (cases "d = c")
    case True
    have "distinct (kc_lazySnapshots (kh_cache h c))" using inv_cache [OF inv, of c] by (simp add: cache_good_def Let_def)
    then show ?thesis using True by (simp add: h')
  next
    case False
    have "a \<notin> set (kc_lazySnapshots (kh_cache h d))"
      using inv_cache [OF inv, of d] s c(1) False by (auto simp: cache_good_def Let_def)
    then show ?thesis using False by (simp add: h')
  qed
  have sb: "same_buffers h h'" by (simp add: same_buffers_def h')
  have rg: "0 \<le> ks_fromOffset s" "ks_fromOffset s < ks_toOffset s" "a < kh_next h"
    using inv_snap [OF inv s] by (auto simp: snap_good_def)
  have len: "int (length rows) = ks_toOffset s - ks_fromOffset s"
    using rg c(3) by (simp add: rows_def)
  have lv: "live h' b \<longleftrightarrow> live h b" for b using s by (simp add: live_def h')
  have "cache_good h' d" for d
  proof -
    have g: "cache_good h d" by (rule inv_cache [OF inv])
    have "distinct (kc_lazySnapshots (kh_cache h' d))" using g by (auto simp: h' cache_good_def Let_def)
    moreover have "\<exists>t. kh_snap h' b = Some t \<and> ks_cache t = Some d \<and> ks_keys t = None" if "b \<in> set (kc_lazySnapshots (kh_cache h' d))" for b
      using that g unfolding lz by (auto simp: h' cache_good_def Let_def)
    moreover have "sched_good h' (kc_snapshots (kh_cache h d))"
    proof (rule sched_good_cong)
      show "sched_good h (kc_snapshots (kh_cache h d))" using g by (simp add: cache_good_def Let_def)
    qed (simp add: lv)
    ultimately show ?thesis
      using g sb unfolding cache_good_def Let_def same_buffers_slots [OF sb] by (simp add: same_buffers_def)
  qed
  moreover have "snap_good h' b t" if "kh_snap h' b = Some t" for b t
  proof (cases "b = a")
    case True
    then show ?thesis using that rg len by (auto simp: h' s'_def snap_good_def)
  next
    case False
    then have "snap_good h b t" using that inv_snap [OF inv] by (simp add: h')
    then show ?thesis using False unfolding snap_good_def lz same_buffers_slots [OF sb] h'(3)
      by (auto split: option.splits)
  qed
  moreover have "denote h' = denote h"
  proof
    fix b
    show "denote h' b = denote h b"
    proof (cases "b = a")
      case True
      then show ?thesis using s None c(1) by (simp add: denote_def h'(2) snap_rows_def s'_def rows_def)
    next
      case False
      then show ?thesis by (simp add: denote_def h'(2) same_buffers_rows [OF sb])
    qed
  qed
  ultimately have "kv_sim h h'" using sb same_buffers_apart [OF sb inv] by (simp add: kv_sim_def kv_inv_def)
  moreover have "\<exists>s'. kh_snap h' a = Some s' \<and> ks_keys s' = Some (snap_rows h s) \<and> ks_cache s' = None \<and>
      ks_fromOffset s' = ks_fromOffset s \<and> ks_toOffset s' = ks_toOffset s"
    using None c(1) by (simp add: h' s'_def snap_rows_def rows_def)
  ultimately show ?thesis using lz h'(3) unfolding h'_def [symmetric] by (simp add: h'(2))
qed

end
