(* ===== verification/KVRefine.thy ===== *)
theory KVRefine
  imports KVInv
begin

text \<open>
  Each operation of the key-value cache against its promise \<open>KVRows\<close>: the invariant is kept, the cache becomes what the
  operation on rows makes of it, the results denote the promised snapshots, and nothing else changes what it denotes.
\<close>

section \<open>Copying out what a write would overwrite\<close>

definition clear_of :: "int \<Rightarrow> int \<Rightarrow> 'r kvHeap \<Rightarrow> nat \<Rightarrow> bool" where
  "clear_of lo hi h a \<longleftrightarrow>
     (\<forall>s. kh_snap h a = Some s \<longrightarrow> ks_keys s = None \<longrightarrow> \<not> (ks_fromOffset s < hi \<and> ks_toOffset s > lo))"

definition make_room :: "int \<Rightarrow> int \<Rightarrow> int \<Rightarrow> nat \<Rightarrow> 'r kvHeap \<Rightarrow> 'r kvHeap" where
  "make_room nb lo hi a h =
     (case kh_snap h a of
        Some s \<Rightarrow> (if ks_fromOffset s < hi \<and> ks_toOffset s > lo then copyOut nb a h else h)
      | None \<Rightarrow> h)"

lemma make_room_one:
  assumes "kv_inv h"
  shows "kv_sim h (make_room nb lo hi a h) \<and> kh_next (make_room nb lo hi a h) = kh_next h \<and> clear_of lo hi (make_room nb lo hi a h) a \<and>
    (\<forall>b. clear_of lo hi h b \<longrightarrow> clear_of lo hi (make_room nb lo hi a h) b) \<and>
    (\<forall>c. set (kc_lazySnapshots (kh_cache (make_room nb lo hi a h) c)) \<subseteq> set (kc_lazySnapshots (kh_cache h c)))"
proof (cases "\<exists>s. kh_snap h a = Some s \<and> ks_fromOffset s < hi \<and> ks_toOffset s > lo")
  case True
  then obtain s where s: "kh_snap h a = Some s" "make_room nb lo hi a h = copyOut nb a h" by (auto simp: make_room_def)
  have own: "clear_of lo hi (copyOut nb a h) a" using copyOut_sim [OF assms s(1), of nb] by (auto simp: clear_of_def)
  have "clear_of lo hi (copyOut nb a h) b" if "clear_of lo hi h b" for b
    using that own copyOut_sim [OF assms s(1), of nb] by (cases "b = a") (auto simp: clear_of_def)
  then show ?thesis using copyOut_sim [OF assms s(1), of nb] own unfolding s(2) by auto
next
  case False
  then show ?thesis using kv_sim_refl [OF assms] by (auto simp: make_room_def clear_of_def split: option.splits)
qed

lemma make_room_all:
  assumes "kv_inv h"
  shows "kv_sim h (fold (make_room nb lo hi) as h) \<and> kh_next (fold (make_room nb lo hi) as h) = kh_next h \<and>
    (\<forall>b. b \<in> set as \<or> clear_of lo hi h b \<longrightarrow> clear_of lo hi (fold (make_room nb lo hi) as h) b) \<and>
    (\<forall>c. set (kc_lazySnapshots (kh_cache (fold (make_room nb lo hi) as h) c)) \<subseteq> set (kc_lazySnapshots (kh_cache h c)))"
  using assms
proof (induction as arbitrary: h)
  case Nil
  then show ?case by (simp add: kv_sim_refl)
next
  case (Cons a as)
  note 1 = make_room_one [OF Cons.prems, of nb lo hi a]
  then have "kv_inv (make_room nb lo hi a h)" by (simp add: kv_sim_def)
  note 2 = Cons.IH [OF this]
  have "set (kc_lazySnapshots (kh_cache (fold (make_room nb lo hi) (a # as) h) c)) \<subseteq> set (kc_lazySnapshots (kh_cache h c))" for c
    using 1 2 by simp (meson subset_trans)
  moreover have "kv_sim h (fold (make_room nb lo hi) (a # as) h)" using 1 2 by (auto intro: kv_sim_trans)
  ultimately show ?case using 1 2 by auto
qed

section \<open>Appending\<close>

lemma steps_enough:
  assumes "0 < (s :: int)" "0 \<le> L"
  shows "L \<le> (s + L - 1) div s * s"
proof -
  have "s + L - 1 - (s + L - 1) div s * s = (s + L - 1) mod s" by (simp add: minus_div_mult_eq_mod)
  moreover have "(s + L - 1) mod s \<le> s - 1" using assms(1) pos_mod_bound [of s "s + L - 1"] by linarith
  ultimately show ?thesis by linarith
qed

lemma grow_facts:
  assumes "0 < kc_step kc" "0 \<le> kc_offset kc" "kc_offset kc \<le> int (length (kc_slots kc))" "0 \<le> L"
  shows "kc_offset (grow zero L kc) = kc_offset kc \<and> kc_step (grow zero L kc) = kc_step kc \<and>
    kc_snapshots (grow zero L kc) = kc_snapshots kc \<and> kc_lazySnapshots (grow zero L kc) = kc_lazySnapshots kc \<and>
    kc_offset kc + L \<le> int (length (kc_slots (grow zero L kc))) \<and>
    take (nat (kc_offset kc)) (kc_slots (grow zero L kc)) = take (nat (kc_offset kc)) (kc_slots kc) \<and>
    (kc_offset kc + L \<le> int (length (kc_slots kc)) \<longrightarrow> kc_slots (grow zero L kc) = kc_slots kc)"
proof -
  define n where "n = nat ((kc_step kc + L - 1) div kc_step kc * kc_step kc)"
  have n: "L \<le> int n" unfolding n_def using steps_enough [OF assms(1,4)] assms(4) by simp
  define keep where "keep = (if kc_offset kc mod kc_step kc \<noteq> 0 then slice 0 (kc_offset kc) (kc_slots kc) else kc_slots kc)"
  have keep: "take (nat (kc_offset kc)) keep = take (nat (kc_offset kc)) (kc_slots kc)" "kc_offset kc \<le> int (length keep)"
    using assms(2,3) by (auto simp: keep_def slice_def)
  show ?thesis
  proof (cases "kc_keys kc = None \<or> kc_offset kc + L > int (length (kc_slots kc))")
    case True
    then have g: "grow zero L kc = kc\<lparr>kc_keys := Some (keep @ replicate n zero)\<rparr>"
      using assms(2,3) by (auto simp: grow_def Let_def keep_def n_def kc_slots_def slice_def split: option.splits)
    have "keep = []" if "kc_offset kc + L \<le> int (length (kc_slots kc))"
      using True that by (simp add: keep_def kc_slots_def slice_def)
    moreover have "n = 0" if "kc_offset kc + L \<le> int (length (kc_slots kc))"
    proof -
      have "L = 0" using True that assms(2,4) by (simp add: kc_slots_def)
      then have "(kc_step kc + L - 1) div kc_step kc = 0" using assms(1) by (intro div_pos_pos_trivial) simp_all
      then show ?thesis by (simp add: n_def)
    qed
    ultimately have "kc_slots (grow zero L kc) = kc_slots kc" if "kc_offset kc + L \<le> int (length (kc_slots kc))"
      using True that by (auto simp: g kc_slots_def)
    then show ?thesis using keep n by (auto simp: g)
  next
    case False
    then have "grow zero L kc = kc" by (simp add: grow_def Let_def)
    then show ?thesis using False by simp
  qed
qed

lemma write_facts:
  assumes "0 \<le> kc_offset kc" "kc_offset kc + int (length rows) \<le> int (length (kc_slots kc))"
  shows "kc_offset (write_slots rows kc) = kc_offset kc + int (length rows) \<and> kc_step (write_slots rows kc) = kc_step kc \<and>
    kc_snapshots (write_slots rows kc) = kc_snapshots kc \<and> kc_lazySnapshots (write_slots rows kc) = kc_lazySnapshots kc \<and>
    length (kc_slots (write_slots rows kc)) = length (kc_slots kc) \<and> kc_keys (write_slots rows kc) \<noteq> None \<and>
    kv_State (write_slots rows kc) = take (nat (kc_offset kc)) (kc_slots kc) @ rows \<and>
    (\<forall>j < length (kc_slots kc). j < nat (kc_offset kc) \<or> nat (kc_offset kc) + length rows \<le> j \<longrightarrow>
       kc_slots (write_slots rows kc) ! j = kc_slots kc ! j)"
proof -
  define p where "p = nat (kc_offset kc)"
  have p: "kc_offset kc = int p" using assms(1) by (simp add: p_def)
  have le: "p + length rows \<le> length (kc_slots kc)" using assms(2) p by simp
  have w: "write_slots rows kc = kc\<lparr>kc_offset := int (p + length rows),
      kc_keys := Some (take p (kc_slots kc) @ rows @ drop (p + length rows) (kc_slots kc))\<rparr>"
    by (simp add: write_slots_def Let_def p nat_add_distrib)
  then have sl: "kc_slots (write_slots rows kc) = take p (kc_slots kc) @ rows @ drop (p + length rows) (kc_slots kc)"
    by (simp add: kc_slots_def)
  have "kv_State (write_slots rows kc) = take (p + length rows) (take p (kc_slots kc) @ rows @ drop (p + length rows) (kc_slots kc))"
  proof -
    have "kc_offset (write_slots rows kc) = int (p + length rows)" by (simp add: w)
    then show ?thesis by (simp add: kv_State_take sl del: of_nat_add take_append)
  qed
  also have "\<dots> = take p (kc_slots kc) @ rows" using le by simp
  finally have st: "kv_State (write_slots rows kc) = take p (kc_slots kc) @ rows" .
  have "length (kc_slots (write_slots rows kc)) = length (kc_slots kc)" using le by (simp add: sl)
  moreover have "kc_slots (write_slots rows kc) ! j = kc_slots kc ! j"
    if "j < length (kc_slots kc)" "j < p \<or> p + length rows \<le> j" for j
    using that le by (auto simp: sl nth_append)
  ultimately show ?thesis using st by (simp add: w p)
qed

text \<open>A write that leaves what the snapshots denote and the other caches alone.\<close>

definition write_sim :: "nat \<Rightarrow> 'r kvHeap \<Rightarrow> 'r kvHeap \<Rightarrow> bool" where
  "write_sim c h h' \<longleftrightarrow> kv_inv h' \<and> denote h' = denote h \<and>
     (\<forall>d. kc_snapshots (kh_cache h' d) = kc_snapshots (kh_cache h d) \<and>
        (d \<noteq> c \<longrightarrow> kv_State (kh_cache h' d) = kv_State (kh_cache h d)))"

lemma write_sim_abs: "write_sim c h h' \<Longrightarrow> d \<noteq> c \<Longrightarrow> abs_cache h' d = abs_cache h d"
  by (rule abs_cache_cong) (simp_all add: write_sim_def)

lemma write_sim_sched: "write_sim c h h' \<Longrightarrow> abs_sched h' p = abs_sched h p"
  by (rule abs_sched_cong) (simp add: write_sim_def)

lemma kv_sim_write: "kv_sim h h' \<Longrightarrow> write_sim c h h'"
  by (simp add: kv_sim_def write_sim_def same_buffers_State) (simp add: same_buffers_def)

lemma write_sim_trans: "write_sim c h h' \<Longrightarrow> write_sim c h' h'' \<Longrightarrow> write_sim c h h''"
  by (simp add: write_sim_def)

text \<open>A cache is replaced by one with the same schedule and lazy snapshots, whose ranges it has kept.\<close>

lemma upd_cache_sim:
  assumes inv: "kv_inv h"
    and kc: "0 < kc_step kc" "0 \<le> kc_offset kc" "kc_offset kc \<le> int (length (kc_slots kc))"
      "kc_snapshots kc = kc_snapshots (kh_cache h c)" "kc_lazySnapshots kc = kc_lazySnapshots (kh_cache h c)"
    and keep: "\<And>a s. kh_snap h a = Some s \<Longrightarrow> ks_keys s = None \<Longrightarrow> ks_cache s = Some c \<Longrightarrow>
      ks_toOffset s \<le> int (length (kc_slots kc)) \<and>
      slice (ks_fromOffset s) (ks_toOffset s) (kc_slots kc) = slice (ks_fromOffset s) (ks_toOffset s) (kc_slots (kh_cache h c))"
  shows "write_sim c h (upd_cache c (\<lambda>_. kc) h)"
proof -
  let ?h = "upd_cache c (\<lambda>_. kc) h"
  have lv: "live ?h = live h" by (simp add: live_def fun_eq_iff)
  have "cache_good ?h d" for d
  proof -
    have g: "cache_good h d" by (rule inv_cache [OF inv])
    have "sched_good ?h p" if "sched_good h p" for p using that by (rule sched_good_cong) (simp add: lv)
    then show ?thesis using g kc by (cases "d = c") (simp_all add: cache_good_def Let_def)
  qed
  moreover have "snap_good ?h a s" if "kh_snap ?h a = Some s" for a s
  proof -
    have s: "kh_snap h a = Some s" using that by simp
    show ?thesis
    proof (cases "ks_keys s = None \<and> ks_cache s = Some c")
      case True
      then show ?thesis using inv_snap [OF inv s] keep [OF s] kc(5) by (simp add: snap_good_def)
    next
      case False
      then show ?thesis using inv_snap [OF inv s] by (auto simp: snap_good_def split: option.splits)
    qed
  qed
  moreover have "denote ?h = denote h"
  proof
    fix a
    have "snap_rows ?h s = snap_rows h s" if "kh_snap h a = Some s" for s
      using keep [OF that] by (auto simp: snap_rows_def split: option.splits)
    then show "denote ?h a = denote h a" by (cases "kh_snap h a") (simp_all add: denote_def)
  qed
  moreover have "caps_apart ?h" using inv kc(4) by (auto simp: kv_inv_def caps_apart_def)
  ultimately show ?thesis using kc(4) by (simp add: write_sim_def kv_inv_def)
qed

lemma make_room_eq:
  "make_room nb lo hi = (\<lambda>a h. case kh_snap h a of
      Some s \<Rightarrow> (if ks_fromOffset s < hi \<and> ks_toOffset s > lo then copyOut nb a h else h) | None \<Rightarrow> h)"
  by (simp add: fun_eq_iff make_room_def)

lemma appendKV_eq:
  "appendKV zero nb c rows h =
     (let prev = kc_offset (kh_cache h c); L = int (length rows); h' = fold (make_room nb prev (prev + L)) (kc_lazySnapshots (kh_cache h c)) h
      in upd_cache c (\<lambda>_. write_slots rows (grow zero L (kh_cache h' c))) h')"
  unfolding appendKV_def Let_def make_room_eq by (simp add: upd_cache_def)

lemma appendKV_sim:
  assumes inv: "kv_inv h"
  shows "write_sim c h (appendKV zero nb c rows h) \<and>
    kv_State (kh_cache (appendKV zero nb c rows h) c) = kv_State (kh_cache h c) @ rows \<and>
    kc_offset (kh_cache (appendKV zero nb c rows h) c) = kc_offset (kh_cache h c) + int (length rows) \<and>
    kc_keys (kh_cache (appendKV zero nb c rows h) c) \<noteq> None"
proof -
  define L where "L = int (length rows)"
  define prev where "prev = kc_offset (kh_cache h c)"
  define h' where "h' = fold (make_room nb prev (prev + L)) (kc_lazySnapshots (kh_cache h c)) h"
  define kc where "kc = kh_cache h' c"
  define g where "g = grow zero L kc"
  have room: "kv_sim h h'" "\<And>b. b \<in> set (kc_lazySnapshots (kh_cache h c)) \<Longrightarrow> clear_of prev (prev + L) h' b"
      "set (kc_lazySnapshots kc) \<subseteq> set (kc_lazySnapshots (kh_cache h c))"
    using make_room_all [OF inv] unfolding h'_def kc_def by blast+
  have inv': "kv_inv h'" and sb: "same_buffers h h'" using room(1) by (simp_all add: kv_sim_def)
  have L: "0 \<le> L" by (simp add: L_def)
  have kc: "0 < kc_step kc" "0 \<le> kc_offset kc" "kc_offset kc \<le> int (length (kc_slots kc))" "kc_offset kc = prev"
    "kc_snapshots kc = kc_snapshots (kh_cache h c)" "kv_State kc = kv_State (kh_cache h c)"
    using inv_cache [OF inv', of c] sb same_buffers_State [OF sb, of c]
    by (simp_all add: cache_good_def Let_def kc_def prev_def same_buffers_def)
  note g = grow_facts [OF kc(1-3) L, of zero, folded g_def]
  have "0 \<le> kc_offset g" "kc_offset g + int (length rows) \<le> int (length (kc_slots g))" using g kc(2) by (simp_all add: L_def)
  note w = write_facts [OF this]
  have "write_sim c h' (upd_cache c (\<lambda>_. write_slots rows g) h')"
  proof (rule upd_cache_sim [OF inv'])
    fix a s assume s: "kh_snap h' a = Some s" "ks_keys s = None" "ks_cache s = Some c"
    obtain d where d: "ks_cache s = Some d" "a \<in> set (kc_lazySnapshots (kh_cache h' d))"
      "ks_toOffset s \<le> int (length (kc_slots (kh_cache h' d)))" by (rule inv_lazy [OF inv' s(1,2)])
    then have a: "a \<in> set (kc_lazySnapshots kc)" "ks_toOffset s \<le> int (length (kc_slots kc))" using s(3) by (simp_all add: kc_def)
    have rg: "0 \<le> ks_fromOffset s" "ks_fromOffset s < ks_toOffset s" using inv_range [OF inv' s(1)] by simp_all
    have "clear_of prev (prev + L) h' a" using room(2,3) a(1) by blast
    then have cl: "prev + L \<le> ks_fromOffset s \<or> ks_toOffset s \<le> prev" using s by (auto simp: clear_of_def)
    have "ks_toOffset s \<le> int (length (kc_slots g)) \<and> (\<forall>j < nat (ks_toOffset s). nat (ks_fromOffset s) \<le> j \<longrightarrow>
        kc_slots (write_slots rows g) ! j = kc_slots kc ! j)"
    proof (cases "ks_toOffset s \<le> prev")
      case True
      have "kc_slots (write_slots rows g) ! j = kc_slots kc ! j" if "j < nat (ks_toOffset s)" for j
      proof -
        have j: "j < nat prev" "j < length (kc_slots g)" using that True rg g kc(4) L by linarith+
        then have "kc_slots (write_slots rows g) ! j = kc_slots g ! j" using w g kc(4) by simp
        also have "\<dots> = take (nat prev) (kc_slots g) ! j" using j(1) by simp
        also have "\<dots> = kc_slots kc ! j" using g kc(4) j(1) by simp
        finally show ?thesis .
      qed
      then show ?thesis using True g kc(4) L by auto
    next
      case False
      then have above: "prev + L \<le> ks_fromOffset s" using cl by simp
      then have "kc_offset kc + L \<le> int (length (kc_slots kc))" using a(2) rg kc(4) by linarith
      then have same: "kc_slots g = kc_slots kc" using g by simp
      have "kc_slots (write_slots rows g) ! j = kc_slots kc ! j" if "j < nat (ks_toOffset s)" "nat (ks_fromOffset s) \<le> j" for j
      proof -
        have "nat (kc_offset g) + length rows \<le> j" "j < length (kc_slots g)"
          using that above a(2) same g kc(2,4) by (simp_all add: L_def)
        then show ?thesis using w same by simp
      qed
      then show ?thesis using a(2) same by simp
    qed
    then have keep: "ks_toOffset s \<le> int (length (kc_slots (write_slots rows g)))"
        "\<And>j. nat (ks_fromOffset s) \<le> j \<Longrightarrow> j < nat (ks_toOffset s) \<Longrightarrow> kc_slots (write_slots rows g) ! j = kc_slots kc ! j"
      using w by simp_all
    have "slice (ks_fromOffset s) (ks_toOffset s) (kc_slots (write_slots rows g)) = slice (ks_fromOffset s) (ks_toOffset s) (kc_slots kc)"
      by (rule slice_cong [OF rg(1) keep(2) keep(1) a(2)])
    then show "ks_toOffset s \<le> int (length (kc_slots (write_slots rows g))) \<and>
        slice (ks_fromOffset s) (ks_toOffset s) (kc_slots (write_slots rows g)) =
        slice (ks_fromOffset s) (ks_toOffset s) (kc_slots (kh_cache h' c))" using keep(1) by (simp add: kc_def)
  next
    show "0 < kc_step (write_slots rows g)" "kc_snapshots (write_slots rows g) = kc_snapshots (kh_cache h' c)"
      "kc_lazySnapshots (write_slots rows g) = kc_lazySnapshots (kh_cache h' c)"
      "0 \<le> kc_offset (write_slots rows g)" "kc_offset (write_slots rows g) \<le> int (length (kc_slots (write_slots rows g)))"
      using w g kc(1,2) L by (simp_all add: kc_def L_def)
  qed
  moreover have "appendKV zero nb c rows h = upd_cache c (\<lambda>_. write_slots rows g) h'"
    by (simp add: appendKV_eq Let_def g_def kc_def h'_def prev_def L_def)
  moreover have "kv_State (write_slots rows g) = kv_State (kh_cache h c) @ rows"
    using w g kc by (simp add: kv_State_take [OF kc(2)])
  ultimately show ?thesis using write_sim_trans [OF kv_sim_write [OF room(1)]] w g kc(4) by (simp add: prev_def)
qed

end
