(* ===== verification/KVSnapshots.thy ===== *)
theory KVSnapshots
  imports KVRefine
begin

text \<open>
  Making, closing and capturing snapshots, and with them a write with its captures, on the store of \<open>KVCache\<close>.
\<close>

section \<open>Frames\<close>

definition kv_frame :: "nat set \<Rightarrow> 'r kvHeap \<Rightarrow> 'r kvHeap \<Rightarrow> bool" where
  "kv_frame X h h' \<longleftrightarrow> kv_inv h' \<and> (\<forall>a. live h a \<longrightarrow> a \<notin> X \<longrightarrow> denote h' a = denote h a) \<and>
     (\<forall>c a. a \<in> captures (kc_snapshots (kh_cache h' c)) \<longrightarrow> a \<in> captures (kc_snapshots (kh_cache h c)) \<or> \<not> live h a \<or> a \<in> X)"

lemma kv_frame_refl: "kv_inv h \<Longrightarrow> kv_frame X h h"
  by (simp add: kv_frame_def)

lemma kv_frame_trans: "kv_frame X h h' \<Longrightarrow> kv_frame X h' h'' \<Longrightarrow> kv_frame X h h''"
  unfolding kv_frame_def live_denote by metis

lemma kv_frame_held: "kv_frame X h h' \<Longrightarrow> held h a \<Longrightarrow> a \<notin> X \<Longrightarrow> held h' a"
  unfolding kv_frame_def held_def live_denote by metis

lemma write_sim_frame: "write_sim c h h' \<Longrightarrow> kv_frame X h h'"
  by (simp add: write_sim_def kv_frame_def)

lemma kv_sim_frame: "kv_sim h h' \<Longrightarrow> kv_frame X h h'"
  using kv_sim_write write_sim_frame by blast

section \<open>New snapshots\<close>

definition added :: "'r kvData \<Rightarrow> 'r kvHeap \<Rightarrow> 'r kvHeap \<Rightarrow> bool" where
  "added d h h' \<longleftrightarrow> kv_inv h' \<and> same_buffers h h' \<and> denote h' = (denote h)(kh_next h \<mapsto> d) \<and> kh_next h' = Suc (kh_next h)"

definition removed :: "nat \<Rightarrow> 'r kvHeap \<Rightarrow> 'r kvHeap \<Rightarrow> bool" where
  "removed a h h' \<longleftrightarrow> kv_inv h' \<and> same_buffers h h' \<and> denote h' = (denote h)(a := None) \<and> kh_next h' = kh_next h"

lemma new_snap_simps [simp]: "snd (new_snap s h) = kh_next h" "kh_cache (fst (new_snap s h)) = kh_cache h"
  "kh_snap (fst (new_snap s h)) = (kh_snap h)(kh_next h \<mapsto> s)" "kh_next (fst (new_snap s h)) = Suc (kh_next h)"
  by (simp_all add: new_snap_def)

lemma dead_next: "kv_inv h \<Longrightarrow> \<not> live h (kh_next h)"
  by (simp add: live_def inv_fresh)

lemma live_less: "kv_inv h \<Longrightarrow> live h a \<Longrightarrow> a < kh_next h"
  using inv_snap [of h a] by (auto simp: live_def snap_good_def)

lemma new_owned:
  assumes inv: "kv_inv h" and rg: "0 \<le> a" "a < b" "int (length rows) = b - a"
  shows "added \<lparr>kd_from = a, kd_rows = rows\<rparr> h
    (fst (new_snap \<lparr>ks_keys = Some rows, ks_fromOffset = a, ks_toOffset = b, ks_cache = None, ks_onMaterialize = False\<rparr> h))"
proof -
  define s where "s = \<lparr>ks_keys = Some rows, ks_fromOffset = a, ks_toOffset = b, ks_cache = None, ks_onMaterialize = False\<rparr>"
  define h' where "h' = fst (new_snap s h)"
  have h': "kh_cache h' = kh_cache h" "kh_snap h' = (kh_snap h)(kh_next h \<mapsto> s)" "kh_next h' = Suc (kh_next h)"
    by (simp_all add: h'_def)
  have sb: "same_buffers h h'" by (simp add: same_buffers_def h')
  have lv: "live h' x" if "live h x" for x using that by (simp add: live_def h')
  have "cache_good h' c" for c
  proof -
    have g: "cache_good h c" by (rule inv_cache [OF inv])
    have "sched_good h' (kc_snapshots (kh_cache h c))"
      by (rule sched_good_cong [of h]) (use g lv in \<open>simp_all add: cache_good_def Let_def\<close>)
    moreover have "\<exists>t. kh_snap h' x = Some t \<and> ks_cache t = Some c \<and> ks_keys t = None"
      if x: "x \<in> set (kc_lazySnapshots (kh_cache h c))" for x
    proof -
      obtain t where t: "kh_snap h x = Some t" "ks_cache t = Some c" "ks_keys t = None"
        using inv_lazies [OF inv x] by blast
      then have "x \<noteq> kh_next h" using inv_fresh [OF inv] by auto
      then show ?thesis using t by (simp add: h'(2))
    qed
    ultimately show ?thesis using g by (simp add: cache_good_def Let_def h')
  qed
  moreover have "snap_good h' x t" if "kh_snap h' x = Some t" for x t
  proof (cases "x = kh_next h")
    case True
    then show ?thesis using that rg by (auto simp: h' s_def snap_good_def)
  next
    case False
    then have "snap_good h x t" using that inv_snap [OF inv] by (simp add: h')
    then show ?thesis by (auto simp: snap_good_def h' split: option.splits)
  qed
  moreover have "denote h' = (denote h)(kh_next h \<mapsto> \<lparr>kd_from = a, kd_rows = rows\<rparr>)"
    by (auto simp: fun_eq_iff denote_def h' same_buffers_rows [OF sb]) (simp_all add: s_def snap_rows_def)
  ultimately show ?thesis using sb same_buffers_apart [OF sb inv] by (simp add: added_def kv_inv_def h' flip: s_def h'_def)
qed

lemma new_lazy:
  assumes inv: "kv_inv h" and rg: "0 \<le> a" "a < b" "b \<le> int (length (kc_slots (kh_cache h c)))"
  shows "added \<lparr>kd_from = a, kd_rows = slice a b (kc_slots (kh_cache h c))\<rparr> h
    (addLazySnapshot c (kh_next h)
      (fst (new_snap \<lparr>ks_keys = None, ks_fromOffset = a, ks_toOffset = b, ks_cache = Some c, ks_onMaterialize = False\<rparr> h)))"
proof -
  define s :: "'a kvSnapshot" where
    "s = \<lparr>ks_keys = None, ks_fromOffset = a, ks_toOffset = b, ks_cache = Some c, ks_onMaterialize = False\<rparr>"
  define h' where "h' = addLazySnapshot c (kh_next h) (fst (new_snap s h))"
  have h': "kh_cache h' = (kh_cache h)(c := (kh_cache h c)\<lparr>kc_lazySnapshots := kc_lazySnapshots (kh_cache h c) @ [kh_next h]\<rparr>)"
    "kh_snap h' = (kh_snap h)(kh_next h \<mapsto> s)" "kh_next h' = Suc (kh_next h)"
    by (simp_all add: h'_def addLazySnapshot_def)
  have sb: "same_buffers h h'" by (simp add: same_buffers_def h')
  have sl: "kc_slots (kh_cache h' d) = kc_slots (kh_cache h d)" for d by (rule same_buffers_slots [OF sb])
  have lv: "live h' x" if "live h x" for x using that by (simp add: live_def h')
  have fresh: "kh_next h \<notin> set (kc_lazySnapshots (kh_cache h d))" for d
    using inv_cache [OF inv, of d] inv_fresh [OF inv] by (auto simp: cache_good_def Let_def)
  have lz: "set (kc_lazySnapshots (kh_cache h' d)) = set (kc_lazySnapshots (kh_cache h d)) \<union> (if d = c then {kh_next h} else {})" for d
    by (simp add: h')
  have "cache_good h' d" for d
  proof -
    have g: "cache_good h d" by (rule inv_cache [OF inv])
    have "sched_good h' (kc_snapshots (kh_cache h d))"
      by (rule sched_good_cong [of h]) (use g lv in \<open>simp_all add: cache_good_def Let_def\<close>)
    moreover have "distinct (kc_lazySnapshots (kh_cache h' d))" using g fresh by (auto simp: h' cache_good_def Let_def)
    moreover have "\<exists>t. kh_snap h' x = Some t \<and> ks_cache t = Some d \<and> ks_keys t = None" if "x \<in> set (kc_lazySnapshots (kh_cache h' d))" for x
      using that g fresh [of d] unfolding lz by (auto simp: h' s_def cache_good_def Let_def split: if_splits)
    ultimately show ?thesis using g sb unfolding cache_good_def Let_def sl by (simp add: same_buffers_def)
  qed
  moreover have "snap_good h' x t" if "kh_snap h' x = Some t" for x t
  proof (cases "x = kh_next h")
    case True
    then have "t = s" using that by (simp add: h'(2))
    then show ?thesis using True rg unfolding snap_good_def lz sl by (simp add: h'(3) s_def)
  next
    case False
    then have "snap_good h x t" using that inv_snap [OF inv] by (simp add: h')
    then show ?thesis unfolding snap_good_def lz sl by (auto simp: h'(3) split: option.splits)
  qed
  moreover have "denote h' = (denote h)(kh_next h \<mapsto> \<lparr>kd_from = a, kd_rows = slice a b (kc_slots (kh_cache h c))\<rparr>)"
    by (auto simp: fun_eq_iff denote_def h'(2) same_buffers_rows [OF sb]) (simp_all add: s_def snap_rows_def sl)
  ultimately show ?thesis using sb same_buffers_apart [OF sb inv] by (simp add: added_def kv_inv_def h'(3) flip: s_def h'_def)
qed

text \<open>Closing one that no cache waits to hand out.\<close>

lemma kv_Close_removed:
  assumes inv: "kv_inv h" and a: "held h a"
  shows "removed a h (kv_Close a h)"
proof -
  obtain s where s: "kh_snap h a = Some s" using a by (auto simp: held_def live_def)
  define h' where "h' = kv_Close a h"
  have h': "kh_snap h' = (kh_snap h)(a := None)" "kh_next h' = kh_next h" "same_buffers h h'"
    by (auto simp: h'_def kv_Close_def s dropLazySnapshot_def same_buffers_def split: option.split)
  have lz: "set (kc_lazySnapshots (kh_cache h' c)) = set (kc_lazySnapshots (kh_cache h c)) - {a} \<and>
      distinct (kc_lazySnapshots (kh_cache h' c))" for c
  proof -
    have g: "distinct (kc_lazySnapshots (kh_cache h c))" using inv_cache [OF inv, of c] by (simp add: cache_good_def Let_def)
    show ?thesis
    proof (cases "ks_cache s = Some c")
      case True
      then show ?thesis using g by (simp add: h'_def kv_Close_def s dropLazySnapshot_def)
    next
      case False
      then have "kh_cache h' c = kh_cache h c" by (simp add: h'_def kv_Close_def s dropLazySnapshot_def split: option.split)
      moreover have "a \<notin> set (kc_lazySnapshots (kh_cache h c))"
        using inv_cache [OF inv, of c] s False by (auto simp: cache_good_def Let_def)
      ultimately show ?thesis using g by simp
    qed
  qed
  have sl: "kc_slots (kh_cache h' d) = kc_slots (kh_cache h d)" for d by (rule same_buffers_slots [OF h'(3)])
  have "cache_good h' c" for c
  proof -
    have g: "cache_good h c" by (rule inv_cache [OF inv])
    have "sched_good h' (kc_snapshots (kh_cache h c))"
    proof (rule sched_good_cong)
      show "sched_good h (kc_snapshots (kh_cache h c))" using g by (simp add: cache_good_def Let_def)
      show "live h' x" if "x \<in> captures (kc_snapshots (kh_cache h c))" "live h x" for x
        using that a by (auto simp: live_def h'(1) held_def)
    qed
    moreover have "\<exists>t. kh_snap h' x = Some t \<and> ks_cache t = Some c \<and> ks_keys t = None" if "x \<in> set (kc_lazySnapshots (kh_cache h' c))" for x
      using that g lz by (auto simp: h'(1) cache_good_def Let_def)
    ultimately show ?thesis using g lz [of c] h'(3) unfolding cache_good_def Let_def sl by (simp add: same_buffers_def)
  qed
  moreover have "snap_good h' x t" if "kh_snap h' x = Some t" for x t
  proof -
    have x: "kh_snap h x = Some t" "x \<noteq> a" using that by (auto simp: h'(1) split: if_splits)
    show ?thesis using inv_snap [OF inv x(1)] x(2) lz unfolding snap_good_def sl by (auto simp: h'(2) split: option.splits)
  qed
  moreover have "denote h' = (denote h)(a := None)"
    by (auto simp: fun_eq_iff denote_def h'(1) same_buffers_rows [OF h'(3)])
  ultimately show ?thesis using h'(2,3) same_buffers_apart [OF h'(3) inv] by (simp add: removed_def kv_inv_def flip: h'_def)
qed

lemma same_buffers_captures: "same_buffers h h' \<Longrightarrow> captures (kc_snapshots (kh_cache h' c)) = captures (kc_snapshots (kh_cache h c))"
  by (simp add: same_buffers_def)

lemma added_held: "added d h h' \<Longrightarrow> kv_inv h \<Longrightarrow> held h' a \<longleftrightarrow> held h a \<or> a = kh_next h"
proof -
  assume a: "added d h h'" "kv_inv h"
  then have "kh_next h \<notin> captures (kc_snapshots (kh_cache h c))" for c using inv_captured dead_next by blast
  then show ?thesis using a by (auto simp: added_def same_buffers_captures held_def live_denote)
qed

lemma removed_held: "removed b h h' \<Longrightarrow> held h' a \<longleftrightarrow> held h a \<and> a \<noteq> b"
  by (auto simp: removed_def same_buffers_captures held_def live_denote split: if_splits)

lemma added_frame: "added d h h' \<Longrightarrow> kv_inv h \<Longrightarrow> kv_frame X h h'"
  using dead_next [of h] by (auto simp: added_def kv_frame_def same_buffers_captures)

lemma removed_frame: "removed a h h' \<Longrightarrow> a \<in> X \<Longrightarrow> kv_frame X h h'"
  by (auto simp: removed_def kv_frame_def same_buffers_captures)

lemma frame_buffers_abs:
  assumes "kv_inv h" "kv_frame X h h'" "same_buffers h h'" "\<And>a. a \<in> X \<Longrightarrow> held h a"
  shows "abs_cache h' c = abs_cache h c"
proof (rule abs_cache_cong)
  show "kc_snapshots (kh_cache h' c) = kc_snapshots (kh_cache h c)" using assms(3) by (simp add: same_buffers_def)
  show "denote h' a = denote h a" if "a \<in> captures (kc_snapshots (kh_cache h c))" for a
    using that assms(2,4) inv_captured [OF assms(1) that] by (auto simp: kv_frame_def held_def)
qed (simp add: same_buffers_State assms(3))

section \<open>Captures\<close>

lemma set_sched_inv:
  assumes "kv_inv h" "sched_good h q" and apart: "\<And>a d. a \<in> captures q \<Longrightarrow> a \<in> captures (kc_snapshots (kh_cache h d)) \<Longrightarrow> d = c"
  shows "kv_inv (upd_cache c (\<lambda>kc. kc\<lparr>kc_snapshots := q\<rparr>) h) \<and> denote (upd_cache c (\<lambda>kc. kc\<lparr>kc_snapshots := q\<rparr>) h) = denote h"
proof -
  let ?h = "upd_cache c (\<lambda>kc. kc\<lparr>kc_snapshots := q\<rparr>) h"
  have sl: "kc_slots (kh_cache ?h d) = kc_slots (kh_cache h d)" "kc_lazySnapshots (kh_cache ?h d) = kc_lazySnapshots (kh_cache h d)" for d
    by simp_all
  have "sched_good ?h p \<longleftrightarrow> sched_good h p" for p by (simp add: sched_good_def live_def cong: option.case_cong)
  then have "cache_good ?h d" for d
    using inv_cache [OF assms(1), of d] assms(2) by (cases "d = c") (simp_all add: cache_good_def Let_def)
  moreover have "snap_good ?h a s" if "kh_snap ?h a = Some s" for a s
  proof -
    have "snap_good h a s" using inv_snap [OF assms(1)] that by simp
    then show ?thesis unfolding snap_good_def sl by simp
  qed
  moreover have "caps_apart ?h"
    using assms(1) apart by (auto simp: kv_inv_def caps_apart_def)
  moreover have "snap_rows ?h s = snap_rows h s" for s unfolding snap_rows_def sl ..
  ultimately show ?thesis by (simp add: kv_inv_def fun_eq_iff denote_def del: upd_simps(1))
qed

lemma capture_due_abs: "capture_due r (abs_sched h p) = capture_due r p"
proof -
  have "list_ex (\<lambda>(o', s). s = None \<and> o' = r) (zip os (abs_layers h ss)) = list_ex (\<lambda>(o', s). s = None \<and> o' = r) (zip os ss)" for os ss
    by (induction os ss rule: list_induct2') (simp_all add: abs_layers_def)
  then show ?thesis by (simp add: capture_due_def abs_sched_def split: option.split)
qed

lemma captureReached_not_due:
  assumes "\<not> capture_due r p" "\<And>ss. pn_captured p = Some ss \<Longrightarrow> length ss = length (pn_offsets p)"
  shows "captureReached r f p = p"
proof (cases "pn_captured p")
  case (Some ss)
  have "map (\<lambda>(o', s). if s = None \<and> o' = r then f o' else s) (zip os ss) = ss"
    if "length ss = length os" "\<not> list_ex (\<lambda>(o', s). s = None \<and> o' = r) (zip os ss)" for os and ss :: "'a layers"
    using that by (induction ss os rule: list_induct2) auto
  then have "map (\<lambda>(o', s). if s = None \<and> o' = r then f o' else s) (zip (pn_offsets p) ss) = ss"
    using assms Some by (simp add: capture_due_def)
  then show ?thesis using assms(1) Some by (simp add: captureReached_def capture_due_def)
qed (simp add: captureReached_def)

lemma captureReached_abs:
  assumes "\<And>a. a \<in> captures p \<Longrightarrow> denote h' a = denote h a" "map_option (\<lambda>a. kr_new (the_data h' a)) so = f r"
  shows "abs_sched h' (captureReached r (\<lambda>_. map_option handle so) p) = captureReached r f (abs_sched h p)"
proof (cases "pn_captured p")
  case None
  then show ?thesis by (simp add: captureReached_def abs_sched_def)
next
  case (Some ss)
  have old: "denote h' (ss_data s) = denote h (ss_data s)" if "Some s \<in> set ss" for s
    using that Some by (intro assms(1)) (auto simp: captures_def)
  have new: "map_option (\<lambda>s. kr_new (the_data h' (ss_data s))) (map_option handle so) = f r"
    using assms(2) by (simp add: option.map_comp comp_def handle_def)
  have "abs_layers h' (map (\<lambda>(o', s). if s = None \<and> o' = r then map_option handle so else s) (zip os ss)) =
      map (\<lambda>(o', s). if s = None \<and> o' = r then f o' else s) (zip os (abs_layers h ss))" for os
    using old
  proof (induction os ss rule: list_induct2')
    case (4 x xs y ys)
    then have "map_option (\<lambda>s. kr_new (the_data h' (ss_data s))) y = map_option (\<lambda>s. kr_new (the_data h (ss_data s))) y"
      by (cases y) (auto simp: the_data_def)
    moreover have "abs_layers h' (map (\<lambda>(o', s). if s = None \<and> o' = r then map_option handle so else s) (zip xs ys)) =
      map (\<lambda>(o', s). if s = None \<and> o' = r then f o' else s) (zip xs (abs_layers h ys))" using 4 by simp
    ultimately show ?case using new by (auto simp: abs_layers_def)
  qed (simp_all add: abs_layers_def)
  moreover have "list_ex (\<lambda>(o', s). s = None \<and> o' = r) (zip (pn_offsets p) ss) =
      list_ex (\<lambda>(o', s). s = None \<and> o' = r) (zip (pn_offsets p) (abs_layers h ss))"
    using capture_due_abs [of r h p] Some by (simp add: capture_due_def abs_sched_def)
  ultimately show ?thesis using Some by (simp add: captureReached_def abs_sched_def Let_def)
qed

lemma captures_captureReached: "captures (captureReached r f p) \<subseteq> captures p \<union> {ss_data s | s. f r = Some s}"
proof
  fix a assume "a \<in> captures (captureReached r f p)"
  then obtain s cs where c: "a = ss_data s" "pn_captured (captureReached r f p) = Some cs" "Some s \<in> set cs"
    by (auto simp: captures_def)
  then obtain ss where "pn_captured p = Some ss" by (cases "pn_captured p") (auto simp: captureReached_def)
  moreover from this c(2) have "cs = map (\<lambda>(o', s). if s = None \<and> o' = r then f o' else s) (zip (pn_offsets p) ss)"
    by (simp add: captureReached_def Let_def split: if_splits)
  ultimately have s: "a = ss_data s" "pn_captured p = Some ss"
      "Some s \<in> (\<lambda>(o', s). if s = None \<and> o' = r then f o' else s) ` set (zip (pn_offsets p) ss)"
    using c(1,3) by simp_all
  from s(3) obtain o' t where t: "(o', t) \<in> set (zip (pn_offsets p) ss)" "Some s = (if t = None \<and> o' = r then f o' else t)" by force
  then have "t \<in> set ss" by (auto dest: set_zip_rightD)
  then show "a \<in> captures p \<union> {ss_data s | s. f r = Some s}" using s(1,2) t(2) by (auto simp: captures_def split: if_splits)
qed

lemma captureReached_lengths: "(case pn_captured p of None \<Rightarrow> True | Some ss \<Rightarrow> length ss = length (pn_offsets p)) \<Longrightarrow>
    case pn_captured (captureReached r f p) of None \<Rightarrow> True | Some ss \<Rightarrow> length ss = length (pn_offsets (captureReached r f p))"
  by (auto simp: captureReached_def Let_def split: option.splits)

text \<open>A capture changes the schedule of its cache only, as the promise does.\<close>

definition captured_sim :: "nat \<Rightarrow> 'r kvHeap \<Rightarrow> 'r kvHeap \<Rightarrow> bool" where
  "captured_sim c h h' \<longleftrightarrow> kv_frame {} h h' \<and> (\<forall>d. kc_keys (kh_cache h' d) = kc_keys (kh_cache h d) \<and>
     kc_offset (kh_cache h' d) = kc_offset (kh_cache h d) \<and> (d \<noteq> c \<longrightarrow> kc_snapshots (kh_cache h' d) = kc_snapshots (kh_cache h d)))"

lemma captured_sim_State: "captured_sim c h h' \<Longrightarrow> kv_State (kh_cache h' d) = kv_State (kh_cache h d)"
  by (simp add: captured_sim_def kv_State_def kc_slots_def)

lemma captured_sim_trans: "captured_sim c h h' \<Longrightarrow> captured_sim c h' h'' \<Longrightarrow> captured_sim c h h''"
  by (auto simp: captured_sim_def intro: kv_frame_trans)

lemma lazySnapshot_added:
  assumes "kv_inv h" "0 \<le> a" "b \<le> kc_offset (kh_cache h c)"
  shows "case kr_range a b (kv_State (kh_cache h c)) of
      None \<Rightarrow> lazySnapshot c a b h = (h, None)
    | Some d \<Rightarrow> snd (lazySnapshot c a b h) = Some (kh_next h) \<and> added d h (fst (lazySnapshot c a b h))"
proof (cases "b \<le> a")
  case True
  then show ?thesis by (simp add: kr_range_def lazySnapshot_def)
next
  case False
  have c: "0 \<le> kc_offset (kh_cache h c)" "kc_offset (kh_cache h c) \<le> int (length (kc_slots (kh_cache h c)))"
    using inv_cache [OF assms(1), of c] by (simp_all add: cache_good_def Let_def)
  then have keys: "kc_keys (kh_cache h c) \<noteq> None" using False assms(2,3) by (cases "kc_keys (kh_cache h c)") (auto simp: kc_slots_def)
  have "slice a b (kv_State (kh_cache h c)) = slice a b (kc_slots (kh_cache h c))"
    using assms(2,3) c False by (intro slice_cong) (auto simp: kv_State_take)
  moreover have "b \<le> int (length (kc_slots (kh_cache h c)))" using assms(3) c by simp
  ultimately show ?thesis using new_lazy [OF assms(1,2), of b c] False keys
    by (simp add: kr_range_def lazySnapshot_def case_prod_beta)
qed

lemma capture_one_sim:
  assumes inv: "kv_inv h" and r: "0 \<le> r" "r \<le> kc_offset (kh_cache h c)"
  defines "p \<equiv> kc_snapshots (kh_cache h c)"
  shows "captured_sim c h (capture_one c r h) \<and>
    abs_sched (capture_one c r h) (kc_snapshots (kh_cache (capture_one c r h) c)) =
      captureReached r (\<lambda>b. map_option kr_new (kr_range (pn_base p) b (kv_State (kh_cache h c)))) (abs_sched h p)"
proof -
  have p: "sched_good h p" using inv_cache [OF inv, of c] by (simp add: cache_good_def Let_def p_def)
  show ?thesis
  proof (cases "capture_due r p")
    case False
    have "length ss = length (pn_offsets (abs_sched h p))" if "pn_captured (abs_sched h p) = Some ss" for ss
      using p that by (auto simp: sched_good_def abs_sched_def abs_layers_def)
    then have "captureReached r f (abs_sched h p) = abs_sched h p" for f
      using False by (intro captureReached_not_due) (simp_all add: capture_due_abs)
    moreover have "capture_one c r h = h" using False by (simp add: capture_one_def p_def)
    ultimately show ?thesis using kv_frame_refl [OF inv] by (simp add: captured_sim_def p_def)
  next
    case True
    obtain h1 so where l: "lazySnapshot c (pn_base p) r h = (h1, so)" by fastforce
    have base: "0 \<le> pn_base p" using p by (simp add: sched_good_def)
    define R where "R = kr_range (pn_base p) r (kv_State (kh_cache h c))"
    have h1: "kv_inv h1 \<and> same_buffers h h1 \<and> kv_frame {} h h1 \<and> map_option (the_data h1) so = R \<and> (\<forall>a. so = Some a \<longrightarrow> live h1 a \<and> \<not> live h a)"
    proof (cases R)
      case None
      then show ?thesis using lazySnapshot_added [OF inv base r(2)] l by (simp add: R_def [symmetric] kv_frame_refl inv)
    next
      case (Some d)
      then have d: "so = Some (kh_next h)" "added d h h1" using lazySnapshot_added [OF inv base r(2)] l by (simp_all add: R_def [symmetric])
      have "\<not> live h (kh_next h)" by (rule dead_next [OF inv])
      then show ?thesis using d Some added_frame [OF d(2) inv] by (simp add: added_def the_data_def live_denote)
    qed
    define q where "q = captureReached r (\<lambda>_. map_option handle so) p"
    define h2 where "h2 = upd_cache c (\<lambda>kc. kc\<lparr>kc_snapshots := q\<rparr>) h1"
    have h2: "capture_one c r h = h2" using True l by (simp add: capture_one_def p_def h2_def q_def Let_def)
    have cq: "captures q \<subseteq> captures p \<union> set_option so"
      using captures_captureReached [of r "\<lambda>_. map_option handle so" p] by (auto simp: q_def handle_def)
    have lv: "live h1 a" if "live h a" for a using h1 that by (auto simp: kv_frame_def live_denote)
    have "sched_good h1 q"
      unfolding sched_good_def
    proof (intro conjI ballI)
      show "0 \<le> pn_base q" using base r(1) by (auto simp: q_def captureReached_def Let_def split: option.splits)
      show "live h1 a" if "a \<in> captures q" for a using that cq h1 lv p by (auto simp: sched_good_def)
      show "case pn_captured q of None \<Rightarrow> True | Some ss \<Rightarrow> length ss = length (pn_offsets q)"
        unfolding q_def using p by (intro captureReached_lengths) (simp add: sched_good_def)
    qed
    moreover have "d = c" if "a \<in> captures q" "a \<in> captures (kc_snapshots (kh_cache h1 d))" for a d
    proof (cases "a \<in> captures p")
      case True
      then have "a \<in> captures (kc_snapshots (kh_cache h1 c))" using h1 by (simp add: same_buffers_def p_def)
      then show ?thesis using that(2) h1 by (auto simp: kv_inv_def caps_apart_def)
    next
      case False
      then show ?thesis using that cq h1 inv_captured [OF inv, of a d] by (auto simp: same_buffers_captures)
    qed
    ultimately have inv2: "kv_inv h2" "denote h2 = denote h1" using set_sched_inv [of h1 q c] h1 unfolding h2_def by blast+
    have sb: "kc_keys (kh_cache h1 d) = kc_keys (kh_cache h d) \<and> kc_offset (kh_cache h1 d) = kc_offset (kh_cache h d) \<and>
        kc_snapshots (kh_cache h1 d) = kc_snapshots (kh_cache h d)" for d using h1 by (simp add: same_buffers_def)
    have "kv_frame {} h h2"
      unfolding kv_frame_def
    proof (intro conjI allI impI)
      show "a \<in> captures (kc_snapshots (kh_cache h d)) \<or> \<not> live h a \<or> a \<in> {}" if "a \<in> captures (kc_snapshots (kh_cache h2 d))" for d a
        using that cq h1 sb by (cases "d = c") (auto simp: h2_def p_def)
      show "denote h2 a = denote h a" if "live h a" for a using that h1 by (simp add: inv2(2) kv_frame_def)
    qed (rule inv2(1))
    moreover have "abs_sched h2 q = captureReached r (\<lambda>b. map_option kr_new (kr_range (pn_base p) b (kv_State (kh_cache h c)))) (abs_sched h p)"
      unfolding q_def
    proof (rule captureReached_abs)
      show "denote h2 a = denote h a" if "a \<in> captures p" for a
        using that h1 p by (simp add: inv2(2) kv_frame_def sched_good_def)
      have "the_data h2 = the_data h1" by (simp add: the_data_def inv2(2) fun_eq_iff)
      then show "map_option (\<lambda>a. kr_new (the_data h2 a)) so = map_option kr_new (kr_range (pn_base p) r (kv_State (kh_cache h c)))"
        using h1 unfolding R_def [symmetric] by (cases so) auto
    qed
    ultimately show ?thesis using sb unfolding h2 by (simp add: captured_sim_def h2_def)
  qed
qed

end
