(* ===== verification/KVExec.thy ===== *)
theory KVExec
  imports KVSnapshots
begin

text \<open>
  The operations of the key-value cache, one by one, and put together: the store refines the rows of \<open>KVRows\<close>.
\<close>

definition refines :: "nat set \<Rightarrow> nat \<Rightarrow> 'r kvHeap \<Rightarrow> 'r kvHeap \<Rightarrow> 'r kvRows \<Rightarrow> bool" where
  "refines X c h h' r \<longleftrightarrow> kv_frame X h h' \<and> abs_cache h' c = r \<and> (\<forall>d. d \<noteq> c \<longrightarrow> abs_cache h' d = abs_cache h d)"

definition handed :: "'r kvHeap \<Rightarrow> nat option \<Rightarrow> 'r kvData option \<Rightarrow> bool" where
  "handed h s d \<longleftrightarrow> (case s of None \<Rightarrow> d = None | Some a \<Rightarrow> held h a \<and> denote h a = d)"

lemma captured_sim_abs:
  assumes "kv_inv h" "captured_sim c h h'" "d \<noteq> c"
  shows "abs_cache h' d = abs_cache h d"
proof (rule abs_cache_cong)
  show "kv_State (kh_cache h' d) = kv_State (kh_cache h d)" by (rule captured_sim_State [OF assms(2)])
  show "denote h' a = denote h a" if "a \<in> captures (kc_snapshots (kh_cache h d))" for a
    using inv_captured [OF assms(1) that] assms(2) by (simp add: captured_sim_def kv_frame_def)
  show "kc_snapshots (kh_cache h' d) = kc_snapshots (kh_cache h d)" using assms(2,3) by (simp add: captured_sim_def)
qed

section \<open>Writing\<close>

lemma pn_abs_sched [simp]: "pn_base (abs_sched h p) = pn_base p" "pn_offsets (abs_sched h p) = pn_offsets p"
  by (simp_all add: abs_sched_def)

lemma capture_all_sim:
  assumes "kv_inv h" "\<forall>r \<in> set os. 0 \<le> r \<and> r \<le> kc_offset (kh_cache h c)" "rows = kv_State (kh_cache h c)"
  shows "captured_sim c h (fold (capture_one c) os h) \<and>
    abs_sched (fold (capture_one c) os h) (kc_snapshots (kh_cache (fold (capture_one c) os h) c)) =
      fold (\<lambda>o' p. captureReached o' (\<lambda>b. map_option kr_new (kr_range (pn_base p) b rows)) p) os
        (abs_sched h (kc_snapshots (kh_cache h c)))"
  using assms
proof (induction os arbitrary: h)
  case Nil
  then show ?case by (simp add: captured_sim_def kv_frame_refl)
next
  case (Cons r os)
  have r: "0 \<le> r" "r \<le> kc_offset (kh_cache h c)" using Cons.prems(2) by simp_all
  note 1 = capture_one_sim [OF Cons.prems(1) r]
  let ?h = "capture_one c r h"
  have "kv_inv ?h" using 1 by (simp add: captured_sim_def kv_frame_def)
  moreover have "\<forall>r \<in> set os. 0 \<le> r \<and> r \<le> kc_offset (kh_cache ?h c)" using 1 Cons.prems(2) by (simp add: captured_sim_def)
  moreover have "rows = kv_State (kh_cache ?h c)" using 1 captured_sim_State Cons.prems(3) by metis
  ultimately have 2: "captured_sim c ?h (fold (capture_one c) os ?h) \<and>
      abs_sched (fold (capture_one c) os ?h) (kc_snapshots (kh_cache (fold (capture_one c) os ?h) c)) =
        fold (\<lambda>o' p. captureReached o' (\<lambda>b. map_option kr_new (kr_range (pn_base p) b rows)) p) os
          (abs_sched ?h (kc_snapshots (kh_cache ?h c)))" by (rule Cons.IH)
  have "captured_sim c h (fold (capture_one c) (r # os) h)" using 1 2 captured_sim_trans by auto
  then show ?case using 1 2 by (simp add: Cons.prems(3))
qed

lemma kv_Update_refines:
  assumes inv: "kv_inv h"
  shows "refines X c h (kv_Update zero nb c new h) (kr_Update new (abs_cache h c))"
proof -
  define h1 where "h1 = appendKV zero nb c new h"
  define start where "start = kc_offset (kh_cache h c)"
  have a: "write_sim c h h1" "kv_State (kh_cache h1 c) = kv_State (kh_cache h c) @ new" "kc_offset (kh_cache h1 c) = start + int (length new)"
    using appendKV_sim [OF inv, of c zero nb new] by (simp_all add: h1_def start_def)
  have inv1: "kv_inv h1" using a(1) by (simp add: write_sim_def)
  have len: "int (length (kv_State (kh_cache h c))) = start" "0 \<le> start"
    using length_kv_State [OF inv_cache [OF inv]] inv_cache [OF inv, of c] by (simp_all add: start_def cache_good_def Let_def)
  let ?p = "kc_snapshots (kh_cache h1 c)"
  define os where "os = scheduledIn start (start + int (length new)) ?p"
  have "\<forall>r \<in> set os. 0 \<le> r \<and> r \<le> kc_offset (kh_cache h1 c)" using len(2) by (auto simp: os_def scheduledIn_def a(3))
  note c = capture_all_sim [OF inv1 this a(2) [symmetric]]
  define h2 where "h2 = fold (capture_one c) os h1"
  have h2: "kv_Update zero nb c new h = h2"
    by (simp add: kv_Update_def Let_def captureLazySnapshots_def h2_def os_def a(3) flip: h1_def start_def)
  have p: "abs_sched h1 ?p = kr_snapshots (abs_cache h c)"
    using a(1) by (simp add: write_sim_sched [OF a(1)] abs_cache_def) (simp add: write_sim_def)
  have "scheduledIn start (start + int (length new)) (kr_snapshots (abs_cache h c)) = os"
    unfolding p [symmetric] by (simp add: os_def scheduledIn_def)
  then have "abs_cache h2 c = kr_Update new (abs_cache h c)"
    using c a(2) captured_sim_State [of c h1 h2 c] len
    by (simp add: abs_cache_def [of h2] kr_Update_def Let_def capture_write_def kr_Offset_def p flip: h2_def)
      (simp add: abs_cache_def)
  moreover have "abs_cache h2 d = abs_cache h d" if "d \<noteq> c" for d
    using captured_sim_abs [OF inv1 _ that, of h2] write_sim_abs [OF a(1) that] c by (simp add: h2_def)
  moreover have "kv_frame X h h2"
  proof -
    have "kv_frame {} h h2"
      using kv_frame_trans [OF write_sim_frame [OF a(1)]] c by (simp add: captured_sim_def flip: h2_def)
    then show ?thesis by (auto simp: kv_frame_def)
  qed
  ultimately show ?thesis by (simp add: refines_def h2)
qed

lemma kv_Snapshot_refines:
  assumes inv: "kv_inv h" and a: "0 \<le> start"
  shows "refines X c h (fst (kv_Snapshot c start h)) (abs_cache h c) \<and>
    handed (fst (kv_Snapshot c start h)) (snd (kv_Snapshot c start h)) (kr_Snapshot start (abs_cache h c))"
proof -
  have r: "kr_Snapshot start (abs_cache h c) = kr_range start (kc_offset (kh_cache h c)) (kv_State (kh_cache h c))"
    using length_kv_State [OF inv_cache [OF inv]] by (simp add: kr_Snapshot_def kr_Offset_def abs_cache_def)
  note l = lazySnapshot_added [OF inv a order_refl, of c]
  show ?thesis
  proof (cases "kr_Snapshot start (abs_cache h c)")
    case None
    then show ?thesis using l by (simp add: r kv_Snapshot_def refines_def handed_def kv_frame_refl inv)
  next
    case (Some d)
    then have s: "snd (kv_Snapshot c start h) = Some (kh_next h)" "added d h (fst (kv_Snapshot c start h))"
      using l by (simp_all add: r kv_Snapshot_def)
    have "kv_frame X' h (fst (kv_Snapshot c start h))" for X' by (rule added_frame [OF s(2) inv])
    moreover have "abs_cache (fst (kv_Snapshot c start h)) x = abs_cache h x" for x
      using frame_buffers_abs [OF inv added_frame [OF s(2) inv, of "{}"]] s(2) by (simp add: added_def)
    ultimately show ?thesis using s added_held [OF s(2) inv, of "kh_next h"] Some
      by (simp add: refines_def handed_def) (simp add: added_def)
  qed
qed

section \<open>The schedule\<close>

lemma prepare_abs: "prepare cur offs (abs_sched h p) = map_option (abs_sched h) (prepare cur offs p)"
  by (simp add: prepare_def abs_sched_def abs_layers_def map_replicate_const)

lemma take_abs: "take_captured (abs_sched h p) = (abs_layers h (fst (take_captured p)), abs_sched h (snd (take_captured p)))"
  by (simp add: take_captured_def abs_sched_def abs_layers_def split: option.split)

lemma set_sched_refines:
  assumes inv: "kv_inv h" and q: "sched_good h q" "captures q \<subseteq> captures (kc_snapshots (kh_cache h c))"
  shows "refines X c h (upd_cache c (\<lambda>kc. kc\<lparr>kc_snapshots := q\<rparr>) h) ((abs_cache h c)\<lparr>kr_snapshots := abs_sched h q\<rparr>)"
proof -
  let ?h = "upd_cache c (\<lambda>kc. kc\<lparr>kc_snapshots := q\<rparr>) h"
  have "d = c" if "a \<in> captures q" "a \<in> captures (kc_snapshots (kh_cache h d))" for a d
    using that q(2) inv by (auto simp: kv_inv_def caps_apart_def)
  note i = set_sched_inv [OF inv q(1) this]
  have "abs_sched ?h p = abs_sched h p" for p using i by (intro abs_sched_cong) simp
  moreover have "kv_frame X h ?h" using i q(2) by (auto simp: kv_frame_def)
  moreover have "kv_State (kc\<lparr>kc_snapshots := q\<rparr>) = kv_State kc" for kc :: "'a kvCache" by (simp add: kv_State_def)
  ultimately show ?thesis by (simp add: refines_def abs_cache_def)
qed

lemma kv_Prepare_refines:
  assumes inv: "kv_inv h"
  shows "case kv_PrepareSnapshots c offs h of
      None \<Rightarrow> kr_Prepare offs (abs_cache h c) = None
    | Some h' \<Rightarrow> \<exists>r. kr_Prepare offs (abs_cache h c) = Some r \<and> refines X c h h' r"
proof (cases "prepare (kc_offset (kh_cache h c)) offs (kc_snapshots (kh_cache h c))")
  case None
  moreover have "kr_Offset (abs_cache h c) = kc_offset (kh_cache h c)"
    using length_kv_State [OF inv_cache [OF inv]] by (simp add: kr_Offset_def abs_cache_def)
  ultimately show ?thesis by (simp add: kv_PrepareSnapshots_def kr_Prepare_def prepare_abs) (simp add: abs_cache_def prepare_abs)
next
  case (Some q)
  have off: "kr_Offset (abs_cache h c) = kc_offset (kh_cache h c)"
    using length_kv_State [OF inv_cache [OF inv]] by (simp add: kr_Offset_def abs_cache_def)
  have q: "captures q = {}" "sched_good h q"
    using prepare_Some [OF Some] inv_cache [OF inv, of c] by (auto simp: captures_def sched_good_def cache_good_def Let_def)
  have "kr_Prepare offs (abs_cache h c) = Some ((abs_cache h c)\<lparr>kr_snapshots := abs_sched h q\<rparr>)"
    unfolding kr_Prepare_def off using Some by (simp add: abs_cache_def prepare_abs)
  then show ?thesis using set_sched_refines [OF inv q(2), of c] q(1) Some by (simp add: kv_PrepareSnapshots_def)
qed

lemma kv_Take_refines:
  assumes inv: "kv_inv h"
  shows "let (h', taken) = kv_TakeSnapshots c h; (r, promised) = kr_Take (abs_cache h c)
    in refines X c h h' r \<and> abs_layers h' taken = promised \<and>
       (\<forall>s. Some s \<in> set taken \<longrightarrow> held h' (ss_data s))"
proof -
  define q where "q = snd (take_captured (kc_snapshots (kh_cache h c)))"
  define h' where "h' = upd_cache c (\<lambda>kc. kc\<lparr>kc_snapshots := q\<rparr>) h"
  have "captures q = {}" "sched_good h q" using inv_cache [OF inv, of c]
    by (auto simp: q_def take_captured_def captures_def sched_good_def cache_good_def Let_def)
  then have r: "refines X c h h' ((abs_cache h c)\<lparr>kr_snapshots := abs_sched h q\<rparr>)" "denote h' = denote h" for X
    using set_sched_refines [OF inv, of q c X] set_sched_inv [OF inv, of q c] by (auto simp: h'_def)
  have "held h' (ss_data s)" if "Some s \<in> set (fst (take_captured (kc_snapshots (kh_cache h c))))" for s
  proof -
    have a: "ss_data s \<in> captures (kc_snapshots (kh_cache h c))"
      using that by (cases "pn_captured (kc_snapshots (kh_cache h c))") (auto simp: take_captured_def captures_def)
    then have "ss_data s \<notin> captures (kc_snapshots (kh_cache h d))" if "d \<noteq> c" for d
      using inv that by (auto simp: kv_inv_def caps_apart_def)
    then show ?thesis using inv_captured [OF inv a] \<open>captures q = {}\<close> by (simp add: held_def live_denote r(2)) (simp add: h'_def)
  qed
  moreover have "abs_layers h' ss = abs_layers h ss" for ss by (simp add: abs_layers_def the_data_def r(2))
  ultimately show ?thesis
    using r(1) by (simp add: kv_TakeSnapshots_def kr_Take_def case_prod_beta take_abs abs_cache_def live_denote r(2) flip: q_def h'_def)
qed

section \<open>Restoring\<close>

lemma write_sim_refines: "write_sim c h h' \<Longrightarrow>
    refines X c h h' ((abs_cache h c)\<lparr>kr_rows := kv_State (kh_cache h' c)\<rparr>)"
  using write_sim_frame [of c h h' X] write_sim_abs [of c h h'] write_sim_sched [of c h h']
  by (simp add: refines_def abs_cache_def) (simp add: write_sim_def)

lemma set_offset_sim:
  assumes inv: "kv_inv h" and t: "0 \<le> t" "t \<le> int (length (kc_slots (kh_cache h c)))"
  shows "write_sim c h (set_offset c t h) \<and> kv_State (kh_cache (set_offset c t h) c) = take (nat t) (kc_slots (kh_cache h c))"
proof -
  have e: "set_offset c t h = upd_cache c (\<lambda>_. (kh_cache h c)\<lparr>kc_offset := t\<rparr>) h" by (simp add: set_offset_def upd_cache_def)
  have "write_sim c h (set_offset c t h)"
    unfolding e by (rule upd_cache_sim [OF inv])
      (use inv_cache [OF inv, of c] t in \<open>auto simp: cache_good_def Let_def elim: inv_lazy [OF inv]\<close>)
  moreover have "kv_State ((kh_cache h c)\<lparr>kc_offset := t\<rparr>) = take (nat t) (kc_slots (kh_cache h c))"
    using t(1) by (simp add: kv_State_take)
  ultimately show ?thesis by (simp add: set_offset_def)
qed

lemma abs_refl: "kv_inv h \<Longrightarrow> refines X c h h (abs_cache h c)"
  by (simp add: refines_def kv_frame_refl)

lemma abs_rows: "kr_rows (abs_cache h c) = kv_State (kh_cache h c)"
  by (simp add: abs_cache_def)

lemma kr_Offset_abs: "kv_inv h \<Longrightarrow> kr_Offset (abs_cache h c) = kc_offset (kh_cache h c)"
  using length_kv_State [OF inv_cache] by (simp add: kr_Offset_def abs_rows)

lemma kv_Restore_live:
  assumes inv: "kv_inv h"
  shows "let (h', ok) = kv_Restore zero nb c None t h; (r, ok') = kr_Restore None t (abs_cache h c) in refines X c h h' r \<and> ok = ok'"
proof (cases "t < 0 \<or> t > kc_offset (kh_cache h c)")
  case True
  then show ?thesis by (auto simp: kv_Restore_def kr_Restore_def kr_Offset_abs [OF inv] abs_refl inv)
next
  case False
  have c: "0 \<le> kc_offset (kh_cache h c)" "kc_offset (kh_cache h c) \<le> int (length (kc_slots (kh_cache h c)))"
    using inv_cache [OF inv, of c] by (simp_all add: cache_good_def Let_def)
  then have s: "write_sim c h (set_offset c t h)" "kv_State (kh_cache (set_offset c t h) c) = take (nat t) (kc_slots (kh_cache h c))"
    using set_offset_sim [OF inv, of t c] False by simp_all
  have "take (nat t) (kc_slots (kh_cache h c)) = take (nat t) (kv_State (kh_cache h c))"
    using nat_mono [of t "kc_offset (kh_cache h c)"] c(1) False by (simp add: kv_State_take min_def)
  then show ?thesis using write_sim_refines [OF s(1), of X] s(2) False
    by (simp add: kv_Restore_def kr_Restore_def kr_Offset_abs [OF inv] abs_rows)
qed

lemma kv_Restore_snap:
  assumes inv: "kv_inv h" and a: "live h a"
  shows "let (h', ok) = kv_Restore zero nb c (Some a) t h; (r, ok') = kr_Restore (denote h a) t (abs_cache h c)
    in refines X c h h' r \<and> ok = ok'"
proof -
  obtain s d where s: "kh_snap h a = Some s" "denote h a = Some d" using a by (auto simp: live_def denote_def)
  note d = denote_to [OF inv s]
  have rg: "0 \<le> ks_fromOffset s" "ks_fromOffset s < ks_toOffset s" using inv_range [OF inv s(1)] by simp_all
  have c: "0 \<le> kc_offset (kh_cache h c)" "kc_offset (kh_cache h c) \<le> int (length (kc_slots (kh_cache h c)))"
    using inv_cache [OF inv, of c] by (simp_all add: cache_good_def Let_def)
  show ?thesis
  proof (cases "t < 0 \<or> t > ks_toOffset s \<or> kc_offset (kh_cache h c) < ks_fromOffset s")
    case True
    then show ?thesis using s d by (auto simp: kv_Restore_def kr_Restore_def kr_Offset_abs [OF inv] abs_refl inv)
  next
    case False
    have r: "kr_Restore (denote h a) t (abs_cache h c) =
        ((abs_cache h c)\<lparr>kr_rows := take (nat t) (take (nat (ks_fromOffset s)) (kv_State (kh_cache h c)) @ snap_rows h s)\<rparr>, True)"
      using False s(2) d by (simp add: kr_Restore_def kr_Offset_abs [OF inv] abs_rows)
    have pre: "take (nat (ks_fromOffset s)) (kv_State (kh_cache h c)) = take (nat (ks_fromOffset s)) (kc_slots (kh_cache h c))"
      using nat_mono [of "ks_fromOffset s" "kc_offset (kh_cache h c)"] False c rg by (simp add: kv_State_take min_def)
    show ?thesis
    proof (cases "ks_cache s = Some c \<and> ks_keys s = None")
      case True
      have to: "ks_toOffset s \<le> int (length (kc_slots (kh_cache h c)))" by (rule inv_lazy [OF inv s(1)]) (use True in simp_all)
      have "take (nat (ks_fromOffset s)) (kc_slots (kh_cache h c)) @ snap_rows h s = take (nat (ks_toOffset s)) (kc_slots (kh_cache h c))"
        using True append_slice [of "ks_fromOffset s" "ks_toOffset s" "kc_slots (kh_cache h c)"] rg
        by (simp add: snap_rows_def) (simp add: slice_def)
      moreover have "min (nat t) (nat (ks_toOffset s)) = nat t"
        using False nat_mono [of t "ks_toOffset s"] by (simp add: min_def)
      moreover have "write_sim c h (set_offset c t h)" "kv_State (kh_cache (set_offset c t h) c) = take (nat t) (kc_slots (kh_cache h c))"
        using set_offset_sim [OF inv, of t c] False to by simp_all
      moreover have "kv_Restore zero nb c (Some a) t h = (set_offset c t h, True)"
        using s(1) False True by (simp add: kv_Restore_def min_def)
      ultimately show ?thesis using write_sim_refines [of c h "set_offset c t h" X] unfolding r pre by (simp only: take_take) simp
    next
      case own: False
      define h1 where "h1 = copyOut nb a h"
      define h2 where "h2 = set_offset c (ks_fromOffset s) h1"
      define h3 where "h3 = appendKV zero nb c (snap_rows h s) h2"
      define h4 where "h4 = (if t < kc_offset (kh_cache h3 c) then set_offset c t h3 else h3)"
      note co = copyOut_sim [OF inv s(1), of nb, folded h1_def]
      then have inv1: "kv_inv h1" and sb: "same_buffers h h1" by (simp_all add: kv_sim_def)
      have sl: "kc_slots (kh_cache h1 c) = kc_slots (kh_cache h c)" by (rule same_buffers_slots [OF sb])
      have 2: "write_sim c h1 h2" "kv_State (kh_cache h2 c) = take (nat (ks_fromOffset s)) (kc_slots (kh_cache h c))"
        using set_offset_sim [OF inv1, of "ks_fromOffset s" c] rg False c sl by (simp_all add: h2_def)
      have inv2: "kv_inv h2" using 2(1) by (simp add: write_sim_def)
      have 3: "write_sim c h2 h3" "kv_State (kh_cache h3 c) = take (nat (ks_fromOffset s)) (kc_slots (kh_cache h c)) @ snap_rows h s"
        using appendKV_sim [OF inv2, of c zero nb "snap_rows h s"] 2(2) by (simp_all add: h3_def)
      have inv3: "kv_inv h3" using 3(1) by (simp add: write_sim_def)
      have "int (min (length (kc_slots (kh_cache h c))) (nat (ks_fromOffset s))) = ks_fromOffset s"
      proof -
        have "nat (ks_fromOffset s) \<le> length (kc_slots (kh_cache h c))" using rg False c by linarith
        then show ?thesis using rg by (simp add: min_absorb2)
      qed
      then have off: "kc_offset (kh_cache h3 c) = ks_toOffset s"
        using length_kv_State [OF inv_cache [OF inv3], of c] 3(2) length_snap_rows [OF inv s(1)] by simp
      have 4: "write_sim c h3 h4 \<and> kv_State (kh_cache h4 c) = take (nat t) (kv_State (kh_cache h3 c))"
      proof (cases "t < kc_offset (kh_cache h3 c)")
        case True
        have c3: "kc_offset (kh_cache h3 c) \<le> int (length (kc_slots (kh_cache h3 c)))"
          using inv_cache [OF inv3, of c] by (simp add: cache_good_def Let_def)
        have "take (nat t) (kc_slots (kh_cache h3 c)) = take (nat t) (kv_State (kh_cache h3 c))"
          using True False by (simp add: kv_State_take off min_def)
        then show ?thesis using set_offset_sim [OF inv3, of t c] True False c3 by (simp add: h4_def)
      next
        case nt: False
        then have "int (length (kv_State (kh_cache h3 c))) = t"
          using length_kv_State [OF inv_cache [OF inv3], of c] off False by simp
        then have "take (nat t) (kv_State (kh_cache h3 c)) = kv_State (kh_cache h3 c)" by simp
        then show ?thesis using nt inv3 by (simp add: h4_def write_sim_def)
      qed
      have "kv_Restore zero nb c (Some a) t h = (h4, True)"
      proof -
        obtain s' where s': "kh_snap h1 a = Some s'" "ks_keys s' = Some (snap_rows h s)" using co by blast
        moreover have "kh_snap h2 a = kh_snap h1 a" by (simp add: h2_def set_offset_def)
        ultimately have "(case kh_snap h2 a of Some s \<Rightarrow> (case ks_keys s of Some rows \<Rightarrow> rows | None \<Rightarrow> []) | None \<Rightarrow> []) = snap_rows h s"
          by simp
        then show ?thesis using s(1) False own
          by (simp add: kv_Restore_def Let_def flip: h1_def) (auto simp: h4_def h3_def simp flip: h2_def)
      qed
      moreover have "write_sim c h h4"
        using write_sim_trans [OF kv_sim_write write_sim_trans [OF 2(1) write_sim_trans [OF 3(1)]]] co 4 by blast
      ultimately show ?thesis using write_sim_refines [of c h h4 X] 4 3(2) unfolding r pre by simp
    qed
  qed
qed

end
