(* ===== verification/KVLazy.thy ===== *)
theory KVLazy
  imports KVExec
begin

text \<open>
  Merging, splitting, closing and freeing in the store; then any operation, and any history: what a snapshot denotes does not
  change until it is handed back.
\<close>

section \<open>Merging and splitting\<close>

lemma kv_sim_held: "kv_sim h h' \<Longrightarrow> held h' a \<longleftrightarrow> held h a"
  using same_buffers_captures [of h h'] by (auto simp: kv_sim_def held_def live_denote)

lemma frame_refines:
  assumes "kv_inv h" "kv_frame X h h'" "same_buffers h h'" "\<And>a. a \<in> X \<Longrightarrow> held h a"
  shows "refines X c h h' (abs_cache h c)"
  using frame_buffers_abs [OF assms] assms(2) by (simp add: refines_def)

lemma replace_two:
  assumes inv: "kv_inv h" and a: "added d h h1" and held: "held h p" "held h q" "p \<noteq> q"
  shows "kv_frame {p, q} h (kv_Close q (kv_Close p h1)) \<and> same_buffers h (kv_Close q (kv_Close p h1)) \<and>
    handed (kv_Close q (kv_Close p h1)) (Some (kh_next h)) (Some d)"
proof -
  have n: "kh_next h \<noteq> p" "kh_next h \<noteq> q" using held(1,2) dead_next [OF inv] by (auto simp: held_def)
  have 1: "kv_inv h1" using a by (simp add: added_def)
  have r1: "removed p h1 (kv_Close p h1)" using added_held [OF a inv] held by (intro kv_Close_removed 1) simp
  then have 2: "kv_inv (kv_Close p h1)" by (simp add: removed_def)
  have r2: "removed q (kv_Close p h1) (kv_Close q (kv_Close p h1))"
    using added_held [OF a inv] removed_held [OF r1] held by (intro kv_Close_removed 2) simp
  let ?h = "kv_Close q (kv_Close p h1)"
  have "kv_frame {p, q} h ?h"
    by (intro kv_frame_trans [OF added_frame [OF a inv] kv_frame_trans [OF removed_frame [OF r1] removed_frame [OF r2]]]) simp_all
  moreover have "same_buffers h ?h" using a r1 r2 by (auto simp: added_def removed_def intro: same_buffers_trans)
  moreover have "held ?h (kh_next h)" using added_held [OF a inv] removed_held [OF r1] removed_held [OF r2] n by simp
  moreover have "denote ?h (kh_next h) = Some d" using a r1 r2 n by (simp add: added_def removed_def)
  ultimately show ?thesis by (simp add: handed_def)
qed

lemma kv_Merge_refines:
  assumes inv: "kv_inv h" and held: "held h p" "held h q" and d: "denote h p = Some dp" "denote h q = Some dq" "kd_to dp = kd_from dq"
  shows "let (h', s) = kv_Merge nb (Some p) (Some q) h
    in refines {p, q} c h h' (abs_cache h c) \<and> handed h' s (kr_Merge (Some dp) (Some dq))"
proof -
  obtain sp sq where s: "kh_snap h p = Some sp" "kh_snap h q = Some sq" using held by (auto simp: held_def live_def)
  note dp = denote_to [OF inv s(1) d(1)] and dq = denote_to [OF inv s(2) d(2)]
  have rp: "0 \<le> ks_fromOffset sp" "ks_fromOffset sp < ks_toOffset sp" and rq: "ks_fromOffset sq < ks_toOffset sq"
    using inv_range [OF inv s(1)] inv_range [OF inv s(2)] by simp_all
  have adj: "ks_toOffset sp = ks_fromOffset sq" using dp dq d(3) by simp
  have ne: "p \<noteq> q" using s rp adj by auto
  have m: "kr_Merge (Some dp) (Some dq) = Some \<lparr>kd_from = ks_fromOffset sp, kd_rows = snap_rows h sp @ snap_rows h sq\<rparr>"
    using dp dq by (simp add: kr_Merge_def)
  show ?thesis
  proof (cases "ks_keys sp = None \<and> ks_keys sq = None \<and> ks_cache sp = ks_cache sq")
    case True
    obtain e where e: "ks_cache sp = Some e" using inv_lazy [OF inv s(1)] True by metis
    have e': "ks_cache sq = Some e" using e True by simp
    have to: "ks_toOffset sq \<le> int (length (kc_slots (kh_cache h e)))"
      by (rule inv_lazy [OF inv s(2)]) (use True e in simp_all)
    define h1 where "h1 = addLazySnapshot e (kh_next h) (fst (new_snap \<lparr>ks_keys = None, ks_fromOffset = ks_fromOffset sp,
        ks_toOffset = ks_toOffset sq, ks_cache = Some e, ks_onMaterialize = False\<rparr> h))"
    have "snap_rows h sp @ snap_rows h sq = slice (ks_fromOffset sp) (ks_toOffset sq) (kc_slots (kh_cache h e))"
      using True e e' rp rq adj slice_slice_join [of "ks_fromOffset sp" "ks_toOffset sp" "ks_toOffset sq" "kc_slots (kh_cache h e)"]
      by (simp add: snap_rows_def)
    then have a: "added \<lparr>kd_from = ks_fromOffset sp, kd_rows = snap_rows h sp @ snap_rows h sq\<rparr> h h1"
      unfolding h1_def using new_lazy [OF inv rp(1) _ to] rp rq adj by simp
    have k: "kv_Merge nb (Some p) (Some q) h = (kv_Close q (kv_Close p h1), Some (kh_next h))"
    proof -
      have "ks_keys sp = None" "ks_keys sq = None" using True by simp_all
      then show ?thesis by (simp add: kv_Merge_def h1_def Let_def new_snap_def s e e' adj)
    qed
    note t = replace_two [OF inv a held ne]
    have "refines {p, q} c h (kv_Close q (kv_Close p h1)) (abs_cache h c)"
      by (rule frame_refines [OF inv]) (use t held in blast)+
    then show ?thesis using t by (simp add: k m)
  next
    case False
    define h1 where "h1 = copyOut nb p h"
    define h2 where "h2 = copyOut nb q h1"
    note c1 = copyOut_sim [OF inv s(1), of nb, folded h1_def]
    have inv1: "kv_inv h1" using c1 by (simp add: kv_sim_def)
    have s1: "kh_snap h1 q = Some sq" using c1 ne s(2) by simp
    note c2 = copyOut_sim [OF inv1 s1, of nb, folded h2_def]
    have sim: "kv_sim h h2" by (rule kv_sim_trans [OF conjunct1 [OF c1] conjunct1 [OF c2]])
    have inv2: "kv_inv h2" using sim by (simp add: kv_sim_def)
    have rq': "snap_rows h1 sq = snap_rows h sq" using c1 by (intro same_buffers_rows) (simp add: kv_sim_def)
    have rows: "owned_rows p h2 = snap_rows h sp" "owned_rows q h2 = snap_rows h sq"
      using c1 c2 ne rq' by (auto simp: owned_rows_def)
    define h3 where "h3 = fst (new_snap \<lparr>ks_keys = Some (snap_rows h sp @ snap_rows h sq), ks_fromOffset = ks_fromOffset sp,
        ks_toOffset = ks_toOffset sq, ks_cache = None, ks_onMaterialize = False\<rparr> h2)"
    have len: "int (length (snap_rows h sp @ snap_rows h sq)) = ks_toOffset sq - ks_fromOffset sp"
      using length_snap_rows [OF inv s(1)] length_snap_rows [OF inv s(2)] adj by simp
    have a: "added \<lparr>kd_from = ks_fromOffset sp, kd_rows = snap_rows h sp @ snap_rows h sq\<rparr> h2 h3"
      unfolding h3_def by (rule new_owned [OF inv2 rp(1) _ len]) (use rp rq adj in simp)
    have k: "kv_Merge nb (Some p) (Some q) h = (kv_Close q (kv_Close p h3), Some (kh_next h2))"
    proof -
      have "new_snap \<lparr>ks_keys = Some (snap_rows h sp @ snap_rows h sq), ks_fromOffset = ks_fromOffset sp,
          ks_toOffset = ks_toOffset sq, ks_cache = None, ks_onMaterialize = False\<rparr> h2 = (h3, kh_next h2)"
        by (simp add: h3_def new_snap_def)
      then show ?thesis using False adj by (auto simp: kv_Merge_def s Let_def rows simp flip: h1_def h2_def)
    qed
    have held2: "held h2 p" "held h2 q" using kv_sim_held [OF sim] held by simp_all
    note t = replace_two [OF inv2 a held2 ne]
    let ?h = "kv_Close q (kv_Close p h3)"
    have "kv_frame {p, q} h ?h" using kv_frame_trans [OF kv_sim_frame [OF sim]] t by blast
    moreover have "same_buffers h ?h" using t sim by (auto simp: kv_sim_def intro: same_buffers_trans)
    ultimately have "refines {p, q} c h ?h (abs_cache h c)" by (rule frame_refines [OF inv]) (use held in blast)
    then show ?thesis using t by (simp add: k m)
  qed
qed

lemma kv_Close_refines:
  assumes "kv_inv h" "held h a" "a \<in> X" "\<And>b. b \<in> X \<Longrightarrow> held h b"
  shows "refines X c h (kv_Close a h) (abs_cache h c)"
  using frame_refines [OF assms(1) removed_frame [OF kv_Close_removed [OF assms(1,2)] assms(3)]] assms(4)
    kv_Close_removed [OF assms(1,2)] by (simp add: removed_def)

text \<open>Two new snapshots for an old one.\<close>

lemma replace_one:
  assumes inv: "kv_inv h" and a1: "added d1 h h1" and a2: "added d2 h1 h2" and held: "held h a"
  shows "kv_frame {a} h (kv_Close a h2) \<and> same_buffers h (kv_Close a h2) \<and>
    handed (kv_Close a h2) (Some (kh_next h)) (Some d1) \<and> handed (kv_Close a h2) (Some (Suc (kh_next h))) (Some d2)"
proof -
  have n: "kh_next h \<noteq> a" "Suc (kh_next h) \<noteq> a" using held live_less [OF inv, of a] by (auto simp: held_def)
  have 1: "kv_inv h1" "kh_next h1 = Suc (kh_next h)" and 2: "kv_inv h2" using a1 a2 by (simp_all add: added_def)
  note hh = added_held [OF a1 inv] added_held [OF a2 1(1)]
  have r: "removed a h2 (kv_Close a h2)" using hh held by (intro kv_Close_removed 2) simp
  have "kv_frame {a} h (kv_Close a h2)"
    by (intro kv_frame_trans [OF added_frame [OF a1 inv] kv_frame_trans [OF added_frame [OF a2 1(1)] removed_frame [OF r]]]) simp
  moreover have "same_buffers h (kv_Close a h2)" using a1 a2 r by (auto simp: added_def removed_def intro: same_buffers_trans)
  moreover have "held (kv_Close a h2) (kh_next h)" "held (kv_Close a h2) (Suc (kh_next h))"
    using hh removed_held [OF r] n 1(2) by simp_all
  moreover have "denote (kv_Close a h2) (kh_next h) = Some d1" "denote (kv_Close a h2) (Suc (kh_next h)) = Some d2"
    using a1 a2 r n 1(2) by (simp_all add: added_def removed_def)
  ultimately show ?thesis by (simp add: handed_def)
qed

lemma kv_Split_refines:
  assumes inv: "kv_inv h" and held: "held h a" and d: "denote h a = Some d"
  shows "let (h', p, q) = kv_Split (Some a) at h; (dp, dq) = kr_Split (Some d) at
    in refines {a} c h h' (abs_cache h c) \<and> handed h' p dp \<and> handed h' q dq"
proof -
  obtain s where s: "kh_snap h a = Some s" using held by (auto simp: held_def live_def)
  note d' = denote_to [OF inv s d]
  have rg: "0 \<le> ks_fromOffset s" "ks_fromOffset s < ks_toOffset s" using inv_range [OF inv s] by simp_all
  have len: "int (length (kd_rows d)) = ks_toOffset s - ks_fromOffset s" using d' kd_to_def [of d] by linarith
  define n where "n = at - ks_fromOffset s"
  consider "n \<le> 0" | "n \<ge> ks_toOffset s - ks_fromOffset s" "0 < n" | "0 < n" "n < ks_toOffset s - ks_fromOffset s" by linarith
  then show ?thesis
  proof cases
    case 1
    then show ?thesis using s d' held d by (simp add: kv_Split_def kr_Split_def Let_def n_def abs_refl inv handed_def)
  next
    case 2
    then show ?thesis using s d' len held d by (simp add: kv_Split_def kr_Split_def Let_def n_def abs_refl inv handed_def)
  next
    case 3
    define d1 where "d1 = \<lparr>kd_from = ks_fromOffset s, kd_rows = take (nat n) (snap_rows h s)\<rparr>"
    define d2 where "d2 = \<lparr>kd_from = at, kd_rows = drop (nat n) (snap_rows h s)\<rparr>"
    have r: "kr_Split (Some d) at = (Some d1, Some d2)"
      using 3 d' len by (simp add: kr_Split_def Let_def n_def d1_def d2_def)
    have at: "ks_fromOffset s < at" "at < ks_toOffset s" "0 \<le> at" using 3 rg by (simp_all add: n_def)
    have "\<exists>h1 h2. added d1 h h1 \<and> added d2 h1 h2 \<and> kv_Split (Some a) at h = (kv_Close a h2, Some (kh_next h), Some (Suc (kh_next h)))"
    proof (cases "ks_keys s")
      case None
      obtain e where e: "ks_cache s = Some e" "ks_toOffset s \<le> int (length (kc_slots (kh_cache h e)))"
        using inv_lazy [OF inv s None] by metis
      let ?s = "\<lambda>x y. \<lparr>ks_keys = None, ks_fromOffset = x, ks_toOffset = y, ks_cache = Some e, ks_onMaterialize = False\<rparr>"
      define h1 where "h1 = addLazySnapshot e (kh_next h) (fst (new_snap (?s (ks_fromOffset s) at) h))"
      define h2 where "h2 = addLazySnapshot e (kh_next h1) (fst (new_snap (?s at (ks_toOffset s)) h1))"
      have rows: "snap_rows h s = slice (ks_fromOffset s) (ks_toOffset s) (kc_slots (kh_cache h e))" using None e by (simp add: snap_rows_def)
      have "take (nat n) (snap_rows h s) = slice (ks_fromOffset s) at (kc_slots (kh_cache h e))"
        using 3 take_slice [of n "ks_toOffset s" "ks_fromOffset s"] nat_mono [of n "ks_toOffset s - ks_fromOffset s"] by (simp add: rows n_def)
      then have a1: "added d1 h h1" unfolding h1_def d1_def using new_lazy [OF inv rg(1) at(1), of e] e(2) at by simp
      then have inv1: "kv_inv h1" and sl: "kc_slots (kh_cache h1 e) = kc_slots (kh_cache h e)"
        by (simp_all add: added_def same_buffers_slots)
      have "drop (nat n) (snap_rows h s) = slice at (ks_toOffset s) (kc_slots (kh_cache h1 e))"
        using 3 drop_slice [OF rg(1), of n] by (simp add: rows n_def sl)
      then have a2: "added d2 h1 h2" unfolding h2_def d2_def using new_lazy [OF inv1 at(3,2), of e] e(2) by (simp add: sl)
      have "kv_Split (Some a) at h = (kv_Close a h2, Some (kh_next h), Some (Suc (kh_next h)))"
        using s None e(1) 3
        by (simp add: kv_Split_def Let_def n_def new_snap_def h1_def h2_def addLazySnapshot_def upd_cache_def upd_snap_def)
      then show ?thesis using a1 a2 by blast
    next
      case (Some rows)
      let ?s = "\<lambda>xs x y. \<lparr>ks_keys = Some xs, ks_fromOffset = x, ks_toOffset = y, ks_cache = None, ks_onMaterialize = False\<rparr>"
      have rows: "snap_rows h s = rows" using Some by (simp add: snap_rows_def)
      have l: "int (length rows) = ks_toOffset s - ks_fromOffset s" using len d' rows by simp
      define h1 where "h1 = fst (new_snap (?s (slice 0 n rows) (ks_fromOffset s) at) h)"
      define h2 where "h2 = fst (new_snap (?s (slice n (ks_toOffset s - ks_fromOffset s) rows) at (ks_toOffset s)) h1)"
      have t: "slice 0 n rows = take (nat n) rows" "slice n (ks_toOffset s - ks_fromOffset s) rows = drop (nat n) rows"
      proof -
        have "nat (int (length rows) - n) = length rows - nat n" using 3(1) by simp
        then show "slice n (ks_toOffset s - ks_fromOffset s) rows = drop (nat n) rows" unfolding l [symmetric] by (simp add: slice_def)
      qed (simp add: slice_def)
      have a1: "added d1 h h1"
        unfolding h1_def d1_def rows t by (rule new_owned [OF inv rg(1) at(1)]) (use 3 l in \<open>simp add: n_def\<close>)
      then have inv1: "kv_inv h1" by (simp add: added_def)
      have a2: "added d2 h1 h2"
        unfolding h2_def d2_def rows t by (rule new_owned [OF inv1 at(3,2)]) (use 3 l in \<open>simp add: n_def\<close>)
      have "kv_Split (Some a) at h = (kv_Close a h2, Some (kh_next h), Some (Suc (kh_next h)))"
        using s Some 3
        by (simp add: kv_Split_def Let_def n_def [symmetric] new_snap_def h1_def h2_def owned_rows_def upd_snap_def)
      then show ?thesis using a1 a2 by blast
    qed
    then obtain h1 h2 where h: "added d1 h h1" "added d2 h1 h2"
      "kv_Split (Some a) at h = (kv_Close a h2, Some (kh_next h), Some (Suc (kh_next h)))" by blast
    note t = replace_one [OF inv h(1,2) held]
    have "refines {a} c h (kv_Close a h2) (abs_cache h c)"
      by (rule frame_refines [OF inv]) (use t held in blast)+
    then show ?thesis using t by (simp add: h(3) r)
  qed
qed

end
