(* ===== verification/KVSpec.thy ===== *)
theory KVSpec
  imports KVLazy
begin

text \<open>
  Freeing; then the refinement of any operation, and what it means for a history: a snapshot keeps its rows until it is
  handed back, whatever the caches do to the buffers it names.
\<close>

section \<open>Freeing\<close>

lemma copy_all:
  assumes "kv_inv h" "\<forall>a \<in> set as. live h a"
  shows "kv_sim h (fold (copyOut nb) as h) \<and>
    set (kc_lazySnapshots (kh_cache (fold (copyOut nb) as h) c)) = set (kc_lazySnapshots (kh_cache h c)) - set as"
  using assms
proof (induction as arbitrary: h)
  case Nil
  then show ?case by (simp add: kv_sim_refl)
next
  case (Cons a as)
  obtain s where s: "kh_snap h a = Some s" using Cons.prems(2) by (auto simp: live_def)
  note 1 = copyOut_sim [OF Cons.prems(1) s, of nb]
  then have "kv_inv (copyOut nb a h)" "\<forall>b \<in> set as. live (copyOut nb a h) b"
    using Cons.prems(2) by (auto simp: kv_sim_def live_denote)
  from Cons.IH [OF this] 1 show ?case by (auto intro: kv_sim_trans)
qed

lemma kv_Free_refines:
  assumes inv: "kv_inv h"
  shows "refines X c h (kv_Free nb c h) (kr_Free (abs_cache h c))"
proof -
  define h1 where "h1 = fold (copyOut nb) (kc_lazySnapshots (kh_cache h c)) h"
  define kc where "kc = (kh_cache h1 c)\<lparr>kc_keys := None, kc_offset := 0\<rparr>"
  define h2 where "h2 = upd_cache c (\<lambda>_. kc) h1"
  define h3 where "h3 = upd_cache c (\<lambda>kc. kc\<lparr>kc_snapshots := sched_empty\<rparr>) h2"
  have "\<forall>a \<in> set (kc_lazySnapshots (kh_cache h c)). live h a" using inv_lazies [OF inv] by (auto simp: live_def)
  note 1 = copy_all [OF inv this, of nb c, folded h1_def]
  then have inv1: "kv_inv h1" by (simp add: kv_sim_def)
  have no: "kc_lazySnapshots (kh_cache h1 c) = []" using 1 by simp
  have 2: "write_sim c h1 h2"
    unfolding h2_def
  proof (rule upd_cache_sim [OF inv1])
    fix a s assume s: "kh_snap h1 a = Some s" "ks_keys s = None" "ks_cache s = Some c"
    obtain d where "ks_cache s = Some d" "a \<in> set (kc_lazySnapshots (kh_cache h1 d))" by (rule inv_lazy [OF inv1 s(1,2)])
    then have False using s(3) no by simp
    then show "ks_toOffset s \<le> int (length (kc_slots kc)) \<and>
      slice (ks_fromOffset s) (ks_toOffset s) (kc_slots kc) = slice (ks_fromOffset s) (ks_toOffset s) (kc_slots (kh_cache h1 c))" ..
  qed (use inv_cache [OF inv1, of c] in \<open>simp_all add: kc_def cache_good_def Let_def\<close>)
  then have inv2: "kv_inv h2" by (simp add: write_sim_def)
  have "sched_good h2 sched_empty" "captures (sched_empty :: nat schedule) = {}"
    by (auto simp: sched_good_def sched_empty_def captures_def)
  then have 3: "refines X c h2 h3 ((abs_cache h2 c)\<lparr>kr_snapshots := abs_sched h2 sched_empty\<rparr>)"
    unfolding h3_def by (intro set_sched_refines [OF inv2]) simp_all
  have e: "kv_Free nb c h = h3" by (simp add: kv_Free_def h3_def h2_def kc_def upd_cache_def flip: h1_def)
  have "kr_rows (abs_cache h2 c) = []" by (simp add: abs_rows h2_def kc_def kv_State_def slice_def kc_slots_def)
  then have "(abs_cache h2 c)\<lparr>kr_snapshots := abs_sched h2 sched_empty\<rparr> = kr_Free (abs_cache h c)"
    by (simp add: kr_Free_def kr_empty_def abs_sched_def sched_empty_def)
  moreover have "kv_frame X h h3"
    using 3 by (auto intro: kv_frame_trans [OF kv_sim_frame kv_frame_trans [OF write_sim_frame [OF 2]]] simp: refines_def 1)
  moreover have "abs_cache h3 d = abs_cache h d" if "d \<noteq> c" for d
    using 3 that write_sim_abs [OF 2 that] kv_sim_abs [of h h1 d] 1 by (simp add: refines_def)
  ultimately show ?thesis using 3 by (simp add: refines_def e)
qed

lemma SetMaterializeHook_sim:
  assumes inv: "kv_inv h"
  shows "kv_sim h (SetMaterializeHook a on h)"
proof -
  let ?h = "SetMaterializeHook a on h"
  have h: "kh_cache ?h = kh_cache h" "kh_next ?h = kh_next h" "\<And>b. kh_snap ?h b =
      map_option (\<lambda>s. if b = a then s\<lparr>ks_onMaterialize := on\<rparr> else s) (kh_snap h b)"
    by (simp_all add: SetMaterializeHook_def option.map_ident)
  have sb: "same_buffers h ?h" by (simp add: same_buffers_def h)
  have "sched_good ?h p \<longleftrightarrow> sched_good h p" for p by (simp add: sched_good_def live_def h(3) cong: option.case_cong)
  moreover have "\<exists>s. kh_snap ?h b = Some s \<and> ks_cache s = Some c \<and> ks_keys s = None" if b: "b \<in> set (kc_lazySnapshots (kh_cache h c))" for b c
  proof -
    obtain s where "kh_snap h b = Some s" "ks_cache s = Some c" "ks_keys s = None" using inv_lazies [OF inv b] by blast
    then show ?thesis by (simp add: h(3))
  qed
  ultimately have "cache_good ?h c" for c
    using inv_cache [OF inv, of c] by (simp add: cache_good_def Let_def h)
  moreover have "snap_good ?h b s" if "kh_snap ?h b = Some s" for b s
  proof -
    obtain t where t: "kh_snap h b = Some t" "s = (if b = a then t\<lparr>ks_onMaterialize := on\<rparr> else t)" using \<open>kh_snap ?h b = Some s\<close> h(3) by auto
    show ?thesis using inv_snap [OF inv t(1)] by (auto simp: t(2) snap_good_def h split: option.splits)
  qed
  moreover have "denote ?h b = denote h b" for b
  proof -
    have "snap_rows h (t\<lparr>ks_onMaterialize := on\<rparr>) = snap_rows h t" for t
      by (simp add: snap_rows_def split: option.split)
    then show ?thesis by (cases "kh_snap h b") (simp_all add: denote_def h(3) same_buffers_rows [OF sb])
  qed
  ultimately show ?thesis using sb same_buffers_apart [OF sb inv] by (simp add: kv_sim_def kv_inv_def fun_eq_iff)
qed

section \<open>Any operation\<close>

text \<open>What the client owes: it uses snapshots it has, merges adjacent ones, and asks for rows from an offset there can be.\<close>

fun op_fits :: "'r kvHeap \<Rightarrow> ('r, nat) kvOp \<Rightarrow> bool" where
  "op_fits h (SnapshotOp start) = (0 \<le> start)"
| "op_fits h (MergeOp (Some p) (Some q)) = (kd_to (the_data h p) = kd_from (the_data h q))"
| "op_fits h (MergeOp None (Some q)) = True"
| "op_fits h op' = True"

definition op_proper :: "'r kvHeap \<Rightarrow> ('r, nat) kvOp \<Rightarrow> bool" where
  "op_proper h op' \<longleftrightarrow> op_fits h op' \<and> (\<forall>a \<in> set2_kvOp op'. held h a)"

definition promised :: "'r kvHeap \<Rightarrow> nat \<Rightarrow> ('r, nat) kvOp \<Rightarrow> ('r kvRows, 'r kvData) outcome" where
  "promised h c op' = kr_exec (map_kvOp (\<lambda>x. x) (the_data h) op') (abs_cache h c)"

definition meets :: "'r kvHeap \<Rightarrow> nat \<Rightarrow> ('r, nat) kvOp \<Rightarrow> ('r kvHeap, nat) outcome \<Rightarrow> ('r kvRows, 'r kvData) outcome \<Rightarrow> bool" where
  "meets h c op' out want \<longleftrightarrow> (case out of
     None \<Rightarrow> want = None
   | Some (h', ss, ok) \<Rightarrow> (\<exists>r ds. want = Some (r, ds, ok) \<and> refines (op_consumes op') c h h' r \<and> list_all2 (handed h') ss ds))"

lemma data_held: "held h a \<Longrightarrow> denote h a = Some (the_data h a)"
  by (auto simp: held_def live_denote the_data_def)

lemma op_meets_promise:
  assumes inv: "kv_inv h" and p: "op_proper h op'"
  shows "meets h c op' (kv_exec zero nb c op' h) (promised h c op')"
proof (cases op')
  case (UpdateOp new)
  then show ?thesis using kv_Update_refines [OF inv] by (simp add: meets_def promised_def)
next
  case (SnapshotOp start)
  then show ?thesis using kv_Snapshot_refines [OF inv, of start "{}" c] p
    by (simp add: meets_def promised_def op_proper_def case_prod_beta)
next
  case (PrepareOp offsets)
  then show ?thesis using kv_Prepare_refines [OF inv, where c = c and offs = offsets and X = "{}"]
    by (cases "kv_PrepareSnapshots c offsets h") (auto simp: meets_def promised_def)
next
  case TakeOp
  obtain h' taken where t: "kv_TakeSnapshots c h = (h', taken)" by fastforce
  obtain r wanted where w: "kr_Take (abs_cache h c) = (r, wanted)" by fastforce
  have k: "refines {} c h h' r" "abs_layers h' taken = wanted" "\<And>s. Some s \<in> set taken \<Longrightarrow> held h' (ss_data s)"
    using kv_Take_refines [OF inv, of c "{}"] by (simp_all add: t w)
  have "list_all2 (handed h') (map (map_option ss_data) taken) (map (map_option ss_data) wanted)"
    unfolding k(2) [symmetric] abs_layers_def list_all2_conv_all_nth
  proof (intro conjI allI impI)
    fix i assume i: "i < length (map (map_option ss_data) taken)"
    show "handed h' (map (map_option ss_data) taken ! i)
        (map (map_option ss_data) (map (map_option (\<lambda>s. kr_new (the_data h' (ss_data s)))) taken) ! i)"
      using i k(3) nth_mem [of i taken] data_held [of h'] by (cases "taken ! i") (auto simp: handed_def kr_new_def)
  qed simp
  then show ?thesis using k(1) TakeOp by (simp add: meets_def promised_def t w)
next
  case (RestoreOp s t)
  then show ?thesis
  proof (cases s)
    case None
    then show ?thesis using kv_Restore_live [OF inv, of zero nb c t "{}"] RestoreOp
      by (simp add: meets_def promised_def case_prod_beta)
  next
    case (Some a)
    then have "held h a" using p RestoreOp by (simp add: op_proper_def)
    then show ?thesis using kv_Restore_snap [OF inv, of a zero nb c t "{}"] RestoreOp Some data_held [of h a]
      by (simp add: meets_def promised_def case_prod_beta held_def)
  qed
next
  case (MergeOp s t)
  show ?thesis
  proof (cases "s = None \<or> t = None")
    case True
    have "refines (op_consumes op') c h (close_opt t (close_opt s h)) (abs_cache h c)"
      using True p MergeOp kv_Close_refines [OF inv] abs_refl [OF inv]
      by (cases s; cases t) (auto simp: close_opt_def op_proper_def)
    then show ?thesis using True MergeOp
      by (cases s; cases t) (simp_all add: meets_def promised_def kv_Merge_def kr_Merge_def handed_def)
  next
    case False
    then obtain a b where ab: "s = Some a" "t = Some b" by auto
    then have h: "held h a" "held h b" "kd_to (the_data h a) = kd_from (the_data h b)" using p MergeOp by (auto simp: op_proper_def)
    have "op_consumes op' = {a, b}" by (simp add: MergeOp ab insert_commute)
    then show ?thesis using kv_Merge_refines [OF inv h(1,2) data_held [OF h(1)] data_held [OF h(2)] h(3), of nb c] MergeOp ab
      by (simp add: meets_def promised_def case_prod_beta)
  qed
next
  case (SplitOp s at)
  show ?thesis
  proof (cases s)
    case None
    then show ?thesis using SplitOp abs_refl [OF inv] by (simp add: meets_def promised_def kv_Split_def kr_Split_def handed_def)
  next
    case (Some a)
    then have "held h a" using p SplitOp by (simp add: op_proper_def)
    then show ?thesis using kv_Split_refines [OF inv, of a "the_data h a" at c] data_held [of h a] SplitOp Some
      by (simp add: meets_def promised_def case_prod_beta Let_def)
  qed
next
  case (CloseOp a)
  then have "held h a" using p by (simp add: op_proper_def)
  then show ?thesis using kv_Close_refines [OF inv, of a "{a}" c] CloseOp by (simp add: meets_def promised_def)
next
  case (HookOp a on)
  have s: "kv_sim h (SetMaterializeHook a on h)" by (rule SetMaterializeHook_sim [OF inv])
  then show ?thesis using HookOp kv_sim_frame [OF s, of "{}"] kv_sim_abs [OF s] by (simp add: meets_def promised_def refines_def)
next
  case FreeOp
  then show ?thesis using kv_Free_refines [OF inv] by (simp add: meets_def promised_def)
qed

section \<open>Histories\<close>

definition kv_start :: "'r kvHeap" where
  "kv_start = \<lparr>kh_cache = \<lambda>_. NewKVCache, kh_snap = \<lambda>_. None, kh_next = 0, kh_paged = 0\<rparr>"

text \<open>A proper operation on some cache that does not hand back the snapshot \<open>a\<close>, if there is one to keep.\<close>

inductive kv_step :: "'r \<Rightarrow> int \<Rightarrow> nat option \<Rightarrow> 'r kvHeap \<Rightarrow> 'r kvHeap \<Rightarrow> bool" for zero nb a where
  "op_proper h op' \<Longrightarrow> \<forall>x. a = Some x \<longrightarrow> x \<notin> op_consumes op' \<Longrightarrow> kv_exec zero nb c op' h = Some (h', ss, ok) \<Longrightarrow>
    kv_step zero nb a h h'"

definition kv_reach :: "'r \<Rightarrow> int \<Rightarrow> 'r kvHeap \<Rightarrow> bool" where
  "kv_reach zero nb h \<longleftrightarrow> (kv_step zero nb None)\<^sup>*\<^sup>* kv_start h"

lemma kv_start_inv: "kv_inv kv_start"
  by (simp add: kv_inv_def kv_start_def cache_good_def NewKVCache_def Let_def sched_good_def sched_empty_def captures_def
    caps_apart_def)

lemma kv_step_frame:
  assumes "kv_step zero nb a h h'" "kv_inv h"
  shows "kv_inv h' \<and> (\<forall>x. a = Some x \<longrightarrow> held h x \<longrightarrow> held h' x \<and> denote h' x = denote h x)"
  using assms(1)
proof cases
  case (1 op' c ss ok)
  from op_meets_promise [OF assms(2) 1(1), of c zero nb] have f: "kv_frame (op_consumes op') h h'"
    by (auto simp: meets_def 1(3) refines_def)
  show ?thesis
  proof (intro conjI allI impI)
    fix x assume x: "a = Some x" "held h x"
    then have "x \<notin> op_consumes op'" using 1(2) by simp
    then show "held h' x" "denote h' x = denote h x"
      using kv_frame_held [OF f x(2)] f x(2) by (simp_all add: kv_frame_def held_def)
  qed (use f in \<open>simp add: kv_frame_def\<close>)
qed

lemma kv_steps_frame:
  assumes "(kv_step zero nb a)\<^sup>*\<^sup>* h h'" "kv_inv h"
  shows "kv_inv h' \<and> (\<forall>x. a = Some x \<longrightarrow> held h x \<longrightarrow> held h' x \<and> denote h' x = denote h x)"
  using assms(1)
proof (induction rule: rtranclp_induct)
  case (step g g')
  then show ?case using kv_step_frame [OF step.hyps(2)] by auto
qed (simp add: assms(2))

lemma kv_reach_inv: "kv_reach zero nb h \<Longrightarrow> kv_inv h"
  using kv_steps_frame [of zero nb None kv_start h] kv_start_inv by (simp add: kv_reach_def)

text \<open>C5: In every state the caches get into, an operation on a cache (a write, a capture, a rewind, a restore, a split, a
  merge, a close, a free) does to the rows of that cache what the specification on plain lists of rows says, hands out
  snapshots that denote the rows the specification names, and changes neither what another cache holds nor what a snapshot
  denotes that it does not consume; it panics exactly when the specification has no result.\<close>

theorem kv_operations_refine_rows:
  assumes "kv_reach zero rowBytes h" "op_proper h op'"
  shows "case kv_exec zero rowBytes c op' h of
      None \<Rightarrow> kr_exec (map_kvOp (\<lambda>x. x) (the_data h) op') (abs_cache h c) = None
    | Some (h', ss, ok) \<Rightarrow>
        (\<exists>ds. kr_exec (map_kvOp (\<lambda>x. x) (the_data h) op') (abs_cache h c) = Some (abs_cache h' c, ds, ok) \<and>
           list_all2 (handed h') ss ds) \<and>
        (\<forall>d. d \<noteq> c \<longrightarrow> abs_cache h' d = abs_cache h d) \<and>
        (\<forall>a. held h a \<longrightarrow> a \<notin> op_consumes op' \<longrightarrow> held h' a \<and> denote h' a = denote h a)"
proof -
  have m: "meets h c op' (kv_exec zero rowBytes c op' h) (promised h c op')"
    by (rule op_meets_promise [OF kv_reach_inv [OF assms(1)] assms(2)])
  show ?thesis
  proof (cases "kv_exec zero rowBytes c op' h")
    case None
    then show ?thesis using m by (simp add: meets_def promised_def)
  next
    case (Some out)
    then obtain h' ss ok where o: "kv_exec zero rowBytes c op' h = Some (h', ss, ok)" by (cases out) auto
    then have f: "kv_frame (op_consumes op') h h'" using m by (auto simp: meets_def refines_def)
    have "\<forall>a. held h a \<longrightarrow> a \<notin> op_consumes op' \<longrightarrow> held h' a \<and> denote h' a = denote h a"
      using kv_frame_held [OF f] f by (simp add: kv_frame_def held_def)
    then show ?thesis using m by (simp add: o meets_def promised_def refines_def) blast
  qed
qed

text \<open>C6: A snapshot keeps its rows, from whatever state on: no write, growth, rewind, restore or free of any cache, and no
  operation on other snapshots, changes what it denotes, until it is itself closed, split or merged.\<close>

theorem snapshot_outlives_its_buffer:
  assumes "kv_reach zero rowBytes h" "held h a" "(kv_step zero rowBytes (Some a))\<^sup>*\<^sup>* h h'"
  shows "held h' a \<and> denote h' a = denote h a"
  using kv_steps_frame [OF assms(3) kv_reach_inv [OF assms(1)]] assms(2) by simp

section \<open>A rewind and a write over a snapshot\<close>

definition w_kv1 :: "int kvHeap" where
  "w_kv1 = kv_Update 0 8 0 [1, 2, 3] kv_start"

definition w_kv2 :: "int kvHeap" where
  "w_kv2 = fst (kv_Snapshot 0 0 w_kv1)"

definition w_kv3 :: "int kvHeap" where
  "w_kv3 = fst (kv_Restore 0 8 0 None 1 w_kv2)"

definition w_kv4 :: "int kvHeap" where
  "w_kv4 = kv_Update 0 8 0 [9, 9] w_kv3"

lemma w_kv_steps: "kv_step 0 8 a kv_start w_kv1" "kv_step 0 8 a w_kv1 w_kv2" "kv_step 0 8 a w_kv2 w_kv3" "kv_step 0 8 a w_kv3 w_kv4"
proof -
  show "kv_step 0 8 a kv_start w_kv1"
    by (rule kv_step.intros [of _ "UpdateOp [1, 2, 3]" _ _ _ 0]) (simp_all add: op_proper_def w_kv1_def)
  show "kv_step 0 8 a w_kv1 w_kv2"
    by (rule kv_step.intros [of _ "SnapshotOp 0" _ _ _ 0]) (simp_all add: op_proper_def w_kv2_def case_prod_beta)
  show "kv_step 0 8 a w_kv2 w_kv3"
    by (rule kv_step.intros [of _ "RestoreOp None 1" _ _ _ 0]) (simp_all add: op_proper_def w_kv3_def case_prod_beta)
  show "kv_step 0 8 a w_kv3 w_kv4"
    by (rule kv_step.intros [of _ "UpdateOp [9, 9]" _ _ _ 0]) (simp_all add: op_proper_def w_kv4_def)
qed

lemma w_kv_reach: "kv_reach 0 8 w_kv1" "kv_reach 0 8 w_kv2" "kv_reach 0 8 w_kv3"
  using w_kv_steps(1-3) [of None] unfolding kv_reach_def by (blast intro: rtranclp.rtrancl_into_rtrancl)+

lemma w_kv_held: "held w_kv2 0"
proof -
  have "snd (kv_Snapshot 0 0 w_kv1) = Some 0" by code_simp
  then show ?thesis using kv_Snapshot_refines [OF kv_reach_inv [OF w_kv_reach(1)], of 0 "{}" 0]
    by (simp add: handed_def w_kv2_def)
qed

theorem kv_operations_refine_rows_witness:
  "abs_cache w_kv4 0 = kr_Update [9, 9] (abs_cache w_kv3 0) \<and> kr_rows (abs_cache w_kv4 0) = [1, 9, 9]"
proof -
  have "kr_rows (abs_cache w_kv4 0) = [1, 9, 9]" by code_simp
  then show ?thesis using kv_operations_refine_rows [OF w_kv_reach(3), of "UpdateOp [9, 9]" 0] by (simp add: op_proper_def w_kv4_def)
qed

theorem snapshot_outlives_its_buffer_witness:
  "held w_kv4 0 \<and> denote w_kv4 0 = Some \<lparr>kd_from = 0, kd_rows = [1, 2, 3]\<rparr> \<and> kv_State (kh_cache w_kv4 0) = [1, 9, 9]"
proof -
  have r: "(kv_step 0 8 (Some 0))\<^sup>*\<^sup>* w_kv2 w_kv4"
    using w_kv_steps(3,4) by (rule converse_rtranclp_into_rtranclp [OF _ r_into_rtranclp])
  have "denote w_kv2 0 = Some \<lparr>kd_from = 0, kd_rows = [1, 2, 3]\<rparr>" by code_simp
  moreover have "kv_State (kh_cache w_kv4 0) = [1, 9, 9]" by code_simp
  ultimately show ?thesis using snapshot_outlives_its_buffer [OF w_kv_reach(2) w_kv_held r] by (simp only:)
qed

end
