(* ===== verification/Speculation.thy ===== *)
theory Speculation
  imports PrefixCache
begin

text \<open>
  \<open>mlxrunner/speculate.go\<close>: a round of speculative decoding.  The drafter proposes tokens, one forward pass of the model
  evaluates the current token with them, the longest prefix that survives rejection sampling is kept, and the caches are rolled
  back to it.  What the devices compute (the draft, the forward pass, which drafts survive, the tokens sampled at each possible
  end) and the grammar engine are arguments; so are the caches, by their operations.  A panic is \<open>None\<close>, closing a
  snapshot has no effect on the values it is modelled by.
\<close>

section \<open>Scheduling and rolling back\<close>

definition scheduleSpeculation :: "('c, 'd) cache_ops \<Rightarrow> 'c option list \<Rightarrow> int \<Rightarrow> nat \<Rightarrow> 'c option list option" where
  "scheduleSpeculation ops caches start draftCount = prepare_all ops (map (\<lambda>i. start + int i) [0..<draftCount]) caches"

definition commit_one :: "('c, 'd) cache_ops \<Rightarrow> nat \<Rightarrow> nat \<Rightarrow> int \<Rightarrow> 'c \<Rightarrow> 'c option" where
  "commit_one ops accepted draftCount start kv =
     (let target = start + int accepted; (kv, snaps) = co_TakeSnapshots ops kv
      in if accepted < draftCount then
           (case co_Restore ops kv None target of
              (kv, True) \<Rightarrow> Some kv
            | (kv, False) \<Rightarrow>
                (if accepted \<ge> length snaps then None
                 else (case co_Restore ops kv (snaps ! accepted) target of (kv, True) \<Rightarrow> Some kv | (_, False) \<Rightarrow> None)))
         else Some kv)"

definition commitSpeculation :: "('c, 'd) cache_ops \<Rightarrow> 'c option list \<Rightarrow> nat \<Rightarrow> nat \<Rightarrow> int \<Rightarrow> 'c option list option" where
  "commitSpeculation ops caches accepted draftCount start =
     those (map (\<lambda>kv. case kv of None \<Rightarrow> Some None | Some kv \<Rightarrow> map_option Some (commit_one ops accepted draftCount start kv)) caches)"

section \<open>Accepting\<close>

text \<open>What a round computes on the devices: the drafts, a flag for each whether it survives, the token sampled in place of
  each that does not, and the one after all of them.\<close>

record round_values =
  rv_draftIDs :: "32 word list"
  rv_acceptedFlags :: "int list"
  rv_residualTokens :: "32 word list"
  rv_bonusToken :: "32 word"

datatype specError = ErrMask | ErrAcceptedTooMany | ErrGrammar

text \<open>The result: the tokens to emit, the number of accepted drafts, the positions the acceptance model learns from, and the
  run that is reported to the drafter.\<close>

record round_result =
  ro_results :: "32 word list"
  ro_accepted :: nat
  ro_observed :: nat
  ro_reported :: "32 word list"
  ro_committed :: "32 word list"

text \<open>The loop that looks for an end-of-sequence token among the accepted drafts: the ids to commit, the accepted drafts, the
  positions that are observed, the drafts to keep in the caches, and whether the run is done.\<close>

fun cut_at_eos :: "(32 word \<Rightarrow> bool) \<Rightarrow> nat \<Rightarrow> 32 word list \<Rightarrow> 32 word list \<Rightarrow> nat \<times> nat \<times> nat \<Rightarrow> 32 word list \<times> nat \<times> nat \<times> nat \<times> bool" where
  "cut_at_eos isEOS i commitIDs [] (accepted, observed, keep) = (commitIDs, accepted, observed, keep, False)"
| "cut_at_eos isEOS i commitIDs (t # ts) (accepted, observed, keep) =
     (if isEOS t then (commitIDs @ [t], i + 1, i + 1, i, True)
      else cut_at_eos isEOS (i + 1) (commitIDs @ [t]) ts (accepted, observed, keep))"

text \<open>\<open>forward\<close> is what the forward pass does to the caches, \<open>masked\<close> whether masking for the grammar succeeded, and
  \<open>grammar\<close> whether it accepts a run of tokens (when there is one).  The deferred \<open>commit(0)\<close> runs on every early return.\<close>

definition accept ::
  "('c, 'd) cache_ops \<Rightarrow> (32 word \<Rightarrow> bool) \<Rightarrow> ('c option list \<Rightarrow> 'c option list) \<Rightarrow> bool \<Rightarrow> (32 word list \<Rightarrow> bool) \<Rightarrow>
     round_values \<Rightarrow> 32 word \<Rightarrow> int \<Rightarrow> 'c option list \<Rightarrow> ('c option list \<times> int \<times> (specError + round_result)) option" where
  "accept ops isEOS forward masked grammar rv current position caches =
     (let start = position; draftCount = length (rv_draftIDs rv)
      in case scheduleSpeculation ops caches (start + 1) draftCount of
           None \<Rightarrow> None
         | Some caches \<Rightarrow>
             (let caches = forward caches;
                  commit = (\<lambda>keep. commitSpeculation ops caches keep draftCount (start + 1));
                  failed = (\<lambda>e. map_option (\<lambda>caches. (caches, position, Inl e)) (commit 0))
              in if \<not> masked then failed ErrMask
                 else
                   (let accepted = length (takeWhile (\<lambda>ok. ok \<noteq> 0) (rv_acceptedFlags rv))
                    in if accepted > draftCount then failed ErrAcceptedTooMany
                       else
                         (let (commitIDs, accepted, observed, keep, done') =
                                cut_at_eos isEOS 0 [] (take accepted (rv_draftIDs rv)) (accepted, draftCount, accepted)
                          in case (if done' then Some None
                                   else if accepted < draftCount then
                                     (if accepted < length (rv_residualTokens rv) then Some (Some (rv_residualTokens rv ! accepted)) else None)
                                   else Some (Some (rv_bonusToken rv))) of
                               None \<Rightarrow> None
                             | Some next \<Rightarrow>
                                 (let commitIDs = commitIDs @ (case next of None \<Rightarrow> [] | Some t \<Rightarrow> [t])
                                  in if \<not> grammar commitIDs then failed ErrGrammar
                                     else map_option (\<lambda>caches. (caches, start + 1 + int keep, Inr
                                            \<lparr>ro_results = take accepted (rv_draftIDs rv) @ (case next of None \<Rightarrow> [] | Some t \<Rightarrow> [t]),
                                             ro_accepted = accepted, ro_observed = observed, ro_reported = current # take keep commitIDs,
                                             ro_committed = commitIDs\<rparr>)) (commit keep))))))"

section \<open>What a round emits\<close>

text \<open>The specification: the drafts that survive, up to the first that ends the sequence; if none does, the token sampled in
  place of the first that does not survive, or after all of them.\<close>

definition surviving :: "round_values \<Rightarrow> 32 word list" where
  "surviving rv = take (length (takeWhile (\<lambda>ok. ok \<noteq> 0) (rv_acceptedFlags rv))) (rv_draftIDs rv)"

definition emitted :: "(32 word \<Rightarrow> bool) \<Rightarrow> round_values \<Rightarrow> 32 word list" where
  "emitted isEOS rv =
     (case dropWhile (\<lambda>t. \<not> isEOS t) (surviving rv) of
        eos # _ \<Rightarrow> takeWhile (\<lambda>t. \<not> isEOS t) (surviving rv) @ [eos]
      | [] \<Rightarrow> surviving rv @ [if length (surviving rv) < length (rv_draftIDs rv)
                              then rv_residualTokens rv ! length (surviving rv) else rv_bonusToken rv])"

lemma cut_at_eos_eq:
  "cut_at_eos isEOS i ids ts (a, ob, k) =
     (case dropWhile (\<lambda>t. \<not> isEOS t) ts of
        [] \<Rightarrow> (ids @ ts, a, ob, k, False)
      | eos # _ \<Rightarrow> (let n = i + length (takeWhile (\<lambda>t. \<not> isEOS t) ts)
                   in (ids @ takeWhile (\<lambda>t. \<not> isEOS t) ts @ [eos], n + 1, n + 1, n, True)))"
proof (induction ts arbitrary: i ids)
  case (Cons t ts)
  have "\<not> (\<forall>x \<in> set ts. \<not> isEOS x)" if "dropWhile (\<lambda>t. \<not> isEOS t) ts = eos # es" for eos es
    using that by (metis dropWhile_eq_Nil_conv list.distinct(1))
  then show ?case using Cons.IH [of "i + 1" "ids @ [t]"]
    by (cases "dropWhile (\<lambda>t. \<not> isEOS t) ts") (auto simp: Let_def simp del: dropWhile_eq_Nil_conv)
qed simp

end
