(* ===== verification/RecurrentCache.thy ===== *)
theory RecurrentCache
  imports SnapshotSchedule PrefixCacheSteps
begin

text \<open>
  \<open>mlxrunner/cache/recurrent.go\<close>: the cache of a linear-recurrent layer.  Its state is cumulative, an array for the convolution
  and one for the recurrence, which are set and cleared together and so are a pair here.  Arrays are values, as nothing is
  written in place; their bytes, batch size and type, the zero state and the copy of a view are parameters.  A panic is
  \<open>None\<close>.  Scopes and the evaluation of arrays are left out.
\<close>

section \<open>Model\<close>

record 'a recurrentSnapshot =
  rs_state :: "'a \<times> 'a"
  rs_offset :: int
  rs_mayShareBacking :: bool

record 'a recurrentCache =
  rc_state :: "('a \<times> 'a) option"
  rc_offset :: int
  rc_needsCompact :: bool
  rc_snapshots :: "'a recurrentSnapshot schedule"

definition NewRecurrentCache :: "'a recurrentCache" where
  "NewRecurrentCache = \<lparr>rc_state = None, rc_offset = 0, rc_needsCompact = False, rc_snapshots = sched_empty\<rparr>"

definition newRecurrentSnapshot :: "('a \<Rightarrow> int) \<Rightarrow> 'a \<times> 'a \<Rightarrow> int \<Rightarrow> bool \<Rightarrow> 'a recurrentSnapshot snapshot" where
  "newRecurrentSnapshot bytes st offset mayShareBacking =
     \<lparr>ss_data = \<lparr>rs_state = st, rs_offset = offset, rs_mayShareBacking = mayShareBacking\<rparr>,
      ss_size = bytes (fst st) + bytes (snd st), ss_hook = False\<rparr>"

definition captureBoundary :: "('a \<Rightarrow> int) \<Rightarrow> int \<Rightarrow> ('a \<times> 'a) option \<Rightarrow> bool \<Rightarrow> 'a recurrentCache \<Rightarrow> 'a recurrentCache" where
  "captureBoundary bytes reached st mayShareBacking c =
     c\<lparr>rc_snapshots := captureReached reached
       (\<lambda>_. map_option (\<lambda>st. newRecurrentSnapshot bytes st reached mayShareBacking) st) (rc_snapshots c)\<rparr>"

definition rc_PrepareSnapshots :: "('a \<Rightarrow> int) \<Rightarrow> int list \<Rightarrow> 'a recurrentCache \<Rightarrow> 'a recurrentCache option" where
  "rc_PrepareSnapshots bytes offsets c =
     map_option (\<lambda>p. captureBoundary bytes (rc_offset c) (rc_state c) (rc_needsCompact c) (c\<lparr>rc_snapshots := p\<rparr>))
       (prepare (rc_offset c) offsets (rc_snapshots c))"

definition rc_TakeSnapshots :: "'a recurrentCache \<Rightarrow> 'a recurrentSnapshot layers \<times> 'a recurrentCache" where
  "rc_TakeSnapshots c = (let (taken, p) = take_captured (rc_snapshots c) in (taken, c\<lparr>rc_snapshots := p\<rparr>))"

definition SnapshotSplits :: "int \<Rightarrow> 'a recurrentCache \<Rightarrow> int list" where
  "SnapshotSplits forwardLen c =
     (let start = rc_offset c; end = start + forwardLen
      in map (\<lambda>o'. o' - start) (filter (\<lambda>o'. o' > start \<and> o' < end) (pn_offsets (rc_snapshots c))))"

definition rc_Get ::
  "(int \<Rightarrow> 't \<Rightarrow> 'a \<times> 'a) \<Rightarrow> ('a \<Rightarrow> int) \<Rightarrow> ('a \<Rightarrow> 't) \<Rightarrow> int \<Rightarrow> 't \<Rightarrow> 'a recurrentCache \<Rightarrow> ('a recurrentCache \<times> 'a \<times> 'a) option" where
  "rc_Get zeros dim0 dtypeOf batch dtype c =
     (let batch = (if batch \<le> 0 then 1 else batch)
      in case rc_state c of
           Some (conv, delta) \<Rightarrow> (if dim0 conv \<noteq> batch \<or> dtypeOf conv \<noteq> dtype then None else Some (c, conv, delta))
         | None \<Rightarrow> Some (c\<lparr>rc_state := Some (zeros batch dtype)\<rparr>, zeros batch dtype))"

text \<open>\<open>queryLen\<close> is the number of tokens of the forward pass, \<open>inputs\<close> the width of its input.\<close>

definition rc_Put ::
  "('a \<Rightarrow> int) \<Rightarrow> int \<Rightarrow> int \<Rightarrow> 'a list \<Rightarrow> 'a list \<Rightarrow> 'a recurrentCache \<Rightarrow> 'a recurrentCache option" where
  "rc_Put bytes queryLen inputs convStates deltaStates c =
     (if length convStates \<noteq> length deltaStates \<or> length convStates = 0 then None
      else
        (let start = rc_offset c; splits = SnapshotSplits queryLen c
         in if length splits \<noteq> length convStates - 1 then None
            else
              (let mayShareBacking = (length splits > 1 \<and> int (length splits) = inputs - 1);
                   c = fold (\<lambda>(s, st) c. captureBoundary bytes (start + s) (Some st) mayShareBacking c)
                         (zip splits (zip convStates deltaStates)) c;
                   c = c\<lparr>rc_state := Some (last convStates, last deltaStates), rc_needsCompact := False, rc_offset := rc_offset c + queryLen\<rparr>
               in Some (captureBoundary bytes (rc_offset c) (rc_state c) False c))))"

definition rc_State :: "'a recurrentCache \<Rightarrow> 'a option list" where
  "rc_State c =
     [map_option fst (rc_state c), map_option snd (rc_state c)] @
     concat (map (\<lambda>s. case s of None \<Rightarrow> [] | Some s \<Rightarrow> [Some (fst (rs_state (ss_data s))), Some (snd (rs_state (ss_data s)))])
       (case pn_captured (rc_snapshots c) of None \<Rightarrow> [] | Some ss \<Rightarrow> ss))"

definition PrepareCompaction :: "('a \<Rightarrow> 'a) \<Rightarrow> 'a recurrentCache \<Rightarrow> 'a option" where
  "PrepareCompaction contiguous c = (if \<not> rc_needsCompact c then None else map_option (\<lambda>st. contiguous (snd st)) (rc_state c))"

definition CommitCompaction :: "'a \<Rightarrow> 'a recurrentCache \<Rightarrow> 'a recurrentCache" where
  "CommitCompaction compact c = c\<lparr>rc_state := map_option (\<lambda>st. (fst st, compact)) (rc_state c), rc_needsCompact := False\<rparr>"

definition rc_Snapshot :: "('a \<Rightarrow> int) \<Rightarrow> 'a recurrentCache \<Rightarrow> 'a recurrentSnapshot snapshot option" where
  "rc_Snapshot bytes c = map_option (\<lambda>st. newRecurrentSnapshot bytes st (rc_offset c) (rc_needsCompact c)) (rc_state c)"

definition rc_Restore :: "'a recurrentSnapshot snapshot option \<Rightarrow> int \<Rightarrow> 'a recurrentCache \<Rightarrow> 'a recurrentCache \<times> bool" where
  "rc_Restore snapshot target c =
     (case snapshot of
        None \<Rightarrow> (c, target = rc_offset c)
      | Some s \<Rightarrow>
          (let snap = ss_data s
           in if target \<noteq> rs_offset snap then (c, False)
              else (c\<lparr>rc_state := Some (rs_state snap), rc_offset := rs_offset snap, rc_needsCompact := rs_mayShareBacking snap\<rparr>, True)))"

definition rc_Merge ::
  "'a recurrentSnapshot snapshot option \<Rightarrow> 'a recurrentSnapshot snapshot option \<Rightarrow> 'a recurrentSnapshot snapshot option" where
  "rc_Merge parent child = child"

definition rc_Split ::
  "'a recurrentSnapshot snapshot option \<Rightarrow> int \<Rightarrow> 'a recurrentSnapshot snapshot option \<times> 'a recurrentSnapshot snapshot option" where
  "rc_Split snapshot at = (None, snapshot)"

definition rc_Free :: "'a recurrentCache \<Rightarrow> 'a recurrentCache" where
  "rc_Free c = c\<lparr>rc_state := None, rc_offset := 0, rc_needsCompact := False, rc_snapshots := sched_empty\<rparr>"

definition recurrent_ops :: "('a \<Rightarrow> int) \<Rightarrow> ('a recurrentCache, 'a recurrentSnapshot) cache_ops" where
  "recurrent_ops bytes =
     \<lparr>co_Offset = rc_offset, co_Restore = (\<lambda>c s t. rc_Restore s t c), co_Free = rc_Free,
      co_Snapshot = (\<lambda>c _. rc_Snapshot bytes c), co_Split = (\<lambda>_ s. rc_Split (Some s)), co_Merge = (\<lambda>_. rc_Merge),
      co_PrepareSnapshots = (\<lambda>c offsets. rc_PrepareSnapshots bytes offsets c),
      co_TakeSnapshots = (\<lambda>c. (let (taken, c) = rc_TakeSnapshots c in (c, taken)))\<rparr>"

end
