(* ===== verification/RecurrentFaithful.thy ===== *)
theory RecurrentFaithful
  imports FaithfulRunner RecurrentCache
begin

text \<open>
  The recurrent cache is a faithful cache, one that cannot be rewound: it interprets \<open>faithful_cache\<close>.  The state after a
  sequence of keys is a function of the layer and the keys, the argument \<open>st\<close>: what the recurrent layer computes.
\<close>

section \<open>Captures of single states\<close>

text \<open>The offsets of \<open>D\<close> are captured, with data that \<open>V\<close> accepts, and no other.\<close>

definition cap_at :: "(int \<Rightarrow> 'd \<Rightarrow> bool) \<Rightarrow> int set \<Rightarrow> int list \<Rightarrow> 'd schedule \<Rightarrow> bool" where
  "cap_at V D offs p \<longleftrightarrow> pn_offsets p = offs \<and> (\<exists>ss. pn_captured p = Some ss \<and> length ss = length offs \<and>
     (\<forall>j < length offs. case ss ! j of None \<Rightarrow> offs ! j \<notin> D | Some s \<Rightarrow> offs ! j \<in> D \<and> V (offs ! j) (ss_data s)))"

lemma cap_at_prepare: "prepare cur offs p = Some q \<Longrightarrow> cap_at V {} offs q"
  by (drule prepare_Some) (auto simp: cap_at_def)

lemma cap_at_mono:
  assumes "cap_at V D offs p" "\<And>x d. x \<in> set offs \<Longrightarrow> x \<in> D \<Longrightarrow> V x d \<Longrightarrow> W x d"
  shows "cap_at W D offs p"
proof -
  obtain ss where ss: "pn_offsets p = offs" "pn_captured p = Some ss" "length ss = length offs"
    "\<And>j. j < length offs \<Longrightarrow> case ss ! j of None \<Rightarrow> offs ! j \<notin> D | Some s \<Rightarrow> offs ! j \<in> D \<and> V (offs ! j) (ss_data s)"
    using assms(1) by (auto simp: cap_at_def)
  have "case ss ! j of None \<Rightarrow> offs ! j \<notin> D | Some s \<Rightarrow> offs ! j \<in> D \<and> W (offs ! j) (ss_data s)" if "j < length offs" for j
    using ss(4) [OF that] assms(2) [OF nth_mem [OF that]] by (auto split: option.splits)
  then show ?thesis using ss(1-3) by (auto simp: cap_at_def)
qed

lemma captureReached_nth:
  assumes "pn_captured p = Some ss" "length ss = length (pn_offsets p)"
  shows "pn_offsets (captureReached r f p) = pn_offsets p \<and> (\<exists>ts. pn_captured (captureReached r f p) = Some ts \<and> length ts = length ss \<and>
    (\<forall>j < length ss. ts ! j = (if ss ! j = None \<and> pn_offsets p ! j = r then f r else ss ! j)))"
  using assms by (auto simp: captureReached_def Let_def)

lemma cap_at_step:
  assumes c: "cap_at V D offs p" and f: "\<And>s. f r = Some s \<Longrightarrow> V r (ss_data s)"
  shows "cap_at V (if f r = None then D else insert r D) offs (captureReached r f p)"
proof -
  obtain ss where ss: "pn_offsets p = offs" "pn_captured p = Some ss" "length ss = length offs"
    "\<And>j. j < length offs \<Longrightarrow> case ss ! j of None \<Rightarrow> offs ! j \<notin> D | Some s \<Rightarrow> offs ! j \<in> D \<and> V (offs ! j) (ss_data s)"
    using c by (auto simp: cap_at_def)
  have "length ss = length (pn_offsets p)" by (simp add: ss(1,3))
  from captureReached_nth [OF ss(2) this, of r f] obtain ts where ts: "pn_offsets (captureReached r f p) = offs"
    "pn_captured (captureReached r f p) = Some ts" "length ts = length offs"
    "\<And>j. j < length offs \<Longrightarrow> ts ! j = (if ss ! j = None \<and> offs ! j = r then f r else ss ! j)"
    using ss(1,3) by auto
  have "case ts ! j of None \<Rightarrow> offs ! j \<notin> (if f r = None then D else insert r D)
      | Some s \<Rightarrow> offs ! j \<in> (if f r = None then D else insert r D) \<and> V (offs ! j) (ss_data s)" if "j < length offs" for j
    using ss(4) [OF that] f ts(4) [OF that] by (cases "ss ! j"; cases "f r") auto
  then show ?thesis using ts(1-3) by (auto simp: cap_at_def)
qed

section \<open>The state of the keys\<close>

definition rec_covers :: "(nat \<Rightarrow> trieKey list \<Rightarrow> 'a \<times> 'a) \<Rightarrow> nat \<Rightarrow> nat \<Rightarrow> trieKey list \<Rightarrow> 'a recurrentSnapshot \<Rightarrow> bool" where
  "rec_covers st i k ks d \<longleftrightarrow> rs_offset d = int (length ks) \<and> rs_state d = st i ks"

definition rec_right :: "(nat \<Rightarrow> trieKey list \<Rightarrow> 'a \<times> 'a) \<Rightarrow> nat \<Rightarrow> trieKey list \<Rightarrow> int \<Rightarrow> 'a recurrentSnapshot \<Rightarrow> bool" where
  "rec_right st i ks x d \<longleftrightarrow> rs_offset d = x \<and> rs_state d = st i (take (nat x) ks)"

definition rec_holds :: "(nat \<Rightarrow> trieKey list \<Rightarrow> 'a \<times> 'a) \<Rightarrow> nat \<Rightarrow> trieKey list \<Rightarrow> 'a recurrentCache \<Rightarrow> bool" where
  "rec_holds st i ks c \<longleftrightarrow> rc_offset c = int (length ks) \<and> (case rc_state c of None \<Rightarrow> ks = [] | Some s \<Rightarrow> s = st i ks)"

text \<open>What is scheduled is captured when it is reached; at the offset of the call itself only if there is a state.\<close>

definition rec_scheduled ::
  "(nat \<Rightarrow> trieKey list \<Rightarrow> 'a \<times> 'a) \<Rightarrow> nat \<Rightarrow> int \<Rightarrow> int list \<Rightarrow> trieKey list \<Rightarrow> 'a recurrentSnapshot schedule \<Rightarrow> bool" where
  "rec_scheduled st i b offs ks p \<longleftrightarrow> 0 \<le> b \<and> b \<le> int (length ks) \<and> (\<forall>x \<in> set offs. b \<le> x) \<and>
     (\<exists>D. cap_at (rec_right st i ks) D offs p \<and> D \<subseteq> {..int (length ks)} \<and> set offs \<inter> {b<..int (length ks)} \<subseteq> D)"

definition rec_filled ::
  "(nat \<Rightarrow> trieKey list \<Rightarrow> 'a \<times> 'a) \<Rightarrow> nat \<Rightarrow> int \<Rightarrow> int list \<Rightarrow> trieKey list \<Rightarrow> 'a recurrentCache \<Rightarrow> bool" where
  "rec_filled st i b offs ks c \<longleftrightarrow> rec_holds st i ks c \<and>
     (if offs = [] then pn_offsets (rc_snapshots c) = [] \<and> pn_captured (rc_snapshots c) = None
      else rec_scheduled st i b offs ks (rc_snapshots c))"

text \<open>A forward pass of at least one token: the layer reads the state, cuts its kernel where the cache asks for it, and stores
  the state at each cut and at the end.\<close>

definition rec_pass ::
  "('a \<Rightarrow> int) \<Rightarrow> (nat \<Rightarrow> trieKey list \<Rightarrow> 'a \<times> 'a) \<Rightarrow> nat \<Rightarrow> trieKey list \<Rightarrow> trieKey list \<Rightarrow> 'a recurrentCache \<Rightarrow> 'a recurrentCache \<Rightarrow> bool" where
  "rec_pass bytes st i ks ms c c' \<longleftrightarrow>
     (\<exists>zeros dim0 dtypeOf batch dtype inputs c0.
        zeros batch dtype = st i [] \<and> rc_Get zeros dim0 (dtypeOf :: 'a \<Rightarrow> nat) batch dtype c = Some (c0, st i ks) \<and>
        (let states = map (\<lambda>n. st i (ks @ take (nat n) ms)) (SnapshotSplits (int (length ms)) c0 @ [int (length ms)])
         in rc_Put bytes (int (length ms)) inputs (map fst states) (map snd states) c0 = Some c'))"

definition rec_writes ::
  "('a \<Rightarrow> int) \<Rightarrow> (nat \<Rightarrow> trieKey list \<Rightarrow> 'a \<times> 'a) \<Rightarrow> nat \<Rightarrow> trieKey list \<Rightarrow> trieKey list \<Rightarrow> 'a recurrentCache \<Rightarrow> 'a recurrentCache \<Rightarrow> bool" where
  "rec_writes bytes st i ks ms c c' \<longleftrightarrow> (if ms = [] then c' = c else rec_pass bytes st i ks ms c c')"

section \<open>A forward pass\<close>

lemma captureBoundary_simps [simp]:
  "rc_state (captureBoundary bytes r s m c) = rc_state c" "rc_offset (captureBoundary bytes r s m c) = rc_offset c"
  "rc_snapshots (captureBoundary bytes r s m c) =
     captureReached r (\<lambda>_. map_option (\<lambda>st. newRecurrentSnapshot bytes st r m) s) (rc_snapshots c)"
  by (simp_all add: captureBoundary_def)

lemma captureReached_idle: "pn_offsets p = [] \<Longrightarrow> pn_captured p = None \<Longrightarrow> captureReached r f p = p"
  by (simp add: captureReached_def)

text \<open>The captures of the interior states.\<close>

definition interior :: "('a \<Rightarrow> int) \<Rightarrow> int \<Rightarrow> bool \<Rightarrow> (int \<times> 'a \<times> 'a) list \<Rightarrow> 'a recurrentCache \<Rightarrow> 'a recurrentCache" where
  "interior bytes start m xs c = fold (\<lambda>(s, st) c. captureBoundary bytes (start + s) (Some st) m c) xs c"

lemma interior_simps:
  "rc_state (interior bytes start m xs c) = rc_state c \<and> rc_offset (interior bytes start m xs c) = rc_offset c \<and>
    (pn_offsets (rc_snapshots c) = [] \<and> pn_captured (rc_snapshots c) = None \<longrightarrow> rc_snapshots (interior bytes start m xs c) = rc_snapshots c)"
  by (induction xs arbitrary: c) (auto simp: interior_def captureReached_idle)

lemma interior_captures:
  assumes "cap_at V D offs (rc_snapshots c)" "\<And>s st. (s, st) \<in> set xs \<Longrightarrow> V (start + s) \<lparr>rs_state = st, rs_offset = start + s, rs_mayShareBacking = m\<rparr>"
  shows "cap_at V (D \<union> (\<lambda>(s, _). start + s) ` set xs) offs (rc_snapshots (interior bytes start m xs c))"
  using assms
proof (induction xs arbitrary: c D)
  case (Cons x xs)
  obtain s st where x: "x = (s, st)" by (cases x)
  have "cap_at V (insert (start + s) D) offs (rc_snapshots (captureBoundary bytes (start + s) (Some st) m c))"
    using cap_at_step [OF Cons.prems(1), of "\<lambda>_. Some (newRecurrentSnapshot bytes st (start + s) m)" "start + s"] Cons.prems(2) [of s st] x
    by (simp add: newRecurrentSnapshot_def)
  from Cons.IH [OF this] Cons.prems(2) show ?case by (simp add: x interior_def)
qed (simp add: interior_def)

lemma rc_Put_eq:
  assumes "rc_Put bytes L inputs (map fst (states @ [z])) (map snd (states @ [z])) c = Some c'"
  shows "length states = length (SnapshotSplits L c) \<and> rc_state c' = Some z \<and> rc_offset c' = rc_offset c + L \<and>
    (\<exists>m. rc_snapshots c' = captureReached (rc_offset c + L) (\<lambda>_. Some (newRecurrentSnapshot bytes z (rc_offset c + L) False))
       (rc_snapshots (interior bytes (rc_offset c) m (zip (SnapshotSplits L c) states) c)))"
proof -
  define splits where "splits = SnapshotSplits L c"
  have n: "length splits = length states" using assms by (simp add: rc_Put_def Let_def splits_def split: if_splits)
  have z: "zip splits (zip (map fst states) (map snd states) @ [z]) = zip splits states"
    using n by (simp add: zip_append2 zip_map_fst_snd)
  define m where "m = (Suc 0 < length states \<and> int (length states) = inputs - 1)"
  have "c' = captureBoundary bytes (rc_offset c + L) (Some z) False ((interior bytes (rc_offset c) m (zip splits states) c)
      \<lparr>rc_state := Some z, rc_needsCompact := False, rc_offset := rc_offset c + L\<rparr>)"
    using assms n interior_simps [of bytes "rc_offset c" m "zip splits states" c]
    by (simp add: rc_Put_def Let_def z flip: splits_def m_def interior_def)
  then show ?thesis using n unfolding splits_def [symmetric] by auto
qed

lemma rc_Get_same: "rc_Get zeros dim0 dtypeOf batch dtype c = Some (c0, s) \<Longrightarrow> rc_offset c0 = rc_offset c \<and> rc_snapshots c0 = rc_snapshots c"
  by (auto simp: rc_Get_def Let_def split: option.splits prod.splits if_splits)

lemma rec_write:
  assumes f: "rec_filled st i b offs ks c" and w: "rec_writes bytes st i ks ms c c'"
  shows "rec_filled st i b offs (ks @ ms) c'"
proof (cases "ms = []")
  case True
  then show ?thesis using assms by (simp add: rec_writes_def)
next
  case False
  define L where "L = int (length ms)"
  have L: "0 < L" using False by (simp add: L_def)
  have h: "rec_holds st i ks c" using f by (simp add: rec_filled_def)
  obtain zeros dim0 dtypeOf batch dtype inputs c0 where g: "rc_Get zeros dim0 (dtypeOf :: 'a \<Rightarrow> nat) batch dtype c = Some (c0, st i ks)"
    and put: "rc_Put bytes L inputs (map fst (map (\<lambda>n. st i (ks @ take (nat n) ms)) (SnapshotSplits L c0) @ [st i (ks @ ms)]))
      (map snd (map (\<lambda>n. st i (ks @ take (nat n) ms)) (SnapshotSplits L c0) @ [st i (ks @ ms)])) c0 = Some c'"
    using w False by (auto simp: rec_writes_def rec_pass_def Let_def L_def)
  have c0: "rc_offset c0 = int (length ks)" "rc_snapshots c0 = rc_snapshots c"
    using rc_Get_same [OF g] h by (simp_all add: rec_holds_def)
  define states where "states = map (\<lambda>n. st i (ks @ take (nat n) ms)) (SnapshotSplits L c0)"
  obtain m where c': "rc_state c' = Some (st i (ks @ ms))" "rc_offset c' = int (length (ks @ ms))"
    "rc_snapshots c' = captureReached (int (length (ks @ ms))) (\<lambda>_. Some (newRecurrentSnapshot bytes (st i (ks @ ms)) (int (length (ks @ ms))) False))
       (rc_snapshots (interior bytes (int (length ks)) m (zip (SnapshotSplits L c0) states) c0))"
    using rc_Put_eq [OF put] c0(1) by (auto simp: states_def L_def)
  have holds: "rec_holds st i (ks @ ms) c'" using c' by (simp add: rec_holds_def)
  show ?thesis
  proof (cases "offs = []")
    case True
    then have "pn_offsets (rc_snapshots c0) = [] \<and> pn_captured (rc_snapshots c0) = None" using f c0 by (simp add: rec_filled_def)
    then have "rc_snapshots c' = rc_snapshots c0 \<and> pn_offsets (rc_snapshots c0) = [] \<and> pn_captured (rc_snapshots c0) = None"
      using c'(3) interior_simps by (metis captureReached_idle)
    then show ?thesis using holds True by (simp add: rec_filled_def)
  next
    case False
    then obtain D where D: "0 \<le> b" "b \<le> int (length ks)" "\<forall>x \<in> set offs. b \<le> x" "cap_at (rec_right st i ks) D offs (rc_snapshots c0)"
      "D \<subseteq> {..int (length ks)}" "set offs \<inter> {b<..int (length ks)} \<subseteq> D"
      using f c0 by (auto simp: rec_filled_def rec_scheduled_def)
    define splits where "splits = SnapshotSplits L c0"
    have offs: "pn_offsets (rc_snapshots c0) = offs" using D(4) by (simp add: cap_at_def)
    have sp: "x - int (length ks) \<in> set splits" if "x \<in> set offs" "int (length ks) < x" "x < int (length (ks @ ms))" for x
      using that by (auto simp: splits_def SnapshotSplits_def Let_def offs c0(1) L_def)
    have sp': "0 < s \<and> s < L" if "s \<in> set splits" for s using that by (auto simp: splits_def SnapshotSplits_def Let_def offs c0(1))
    let ?V = "rec_right st i (ks @ ms)"
    have "cap_at ?V D offs (rc_snapshots c0)"
      by (rule cap_at_mono [OF D(4)]) (use D(5) in \<open>auto simp: rec_right_def\<close>)
    moreover have "?V (int (length ks) + s) \<lparr>rs_state = t, rs_offset = int (length ks) + s, rs_mayShareBacking = m\<rparr>"
      if "(s, t) \<in> set (zip splits states)" for s t
    proof -
      have st: "s \<in> set splits" "t = st i (ks @ take (nat s) ms)"
        using that by (auto simp: states_def splits_def set_zip)
      have "nat (int (length ks) + s) = length ks + nat s" using sp' [OF st(1)] by (simp add: nat_add_distrib)
      then show ?thesis using st by (simp add: rec_right_def)
    qed
    ultimately have "cap_at ?V (D \<union> (\<lambda>(s, _). int (length ks) + s) ` set (zip splits states)) offs
        (rc_snapshots (interior bytes (int (length ks)) m (zip splits states) c0))" by (rule interior_captures)
    from cap_at_step [OF this, of "\<lambda>_. Some (newRecurrentSnapshot bytes (st i (ks @ ms)) (int (length (ks @ ms))) False)" "int (length (ks @ ms))"]
    have cap: "cap_at ?V (insert (int (length (ks @ ms))) (D \<union> (\<lambda>(s, _). int (length ks) + s) ` set (zip splits states))) offs (rc_snapshots c')"
      unfolding c'(3) splits_def by (simp add: newRecurrentSnapshot_def rec_right_def)
    have fst: "fst ` set (zip splits states) = set splits"
      using map_fst_zip [of splits states] by (metis length_map list.set_map splits_def states_def)
    have im: "(\<lambda>(s, _). int (length ks) + s) ` set (zip splits states) = (\<lambda>s. int (length ks) + s) ` set splits"
      unfolding fst [symmetric] image_image by (simp add: case_prod_beta)
    have "rec_scheduled st i b offs (ks @ ms) (rc_snapshots c')"
      unfolding rec_scheduled_def
    proof (intro conjI exI)
      show "cap_at ?V (insert (int (length (ks @ ms))) (D \<union> (\<lambda>(s, _). int (length ks) + s) ` set (zip splits states))) offs (rc_snapshots c')"
        by (rule cap)
      show "insert (int (length (ks @ ms))) (D \<union> (\<lambda>(s, _). int (length ks) + s) ` set (zip splits states)) \<subseteq> {..int (length (ks @ ms))}"
        unfolding im using D(5) by (auto simp: L_def dest: sp' [unfolded L_def] intro: order_less_imp_le)
      show "set offs \<inter> {b<..int (length (ks @ ms))} \<subseteq>
          insert (int (length (ks @ ms))) (D \<union> (\<lambda>(s, _). int (length ks) + s) ` set (zip splits states))"
      proof
        fix x assume x: "x \<in> set offs \<inter> {b<..int (length (ks @ ms))}"
        then consider "x \<le> int (length ks)" | "int (length ks) < x" "x < int (length (ks @ ms))" | "x = int (length (ks @ ms))" by fastforce
        then show "x \<in> insert (int (length (ks @ ms))) (D \<union> (\<lambda>(s, _). int (length ks) + s) ` set (zip splits states))"
        proof cases
          case 1
          then show ?thesis using D(6) x by auto
        next
          case 2
          then have "x - int (length ks) \<in> set splits" using sp x by simp
          then have "x \<in> (\<lambda>s. int (length ks) + s) ` set splits" by (intro image_eqI [of _ _ "x - int (length ks)"]) simp_all
          then show ?thesis unfolding im by simp
        qed simp
      qed
    qed (use D in auto)
    then show ?thesis using holds False by (simp add: rec_filled_def)
  qed
qed

section \<open>Preparing and taking\<close>

lemma rec_prepare:
  assumes f: "rec_filled st i 0 [] ks c" and offs: "offs \<noteq> []" and p: "rc_PrepareSnapshots bytes offs c = Some c'"
  shows "rec_filled st i (int (length ks)) offs ks c'"
proof -
  have h: "rec_holds st i ks c" using f by (simp add: rec_filled_def)
  then have off: "rc_offset c = int (length ks)" by (simp add: rec_holds_def)
  obtain q where q: "prepare (rc_offset c) offs (rc_snapshots c) = Some q"
    "c' = captureBoundary bytes (rc_offset c) (rc_state c) (rc_needsCompact c) (c\<lparr>rc_snapshots := q\<rparr>)"
    using p by (auto simp: rc_PrepareSnapshots_def)
  let ?f = "\<lambda>_. map_option (\<lambda>st. newRecurrentSnapshot bytes st (rc_offset c) (rc_needsCompact c)) (rc_state c)"
  have "rec_right st i ks (rc_offset c) (ss_data s)" if "?f (rc_offset c) = Some s" for s
    using that h by (auto simp: rec_right_def newRecurrentSnapshot_def off rec_holds_def)
  from cap_at_step [OF cap_at_prepare [OF q(1)], of "?f" "rc_offset c" "rec_right st i ks", OF this]
  have "cap_at (rec_right st i ks) (if ?f (rc_offset c) = None then {} else {rc_offset c}) offs (rc_snapshots c')"
    by (simp add: q(2))
  then have "rec_scheduled st i (int (length ks)) offs ks (rc_snapshots c')"
    unfolding rec_scheduled_def using prepare_Some [OF q(1)] off
    by (intro conjI exI [of _ "if ?f (rc_offset c) = None then {} else {rc_offset c}"]) auto
  moreover have "rec_holds st i ks c'" using h by (simp add: rec_holds_def q(2))
  ultimately show ?thesis using offs by (simp add: rec_filled_def)
qed

lemma rec_take:
  assumes f: "rec_filled st i b offs ks c" and offs: "offs \<noteq> []"
  shows "length (fst (rc_TakeSnapshots c)) = length offs \<and> (\<forall>j < length offs.
    (case fst (rc_TakeSnapshots c) ! j of
       None \<Rightarrow> \<not> (b < offs ! j \<and> offs ! j \<le> int (length ks))
     | Some s \<Rightarrow> 0 \<le> offs ! j \<and> offs ! j \<le> int (length ks) \<and> rec_right st i ks (offs ! j) (ss_data s)))"
proof -
  obtain D where D: "0 \<le> b" "\<forall>x \<in> set offs. b \<le> x" "cap_at (rec_right st i ks) D offs (rc_snapshots c)"
    "D \<subseteq> {..int (length ks)}" "set offs \<inter> {b<..int (length ks)} \<subseteq> D"
    using f offs by (auto simp: rec_filled_def rec_scheduled_def)
  obtain ss where ss: "pn_captured (rc_snapshots c) = Some ss" "length ss = length offs"
    "\<And>j. j < length offs \<Longrightarrow> case ss ! j of None \<Rightarrow> offs ! j \<notin> D | Some s \<Rightarrow> offs ! j \<in> D \<and> rec_right st i ks (offs ! j) (ss_data s)"
    using D(3) by (auto simp: cap_at_def)
  have t: "fst (rc_TakeSnapshots c) = ss" by (simp add: rc_TakeSnapshots_def take_captured_def ss(1))
  have "case ss ! j of None \<Rightarrow> \<not> (b < offs ! j \<and> offs ! j \<le> int (length ks))
     | Some s \<Rightarrow> 0 \<le> offs ! j \<and> offs ! j \<le> int (length ks) \<and> rec_right st i ks (offs ! j) (ss_data s)" if j: "j < length offs" for j
  proof (cases "ss ! j")
    case None
    then have "offs ! j \<notin> D" using ss(3) [OF j] by simp
    then show ?thesis using D(5) nth_mem [OF j] None by auto
  next
    case (Some s)
    then have "offs ! j \<in> D" "rec_right st i ks (offs ! j) (ss_data s)" using ss(3) [OF j] by simp_all
    moreover have "0 \<le> offs ! j" using D(1,2) nth_mem [OF j] by fastforce
    ultimately show ?thesis using D(4) Some by auto
  qed
  then show ?thesis by (simp add: t ss(2))
qed

lemma rec_take_holds: "rec_filled st i b offs ks c \<Longrightarrow> rec_filled st i 0 [] ks (snd (rc_TakeSnapshots c))"
  by (simp add: rec_filled_def rec_holds_def rc_TakeSnapshots_def take_captured_def)

section \<open>The contract\<close>

interpretation recurrent_faithful: faithful_cache "recurrent_ops bytes" "\<lambda>kv. 0 \<le> rc_offset kv" "rec_covers st" "rec_filled st" "rec_writes bytes st"
  for bytes :: "'a \<Rightarrow> int" and st :: "nat \<Rightarrow> trieKey list \<Rightarrow> 'a \<times> 'a"
proof unfold_locales
  fix kv kv' :: "'a recurrentCache" and s and t :: int
  assume ok: "0 \<le> rc_offset kv"
  show "0 \<le> co_Offset (recurrent_ops bytes) kv" using ok by (simp add: recurrent_ops_def)
  show "0 \<le> rc_offset kv' \<and> co_Offset (recurrent_ops bytes) kv' = t"
    if "0 \<le> t" "co_Restore (recurrent_ops bytes) kv s t = (kv', True)"
    using that ok by (auto simp: recurrent_ops_def rc_Restore_def Let_def split: option.splits if_splits)
  show "0 \<le> rc_offset kv' \<and> co_Offset (recurrent_ops bytes) kv' = co_Offset (recurrent_ops bytes) kv"
    if "co_Restore (recurrent_ops bytes) kv s t = (kv', False)"
    using that ok by (auto simp: recurrent_ops_def rc_Restore_def Let_def split: option.splits if_splits)
  show "0 \<le> rc_offset (co_Free (recurrent_ops bytes) kv) \<and> co_Offset (recurrent_ops bytes) (co_Free (recurrent_ops bytes) kv) = 0"
    by (simp add: recurrent_ops_def rc_Free_def)
  show "0 \<le> rc_offset kv' \<and> co_Offset (recurrent_ops bytes) kv' = co_Offset (recurrent_ops bytes) kv"
    if "co_PrepareSnapshots (recurrent_ops bytes) kv offs = Some kv'" for offs
    using that ok by (auto simp: recurrent_ops_def rc_PrepareSnapshots_def)
  show "0 \<le> rc_offset (fst (co_TakeSnapshots (recurrent_ops bytes) kv)) \<and>
      co_Offset (recurrent_ops bytes) (fst (co_TakeSnapshots (recurrent_ops bytes) kv)) = co_Offset (recurrent_ops bytes) kv"
    using ok by (simp add: recurrent_ops_def rc_TakeSnapshots_def case_prod_beta)
next
  fix i k a and ks :: "trieKey list" and s p q :: "'a recurrentSnapshot snapshot" and kv :: "'a recurrentCache" and pp
  assume c: "rec_covers st i k ks (ss_data s)"
  show "rec_covers st i k (take a ks) (ss_data p)" if "co_Split (recurrent_ops bytes) kv s (int a) = (Some p, pp)"
    using that by (simp add: recurrent_ops_def rc_Split_def)
  show "rec_covers st i a ks (ss_data q)" if "co_Split (recurrent_ops bytes) kv s (int a) = (pp, Some q)"
    using that c by (simp add: recurrent_ops_def rc_Split_def rec_covers_def)
next
  fix i k m and ks :: "trieKey list" and pp qq :: "'a recurrentSnapshot snapshot option" and kv :: "'a recurrentCache" and s
  assume "\<And>q. qq = Some q \<Longrightarrow> rec_covers st i m ks (ss_data q)" "co_Merge (recurrent_ops bytes) kv pp qq = Some s"
  then show "rec_covers st i k ks (ss_data s)" by (simp add: recurrent_ops_def rc_Merge_def rec_covers_def)
next
  fix i b offs and ks ms :: "trieKey list" and kv kv' :: "'a recurrentCache" and j and s :: "'a recurrentSnapshot snapshot"
  assume f: "rec_filled st i b offs ks kv"
  then have h: "rec_holds st i ks kv" by (simp add: rec_filled_def)
  show "0 \<le> rc_offset kv \<and> co_Offset (recurrent_ops bytes) kv = int (length ks)" using h by (simp add: recurrent_ops_def rec_holds_def)
  show "rec_filled st i 0 [] [] (co_Free (recurrent_ops bytes) kv)"
    by (simp add: recurrent_ops_def rc_Free_def rec_filled_def rec_holds_def sched_empty_def)
  show "rec_filled st i b offs (ks @ ms) kv'" if "rec_writes bytes st i ks ms kv kv'" by (rule rec_write [OF f that])
  show "rec_filled st i 0 [] ks (fst (co_TakeSnapshots (recurrent_ops bytes) kv))"
    using rec_take_holds [OF f] by (simp add: recurrent_ops_def case_prod_beta)
  show "j < length offs \<and> offs ! j \<le> int (length ks) \<and> rec_covers st i (nat (bound b offs j)) (take (nat (offs ! j)) ks) (ss_data s)"
    if t: "layer_at (snd (co_TakeSnapshots (recurrent_ops bytes) kv)) j = Some s"
  proof (cases "offs = []")
    case True
    then show ?thesis using f t
      by (simp add: rec_filled_def recurrent_ops_def case_prod_beta rc_TakeSnapshots_def take_captured_def)
  next
    case False
    have l: "j < length (fst (rc_TakeSnapshots kv))" "fst (rc_TakeSnapshots kv) ! j = Some s"
      using t by (auto simp: recurrent_ops_def case_prod_beta layer_at_def split: if_splits)
    then have "j < length offs" "0 \<le> offs ! j" "offs ! j \<le> int (length ks)" "rec_right st i ks (offs ! j) (ss_data s)"
      using rec_take [OF f False] by auto
    then show ?thesis by (simp add: rec_covers_def rec_right_def min_absorb2)
  qed
next
  fix i b b' and ks :: "trieKey list" and kv :: "'a recurrentCache"
  show "rec_filled st i b' [] ks kv" if "rec_filled st i b [] ks kv" using that by (simp add: rec_filled_def)
next
  fix i and ks :: "trieKey list" and kv kv' :: "'a recurrentCache" and t :: int and offs and k :: nat and s :: "'a recurrentSnapshot snapshot"
    and ss
  assume f: "rec_filled st i 0 [] ks kv"
  then have h: "rec_holds st i ks kv" by (simp add: rec_filled_def)
  show "rec_filled st i 0 [] (take (nat t) ks) kv'" if "0 \<le> t" "co_Restore (recurrent_ops bytes) kv None t = (kv', True)"
    using that f h by (auto simp: recurrent_ops_def rc_Restore_def rec_holds_def)
  show "rec_filled st i 0 [] ks kv'" if "co_Restore (recurrent_ops bytes) kv ss t = (kv', False)"
    using that f by (auto simp: recurrent_ops_def rc_Restore_def Let_def split: option.splits if_splits)
  show "rec_covers st i k ks (ss_data s)" if "k < length ks" "co_Snapshot (recurrent_ops bytes) kv (int k) = Some s"
    using that h by (auto simp: recurrent_ops_def rc_Snapshot_def newRecurrentSnapshot_def rec_covers_def rec_holds_def)
  show "rec_filled st i (int (length ks)) offs ks kv'" if "offs \<noteq> []" "co_PrepareSnapshots (recurrent_ops bytes) kv offs = Some kv'"
    using rec_prepare [OF f that(1)] that(2) by (simp add: recurrent_ops_def)
next
  fix i j k n and ks :: "trieKey list" and kv kv' :: "'a recurrentCache" and s :: "'a recurrentSnapshot snapshot"
  assume f: "rec_filled st i 0 [] (take j ks) kv" and c: "rec_covers st i k ks (ss_data s)" and n: "n \<le> length ks"
    and r: "co_Restore (recurrent_ops bytes) kv (Some s) (int n) = (kv', True)"
  then have "n = length ks" "kv' = kv\<lparr>rc_state := Some (st i ks), rc_offset := int (length ks), rc_needsCompact := rs_mayShareBacking (ss_data s)\<rparr>"
    by (auto simp: recurrent_ops_def rc_Restore_def Let_def rec_covers_def split: if_splits)
  then show "rec_filled st i 0 [] (take n ks) kv'" using f by (simp add: rec_filled_def rec_holds_def)
qed

end
