(* ===== verification/Rollback.thy ===== *)
theory Rollback
  imports Speculation CacheSum KVFaithful RecurrentFaithful
begin

text \<open>
  Caches that can be rolled back: what the speculative decoder relies on.  The locale \<open>rollback_cache\<close> adds to the contract
  of a faithful cache that a schedule of future offsets can be prepared and that, once it is taken, the cache can be brought
  back to any offset of it that was reached: by its own live state, or by the capture of that offset.
\<close>

locale rollback_cache = faithful_cache +
  assumes prepare_returns: "filled i 0 [] ks kv \<Longrightarrow> sorted_wrt (<) offs \<Longrightarrow> \<forall>x \<in> set offs. int (length ks) \<le> x \<Longrightarrow>
      co_PrepareSnapshots ops kv offs \<noteq> None"
    and rollback: "filled i b offs ks kv \<Longrightarrow> j < length offs \<Longrightarrow> b < offs ! j \<Longrightarrow> offs ! j \<le> int (length ks) \<Longrightarrow>
      co_Restore ops (fst (co_TakeSnapshots ops kv)) None (offs ! j) = (kv', False) \<Longrightarrow>
      \<exists>s kv''. layer_at (snd (co_TakeSnapshots ops kv)) j = Some s \<and> co_Restore ops kv' (Some s) (offs ! j) = (kv'', True) \<and>
        filled i 0 [] (take (nat (offs ! j)) ks) kv''"

section \<open>The kinds of caches\<close>

lemma prepare_not_None:
  assumes "pn_captured p = None" "sorted_wrt (<) offs" "\<forall>x \<in> set offs. cur \<le> x"
  shows "prepare cur offs p \<noteq> None"
proof -
  have "\<not> (offs ! i < cur \<or> (i > 0 \<and> offs ! i \<le> offs ! (i - 1)))" if "i < length offs" for i
  proof -
    have "cur \<le> offs ! i" using assms(3) that by simp
    moreover have "offs ! (i - 1) < offs ! i" if "0 < i" using assms(2) \<open>i < length offs\<close> that by (simp add: sorted_wrt_iff_nth_less)
    ultimately show ?thesis by fastforce
  qed
  then show ?thesis using assms(1) by (auto simp: prepare_def list_ex_iff)
qed

interpretation kv_rollback: rollback_cache kv_ops "\<lambda>_. True" "kv_covers row" "kv_filled row" "kv_writes row"
  for row :: "nat \<Rightarrow> trieKey list \<Rightarrow> 'r"
proof
  fix i and ks :: "trieKey list" and kv :: "'r kvRows" and offs
  assume "kv_filled row i 0 [] ks kv" "sorted_wrt (<) offs" "\<forall>x \<in> set offs. int (length ks) \<le> x"
  then show "co_PrepareSnapshots kv_ops kv offs \<noteq> None"
    using prepare_not_None [of "kr_snapshots kv" offs "kr_Offset kv"]
    by (simp add: kv_ops_def kr_Prepare_def kv_filled_def unscheduled_def kr_Offset_def)
next
  fix i b offs and ks :: "trieKey list" and kv kv' :: "'r kvRows" and j
  assume f: "kv_filled row i b offs ks kv" "b < offs ! j" "offs ! j \<le> int (length ks)" "j < length offs"
    and r: "co_Restore kv_ops (fst (co_TakeSnapshots kv_ops kv)) None (offs ! j) = (kv', False)"
  have "offs \<noteq> []" using f(4) by auto
  then have "0 \<le> offs ! j" using f(1,2) by (simp add: kv_filled_def)
  then have "nat (offs ! j) \<le> length ks" "int (nat (offs ! j)) = offs ! j" using f(3) by simp_all
  then have "snd (co_Restore kv_ops (fst (co_TakeSnapshots kv_ops kv)) None (offs ! j))"
    using kv_faithful.rewinding [unfolded rewinds_def] kv_faithful.take_filled [OF f(1)] by metis
  then show "\<exists>s kv''. layer_at (snd (co_TakeSnapshots kv_ops kv)) j = Some s \<and> co_Restore kv_ops kv' (Some s) (offs ! j) = (kv'', True) \<and>
      kv_filled row i 0 [] (take (nat (offs ! j)) ks) kv''" using r by simp
qed

interpretation hidden_rollback: rollback_cache "hidden_ops nb" "\<lambda>_. True" "hidden_covers row" "hidden_filled row" "hidden_writes nb row"
  for nb :: int and row :: "nat \<Rightarrow> trieKey list \<Rightarrow> 'r"
proof
  fix i and ks :: "trieKey list" and kv :: "'r hiddenCache" and offs
  assume "hidden_filled row i 0 [] ks kv" "sorted_wrt (<) offs" "\<forall>x \<in> set offs. int (length ks) \<le> x"
  then show "co_PrepareSnapshots (hidden_ops nb) kv offs \<noteq> None"
    using prepare_not_None [of "hc_snapshots kv" offs "hc_Offset kv"]
    by (simp add: hidden_ops_def hc_PrepareSnapshots_def hidden_filled_def unscheduled_def hc_Offset_rows)
next
  fix i b offs and ks :: "trieKey list" and kv kv' :: "'r hiddenCache" and j
  assume f: "hidden_filled row i b offs ks kv" "b < offs ! j" "offs ! j \<le> int (length ks)" "j < length offs"
    and r: "co_Restore (hidden_ops nb) (fst (co_TakeSnapshots (hidden_ops nb) kv)) None (offs ! j) = (kv', False)"
  have "offs \<noteq> []" using f(4) by auto
  then have "0 \<le> offs ! j" using f(1,2) by (simp add: hidden_filled_def)
  then have "nat (offs ! j) \<le> length ks" "int (nat (offs ! j)) = offs ! j" using f(3) by simp_all
  then have "snd (co_Restore (hidden_ops nb) (fst (co_TakeSnapshots (hidden_ops nb) kv)) None (offs ! j))"
    using hidden_faithful.rewinding [unfolded rewinds_def] hidden_faithful.take_filled [OF f(1)] by metis
  then show "\<exists>s kv''. layer_at (snd (co_TakeSnapshots (hidden_ops nb) kv)) j = Some s \<and>
      co_Restore (hidden_ops nb) kv' (Some s) (offs ! j) = (kv'', True) \<and> hidden_filled row i 0 [] (take (nat (offs ! j)) ks) kv''"
    using r by simp
qed

interpretation recurrent_rollback: rollback_cache "recurrent_ops bytes" "\<lambda>kv. 0 \<le> rc_offset kv" "rec_covers st" "rec_filled st" "rec_writes bytes st"
  for bytes :: "'a \<Rightarrow> int" and st :: "nat \<Rightarrow> trieKey list \<Rightarrow> 'a \<times> 'a"
proof
  fix i and ks :: "trieKey list" and kv :: "'a recurrentCache" and offs
  assume "rec_filled st i 0 [] ks kv" "sorted_wrt (<) offs" "\<forall>x \<in> set offs. int (length ks) \<le> x"
  then show "co_PrepareSnapshots (recurrent_ops bytes) kv offs \<noteq> None"
    using prepare_not_None [of "rc_snapshots kv" offs "rc_offset kv"]
    by (simp add: recurrent_ops_def rc_PrepareSnapshots_def rec_filled_def rec_holds_def)
next
  fix i b offs and ks :: "trieKey list" and kv kv' :: "'a recurrentCache" and j
  assume f: "rec_filled st i b offs ks kv" and j: "j < length offs" "b < offs ! j" "offs ! j \<le> int (length ks)"
    and r: "co_Restore (recurrent_ops bytes) (fst (co_TakeSnapshots (recurrent_ops bytes) kv)) None (offs ! j) = (kv', False)"
  define c where "c = snd (rc_TakeSnapshots kv)"
  have kv': "kv' = c" using r by (simp add: recurrent_ops_def rc_Restore_def case_prod_beta c_def)
  have offs: "offs \<noteq> []" using j(1) by auto
  obtain s where s: "fst (rc_TakeSnapshots kv) ! j = Some s" "0 \<le> offs ! j" "rec_right st i ks (offs ! j) (ss_data s)"
    "length (fst (rc_TakeSnapshots kv)) = length offs"
    using rec_take [OF f offs] j by (auto split: option.splits)
  define c' where "c' = c\<lparr>rc_state := Some (rs_state (ss_data s)), rc_offset := rs_offset (ss_data s),
      rc_needsCompact := rs_mayShareBacking (ss_data s)\<rparr>"
  have "co_Restore (recurrent_ops bytes) kv' (Some s) (offs ! j) = (c', True)"
    using s(3) by (simp add: recurrent_ops_def rc_Restore_def Let_def rec_right_def kv' c'_def)
  moreover have "rec_filled st i 0 [] (take (nat (offs ! j)) ks) c'"
    using s(2,3) j(3) rec_take_holds [OF f] by (simp add: c'_def c_def rec_filled_def rec_holds_def rec_right_def min_absorb2)
  moreover have "layer_at (snd (co_TakeSnapshots (recurrent_ops bytes) kv)) j = Some s"
    using s(1,4) j(1) by (simp add: recurrent_ops_def case_prod_beta layer_at_def)
  ultimately show "\<exists>s kv''. layer_at (snd (co_TakeSnapshots (recurrent_ops bytes) kv)) j = Some s \<and>
      co_Restore (recurrent_ops bytes) kv' (Some s) (offs ! j) = (kv'', True) \<and> rec_filled st i 0 [] (take (nat (offs ! j)) ks) kv''" by blast
qed

section \<open>Two kinds\<close>

locale two_rollback = L: rollback_cache opsL okL coversL filledL writesL + R: rollback_cache opsR okR coversR filledR writesR
  for opsL :: "('c1, 'd1) cache_ops" and okL and coversL and filledL and writesL
    and opsR :: "('c2, 'd2) cache_ops" and okR and coversR and filledR and writesR +
  fixes left :: "nat \<Rightarrow> bool"

sublocale two_rollback \<subseteq> two_kinds opsL okL coversL filledL writesL opsR okR coversR filledR writesR left
  by unfold_locales

lemma side_Restore_None: "side_Restore ops f emb c None t = apfst emb (co_Restore ops c None t)"
  by (simp add: side_Restore_def assert_type_def)

lemma side_Restore_Some:
  assumes "f (emb (ss_data s)) = Some (ss_data s)"
  shows "side_Restore ops f embc c (Some (snap_map emb s)) t = apfst embc (co_Restore ops c (Some s) t)"
proof -
  have "snap_map (\<lambda>_. ss_data s) (snap_map emb s) = s" by (simp add: snap_map_def)
  then show ?thesis using assms by (simp add: side_Restore_def assert_type_def)
qed

sublocale two_rollback \<subseteq> both: rollback_cache "sum_ops opsL opsR" "sum_ok okL okR" "sum_covers left coversL coversR"
    "sum_filled left filledL filledR" "sum_writes writesL writesR"
proof
  fix i and ks :: "trieKey list" and kv :: "'c1 + 'c2" and offs
  assume "sum_filled left filledL filledR i 0 [] ks kv" "sorted_wrt (<) offs" "\<forall>x \<in> set offs. int (length ks) \<le> x"
  then show "co_PrepareSnapshots (sum_ops opsL opsR) kv offs \<noteq> None"
    using L.prepare_returns [of i ks _ offs] R.prepare_returns [of i ks _ offs] by (cases kv) (auto simp: sum_defs)
next
  fix i b offs and ks :: "trieKey list" and kv kv' :: "'c1 + 'c2" and j
  assume f: "sum_filled left filledL filledR i b offs ks kv" and j: "j < length offs" "b < offs ! j" "offs ! j \<le> int (length ks)"
    and r: "co_Restore (sum_ops opsL opsR) (fst (co_TakeSnapshots (sum_ops opsL opsR) kv)) None (offs ! j) = (kv', False)"
  show "\<exists>s kv''. layer_at (snd (co_TakeSnapshots (sum_ops opsL opsR) kv)) j = Some s \<and>
      co_Restore (sum_ops opsL opsR) kv' (Some s) (offs ! j) = (kv'', True) \<and>
      sum_filled left filledL filledR i 0 [] (take (nat (offs ! j)) ks) kv''"
  proof (cases kv)
    case (Inl c)
    obtain c' where c': "co_Restore opsL (fst (co_TakeSnapshots opsL c)) None (offs ! j) = (c', False)" "kv' = Inl c'"
      using r by (cases "co_Restore opsL (fst (co_TakeSnapshots opsL c)) None (offs ! j)") (auto simp: Inl side_Restore_None)
    have fc: "filledL i b offs ks c" "left i" using f Inl by (simp_all add: sum_filled_def)
    obtain s c'' where s: "layer_at (snd (co_TakeSnapshots opsL c)) j = Some s" "co_Restore opsL c' (Some s) (offs ! j) = (c'', True)"
      "filledL i 0 [] (take (nat (offs ! j)) ks) c''"
      using L.rollback [OF fc(1) j c'(1)] by blast
    have "co_Restore (sum_ops opsL opsR) kv' (Some (snap_map Inl s)) (offs ! j) = (Inl c'', True)"
      using s(2) by (simp add: c'(2) side_Restore_Some)
    then show ?thesis using s fc(2) by (intro exI [of _ "snap_map Inl s"] exI [of _ "Inl c''"]) (simp add: Inl layer_at_map_option sum_filled_def)
  next
    case (Inr c)
    obtain c' where c': "co_Restore opsR (fst (co_TakeSnapshots opsR c)) None (offs ! j) = (c', False)" "kv' = Inr c'"
      using r by (cases "co_Restore opsR (fst (co_TakeSnapshots opsR c)) None (offs ! j)") (auto simp: Inr side_Restore_None)
    have fc: "filledR i b offs ks c" "\<not> left i" using f Inr by (simp_all add: sum_filled_def)
    obtain s c'' where s: "layer_at (snd (co_TakeSnapshots opsR c)) j = Some s" "co_Restore opsR c' (Some s) (offs ! j) = (c'', True)"
      "filledR i 0 [] (take (nat (offs ! j)) ks) c''"
      using R.rollback [OF fc(1) j c'(1)] by blast
    have "co_Restore (sum_ops opsL opsR) kv' (Some (snap_map Inr s)) (offs ! j) = (Inr c'', True)"
      using s(2) by (simp add: c'(2) side_Restore_Some)
    then show ?thesis using s fc(2) by (intro exI [of _ "snap_map Inr s"] exI [of _ "Inr c''"]) (simp add: Inr layer_at_map_option sum_filled_def)
  qed
qed

end
