(* ===== verification/SpeculationSpec.thy ===== *)
theory SpeculationSpec
  imports Rollback
begin

text \<open>
  What a speculative round leaves behind: the tokens it emits are those of the specification \<open>emitted\<close>, and every cache holds
  the state after exactly the tokens that precede the last one emitted, also when the round fails, so the next round can run.
  The lemmas are proved for caches that can be rolled back, the property and its witness are on attention layers and recurrent
  layers together.
\<close>

section \<open>All layers at once\<close>

lemma those_map_Some: "(\<And>x. x \<in> set xs \<Longrightarrow> f x = Some (g x)) \<Longrightarrow> those (map f xs) = Some (map g xs)"
  by (induction xs) auto

lemma each_layer_those:
  assumes "each_layer (\<lambda>i kv. \<exists>kv'. g kv = Some kv' \<and> Q i kv') cs"
  shows "\<exists>cs'. those (map (\<lambda>kv. case kv of None \<Rightarrow> Some None | Some kv \<Rightarrow> map_option Some (g kv)) cs) = Some cs' \<and>
    map Option.is_none cs' = map Option.is_none cs \<and> each_layer Q cs'"
proof -
  define cs' where "cs' = map (\<lambda>kv. case kv of None \<Rightarrow> None | Some kv \<Rightarrow> Some (the (g kv))) cs"
  have g: "\<exists>kv'. g kv = Some kv' \<and> Q i kv'" if "i < length cs" "cs ! i = Some kv" for i kv
    using assms that by (simp add: each_layer_def)
  have "g kv \<noteq> None" if "Some kv \<in> set cs" for kv using g that by (metis in_set_conv_nth option.distinct(1))
  then have "those (map (\<lambda>kv. case kv of None \<Rightarrow> Some None | Some kv \<Rightarrow> map_option Some (g kv)) cs) = Some cs'"
    unfolding cs'_def by (intro those_map_Some) (auto split: option.split)
  moreover have "map Option.is_none cs' = map Option.is_none cs" by (simp add: cs'_def split: option.split)
  moreover have "each_layer Q cs'" using g by (fastforce simp: each_layer_def cs'_def split: option.splits)
  ultimately show ?thesis by blast
qed

text \<open>A forward pass over the keys \<open>ms\<close>: each layer's cache becomes what its layer makes of it.\<close>

definition forward_writes ::
  "(nat \<Rightarrow> trieKey list \<Rightarrow> trieKey list \<Rightarrow> 'c \<Rightarrow> 'c \<Rightarrow> bool) \<Rightarrow> trieKey list \<Rightarrow> trieKey list \<Rightarrow> 'c option list \<Rightarrow> 'c option list \<Rightarrow> bool" where
  "forward_writes writes ks ms cs cs' \<longleftrightarrow> map Option.is_none cs' = map Option.is_none cs \<and>
     (\<forall>i kv kv'. i < length cs \<longrightarrow> cs ! i = Some kv \<longrightarrow> cs' ! i = Some kv' \<longrightarrow> writes i ks ms kv kv')"

section \<open>What is emitted\<close>

text \<open>The device returns a flag and a replacement for each draft.\<close>

definition well_sized :: "round_values \<Rightarrow> bool" where
  "well_sized rv \<longleftrightarrow> rv_draftIDs rv \<noteq> [] \<and> length (rv_acceptedFlags rv) = length (rv_draftIDs rv) \<and>
     length (rv_residualTokens rv) = length (rv_draftIDs rv)"

lemma surviving_length:
  assumes "well_sized rv"
  shows "length (takeWhile (\<lambda>ok. ok \<noteq> 0) (rv_acceptedFlags rv)) = length (surviving rv)" "length (surviving rv) \<le> length (rv_draftIDs rv)"
proof -
  have "length (takeWhile (\<lambda>ok. ok \<noteq> 0) (rv_acceptedFlags rv)) \<le> length (rv_draftIDs rv)"
    using assms length_takeWhile_le by (metis well_sized_def)
  then show "length (takeWhile (\<lambda>ok. ok \<noteq> 0) (rv_acceptedFlags rv)) = length (surviving rv)"
    "length (surviving rv) \<le> length (rv_draftIDs rv)" by (simp_all add: surviving_def)
qed

text \<open>Whether a surviving draft ends the sequence, and the tokens emitted in either case.\<close>

lemma emitted_cases [consumes 1]:
  assumes "well_sized rv"
  obtains (open_end) nxt where "dropWhile (\<lambda>t. \<not> isEOS t) (surviving rv) = []" "emitted isEOS rv = surviving rv @ [nxt]"
      "nxt = (if length (surviving rv) < length (rv_draftIDs rv) then rv_residualTokens rv ! length (surviving rv) else rv_bonusToken rv)"
      "surviving rv = take (length (surviving rv)) (rv_draftIDs rv)" "length (surviving rv) \<le> length (rv_draftIDs rv)"
    | (eos) eos rest where "dropWhile (\<lambda>t. \<not> isEOS t) (surviving rv) = eos # rest"
      "emitted isEOS rv = takeWhile (\<lambda>t. \<not> isEOS t) (surviving rv) @ [eos]"
      "take (length (takeWhile (\<lambda>t. \<not> isEOS t) (surviving rv))) (rv_draftIDs rv) = takeWhile (\<lambda>t. \<not> isEOS t) (surviving rv)"
      "take (Suc (length (takeWhile (\<lambda>t. \<not> isEOS t) (surviving rv)))) (rv_draftIDs rv) = takeWhile (\<lambda>t. \<not> isEOS t) (surviving rv) @ [eos]"
      "length (takeWhile (\<lambda>t. \<not> isEOS t) (surviving rv)) < length (rv_draftIDs rv)"
proof (cases "dropWhile (\<lambda>t. \<not> isEOS t) (surviving rv)")
  case Nil
  have "surviving rv = take (length (surviving rv)) (rv_draftIDs rv)"
    using surviving_length [OF assms] by (metis surviving_def)
  then show ?thesis using Nil surviving_length(2) [OF assms] by (intro open_end) (simp_all add: emitted_def del: dropWhile_eq_Nil_conv)
next
  case (Cons e rest)
  define tw where "tw = takeWhile (\<lambda>t. \<not> isEOS t) (surviving rv)"
  have sv: "surviving rv = tw @ e # rest" using takeWhile_dropWhile_id [of "\<lambda>t. \<not> isEOS t" "surviving rv"] Cons by (simp add: tw_def)
  have d: "rv_draftIDs rv = surviving rv @ drop (length (surviving rv)) (rv_draftIDs rv)"
    using surviving_length [OF assms] by (metis append_take_drop_id surviving_def)
  then obtain zs where "rv_draftIDs rv = tw @ e # zs" using sv by auto
  then show ?thesis using Cons by (intro eos [of e rest]) (simp_all add: emitted_def flip: tw_def)
qed

section \<open>Rolling back\<close>

context rollback_cache
begin

lemma schedule_filled:
  assumes "each_layer (\<lambda>i kv. filled i 0 [] ks kv) cs" "sorted_wrt (<) offs" "\<forall>x \<in> set offs. int (length ks) \<le> x" "offs \<noteq> []"
  shows "\<exists>cs'. prepare_all ops offs cs = Some cs' \<and> map Option.is_none cs' = map Option.is_none cs \<and>
    each_layer (\<lambda>i kv. filled i (int (length ks)) offs ks kv) cs'"
  unfolding prepare_all_def
proof (rule each_layer_those, rule each_layer_mono [OF assms(1)])
  fix i kv assume f: "filled i 0 [] ks kv"
  then show "\<exists>kv'. co_PrepareSnapshots ops kv offs = Some kv' \<and> filled i (int (length ks)) offs ks kv'"
    using prepare_returns [OF f assms(2,3)] prepare_filled [OF f assms(4)] by blast
qed

lemma forward_filled:
  assumes "each_layer (\<lambda>i kv. filled i b offs ks kv) cs" "forward_writes writes ks ms cs cs'"
  shows "each_layer (\<lambda>i kv. filled i b offs (ks @ ms) kv) cs'"
  unfolding each_layer_def
proof (intro allI impI)
  fix i kv' assume i: "i < length cs'" "cs' ! i = Some kv'"
  have n: "map Option.is_none cs' = map Option.is_none cs" using assms(2) by (simp add: forward_writes_def)
  then have "i < length cs" using i(1) by (metis length_map)
  then have "Option.is_none (cs ! i) = Option.is_none (cs' ! i)" using arg_cong [OF n, of "\<lambda>xs. xs ! i"] i(1) by simp
  then obtain kv where "cs ! i = Some kv" using i(2) by (auto simp: Option.is_none_def)
  then have "filled i b offs ks kv" "writes i ks ms kv kv'"
    using assms i \<open>i < length cs\<close> unfolding each_layer_def forward_writes_def by blast+
  then show "filled i b offs (ks @ ms) kv'" by (rule write_filled)
qed

text \<open>One cache is brought back to the accepted drafts, or keeps them all.\<close>

lemma commit_one_filled:
  assumes f: "filled i (int (length ks)) (map (\<lambda>i. int (length ks) + 1 + int i) [0..<n]) (ks @ cur # ds) kv"
    and n: "length ds = n" "keep \<le> n"
  shows "\<exists>kv'. commit_one ops keep n (int (length ks) + 1) kv = Some kv' \<and> filled i 0 [] (ks @ cur # take keep ds) kv'"
proof -
  define offs where "offs = map (\<lambda>i. int (length ks) + 1 + int i) [0..<n]"
  define t where "t = int (length ks) + 1 + int keep"
  obtain kv1 snaps where T: "co_TakeSnapshots ops kv = (kv1, snaps)" by fastforce
  have f1: "filled i 0 [] (ks @ cur # ds) kv1" using take_filled [OF f] T by simp
  have t: "nat t = length ks + 1 + keep" "0 \<le> t" by (simp_all add: t_def)
  have kept: "take (nat t) (ks @ cur # ds) = ks @ cur # take keep ds" by (simp add: t)
  show ?thesis
  proof (cases "keep < n")
    case True
    obtain kv2 b where R: "co_Restore ops kv1 None t = (kv2, b)" by fastforce
    show ?thesis
    proof (cases b)
      case True
      then have "filled i 0 [] (ks @ cur # take keep ds) kv2" using restore_live [OF f1 t(2)] R kept by simp
      then show ?thesis using T R True \<open>keep < n\<close> by (simp add: commit_one_def Let_def t_def)
    next
      case False
      have j: "keep < length offs" "offs ! keep = t" using \<open>keep < n\<close> by (simp_all add: offs_def t_def)
      have b: "int (length ks) < offs ! keep" "offs ! keep \<le> int (length (ks @ cur # ds))"
        using \<open>keep < n\<close> n(1) by (simp_all add: j(2) t_def)
      have r: "co_Restore ops (fst (co_TakeSnapshots ops kv)) None (offs ! keep) = (kv2, False)" using R False T j(2) by simp
      obtain s kv3 where s: "layer_at snaps keep = Some s" "co_Restore ops kv2 (Some s) t = (kv3, True)"
        "filled i 0 [] (take (nat t) (ks @ cur # ds)) kv3"
        using rollback [OF f [folded offs_def] j(1) b r] T by (auto simp: j(2))
      have "keep < length snaps" "snaps ! keep = Some s" using s(1) by (simp_all add: layer_at_def split: if_splits)
      then show ?thesis using T R False s(2,3) \<open>keep < n\<close> kept by (simp add: commit_one_def Let_def t_def)
    qed
  next
    case False
    then have "take keep ds = ds" using n by simp
    then show ?thesis using T f1 False by (simp add: commit_one_def Let_def)
  qed
qed

lemma commit_filled:
  assumes "each_layer (\<lambda>i kv. filled i (int (length ks)) (map (\<lambda>i. int (length ks) + 1 + int i) [0..<n]) (ks @ cur # ds) kv) cs"
    and "length ds = n" "keep \<le> n"
  shows "\<exists>cs'. commitSpeculation ops cs keep n (int (length ks) + 1) = Some cs' \<and>
    map Option.is_none cs' = map Option.is_none cs \<and> each_layer (\<lambda>i kv. filled i 0 [] (ks @ cur # take keep ds) kv) cs'"
  unfolding commitSpeculation_def
  by (rule each_layer_those, rule each_layer_mono [OF assms(1)]) (rule commit_one_filled [OF _ assms(2,3)])

end

section \<open>A round\<close>

text \<open>The round in closed form, once the caches are scheduled.\<close>

lemma accept_eq:
  assumes w: "well_sized rv" and s: "scheduleSpeculation ops cs (position + 1) (length (rv_draftIDs rv)) = Some cs1"
  shows "accept ops isEOS forward masked grammar rv current position cs =
    (let commit = (\<lambda>keep. commitSpeculation ops (forward cs1) keep (length (rv_draftIDs rv)) (position + 1)); out = emitted isEOS rv
     in if \<not> masked then map_option (\<lambda>cs. (cs, position, Inl ErrMask)) (commit 0)
        else if \<not> grammar out then map_option (\<lambda>cs. (cs, position, Inl ErrGrammar)) (commit 0)
        else map_option (\<lambda>cs. (cs, position + int (length out), Inr
          \<lparr>ro_results = out,
           ro_accepted = (if list_ex isEOS (surviving rv) then length out else length out - 1),
           ro_observed = (if list_ex isEOS (surviving rv) then length out else length (rv_draftIDs rv)),
           ro_reported = current # butlast out, ro_committed = out\<rparr>)) (commit (length out - 1)))"
  using w
proof (cases rule: emitted_cases [of rv isEOS])
  case (open_end nxt)
  have ended: "\<not> list_ex isEOS (surviving rv)" using open_end(1) by (simp add: list_ex_iff)
  have "take (length (surviving rv)) (rv_draftIDs rv) = surviving rv" using open_end(4) by simp
  then have "length (surviving rv) < length (rv_draftIDs rv) \<or> surviving rv = rv_draftIDs rv"
    using open_end(5) by (metis not_less take_all)
  then show ?thesis
    using surviving_length [OF w] open_end(1-4) w s ended
    by (elim disjE) (simp_all add: accept_def add.assoc Let_def cut_at_eos_eq butlast_append well_sized_def
        del: dropWhile_eq_Nil_conv split: option.split)
next
  case (eos e rest)
  have "list_ex isEOS (surviving rv)" using eos(1) by (metis dropWhile_eq_Nil_conv list.distinct(1) list_ex_iff)
  moreover have "take (length (surviving rv)) (rv_draftIDs rv) = surviving rv" using surviving_length [OF w] by (metis surviving_def)
  ultimately show ?thesis
    using surviving_length [OF w] eos w s
    by (simp add: accept_def add.assoc Let_def cut_at_eos_eq butlast_append well_sized_def del: dropWhile_eq_Nil_conv split: option.split)
qed

text \<open>The accepting loop keeps at most the drafts, and what it keeps is what it emits before the last token.\<close>

lemma emitted_kept:
  assumes "well_sized rv"
  shows "emitted isEOS rv \<noteq> []" "length (emitted isEOS rv) - 1 \<le> length (rv_draftIDs rv)"
    "take (length (emitted isEOS rv) - 1) (rv_draftIDs rv) = butlast (emitted isEOS rv)"
  using assms by (cases rule: emitted_cases [of rv isEOS]; simp del: dropWhile_eq_Nil_conv)+

context rollback_cache
begin

lemma round_filled:
  assumes w: "well_sized rv" and f: "each_layer (\<lambda>i kv. filled i 0 [] ks kv) cs"
    and fwd: "\<And>cs1. scheduleSpeculation ops cs (int (length ks) + 1) (length (rv_draftIDs rv)) = Some cs1 \<Longrightarrow>
      forward_writes writes ks (map ucast (current # rv_draftIDs rv)) cs1 (forward cs1)"
  shows "\<exists>cs' position' r. accept ops isEOS forward masked grammar rv current (int (length ks)) cs = Some (cs', position', r) \<and>
    map Option.is_none cs' = map Option.is_none cs \<and>
    (case r of
       Inl e \<Rightarrow> e = (if \<not> masked then ErrMask else ErrGrammar) \<and> \<not> (masked \<and> grammar (emitted isEOS rv)) \<and>
         position' = int (length ks) \<and> each_layer (\<lambda>i kv. filled i 0 [] (ks @ [ucast current]) kv) cs'
     | Inr res \<Rightarrow> masked \<and> grammar (emitted isEOS rv) \<and> ro_results res = emitted isEOS rv \<and>
         ro_reported res = current # butlast (emitted isEOS rv) \<and> position' = int (length ks) + int (length (emitted isEOS rv)) \<and>
         each_layer (\<lambda>i kv. filled i 0 [] (ks @ map ucast (current # butlast (emitted isEOS rv))) kv) cs')"
proof -
  define n where "n = length (rv_draftIDs rv)"
  define offs where "offs = map (\<lambda>i. int (length ks) + 1 + int i) [0..<n]"
  have n: "n \<noteq> 0" using w by (simp add: n_def well_sized_def)
  have "sorted_wrt (<) offs" by (simp add: offs_def sorted_wrt_iff_nth_less)
  moreover have "\<forall>x \<in> set offs. int (length ks) \<le> x" "offs \<noteq> []" using n by (auto simp: offs_def)
  ultimately obtain cs1 where s: "scheduleSpeculation ops cs (int (length ks) + 1) n = Some cs1"
    "map Option.is_none cs1 = map Option.is_none cs" "each_layer (\<lambda>i kv. filled i (int (length ks)) offs ks kv) cs1"
    using schedule_filled [OF f, of offs] by (auto simp: scheduleSpeculation_def offs_def)
  have fw: "forward_writes writes ks (map ucast (current # rv_draftIDs rv)) cs1 (forward cs1)" using fwd s(1) by (simp add: n_def)
  then have live: "map Option.is_none (forward cs1) = map Option.is_none cs" using s(2) by (simp add: forward_writes_def)
  have passed: "each_layer (\<lambda>i kv. filled i (int (length ks)) offs (ks @ ucast current # map ucast (rv_draftIDs rv)) kv) (forward cs1)"
    using forward_filled [OF s(3) fw] by simp
  have commit: "\<exists>cs'. commitSpeculation ops (forward cs1) keep n (int (length ks) + 1) = Some cs' \<and>
      map Option.is_none cs' = map Option.is_none cs \<and>
      each_layer (\<lambda>i kv. filled i 0 [] (ks @ map ucast (current # take keep (rv_draftIDs rv))) kv) cs'" if "keep \<le> n" for keep
    using commit_filled [OF passed [unfolded offs_def] _ that] live by (simp add: n_def take_map)
  note eq = accept_eq [OF w s(1) [unfolded n_def], of isEOS forward masked grammar current, folded n_def]
  show ?thesis
  proof (cases "masked \<and> grammar (emitted isEOS rv)")
    case True
    obtain cs' where "commitSpeculation ops (forward cs1) (length (emitted isEOS rv) - 1) n (int (length ks) + 1) = Some cs'"
      "map Option.is_none cs' = map Option.is_none cs"
      "each_layer (\<lambda>i kv. filled i 0 [] (ks @ map ucast (current # butlast (emitted isEOS rv))) kv) cs'"
      using commit [of "length (emitted isEOS rv) - 1"] emitted_kept [OF w, of isEOS] by (auto simp: n_def)
    then show ?thesis unfolding eq using True by (simp add: Let_def)
  next
    case False
    obtain cs' where "commitSpeculation ops (forward cs1) 0 n (int (length ks) + 1) = Some cs'"
      "map Option.is_none cs' = map Option.is_none cs" "each_layer (\<lambda>i kv. filled i 0 [] (ks @ [ucast current]) kv) cs'"
      using commit [of 0] by auto
    then show ?thesis unfolding eq using False by (auto simp: Let_def)
  qed
qed

end

section \<open>Attention layers and recurrent layers\<close>







section \<open>A round in which a draft is rejected\<close>














end
