(* ===== verification/SchedTypes.thy ===== *)
theory SchedTypes
  imports GoStrings "HOL-Library.Char_ord" "HOL-Library.List_Lexorder" "HOL-Library.Product_Lexorder"
begin

text \<open>
  The data of \<open>server/sched.go\<close>: models, requests and loaded runners, and the functions on them that touch no shared state:
  the key of a model, the reload test, the choice of the runner to unload and the caps per kind of model
  (\<open>server/load_caps.go\<close>).  The configuration a model is launched with (\<open>llamaServerConfigForModel\<close>) is a value of a
  type parameter; what a model can do is the fields \<open>m_vision\<close> and \<open>m_wholePool\<close>.
\<close>

section \<open>Models and requests\<close>

text \<open>\<open>api.Runner\<close>.  The further options of a request do not concern the scheduler.\<close>

record runner_opts =
  ro_NumCtx :: int
  ro_NumBatch :: int
  ro_NumGPU :: int
  ro_MainGPU :: "int option"
  ro_UseMMap :: "bool option"
  ro_NumThread :: int
  ro_DraftNumPredict :: int

text \<open>Which media a model's configuration names: the pointers that are not nil.\<close>

record media_config =
  mc_Image :: bool
  mc_STT :: bool
  mc_TTS :: bool
  mc_Video :: bool
  mc_SFX :: bool

record 'cfg model =
  m_Name :: string
  m_ShortName :: string
  m_ModelPath :: string
  m_ModelShardPaths :: "string list"
  m_AdapterPaths :: "string list"
  m_ProjectorPaths :: "string list"
  m_Digest :: string
  m_ManifestDigest :: string
  m_ModelFormat :: string
  m_ModelFamily :: string
  m_ModelFamilies :: "string list"
  m_Capabilities :: "string list"
  m_decisionType :: string
  m_media :: "media_config option"
  m_vision :: bool
  m_wholePool :: bool
  m_config :: 'cfg

text \<open>A request; \<open>lr_id\<close> names its context and its reply channels, \<open>lr_mediaCall\<close> is the mark of \<open>isMediaCall\<close>.\<close>

record 'cfg llm_request =
  lr_id :: nat
  lr_model :: "'cfg model"
  lr_opts :: runner_opts
  lr_sessionDuration :: "int option"
  lr_schedAttempts :: nat
  lr_oomRetryAttempted :: bool
  lr_numCtxAuto :: bool
  lr_numBatchAuto :: bool
  lr_useMMapAuto :: bool
  lr_contextShift :: bool
  lr_shift :: "bool option"
  lr_mediaCall :: bool

definition modelPaths :: "'cfg model \<Rightarrow> string list" where
  "modelPaths m = (if m_ModelPath m = [] then [] else m_ModelPath m # m_ModelShardPaths m)"

definition schedulerModelKey :: "'cfg model option \<Rightarrow> string" where
  "schedulerModelKey mm =
     (case mm of
        None \<Rightarrow> []
      | Some m \<Rightarrow>
          (if m_ModelPath m \<noteq> [] then
             (if m_ModelShardPaths m \<noteq> [] then join [CHR 0x00] (modelPaths m) else m_ModelPath m)
           else if m_ManifestDigest m \<noteq> [] then ''manifest:'' @ m_ManifestDigest m
           else if m_Digest m \<noteq> [] then ''digest:'' @ m_Digest m
           else if m_Name m \<noteq> [] then ''name:'' @ m_Name m
           else if m_ShortName m \<noteq> [] then ''short:'' @ m_ShortName m
           else []))"

abbreviation req_key :: "'cfg llm_request \<Rightarrow> string" where
  "req_key r \<equiv> schedulerModelKey (Some (lr_model r))"

definition supportsContextShift :: "'cfg model option \<Rightarrow> bool" where
  "supportsContextShift mm =
     (case mm of
        None \<Rightarrow> True
      | Some m \<Rightarrow> \<not> (m_ModelFamily m = ''deepseek2'' \<or> ''deepseek2'' \<in> set (m_ModelFamilies m)))"

definition resolveContextShift :: "bool option \<Rightarrow> 'cfg model option \<Rightarrow> bool" where
  "resolveContextShift shift m = (case shift of Some b \<Rightarrow> b | None \<Rightarrow> supportsContextShift m)"

definition effectiveContext :: "int \<Rightarrow> int \<Rightarrow> int" where
  "effectiveContext numCtx trainCtx = (if trainCtx > 0 \<and> numCtx > trainCtx then trainCtx else numCtx)"

definition NumCtxWholePool :: int where
  "NumCtxWholePool = 2147483647"

text \<open>The request \<open>getRunner\<close> makes of its arguments.\<close>

definition new_request ::
  "nat \<Rightarrow> 'cfg model \<Rightarrow> runner_opts \<Rightarrow> int option \<Rightarrow> bool \<Rightarrow> bool \<Rightarrow> bool option \<Rightarrow> bool \<Rightarrow> 'cfg llm_request" where
  "new_request i m opts sessionDuration numCtxAuto numBatchAuto shift mediaCall =
     (let opts = (if ro_NumCtx opts = 0 \<and> m_ModelPath m \<noteq> [] \<and> m_wholePool m then opts\<lparr>ro_NumCtx := NumCtxWholePool\<rparr> else opts);
          opts = (if ro_NumCtx opts < 4 then opts\<lparr>ro_NumCtx := 4\<rparr> else opts);
          opts = (if m_vision m \<or> m_ProjectorPaths m \<noteq> [] then opts\<lparr>ro_NumCtx := max (ro_NumCtx opts) 2048\<rparr> else opts);
          contextShift = (if m_ModelPath m \<noteq> [] then resolveContextShift shift (Some m) else False)
      in \<lparr>lr_id = i, lr_model = m, lr_opts = opts, lr_sessionDuration = sessionDuration, lr_schedAttempts = 0,
          lr_oomRetryAttempted = False, lr_numCtxAuto = numCtxAuto, lr_numBatchAuto = numBatchAuto, lr_useMMapAuto = False,
          lr_contextShift = contextShift, lr_shift = shift, lr_mediaCall = mediaCall\<rparr>)"

section \<open>Loaded runners\<close>

text \<open>A timer that has fired is not nil until its callback runs.\<close>

datatype expire_timer = NoTimer | Armed | Fired

text \<open>
  The count of requests is a \<open>uint\<close>: it is a number here, as each of its units is a request in memory, and a decrement of
  zero wraps.  \<open>rr_closed\<close> says that the server process was closed.  Durations count nanoseconds.
\<close>

record 'cfg runner_ref =
  rr_refCount :: nat
  rr_closed :: bool
  rr_pid :: int
  rr_loading :: bool
  rr_sessionDuration :: int
  rr_expireTimer :: expire_timer
  rr_model :: "'cfg model option"
  rr_modelPath :: string
  rr_modelKey :: string
  rr_numCtxAuto :: bool
  rr_numBatchAuto :: bool
  rr_useMMapAuto :: bool
  rr_contextShift :: bool
  rr_trainContext :: int
  rr_llamaConfig :: 'cfg
  rr_Options :: "runner_opts option"

definition uint_dec :: "nat \<Rightarrow> nat" where
  "uint_dec n = (if n = 0 then 2 ^ 64 - 1 else n - 1)"

definition runner_unload :: "'cfg runner_ref \<Rightarrow> 'cfg runner_ref" where
  "runner_unload rn =
     rn\<lparr>rr_expireTimer := NoTimer, rr_closed := True, rr_model := None, rr_Options := None, rr_contextShift := False\<rparr>"

definition runnerServesPastTrainedContext :: "'cfg runner_ref \<Rightarrow> bool" where
  "runnerServesPastTrainedContext rn =
     (case rr_Options rn of
        None \<Rightarrow> False
      | Some opts \<Rightarrow> rr_trainContext rn > 0 \<and> ro_NumCtx opts > rr_trainContext rn)"

definition IsMLX :: "'cfg model \<Rightarrow> bool" where
  "IsMLX m \<longleftrightarrow> m_ModelFormat m = ''safetensors''"

text \<open>Whether a runner can not serve a request; \<open>ping\<close> is whether the server process answers.\<close>

definition needsReload :: "bool \<Rightarrow> 'cfg runner_ref \<Rightarrow> 'cfg llm_request \<Rightarrow> bool" where
  "needsReload ping rn req =
     (case rr_Options rn of
        None \<Rightarrow> True
      | Some optsExisting \<Rightarrow>
          (let optsNew = lr_opts req;
               optsNew = (if \<not> runnerServesPastTrainedContext rn
                          then optsNew\<lparr>ro_NumCtx := effectiveContext (ro_NumCtx optsNew) (rr_trainContext rn)\<rparr> else optsNew);
               optsNew = (if rr_numCtxAuto rn \<and> lr_numCtxAuto req then optsNew\<lparr>ro_NumCtx := ro_NumCtx optsExisting\<rparr> else optsNew);
               optsNew = (if rr_numBatchAuto rn \<and> lr_numBatchAuto req then optsNew\<lparr>ro_NumBatch := ro_NumBatch optsExisting\<rparr> else optsNew);
               optsNew = (if rr_useMMapAuto rn \<and> ro_UseMMap optsNew = None then optsNew\<lparr>ro_UseMMap := ro_UseMMap optsExisting\<rparr> else optsNew);
               (optsExisting, optsNew) =
                 (if ro_NumGPU optsNew < 0 then (optsExisting\<lparr>ro_NumGPU := -1\<rparr>, optsNew\<lparr>ro_NumGPU := -1\<rparr>) else (optsExisting, optsNew));
               contextShift = (if m_ModelPath (lr_model req) \<noteq> [] then resolveContextShift (lr_shift req) (Some (lr_model req))
                               else lr_contextShift req);
               (optsNew, contextShift) = (if lr_mediaCall req then (optsExisting, rr_contextShift rn) else (optsNew, contextShift))
           in rr_contextShift rn \<noteq> contextShift \<or> rr_llamaConfig rn \<noteq> m_config (lr_model req) \<or>
              (case rr_model rn of
                 None \<Rightarrow> True
               | Some loaded \<Rightarrow>
                   m_AdapterPaths loaded \<noteq> m_AdapterPaths (lr_model req) \<or>
                   m_ProjectorPaths loaded \<noteq> m_ProjectorPaths (lr_model req) \<or>
                   (\<not> IsMLX loaded \<and> optsExisting \<noteq> optsNew) \<or> \<not> ping)))"

text \<open>What \<open>useLoadedRunner\<close> makes of a runner, and what making it expire does.\<close>

definition use_runner :: "'cfg llm_request \<Rightarrow> 'cfg runner_ref \<Rightarrow> 'cfg runner_ref" where
  "use_runner req rn =
     rn\<lparr>rr_refCount := rr_refCount rn + 1, rr_expireTimer := NoTimer,
        rr_sessionDuration := (case lr_sessionDuration req of Some d \<Rightarrow> d | None \<Rightarrow> rr_sessionDuration rn)\<rparr>"

definition expire_now :: "'cfg runner_ref \<Rightarrow> 'cfg runner_ref" where
  "expire_now rn = rn\<lparr>rr_expireTimer := NoTimer, rr_sessionDuration := 0\<rparr>"

section \<open>The runner to unload\<close>

text \<open>The order of \<open>ByDurationAndName\<close>: the duration as an unsigned integer, then the path or key.\<close>

definition duration_and_name :: "'cfg runner_ref \<Rightarrow> int \<times> string" where
  "duration_and_name rn =
     (rr_sessionDuration rn mod 2 ^ 64, if rr_modelPath rn = [] then rr_modelKey rn else rr_modelPath rn)"

definition pickRunnerToUnload :: "(nat \<Rightarrow> 'cfg runner_ref) \<Rightarrow> nat list \<Rightarrow> nat option" where
  "pickRunnerToUnload rn runners =
     (if runners = [] then None
      else let runners = sort_key (\<lambda>a. duration_and_name (rn a)) runners
           in case List.find (\<lambda>a. rr_refCount (rn a) = 0) runners of Some a \<Rightarrow> Some a | None \<Rightarrow> Some (hd runners))"

text \<open>The same choice among all loaded runners.\<close>

definition findRunnerToUnload :: "(nat \<Rightarrow> 'cfg runner_ref) \<Rightarrow> nat list \<Rightarrow> nat option" where
  "findRunnerToUnload rn runnerList =
     (if runnerList = [] then None
      else let runnerList = sort_key (\<lambda>a. duration_and_name (rn a)) runnerList
           in case List.find (\<lambda>a. rr_refCount (rn a) = 0) runnerList of Some a \<Rightarrow> Some a | None \<Rightarrow> Some (hd runnerList))"

section \<open>Caps per kind of model\<close>

text \<open>The limits of the environment, and whether the engine is stock llama.cpp.\<close>

record load_limits =
  ll_Image :: nat
  ll_Speech :: nat
  ll_Transcription :: nat
  ll_Video :: nat
  ll_SFX :: nat
  ll_Decision :: nat
  ll_llamacpp :: bool

definition isMediaKey :: "string \<Rightarrow> bool" where
  "isMediaKey path = has_prefix path ''media:''"

definition mediaServes :: "(media_config \<Rightarrow> bool) \<Rightarrow> 'cfg model \<Rightarrow> bool" where
  "mediaServes serves m =
     (if \<not> isMediaKey (m_ModelPath m) then False else case m_media m of None \<Rightarrow> False | Some media \<Rightarrow> serves media)"

definition decisionLimit :: "load_limits \<Rightarrow> nat" where
  "decisionLimit l = (if ll_llamacpp l then 0 else ll_Decision l)"

definition isDecisionModel :: "'cfg model \<Rightarrow> bool" where
  "isDecisionModel m \<longleftrightarrow> m_decisionType m \<noteq> [] \<or> ''decision'' \<in> set (m_Capabilities m)"

type_synonym 'cfg load_kind = "nat \<times> ('cfg model \<Rightarrow> bool)"

definition loadKinds :: "load_limits \<Rightarrow> 'cfg load_kind list" where
  "loadKinds l =
     [(ll_Image l, mediaServes mc_Image), (ll_Speech l, mediaServes mc_TTS), (ll_Transcription l, mediaServes mc_STT),
      (ll_Video l, mediaServes mc_Video), (ll_SFX l, mediaServes mc_SFX), (decisionLimit l, isDecisionModel)]"

definition kindsOf :: "load_limits \<Rightarrow> 'cfg model option \<Rightarrow> 'cfg load_kind list" where
  "kindsOf l mm = (case mm of None \<Rightarrow> [] | Some m \<Rightarrow> filter (\<lambda>(_, serves). serves m) (loadKinds l))"

definition inSharedPool :: "load_limits \<Rightarrow> 'cfg model option \<Rightarrow> bool" where
  "inSharedPool l mm = (let kinds = kindsOf l mm in if list_ex (\<lambda>(limit, _). limit = 0) kinds then True else kinds = [])"

definition loadedRunners :: "('cfg model option \<Rightarrow> bool) \<Rightarrow> (nat \<Rightarrow> 'cfg runner_ref) \<Rightarrow> nat list \<Rightarrow> nat list" where
  "loadedRunners keep rn loaded = filter (\<lambda>a. keep (rr_model (rn a))) loaded"

fun kind_cap_victim :: "(nat \<Rightarrow> 'cfg runner_ref) \<Rightarrow> nat list \<Rightarrow> 'cfg load_kind list \<Rightarrow> nat option" where
  "kind_cap_victim rn loaded [] = None"
| "kind_cap_victim rn loaded ((limit, serves) # ks) =
     (if limit = 0 then kind_cap_victim rn loaded ks
      else let same = loadedRunners (\<lambda>m. case m of None \<Rightarrow> False | Some m \<Rightarrow> serves m) rn loaded
           in if length same \<ge> limit then pickRunnerToUnload rn same else kind_cap_victim rn loaded ks)"

definition kindCapVictim :: "load_limits \<Rightarrow> (nat \<Rightarrow> 'cfg runner_ref) \<Rightarrow> nat list \<Rightarrow> 'cfg model \<Rightarrow> nat option" where
  "kindCapVictim l rn loaded m = kind_cap_victim rn loaded (kindsOf l (Some m))"

definition sharedRunnerCount :: "load_limits \<Rightarrow> (nat \<Rightarrow> 'cfg runner_ref) \<Rightarrow> nat list \<Rightarrow> 'cfg model \<Rightarrow> nat" where
  "sharedRunnerCount l rn loaded m =
     (if \<not> inSharedPool l (Some m) then 0 else length (loadedRunners (inSharedPool l) rn loaded))"

definition findSharedRunnerToUnload :: "load_limits \<Rightarrow> (nat \<Rightarrow> 'cfg runner_ref) \<Rightarrow> nat list \<Rightarrow> nat option" where
  "findSharedRunnerToUnload l rn loaded = pickRunnerToUnload rn (loadedRunners (inSharedPool l) rn loaded)"

end
