(* ===== verification/Scheduler.thy ===== *)
theory Scheduler
  imports SchedTypes
begin

text \<open>
  The scheduler of \<open>server/sched.go\<close> as a step relation.  Its goroutines are the loop \<open>processPending\<close>, the loop
  \<open>processCompleted\<close>, the callers of \<open>getRunner\<close>, and the ones the code spawns: those that wait for the end of a request,
  those that wait for a server to run, timer callbacks, retries of an expiry and callers of \<open>expireRunner\<close>.  Each step is
  what one of them does between two points at which it releases its locks, so that the steps interleave as the
  goroutines do; a channel that is full blocks its senders.  A runner is an address in a store, its lock is held over
  several steps only while its server starts and while its memory is recovered.
\<close>

section \<open>State\<close>

datatype reply = Granted nat | Failed string

text \<open>A caller of \<open>getRunner\<close>: it has looked up a runner, or has also checked it.\<close>

datatype 'cfg call = Looked "'cfg llm_request" nat | Checked "'cfg llm_request" nat

text \<open>Where \<open>processPending\<close> is.  From \<open>PLoad\<close> to \<open>PEvict\<close> it is in \<open>load\<close> with the argument \<open>requireFull\<close>; \<open>PPanic\<close> is the panic there.\<close>

datatype 'cfg pend =
    PIdle
  | PTry "'cfg llm_request"
  | PFound "'cfg llm_request" nat
  | PUse "'cfg llm_request" nat
  | PLoad "'cfg llm_request" bool
  | PLoading "'cfg llm_request" bool
  | PEvict "'cfg llm_request" bool
  | PExpire "'cfg llm_request" nat
  | PWait "'cfg llm_request" nat
  | PEvictAll "'cfg llm_request" "nat list" nat
  | PPanic

datatype comp = CIdle | CRecover nat | CSend

record 'cfg sched =
  sc_pendingReqCh :: "'cfg llm_request list"
  sc_finishedReqCh :: "'cfg llm_request list"
  sc_expiredCh :: "nat list"
  sc_unloadedCh :: nat
  sc_activeLoading :: "string option"
  sc_loaded :: "string \<Rightarrow> nat option"
  sc_runner :: "nat \<Rightarrow> 'cfg runner_ref"
  sc_next :: nat
  sc_maxRunners :: nat
  sc_pend :: "'cfg pend"
  sc_comp :: comp
  sc_calls :: "'cfg call list"
  sc_waiting :: "('cfg llm_request \<times> nat) list"
  sc_starting :: "('cfg llm_request \<times> nat) list"
  sc_firing :: "nat list"
  sc_retrying :: "nat list"
  sc_expiring :: "nat list"
  sc_cancelled :: "nat list"
  sc_replies :: "(nat \<times> reply) list"

record sched_env =
  se_MaxQueue :: nat
  se_MaxRunners :: nat
  se_KeepAlive :: int
  se_limits :: load_limits

definition InitScheduler :: "sched_env \<Rightarrow> (nat \<Rightarrow> 'cfg runner_ref) \<Rightarrow> 'cfg sched" where
  "InitScheduler env store =
     \<lparr>sc_pendingReqCh = [], sc_finishedReqCh = [], sc_expiredCh = [], sc_unloadedCh = 0, sc_activeLoading = None,
      sc_loaded = (\<lambda>_. None), sc_runner = store, sc_next = 0, sc_maxRunners = se_MaxRunners env, sc_pend = PIdle, sc_comp = CIdle,
      sc_calls = [], sc_waiting = [], sc_starting = [], sc_firing = [], sc_retrying = [], sc_expiring = [],
      sc_cancelled = [], sc_replies = []\<rparr>"

text \<open>The lock of a runner is held by a goroutine that is between two steps.\<close>

definition held :: "'cfg sched \<Rightarrow> nat \<Rightarrow> bool" where
  "held s a \<longleftrightarrow> a \<in> snd ` set (sc_starting s) \<or> sc_comp s = CRecover a"

definition upd_runner :: "nat \<Rightarrow> ('cfg runner_ref \<Rightarrow> 'cfg runner_ref) \<Rightarrow> 'cfg sched \<Rightarrow> 'cfg sched" where
  "upd_runner a f s = s\<lparr>sc_runner := (sc_runner s)(a := f (sc_runner s a))\<rparr>"

text \<open>The loaded runners in the order in which a loop over the map meets them.\<close>

definition loaded_list :: "'cfg sched \<Rightarrow> nat list \<Rightarrow> bool" where
  "loaded_list s as \<longleftrightarrow> distinct as \<and> set as = ran (sc_loaded s)"

definition send_reply :: "'cfg llm_request \<Rightarrow> reply \<Rightarrow> 'cfg sched \<Rightarrow> 'cfg sched" where
  "send_reply r p s = s\<lparr>sc_replies := sc_replies s @ [(lr_id r, p)]\<rparr>"

definition send_expired :: "nat \<Rightarrow> 'cfg sched \<Rightarrow> 'cfg sched" where
  "send_expired a s = s\<lparr>sc_expiredCh := sc_expiredCh s @ [a]\<rparr>"

definition ErrMaxQueue :: string where
  "ErrMaxQueue = ''server busy, please try again.  maximum pending requests exceeded''"

section \<open>Requests\<close>

text \<open>\<open>getRunner\<close>: the lookup, and the request that is queued.\<close>

definition enqueue :: "sched_env \<Rightarrow> 'cfg llm_request \<Rightarrow> 'cfg sched \<Rightarrow> 'cfg sched" where
  "enqueue env r s =
     (if length (sc_pendingReqCh s) < se_MaxQueue env then s\<lparr>sc_pendingReqCh := sc_pendingReqCh s @ [r]\<rparr>
      else send_reply r (Failed ErrMaxQueue) s)"

definition getRunner :: "sched_env \<Rightarrow> 'cfg llm_request \<Rightarrow> 'cfg sched \<Rightarrow> 'cfg sched" where
  "getRunner env r s =
     (case sc_loaded s (req_key r) of
        Some a \<Rightarrow> s\<lparr>sc_calls := sc_calls s @ [Looked r a]\<rparr>
      | None \<Rightarrow> enqueue env r s)"

definition useLoadedRunner :: "'cfg llm_request \<Rightarrow> nat \<Rightarrow> 'cfg sched \<Rightarrow> 'cfg sched" where
  "useLoadedRunner r a s =
     (let s = send_reply r (Granted a) (upd_runner a (use_runner r) s) in s\<lparr>sc_waiting := sc_waiting s @ [(r, a)]\<rparr>)"

text \<open>
  A runner is made to expire: by \<open>processPending\<close>, \<open>evictAllAndWait\<close>, \<open>expireRunner\<close> and \<open>expireRunnersForRuntimeOOM\<close>.
\<close>

definition expire :: "nat \<Rightarrow> 'cfg sched \<Rightarrow> 'cfg sched" where
  "expire a s =
     (let s = upd_runner a expire_now s in if rr_refCount (sc_runner s a) = 0 then send_expired a s else s)"

definition can_expire :: "sched_env \<Rightarrow> nat \<Rightarrow> 'cfg sched \<Rightarrow> bool" where
  "can_expire env a s \<longleftrightarrow> \<not> held s a \<and> length (sc_expiredCh (expire a s)) \<le> se_MaxQueue env"

text \<open>The runners a call of \<open>expireRunner\<close> is about; an error of memory is about all.\<close>

definition expire_targets :: "'cfg model option \<Rightarrow> 'cfg sched \<Rightarrow> nat list \<Rightarrow> nat list" where
  "expire_targets mm s loaded =
     (case sc_loaded s (schedulerModelKey mm) of
        Some a \<Rightarrow> [a]
      | None \<Rightarrow>
          (case mm of
             None \<Rightarrow> []
           | Some m \<Rightarrow>
               (if m_Name m = [] then []
                else filter (\<lambda>a. case rr_model (sc_runner s a) of None \<Rightarrow> False | Some m' \<Rightarrow> m_Name m' = m_Name m) loaded)))"

section \<open>Completed requests and expired runners\<close>

text \<open>A finished request; \<open>exited\<close> says whether the server process has.\<close>

definition mediaEngineGone :: "bool \<Rightarrow> 'cfg runner_ref \<Rightarrow> 'cfg runner_ref" where
  "mediaEngineGone exited rn =
     (if \<not> isMediaKey (rr_modelKey rn) \<or> \<not> exited \<or> rr_sessionDuration rn \<le> 0 then rn else rn\<lparr>rr_sessionDuration := 0\<rparr>)"

definition finish_request :: "bool \<Rightarrow> nat \<Rightarrow> 'cfg sched \<Rightarrow> 'cfg sched" where
  "finish_request exited a s =
     (let s = upd_runner a (\<lambda>rn. rn\<lparr>rr_refCount := uint_dec (rr_refCount rn)\<rparr>) s
      in if rr_refCount (sc_runner s a) = 0 then
           (let s = upd_runner a (mediaEngineGone exited) s
            in if rr_sessionDuration (sc_runner s a) \<le> 0
               then send_expired a (upd_runner a (\<lambda>rn. rn\<lparr>rr_expireTimer := NoTimer\<rparr>) s)
               else upd_runner a (\<lambda>rn. rn\<lparr>rr_expireTimer := Armed\<rparr>) s)
         else s)"

text \<open>An expiry of a runner that nobody uses.\<close>

definition expired_idle :: "nat \<Rightarrow> 'cfg sched \<Rightarrow> 'cfg sched" where
  "expired_idle a s =
     (case sc_loaded s (rr_modelKey (sc_runner s a)) of
        None \<Rightarrow> s
      | Some b \<Rightarrow>
          (if rr_pid (sc_runner s a) \<noteq> rr_pid (sc_runner s b) then upd_runner a runner_unload s
           else (upd_runner a runner_unload s)
             \<lparr>sc_loaded := (sc_loaded s)(rr_modelKey (sc_runner s a) := None), sc_comp := CRecover a\<rparr>))"

definition expired_event :: "nat \<Rightarrow> 'cfg sched \<Rightarrow> 'cfg sched" where
  "expired_event a s =
     (if rr_refCount (sc_runner s a) > 0 then s\<lparr>sc_retrying := sc_retrying s @ [a]\<rparr> else expired_idle a s)"

section \<open>Loading\<close>

text \<open>
  What \<open>load\<close> meets before it starts a server: an error in the model's files; the batch size it chooses; whether other models
  have to go; whether mapping the model's file is turned off; an error of the constructor, or a server for the path.
  \<open>pf_shares\<close>: the load does not ask for a partial offload and has GPUs; \<open>pf_needsEviction\<close>: the answer of \<open>needsEviction\<close>.
\<close>

record preflight =
  pf_metadataErr :: "string option"
  pf_NumBatch :: int
  pf_shares :: bool
  pf_needsEviction :: bool
  pf_disableMmap :: bool
  pf_server :: "string + string"

text \<open>What the server answers to \<open>Load\<close>; an error may be out of memory, and then may leave a smaller context.\<close>

datatype load_answer = LoadOk int int | LoadRequiredFull | LoadErr string bool "(int \<times> int) option"

definition want_path :: "'cfg model \<Rightarrow> string" where
  "want_path m = (if m_ModelPath m = [] then m_ShortName m else m_ModelPath m)"

definition is_gguf_load :: "'cfg model \<Rightarrow> bool" where
  "is_gguf_load m \<longleftrightarrow> \<not> isMediaKey (m_ModelPath m) \<and> \<not> IsMLX m"

definition start_server :: "preflight \<Rightarrow> 'cfg llm_request \<Rightarrow> bool \<Rightarrow> 'cfg sched \<Rightarrow> 'cfg sched" where
  "start_server pf r requireFull s =
     (case pf_server pf of
        Inl err \<Rightarrow> (send_reply r (Failed err) s)\<lparr>sc_pend := PIdle\<rparr>
      | Inr path \<Rightarrow> s\<lparr>sc_activeLoading := Some path, sc_pend := PLoading r requireFull\<rparr>)"

text \<open>The part of \<open>load\<close> up to the start of the server.\<close>

definition load_prepare :: "preflight \<Rightarrow> 'cfg llm_request \<Rightarrow> bool \<Rightarrow> 'cfg sched \<Rightarrow> 'cfg sched" where
  "load_prepare pf r requireFull s =
     (case sc_activeLoading s of
        Some path \<Rightarrow>
          (if path \<noteq> want_path (lr_model r) then s\<lparr>sc_pend := PPanic\<rparr> else s\<lparr>sc_pend := PLoading r requireFull\<rparr>)
      | None \<Rightarrow>
          (if is_gguf_load (lr_model r) then
             (case pf_metadataErr pf of
                Some err \<Rightarrow> (send_reply r (Failed err) s)\<lparr>sc_pend := PIdle\<rparr>
              | None \<Rightarrow>
                  (let r = r\<lparr>lr_opts := (lr_opts r)\<lparr>ro_NumBatch := pf_NumBatch pf\<rparr>\<rparr>
                   in if requireFull \<and> pf_shares pf \<and> sc_loaded s \<noteq> (\<lambda>_. None) \<and> pf_needsEviction pf
                      then s\<lparr>sc_pend := PEvict r requireFull\<rparr>
                      else
                        (let r = (if pf_disableMmap pf
                                  then r\<lparr>lr_opts := (lr_opts r)\<lparr>ro_UseMMap := Some False\<rparr>, lr_useMMapAuto := True\<rparr> else r);
                             r = r\<lparr>lr_contextShift := resolveContextShift (lr_shift r) (Some (lr_model r))\<rparr>
                         in start_server pf r requireFull s)))
           else start_server pf r requireFull s))"

text \<open>The runner of a load: its context may be larger or smaller than asked for.\<close>

definition new_runner :: "sched_env \<Rightarrow> int \<Rightarrow> int \<Rightarrow> int \<Rightarrow> 'cfg llm_request \<Rightarrow> 'cfg runner_ref" where
  "new_runner env pid ctx trainCtx r =
     (let m = lr_model r;
          fixed = m_ModelPath m \<noteq> [] \<and> ctx > 0
      in \<lparr>rr_refCount = 0, rr_closed = False, rr_pid = pid, rr_loading = True,
          rr_sessionDuration = (case lr_sessionDuration r of Some d \<Rightarrow> d | None \<Rightarrow> se_KeepAlive env),
          rr_expireTimer = NoTimer, rr_model = Some m, rr_modelPath = m_ModelPath m, rr_modelKey = schedulerModelKey (Some m),
          rr_numCtxAuto = lr_numCtxAuto r, rr_numBatchAuto = lr_numBatchAuto r, rr_useMMapAuto = lr_useMMapAuto r,
          rr_contextShift = (if fixed then resolveContextShift (lr_shift r) (Some m) else lr_contextShift r),
          rr_trainContext = trainCtx, rr_llamaConfig = m_config m,
          rr_Options = Some (if fixed then (lr_opts r)\<lparr>ro_NumCtx := ctx\<rparr> else lr_opts r)\<rparr>)"

definition insert_runner :: "'cfg llm_request \<Rightarrow> 'cfg runner_ref \<Rightarrow> 'cfg sched \<Rightarrow> 'cfg sched" where
  "insert_runner r rn s =
     (let s = (case sc_loaded s (rr_modelKey rn) of None \<Rightarrow> s | Some old \<Rightarrow> upd_runner old runner_unload s);
          a = sc_next s
      in (upd_runner a (\<lambda>_. rn) s)
           \<lparr>sc_next := a + 1, sc_activeLoading := None, sc_loaded := (sc_loaded s)(rr_modelKey rn := Some a),
            sc_starting := sc_starting s @ [(r, a)], sc_pend := PIdle\<rparr>)"

text \<open>An error of the server: retried once when it is out of memory, with a smaller context or without other models.\<close>

definition load_failed :: "'cfg llm_request \<Rightarrow> bool \<Rightarrow> string \<Rightarrow> bool \<Rightarrow> (int \<times> int) option \<Rightarrow> 'cfg sched \<Rightarrow> 'cfg sched" where
  "load_failed r requireFull err oom reduced s =
     (let s = s\<lparr>sc_activeLoading := None\<rparr>;
          otherLoaded = (sc_loaded s \<noteq> (\<lambda>_. None));
          again = (\<lambda>r. s\<lparr>sc_pend := PEvict (r\<lparr>lr_oomRetryAttempted := True\<rparr>) requireFull\<rparr>);
          fail = (send_reply r (Failed err) s)\<lparr>sc_pend := PIdle\<rparr>
      in if \<not> lr_oomRetryAttempted r \<and> oom then
           (if lr_numCtxAuto r \<and> reduced \<noteq> None
            then again (r\<lparr>lr_opts := (lr_opts r)\<lparr>ro_NumCtx := fst (the reduced), ro_NumBatch := snd (the reduced)\<rparr>\<rparr>)
            else if otherLoaded then again r else fail)
         else fail)"

definition load_answered :: "sched_env \<Rightarrow> 'cfg llm_request \<Rightarrow> bool \<Rightarrow> int \<Rightarrow> load_answer \<Rightarrow> 'cfg sched \<Rightarrow> 'cfg sched" where
  "load_answered env r requireFull trainCtx ans s =
     (case ans of
        LoadRequiredFull \<Rightarrow>
          (if \<not> requireFull then (send_reply r (Failed ''unable to load full model on GPU'') (s\<lparr>sc_activeLoading := None\<rparr>))\<lparr>sc_pend := PIdle\<rparr>
           else s\<lparr>sc_pend := PEvict r True\<rparr>)
      | LoadErr err oom reduced \<Rightarrow> load_failed r requireFull err oom reduced s
      | LoadOk pid ctx \<Rightarrow> insert_runner r (new_runner env pid ctx trainCtx r) s)"

text \<open>The server runs, or it does not.\<close>

definition runner_started :: "int \<Rightarrow> 'cfg llm_request \<Rightarrow> nat \<Rightarrow> 'cfg sched \<Rightarrow> 'cfg sched" where
  "runner_started pid r a s =
     (let s = upd_runner a (\<lambda>rn. rn\<lparr>rr_pid := (if rr_pid rn < 0 then pid else rr_pid rn),
                                     rr_refCount := rr_refCount rn + 1, rr_loading := False\<rparr>) s
      in (send_reply r (Granted a) s)\<lparr>sc_starting := remove1 (r, a) (sc_starting s), sc_waiting := sc_waiting s @ [(r, a)]\<rparr>)"

definition runner_not_started :: "string \<Rightarrow> 'cfg llm_request \<Rightarrow> nat \<Rightarrow> 'cfg sched \<Rightarrow> 'cfg sched" where
  "runner_not_started err r a s =
     (send_expired a (send_reply r (Failed err) s))\<lparr>sc_starting := remove1 (r, a) (sc_starting s)\<rparr>"

section \<open>The pending loop\<close>

text \<open>The runner that has to go before a new one may be loaded, if any; the count of loaded runners is bounded.\<close>

definition room_victim :: "sched_env \<Rightarrow> 'cfg llm_request \<Rightarrow> nat list \<Rightarrow> 'cfg sched \<Rightarrow> nat option option" where
  "room_victim env r loaded s =
     (case kindCapVictim (se_limits env) (sc_runner s) loaded (lr_model r) of
        Some v \<Rightarrow> Some (Some v)
      | None \<Rightarrow>
          (if sc_maxRunners s > 0 \<and> sharedRunnerCount (se_limits env) (sc_runner s) loaded (lr_model r) \<ge> sc_maxRunners s
           then Some (findSharedRunnerToUnload (se_limits env) (sc_runner s) loaded) else None))"

definition defaultModelsPerGPU :: nat where
  "defaultModelsPerGPU = 3"

text \<open>The loop is about to load: the bound is set, and a pin of devices that are not there refuses the request.\<close>

definition try_load :: "nat \<Rightarrow> string option \<Rightarrow> 'cfg llm_request \<Rightarrow> 'cfg sched \<Rightarrow> 'cfg sched" where
  "try_load gpuCount refused r s =
     (let s = (if sc_maxRunners s = 0 then s\<lparr>sc_maxRunners := defaultModelsPerGPU * max gpuCount 1\<rparr> else s)
      in case (if ro_NumGPU (lr_opts r) \<noteq> 0 then refused else None) of
           Some err \<Rightarrow> (send_reply r (Failed err) s)\<lparr>sc_pend := PIdle\<rparr>
         | None \<Rightarrow> s\<lparr>sc_pend := PLoad r (sc_loaded s \<noteq> (\<lambda>_. None))\<rparr>)"

text \<open>
  The load asked for an eviction, or to be tried again when no model was loaded; \<open>on\<close> are the loaded runners on the GPUs of
  the load, where opencoti serves it, and the choice is made among them first (\<open>findRunnerToUnloadOn\<close>).
\<close>

definition findRunnerToUnloadOn :: "(nat \<Rightarrow> 'cfg runner_ref) \<Rightarrow> nat list \<Rightarrow> nat list \<Rightarrow> nat option" where
  "findRunnerToUnloadOn rn on loaded =
     (if on = [] then findRunnerToUnload rn loaded
      else let on = sort_key (\<lambda>a. duration_and_name (rn a)) on
           in case List.find (\<lambda>a. rr_refCount (rn a) = 0) on of Some a \<Rightarrow> Some a | None \<Rightarrow> Some (hd on))"

definition evict_one :: "bool \<Rightarrow> nat list \<Rightarrow> nat list \<Rightarrow> 'cfg llm_request \<Rightarrow> 'cfg sched \<Rightarrow> 'cfg sched" where
  "evict_one full on loaded r s =
     (if \<not> full then s\<lparr>sc_pend := PTry r\<rparr>
      else if lr_oomRetryAttempted r then
        (let victims = filter (\<lambda>a. sc_loaded s (req_key r) \<noteq> Some a) loaded
         in s\<lparr>sc_pend := PEvictAll r victims (length victims)\<rparr>)
      else case findRunnerToUnloadOn (sc_runner s) on loaded of
             None \<Rightarrow> s\<lparr>sc_pend := PTry r\<rparr>
           | Some v \<Rightarrow> s\<lparr>sc_pend := PExpire r v\<rparr>)"

section \<open>Steps\<close>

text \<open>Events: a runner is given to a request, a runner is made with a process id, anything else.\<close>

datatype 'cfg event = Grant "'cfg llm_request" nat | Start nat int | Other

inductive sched_step :: "sched_env \<Rightarrow> 'cfg sched \<Rightarrow> 'cfg event \<Rightarrow> 'cfg sched \<Rightarrow> bool" for env where
  get: "sched_step env s Other (getRunner env (new_request i m opts duration ctxAuto batchAuto shift mediaCall) s)"
| check_reload: "Looked r a \<in> set (sc_calls s) \<Longrightarrow> \<not> held s a \<Longrightarrow> needsReload ping (sc_runner s a) r \<Longrightarrow>
    sched_step env s Other (enqueue env r (s\<lparr>sc_calls := remove1 (Looked r a) (sc_calls s)\<rparr>))"
| check_ok: "Looked r a \<in> set (sc_calls s) \<Longrightarrow> \<not> held s a \<Longrightarrow> \<not> needsReload ping (sc_runner s a) r \<Longrightarrow>
    sched_step env s Other (s\<lparr>sc_calls := remove1 (Looked r a) (sc_calls s) @ [Checked r a]\<rparr>)"
| use: "Checked r a \<in> set (sc_calls s) \<Longrightarrow> \<not> held s a \<Longrightarrow>
    sched_step env s (Grant r a) (useLoadedRunner r a (s\<lparr>sc_calls := remove1 (Checked r a) (sc_calls s)\<rparr>))"
| cancel: "sched_step env s Other (s\<lparr>sc_cancelled := i # sc_cancelled s\<rparr>)"
| request_done: "(r, a) \<in> set (sc_waiting s) \<Longrightarrow> lr_id r \<in> set (sc_cancelled s) \<Longrightarrow> length (sc_finishedReqCh s) < se_MaxQueue env \<Longrightarrow>
    sched_step env s Other (s\<lparr>sc_waiting := remove1 (r, a) (sc_waiting s), sc_finishedReqCh := sc_finishedReqCh s @ [r]\<rparr>)"
| pend_skip: "sc_pend s = PIdle \<Longrightarrow> sc_pendingReqCh s = r # rs \<Longrightarrow> lr_id r \<in> set (sc_cancelled s) \<Longrightarrow>
    sched_step env s Other (s\<lparr>sc_pendingReqCh := rs\<rparr>)"
| pend_take: "sc_pend s = PIdle \<Longrightarrow> sc_pendingReqCh s = r # rs \<Longrightarrow> lr_id r \<notin> set (sc_cancelled s) \<Longrightarrow>
    sched_step env s Other (s\<lparr>sc_pendingReqCh := rs, sc_pend := PTry (r\<lparr>lr_schedAttempts := lr_schedAttempts r + 1\<rparr>)\<rparr>)"
| pend_ignore: "sc_pend s = PIdle \<Longrightarrow> sc_unloadedCh s = Suc n \<Longrightarrow> sched_step env s Other (s\<lparr>sc_unloadedCh := n\<rparr>)"
| pend_found: "sc_pend s = PTry r \<Longrightarrow> sc_loaded s (req_key r) = Some a \<Longrightarrow>
    sched_step env s Other (s\<lparr>sc_pend := PFound r a\<rparr>)"
| pend_reload: "sc_pend s = PFound r a \<Longrightarrow> \<not> held s a \<Longrightarrow> needsReload ping (sc_runner s a) r \<Longrightarrow>
    sched_step env s Other (s\<lparr>sc_pend := PExpire r a\<rparr>)"
| pend_ok: "sc_pend s = PFound r a \<Longrightarrow> \<not> held s a \<Longrightarrow> \<not> needsReload ping (sc_runner s a) r \<Longrightarrow>
    sched_step env s Other (s\<lparr>sc_pend := PUse r a\<rparr>)"
| pend_use: "sc_pend s = PUse r a \<Longrightarrow> \<not> held s a \<Longrightarrow>
    sched_step env s (Grant r a) (useLoadedRunner r a (s\<lparr>sc_pend := PIdle\<rparr>))"
| pend_room: "sc_pend s = PTry r \<Longrightarrow> sc_loaded s (req_key r) = None \<Longrightarrow> loaded_list s as \<Longrightarrow> room_victim env r as s = Some v \<Longrightarrow>
    sched_step env s Other (s\<lparr>sc_pend := (case v of None \<Rightarrow> PTry r | Some a \<Rightarrow> PExpire r a)\<rparr>)"
| pend_load: "sc_pend s = PTry r \<Longrightarrow> sc_loaded s (req_key r) = None \<Longrightarrow> loaded_list s as \<Longrightarrow> room_victim env r as s = None \<Longrightarrow>
    sched_step env s Other (try_load gpuCount refused r s)"
| load_start: "sc_pend s = PLoad r full \<Longrightarrow> sched_step env s Other (load_prepare pf r full s)"
| load_done: "sc_pend s = PLoading r full \<Longrightarrow>
    sched_step env s (case ans of LoadOk pid _ \<Rightarrow> Start (sc_next s) pid | _ \<Rightarrow> Other) (load_answered env r full trainCtx ans s)"
| load_running: "(r, a) \<in> set (sc_starting s) \<Longrightarrow> sched_step env s (Start a pid) (runner_started pid r a s)"
| load_not_running: "(r, a) \<in> set (sc_starting s) \<Longrightarrow> length (sc_expiredCh s) < se_MaxQueue env \<Longrightarrow>
    sched_step env s Other (runner_not_started err r a s)"
| pend_evict: "sc_pend s = PEvict r full \<Longrightarrow> loaded_list s as \<Longrightarrow> set on \<subseteq> set as \<Longrightarrow>
    sched_step env s Other (evict_one full on as r s)"
| pend_expire: "sc_pend s = PExpire r a \<Longrightarrow> can_expire env a s \<Longrightarrow> sched_step env s Other ((expire a s)\<lparr>sc_pend := PWait r a\<rparr>)"
| pend_unloaded: "sc_pend s = PWait r a \<Longrightarrow> sc_unloadedCh s = Suc n \<Longrightarrow>
    sched_step env s Other (s\<lparr>sc_unloadedCh := n, sc_pend := PTry r\<rparr>)"
| evict_all: "sc_pend s = PEvictAll r (a # as) n \<Longrightarrow> can_expire env a s \<Longrightarrow>
    sched_step env s Other ((expire a s)\<lparr>sc_pend := PEvictAll r as n\<rparr>)"
| evict_all_wait: "sc_pend s = PEvictAll r [] (Suc k) \<Longrightarrow> sc_unloadedCh s = Suc n \<Longrightarrow>
    sched_step env s Other (s\<lparr>sc_unloadedCh := n, sc_pend := PEvictAll r [] k\<rparr>)"
| evict_all_done: "sc_pend s = PEvictAll r [] 0 \<Longrightarrow> sched_step env s Other (s\<lparr>sc_pend := PTry r\<rparr>)"
| comp_lost: "sc_comp s = CIdle \<Longrightarrow> sc_finishedReqCh s = r # rs \<Longrightarrow> sc_loaded s (req_key r) = None \<Longrightarrow>
    sched_step env s Other (s\<lparr>sc_finishedReqCh := rs\<rparr>)"
| comp_finished: "sc_comp s = CIdle \<Longrightarrow> sc_finishedReqCh s = r # rs \<Longrightarrow> sc_loaded s (req_key r) = Some a \<Longrightarrow> \<not> held s a \<Longrightarrow>
    length (sc_expiredCh (finish_request exited a (s\<lparr>sc_finishedReqCh := rs\<rparr>))) \<le> se_MaxQueue env \<Longrightarrow>
    sched_step env s Other (finish_request exited a (s\<lparr>sc_finishedReqCh := rs\<rparr>))"
| comp_expired: "sc_comp s = CIdle \<Longrightarrow> sc_expiredCh s = a # as \<Longrightarrow> \<not> held s a \<Longrightarrow>
    sched_step env s Other (expired_event a (s\<lparr>sc_expiredCh := as\<rparr>))"
| comp_recovered: "sc_comp s = CRecover a \<Longrightarrow> sched_step env s Other (s\<lparr>sc_comp := CSend\<rparr>)"
| comp_send: "sc_comp s = CSend \<Longrightarrow> sc_unloadedCh s < se_MaxQueue env \<Longrightarrow>
    sched_step env s Other (s\<lparr>sc_unloadedCh := sc_unloadedCh s + 1, sc_comp := CIdle\<rparr>)"
| retry: "a \<in> set (sc_retrying s) \<Longrightarrow> length (sc_expiredCh s) < se_MaxQueue env \<Longrightarrow>
    sched_step env s Other (send_expired a (s\<lparr>sc_retrying := remove1 a (sc_retrying s)\<rparr>))"
| timer_fires: "rr_expireTimer (sc_runner s a) = Armed \<Longrightarrow> a < sc_next s \<Longrightarrow>
    sched_step env s Other ((upd_runner a (\<lambda>rn. rn\<lparr>rr_expireTimer := Fired\<rparr>) s)\<lparr>sc_firing := sc_firing s @ [a]\<rparr>)"
| timer_callback: "a \<in> set (sc_firing s) \<Longrightarrow> \<not> held s a \<Longrightarrow> length (sc_expiredCh s) < se_MaxQueue env \<Longrightarrow>
    sched_step env s Other
      (send_expired a ((upd_runner a (\<lambda>rn. rn\<lparr>rr_expireTimer := NoTimer\<rparr>) s)\<lparr>sc_firing := remove1 a (sc_firing s)\<rparr>))"
| expire_call: "loaded_list s as \<Longrightarrow> sched_step env s Other (s\<lparr>sc_expiring := sc_expiring s @ expire_targets mm s as\<rparr>)"
| oom_call: "loaded_list s as \<Longrightarrow> sched_step env s Other (s\<lparr>sc_expiring := sc_expiring s @ as\<rparr>)"
| expire_one: "a \<in> set (sc_expiring s) \<Longrightarrow> can_expire env a s \<Longrightarrow>
    sched_step env s Other (expire a (s\<lparr>sc_expiring := remove1 a (sc_expiring s)\<rparr>))"

inductive sched_reach :: "sched_env \<Rightarrow> ('cfg sched \<Rightarrow> 'cfg event \<Rightarrow> bool) \<Rightarrow> 'cfg sched \<Rightarrow> bool" for env allowed where
  init: "sched_reach env allowed (InitScheduler env store)"
| step: "sched_reach env allowed s \<Longrightarrow> sched_step env s e s' \<Longrightarrow> allowed s e \<Longrightarrow> sched_reach env allowed s'"

end
