(* ===== verification/SchedInv.thy ===== *)
theory SchedInv
  imports Scheduler
begin

text \<open>
  The invariants of the scheduler.  \<open>sched_wf\<close> is what every interleaving keeps: a runner in the map is keyed by its model, has a
  server, and a load is for a key that is not loaded.  \<open>sched_counts\<close> says that the counter of a loaded runner is the number
  of the requests that use it, \<open>sched_kept\<close> that a loaded runner nobody uses will expire; they need that no request is given a
  runner that was unloaded in the meantime.
\<close>

lemmas request_ops = getRunner_def enqueue_def useLoadedRunner_def use_runner_def send_reply_def upd_runner_def
lemmas expire_ops = expire_def expire_now_def send_expired_def send_reply_def upd_runner_def
lemmas finish_ops = finish_request_def mediaEngineGone_def send_expired_def upd_runner_def
lemmas load_ops = load_prepare_def start_server_def load_answered_def load_failed_def insert_runner_def new_runner_def
  runner_started_def runner_not_started_def send_expired_def send_reply_def upd_runner_def
lemmas pend_ops = try_load_def evict_one_def send_reply_def

lemma remove1D [dest]: "x \<in> set (remove1 y xs) \<Longrightarrow> x \<in> set xs"
  by (meson notin_set_remove1)

section \<open>Structure\<close>

text \<open>The runner addresses the goroutines and channels hold.\<close>

primrec call_addr :: "'cfg call \<Rightarrow> nat" where
  "call_addr (Looked r a) = a"
| "call_addr (Checked r a) = a"

fun pend_addrs :: "'cfg pend \<Rightarrow> nat list" where
  "pend_addrs (PFound r a) = [a]"
| "pend_addrs (PUse r a) = [a]"
| "pend_addrs (PExpire r a) = [a]"
| "pend_addrs (PWait r a) = [a]"
| "pend_addrs (PEvictAll r as n) = as"
| "pend_addrs _ = []"

fun comp_addrs :: "comp \<Rightarrow> nat list" where
  "comp_addrs (CRecover a) = [a]"
| "comp_addrs _ = []"

definition sched_addrs :: "'cfg sched \<Rightarrow> nat set" where
  "sched_addrs s = set (sc_expiredCh s) \<union> set (sc_retrying s) \<union> set (sc_firing s) \<union> set (sc_expiring s) \<union>
     call_addr ` set (sc_calls s) \<union> snd ` set (sc_waiting s) \<union> snd ` set (sc_starting s) \<union>
     set (pend_addrs (sc_pend s)) \<union> set (comp_addrs (sc_comp s))"

text \<open>The request of a load in progress.\<close>

fun pend_load :: "'cfg pend \<Rightarrow> 'cfg llm_request option" where
  "pend_load (PLoad r full) = Some r"
| "pend_load (PLoading r full) = Some r"
| "pend_load (PEvict r full) = Some r"
| "pend_load _ = None"

definition runner_live :: "string \<Rightarrow> 'cfg runner_ref \<Rightarrow> bool" where
  "runner_live k rn \<longleftrightarrow> rr_modelKey rn = k \<and> rr_model rn \<noteq> None \<and> \<not> rr_closed rn"

definition sched_wf :: "'cfg sched \<Rightarrow> bool" where
  "sched_wf s \<longleftrightarrow> finite (dom (sc_loaded s)) \<and> sched_addrs s \<subseteq> {..<sc_next s} \<and>
     (\<forall>k a. sc_loaded s k = Some a \<longrightarrow> a < sc_next s \<and> runner_live k (sc_runner s a)) \<and>
     (\<forall>r. pend_load (sc_pend s) = Some r \<longrightarrow> sc_loaded s (req_key r) = None)"

lemma sched_wf_init: "sched_wf (InitScheduler env store)"
  by (simp add: sched_wf_def InitScheduler_def sched_addrs_def)

lemma wf_loaded: "sched_wf s \<Longrightarrow> sc_loaded s k = Some a \<Longrightarrow> a < sc_next s \<and> runner_live k (sc_runner s a)"
  by (simp add: sched_wf_def)

lemma wf_ran: "sched_wf s \<Longrightarrow> a \<in> ran (sc_loaded s) \<Longrightarrow> a < sc_next s"
  by (auto simp: sched_wf_def ran_def)

text \<open>What may change without harm: addresses that are in bounds, and runners that are loaded keep their key and server.\<close>

lemma sched_wf_keep:
  assumes "sched_wf s" "sc_next s' = sc_next s" "\<And>k a. sc_loaded s' k = Some a \<Longrightarrow> sc_loaded s k = Some a"
    "\<And>k a. sc_loaded s' k = Some a \<Longrightarrow> runner_live k (sc_runner s a) \<Longrightarrow> runner_live k (sc_runner s' a)"
    "\<And>a. a \<in> sched_addrs s' \<Longrightarrow> a \<in> sched_addrs s \<or> a < sc_next s"
    "\<And>r. pend_load (sc_pend s') = Some r \<Longrightarrow> (\<exists>r'. pend_load (sc_pend s) = Some r' \<and> req_key r' = req_key r) \<or> sc_loaded s (req_key r) = None"
  shows "sched_wf s'"
proof -
  have "dom (sc_loaded s') \<subseteq> dom (sc_loaded s)" using assms(3) by auto
  then have "finite (dom (sc_loaded s'))" using assms(1) by (auto simp: sched_wf_def intro: finite_subset)
  moreover have "sched_addrs s' \<subseteq> {..<sc_next s'}" using assms(1,2,5) by (auto simp: sched_wf_def)
  moreover have "sc_loaded s' (req_key r) = None" if r: "pend_load (sc_pend s') = Some r" for r
  proof -
    have "sc_loaded s (req_key r) = None" using assms(1) assms(6) [OF r] unfolding sched_wf_def by metis
    then show ?thesis using assms(3) by (cases "sc_loaded s' (req_key r)") fastforce+
  qed
  moreover have "a < sc_next s' \<and> runner_live k (sc_runner s' a)" if "sc_loaded s' k = Some a" for k a
    using assms(1,2) assms(3,4) [OF that] by (simp add: sched_wf_def)
  ultimately show ?thesis unfolding sched_wf_def by blast
qed

lemma getRunner_wf: "sched_wf s \<Longrightarrow> sched_wf (getRunner env r s)"
  by (rule sched_wf_keep [of s]) (auto simp: request_ops sched_addrs_def dest: wf_loaded split: option.splits if_splits)

lemma enqueue_wf: "sched_wf s \<Longrightarrow> sched_wf (enqueue env r s)"
  by (rule sched_wf_keep [of s]) (auto simp: request_ops sched_addrs_def split: if_splits)

lemma useLoadedRunner_wf: "sched_wf s \<Longrightarrow> a < sc_next s \<Longrightarrow> sched_wf (useLoadedRunner r a s)"
  by (rule sched_wf_keep [of s]) (auto simp: request_ops sched_addrs_def runner_live_def split: if_splits)

lemma expire_wf: "sched_wf s \<Longrightarrow> a < sc_next s \<Longrightarrow> sched_wf (expire a s)"
  by (rule sched_wf_keep [of s]) (auto simp: expire_ops sched_addrs_def runner_live_def Let_def split: if_splits)

lemma expire_simps [simp]: "sc_loaded (expire a s) = sc_loaded s" "sc_next (expire a s) = sc_next s" "sc_pend (expire a s) = sc_pend s"
    "sc_waiting (expire a s) = sc_waiting s" "sc_starting (expire a s) = sc_starting s" "sc_finishedReqCh (expire a s) = sc_finishedReqCh s"
    "sc_comp (expire a s) = sc_comp s"
  by (simp_all add: expire_ops Let_def)

lemma finish_request_wf: "sched_wf s \<Longrightarrow> a < sc_next s \<Longrightarrow> sched_wf (finish_request exited a s)"
  by (rule sched_wf_keep [of s]) (auto simp: finish_ops sched_addrs_def runner_live_def Let_def split: if_splits)

lemma expired_event_wf:
  assumes "sched_wf s" "a < sc_next s"
  shows "sched_wf (expired_event a s)"
proof -
  have live: "rr_modelKey (sc_runner s b) = k" if "sc_loaded s k = Some b" for k b
    using wf_loaded [OF assms(1) that] by (simp add: runner_live_def)
  show ?thesis
    by (rule sched_wf_keep [of s])
      (use assms live in \<open>auto simp: expired_event_def expired_idle_def upd_runner_def runner_unload_def sched_addrs_def
        split: if_splits option.splits\<close>)
qed

lemma wf_replies [simp]: "sched_wf (s\<lparr>sc_replies := q\<rparr>) = sched_wf s"
  by (simp add: sched_wf_def sched_addrs_def)

lemma wf_active [simp]: "sched_wf (s\<lparr>sc_activeLoading := l\<rparr>) = sched_wf s"
  by (simp add: sched_wf_def sched_addrs_def)

lemma wf_maxRunners [simp]: "sched_wf (s\<lparr>sc_maxRunners := n\<rparr>) = sched_wf s"
  by (simp add: sched_wf_def sched_addrs_def)

lemma wf_pend:
  assumes "sched_wf s" "set (pend_addrs p) \<subseteq> {..<sc_next s}" "\<And>r. pend_load p = Some r \<Longrightarrow> sc_loaded s (req_key r) = None"
  shows "sched_wf (s\<lparr>sc_pend := p\<rparr>)"
  using assms by (auto simp: sched_wf_def sched_addrs_def)

lemma wf_pend_load: "sched_wf s \<Longrightarrow> pend_load (sc_pend s) = Some r \<Longrightarrow> sc_loaded s (req_key r) = None"
  by (simp add: sched_wf_def)

lemma start_server_wf: "sched_wf s \<Longrightarrow> sc_loaded s (req_key r) = None \<Longrightarrow> sched_wf (start_server pf r full s)"
  by (auto simp: start_server_def send_reply_def intro!: wf_pend split: sum.split)

lemma load_prepare_wf:
  assumes "sched_wf s" "sc_pend s = PLoad r full"
  shows "sched_wf (load_prepare pf r full s)"
proof -
  have "sc_loaded s (req_key r) = None" using wf_pend_load [OF assms(1), of r] assms(2) by simp
  then show ?thesis
    using assms(1) by (auto simp: load_prepare_def send_reply_def Let_def intro!: wf_pend start_server_wf split: option.split)
qed

lemma insert_runner_wf:
  assumes "sched_wf s" "sc_pend s = PLoading r full"
  shows "sched_wf (insert_runner r (new_runner env pid ctx trainCtx r) s)"
proof -
  let ?rn = "new_runner env pid ctx trainCtx r"
  have rn: "rr_modelKey ?rn = req_key r" "rr_model ?rn \<noteq> None" "\<not> rr_closed ?rn" by (simp_all add: new_runner_def Let_def)
  have none: "sc_loaded s (req_key r) = None" using wf_pend_load [OF assms(1), of r] assms(2) by simp
  have "sched_addrs (insert_runner r ?rn s) \<subseteq> insert (sc_next s) (sched_addrs s)"
    by (auto simp: insert_runner_def upd_runner_def Let_def rn none sched_addrs_def)
  then have "sched_addrs (insert_runner r ?rn s) \<subseteq> {..<Suc (sc_next s)}"
    using assms(1) by (fastforce simp: sched_wf_def)
  moreover have "a < Suc (sc_next s) \<and> runner_live k (sc_runner (insert_runner r ?rn s) a)"
    if "sc_loaded (insert_runner r ?rn s) k = Some a" for k a
    using that wf_loaded [OF assms(1)] rn none
    by (cases "k = req_key r") (fastforce simp: insert_runner_def upd_runner_def Let_def runner_live_def)+
  moreover have "finite (dom (sc_loaded (insert_runner r ?rn s)))" "sc_next (insert_runner r ?rn s) = Suc (sc_next s)"
    "sc_pend (insert_runner r ?rn s) = PIdle"
    using assms(1) by (simp_all add: insert_runner_def upd_runner_def Let_def rn none sched_wf_def)
  ultimately show ?thesis unfolding sched_wf_def by simp
qed

lemma load_answered_wf:
  assumes "sched_wf s" "sc_pend s = PLoading r full"
  shows "sched_wf (load_answered env r full trainCtx ans s)"
proof -
  have "sc_loaded s (req_key r) = None" using wf_pend_load [OF assms(1), of r] assms(2) by simp
  then show ?thesis
    using assms(1) insert_runner_wf [OF assms]
    by (auto simp: load_answered_def load_failed_def send_reply_def Let_def intro!: wf_pend split: load_answer.split)
qed

lemma runner_started_wf: "sched_wf s \<Longrightarrow> (r, a) \<in> set (sc_starting s) \<Longrightarrow> sched_wf (runner_started pid r a s)"
  by (rule sched_wf_keep [of s])
    (auto simp: load_ops Let_def sched_addrs_def runner_live_def intro: rev_image_eqI split: if_splits)

lemma runner_not_started_wf: "sched_wf s \<Longrightarrow> (r, a) \<in> set (sc_starting s) \<Longrightarrow> sched_wf (runner_not_started err r a s)"
  by (rule sched_wf_keep [of s]) (auto simp: load_ops Let_def sched_addrs_def intro: rev_image_eqI)

lemma try_load_wf: "sched_wf s \<Longrightarrow> sc_loaded s (req_key r) = None \<Longrightarrow> sched_wf (try_load n refused r s)"
  by (auto simp: try_load_def send_reply_def Let_def wf_replies intro!: wf_pend split: option.split)

text \<open>A runner that is picked is one of the given ones.\<close>

lemma find_or_hd:
  assumes "as \<noteq> []" "(case List.find P as of Some a \<Rightarrow> Some a | None \<Rightarrow> Some (hd as)) = Some b"
  shows "b \<in> set as"
proof (cases "List.find P as")
  case (Some a)
  then have "b = a" "\<exists>i < length as. a = as ! i" using assms(2) by (simp, auto simp: find_Some_iff)
  then show ?thesis by auto
qed (use assms in auto)

lemma pick_in:
  assumes "pickRunnerToUnload rn as = Some a"
  shows "a \<in> set as"
proof -
  have "as \<noteq> []" using assms by (auto simp: pickRunnerToUnload_def)
  then have "sort_key (\<lambda>a. duration_and_name (rn a)) as \<noteq> []" by (metis length_sort length_0_conv)
  moreover have "(case List.find (\<lambda>a. rr_refCount (rn a) = 0) (sort_key (\<lambda>a. duration_and_name (rn a)) as) of
      Some a \<Rightarrow> Some a | None \<Rightarrow> Some (hd (sort_key (\<lambda>a. duration_and_name (rn a)) as))) = Some a"
    using assms \<open>as \<noteq> []\<close> by (simp add: pickRunnerToUnload_def Let_def)
  ultimately have "a \<in> set (sort_key (\<lambda>a. duration_and_name (rn a)) as)" by (rule find_or_hd)
  then show ?thesis by simp
qed

lemma find_pick: "findRunnerToUnload = pickRunnerToUnload"
  by (intro ext) (simp add: findRunnerToUnload_def pickRunnerToUnload_def)

lemma find_on_in:
  assumes "findRunnerToUnloadOn rn on as = Some a" "set on \<subseteq> set as"
  shows "a \<in> set as"
proof (cases "on = []")
  case True
  then show ?thesis using assms(1) by (auto simp: findRunnerToUnloadOn_def find_pick dest: pick_in)
next
  case False
  then have "pickRunnerToUnload rn on = Some a" using assms(1) by (simp add: findRunnerToUnloadOn_def pickRunnerToUnload_def Let_def)
  then show ?thesis using pick_in assms(2) by fast
qed

lemma kind_cap_in: "kind_cap_victim rn as ks = Some a \<Longrightarrow> a \<in> set as"
  by (induction rn as ks rule: kind_cap_victim.induct) (auto simp: Let_def loadedRunners_def dest: pick_in split: if_splits)

lemma room_victim_in: "room_victim env r as s = Some (Some a) \<Longrightarrow> a \<in> set as"
  by (auto simp: room_victim_def kindCapVictim_def findSharedRunnerToUnload_def loadedRunners_def
      dest!: kind_cap_in pick_in split: option.splits if_splits)

lemma expire_targets_in: "loaded_list s as \<Longrightarrow> set (expire_targets mm s as) \<subseteq> ran (sc_loaded s)"
  by (auto simp: expire_targets_def loaded_list_def intro: ranI split: option.splits if_splits)

lemma wf_addr: "sched_wf s \<Longrightarrow> a \<in> sched_addrs s \<Longrightarrow> a < sc_next s"
  by (auto simp: sched_wf_def)

lemmas pend_simps = pend_ops Let_def sched_addrs_def

theorem sched_step_wf:
  assumes "sched_step env s e s'" "sched_wf s"
  shows "sched_wf s'"
  using assms
proof (induction rule: sched_step.induct)
  case (get s i m opts duration ctxAuto batchAuto shift mediaCall)
  then show ?case by (rule getRunner_wf)
next
  case (check_reload r a s ping)
  have "sched_wf (s\<lparr>sc_calls := remove1 (Looked r a) (sc_calls s)\<rparr>)"
    by (rule sched_wf_keep [OF check_reload(4)]) (auto simp: sched_addrs_def)
  then show ?case by (rule enqueue_wf)
next
  case (check_ok r a s ping)
  have "a < sc_next s" using check_ok(1,4) by (intro wf_addr) (force simp: sched_addrs_def)+
  then show ?case by (intro sched_wf_keep [OF check_ok(4)]) (auto simp: sched_addrs_def)
next
  case (use r a s)
  have "a < sc_next s" using use(1,3) by (intro wf_addr) (force simp: sched_addrs_def)+
  moreover have "sched_wf (s\<lparr>sc_calls := remove1 (Checked r a) (sc_calls s)\<rparr>)"
    by (rule sched_wf_keep [OF use(3)]) (auto simp: sched_addrs_def)
  ultimately show ?case by (intro useLoadedRunner_wf) auto
next
  case (cancel s i)
  then show ?case by (simp add: sched_wf_def sched_addrs_def)
next
  case (request_done r a s)
  show ?case by (rule sched_wf_keep [OF request_done(4)]) (auto simp: sched_addrs_def)
next
  case (pend_skip s r rs)
  then show ?case by (simp add: sched_wf_def sched_addrs_def)
next
  case (pend_take s r rs)
  show ?case by (rule sched_wf_keep [OF pend_take(4)]) (auto simp: sched_addrs_def)
next
  case (pend_ignore s n)
  then show ?case by (simp add: sched_wf_def sched_addrs_def)
next
  case (pend_found s r a)
  then show ?case by (auto intro!: wf_pend dest: wf_loaded)
next
  case (pend_reload s r a ping)
  have "a < sc_next s" using pend_reload by (intro wf_addr) (auto simp: sched_addrs_def)
  then show ?case using pend_reload by (auto intro!: wf_pend)
next
  case (pend_ok s r a ping)
  have "a < sc_next s" using pend_ok by (intro wf_addr) (auto simp: sched_addrs_def)
  then show ?case using pend_ok by (auto intro!: wf_pend)
next
  case (pend_use s r a)
  have "a < sc_next s" using pend_use by (intro wf_addr) (auto simp: sched_addrs_def)
  then show ?case using pend_use by (auto intro!: wf_pend useLoadedRunner_wf)
next
  case (pend_room s r as v)
  then have "a < sc_next s" if "v = Some a" for a
    using that by (auto simp: loaded_list_def intro: wf_ran dest!: room_victim_in)
  then show ?case using pend_room by (auto intro!: wf_pend split: option.split)
next
  case (pend_load s r as gpuCount refused)
  then show ?case by (intro try_load_wf)
next
  case (load_start s r full pf)
  then show ?case by (intro load_prepare_wf)
next
  case (load_done s r full ans trainCtx)
  then show ?case by (intro load_answered_wf)
next
  case (load_running r a s pid)
  then show ?case by (intro runner_started_wf)
next
  case (load_not_running r a s err)
  then show ?case by (intro runner_not_started_wf)
next
  case (pend_evict s r full as "on")
  have "a < sc_next s" if "a \<in> set as" for a using that pend_evict by (auto simp: loaded_list_def intro: wf_ran)
  then show ?case
    using pend_evict by (auto simp: evict_one_def Let_def intro!: wf_pend dest: find_on_in split: option.split)
next
  case (pend_expire s r a)
  have "a < sc_next s" using pend_expire by (intro wf_addr) (auto simp: sched_addrs_def)
  then show ?case using pend_expire by (auto intro!: wf_pend expire_wf)
next
  case (pend_unloaded s r a n)
  show ?case by (rule sched_wf_keep [OF pend_unloaded(3)]) (auto simp: sched_addrs_def)
next
  case (evict_all s r a as n)
  have "a < sc_next s" "set as \<subseteq> {..<sc_next s}" using evict_all by (auto simp: sched_wf_def sched_addrs_def)
  then show ?case using evict_all by (auto intro!: wf_pend expire_wf)
next
  case (evict_all_wait s r k n)
  show ?case by (rule sched_wf_keep [OF evict_all_wait(3)]) (auto simp: sched_addrs_def)
next
  case (evict_all_done s r)
  then show ?case by (auto intro!: wf_pend)
next
  case (comp_lost s r rs)
  then show ?case by (simp add: sched_wf_def sched_addrs_def)
next
  case (comp_finished s r rs a exited)
  have "sched_wf (s\<lparr>sc_finishedReqCh := rs\<rparr>)" using comp_finished(6) by (simp add: sched_wf_def sched_addrs_def)
  then show ?case using comp_finished wf_loaded [OF comp_finished(6,3)] by (intro finish_request_wf) auto
next
  case (comp_expired s a as)
  have "a < sc_next s" using comp_expired by (intro wf_addr) (auto simp: sched_addrs_def)
  moreover have "sched_wf (s\<lparr>sc_expiredCh := as\<rparr>)"
    by (rule sched_wf_keep [OF comp_expired(4)]) (auto simp: sched_addrs_def comp_expired(2))
  ultimately show ?case by (intro expired_event_wf) auto
next
  case (comp_recovered s a)
  show ?case by (rule sched_wf_keep [OF comp_recovered(2)]) (auto simp: sched_addrs_def)
next
  case (comp_send s)
  show ?case by (rule sched_wf_keep [OF comp_send(3)]) (auto simp: sched_addrs_def)
next
  case (retry a s)
  show ?case by (rule sched_wf_keep [OF retry(3)]) (use retry(1) in \<open>auto simp: sched_addrs_def send_expired_def\<close>)
next
  case (timer_fires s a)
  show ?case by (rule sched_wf_keep [OF timer_fires(3)])
      (use timer_fires(2) in \<open>auto simp: sched_addrs_def upd_runner_def runner_live_def split: if_splits\<close>)
next
  case (timer_callback a s)
  show ?case by (rule sched_wf_keep [OF timer_callback(4)])
      (use timer_callback(1) in \<open>auto simp: sched_addrs_def send_expired_def upd_runner_def runner_live_def split: if_splits\<close>)
next
  case (expire_call s as mm)
  have "a < sc_next s" if "a \<in> set (expire_targets mm s as)" for a
    using that expire_targets_in [OF expire_call(1)] wf_ran [OF expire_call(2)] by blast
  then show ?case by (intro sched_wf_keep [OF expire_call(2)]) (auto simp: sched_addrs_def)
next
  case (oom_call s as)
  have "a < sc_next s" if "a \<in> set as" for a
    using that oom_call by (auto simp: loaded_list_def intro: wf_ran)
  then show ?case by (intro sched_wf_keep [OF oom_call(2)]) (auto simp: sched_addrs_def)
next
  case (expire_one a s)
  have "a < sc_next s" using expire_one by (intro wf_addr) (auto simp: sched_addrs_def)
  moreover have "sched_wf (s\<lparr>sc_expiring := remove1 a (sc_expiring s)\<rparr>)"
    by (rule sched_wf_keep [OF expire_one(3)]) (auto simp: sched_addrs_def)
  ultimately show ?case by (intro expire_wf) auto
qed

theorem sched_reach_wf: "sched_reach env allowed s \<Longrightarrow> sched_wf s"
  by (induction rule: sched_reach.induct) (auto intro: sched_wf_init sched_step_wf)

end
