(* ===== verification/SchedCounts.thy ===== *)
theory SchedCounts
  imports SchedInv
begin

text \<open>
  The counters of the scheduler, when no request is given a runner that was unloaded after it was looked up, and process ids
  are not used twice: the counter of a loaded runner is the number of requests that use it, and a runner in use stays loaded.
\<close>

section \<open>The counters\<close>

definition fresh :: "'cfg sched \<Rightarrow> 'cfg event \<Rightarrow> bool" where
  "fresh s e =
     (case e of
        Grant r a \<Rightarrow> sc_loaded s (req_key r) = Some a
      | Start a pid \<Rightarrow> (\<forall>b < sc_next s. b \<noteq> a \<longrightarrow> rr_pid (sc_runner s b) \<noteq> pid)
      | Other \<Rightarrow> True)"

text \<open>The requests that use a runner: those that were given it and are not done, and those that are done but not counted so.\<close>

definition users :: "'cfg sched \<Rightarrow> nat \<Rightarrow> nat" where
  "users s a = length (filter (\<lambda>(r, b). b = a) (sc_waiting s)) +
     length (filter (\<lambda>r. sc_loaded s (req_key r) = Some a) (sc_finishedReqCh s))"

definition sched_counts :: "'cfg sched \<Rightarrow> bool" where
  "sched_counts s \<longleftrightarrow>
     (\<forall>a b. a < sc_next s \<longrightarrow> b < sc_next s \<longrightarrow> rr_pid (sc_runner s a) = rr_pid (sc_runner s b) \<longrightarrow> a = b) \<and>
     (\<forall>(r, a) \<in> set (sc_waiting s). sc_loaded s (req_key r) = Some a \<and> a \<notin> snd ` set (sc_starting s)) \<and>
     (\<forall>r \<in> set (sc_finishedReqCh s). \<exists>a. sc_loaded s (req_key r) = Some a \<and> a \<notin> snd ` set (sc_starting s)) \<and>
     (\<forall>(r, a) \<in> set (sc_starting s). sc_loaded s (req_key r) = Some a) \<and> distinct (map snd (sc_starting s)) \<and>
     (\<forall>a \<in> ran (sc_loaded s). rr_refCount (sc_runner s a) = users s a)"

lemma sched_counts_init: "sched_counts (InitScheduler env store)"
  by (simp add: sched_counts_def InitScheduler_def)

lemma counts_waiting: "sched_counts s \<Longrightarrow> (r, a) \<in> set (sc_waiting s) \<Longrightarrow> sc_loaded s (req_key r) = Some a \<and> a \<notin> snd ` set (sc_starting s)"
  by (auto simp: sched_counts_def)

lemma counts_finished: "sched_counts s \<Longrightarrow> r \<in> set (sc_finishedReqCh s) \<Longrightarrow> \<exists>a. sc_loaded s (req_key r) = Some a \<and> a \<notin> snd ` set (sc_starting s)"
  by (auto simp: sched_counts_def)

lemma counts_starting: "sched_counts s \<Longrightarrow> (r, a) \<in> set (sc_starting s) \<Longrightarrow> sc_loaded s (req_key r) = Some a"
  by (auto simp: sched_counts_def)

lemma counts_users: "sched_counts s \<Longrightarrow> sc_loaded s k = Some a \<Longrightarrow> rr_refCount (sc_runner s a) = users s a"
  by (auto simp: sched_counts_def ran_def)

lemma counts_pid: "sched_counts s \<Longrightarrow> a < sc_next s \<Longrightarrow> b < sc_next s \<Longrightarrow> rr_pid (sc_runner s a) = rr_pid (sc_runner s b) \<Longrightarrow> a = b"
  by (simp add: sched_counts_def)

lemma counts_distinct: "sched_counts s \<Longrightarrow> distinct (map snd (sc_starting s))"
  by (simp add: sched_counts_def)

lemmas counts_dests = counts_waiting counts_finished counts_starting counts_pid counts_distinct

lemma no_users: "users s a = 0 \<longleftrightarrow> (\<forall>r. (r, a) \<notin> set (sc_waiting s)) \<and> (\<forall>r \<in> set (sc_finishedReqCh s). sc_loaded s (req_key r) \<noteq> Some a)"
  by (auto simp: users_def filter_empty_conv)

lemma users_starting: "sched_counts s \<Longrightarrow> (r, a) \<in> set (sc_starting s) \<Longrightarrow> users s a = 0"
  unfolding no_users using counts_waiting counts_finished by (force simp: image_iff)

text \<open>What does not touch the counters.\<close>

lemma counts_keep:
  assumes "sched_counts s" "sc_loaded s' = sc_loaded s" "sc_waiting s' = sc_waiting s" "sc_finishedReqCh s' = sc_finishedReqCh s"
    "sc_starting s' = sc_starting s" "sc_next s' = sc_next s"
    "\<And>a. rr_refCount (sc_runner s' a) = rr_refCount (sc_runner s a) \<and> rr_pid (sc_runner s' a) = rr_pid (sc_runner s a)"
  shows "sched_counts s'"
  using assms by (simp add: sched_counts_def users_def)

lemma sched_countsI:
  assumes "\<And>a b. a < sc_next s \<Longrightarrow> b < sc_next s \<Longrightarrow> rr_pid (sc_runner s a) = rr_pid (sc_runner s b) \<Longrightarrow> a = b"
    and "\<And>r a. (r, a) \<in> set (sc_waiting s) \<Longrightarrow> sc_loaded s (req_key r) = Some a \<and> a \<notin> snd ` set (sc_starting s)"
    and "\<And>r. r \<in> set (sc_finishedReqCh s) \<Longrightarrow> \<exists>a. sc_loaded s (req_key r) = Some a \<and> a \<notin> snd ` set (sc_starting s)"
    and "\<And>r a. (r, a) \<in> set (sc_starting s) \<Longrightarrow> sc_loaded s (req_key r) = Some a" "distinct (map snd (sc_starting s))"
    and "\<And>k a. sc_loaded s k = Some a \<Longrightarrow> rr_refCount (sc_runner s a) = users s a"
  shows "sched_counts s"
  unfolding sched_counts_def
proof (intro conjI)
  show "\<forall>(r, a) \<in> set (sc_waiting s). sc_loaded s (req_key r) = Some a \<and> a \<notin> snd ` set (sc_starting s)" using assms(2) by blast
  show "\<forall>(r, a) \<in> set (sc_starting s). sc_loaded s (req_key r) = Some a" using assms(4) by blast
qed (use assms(1,3,5,6) in \<open>auto simp: ran_def\<close>)

lemma useLoadedRunner_simps [simp]: "sc_loaded (useLoadedRunner r a s) = sc_loaded s" "sc_next (useLoadedRunner r a s) = sc_next s"
    "sc_waiting (useLoadedRunner r a s) = sc_waiting s @ [(r, a)]" "sc_finishedReqCh (useLoadedRunner r a s) = sc_finishedReqCh s"
    "sc_starting (useLoadedRunner r a s) = sc_starting s"
    "sc_runner (useLoadedRunner r a s) = (sc_runner s)(a := use_runner r (sc_runner s a))"
  by (simp_all add: request_ops Let_def)

lemma use_runner_simps [simp]: "rr_refCount (use_runner r rn) = Suc (rr_refCount rn)" "rr_pid (use_runner r rn) = rr_pid rn"
  by (simp_all add: use_runner_def)

lemma useLoadedRunner_counts:
  assumes "sched_counts s" "sc_loaded s (req_key r) = Some a" "a \<notin> snd ` set (sc_starting s)"
  shows "sched_counts (useLoadedRunner r a s)"
proof (rule sched_countsI)
  fix k b assume "sc_loaded (useLoadedRunner r a s) k = Some b"
  moreover have "users (useLoadedRunner r a s) b = (if b = a then Suc (users s b) else users s b)" by (simp add: users_def)
  ultimately show "rr_refCount (sc_runner (useLoadedRunner r a s) b) = users (useLoadedRunner r a s) b"
    using counts_users [OF assms(1), of k b] by (cases "b = a") simp_all
qed (use assms in \<open>auto simp: sched_counts_def split: if_splits\<close>)

lemma length_filter_remove1:
  "x \<in> set xs \<Longrightarrow> length (filter P xs) = length (filter P (remove1 x xs)) + (if P x then 1 else 0)"
  by (induction xs) auto

lemma request_done_counts:
  assumes "sched_counts s" "(r, a) \<in> set (sc_waiting s)"
  shows "sched_counts (s\<lparr>sc_waiting := remove1 (r, a) (sc_waiting s), sc_finishedReqCh := sc_finishedReqCh s @ [r]\<rparr>)" (is "sched_counts ?s'")
proof (rule sched_countsI)
  fix k b assume b: "sc_loaded ?s' k = Some b"
  have "users ?s' b = users s b"
    using length_filter_remove1 [OF assms(2), of "\<lambda>(r, c). c = b"] counts_waiting [OF assms] by (auto simp: users_def)
  then show "rr_refCount (sc_runner ?s' b) = users ?s' b" using counts_users [OF assms(1), of k b] b by simp
next
  fix r' c assume "(r', c) \<in> set (sc_waiting ?s')"
  then show "sc_loaded ?s' (req_key r') = Some c \<and> c \<notin> snd ` set (sc_starting ?s')" using counts_waiting [OF assms(1)] by auto
next
  fix r' assume "r' \<in> set (sc_finishedReqCh ?s')"
  then show "\<exists>a. sc_loaded ?s' (req_key r') = Some a \<and> a \<notin> snd ` set (sc_starting ?s')"
    using counts_waiting [OF assms] counts_finished [OF assms(1)] by auto
qed (use counts_dests(3-) [OF assms(1)] in auto)

lemma finish_request_simps [simp]: "sc_loaded (finish_request exited a s) = sc_loaded s" "sc_next (finish_request exited a s) = sc_next s"
    "sc_waiting (finish_request exited a s) = sc_waiting s" "sc_finishedReqCh (finish_request exited a s) = sc_finishedReqCh s"
    "sc_starting (finish_request exited a s) = sc_starting s" "sc_comp (finish_request exited a s) = sc_comp s"
    "rr_refCount (sc_runner (finish_request exited a s) b) =
      (if b = a then uint_dec (rr_refCount (sc_runner s a)) else rr_refCount (sc_runner s b))"
    "rr_pid (sc_runner (finish_request exited a s) b) = rr_pid (sc_runner s b)"
  by (simp_all add: finish_ops Let_def)

lemma finish_request_counts:
  assumes "sched_counts s" "sc_finishedReqCh s = r # rs" "sc_loaded s (req_key r) = Some a"
  shows "sched_counts (finish_request exited a (s\<lparr>sc_finishedReqCh := rs\<rparr>))" (is "sched_counts ?s'")
proof (rule sched_countsI)
  fix k b assume b: "sc_loaded ?s' k = Some b"
  have u: "users s b = (if b = a then Suc (users ?s' b) else users ?s' b)" using assms(2,3) by (simp add: users_def)
  have "rr_refCount (sc_runner s b) = users s b" using counts_users [OF assms(1), of k b] b by simp
  then show "rr_refCount (sc_runner ?s' b) = users ?s' b" unfolding u by (cases "b = a") (simp_all add: uint_dec_def)
qed (use assms in \<open>auto simp: sched_counts_def\<close>)

lemma expired_event_cases:
  assumes "sched_wf s" "sched_counts s" "a < sc_next s"
  obtains "sc_loaded (expired_event a s) = sc_loaded s"
  | "sc_loaded s (rr_modelKey (sc_runner s a)) = Some a" "users s a = 0"
    "sc_loaded (expired_event a s) = (sc_loaded s)(rr_modelKey (sc_runner s a) := None)"
proof (cases "rr_refCount (sc_runner s a) = 0 \<and> sc_loaded (expired_event a s) \<noteq> sc_loaded s")
  case False
  then show ?thesis using that(1) by (auto simp: expired_event_def split: if_splits)
next
  case True
  let ?k = "rr_modelKey (sc_runner s a)"
  obtain b where b: "sc_loaded s ?k = Some b" "rr_pid (sc_runner s a) = rr_pid (sc_runner s b)"
    "sc_loaded (expired_event a s) = (sc_loaded s)(?k := None)"
    using True by (auto simp: expired_event_def expired_idle_def upd_runner_def split: option.splits if_splits)
  then have "a = b" using counts_pid [OF assms(2,3)] wf_loaded [OF assms(1)] by blast
  then show ?thesis using that(2) b counts_users [OF assms(2)] True by simp
qed

lemma expired_event_simps [simp]: "sc_next (expired_event a s) = sc_next s" "sc_waiting (expired_event a s) = sc_waiting s"
    "sc_finishedReqCh (expired_event a s) = sc_finishedReqCh s" "sc_starting (expired_event a s) = sc_starting s"
    "rr_refCount (sc_runner (expired_event a s) b) = rr_refCount (sc_runner s b)"
    "rr_pid (sc_runner (expired_event a s) b) = rr_pid (sc_runner s b)"
  by (simp_all add: expired_event_def expired_idle_def upd_runner_def runner_unload_def split: option.split)

lemma expired_event_counts:
  assumes "sched_wf s" "sched_counts s" "a < sc_next s" "a \<notin> snd ` set (sc_starting s)"
  shows "sched_counts (expired_event a s)"
proof (rule expired_event_cases [OF assms(1-3)])
  assume "sc_loaded (expired_event a s) = sc_loaded s"
  then show ?thesis by (intro counts_keep [OF assms(2)]) auto
next
  let ?k = "rr_modelKey (sc_runner s a)"
  assume a: "sc_loaded s ?k = Some a" "users s a = 0" "sc_loaded (expired_event a s) = (sc_loaded s)(?k := None)"
  have stays: "sc_loaded (expired_event a s) k = Some c" if "sc_loaded s k = Some c" "c \<noteq> a" for k c
    using that a(1,3) by auto
  show ?thesis
  proof (rule sched_countsI)
    fix r c assume "(r, c) \<in> set (sc_waiting (expired_event a s))"
    then have w: "(r, c) \<in> set (sc_waiting s)" by simp
    then have "c \<noteq> a" using a(2) by (auto simp: no_users)
    then show "sc_loaded (expired_event a s) (req_key r) = Some c \<and> c \<notin> snd ` set (sc_starting (expired_event a s))"
      using counts_waiting [OF assms(2) w] stays by simp
  next
    fix r assume "r \<in> set (sc_finishedReqCh (expired_event a s))"
    then show "\<exists>c. sc_loaded (expired_event a s) (req_key r) = Some c \<and> c \<notin> snd ` set (sc_starting (expired_event a s))"
      using counts_finished [OF assms(2), of r] a(2) stays by (auto simp: no_users)
  next
    fix r c assume c: "(r, c) \<in> set (sc_starting (expired_event a s))"
    then have "c \<noteq> a" using assms(4) by force
    then show "sc_loaded (expired_event a s) (req_key r) = Some c" using counts_starting [OF assms(2)] c stays by simp
  next
    fix k c assume c: "sc_loaded (expired_event a s) k = Some c"
    then have k: "sc_loaded s k = Some c" "c \<noteq> a"
      using a wf_loaded [OF assms(1), of k c] by (auto simp: runner_live_def split: if_splits)
    have "users (expired_event a s) c = users s c"
      using a(1,3) k(2) by (auto simp: users_def intro!: arg_cong [where f = length] filter_cong)
    then show "rr_refCount (sc_runner (expired_event a s) c) = users (expired_event a s) c"
      using counts_users [OF assms(2) k(1)] by simp
  qed (use counts_dests [OF assms(2)] in auto)
qed

lemma new_runner_simps [simp]: "rr_refCount (new_runner env pid ctx trainCtx r) = 0" "rr_pid (new_runner env pid ctx trainCtx r) = pid"
    "rr_modelKey (new_runner env pid ctx trainCtx r) = req_key r" "rr_model (new_runner env pid ctx trainCtx r) = Some (lr_model r)"
  by (simp_all add: new_runner_def Let_def)

lemma insert_runner_simps:
  assumes "sc_loaded s (rr_modelKey rn) = None"
  shows "sc_loaded (insert_runner r rn s) = (sc_loaded s)(rr_modelKey rn \<mapsto> sc_next s)" "sc_next (insert_runner r rn s) = Suc (sc_next s)"
    "sc_waiting (insert_runner r rn s) = sc_waiting s" "sc_finishedReqCh (insert_runner r rn s) = sc_finishedReqCh s"
    "sc_starting (insert_runner r rn s) = sc_starting s @ [(r, sc_next s)]"
    "sc_runner (insert_runner r rn s) = (sc_runner s)(sc_next s := rn)"
    "sc_pend (insert_runner r rn s) = PIdle" "sc_maxRunners (insert_runner r rn s) = sc_maxRunners s"
  using assms by (simp_all add: insert_runner_def upd_runner_def Let_def)

lemma insert_runner_counts:
  assumes "sched_wf s" "sched_counts s" "sc_loaded s (req_key r) = None" "\<And>b. b < sc_next s \<Longrightarrow> rr_pid (sc_runner s b) \<noteq> pid"
  shows "sched_counts (insert_runner r (new_runner env pid ctx trainCtx r) s)" (is "sched_counts ?s'")
proof -
  note ins = insert_runner_simps [of s "new_runner env pid ctx trainCtx r" r, unfolded new_runner_simps, OF assms(3)]
  have lt: "c < sc_next s" if "c \<in> snd ` set (sc_waiting s) \<or> c \<in> snd ` set (sc_starting s)" for c
    using that by (intro wf_addr [OF assms(1)]) (auto simp: sched_addrs_def)
  have keep: "sc_loaded ?s' k = Some c" if "sc_loaded s k = Some c" for k c using that assms(3) by (auto simp: ins)
  show ?thesis
  proof (rule sched_countsI)
    fix b c assume "b < sc_next ?s'" "c < sc_next ?s'" "rr_pid (sc_runner ?s' b) = rr_pid (sc_runner ?s' c)"
    then show "b = c"
      using counts_pid [OF assms(2), of b c] assms(4) [of b] assms(4) [of c]
      by (cases "b = sc_next s"; cases "c = sc_next s") (simp_all add: ins)
  next
    fix r' c assume c: "(r', c) \<in> set (sc_waiting ?s')"
    then have "c < sc_next s" using lt by (force simp: ins)
    then show "sc_loaded ?s' (req_key r') = Some c \<and> c \<notin> snd ` set (sc_starting ?s')"
      using counts_waiting [OF assms(2)] c keep by (auto simp: ins)
  next
    fix r' assume "r' \<in> set (sc_finishedReqCh ?s')"
    then obtain c where c: "sc_loaded s (req_key r') = Some c" "c \<notin> snd ` set (sc_starting s)"
      using counts_finished [OF assms(2), of r'] by (auto simp: ins)
    moreover have "c \<noteq> sc_next s" using wf_loaded [OF assms(1) c(1)] by simp
    ultimately show "\<exists>c. sc_loaded ?s' (req_key r') = Some c \<and> c \<notin> snd ` set (sc_starting ?s')" using keep by (auto simp: ins)
  next
    fix r' c assume "(r', c) \<in> set (sc_starting ?s')"
    then show "sc_loaded ?s' (req_key r') = Some c"
      using counts_starting [OF assms(2), of r' c] keep [of "req_key r'" c] by (auto simp: ins)
  next
    show "distinct (map snd (sc_starting ?s'))" using counts_distinct [OF assms(2)] lt by (auto simp: ins)
  next
    fix k c assume c: "sc_loaded ?s' k = Some c"
    have new: "users ?s' (sc_next s) = 0"
    proof -
      have "req_key r' \<noteq> req_key r" if "r' \<in> set (sc_finishedReqCh s)" for r' using counts_finished [OF assms(2) that] assms(3) by auto
      moreover have "sc_loaded s k \<noteq> Some (sc_next s)" for k using wf_loaded [OF assms(1), of k "sc_next s"] by auto
      moreover have "(r', sc_next s) \<notin> set (sc_waiting s)" for r' using lt [of "sc_next s"] by force
      ultimately show ?thesis by (simp add: no_users ins)
    qed
    have old: "users ?s' c = users s c" if "c \<noteq> sc_next s"
      using that assms(3) by (auto simp: users_def ins intro!: arg_cong [where f = length] filter_cong)
    show "rr_refCount (sc_runner ?s' c) = users ?s' c"
    proof (cases "c = sc_next s")
      case True
      then show ?thesis using new by (simp add: ins)
    next
      case False
      then have "sc_loaded s k = Some c" using c by (auto simp: ins split: if_splits)
      then show ?thesis using counts_users [OF assms(2), of k c] old False by (simp add: ins)
    qed
  qed
qed

lemma load_answered_loaded:
  assumes "sc_loaded s (req_key r) = None" "\<And>pid ctx. ans \<noteq> LoadOk pid ctx"
  shows "sc_loaded (load_answered env r full trainCtx ans s) = sc_loaded s \<and> sc_next (load_answered env r full trainCtx ans s) = sc_next s \<and>
    sc_waiting (load_answered env r full trainCtx ans s) = sc_waiting s \<and>
    sc_finishedReqCh (load_answered env r full trainCtx ans s) = sc_finishedReqCh s \<and>
    sc_starting (load_answered env r full trainCtx ans s) = sc_starting s \<and>
    sc_runner (load_answered env r full trainCtx ans s) = sc_runner s"
proof (cases ans)
  case (LoadOk pid ctx)
  then show ?thesis using assms(2) by blast
qed (simp_all add: load_answered_def load_failed_def send_reply_def Let_def)

lemma runner_started_simps [simp]: "sc_loaded (runner_started pid r a s) = sc_loaded s" "sc_next (runner_started pid r a s) = sc_next s"
    "sc_waiting (runner_started pid r a s) = sc_waiting s @ [(r, a)]" "sc_finishedReqCh (runner_started pid r a s) = sc_finishedReqCh s"
    "sc_starting (runner_started pid r a s) = remove1 (r, a) (sc_starting s)"
    "rr_refCount (sc_runner (runner_started pid r a s) b) =
      (if b = a then Suc (rr_refCount (sc_runner s a)) else rr_refCount (sc_runner s b))"
    "rr_pid (sc_runner (runner_started pid r a s) b) =
      (if b = a \<and> rr_pid (sc_runner s a) < 0 then pid else rr_pid (sc_runner s b))"
  by (simp_all add: runner_started_def upd_runner_def send_reply_def Let_def)

lemma distinct_snd_remove1: "distinct (map snd xs) \<Longrightarrow> x \<in> set xs \<Longrightarrow> distinct (map snd (remove1 x xs)) \<and> snd x \<notin> snd ` set (remove1 x xs)"
proof (induction xs)
  case (Cons y ys)
  have "snd y \<notin> snd ` set (remove1 x ys)" using Cons.prems(1) by auto
  moreover have "x \<in> set ys \<Longrightarrow> snd x \<noteq> snd y" using Cons.prems(1) by (metis distinct.simps(2) image_eqI image_set list.simps(9))
  ultimately show ?case using Cons by auto
qed simp

lemma runner_started_counts:
  assumes "sched_wf s" "sched_counts s" "(r, a) \<in> set (sc_starting s)" "\<And>b. b < sc_next s \<Longrightarrow> b \<noteq> a \<Longrightarrow> rr_pid (sc_runner s b) \<noteq> pid"
  shows "sched_counts (runner_started pid r a s)" (is "sched_counts ?s'")
proof (rule sched_countsI)
  fix b c assume "b < sc_next ?s'" "c < sc_next ?s'" "rr_pid (sc_runner ?s' b) = rr_pid (sc_runner ?s' c)"
  then show "b = c"
    using counts_pid [OF assms(2), of b c] assms(4) [of b] assms(4) [of c] by (auto split: if_splits)
next
  note d = distinct_snd_remove1 [OF counts_distinct [OF assms(2)] assms(3)]
  show "distinct (map snd (sc_starting ?s'))" using d by simp
  fix r' c assume "(r', c) \<in> set (sc_waiting ?s')"
  then consider "(r', c) \<in> set (sc_waiting s)" | "r' = r" "c = a" by auto
  then show "sc_loaded ?s' (req_key r') = Some c \<and> c \<notin> snd ` set (sc_starting ?s')"
  proof cases
    case 1
    then show ?thesis using counts_waiting [OF assms(2)] by auto
  next
    case 2
    then show ?thesis using d counts_starting [OF assms(2,3)] by simp
  qed
next
  fix r' assume "r' \<in> set (sc_finishedReqCh ?s')"
  then show "\<exists>c. sc_loaded ?s' (req_key r') = Some c \<and> c \<notin> snd ` set (sc_starting ?s')"
    using counts_finished [OF assms(2), of r'] by auto
next
  fix k c assume c: "sc_loaded ?s' k = Some c"
  have "users ?s' c = (if c = a then Suc (users s c) else users s c)" by (simp add: users_def)
  then show "rr_refCount (sc_runner ?s' c) = users ?s' c" using counts_users [OF assms(2), of k c] c by (cases "c = a") simp_all
qed (use counts_starting [OF assms(2)] in auto)

lemma runner_not_started_counts:
  assumes "sched_counts s" "(r, a) \<in> set (sc_starting s)"
  shows "sched_counts (runner_not_started err r a s)" (is "sched_counts ?s'")
proof (rule sched_countsI)
  have eq: "sc_loaded ?s' = sc_loaded s" "sc_waiting ?s' = sc_waiting s" "sc_finishedReqCh ?s' = sc_finishedReqCh s"
    "sc_starting ?s' = remove1 (r, a) (sc_starting s)" "sc_runner ?s' = sc_runner s" "sc_next ?s' = sc_next s"
    by (simp_all add: runner_not_started_def send_expired_def send_reply_def)
  show "distinct (map snd (sc_starting ?s'))" using distinct_snd_remove1 [OF counts_distinct [OF assms(1)] assms(2)] by (simp add: eq)
  fix r' c assume "(r', c) \<in> set (sc_waiting ?s')"
  then show "sc_loaded ?s' (req_key r') = Some c \<and> c \<notin> snd ` set (sc_starting ?s')" using counts_waiting [OF assms(1)] by (auto simp: eq)
next
  fix r' assume "r' \<in> set (sc_finishedReqCh ?s')"
  then show "\<exists>c. sc_loaded ?s' (req_key r') = Some c \<and> c \<notin> snd ` set (sc_starting ?s')"
    using counts_finished [OF assms(1), of r'] by (auto simp: runner_not_started_def send_expired_def send_reply_def)
next
  fix k c assume "sc_loaded ?s' k = Some c"
  then show "rr_refCount (sc_runner ?s' c) = users ?s' c"
    using counts_users [OF assms(1), of k c] by (simp add: users_def runner_not_started_def send_expired_def send_reply_def)
qed (use counts_dests [OF assms(1)] in \<open>auto simp: runner_not_started_def send_expired_def send_reply_def\<close>)

section \<open>Every step\<close>

lemma not_held: "\<not> held s a \<Longrightarrow> a \<notin> snd ` set (sc_starting s)"
  by (simp add: held_def)

lemma counts_pend [simp]: "sched_counts (s\<lparr>sc_pend := p\<rparr>) = sched_counts s"
  by (simp add: sched_counts_def users_def)

lemma expire_counts: "sched_counts s \<Longrightarrow> sched_counts (expire a s)"
  by (erule counts_keep) (auto simp: expire_ops Let_def)

lemma enqueue_counts: "sched_counts s \<Longrightarrow> sched_counts (enqueue env r s)"
  by (erule counts_keep) (auto simp: request_ops)

lemma load_prepare_simps [simp]: "sc_loaded (load_prepare pf r full s) = sc_loaded s" "sc_waiting (load_prepare pf r full s) = sc_waiting s"
    "sc_finishedReqCh (load_prepare pf r full s) = sc_finishedReqCh s" "sc_starting (load_prepare pf r full s) = sc_starting s"
    "sc_next (load_prepare pf r full s) = sc_next s" "sc_runner (load_prepare pf r full s) = sc_runner s"
    "sc_expiredCh (load_prepare pf r full s) = sc_expiredCh s" "sc_retrying (load_prepare pf r full s) = sc_retrying s"
    "sc_firing (load_prepare pf r full s) = sc_firing s" "sc_maxRunners (load_prepare pf r full s) = sc_maxRunners s"
  by (simp_all add: load_prepare_def start_server_def send_reply_def Let_def split: option.split sum.split)

lemma load_answered_counts:
  assumes "sched_wf s" "sched_counts s" "sc_loaded s (req_key r) = None"
    "\<And>pid ctx b. ans = LoadOk pid ctx \<Longrightarrow> b < sc_next s \<Longrightarrow> rr_pid (sc_runner s b) \<noteq> pid"
  shows "sched_counts (load_answered env r full trainCtx ans s)"
proof (cases ans)
  case (LoadOk pid ctx)
  then show ?thesis using insert_runner_counts [OF assms(1-3)] assms(4) by (simp add: load_answered_def)
qed (use load_answered_loaded [OF assms(3), of ans env full trainCtx] assms(2) in \<open>auto elim!: counts_keep\<close>)

theorem sched_step_counts:
  assumes "sched_step env s e s'" "sched_wf s" "sched_counts s" "fresh s e"
  shows "sched_counts s'"
  using assms
proof (induction rule: sched_step.induct)
  case (get s i m opts duration ctxAuto batchAuto shift mediaCall)
  then show ?case by (auto simp: getRunner_def intro!: enqueue_counts elim: counts_keep split: option.split)
next
  case (check_reload r a s ping)
  then show ?case by (auto intro!: enqueue_counts elim: counts_keep)
next
  case (use r a s)
  then show ?case
    using not_held [OF use(2)] by (intro useLoadedRunner_counts) (auto simp: fresh_def elim: counts_keep)
next
  case (request_done r a s)
  then show ?case by (intro request_done_counts)
next
  case (pend_use s r a)
  then show ?case
    using not_held [OF pend_use(2)] by (intro useLoadedRunner_counts) (auto simp: fresh_def elim: counts_keep)
next
  case (pend_load s r as gpuCount refused)
  then show ?case by (auto simp: pend_ops Let_def elim: counts_keep split: option.split)
next
  case (load_start s r full pf)
  then show ?case by (auto elim: counts_keep)
next
  case (load_done s r full ans trainCtx)
  then have none: "sc_loaded s (req_key r) = None" using wf_pend_load [of s r] by simp
  have "rr_pid (sc_runner s b) \<noteq> pid" if "ans = LoadOk pid ctx" "b < sc_next s" for pid ctx b
    using that load_done(4) by (simp add: fresh_def)
  then show ?case using load_answered_counts [OF load_done(2,3) none] by blast
next
  case (load_running r a s pid)
  then show ?case by (intro runner_started_counts) (auto simp: fresh_def)
next
  case (load_not_running r a s err)
  then show ?case by (intro runner_not_started_counts)
next
  case (pend_evict s r full as "on")
  then show ?case by (auto simp: evict_one_def Let_def elim: counts_keep split: option.split)
next
  case (comp_lost s r rs)
  then show ?case using counts_finished [of s r] by auto
next
  case (comp_finished s r rs a exited)
  then show ?case by (intro finish_request_counts)
next
  case (comp_expired s a as)
  have "a < sc_next s" using comp_expired by (intro wf_addr) (auto simp: sched_addrs_def)
  moreover have "sched_wf (s\<lparr>sc_expiredCh := as\<rparr>)"
    by (rule sched_wf_keep [OF comp_expired(4)]) (auto simp: sched_addrs_def comp_expired(2))
  ultimately show ?case
    using comp_expired by (intro expired_event_counts) (auto dest: not_held elim: counts_keep)
qed (auto simp: send_expired_def upd_runner_def intro!: expire_counts elim: counts_keep)

section \<open>A runner nobody uses will expire\<close>

definition will_expire :: "'cfg sched \<Rightarrow> nat set" where
  "will_expire s = set (sc_expiredCh s) \<union> set (sc_retrying s) \<union> set (sc_firing s) \<union> {a. rr_expireTimer (sc_runner s a) = Armed}"

definition sched_kept :: "'cfg sched \<Rightarrow> bool" where
  "sched_kept s \<longleftrightarrow>
     (\<forall>k a. sc_loaded s k = Some a \<longrightarrow> rr_refCount (sc_runner s a) = 0 \<longrightarrow> a \<in> will_expire s \<or> a \<in> snd ` set (sc_starting s))"

lemma sched_kept_init: "sched_kept (InitScheduler env store)"
  by (simp add: sched_kept_def InitScheduler_def)

lemma kept_keep:
  assumes "sched_kept s" "\<And>k a. sc_loaded s' k = Some a \<Longrightarrow> rr_refCount (sc_runner s' a) = 0 \<Longrightarrow>
      (sc_loaded s k = Some a \<and> rr_refCount (sc_runner s a) = 0 \<and> (a \<in> will_expire s \<longrightarrow> a \<in> will_expire s') \<and>
        (a \<in> snd ` set (sc_starting s) \<longrightarrow> a \<in> will_expire s' \<or> a \<in> snd ` set (sc_starting s'))) \<or>
      a \<in> will_expire s' \<or> a \<in> snd ` set (sc_starting s')"
  shows "sched_kept s'"
  using assms unfolding sched_kept_def by metis

lemma kept_same:
  assumes "sched_kept s" "sc_loaded s' = sc_loaded s" "sc_runner s' = sc_runner s" "sc_expiredCh s' = sc_expiredCh s"
    "sc_retrying s' = sc_retrying s" "sc_firing s' = sc_firing s" "sc_starting s' = sc_starting s"
  shows "sched_kept s'"
  using assms by (simp add: sched_kept_def will_expire_def)

lemma kept_pend [simp]: "sched_kept (s\<lparr>sc_pend := p\<rparr>) = sched_kept s"
  by (simp add: sched_kept_def will_expire_def)

lemma expire_kept: "sched_kept s \<Longrightarrow> sched_kept (expire a s)"
  by (erule kept_keep) (auto simp: expire_ops Let_def will_expire_def split: if_splits)

lemma useLoadedRunner_kept: "sched_kept s \<Longrightarrow> sched_kept (useLoadedRunner r a s)"
  by (erule kept_keep) (auto simp: request_ops Let_def will_expire_def split: if_splits)

lemma enqueue_kept: "sched_kept s \<Longrightarrow> sched_kept (enqueue env r s)"
  by (erule kept_same) (auto simp: request_ops)

lemma finish_request_kept: "sched_kept s \<Longrightarrow> sched_kept (finish_request exited a s)"
  by (erule kept_keep) (auto simp: finish_ops Let_def will_expire_def split: if_splits)

lemma expired_event_kept:
  assumes "sched_wf s" "sched_counts s" "sched_kept s" "sc_expiredCh s = a # as" "a < sc_next s"
  shows "sched_kept (expired_event a (s\<lparr>sc_expiredCh := as\<rparr>))" (is "sched_kept ?s'")
proof (rule kept_keep [OF assms(3)], rule disjI1)
  fix k c assume c: "sc_loaded ?s' k = Some c" "rr_refCount (sc_runner ?s' c) = 0"
  have live: "rr_modelKey (sc_runner s c) = k" if "sc_loaded s k = Some c" for k c
    using wf_loaded [OF assms(1) that] by (simp add: runner_live_def)
  have k: "sc_loaded s k = Some c"
    using c(1) by (auto simp: expired_event_def expired_idle_def upd_runner_def split: if_splits option.splits)
  have "c \<noteq> a"
  proof
    assume "c = a"
    then have a: "sc_loaded s (rr_modelKey (sc_runner s a)) = Some a" "rr_refCount (sc_runner s a) = 0" "k = rr_modelKey (sc_runner s a)"
      using k live c(2) by auto
    then have "sc_loaded ?s' k = None" by (simp add: expired_event_def expired_idle_def upd_runner_def)
    then show False using c(1) by simp
  qed
  moreover have "sc_starting ?s' = sc_starting s" "sc_firing ?s' = sc_firing s" "set (sc_retrying s) \<subseteq> set (sc_retrying ?s')"
    "sc_expiredCh ?s' = as" "c \<noteq> a \<Longrightarrow> sc_runner ?s' c = sc_runner s c"
    by (auto simp: expired_event_def expired_idle_def upd_runner_def split: option.split)
  ultimately show "sc_loaded s k = Some c \<and> rr_refCount (sc_runner s c) = 0 \<and> (c \<in> will_expire s \<longrightarrow> c \<in> will_expire ?s') \<and>
      (c \<in> snd ` set (sc_starting s) \<longrightarrow> c \<in> will_expire ?s' \<or> c \<in> snd ` set (sc_starting ?s'))"
    using k c(2) assms(4) by (auto simp: will_expire_def)
qed

lemma load_answered_kept:
  assumes "sched_wf s" "sched_kept s" "sc_loaded s (req_key r) = None"
  shows "sched_kept (load_answered env r full trainCtx ans s)"
proof (cases ans)
  case (LoadOk pid ctx)
  note ins = insert_runner_simps [of s "new_runner env pid ctx trainCtx r" r, unfolded new_runner_simps, OF assms(3)]
  have "sc_expiredCh (load_answered env r full trainCtx ans s) = sc_expiredCh s"
    "sc_retrying (load_answered env r full trainCtx ans s) = sc_retrying s" "sc_firing (load_answered env r full trainCtx ans s) = sc_firing s"
    using assms(3) LoadOk by (simp_all add: load_answered_def insert_runner_def upd_runner_def Let_def)
  then show ?thesis
    using assms(2) unfolding sched_kept_def will_expire_def
    by (auto simp: LoadOk load_answered_def ins split: if_splits)
qed (use assms(2) in \<open>auto simp: load_answered_def load_failed_def send_reply_def Let_def elim!: kept_same\<close>)

theorem sched_step_kept:
  assumes "sched_step env s e s'" "sched_wf s" "sched_counts s" "sched_kept s"
  shows "sched_kept s'"
  using assms
proof (induction rule: sched_step.induct)
  case (get s i m opts duration ctxAuto batchAuto shift mediaCall)
  then show ?case by (auto simp: getRunner_def intro!: enqueue_kept elim: kept_same split: option.split)
next
  case (check_reload r a s ping)
  then show ?case by (auto intro!: enqueue_kept elim: kept_same)
next
  case (pend_load s r as gpuCount refused)
  then show ?case by (auto simp: pend_ops Let_def elim: kept_same split: option.split)
next
  case (load_start s r full pf)
  then show ?case by (auto elim: kept_same)
next
  case (load_done s r full ans trainCtx)
  then have "sc_loaded s (req_key r) = None" using wf_pend_load [of s r] by simp
  then show ?case using load_answered_kept [OF load_done(2,4)] by blast
next
  case (load_running r a s pid)
  show ?case
    by (rule kept_keep [OF load_running(4)])
      (auto simp: runner_started_def send_reply_def upd_runner_def will_expire_def Let_def image_iff in_set_remove1 split: if_splits)
next
  case (load_not_running r a s err)
  show ?case
    by (rule kept_keep [OF load_not_running(5)])
      (auto simp: runner_not_started_def send_expired_def send_reply_def will_expire_def image_iff in_set_remove1)
next
  case (pend_evict s r full as "on")
  then show ?case by (auto simp: evict_one_def Let_def elim: kept_same split: option.split)
next
  case (comp_finished s r rs a exited)
  then show ?case by (auto intro!: finish_request_kept elim: kept_same)
next
  case (comp_expired s a as)
  have "a < sc_next s" using comp_expired by (intro wf_addr) (auto simp: sched_addrs_def)
  then show ?case using comp_expired by (intro expired_event_kept)
next
  case (retry a s)
  show ?case by (rule kept_keep [OF retry(5)]) (auto simp: send_expired_def will_expire_def in_set_remove1)
next
  case (timer_fires s a)
  show ?case by (rule kept_keep [OF timer_fires(5)]) (auto simp: upd_runner_def will_expire_def split: if_splits)
next
  case (timer_callback a s)
  show ?case
    by (rule kept_keep [OF timer_callback(6)])
      (auto simp: send_expired_def upd_runner_def will_expire_def in_set_remove1 split: if_splits)
qed (auto intro!: expire_kept useLoadedRunner_kept elim: kept_same)

text \<open>All of it, in every state the scheduler reaches.\<close>

theorem sched_reach_inv: "sched_reach env fresh s \<Longrightarrow> sched_wf s \<and> sched_counts s \<and> sched_kept s"
  by (induction rule: sched_reach.induct)
    (auto intro: sched_wf_init sched_counts_init sched_kept_init sched_step_wf sched_step_counts sched_step_kept)

end
