(* ===== verification/SchedRoom.thy ===== *)
theory SchedRoom
  imports SchedInv
begin

text \<open>
  The bounds on loaded models: those of the shared pool are at most \<open>OLLAMA_MAX_LOADED_MODELS\<close>, or its automatic value, and
  those of a kind that has a cap are at most the cap.  Both are one argument: \<open>room\<close>, for a property of models and a bound.
\<close>

definition loaded_count :: "('cfg model option \<Rightarrow> bool) \<Rightarrow> 'cfg sched \<Rightarrow> nat" where
  "loaded_count Q s = card {a \<in> ran (sc_loaded s). Q (rr_model (sc_runner s a))}"

text \<open>The bound may depend on the number of runners that is allowed.\<close>

definition room :: "('cfg model option \<Rightarrow> bool) \<Rightarrow> (nat \<Rightarrow> nat) \<Rightarrow> 'cfg sched \<Rightarrow> bool" where
  "room Q N s \<longleftrightarrow> loaded_count Q s \<le> N (sc_maxRunners s) \<and>
     (\<forall>r. pend_load (sc_pend s) = Some r \<longrightarrow> Q (Some (lr_model r)) \<longrightarrow> loaded_count Q s < N (sc_maxRunners s))"

lemma room_init: "room Q N (InitScheduler env store)"
  by (simp add: room_def loaded_count_def InitScheduler_def)

lemma finite_ran_loaded: "sched_wf s \<Longrightarrow> finite (ran (sc_loaded s))"
  by (simp add: sched_wf_def finite_ran)

lemma loaded_count_list: "loaded_list s as \<Longrightarrow> loaded_count Q s = length (loadedRunners Q (sc_runner s) as)"
  by (simp add: loaded_count_def loadedRunners_def loaded_list_def distinct_length_filter Int_def conj_commute)

lemma room_keep:
  assumes "room Q N s" "sched_wf s" "ran (sc_loaded s') \<subseteq> ran (sc_loaded s)" "sc_maxRunners s' = sc_maxRunners s"
    "\<And>a. a \<in> ran (sc_loaded s') \<Longrightarrow> rr_model (sc_runner s' a) = rr_model (sc_runner s a)"
    "\<And>r. pend_load (sc_pend s') = Some r \<Longrightarrow> \<exists>r'. pend_load (sc_pend s) = Some r' \<and> lr_model r' = lr_model r"
  shows "room Q N s'"
proof -
  have "loaded_count Q s' \<le> loaded_count Q s"
    unfolding loaded_count_def using assms(3,5) finite_ran_loaded [OF assms(2)] by (intro card_mono) auto
  then show ?thesis using assms(1,4,6) unfolding room_def by fastforce
qed

lemma room_same:
  assumes "room Q N s" "sc_loaded s' = sc_loaded s" "sc_maxRunners s' = sc_maxRunners s"
    "\<And>a. rr_model (sc_runner s' a) = rr_model (sc_runner s a)"
    "pend_load (sc_pend s') = pend_load (sc_pend s) \<or> pend_load (sc_pend s') = None"
  shows "room Q N s'"
  using assms by (auto simp: room_def loaded_count_def)

lemma expire_room: "room Q N s \<Longrightarrow> room Q N (expire a s)"
  by (erule room_same) (auto simp: expire_ops Let_def)

lemma useLoadedRunner_room: "room Q N s \<Longrightarrow> room Q N (useLoadedRunner r a s)"
  by (erule room_same) (auto simp: request_ops Let_def)

lemma enqueue_room: "room Q N s \<Longrightarrow> room Q N (enqueue env r s)"
  by (erule room_same) (auto simp: request_ops)

lemma finish_request_room: "room Q N s \<Longrightarrow> room Q N (finish_request exited a s)"
  by (erule room_same) (auto simp: finish_ops Let_def)

lemma expired_event_room:
  assumes "room Q N s" "sched_wf s"
  shows "room Q N (expired_event a s)"
proof (rule room_keep [OF assms])
  show "ran (sc_loaded (expired_event a s)) \<subseteq> ran (sc_loaded s)"
    by (auto simp: expired_event_def expired_idle_def upd_runner_def ran_def split: if_splits option.splits)
  fix b assume "b \<in> ran (sc_loaded (expired_event a s))"
  then obtain k where k: "sc_loaded (expired_event a s) k = Some b" by (auto simp: ran_def)
  then have "sc_loaded s k = Some b"
    by (auto simp: expired_event_def expired_idle_def upd_runner_def split: if_splits option.splits)
  then have "rr_modelKey (sc_runner s b) = k" using wf_loaded [OF assms(2)] by (simp add: runner_live_def)
  then show "rr_model (sc_runner (expired_event a s) b) = rr_model (sc_runner s b)"
    using k by (auto simp: expired_event_def expired_idle_def upd_runner_def split: if_splits option.splits)
qed (auto simp: expired_event_def expired_idle_def upd_runner_def split: if_splits option.splits)

lemma start_server_room:
  assumes "room Q N s" "Q (Some (lr_model r)) \<longrightarrow> loaded_count Q s < N (sc_maxRunners s)"
  shows "room Q N (start_server pf r full s)"
  using assms by (auto simp: room_def loaded_count_def start_server_def send_reply_def split: sum.split)

lemma load_prepare_room:
  assumes "room Q N s" "sc_pend s = PLoad r full"
  shows "room Q N (load_prepare pf r full s)"
proof -
  have "Q (Some (lr_model r)) \<longrightarrow> loaded_count Q s < N (sc_maxRunners s)" using assms by (simp add: room_def)
  with assms(1) show ?thesis
    by (auto simp: load_prepare_def Let_def intro!: start_server_room split: option.split)
      (auto simp: room_def loaded_count_def send_reply_def)
qed

lemma load_answered_room:
  assumes "room Q N s" "sched_wf s" "sc_pend s = PLoading r full"
  shows "room Q N (load_answered env r full trainCtx ans s)"
proof (cases ans)
  case (LoadOk pid ctx)
  have none: "sc_loaded s (req_key r) = None" using wf_pend_load [OF assms(2), of r] assms(3) by simp
  let ?rn = "new_runner env pid ctx trainCtx r" let ?s' = "insert_runner r ?rn s"
  have rn: "rr_modelKey ?rn = req_key r" "rr_model ?rn = Some (lr_model r)" by (simp_all add: new_runner_def Let_def)
  have s': "sc_loaded ?s' = (sc_loaded s)(req_key r \<mapsto> sc_next s)" "sc_runner ?s' = (sc_runner s)(sc_next s := ?rn)"
    "sc_maxRunners ?s' = sc_maxRunners s" "sc_pend ?s' = PIdle"
    by (simp_all add: insert_runner_def upd_runner_def Let_def rn(1) none)
  have "sc_next s \<notin> ran (sc_loaded s)" using wf_ran [OF assms(2)] by auto
  then have "{a \<in> ran (sc_loaded ?s'). Q (rr_model (sc_runner ?s' a))} =
      {a \<in> ran (sc_loaded s). Q (rr_model (sc_runner s a))} \<union> (if Q (Some (lr_model r)) then {sc_next s} else {})"
    using none by (auto simp: s' rn(2))
  then have "loaded_count Q ?s' \<le> loaded_count Q s + (if Q (Some (lr_model r)) then 1 else 0)"
    unfolding loaded_count_def using finite_ran_loaded [OF assms(2)] by (auto simp: card_insert_if)
  then show ?thesis
    using assms(1,3) by (auto simp: LoadOk load_answered_def room_def s' split: if_splits)
qed (use assms(1,3) in \<open>auto simp: load_answered_def load_failed_def send_reply_def Let_def room_def loaded_count_def\<close>)

lemma room_step:
  assumes "sched_step env s e s'" "sched_wf s" "room Q N s" "mono N"
    and room: "\<And>r as gpuCount refused. sc_pend s = PTry r \<Longrightarrow> loaded_list s as \<Longrightarrow> room_victim env r as s = None \<Longrightarrow> Q (Some (lr_model r)) \<Longrightarrow>
      loaded_count Q s < N (sc_maxRunners (try_load gpuCount refused r s))"
  shows "room Q N s'"
  using assms
proof (induction rule: sched_step.induct)
  case (get s i m opts duration ctxAuto batchAuto shift mediaCall)
  then show ?case by (auto simp: getRunner_def intro!: enqueue_room elim: room_same split: option.split)
next
  case (check_reload r a s ping)
  then show ?case by (auto intro!: enqueue_room elim: room_same)
next
  case (pend_room s r as v)
  show ?case by (rule room_same [OF pend_room(6)]) (auto split: option.split)
next
  case (pend_load s r as gpuCount refused)
  let ?s' = "try_load gpuCount refused r s"
  have le: "loaded_count Q ?s' = loaded_count Q s" "N (sc_maxRunners s) \<le> N (sc_maxRunners ?s')"
    using pend_load(7) by (auto simp: try_load_def send_reply_def Let_def loaded_count_def mono_def split: option.split)
  moreover have "r' = r" if "pend_load (sc_pend ?s') = Some r'" for r'
    using that by (auto simp: try_load_def send_reply_def Let_def split: option.splits if_splits)
  ultimately show ?case
    using pend_load(6) pend_load(8) [OF pend_load(1,3,4)] unfolding room_def by fastforce
next
  case (load_start s r full pf)
  then show ?case by (intro load_prepare_room)
next
  case (load_done s r full ans trainCtx)
  then show ?case by (intro load_answered_room)
next
  case (load_running r a s pid)
  show ?case by (rule room_same [OF load_running(3)]) (auto simp: runner_started_def send_reply_def upd_runner_def Let_def)
next
  case (load_not_running r a s err)
  show ?case by (rule room_same [OF load_not_running(4)]) (auto simp: runner_not_started_def send_expired_def send_reply_def)
next
  case (pend_evict s r full as "on")
  show ?case by (rule room_same [OF pend_evict(5)]) (auto simp: evict_one_def Let_def split: option.split)
next
  case (comp_finished s r rs a exited)
  then show ?case by (auto intro!: finish_request_room elim: room_same)
next
  case (comp_expired s a as)
  have "sched_wf (s\<lparr>sc_expiredCh := as\<rparr>)"
    by (rule sched_wf_keep [OF comp_expired(4)]) (auto simp: sched_addrs_def comp_expired(2))
  then show ?case using comp_expired by (auto intro!: expired_event_room elim: room_same)
next
  case (pend_expire s r a)
  show ?case by (rule room_same [OF expire_room [OF pend_expire(4), of a]]) (auto simp: pend_expire(1))
next
  case (evict_all s r a as n)
  show ?case by (rule room_same [OF expire_room [OF evict_all(4), of a]]) (auto simp: evict_all(1))
qed (auto simp: send_expired_def upd_runner_def intro!: expire_room useLoadedRunner_room elim: room_same)

section \<open>The two bounds\<close>

lemma pick_None: "pickRunnerToUnload rn as = None \<longleftrightarrow> as = []"
  by (auto simp: pickRunnerToUnload_def Let_def split: option.split)

lemma kind_cap_room:
  "kind_cap_victim rn as ks = None \<Longrightarrow> (limit, serves) \<in> set ks \<Longrightarrow> limit \<noteq> 0 \<Longrightarrow>
    length (loadedRunners (\<lambda>m. case m of None \<Rightarrow> False | Some m \<Rightarrow> serves m) rn as) < limit"
proof (induction rn as ks rule: kind_cap_victim.induct)
  case (2 rn as limit' serves' ks)
  have "kind_cap_victim rn as ks = None \<and>
      (limit' \<noteq> 0 \<longrightarrow> length (loadedRunners (\<lambda>m. case m of None \<Rightarrow> False | Some m \<Rightarrow> serves' m) rn as) < limit')"
    using 2(3) by (auto simp: Let_def pick_None split: if_splits)
  then show ?case using 2 by (auto simp: Let_def split: if_splits)
qed simp

lemma shared_room:
  assumes "sched_reach env allowed s"
  shows "room (inSharedPool (se_limits env)) (\<lambda>n. n) s"
  using assms
proof (induction rule: sched_reach.induct)
  case (init store)
  then show ?case by (rule room_init)
next
  case (step s e s')
  show ?case
  proof (rule room_step [OF step(2) sched_reach_wf [OF step(1)] step(4)])
    fix r as gpuCount refused
    assume r: "loaded_list s as" "room_victim env r as s = None" "inSharedPool (se_limits env) (Some (lr_model r))"
    have "sc_maxRunners (try_load gpuCount refused r s) =
        (if sc_maxRunners s = 0 then defaultModelsPerGPU * max gpuCount 1 else sc_maxRunners s)"
      by (simp add: try_load_def send_reply_def Let_def split: option.split)
    then show "loaded_count (inSharedPool (se_limits env)) s < sc_maxRunners (try_load gpuCount refused r s)"
      using r step(4) by (auto simp: room_victim_def sharedRunnerCount_def loaded_count_list [OF r(1)] room_def defaultModelsPerGPU_def
        split: option.splits if_splits)
  qed (simp add: mono_def)
qed

lemma kind_room:
  assumes "sched_reach env allowed s" "(limit, serves) \<in> set (loadKinds (se_limits env))" "limit \<noteq> 0"
  shows "room (\<lambda>m. case m of None \<Rightarrow> False | Some m \<Rightarrow> serves m) (\<lambda>_. limit) s"
  using assms(1)
proof (induction rule: sched_reach.induct)
  case (init store)
  then show ?case by (rule room_init)
next
  case (step s e s')
  show ?case
  proof (rule room_step [OF step(2) sched_reach_wf [OF step(1)] step(4)])
    fix r as
    assume r: "loaded_list s as" "room_victim env r as s = None" "case Some (lr_model r) of None \<Rightarrow> False | Some m \<Rightarrow> serves m"
    then have "kind_cap_victim (sc_runner s) as (kindsOf (se_limits env) (Some (lr_model r))) = None"
      by (auto simp: room_victim_def kindCapVictim_def split: option.splits)
    moreover have "(limit, serves) \<in> set (kindsOf (se_limits env) (Some (lr_model r)))" using r(3) assms(2) by (simp add: kindsOf_def)
    ultimately show "loaded_count (\<lambda>m. case m of None \<Rightarrow> False | Some m \<Rightarrow> serves m) s < limit"
      using kind_cap_room assms(3) by (simp add: loaded_count_list [OF r(1)])
  qed (simp add: mono_def)
qed

end
