(* ===== verification/SchedWake.thy ===== *)
theory SchedWake
  imports SchedInv
begin

text \<open>
  The pending loop waits for the runner it makes expire to be unloaded.  No wakeup is lost: the runner is still loaded, or the
  signal of an unloading is on its way.
\<close>

fun pend_victim :: "'cfg pend \<Rightarrow> nat option" where
  "pend_victim (PFound r a) = Some a"
| "pend_victim (PExpire r a) = Some a"
| "pend_victim (PWait r a) = Some a"
| "pend_victim _ = None"

definition signal_coming :: "'cfg sched \<Rightarrow> bool" where
  "signal_coming s \<longleftrightarrow> sc_unloadedCh s > 0 \<or> sc_comp s \<noteq> CIdle"

definition sched_woken :: "'cfg sched \<Rightarrow> bool" where
  "sched_woken s \<longleftrightarrow> (\<forall>v. pend_victim (sc_pend s) = Some v \<longrightarrow> v \<in> ran (sc_loaded s) \<or> signal_coming s)"

lemma sched_woken_init: "sched_woken (InitScheduler env store)"
  by (simp add: sched_woken_def InitScheduler_def)

lemma woken_keep:
  assumes "sched_woken s" "\<And>v. pend_victim (sc_pend s') = Some v \<Longrightarrow> pend_victim (sc_pend s) = Some v \<or> v \<in> ran (sc_loaded s')"
    "ran (sc_loaded s) \<subseteq> ran (sc_loaded s') \<or> sc_comp s' \<noteq> CIdle" "signal_coming s \<Longrightarrow> signal_coming s'"
  shows "sched_woken s'"
  using assms unfolding sched_woken_def signal_coming_def by blast

lemma woken_no_victim: "pend_victim (sc_pend s) = None \<Longrightarrow> sched_woken s"
  by (simp add: sched_woken_def)

lemma woken_same:
  assumes "sched_woken s" "sc_pend s' = sc_pend s" "sc_loaded s' = sc_loaded s" "sc_comp s' = sc_comp s" "sc_unloadedCh s' = sc_unloadedCh s"
  shows "sched_woken s'"
  using assms by (simp add: sched_woken_def signal_coming_def)

lemma expire_woken: "sched_woken s \<Longrightarrow> sched_woken (expire a s)"
  by (erule woken_same) (simp_all add: expire_ops Let_def)

lemma useLoadedRunner_woken: "sched_woken s \<Longrightarrow> sched_woken (useLoadedRunner r a s)"
  by (erule woken_same) (simp_all add: request_ops Let_def)

lemma enqueue_woken: "sched_woken s \<Longrightarrow> sched_woken (enqueue env r s)"
  by (erule woken_same) (simp_all add: request_ops)

lemma finish_request_woken: "sched_woken s \<Longrightarrow> sched_woken (finish_request exited a s)"
  by (erule woken_same) (simp_all add: finish_ops Let_def)

lemma expired_event_woken: "sched_woken s \<Longrightarrow> sched_woken (expired_event a s)"
  by (erule woken_keep)
    (auto simp: expired_event_def expired_idle_def upd_runner_def signal_coming_def split: if_splits option.split)

theorem sched_step_woken:
  assumes "sched_step env s e s'" "sched_wf s" "sched_woken s"
  shows "sched_woken s'"
  using assms
proof (induction rule: sched_step.induct)
  case (get s i m opts duration ctxAuto batchAuto shift mediaCall)
  then show ?case by (auto simp: getRunner_def intro!: enqueue_woken elim: woken_same split: option.split)
next
  case (check_reload r a s ping)
  then show ?case by (auto intro!: enqueue_woken elim: woken_same)
next
  case (pend_found s r a)
  then show ?case by (auto simp: sched_woken_def ran_def)
next
  case (pend_reload s r a ping)
  then show ?case by (auto simp: sched_woken_def signal_coming_def)
next
  case (pend_use s r a)
  show ?case by (rule useLoadedRunner_woken, rule woken_no_victim) simp
next
  case (pend_room s r as v)
  then show ?case by (auto simp: sched_woken_def loaded_list_def dest!: room_victim_in split: option.splits)
next
  case (pend_load s r as gpuCount refused)
  then show ?case by (intro woken_no_victim) (simp add: try_load_def send_reply_def Let_def split: option.split)
next
  case (load_start s r full pf)
  then show ?case
    by (intro woken_no_victim) (simp add: load_prepare_def start_server_def send_reply_def Let_def split: option.split sum.split)
next
  case (load_done s r full ans trainCtx)
  then show ?case
    by (intro woken_no_victim)
      (simp add: load_answered_def load_failed_def insert_runner_def send_reply_def Let_def split: load_answer.split)
next
  case (load_running r a s pid)
  then show ?case by (auto simp: runner_started_def send_reply_def upd_runner_def Let_def elim: woken_same)
next
  case (load_not_running r a s err)
  then show ?case by (auto simp: runner_not_started_def send_expired_def send_reply_def elim: woken_same)
next
  case (pend_evict s r full as "on")
  then show ?case
    by (auto simp: evict_one_def sched_woken_def loaded_list_def Let_def dest!: find_on_in split: option.splits)
next
  case (pend_expire s r a)
  then show ?case by (auto simp: sched_woken_def signal_coming_def expire_ops Let_def)
next
  case (comp_finished s r rs a exited)
  then show ?case by (auto intro!: finish_request_woken elim: woken_same)
next
  case (comp_expired s a as)
  then show ?case by (auto intro!: expired_event_woken elim: woken_same)
next
  case (comp_recovered s a)
  then show ?case by (auto simp: sched_woken_def signal_coming_def)
next
  case (comp_send s)
  then show ?case by (auto simp: sched_woken_def signal_coming_def)
qed (auto simp: send_expired_def upd_runner_def intro!: expire_woken useLoadedRunner_woken intro: woken_no_victim elim: woken_same)

theorem sched_reach_woken: "sched_reach env allowed s \<Longrightarrow> sched_woken s"
  by (induction rule: sched_reach.induct) (auto intro: sched_woken_init sched_step_woken sched_reach_wf)

end
