(* ===== verification/SchedExamples.thy ===== *)
theory SchedExamples
  imports SchedCounts SchedRoom SchedWake
begin

text \<open>
  Runs of the scheduler: a model is loaded, used and unloaded; a request is given a runner that is unloaded between the reload
  test and its use; a refused retry leaves a server behind and the next load panics.
\<close>

section \<open>One step after another\<close>

lemma fresh_Other [simp]: "fresh s Other"
  by (simp add: fresh_def)

lemma reach_other: "sched_reach env fresh s \<Longrightarrow> sched_step env s Other s' \<Longrightarrow> sched_reach env fresh s'"
  by (rule sched_reach.step) auto

lemma reach_any: "sched_reach env fresh s \<Longrightarrow> sched_reach env (\<lambda>_ _. True) s"
  by (induction rule: sched_reach.induct) (auto intro: sched_reach.intros)

definition blank_opts :: runner_opts where
  "blank_opts = \<lparr>ro_NumCtx = 4096, ro_NumBatch = 512, ro_NumGPU = -1, ro_MainGPU = None, ro_UseMMap = None, ro_NumThread = 0,
    ro_DraftNumPredict = 0\<rparr>"

text \<open>A model of MLX, whose runner is not reloaded for its options.\<close>

definition mlx_model :: "string \<Rightarrow> unit model" where
  "mlx_model name = \<lparr>m_Name = name, m_ShortName = name, m_ModelPath = [], m_ModelShardPaths = [], m_AdapterPaths = [],
    m_ProjectorPaths = [], m_Digest = [], m_ManifestDigest = name, m_ModelFormat = ''safetensors'', m_ModelFamily = [],
    m_ModelFamilies = [], m_Capabilities = [], m_decisionType = [], m_media = None, m_vision = False, m_wholePool = False,
    m_config = ()\<rparr>"

definition example_env :: sched_env where
  "example_env = \<lparr>se_MaxQueue = 4, se_MaxRunners = 0, se_KeepAlive = 300000000000,
    se_limits = \<lparr>ll_Image = 0, ll_Speech = 0, ll_Transcription = 0, ll_Video = 0, ll_SFX = 0, ll_Decision = 0, ll_llamacpp = False\<rparr>\<rparr>"

definition example_request :: "nat \<Rightarrow> string \<Rightarrow> int option \<Rightarrow> unit llm_request" where
  "example_request i name duration = new_request i (mlx_model name) blank_opts duration False False None False"

definition taken :: "'cfg llm_request \<Rightarrow> 'cfg llm_request" where
  "taken r = r\<lparr>lr_schedAttempts := lr_schedAttempts r + 1\<rparr>"

definition preflight_ok :: "string \<Rightarrow> preflight" where
  "preflight_ok path = \<lparr>pf_metadataErr = None, pf_NumBatch = 512, pf_shares = True, pf_needsEviction = False, pf_disableMmap = False,
    pf_server = Inr path\<rparr>"

definition blank_runner :: "unit runner_ref" where
  "blank_runner = new_runner example_env 0 0 0 (example_request 0 [] None)"

lemmas example_defs = example_env_def example_request_def mlx_model_def blank_opts_def taken_def preflight_ok_def new_request_def

section \<open>A model is loaded\<close>

text \<open>The first request, with a keep-alive of its own or the default, is served by runner 0.\<close>

definition x0 :: "unit sched" where
  "x0 = InitScheduler example_env (\<lambda>_. blank_runner)"

definition x1 :: "int option \<Rightarrow> unit sched" where
  "x1 d = getRunner example_env (example_request 1 ''a'' d) x0"

definition x2 :: "int option \<Rightarrow> unit sched" where
  "x2 d = (x1 d)\<lparr>sc_pendingReqCh := [], sc_pend := PTry (taken (example_request 1 ''a'' d))\<rparr>"

definition x3 :: "int option \<Rightarrow> unit sched" where
  "x3 d = try_load 1 None (taken (example_request 1 ''a'' d)) (x2 d)"

definition x4 :: "int option \<Rightarrow> unit sched" where
  "x4 d = load_prepare (preflight_ok ''a'') (taken (example_request 1 ''a'' d)) False (x3 d)"

definition x5 :: "int option \<Rightarrow> unit sched" where
  "x5 d = load_answered example_env (taken (example_request 1 ''a'' d)) False 0 (LoadOk 100 0) (x4 d)"

definition x6 :: "int option \<Rightarrow> unit sched" where
  "x6 d = runner_started 100 (taken (example_request 1 ''a'' d)) 0 (x5 d)"

lemma reach_x1: "sched_reach example_env fresh (x1 d)"
  unfolding x1_def x0_def example_request_def by (rule reach_other [OF sched_reach.init sched_step.get])

lemma x2_loaded: "sc_loaded (x2 d) = (\<lambda>_. None)"
  by (simp add: x2_def x1_def x0_def request_ops InitScheduler_def example_defs Let_def)

lemma reach_x2: "sched_reach example_env fresh (x2 d)"
  unfolding x2_def
proof (rule reach_other [OF reach_x1])
  show "sched_step example_env (x1 d) Other ((x1 d)\<lparr>sc_pendingReqCh := [], sc_pend := PTry (taken (example_request 1 ''a'' d))\<rparr>)"
    unfolding taken_def by (rule sched_step.pend_take) (simp_all add: x1_def x0_def request_ops InitScheduler_def example_defs Let_def)
qed

lemma reach_x3: "sched_reach example_env fresh (x3 d)"
  unfolding x3_def
  by (rule reach_other [OF reach_x2 sched_step.pend_load [of _ _ "[]"]])
    (simp_all add: x2_loaded loaded_list_def, simp_all add: x2_def x1_def x0_def request_ops InitScheduler_def example_defs Let_def
      room_victim_def kindCapVictim_def kindsOf_def loadKinds_def mediaServes_def isMediaKey_def has_prefix_def isDecisionModel_def)

lemmas x_defs = x2_def x1_def x0_def request_ops InitScheduler_def example_defs Let_def

lemma x3_state: "sc_pend (x3 d) = PLoad (taken (example_request 1 ''a'' d)) False" "sc_activeLoading (x3 d) = None"
    "sc_loaded (x3 d) = (\<lambda>_. None)"
  by (simp_all add: x3_def try_load_def x2_loaded Let_def, simp_all add: x_defs)

lemma reach_x4: "sched_reach example_env fresh (x4 d)"
  unfolding x4_def by (rule reach_other [OF reach_x3 sched_step.load_start]) (simp add: x3_state)

lemma x4_state: "sc_pend (x4 d) = PLoading (taken (example_request 1 ''a'' d)) False" "sc_loaded (x4 d) = (\<lambda>_. None)" "sc_next (x4 d) = 0"
  by (simp_all add: x4_def load_prepare_def x3_state is_gguf_load_def IsMLX_def start_server_def example_defs)
    (simp add: x3_def try_load_def x_defs)

lemma reach_x5: "sched_reach example_env fresh (x5 d)"
  unfolding x5_def
  by (rule sched_reach.step [OF reach_x4 sched_step.load_done [of _ _ _ _ "LoadOk 100 0"]]) (simp_all add: x4_state fresh_def)

lemma reach_x6: "sched_reach example_env fresh (x6 d)"
  unfolding x6_def
  by (rule sched_reach.step [OF reach_x5 sched_step.load_running [of _ 0 _ _ 100]])
    (simp_all add: x5_def load_answered_def insert_runner_def new_runner_simps x4_state upd_runner_def Let_def fresh_def)

text \<open>The state after the load.\<close>

definition runner_a :: "int option \<Rightarrow> unit runner_ref" where
  "runner_a d = (new_runner example_env 100 0 0 (example_request 1 ''a'' d))\<lparr>rr_refCount := 1, rr_loading := False\<rparr>"

lemma x6_state: "x6 d = x0\<lparr>sc_maxRunners := 3, sc_loaded := [''manifest:a'' \<mapsto> 0], sc_runner := (\<lambda>_. blank_runner)(0 := runner_a d), sc_next := 1,
    sc_waiting := [(taken (example_request 1 ''a'' d), 0)], sc_replies := [(1, Granted 0)]\<rparr>"
  by (simp add: x6_def x5_def x4_def x3_def x_defs runner_started_def load_answered_def insert_runner_def load_prepare_def try_load_def
      start_server_def is_gguf_load_def IsMLX_def new_runner_def runner_a_def upd_runner_def schedulerModelKey_def defaultModelsPerGPU_def)

section \<open>A runner is unloaded between the test and the use\<close>

text \<open>The first request asks for no keep-alive, and is done when a second one has found its runner usable.\<close>

definition req1 :: "unit llm_request" where
  "req1 = taken (example_request 1 ''a'' (Some 0))"

definition req2 :: "unit llm_request" where
  "req2 = example_request 2 ''a'' None"

lemma req_keys [simp]: "req_key req1 = ''manifest:a''" "req_key req2 = ''manifest:a''" "lr_id req1 = 1" "lr_id req2 = 2"
  by (simp_all add: req1_def req2_def example_defs Let_def schedulerModelKey_def)

lemma runner_a_simps [simp]: "rr_refCount (runner_a d) = 1" "rr_pid (runner_a d) = 100" "rr_modelKey (runner_a d) = ''manifest:a''"
    "rr_closed (runner_a d) = False"
    "rr_sessionDuration (runner_a d) = (case d of Some x \<Rightarrow> x | None \<Rightarrow> 300000000000)"
  by (simp_all add: runner_a_def new_runner_def example_defs Let_def schedulerModelKey_def split: option.split)

lemma no_reload: "\<not> needsReload True (runner_a (Some 0)) req2"
  by (simp add: needsReload_def runner_a_def new_runner_def req2_def example_defs runnerServesPastTrainedContext_def
      effectiveContext_def resolveContextShift_def Let_def IsMLX_def)

definition y0 :: "unit sched" where
  "y0 = x0\<lparr>sc_maxRunners := 3, sc_loaded := [''manifest:a'' \<mapsto> 0], sc_runner := (\<lambda>_. blank_runner)(0 := runner_a (Some 0)), sc_next := 1,
    sc_waiting := [(req1, 0)], sc_replies := [(1, Granted 0)]\<rparr>"

definition y2 :: "unit sched" where
  "y2 = y0\<lparr>sc_calls := [Checked req2 0]\<rparr>"

definition y4 :: "unit sched" where
  "y4 = y2\<lparr>sc_cancelled := [1], sc_waiting := [], sc_finishedReqCh := [req1]\<rparr>"

definition y7 :: "unit sched" where
  "y7 = y2\<lparr>sc_cancelled := [1], sc_waiting := [], sc_loaded := (\<lambda>_. None), sc_comp := CSend,
    sc_runner := (\<lambda>_. blank_runner)(0 := runner_unload ((runner_a (Some 0))\<lparr>rr_refCount := 0\<rparr>))\<rparr>"

lemma step_to: "sched_reach env fresh s \<Longrightarrow> sched_step env s Other t \<Longrightarrow> t = s' \<Longrightarrow> sched_reach env fresh s'"
  using reach_other by blast

lemmas y_fields = y0_def y2_def y4_def y7_def x0_def InitScheduler_def example_env_def held_def

lemma reach_y0: "sched_reach example_env fresh y0"
  using reach_x6 [of "Some 0"] by (simp add: y0_def x6_state req1_def)

lemma reach_y2: "sched_reach example_env fresh y2"
proof -
  have 1: "sched_reach example_env fresh (y0\<lparr>sc_calls := [Looked req2 0]\<rparr>)"
    by (rule step_to [OF reach_y0 sched_step.get [of _ _ 2 "mlx_model ''a''" blank_opts None False False None False]])
      (simp add: req2_def [unfolded example_request_def, symmetric] getRunner_def y_fields)
  show ?thesis
    by (rule step_to [OF 1 sched_step.check_ok [of req2 0 _ True]]) (simp_all add: y_fields no_reload)
qed

lemma reach_y4: "sched_reach example_env fresh y4"
proof -
  have 1: "sched_reach example_env fresh (y2\<lparr>sc_cancelled := [1]\<rparr>)"
    by (rule step_to [OF reach_y2 sched_step.cancel [of _ _ 1]]) (simp add: y_fields)
  show ?thesis
    by (rule step_to [OF 1 sched_step.request_done [of req1 0]]) (simp_all add: y_fields)
qed

lemma reach_y7: "sched_reach example_env fresh y7"
proof -
  let ?idle = "(runner_a (Some 0))\<lparr>rr_refCount := 0\<rparr>"
  have 1: "sched_reach example_env fresh (y4\<lparr>sc_finishedReqCh := [], sc_expiredCh := [0], sc_runner := (\<lambda>_. blank_runner)(0 := ?idle)\<rparr>)"
    by (rule step_to [OF reach_y4 sched_step.comp_finished [of _ req1 "[]" 0 False]])
      (simp_all add: y_fields finish_ops uint_dec_def isMediaKey_def has_prefix_def Let_def, simp add: runner_a_def new_runner_def Let_def)
  have 2: "sched_reach example_env fresh (y4\<lparr>sc_finishedReqCh := [], sc_loaded := (\<lambda>_. None), sc_comp := CRecover 0,
      sc_runner := (\<lambda>_. blank_runner)(0 := runner_unload ?idle)\<rparr>)"
    by (rule step_to [OF 1 sched_step.comp_expired [of _ 0 "[]"]])
      (simp_all add: y_fields expired_event_def expired_idle_def upd_runner_def)
  show ?thesis
    by (rule step_to [OF 2 sched_step.comp_recovered [of _ 0]]) (simp_all add: y_fields)
qed

text \<open>The second request now gets the closed runner, and waits for its end.\<close>

definition y8 :: "unit sched" where
  "y8 = useLoadedRunner req2 0 (y7\<lparr>sc_calls := []\<rparr>)"

lemma reach_y8: "sched_reach example_env (\<lambda>_ _. True) y8"
  unfolding y8_def
proof (rule sched_reach.step [OF reach_any [OF reach_y7]])
  show "sched_step example_env y7 (Grant req2 0) (useLoadedRunner req2 0 (y7\<lparr>sc_calls := []\<rparr>))"
    using sched_step.use [of req2 0 y7 example_env] by (simp add: y_fields)
qed simp

lemma y8_state: "(req2, 0) \<in> set (sc_waiting y8)" "rr_closed (sc_runner y8 0)" "(2, Granted 0) \<in> set (sc_replies y8)"
  by (simp_all add: y8_def y_fields request_ops runner_unload_def Let_def)

section \<open>A refused retry leaves its server behind\<close>

text \<open>
  A second model does not fit beside the first, and its server waits while the first one is unloaded.  The devices it is pinned
  to are gone when it is tried again: the request is refused, and the load of a third model panics.
\<close>

definition reqA :: "unit llm_request" where
  "reqA = taken (example_request 1 ''a'' None)"

definition reqB :: "unit llm_request" where
  "reqB = taken (example_request 2 ''b'' None)"

definition reqC :: "unit llm_request" where
  "reqC = taken (example_request 3 ''c'' None)"

lemma mlx_key [simp]: "schedulerModelKey (Some (mlx_model (c # cs))) = ''manifest:'' @ c # cs"
  by (simp add: mlx_model_def schedulerModelKey_def)

lemma reqABC_simps [simp]: "lr_id reqA = 1" "lr_id reqB = 2" "lr_id reqC = 3" "lr_model reqA = mlx_model ''a''" "lr_model reqB = mlx_model ''b''"
    "lr_model reqC = mlx_model ''c''" "ro_NumGPU (lr_opts reqB) = -1" "ro_NumGPU (lr_opts reqC) = -1"
    "\<not> lr_oomRetryAttempted reqB"
  by (simp_all add: reqA_def reqB_def reqC_def example_defs Let_def schedulerModelKey_def)

lemma mlx_simps [simp]: "\<not> is_gguf_load (mlx_model n)" "want_path (mlx_model n) = n" "kindsOf l (Some (mlx_model n)) = []"
  by (simp_all add: mlx_model_def is_gguf_load_def want_path_def IsMLX_def kindsOf_def loadKinds_def mediaServes_def
      isMediaKey_def has_prefix_def isDecisionModel_def)

lemma shared_mlx [simp]: "inSharedPool l (Some (mlx_model n))"
  by (simp add: inSharedPool_def)

lemma runner_a_model [simp]: "rr_model (runner_a d) = Some (mlx_model ''a'')"
  by (simp add: runner_a_def new_runner_def example_request_def new_request_def Let_def)

definition z0 :: "unit sched" where
  "z0 = x0\<lparr>sc_maxRunners := 3, sc_loaded := [''manifest:a'' \<mapsto> 0], sc_runner := (\<lambda>_. blank_runner)(0 := runner_a None), sc_next := 1,
    sc_waiting := [(reqA, 0)], sc_replies := [(1, Granted 0)]\<rparr>"

lemmas z_fields = z0_def x0_def InitScheduler_def example_env_def held_def

lemma reach_z0: "sched_reach example_env fresh z0"
  using reach_x6 [of None] by (simp add: z0_def x6_state reqA_def)

lemma example_take: "i = lr_id (taken (example_request i n d))" "(example_request i n d)\<lparr>lr_schedAttempts := lr_schedAttempts (example_request i n d) + 1\<rparr> = taken (example_request i n d)"
    "req_key (example_request i n d) = req_key (taken (example_request i n d))" "lr_id (example_request i n d) = i"
  by (simp_all add: taken_def example_request_def new_request_def Let_def)

text \<open>A request of a model that is not loaded is taken up.\<close>

lemma reach_taken:
  assumes "sched_reach example_env fresh s" "sc_loaded s (req_key (taken (example_request i n None))) = None" "sc_pendingReqCh s = []"
    "sc_pend s = PIdle" "i \<notin> set (sc_cancelled s)"
  shows "sched_reach example_env fresh (s\<lparr>sc_pend := PTry (taken (example_request i n None))\<rparr>)"
proof -
  have 1: "sched_reach example_env fresh (s\<lparr>sc_pendingReqCh := [example_request i n None]\<rparr>)"
    by (rule step_to [OF assms(1) sched_step.get [of _ _ i "mlx_model n" blank_opts None False False None False]])
      (use assms(2,3) in \<open>simp add: example_request_def [symmetric] getRunner_def enqueue_def example_take(3) example_env_def\<close>)
  show ?thesis
    by (rule step_to [OF 1 sched_step.pend_take [of _ "example_request i n None" "[]"]])
      (use assms(3-5) in \<open>simp_all add: example_take\<close>, simp add: taken_def)
qed

definition z2 :: "unit sched" where
  "z2 = z0\<lparr>sc_pend := PTry reqB\<rparr>"

lemma reach_z2: "sched_reach example_env fresh z2"
  unfolding z2_def reqB_def
  by (rule reach_taken [OF reach_z0]) (simp_all add: z_fields reqB_def [symmetric])

text \<open>The second model's server is made, and can not be placed beside the first.\<close>

definition z5 :: "unit sched" where
  "z5 = z0\<lparr>sc_activeLoading := Some ''b'', sc_pend := PEvict reqB True\<rparr>"

lemma z0_loaded: "loaded_list z0 [0]"
  by (simp add: loaded_list_def z_fields)

lemma reach_z5: "sched_reach example_env fresh z5"
proof -
  have 1: "sched_reach example_env fresh (z0\<lparr>sc_pend := PLoad reqB True\<rparr>)"
  proof (rule step_to [OF reach_z2 sched_step.pend_load [of _ reqB "[0]" _ 1 None]])
    show "room_victim example_env reqB [0] z2 = None"
      by (simp add: room_victim_def kindCapVictim_def sharedRunnerCount_def loadedRunners_def z2_def z_fields)
  qed (simp_all add: z2_def loaded_list_def z_fields try_load_def fun_eq_iff)
  have 2: "sched_reach example_env fresh (z0\<lparr>sc_activeLoading := Some ''b'', sc_pend := PLoading reqB True\<rparr>)"
    by (rule step_to [OF 1 sched_step.load_start [of _ reqB True _ "preflight_ok ''b''"]])
      (simp_all add: load_prepare_def start_server_def preflight_ok_def z_fields)
  show ?thesis
    by (rule step_to [OF 2 sched_step.load_done [of _ reqB True _ LoadRequiredFull, simplified]])
      (simp_all add: load_answered_def z5_def)
qed

text \<open>The first model's runner is made to expire, and is unloaded when its request is done.\<close>

definition z7 :: "unit sched" where
  "z7 = z5\<lparr>sc_pend := PWait reqB 0, sc_runner := (\<lambda>_. blank_runner)(0 := expire_now (runner_a None))\<rparr>"

lemma reach_z7: "sched_reach example_env fresh z7"
proof -
  have 1: "sched_reach example_env fresh (z5\<lparr>sc_pend := PExpire reqB 0\<rparr>)"
    by (rule step_to [OF reach_z5 sched_step.pend_evict [of _ reqB True "[0]" "[]"]])
      (simp_all add: z5_def loaded_list_def z_fields evict_one_def findRunnerToUnloadOn_def findRunnerToUnload_def)
  show ?thesis
    by (rule step_to [OF 1 sched_step.pend_expire [of _ reqB 0]])
      (simp_all add: z7_def z5_def z_fields can_expire_def expire_ops Let_def)
qed

definition runner_gone :: "unit runner_ref" where
  "runner_gone = runner_unload ((expire_now (runner_a None))\<lparr>rr_refCount := 0\<rparr>)"

definition z8 :: "unit sched" where
  "z8 = z0\<lparr>sc_activeLoading := Some ''b'', sc_cancelled := [1], sc_waiting := [], sc_loaded := (\<lambda>_. None),
    sc_runner := (\<lambda>_. blank_runner)(0 := runner_gone)\<rparr>"

lemma reach_z8: "sched_reach example_env fresh (z8\<lparr>sc_pend := PTry reqB\<rparr>)"
proof -
  let ?idle = "(expire_now (runner_a None))\<lparr>rr_refCount := 0\<rparr>"
  have 1: "sched_reach example_env fresh (z7\<lparr>sc_cancelled := [1]\<rparr>)"
    by (rule step_to [OF reach_z7 sched_step.cancel [of _ _ 1]]) (simp add: z7_def z5_def z_fields)
  have 2: "sched_reach example_env fresh (z7\<lparr>sc_cancelled := [1], sc_waiting := [], sc_finishedReqCh := [reqA]\<rparr>)"
    by (rule step_to [OF 1 sched_step.request_done [of reqA 0]]) (simp_all add: z7_def z5_def z_fields)
  have 3: "sched_reach example_env fresh (z7\<lparr>sc_cancelled := [1], sc_waiting := [], sc_expiredCh := [0],
      sc_runner := (\<lambda>_. blank_runner)(0 := ?idle)\<rparr>)"
    by (rule step_to [OF 2 sched_step.comp_finished [of _ reqA "[]" 0 False]])
      (simp_all add: z7_def z5_def z_fields finish_ops expire_now_def uint_dec_def isMediaKey_def has_prefix_def Let_def,
        cases "runner_a None", simp)
  have 4: "sched_reach example_env fresh (z8\<lparr>sc_pend := PWait reqB 0, sc_comp := CRecover 0\<rparr>)"
    by (rule step_to [OF 3 sched_step.comp_expired [of _ 0 "[]"]])
      (simp_all add: z8_def z7_def z5_def z_fields expired_event_def expired_idle_def upd_runner_def expire_now_def runner_gone_def)
  have 5: "sched_reach example_env fresh (z8\<lparr>sc_pend := PWait reqB 0, sc_comp := CSend\<rparr>)"
    by (rule step_to [OF 4 sched_step.comp_recovered [of _ 0]]) (simp_all add: z8_def z_fields)
  have 6: "sched_reach example_env fresh (z8\<lparr>sc_pend := PWait reqB 0, sc_unloadedCh := 1\<rparr>)"
    by (rule step_to [OF 5 sched_step.comp_send]) (simp_all add: z8_def z_fields)
  show ?thesis
    by (rule step_to [OF 6 sched_step.pend_unloaded [of _ reqB 0 0]]) (simp_all add: z8_def z_fields)
qed

text \<open>The devices are gone, the request is refused, and the next load meets the server that was left.\<close>

definition z9 :: "unit sched" where
  "z9 = z8\<lparr>sc_replies := [(1, Granted 0), (2, Failed ''not available'')]\<rparr>"

lemma room_idle: "sc_loaded s = (\<lambda>_. None) \<Longrightarrow> sc_maxRunners s > 0 \<Longrightarrow> kindsOf (se_limits env) (Some (lr_model r)) = [] \<Longrightarrow>
    room_victim env r [] s = None"
  by (simp add: room_victim_def kindCapVictim_def sharedRunnerCount_def loadedRunners_def)

lemma reach_z9: "sched_reach example_env fresh z9"
  by (rule step_to [OF reach_z8 sched_step.pend_load [of _ reqB "[]" _ 1 "Some ''not available''"]])
    (simp_all add: room_idle z9_def z8_def z_fields loaded_list_def try_load_def send_reply_def)

lemma reach_panic: "sched_reach example_env fresh (z9\<lparr>sc_pend := PPanic\<rparr>)"
proof -
  have 1: "sched_reach example_env fresh (z9\<lparr>sc_pend := PTry reqC\<rparr>)"
    unfolding reqC_def by (rule reach_taken [OF reach_z9]) (simp_all add: z9_def z8_def z_fields reqC_def [symmetric])
  have 2: "sched_reach example_env fresh (z9\<lparr>sc_pend := PLoad reqC False\<rparr>)"
    by (rule step_to [OF 1 sched_step.pend_load [of _ reqC "[]" _ 0 None]])
      (simp_all add: room_idle z9_def z8_def z_fields loaded_list_def try_load_def)
  show ?thesis
    by (rule step_to [OF 2 sched_step.load_start [of _ reqC False _ "preflight_ok ''c''"]])
      (simp_all add: load_prepare_def z9_def z8_def z_fields)
qed

end
