(* ===== verification/SchedSpec.thy ===== *)
theory SchedSpec
  imports SchedExamples
begin

text \<open>The properties of the scheduler.\<close>

lemma sorted_find_first:
  assumes "sorted (map f xs)" "List.find P xs = Some a" "b \<in> set xs" "P b"
  shows "f a \<le> f b"
proof -
  obtain i where i: "i < length xs" "a = xs ! i" "\<forall>j < i. \<not> P (xs ! j)" using assms(2) by (auto simp: find_Some_iff)
  obtain j where j: "j < length xs" "b = xs ! j" using assms(3) by (auto simp: in_set_conv_nth)
  then have "i \<le> j" using i(3) assms(4) by (metis not_le)
  then show ?thesis using assms(1) i(2) j by (simp add: sorted_iff_nth_mono)
qed

text \<open>C35: the runner that has to go for another one is idle when an idle one is among the candidates, and of these, or of all
  when none is idle, it comes first in the order of keep-alive and name.\<close>

theorem pick_runner_best:
  assumes "pickRunnerToUnload rn as = Some a"
  shows "a \<in> set as \<and>
    (\<forall>b \<in> set as. rr_refCount (rn b) = 0 \<longrightarrow> rr_refCount (rn a) = 0 \<and> duration_and_name (rn a) \<le> duration_and_name (rn b)) \<and>
    ((\<forall>b \<in> set as. rr_refCount (rn b) \<noteq> 0) \<longrightarrow> (\<forall>b \<in> set as. duration_and_name (rn a) \<le> duration_and_name (rn b)))"
proof -
  define key where "key = (\<lambda>a. duration_and_name (rn a))"
  define xs where "xs = sort_key key as"
  have xs: "set xs = set as" "sorted (map key xs)" by (simp_all add: xs_def)
  have ne: "as \<noteq> []" using assms by (auto simp: pickRunnerToUnload_def)
  then have xne: "xs \<noteq> []" using xs(1) by force
  have a: "(case List.find (\<lambda>a. rr_refCount (rn a) = 0) xs of Some a \<Rightarrow> Some a | None \<Rightarrow> Some (hd xs)) = Some a"
    using assms ne unfolding xs_def key_def by (simp add: pickRunnerToUnload_def Let_def)
  show ?thesis
  proof (cases "List.find (\<lambda>a. rr_refCount (rn a) = 0) xs")
    case None
    then have "a = hd xs" using a by simp
    moreover have "\<forall>b \<in> set as. rr_refCount (rn b) \<noteq> 0" using None xs(1) by (simp add: find_None_iff)
    moreover have "key (hd xs) \<le> key b" if "b \<in> set as" for b
    proof -
      have "b \<in> set xs" using that xs(1) by simp
      then show ?thesis using xs(2) by (cases xs) auto
    qed
    ultimately show ?thesis using xne xs(1) by (auto simp: key_def)
  next
    case (Some c)
    then have "a = c" using a by simp
    then have c: "a = c" "rr_refCount (rn a) = 0" "a \<in> set as" using Some xs(1) by (auto simp: find_Some_iff)
    then show ?thesis using sorted_find_first [OF xs(2) Some] xs(1) by (auto simp: key_def)
  qed
qed

lemma pick_runner_best_witness:
  "pickRunnerToUnload (\<lambda>a. blank_runner\<lparr>rr_refCount := a, rr_sessionDuration := 7\<rparr>) [2, 0, 1] = Some 0 \<and> (0 :: nat) \<in> set [2, 0, 1]"
proof -
  have p: "pickRunnerToUnload (\<lambda>a. blank_runner\<lparr>rr_refCount := a, rr_sessionDuration := 7\<rparr>) [2, 0, 1] = Some 0" by code_simp
  from pick_runner_best [OF this] show ?thesis using p by blast
qed

text \<open>C4: a request that was given a runner and is not done holds a loaded runner: its server is not closed, and its counter
  is the number of the requests that use it.  This is so as long as no request is given a runner that was unloaded after it was
  looked up and process ids are not reused (\<open>fresh\<close>).\<close>

theorem runner_in_use_stays_loaded:
  assumes "sched_reach env fresh s" "(r, a) \<in> set (sc_waiting s)"
  shows "sc_loaded s (req_key r) = Some a \<and> \<not> rr_closed (sc_runner s a) \<and> rr_refCount (sc_runner s a) = users s a \<and> users s a > 0"
proof -
  note inv = sched_reach_inv [OF assms(1)]
  have l: "sc_loaded s (req_key r) = Some a" using counts_waiting assms(2) inv by blast
  moreover have "users s a > 0" using assms(2) no_users [of s a] by (cases "users s a") auto
  ultimately show ?thesis using wf_loaded [of s "req_key r" a] counts_users [of s "req_key r" a] inv by (simp add: runner_live_def)
qed

lemma runner_in_use_stays_loaded_witness:
  "(req1, 0) \<in> set (sc_waiting y2) \<and> sc_loaded y2 ''manifest:a'' = Some 0 \<and> \<not> rr_closed (sc_runner y2 0)"
proof -
  have w: "(req1, 0) \<in> set (sc_waiting y2)" by (simp add: y_fields)
  from runner_in_use_stays_loaded [OF reach_y2 this] show ?thesis using w by simp
qed

lemma idle_expires: "sched_reach env fresh s \<Longrightarrow> sc_loaded s k = Some a \<Longrightarrow> users s a = 0 \<Longrightarrow>
    a \<in> will_expire s \<or> a \<in> snd ` set (sc_starting s)"
  using sched_reach_inv [of env s] counts_users [of s k a] by (simp add: sched_kept_def)

text \<open>C9: a loaded runner that no request uses is starting, or is going to expire: its expiry is queued or on its way, or its
  timer runs.  No runner stays loaded for want of an event, in the runs that \<open>fresh\<close> allows.\<close>

theorem idle_runner_will_expire:
  assumes "sched_reach env fresh s" "sc_loaded s k = Some a" "users s a = 0"
  shows "a \<in> will_expire s \<or> a \<in> snd ` set (sc_starting s)"
  using idle_expires assms by blast

lemma idle_runner_will_expire_witness:
  "sc_loaded (x5 None) ''manifest:a'' = Some 0 \<and> (0 \<in> will_expire (x5 None) \<or> 0 \<in> snd ` set (sc_starting (x5 None)))"
proof -
  have l: "sc_loaded (x5 None) ''manifest:a'' = Some 0" "users (x5 None) 0 = 0"
    by (simp_all add: x5_def load_answered_def insert_runner_def new_runner_def x4_state upd_runner_def Let_def taken_def example_request_def
        new_request_def users_def)
      (simp_all add: x4_def load_prepare_def x3_state is_gguf_load_def IsMLX_def start_server_def example_defs x3_def try_load_def x_defs)
  from idle_runner_will_expire [OF reach_x5 this] show ?thesis using l by simp
qed

text \<open>C11: while the pending loop waits for a runner to be unloaded, the signal is there or on its way, or the runner is loaded
  and in use, starting, or going to expire, in the runs that \<open>fresh\<close> allows.\<close>

theorem pending_wait_is_woken:
  assumes "sched_reach env fresh s" "sc_pend s = PWait r v"
  shows "signal_coming s \<or>
    (v \<in> ran (sc_loaded s) \<and> (users s v > 0 \<or> v \<in> will_expire s \<or> v \<in> snd ` set (sc_starting s)))"
proof (cases "signal_coming s")
  case False
  then have "v \<in> ran (sc_loaded s)" using sched_reach_woken [OF assms(1)] assms(2) by (simp add: sched_woken_def)
  then obtain k where k: "sc_loaded s k = Some v" by (auto simp: ran_def)
  show ?thesis
    using idle_expires [OF assms(1) k] k by (cases "users s v") (auto simp: ran_def)
qed simp

lemma pending_wait_is_woken_witness:
  "sc_pend z7 = PWait reqB 0 \<and> (signal_coming z7 \<or>
    (0 \<in> ran (sc_loaded z7) \<and> (users z7 0 > 0 \<or> 0 \<in> will_expire z7 \<or> 0 \<in> snd ` set (sc_starting z7))))"
proof -
  have p: "sc_pend z7 = PWait reqB 0" by (simp add: z7_def)
  from pending_wait_is_woken [OF reach_z7 this] show ?thesis using p by blast
qed

text \<open>C10: in every state, whatever the interleaving, the loaded models of the shared pool are at most the number that is
  allowed, and those of a kind with a cap at most the cap.\<close>

theorem loaded_models_bounded:
  assumes "sched_reach env allowed s"
  shows "loaded_count (inSharedPool (se_limits env)) s \<le> sc_maxRunners s \<and>
    (\<forall>(limit, serves) \<in> set (loadKinds (se_limits env)). limit \<noteq> 0 \<longrightarrow>
      loaded_count (\<lambda>m. case m of None \<Rightarrow> False | Some m \<Rightarrow> serves m) s \<le> limit)"
  using shared_room [OF assms] kind_room [OF assms] by (auto simp: room_def)

lemma loaded_models_bounded_witness: "loaded_count (inSharedPool (se_limits example_env)) y2 \<le> 3"
  using loaded_models_bounded [OF reach_y2] by (simp add: y_fields)

text \<open>A load, whatever the interleaving, adds its runner for a key that is not loaded: no loaded runner is replaced, closed
  or otherwise changed.\<close>

theorem load_replaces_nothing:
  assumes "sched_reach env allowed s" "sc_pend s = PLoading r full"
    "s' = load_answered env r full trainCtx (LoadOk pid ctx) s"
  shows "sc_loaded s' = (sc_loaded s)(req_key r \<mapsto> sc_next s) \<and> sc_loaded s (req_key r) = None \<and>
    (\<forall>a \<in> ran (sc_loaded s). sc_runner s' a = sc_runner s a)"
proof -
  have wf: "sched_wf s" by (rule sched_reach_wf [OF assms(1)])
  then have none: "sc_loaded s (req_key r) = None" using wf_pend_load [of s r] assms(2) by simp
  note ins = insert_runner_simps [of s "new_runner env pid ctx trainCtx r" r, unfolded new_runner_simps, OF none]
  show ?thesis using none wf_ran [OF wf] by (auto simp: assms(3) load_answered_def ins)
qed

lemma load_replaces_nothing_witness:
  "sc_pend (x4 None) = PLoading (taken (example_request 1 ''a'' None)) False \<and> sc_loaded (x4 None) ''manifest:a'' = None"
proof -
  have p: "sc_pend (x4 None) = PLoading (taken (example_request 1 ''a'' None)) False" by (simp add: x4_state)
  have k: "req_key (taken (example_request 1 ''a'' None)) = ''manifest:a''" by (simp add: example_defs schedulerModelKey_def Let_def)
  from load_replaces_nothing [OF reach_x4 p refl, of 0 100 0, unfolded k] show ?thesis using p by blast
qed


text \<open>C37: the pending loop can panic: a retry that is refused leaves the server of its model to the next load.\<close>

theorem refused_retry_panics:
  "\<exists>s :: unit sched. sched_reach example_env fresh s \<and> sc_pend s = PPanic \<and> sc_activeLoading s = Some ''b'' \<and>
    (2, Failed ''not available'') \<in> set (sc_replies s)"
proof (intro exI conjI)
  show "sched_reach example_env fresh (z9\<lparr>sc_pend := PPanic\<rparr>)" by (rule reach_panic)
qed (simp_all add: z9_def z8_def z_fields)

end
