(* ===== verification/DeviceNames.thy ===== *)
theory DeviceNames
  imports GoStrconv Complex_Main
begin

text \<open>
  How a model or the server's GPU policy names devices: \<open>types/xollama/devices.go\<close>, \<open>device_name.go\<close> and \<open>gpu.go\<close>.  \<open>wide\<close> and
  \<open>lower_wide\<close> are the tables of case folding and of lower case beyond ASCII.  An error is its message without the values it
  prints.
\<close>

section \<open>Keys\<close>

definition deviceNamePrefix :: string where
  "deviceNamePrefix = ''name:''"

definition cleanDeviceName :: "string \<Rightarrow> string" where
  "cleanDeviceName s = join '' '' (go_fields s)"

definition NameSelector :: "string \<Rightarrow> int \<Rightarrow> string" where
  "NameSelector name ordinal =
     (let name = cleanDeviceName name
      in if name = [] then []
         else if ordinal > 0 then deviceNamePrefix @ name @ ''#'' @ show_nat (nat ordinal)
         else deviceNamePrefix @ name)"

definition name_ordinal :: "string \<Rightarrow> string \<times> int" where
  "name_ordinal rest =
     (case last_index rest ''#'' of
        None \<Rightarrow> (rest, 0)
      | Some i \<Rightarrow>
          (let tail = drop (i + 1) rest
           in case go_Atoi tail of
                None \<Rightarrow> (rest, 0)
              | Some n \<Rightarrow> (if n \<ge> 1 \<and> \<not> list_ex (\<lambda>c. c \<in> set ''+- '') tail then (take i rest, n) else (rest, 0))))"

definition ParseNameSelector :: "(nat \<Rightarrow> nat) \<Rightarrow> string \<Rightarrow> (string \<times> int) option" where
  "ParseNameSelector wide s =
     (let s = trim_space s
      in if length s < length deviceNamePrefix \<or> \<not> equal_fold wide (take (length deviceNamePrefix) s) deviceNamePrefix then None
         else (let (rest, ordinal) = name_ordinal (drop (length deviceNamePrefix) s); name = cleanDeviceName rest
               in if name = [] then None else Some (name, ordinal)))"

definition SameDeviceName :: "(nat \<Rightarrow> nat) \<Rightarrow> string \<Rightarrow> string \<Rightarrow> bool" where
  "SameDeviceName wide a b =
     (let a = cleanDeviceName a; b = cleanDeviceName b in a \<noteq> [] \<and> equal_fold wide a b)"

definition NameSelects :: "(nat \<Rightarrow> nat) \<Rightarrow> string \<Rightarrow> int \<Rightarrow> string \<Rightarrow> int \<Rightarrow> bool" where
  "NameSelects wide name ordinal deviceName deviceOrdinal =
     (if \<not> SameDeviceName wide name deviceName then False else ordinal = 0 \<or> ordinal = max deviceOrdinal 1)"

text \<open>\<open>pciIDRegex\<close>, on a string in lower case.\<close>

definition hex_char :: "char \<Rightarrow> bool" where
  "hex_char c \<longleftrightarrow> of_char c \<in> {48..57 :: nat} \<or> of_char c \<in> {97..102 :: nat} \<or> of_char c \<in> {65..70 :: nat}"

definition short_pci :: "string \<Rightarrow> bool" where
  "short_pci s \<longleftrightarrow> length s = 7 \<and> hex_char (s ! 0) \<and> hex_char (s ! 1) \<and> s ! 2 = CHR '':'' \<and> hex_char (s ! 3) \<and> hex_char (s ! 4) \<and>
     s ! 5 = CHR ''.'' \<and> of_char (s ! 6) \<in> {48..55 :: nat}"

definition pciIDRegex :: "string \<Rightarrow> bool" where
  "pciIDRegex s \<longleftrightarrow> short_pci s \<or> (length s = 12 \<and> list_all hex_char (take 4 s) \<and> s ! 4 = CHR '':'' \<and> short_pci (drop 5 s))"

definition CanonicalPCIID :: "(nat \<Rightarrow> nat) \<Rightarrow> string \<Rightarrow> string option" where
  "CanonicalPCIID lower_wide s =
     (let s = to_lower lower_wide (trim_space s)
      in if \<not> pciIDRegex s then None
         else if length (filter (\<lambda>c. c = CHR '':'') s) = 1 then Some (''0000:'' @ s) else Some s)"

definition CanonicalDeviceKey :: "(nat \<Rightarrow> nat) \<Rightarrow> (nat \<Rightarrow> nat) \<Rightarrow> string \<Rightarrow> string option" where
  "CanonicalDeviceKey wide lower_wide s =
     (case CanonicalPCIID lower_wide s of
        Some pci \<Rightarrow> Some pci
      | None \<Rightarrow> map_option (\<lambda>(name, ordinal). NameSelector name ordinal) (ParseNameSelector wide s))"

definition sameDeviceKey :: "(nat \<Rightarrow> nat) \<Rightarrow> string \<Rightarrow> string \<Rightarrow> bool" where
  "sameDeviceKey wide a b = equal_fold wide a b"

definition validBackends :: "string list" where
  "validBackends = [''CUDA'', ''Vulkan'', ''ROCm'', ''CPU'']"

definition CanonicalBackend :: "(nat \<Rightarrow> nat) \<Rightarrow> string \<Rightarrow> string" where
  "CanonicalBackend wide s = (case List.find (\<lambda>b. equal_fold wide (trim_space s) b) validBackends of Some b \<Rightarrow> b | None \<Rightarrow> [])"

section \<open>A model's pin\<close>

record devices_pin =
  dp_Backend :: string
  dp_IDs :: "string list"

definition DeviceIntegrated :: string where "DeviceIntegrated = ''integrated''"
definition DeviceDiscrete :: string where "DeviceDiscrete = ''discrete''"

definition pin_IsZero :: "devices_pin option \<Rightarrow> bool" where
  "pin_IsZero d \<longleftrightarrow> (case d of None \<Rightarrow> True | Some p \<Rightarrow> dp_Backend p = [] \<and> dp_IDs p = [])"

definition pin_normalize :: "(nat \<Rightarrow> nat) \<Rightarrow> (nat \<Rightarrow> nat) \<Rightarrow> devices_pin \<Rightarrow> devices_pin" where
  "pin_normalize wide lower_wide d =
     (let b = CanonicalBackend wide (dp_Backend d)
      in d\<lparr>dp_Backend := (if b \<noteq> [] then b else dp_Backend d),
           dp_IDs := map (\<lambda>entry. let entry = trim_space entry
                               in case CanonicalDeviceKey wide lower_wide entry of
                                    Some key \<Rightarrow> key
                                  | None \<Rightarrow> (let a = to_lower lower_wide entry in if a = DeviceIntegrated \<or> a = DeviceDiscrete then a else entry))
                         (dp_IDs d)\<rparr>)"

definition IsPositional :: "string \<Rightarrow> bool" where
  "IsPositional entry \<longleftrightarrow> (case go_Atoi entry of None \<Rightarrow> False | Some n \<Rightarrow> n \<ge> 0)"

datatype device_error =
    IDsNeedBackend | UnknownBackend string | NothingToSelect | EmptyEntry | ListedTwice string | NotADevice string

fun validate_ids :: "(nat \<Rightarrow> nat) \<Rightarrow> (nat \<Rightarrow> nat) \<Rightarrow> string list \<Rightarrow> string list \<Rightarrow> device_error option" where
  "validate_ids wide lower_wide seen [] = None"
| "validate_ids wide lower_wide seen (entry # entries) =
     (if entry = [] then Some EmptyEntry
      else if to_lower lower_wide entry \<in> set seen then Some (ListedTwice entry)
      else if CanonicalDeviceKey wide lower_wide entry \<noteq> None \<or> entry = DeviceIntegrated \<or> entry = DeviceDiscrete \<or> IsPositional entry
      then validate_ids wide lower_wide (to_lower lower_wide entry # seen) entries
      else Some (NotADevice entry))"

definition pin_validate :: "(nat \<Rightarrow> nat) \<Rightarrow> (nat \<Rightarrow> nat) \<Rightarrow> devices_pin option \<Rightarrow> device_error option" where
  "pin_validate wide lower_wide dd =
     (if pin_IsZero dd then None
      else case dd of
             None \<Rightarrow> None
           | Some d \<Rightarrow>
               (if dp_Backend d = [] then Some IDsNeedBackend
                else if dp_Backend d \<notin> set validBackends then Some (UnknownBackend (dp_Backend d))
                else if dp_Backend d = ''CPU'' \<and> dp_IDs d \<noteq> [] then Some NothingToSelect
                else validate_ids wide lower_wide [] (dp_IDs d)))"

section \<open>The server's GPU policy\<close>

record gpu_device =
  gd_ID :: string
  gd_Disabled :: bool
  gd_Priority :: int
  gd_Backend :: string
  gd_LinkGBps :: real

record gpu_settings =
  gs_Devices :: "gpu_device list"
  gs_SplitPolicy :: string
  gs_SplitMode :: string

definition SplitAuto :: string where "SplitAuto = ''auto''"
definition SplitSpread :: string where "SplitSpread = ''spread''"
definition SplitSingle :: string where "SplitSingle = ''single''"

definition settings_IsZero :: "gpu_settings option \<Rightarrow> bool" where
  "settings_IsZero gg \<longleftrightarrow> (case gg of None \<Rightarrow> True | Some g \<Rightarrow> gs_Devices g = [] \<and> gs_SplitPolicy g = [] \<and> gs_SplitMode g = [])"

definition settings_Device :: "(nat \<Rightarrow> nat) \<Rightarrow> (nat \<Rightarrow> nat) \<Rightarrow> gpu_settings option \<Rightarrow> string \<Rightarrow> gpu_device option" where
  "settings_Device wide lower_wide gg key =
     (case (gg, CanonicalDeviceKey wide lower_wide key) of
        (Some g, Some want) \<Rightarrow>
          List.find (\<lambda>d. case CanonicalDeviceKey wide lower_wide (gd_ID d) of None \<Rightarrow> False | Some entry \<Rightarrow> sameDeviceKey wide entry want) (gs_Devices g)
      | _ \<Rightarrow> None)"

definition settings_Lookup :: "(nat \<Rightarrow> nat) \<Rightarrow> (nat \<Rightarrow> nat) \<Rightarrow> gpu_settings option \<Rightarrow> string \<Rightarrow> string \<Rightarrow> int \<Rightarrow> gpu_device option" where
  "settings_Lookup wide lower_wide gg pciID name ordinal =
     (case gg of
        None \<Rightarrow> None
      | Some g \<Rightarrow>
          (if CanonicalPCIID lower_wide pciID \<noteq> None then settings_Device wide lower_wide gg pciID
           else List.find (\<lambda>d. case ParseNameSelector wide (gd_ID d) of
                                 None \<Rightarrow> False | Some (n, ord) \<Rightarrow> NameSelects wide n ord name ordinal) (gs_Devices g)))"

datatype policy_error =
    UnknownSplit string | UnknownSplitMode string | ModeOfSingle | NotAGPU string | GPUTwice string | BadBackend string | BadLink string |
    LinkByName string

fun validate_gpus :: "(nat \<Rightarrow> nat) \<Rightarrow> (nat \<Rightarrow> nat) \<Rightarrow> string list \<Rightarrow> gpu_device list \<Rightarrow> policy_error option" where
  "validate_gpus wide lower_wide seen [] = None"
| "validate_gpus wide lower_wide seen (d # ds) =
     (case CanonicalDeviceKey wide lower_wide (gd_ID d) of
        None \<Rightarrow> Some (NotAGPU (gd_ID d))
      | Some entry \<Rightarrow>
          (let entry = to_lower lower_wide entry
           in if entry \<in> set seen then Some (GPUTwice entry)
              else if gd_Backend d \<noteq> [] \<and> (CanonicalBackend wide (gd_Backend d) = [] \<or> CanonicalBackend wide (gd_Backend d) = ''CPU'')
                then Some (BadBackend entry)
              else if gd_LinkGBps d < 0 \<or> gd_LinkGBps d > 1024 then Some (BadLink entry)
              else if gd_LinkGBps d > 0 \<and> CanonicalPCIID lower_wide (gd_ID d) = None then Some (LinkByName (gd_ID d))
              else validate_gpus wide lower_wide (entry # seen) ds))"

definition settings_Validate :: "(nat \<Rightarrow> nat) \<Rightarrow> (nat \<Rightarrow> nat) \<Rightarrow> gpu_settings option \<Rightarrow> policy_error option" where
  "settings_Validate wide lower_wide gg =
     (case gg of
        None \<Rightarrow> None
      | Some g \<Rightarrow>
          (if gs_SplitPolicy g \<noteq> [] \<and> gs_SplitPolicy g \<notin> {SplitAuto, SplitSpread, SplitSingle} then Some (UnknownSplit (gs_SplitPolicy g))
           else if gs_SplitMode g \<noteq> [] \<and> gs_SplitMode g \<notin> {''layer'', ''row''} then Some (UnknownSplitMode (gs_SplitMode g))
           else if gs_SplitMode g \<noteq> [] \<and> gs_SplitPolicy g = SplitSingle then Some ModeOfSingle
           else validate_gpus wide lower_wide [] (gs_Devices g)))"

definition settings_Split :: "gpu_settings option \<Rightarrow> string" where
  "settings_Split gg = (case gg of None \<Rightarrow> [] | Some g \<Rightarrow> gs_SplitPolicy g)"

end
