(* ===== verification/Placement.thy ===== *)
theory Placement
  imports DeviceNames SchedTypes "HOL-Library.Word"
begin

text \<open>
  Where a model is loaded: the choice of devices in \<open>server/device_select.go\<close>, the server's GPU policy in \<open>server/xollama_gpu.go\<close> and
  \<open>backend_copies.go\<close>, \<open>placement_opencoti.go\<close>, and the placement and batch sizes of \<open>server/sched.go\<close>.  Memory is counted in
  \<open>uint64\<close>, which wraps.  The devices come from discovery, the policy from the settings file; whether opencoti serves a group of
  devices is a function argument.
\<close>

section \<open>Devices\<close>

text \<open>\<open>ml.DeviceInfo\<close>, without what describes its driver and libraries.\<close>

record device_info =
  di_ID :: string
  di_Library :: string
  di_Name :: string
  di_Description :: string
  di_FilterID :: string
  di_Integrated :: bool
  di_PCIID :: string
  di_TotalMemory :: "64 word"
  di_FreeMemory :: "64 word"

record system_info =
  si_TotalMemory :: "64 word"
  si_FreeMemory :: "64 word"
  si_FreeSwap :: "64 word"

definition add_to_group :: "device_info \<Rightarrow> (string \<times> device_info list) list \<Rightarrow> (string \<times> device_info list) list" where
  "add_to_group info groups =
     (if di_Library info \<in> set (map fst groups)
      then map (\<lambda>(lib, l). if lib = di_Library info then (lib, l @ [info]) else (lib, l)) groups
      else groups @ [(di_Library info, [info])])"

definition ByLibrary :: "device_info list \<Rightarrow> device_info list list" where
  "ByLibrary l = map snd (fold add_to_group l [])"

section \<open>The devices a model may use\<close>

definition deviceName :: "device_info \<Rightarrow> string" where
  "deviceName d = (if di_Description d \<noteq> [] then di_Description d else di_Name d)"

fun name_place :: "(nat \<Rightarrow> nat) \<Rightarrow> device_info \<Rightarrow> int \<Rightarrow> device_info list \<Rightarrow> int" where
  "name_place wide d n [] = 0"
| "name_place wide d n (o' # os) =
     (if di_Library o' \<noteq> di_Library d \<or> \<not> SameDeviceName wide (deviceName o') (deviceName d) then name_place wide d n os
      else if di_ID o' = di_ID d then n + 1 else name_place wide d (n + 1) os)"

definition nameOrdinal :: "(nat \<Rightarrow> nat) \<Rightarrow> device_info \<Rightarrow> device_info list \<Rightarrow> int" where
  "nameOrdinal wide d all = name_place wide d 0 all"

definition deviceMatches :: "(nat \<Rightarrow> nat) \<Rightarrow> (nat \<Rightarrow> nat) \<Rightarrow> device_info \<Rightarrow> string \<Rightarrow> device_info list \<Rightarrow> bool" where
  "deviceMatches wide lower_wide d entry peers =
     (if entry = DeviceIntegrated then di_Integrated d
      else if entry = DeviceDiscrete then \<not> di_Integrated d
      else case CanonicalPCIID lower_wide entry of
             Some pci \<Rightarrow> (case CanonicalPCIID lower_wide (di_PCIID d) of None \<Rightarrow> False | Some dpci \<Rightarrow> dpci = pci)
           | None \<Rightarrow>
               (case ParseNameSelector wide entry of
                  Some (name, ordinal) \<Rightarrow> NameSelects wide name ordinal (deviceName d) (nameOrdinal wide d peers)
                | None \<Rightarrow> di_ID d = entry))"

definition isIntegratedVulkan :: "device_info \<Rightarrow> bool" where
  "isIntegratedVulkan g \<longleftrightarrow> di_Integrated g \<and> di_Library g = ''Vulkan''"

definition setAsideIntegratedVulkan :: "device_info list \<Rightarrow> device_info list" where
  "setAsideIntegratedVulkan gpus =
     (if \<not> list_ex (\<lambda>g. \<not> di_Integrated g) gpus then gpus
      else if \<not> list_ex isIntegratedVulkan gpus then gpus
      else filter (\<lambda>g. \<not> isIntegratedVulkan g) gpus)"

text \<open>A refusal names the pin and the entries that are missing.\<close>

definition selectModelDevices ::
  "(nat \<Rightarrow> nat) \<Rightarrow> (nat \<Rightarrow> nat) \<Rightarrow> devices_pin option \<Rightarrow> device_info list \<Rightarrow> (devices_pin \<times> string list) + device_info list" where
  "selectModelDevices wide lower_wide pp gpus =
     (case pp of
        None \<Rightarrow> Inr (setAsideIntegratedVulkan gpus)
      | Some pin \<Rightarrow>
          (if pin_IsZero pp then Inr (setAsideIntegratedVulkan gpus)
           else if dp_Backend pin = ''CPU'' then Inr []
           else
             (let candidates = filter (\<lambda>g. di_Library g = dp_Backend pin) gpus
              in if dp_IDs pin = [] then (if candidates = [] then Inl (pin, []) else Inr candidates)
                 else
                   (let missing = filter (\<lambda>entry. \<not> list_ex (\<lambda>c. deviceMatches wide lower_wide c entry candidates) candidates) (dp_IDs pin)
                    in if missing \<noteq> [] then Inl (pin, missing)
                       else Inr (filter (\<lambda>c. list_ex (\<lambda>entry. deviceMatches wide lower_wide c entry candidates) (dp_IDs pin)) candidates)))))"

section \<open>The GPU policy\<close>

definition samePCI :: "(nat \<Rightarrow> nat) \<Rightarrow> string \<Rightarrow> string \<Rightarrow> bool" where
  "samePCI lower_wide a b =
     (case (CanonicalPCIID lower_wide a, CanonicalPCIID lower_wide b) of (Some x, Some y) \<Rightarrow> x = y | _ \<Rightarrow> False)"

definition upstreamPreferred :: "(nat \<Rightarrow> nat) \<Rightarrow> device_info \<Rightarrow> device_info list \<Rightarrow> bool" where
  "upstreamPreferred lower_wide d all =
     (if di_Library d \<noteq> ''Vulkan'' \<or> di_PCIID d = [] then True
      else \<not> list_ex (\<lambda>o'. (di_Library o' = ''CUDA'' \<or> di_Library o' = ''ROCm'') \<and> samePCI lower_wide (di_PCIID o') (di_PCIID d)) all)"

definition policyFor :: "(nat \<Rightarrow> nat) \<Rightarrow> (nat \<Rightarrow> nat) \<Rightarrow> gpu_settings option \<Rightarrow> device_info \<Rightarrow> device_info list \<Rightarrow> gpu_device option" where
  "policyFor wide lower_wide g d all = settings_Lookup wide lower_wide g (di_PCIID d) (deviceName d) (nameOrdinal wide d all)"

definition preferredBackend :: "(nat \<Rightarrow> nat) \<Rightarrow> (nat \<Rightarrow> nat) \<Rightarrow> gpu_settings option \<Rightarrow> device_info \<Rightarrow> device_info list \<Rightarrow> bool" where
  "preferredBackend wide lower_wide g d all =
     (case policyFor wide lower_wide g d all of
        None \<Rightarrow> upstreamPreferred lower_wide d all
      | Some s \<Rightarrow>
          (if gd_Backend s = [] \<or> di_PCIID d = [] then upstreamPreferred lower_wide d all
           else let want = CanonicalBackend wide (gd_Backend s)
                in if di_Library d = want then True
                   else \<not> list_ex (\<lambda>o'. di_Library o' = want \<and> samePCI lower_wide (di_PCIID o') (di_PCIID d)) all))"

definition gpuPriority :: "(nat \<Rightarrow> nat) \<Rightarrow> (nat \<Rightarrow> nat) \<Rightarrow> gpu_settings option \<Rightarrow> device_info \<Rightarrow> device_info list \<Rightarrow> int" where
  "gpuPriority wide lower_wide g d all = (case policyFor wide lower_wide g d all of None \<Rightarrow> 0 | Some s \<Rightarrow> gd_Priority s)"

definition applyGPUPolicy ::
  "(nat \<Rightarrow> nat) \<Rightarrow> (nat \<Rightarrow> nat) \<Rightarrow> gpu_settings option \<Rightarrow> devices_pin option \<Rightarrow> device_info list \<Rightarrow> device_info list" where
  "applyGPUPolicy wide lower_wide g pin gpus =
     (if settings_IsZero g \<or> gpus = [] then gpus
      else
        (let pinned = \<not> pin_IsZero pin;
             out = filter (\<lambda>d. if pinned then True
                               else if (case policyFor wide lower_wide g d gpus of Some s \<Rightarrow> gd_Disabled s | None \<Rightarrow> False) then False
                               else preferredBackend wide lower_wide g d gpus) gpus
         in sort_key (\<lambda>d. - gpuPriority wide lower_wide g d gpus) out))"

definition schedSpread :: "gpu_settings option \<Rightarrow> bool \<Rightarrow> bool" where
  "schedSpread g env = (if settings_Split g = SplitSpread then True
     else if settings_Split g = SplitSingle \<or> settings_Split g = SplitAuto then False else env)"

definition neverSplit :: "gpu_settings option \<Rightarrow> bool" where
  "neverSplit g \<longleftrightarrow> settings_Split g = SplitSingle"

definition priorityOrder :: "(nat \<Rightarrow> nat) \<Rightarrow> (nat \<Rightarrow> nat) \<Rightarrow> gpu_settings option \<Rightarrow> device_info \<Rightarrow> device_info \<Rightarrow> int" where
  "priorityOrder wide lower_wide g a b =
     (if settings_IsZero g then 0 else sgn (gpuPriority wide lower_wide g a [] - gpuPriority wide lower_wide g b []))"

definition wantsBackend :: "devices_pin option \<Rightarrow> gpu_settings option \<Rightarrow> bool" where
  "wantsBackend pin g =
     (if (case pin of None \<Rightarrow> False | Some p \<Rightarrow> \<not> pin_IsZero pin \<and> dp_Backend p \<noteq> [] \<and> dp_Backend p \<noteq> ''CPU'') then True
      else case g of None \<Rightarrow> False | Some s \<Rightarrow> list_ex (\<lambda>d. gd_Backend d \<noteq> []) (gs_Devices s))"

fun index_where :: "('a \<Rightarrow> bool) \<Rightarrow> 'a list \<Rightarrow> nat option" where
  "index_where P [] = None"
| "index_where P (x # xs) = (if P x then Some 0 else map_option Suc (index_where P xs))"

definition add_copy :: "(nat \<Rightarrow> nat) \<Rightarrow> device_info \<Rightarrow> device_info list \<Rightarrow> device_info list" where
  "add_copy lower_wide c out =
     (if list_ex (\<lambda>g. di_Library g = di_Library c \<and> di_ID g = di_ID c) out then out
      else case index_where (\<lambda>g. di_Library g \<noteq> di_Library c \<and> \<not> di_Integrated g \<and> samePCI lower_wide (di_PCIID g) (di_PCIID c)) out of
             None \<Rightarrow> out
           | Some i \<Rightarrow>
               (let free = min (di_FreeMemory c) (di_FreeMemory (out ! i))
                in out[i := (out ! i)\<lparr>di_FreeMemory := free\<rparr>] @ [c\<lparr>di_FreeMemory := free\<rparr>]))"

definition withBackendCopies ::
  "(nat \<Rightarrow> nat) \<Rightarrow> gpu_settings option \<Rightarrow> device_info list \<Rightarrow> devices_pin option \<Rightarrow> device_info list \<Rightarrow> device_info list" where
  "withBackendCopies lower_wide g copies pin gpus =
     (if gpus = [] \<or> \<not> wantsBackend pin g then gpus else fold (add_copy lower_wide) copies gpus)"

text \<open>\<open>needs\<close>: only opencoti can serve the model; \<open>would\<close>: it serves these devices.\<close>

definition opencotiPlacement :: "bool \<Rightarrow> (device_info list \<Rightarrow> bool) \<Rightarrow> device_info list \<Rightarrow> device_info list" where
  "opencotiPlacement needs would gpus =
     (if \<not> needs \<or> length gpus < 2 then gpus
      else let kept = concat (filter would (ByLibrary gpus))
           in if kept = [] \<or> length kept = length gpus then gpus else kept)"

section \<open>Memory\<close>

definition availableMemoryForLoad :: "system_info \<Rightarrow> device_info list \<Rightarrow> 64 word \<times> 64 word \<times> bool" where
  "availableMemoryForLoad systemInfo gpus =
     (let gpuFree = sum_list (map di_FreeMemory gpus);
          sharedGPUFree = sum_list (map di_FreeMemory (filter di_Integrated gpus));
          discreteGPUFree = sum_list (map di_FreeMemory (filter (\<lambda>g. \<not> di_Integrated g) gpus))
      in if si_FreeMemory systemInfo > 0 \<and> sharedGPUFree > 0 \<and> si_FreeMemory systemInfo < sharedGPUFree
         then (discreteGPUFree + si_FreeMemory systemInfo, gpuFree, True) else (gpuFree, gpuFree, False))"

definition availableMemoryForGPU :: "system_info \<Rightarrow> device_info \<Rightarrow> 64 word" where
  "availableMemoryForGPU systemInfo gpu =
     (if di_Integrated gpu \<and> si_FreeMemory systemInfo > 0 \<and> si_FreeMemory systemInfo < di_FreeMemory gpu
      then si_FreeMemory systemInfo else di_FreeMemory gpu)"

definition gpusForPlacement :: "device_info list \<Rightarrow> runner_opts \<Rightarrow> device_info list" where
  "gpusForPlacement gpus opts =
     (case ro_MainGPU opts of
        Some i \<Rightarrow> (if i \<ge> 0 \<and> i < int (length gpus) then [gpus ! nat i] else gpus)
      | None \<Rightarrow> gpus)"

definition availableMemoryForPlacement :: "system_info \<Rightarrow> device_info list \<Rightarrow> runner_opts \<Rightarrow> 64 word \<times> 64 word \<times> bool" where
  "availableMemoryForPlacement systemInfo gpus opts =
     (let placementGpus = gpusForPlacement gpus opts
      in if length placementGpus = 1 \<and> ro_MainGPU opts \<noteq> None
         then (let gpuFree = di_FreeMemory (placementGpus ! 0); available = availableMemoryForGPU systemInfo (placementGpus ! 0)
               in (available, gpuFree, available < gpuFree))
         else availableMemoryForLoad systemInfo placementGpus)"

section \<open>Placement\<close>

text \<open>The candidates so far: the best device with its memory, if any.\<close>

definition betterPlacementGPU :: "(device_info \<Rightarrow> device_info \<Rightarrow> int) \<Rightarrow> device_info \<Rightarrow> 64 word \<Rightarrow> device_info \<Rightarrow> 64 word \<Rightarrow> bool" where
  "betterPlacementGPU prio candidate candidateAvailable current currentAvailable =
     (let p = prio candidate current
      in if p \<noteq> 0 then p > 0
         else if di_Integrated candidate \<noteq> di_Integrated current then \<not> di_Integrated candidate
         else candidateAvailable > currentAvailable)"

definition better_of ::
  "(device_info \<Rightarrow> device_info \<Rightarrow> int) \<Rightarrow> system_info \<Rightarrow> device_info \<Rightarrow> (device_info \<times> 64 word) option \<Rightarrow> (device_info \<times> 64 word) option" where
  "better_of prio systemInfo candidate best =
     (let candidateAvailable = availableMemoryForGPU systemInfo candidate
      in case best of
           None \<Rightarrow> Some (candidate, candidateAvailable)
         | Some (gpu, available) \<Rightarrow>
             (if betterPlacementGPU prio candidate candidateAvailable gpu available then Some (candidate, candidateAvailable) else best))"

definition bestExplicitMainGPU ::
  "(device_info \<Rightarrow> device_info \<Rightarrow> int) \<Rightarrow> system_info \<Rightarrow> device_info list list \<Rightarrow> int \<Rightarrow> (device_info \<times> 64 word) option" where
  "bestExplicitMainGPU prio systemInfo groups mainGPU =
     (if mainGPU < 0 then None
      else fold (\<lambda>group best. if mainGPU \<ge> int (length group) then best else better_of prio systemInfo (group ! nat mainGPU) best) groups None)"

definition bestSingleGPUFit ::
  "(device_info \<Rightarrow> device_info \<Rightarrow> int) \<Rightarrow> system_info \<Rightarrow> device_info list list \<Rightarrow> 64 word \<Rightarrow> (device_info \<times> 64 word) option" where
  "bestSingleGPUFit prio systemInfo groups predictedVRAM =
     fold (\<lambda>candidate best.
        if predictedVRAM > availableMemoryForGPU systemInfo candidate * 80 div 100 then best else better_of prio systemInfo candidate best)
       (concat groups) None"

definition hasDiscreteGPU :: "device_info list \<Rightarrow> bool" where
  "hasDiscreteGPU gpus \<longleftrightarrow> list_ex (\<lambda>g. \<not> di_Integrated g) gpus"

definition betterPlacementGroup :: "device_info list \<Rightarrow> 64 word \<Rightarrow> device_info list \<Rightarrow> 64 word \<Rightarrow> bool" where
  "betterPlacementGroup candidate candidateAvailable current currentAvailable =
     (if hasDiscreteGPU candidate \<noteq> hasDiscreteGPU current then hasDiscreteGPU candidate else candidateAvailable > currentAvailable)"

definition bestGPUGroupByAvailableMemory :: "system_info \<Rightarrow> device_info list list \<Rightarrow> device_info list" where
  "bestGPUGroupByAvailableMemory systemInfo groups =
     fst (fold (\<lambda>group (best, bestAvailable).
        let available = fst (availableMemoryForLoad systemInfo group)
        in if best = [] \<or> betterPlacementGroup group available best bestAvailable then (group, available) else (best, bestAvailable))
       groups ([], 0))"

definition singleLlamaServerGPUPlacement :: "device_info \<Rightarrow> runner_opts \<Rightarrow> device_info list \<times> runner_opts" where
  "singleLlamaServerGPUPlacement gpu opts = ([gpu], opts\<lparr>ro_MainGPU := Some 0\<rparr>)"

definition selectLlamaServerPlacement ::
  "(device_info \<Rightarrow> device_info \<Rightarrow> int) \<Rightarrow> bool \<Rightarrow> bool \<Rightarrow> system_info \<Rightarrow> device_info list \<Rightarrow> 64 word \<Rightarrow> runner_opts \<Rightarrow>
   device_info list \<times> runner_opts" where
  "selectLlamaServerPlacement prio spread never systemInfo gpus predictedVRAM opts =
     (if length gpus \<le> 1 \<or> ro_NumGPU opts = 0 then (gpus, opts)
      else
        (let groups = ByLibrary gpus
         in if groups = [] then (gpus, opts)
            else case ro_MainGPU opts of
                   Some i \<Rightarrow>
                     (case bestExplicitMainGPU prio systemInfo groups i of
                        None \<Rightarrow> (bestGPUGroupByAvailableMemory systemInfo groups, opts)
                      | Some (gpu, _) \<Rightarrow> singleLlamaServerGPUPlacement gpu opts)
                 | None \<Rightarrow>
                     (let single =
                        (if \<not> spread \<and> predictedVRAM > 0
                         then (case bestSingleGPUFit prio systemInfo groups predictedVRAM of
                                 Some x \<Rightarrow> Some x
                               | None \<Rightarrow> (if never then bestSingleGPUFit prio systemInfo groups 0 else None))
                         else None)
                      in case single of
                           Some (gpu, _) \<Rightarrow> singleLlamaServerGPUPlacement gpu opts
                         | None \<Rightarrow> (bestGPUGroupByAvailableMemory systemInfo groups, opts))))"

end
