(* ===== verification/LoadPlan.thy ===== *)
theory LoadPlan
  imports Placement
begin

text \<open>
  What the pending loop and \<open>load\<close> of \<open>server/sched.go\<close> decide before a server is started: the memory that loaded models
  leave free, the devices of a model, its batch size, whether loaded models have to go (\<open>server/evict_last.go\<close>), whether its file
  is mapped, and the retry with a smaller context.  What the model's file and the engine say about a load is a record of
  arguments.
\<close>

section \<open>Free memory\<close>

type_synonym device_id = "string \<times> string"

definition device_key :: "device_info \<Rightarrow> device_id" where
  "device_key g = (di_ID g, di_Library g)"

text \<open>A loaded runner gives its memory on each device, or nothing when it has no server.\<close>

definition add_usage :: "device_info list \<Rightarrow> (device_id \<Rightarrow> 64 word) option \<Rightarrow> (device_id \<Rightarrow> 64 word option) \<Rightarrow> (device_id \<Rightarrow> 64 word option)" where
  "add_usage allGpus usage predMap =
     (case usage of
        None \<Rightarrow> predMap
      | Some VRAMByGPU \<Rightarrow>
          fold (\<lambda>gpu m. m(device_key gpu \<mapsto> (case m (device_key gpu) of None \<Rightarrow> 0 | Some v \<Rightarrow> v) + VRAMByGPU (device_key gpu))) allGpus predMap)"

definition free_left :: "(device_id \<Rightarrow> 64 word option) \<Rightarrow> device_info \<Rightarrow> device_info" where
  "free_left predMap gpu =
     (case predMap (device_key gpu) of
        None \<Rightarrow> gpu
      | Some p \<Rightarrow>
          (if p > di_TotalMemory gpu then gpu\<lparr>di_FreeMemory := 0\<rparr>
           else if di_TotalMemory gpu - p < di_FreeMemory gpu then gpu\<lparr>di_FreeMemory := di_TotalMemory gpu - p\<rparr>
           else gpu))"

definition updateFreeSpace :: "(device_id \<Rightarrow> 64 word) option list \<Rightarrow> device_info list \<Rightarrow> device_info list" where
  "updateFreeSpace runners allGpus =
     (if allGpus = [] then allGpus else map (free_left (fold (add_usage allGpus) runners (\<lambda>_. None))) allGpus)"

section \<open>The devices of a load\<close>

text \<open>The server's policy, the other backends' copies of its GPUs, and what opencoti says of a model.\<close>

record placement_env =
  pe_policy :: "gpu_settings option"
  pe_copies :: "device_info list"
  pe_schedSpread :: bool
  pe_needsOpencoti :: bool
  pe_wouldUseOpencoti :: "device_info list \<Rightarrow> bool"

text \<open>The part of \<open>processPending\<close> between the refresh of the devices and the load; a refusal is an error for the request.\<close>

definition chooseDevices ::
  "(nat \<Rightarrow> nat) \<Rightarrow> (nat \<Rightarrow> nat) \<Rightarrow> placement_env \<Rightarrow> devices_pin option \<Rightarrow> runner_opts \<Rightarrow> (device_id \<Rightarrow> 64 word) option list \<Rightarrow>
   device_info list \<Rightarrow> (devices_pin \<times> string list) + device_info list" where
  "chooseDevices wide lower_wide env pin opts runners found =
     (let gpus = updateFreeSpace runners (if ro_NumGPU opts = 0 then [] else found);
          selected = (if ro_NumGPU opts \<noteq> 0
                      then selectModelDevices wide lower_wide pin (withBackendCopies lower_wide (pe_policy env) (pe_copies env) pin gpus)
                      else Inr gpus)
      in case selected of
           Inl refusal \<Rightarrow> Inl refusal
         | Inr gpus \<Rightarrow>
             Inr (opencotiPlacement (pe_needsOpencoti env) (pe_wouldUseOpencoti env)
                    (applyGPUPolicy wide lower_wide (pe_policy env) pin gpus)))"

section \<open>Context and batch\<close>

definition ResolveWholePool :: "int \<Rightarrow> int \<Rightarrow> bool \<Rightarrow> int" where
  "ResolveWholePool numCtx trainCtx polykv =
     (if numCtx \<noteq> NumCtxWholePool then numCtx else if polykv \<and> trainCtx > 0 then trainCtx else 4)"

definition effectiveModelContext :: "int \<Rightarrow> int \<Rightarrow> bool \<Rightarrow> int" where
  "effectiveModelContext numCtx trainCtx unlocked =
     (let numCtx = (if numCtx = NumCtxWholePool then ResolveWholePool numCtx trainCtx True else numCtx)
      in if unlocked then numCtx else effectiveContext numCtx trainCtx)"

definition effectiveLlamaServerContext :: "int \<Rightarrow> int \<Rightarrow> int \<Rightarrow> bool \<Rightarrow> int" where
  "effectiveLlamaServerContext numCtx trainCtx numParallel unlocked = effectiveModelContext numCtx trainCtx unlocked * max numParallel 1"

definition llamaServerGenerationBatchDefault :: int where "llamaServerGenerationBatchDefault = 512"
definition llamaServerGenerationBatchConstrained :: int where "llamaServerGenerationBatchConstrained = 256"
definition llamaServerGenerationBatchMedium :: int where "llamaServerGenerationBatchMedium = 1024"
definition llamaServerGenerationBatchLarge :: int where "llamaServerGenerationBatchLarge = 2048"

definition LlamaServerBatchMemory :: "int \<Rightarrow> 64 word" where
  "LlamaServerBatchMemory batch = (if batch \<ge> 2048 then 2147483648 else if batch \<ge> 1024 then 805306368 else 0)"

definition hasCUDADevice :: "device_info list \<Rightarrow> bool" where
  "hasCUDADevice gpus \<longleftrightarrow> list_ex (\<lambda>g. di_Library g = ''CUDA'') gpus"

definition constrainedCUDAWithoutFlashAttention :: "int \<Rightarrow> device_info list \<Rightarrow> bool" where
  "constrainedCUDAWithoutFlashAttention effectiveCtx gpus =
     (if effectiveCtx \<le> 4096 then False
      else list_ex (\<lambda>gpu.
        if di_Library gpu \<noteq> ''CUDA'' then False
        else let memory = (if di_FreeMemory gpu = 0 \<or> (di_TotalMemory gpu > 0 \<and> di_TotalMemory gpu < di_FreeMemory gpu)
                           then di_TotalMemory gpu else di_FreeMemory gpu)
             in memory > 0 \<and> memory \<le> 8589934592) gpus)"

definition generationBatchForContext :: "int \<Rightarrow> int" where
  "generationBatchForContext effectiveCtx =
     (if effectiveCtx > 32768 then llamaServerGenerationBatchLarge
      else if effectiveCtx > 4096 then llamaServerGenerationBatchMedium
      else llamaServerGenerationBatchDefault)"

definition generationBatchHasHeadroom :: "int \<Rightarrow> 64 word \<Rightarrow> 64 word \<Rightarrow> bool" where
  "generationBatchHasHeadroom batch predictedVRAM availableMemory =
     (if batch \<ge> llamaServerGenerationBatchLarge then predictedVRAM \<le> availableMemory * 60 div 100
      else if batch \<ge> llamaServerGenerationBatchMedium then predictedVRAM \<le> availableMemory * 75 div 100
      else True)"

definition generationBatchFits :: "int \<Rightarrow> 64 word \<Rightarrow> 64 word \<Rightarrow> bool" where
  "generationBatchFits batch predictedVRAM availableMemory =
     (if predictedVRAM = 0 \<or> availableMemory = 0 then True
      else let threshold = availableMemory * 80 div 100
           in if predictedVRAM > threshold then False
              else if \<not> generationBatchHasHeadroom batch predictedVRAM availableMemory then False
              else LlamaServerBatchMemory batch \<le> threshold - predictedVRAM)"

definition nextLowerGenerationBatch :: "int \<Rightarrow> int" where
  "nextLowerGenerationBatch batch =
     (if batch > llamaServerGenerationBatchMedium then llamaServerGenerationBatchMedium else llamaServerGenerationBatchDefault)"

function lower_batch :: "(int \<Rightarrow> bool) \<Rightarrow> int \<Rightarrow> int" where
  "lower_batch fits batch =
     (if batch > llamaServerGenerationBatchDefault \<and> \<not> fits batch then lower_batch fits (nextLowerGenerationBatch batch) else batch)"
  by auto

termination
  by (relation "measure (\<lambda>(fits, batch). nat batch)")
    (auto simp: nextLowerGenerationBatch_def llamaServerGenerationBatchMedium_def llamaServerGenerationBatchDefault_def)

declare lower_batch.simps [simp del]

text \<open>\<open>flashOff\<close>: flash attention is off for the load.\<close>

definition automaticGenerationBatch :: "int \<Rightarrow> 64 word \<Rightarrow> 64 word \<Rightarrow> bool \<Rightarrow> device_info list \<Rightarrow> int" where
  "automaticGenerationBatch effectiveCtx predictedVRAM availableMemory flashOff gpus =
     (if flashOff \<and> hasCUDADevice gpus then
        (if constrainedCUDAWithoutFlashAttention effectiveCtx gpus then llamaServerGenerationBatchConstrained
         else llamaServerGenerationBatchDefault)
      else lower_batch (\<lambda>batch. generationBatchFits batch predictedVRAM availableMemory) (generationBatchForContext effectiveCtx))"

definition batchForUnknownMemory :: "bool \<Rightarrow> int \<Rightarrow> 64 word \<Rightarrow> int" where
  "batchForUnknownMemory wouldUseOpencoti batch availableMemory =
     (if availableMemory \<noteq> 0 \<or> batch \<le> llamaServerGenerationBatchDefault \<or> \<not> wouldUseOpencoti then batch
      else llamaServerGenerationBatchDefault)"

definition nextLowerAutoNumCtx :: "int \<Rightarrow> int option" where
  "nextLowerAutoNumCtx numCtx = (if numCtx > 32768 then Some 32768 else if numCtx > 4096 then Some 4096 else None)"

section \<open>The plan of a load\<close>

text \<open>
  What the engine says of a load: the context the model was trained in, its blocks, the blocks of a decision head, whether the
  trained context may be exceeded, the prediction of its memory, that of its weights, and whether flash attention is off.
\<close>

record engine_view =
  ev_trainCtx :: int
  ev_BlockCount :: "64 word"
  ev_decisionBlocks :: "64 word"
  ev_unlocked :: "device_info list \<Rightarrow> bool"
  ev_predict :: "runner_opts \<Rightarrow> device_info list \<Rightarrow> int \<Rightarrow> 64 word"
  ev_weights :: "64 word"
  ev_flashOff :: "device_info list \<Rightarrow> bool"
  ev_opencoti :: "device_info list \<Rightarrow> bool"

definition applyAutomaticGenerationBatch ::
  "engine_view \<Rightarrow> bool \<Rightarrow> 'cfg llm_request \<Rightarrow> int \<Rightarrow> 64 word \<Rightarrow> 64 word \<Rightarrow> device_info list \<Rightarrow> 'cfg llm_request" where
  "applyAutomaticGenerationBatch ev completion req effectiveCtx predictedVRAM availableMemory gpus =
     (if \<not> completion \<or> \<not> lr_numBatchAuto req then req
      else req\<lparr>lr_opts := (lr_opts req)\<lparr>ro_NumBatch :=
             batchForUnknownMemory (ev_opencoti ev gpus)
               (automaticGenerationBatch effectiveCtx predictedVRAM availableMemory (ev_flashOff ev gpus) gpus) availableMemory\<rparr>\<rparr>)"

definition LlamaServerBatch :: "engine_view \<Rightarrow> runner_opts \<Rightarrow> bool \<Rightarrow> int \<times> 64 word" where
  "LlamaServerBatch ev opts completion =
     (let wholePrompt = ev_decisionBlocks ev > 0;
          batch = (if wholePrompt then (if ev_trainCtx ev > 0 then min (ro_NumCtx opts) (ev_trainCtx ev) else ro_NumCtx opts)
                   else ro_NumBatch opts)
      in if \<not> completion \<and> \<not> wholePrompt then (batch, 0) else (batch, LlamaServerBatchMemory batch))"

definition explicitPartialGPUOffload :: "engine_view \<Rightarrow> runner_opts \<Rightarrow> bool" where
  "explicitPartialGPUOffload ev opts =
     (if ro_NumGPU opts \<le> 0 then False else word_of_int (ro_NumGPU opts) < ev_BlockCount ev + 1)"

definition sharesHostMemory :: "device_info list \<Rightarrow> bool" where
  "sharesHostMemory gpus \<longleftrightarrow> gpus \<noteq> [] \<and> list_all di_Integrated gpus"

definition needsEviction :: "engine_view \<Rightarrow> device_info list \<Rightarrow> 64 word \<Rightarrow> 64 word \<Rightarrow> bool" where
  "needsEviction ev loadGpus predicted free =
     (if \<not> ev_opencoti ev loadGpus then predicted > free * 80 div 100
      else if sharesHostMemory loadGpus then predicted > free
      else let onCard = ev_weights ev * (100 - 20) div 100 in \<not> free \<ge> onCard)"

text \<open>The answer of the first part of \<open>load\<close>: evict first, or start a server on these devices with these options.\<close>

record 'cfg load_plan =
  lp_gpus :: "device_info list"
  lp_launchOpts :: runner_opts
  lp_req :: "'cfg llm_request"
  lp_free :: "64 word"
  lp_predicted :: "64 word"
  lp_evict :: bool

definition planLoad ::
  "(nat \<Rightarrow> nat) \<Rightarrow> (nat \<Rightarrow> nat) \<Rightarrow> placement_env \<Rightarrow> engine_view \<Rightarrow> bool \<Rightarrow> int \<Rightarrow> system_info \<Rightarrow> device_info list \<Rightarrow> bool \<Rightarrow> bool \<Rightarrow>
   'cfg llm_request \<Rightarrow> 'cfg load_plan" where
  "planLoad wide lower_wide env ev completion numParallel systemInfo gpus requireFull otherLoaded req =
     (let predictedCtx = effectiveLlamaServerContext (ro_NumCtx (lr_opts req)) (ev_trainCtx ev) numParallel (ev_unlocked ev gpus);
          predicted = ev_predict ev (lr_opts req) gpus predictedCtx;
          (loadGpus, launchOpts) =
            selectLlamaServerPlacement (priorityOrder wide lower_wide (pe_policy env)) (schedSpread (pe_policy env) (pe_schedSpread env))
              (neverSplit (pe_policy env)) systemInfo gpus predicted (lr_opts req);
          availableForBatch = fst (availableMemoryForPlacement systemInfo loadGpus launchOpts);
          req = applyAutomaticGenerationBatch ev completion req predictedCtx predicted availableForBatch loadGpus;
          launchOpts = launchOpts\<lparr>ro_NumBatch := ro_NumBatch (lr_opts req)\<rparr>;
          (batch, batchMemory) = LlamaServerBatch ev launchOpts completion;
          launchOpts = launchOpts\<lparr>ro_NumBatch := batch\<rparr>;
          predictedForLoad = predicted + batchMemory;
          freeMemory = fst (availableMemoryForPlacement systemInfo loadGpus launchOpts)
      in \<lparr>lp_gpus = loadGpus, lp_launchOpts = launchOpts, lp_req = req, lp_free = freeMemory, lp_predicted = predictedForLoad,
          lp_evict = (requireFull \<and> \<not> explicitPartialGPUOffload ev launchOpts \<and> otherLoaded \<and> loadGpus \<noteq> [] \<and>
                      needsEviction ev loadGpus predictedForLoad freeMemory)\<rparr>)"

text \<open>After a load that ran out of memory: the next smaller context, when it was chosen automatically.\<close>

definition reduceAutoNumCtxForLoadOOM ::
  "engine_view \<Rightarrow> int \<Rightarrow> bool \<Rightarrow> system_info \<Rightarrow> device_info list \<Rightarrow> runner_opts \<Rightarrow> 'cfg llm_request \<Rightarrow> 'cfg llm_request option" where
  "reduceAutoNumCtxForLoadOOM ev numParallel completion systemInfo gpus launchOpts req =
     (if \<not> lr_numCtxAuto req then None
      else
        (let oldNumCtx = ro_NumCtx (lr_opts req)
         in case nextLowerAutoNumCtx (if ev_trainCtx ev > 0 \<and> oldNumCtx > ev_trainCtx ev then ev_trainCtx ev else oldNumCtx) of
              None \<Rightarrow> None
            | Some newNumCtx \<Rightarrow>
                (if newNumCtx \<ge> oldNumCtx then None
                 else
                   (let req = req\<lparr>lr_opts := (lr_opts req)\<lparr>ro_NumCtx := newNumCtx\<rparr>\<rparr>;
                        predictedCtx = effectiveLlamaServerContext newNumCtx (ev_trainCtx ev) numParallel (ev_unlocked ev gpus);
                        predictedVRAM = ev_predict ev (lr_opts req) gpus predictedCtx;
                        available = fst (availableMemoryForPlacement systemInfo gpus launchOpts)
                    in Some (applyAutomaticGenerationBatch ev completion req predictedCtx predictedVRAM available gpus)))))"

section \<open>Mapping the file\<close>

definition hasDeviceLibrary :: "(nat \<Rightarrow> nat) \<Rightarrow> device_info list \<Rightarrow> string \<Rightarrow> bool" where
  "hasDeviceLibrary wide gpus library \<longleftrightarrow> list_ex (\<lambda>g. equal_fold wide (di_Library g) library) gpus"

definition allDevicesLibrary :: "(nat \<Rightarrow> nat) \<Rightarrow> device_info list \<Rightarrow> string \<Rightarrow> bool" where
  "allDevicesLibrary wide gpus library \<longleftrightarrow> gpus \<noteq> [] \<and> list_all (\<lambda>g. equal_fold wide (di_Library g) library) gpus"

definition allDiscreteGPUs :: "device_info list \<Rightarrow> bool" where
  "allDiscreteGPUs gpus \<longleftrightarrow> gpus \<noteq> [] \<and> list_all (\<lambda>g. \<not> di_Integrated g) gpus"

text \<open>The empty string is no reason.\<close>

definition disableMmapDefaultReason ::
  "(nat \<Rightarrow> nat) \<Rightarrow> string \<Rightarrow> runner_opts \<Rightarrow> device_info list \<Rightarrow> 64 word \<Rightarrow> 64 word \<Rightarrow> 64 word \<Rightarrow> string" where
  "disableMmapDefaultReason wide goos opts gpus blockCount predictedVRAM availableVRAM =
     (if ro_UseMMap opts \<noteq> None then ''''
      else if ro_NumGPU opts = 0 \<or> gpus = [] \<or> allDevicesLibrary wide gpus ''cpu'' then ''cpu''
      else if goos = ''windows'' \<and> hasDeviceLibrary wide gpus ''cuda'' then ''windows_cuda''
      else if hasDeviceLibrary wide gpus ''metal'' \<and>
        (ro_NumGPU opts > 0 \<and> blockCount > 0 \<and> word_of_int (ro_NumGPU opts) < blockCount + 1 \<or>
         ro_NumGPU opts < 0 \<and> predictedVRAM > 0 \<and> availableVRAM > 0 \<and> predictedVRAM > availableVRAM) then ''metal_partial_offload''
      else '''')"

definition mmapHostPressureHeadroom :: "64 word \<Rightarrow> 64 word" where
  "mmapHostPressureHeadroom totalMemory = (if totalMemory = 0 then 8000000000 else max 8000000000 (totalMemory div 10))"

definition disableMmapForHostPressure ::
  "string \<Rightarrow> runner_opts \<Rightarrow> system_info \<Rightarrow> device_info list \<Rightarrow> 64 word \<Rightarrow> 64 word \<Rightarrow> 64 word \<Rightarrow> 64 word \<Rightarrow> bool" where
  "disableMmapForHostPressure goos opts systemInfo gpus modelSize loadedMmapSize predictedVRAM availableVRAM =
     (if ro_UseMMap opts \<noteq> None \<or> goos \<noteq> ''linux'' \<or> modelSize = 0 \<or> si_FreeMemory systemInfo = 0 \<or> \<not> allDiscreteGPUs gpus then False
      else if predictedVRAM = 0 \<or> availableVRAM = 0 \<or> predictedVRAM > availableVRAM * 80 div 100 then False
      else si_FreeMemory systemInfo < modelSize + loadedMmapSize + mmapHostPressureHeadroom (si_TotalMemory systemInfo))"

text \<open>The sizes of a model's files; a path whose size is not known makes the sum unknown, that is 0.\<close>

fun file_sizes :: "(string \<Rightarrow> int option) \<Rightarrow> 64 word \<Rightarrow> string list \<Rightarrow> 64 word" where
  "file_sizes stat acc [] = acc"
| "file_sizes stat acc (path # paths) =
     (if path = [] then file_sizes stat acc paths
      else case stat path of
             None \<Rightarrow> 0
           | Some n \<Rightarrow>
               (if n < 0 \<or> word_of_int n > (-1 :: 64 word) - acc then 0
                else file_sizes stat (acc + word_of_int n) paths))"

definition modelFileSize :: "(string \<Rightarrow> int option) \<Rightarrow> string list \<Rightarrow> 64 word" where
  "modelFileSize stat paths = file_sizes stat 0 paths"

definition runnerUsesMmap :: "'cfg runner_ref \<Rightarrow> bool" where
  "runnerUsesMmap rn = (case rr_Options rn of None \<Rightarrow> True | Some opts \<Rightarrow> (case ro_UseMMap opts of None \<Rightarrow> True | Some b \<Rightarrow> b))"

text \<open>\<open>applyLlamaServerMmapDefaults\<close>; \<open>loadedMmapSize\<close> is the size of the files that loaded runners map.\<close>

definition applyLlamaServerMmapDefaults ::
  "(nat \<Rightarrow> nat) \<Rightarrow> engine_view \<Rightarrow> string \<Rightarrow> (string \<Rightarrow> int option) \<Rightarrow> 64 word \<Rightarrow> int \<Rightarrow> system_info \<Rightarrow> 'cfg load_plan \<Rightarrow> 'cfg load_plan" where
  "applyLlamaServerMmapDefaults wide ev goos stat loadedMmapSize numParallel systemInfo p =
     (let req = lp_req p; launchOpts = lp_launchOpts p; gpus = lp_gpus p;
          predictedCtx = effectiveLlamaServerContext (ro_NumCtx (lr_opts req)) (ev_trainCtx ev) numParallel (ev_unlocked ev gpus);
          predictedVRAM = ev_predict ev (lr_opts req) gpus predictedCtx;
          availableVRAM = fst (availableMemoryForPlacement systemInfo gpus launchOpts);
          off = disableMmapDefaultReason wide goos (lr_opts req) gpus (ev_BlockCount ev) predictedVRAM availableVRAM \<noteq> '''' \<or>
                disableMmapForHostPressure goos (lr_opts req) systemInfo (gpusForPlacement gpus launchOpts)
                  (modelFileSize stat (modelPaths (lr_model req))) loadedMmapSize predictedVRAM availableVRAM;
          req = (if off then req\<lparr>lr_opts := (lr_opts req)\<lparr>ro_UseMMap := Some False\<rparr>, lr_useMMapAuto := True\<rparr> else req)
      in p\<lparr>lp_req := req, lp_launchOpts := launchOpts\<lparr>ro_UseMMap := ro_UseMMap (lr_opts req)\<rparr>\<rparr>)"

end
