(* ===== verification/PlacementSpec.thy ===== *)
theory PlacementSpec
  imports LoadPlan "HOL-Library.Multiset"
begin

text \<open>The properties of placement: what a pin and the policy promise, the device that is chosen, and the batch size.\<close>

section \<open>Groups\<close>

lemma add_to_group_mset: "distinct (map fst groups) \<Longrightarrow>
    mset (concat (map snd (add_to_group x groups))) = add_mset x (mset (concat (map snd groups)))"
proof (induction groups)
  case (Cons g groups)
  obtain lib l where g: "g = (lib, l)" by (cases g)
  show ?case
  proof (cases "lib = di_Library x")
    case True
    then have "map (\<lambda>(lib, l). if lib = di_Library x then (lib, l @ [x]) else (lib, l)) groups = groups"
      using Cons.prems by (intro map_idI) (auto simp: g image_iff)
    then show ?thesis using True by (simp add: add_to_group_def g)
  next
    case False
    then show ?thesis using Cons by (cases "di_Library x \<in> fst ` set groups") (simp_all add: add_to_group_def g)
  qed
qed (simp add: add_to_group_def)

definition groups_ok :: "(string \<times> device_info list) list \<Rightarrow> bool" where
  "groups_ok groups \<longleftrightarrow> distinct (map fst groups) \<and> (\<forall>lib l. (lib, l) \<in> set groups \<longrightarrow> l \<noteq> [] \<and> (\<forall>d \<in> set l. di_Library d = lib))"

lemma add_to_group_keys: "map fst (add_to_group x groups) =
    (if di_Library x \<in> set (map fst groups) then map fst groups else map fst groups @ [di_Library x])"
  by (auto simp: add_to_group_def comp_def case_prod_beta if_distrib cong: if_cong)

lemma add_to_group_member: "(lib, l) \<in> set (add_to_group x groups) \<Longrightarrow>
    (lib, l) \<in> set groups \<or> (lib = di_Library x \<and> (\<exists>l0. l = l0 @ [x] \<and> (l0 = [] \<or> (lib, l0) \<in> set groups)))"
  by (auto simp: add_to_group_def split: if_splits)

lemma add_to_group_ok:
  assumes "groups_ok groups"
  shows "groups_ok (add_to_group x groups)"
proof -
  have "distinct (map fst (add_to_group x groups))" using assms by (simp add: groups_ok_def add_to_group_keys)
  moreover have "l \<noteq> [] \<and> (\<forall>d \<in> set l. di_Library d = lib)" if "(lib, l) \<in> set (add_to_group x groups)" for lib l
    using add_to_group_member [OF that] assms unfolding groups_ok_def by (elim disjE conjE exE) auto
  ultimately show ?thesis by (auto simp: groups_ok_def)
qed

lemma groups_fold: "groups_ok gs0 \<Longrightarrow>
    groups_ok (fold add_to_group l gs0) \<and>
    mset (concat (map snd (fold add_to_group l gs0))) = mset l + mset (concat (map snd gs0))"
proof (induction l arbitrary: gs0)
  case (Cons x l)
  have "distinct (map fst gs0)" using Cons.prems by (simp add: groups_ok_def)
  then show ?case using Cons.IH [OF add_to_group_ok [OF Cons.prems]] by (simp add: add_to_group_mset)
qed simp

lemma ByLibrary_mset: "mset (concat (ByLibrary l)) = mset l"
  using groups_fold [of "[]" l] by (simp add: ByLibrary_def groups_ok_def)

lemma ByLibrary_set: "set (concat (ByLibrary l)) = set l"
  using arg_cong [OF ByLibrary_mset, of set_mset] by (simp del: set_concat)

lemma ByLibrary_group: "g \<in> set (ByLibrary l) \<Longrightarrow> g \<noteq> [] \<and> (\<exists>lib. \<forall>d \<in> set g. di_Library d = lib) \<and> set g \<subseteq> set l"
  using groups_fold [of "[]" l] ByLibrary_set [of l] by (fastforce simp: ByLibrary_def groups_ok_def)

lemma ByLibrary_Nil: "ByLibrary l = [] \<longleftrightarrow> l = []"
proof
  assume "ByLibrary l = []"
  then show "l = []" using ByLibrary_mset [of l] by simp
qed (simp add: ByLibrary_def)




lemma opencotiPlacement_subset: "set (opencotiPlacement needs would l) \<subseteq> set l"
  using ByLibrary_set [of l] by (auto simp: opencotiPlacement_def Let_def)

lemma opencotiPlacement_Nil [simp]: "opencotiPlacement needs would l = [] \<longleftrightarrow> l = []"
  by (auto simp: opencotiPlacement_def Let_def)

section \<open>Placement chooses among the devices\<close>

definition best_ok :: "device_info list \<Rightarrow> (device_info \<times> 64 word) option \<Rightarrow> bool" where
  "best_ok gpus best \<longleftrightarrow> (\<forall>g a. best = Some (g, a) \<longrightarrow> g \<in> set gpus)"

lemma fold_inv: "P b \<Longrightarrow> (\<And>x b. x \<in> set xs \<Longrightarrow> P b \<Longrightarrow> P (f x b)) \<Longrightarrow> P (fold f xs b)"
  by (induction xs arbitrary: b) auto

lemma better_of_ok: "best_ok gpus best \<Longrightarrow> c \<in> set gpus \<Longrightarrow> best_ok gpus (better_of prio si c best)"
  by (auto simp: best_ok_def better_of_def Let_def split: option.splits prod.splits if_splits)

lemma explicit_ok: "best_ok l (bestExplicitMainGPU prio si (ByLibrary l) i)"
proof (cases "i < 0")
  case False
  have "best_ok l (fold (\<lambda>group best. if i \<ge> int (length group) then best else better_of prio si (group ! nat i) best) (ByLibrary l) None)"
  proof (rule fold_inv)
    fix group best assume "group \<in> set (ByLibrary l)" "best_ok l best"
    moreover have "group ! nat i \<in> set l" if "\<not> i \<ge> int (length group)"
      using ByLibrary_group [of group l] calculation(1) that False nth_mem [of "nat i" group] by (auto simp: subset_iff)
    ultimately show "best_ok l (if i \<ge> int (length group) then best else better_of prio si (group ! nat i) best)"
      by (simp add: better_of_ok)
  qed (simp add: best_ok_def)
  then show ?thesis using False by (simp add: bestExplicitMainGPU_def)
qed (simp add: bestExplicitMainGPU_def best_ok_def)

lemma single_ok: "best_ok l (bestSingleGPUFit prio si (ByLibrary l) predicted)"
  unfolding bestSingleGPUFit_def
proof (rule fold_inv)
  fix c best assume "c \<in> set (concat (ByLibrary l))" "best_ok l best"
  then show "best_ok l (if predicted > availableMemoryForGPU si c * 80 div 100 then best else better_of prio si c best)"
    using ByLibrary_set [of l] by (simp add: better_of_ok del: set_concat)
qed (simp add: best_ok_def)

lemma group_ok:
  assumes "l \<noteq> []"
  shows "bestGPUGroupByAvailableMemory si (ByLibrary l) \<in> set (ByLibrary l)"
proof -
  define f where "f = (\<lambda>group (best, bestAvailable). let available = fst (availableMemoryForLoad si group)
    in if best = [] \<or> betterPlacementGroup group available best bestAvailable then (group, available) else (best, bestAvailable))"
  obtain g gs where gs: "ByLibrary l = g # gs" using assms by (cases "ByLibrary l") (auto simp: ByLibrary_Nil)
  have "fst (fold f gs (f g ([], 0))) \<in> set (ByLibrary l)"
    by (rule fold_inv) (auto simp: gs f_def Let_def split: prod.splits if_splits)
  then show ?thesis unfolding gs by (simp add: bestGPUGroupByAvailableMemory_def f_def)
qed

lemma placement_among:
  "set (fst (selectLlamaServerPlacement prio spread never si l predicted opts)) \<subseteq> set l \<and>
   (fst (selectLlamaServerPlacement prio spread never si l predicted opts) = [] \<longleftrightarrow> l = [])"
proof (cases "l = []")
  case False
  note g = ByLibrary_group [OF group_ok [OF False, of si]]
  show ?thesis
    using explicit_ok [of l prio si] single_ok [of l prio si] False g
    by (auto simp: selectLlamaServerPlacement_def Let_def singleLlamaServerGPUPlacement_def best_ok_def split: option.splits)
qed (simp add: selectLlamaServerPlacement_def)

lemma planLoad_gpus: "lp_gpus (planLoad wide lower_wide env ev completion n si gpus full other req) =
    fst (selectLlamaServerPlacement (priorityOrder wide lower_wide (pe_policy env)) (schedSpread (pe_policy env) (pe_schedSpread env))
      (neverSplit (pe_policy env)) si gpus
      (ev_predict ev (lr_opts req) gpus (effectiveLlamaServerContext (ro_NumCtx (lr_opts req)) (ev_trainCtx ev) n (ev_unlocked ev gpus)))
      (lr_opts req))"
  by (simp add: planLoad_def Let_def split: prod.split)

lemma planLoad_among:
  "set (lp_gpus (planLoad wide lower_wide env ev completion n si gpus full other req)) \<subseteq> set gpus \<and>
   (lp_gpus (planLoad wide lower_wide env ev completion n si gpus full other req) = [] \<longleftrightarrow> gpus = [])"
  unfolding planLoad_gpus by (rule placement_among)

section \<open>Pins and the policy\<close>


definition available :: "(nat \<Rightarrow> nat) \<Rightarrow> placement_env \<Rightarrow> devices_pin option \<Rightarrow> (device_id \<Rightarrow> 64 word) option list \<Rightarrow> device_info list \<Rightarrow> device_info list" where
  "available lower_wide env pin runners found =
     withBackendCopies lower_wide (pe_policy env) (pe_copies env) pin (updateFreeSpace runners found)"





text \<open>C38: a model without a pin is never placed on a GPU that the policy disables, and not on a GPU through another backend than
  the one the policy chooses, when the GPU is listed under that.\<close>

theorem unpinned_model_obeys_the_policy:
  assumes "chooseDevices wide lower_wide env pin opts runners found = Inr gpus" "pin_IsZero pin"
    "all = (if ro_NumGPU opts = 0 then [] else setAsideIntegratedVulkan (available lower_wide env pin runners found))"
    "d \<in> set (lp_gpus (planLoad wide lower_wide env ev completion n si gpus full other req))"
    "policyFor wide lower_wide (pe_policy env) d all = Some s"
  shows "d \<in> set all \<and> \<not> gd_Disabled s \<and>
    (gd_Backend s \<noteq> [] \<and> di_PCIID d \<noteq> [] \<and>
      (\<exists>o' \<in> set all. di_Library o' = CanonicalBackend wide (gd_Backend s) \<and> samePCI lower_wide (di_PCIID o') (di_PCIID d)) \<longrightarrow>
     di_Library d = CanonicalBackend wide (gd_Backend s))"
proof -
  have gpus: "gpus = opencotiPlacement (pe_needsOpencoti env) (pe_wouldUseOpencoti env)
      (applyGPUPolicy wide lower_wide (pe_policy env) pin all)"
    using assms(1,2,3)
    by (cases pin) (auto simp: chooseDevices_def Let_def available_def selectModelDevices_def updateFreeSpace_def split: sum.splits if_splits)
  have "d \<in> set gpus" using planLoad_among assms(4) by (meson subsetD)
  then have d: "d \<in> set (applyGPUPolicy wide lower_wide (pe_policy env) pin all)"
    using opencotiPlacement_subset gpus by blast
  have "\<not> settings_IsZero (pe_policy env)"
    using assms(5) by (auto simp: policyFor_def settings_Lookup_def settings_Device_def settings_IsZero_def split: option.splits if_splits)
  then show ?thesis
    using d assms(2,5) by (auto simp: applyGPUPolicy_def Let_def preferredBackend_def list_ex_iff split: if_splits)
qed

section \<open>One device\<close>









section \<open>Batch\<close>





end
