(* ===== verification/PlacementExamples.thy ===== *)
theory PlacementExamples
  imports PlacementSpec
begin

text \<open>The properties of placement on two machines.\<close>

section \<open>A card and an integrated GPU\<close>

definition card :: device_info where
  "card = \<lparr>di_ID = ''0'', di_Library = ''CUDA'', di_Name = ''CUDA0'', di_Description = ''RTX 3090'', di_FilterID = [],
     di_Integrated = False, di_PCIID = ''0000:01:00.0'', di_TotalMemory = 24000000000, di_FreeMemory = 20000000000\<rparr>"

definition igpu :: device_info where
  "igpu = \<lparr>di_ID = ''0'', di_Library = ''Vulkan'', di_Name = ''Vulkan0'', di_Description = ''Radeon'', di_FilterID = [],
     di_Integrated = True, di_PCIID = ''0000:18:00.0'', di_TotalMemory = 64000000000, di_FreeMemory = 60000000000\<rparr>"

definition card_vulkan :: device_info where
  "card_vulkan = card\<lparr>di_ID := ''1'', di_Library := ''Vulkan'', di_Name := ''Vulkan1''\<rparr>"

definition system0 :: system_info where
  "system0 = \<lparr>si_TotalMemory = 64000000000, si_FreeMemory = 50000000000, si_FreeSwap = 0\<rparr>"

definition opts0 :: runner_opts where
  "opts0 = \<lparr>ro_NumCtx = 8192, ro_NumBatch = 0, ro_NumGPU = -1, ro_MainGPU = None, ro_UseMMap = None, ro_NumThread = 0,
     ro_DraftNumPredict = 0\<rparr>"

definition model0 :: "unit model" where
  "model0 = \<lparr>m_Name = ''m'', m_ShortName = ''m'', m_ModelPath = ''m'', m_ModelShardPaths = [], m_AdapterPaths = [], m_ProjectorPaths = [],
     m_Digest = [], m_ManifestDigest = [], m_ModelFormat = [], m_ModelFamily = [], m_ModelFamilies = [], m_Capabilities = [],
     m_decisionType = [], m_media = None, m_vision = False, m_wholePool = False, m_config = ()\<rparr>"

definition request0 :: "unit llm_request" where
  "request0 = new_request 1 model0 opts0 None False True None False"

definition view0 :: engine_view where
  "view0 = \<lparr>ev_trainCtx = 131072, ev_BlockCount = 32, ev_decisionBlocks = 0, ev_unlocked = (\<lambda>_. False),
     ev_predict = (\<lambda>_ _ _. 5000000000), ev_weights = 4000000000, ev_flashOff = (\<lambda>_. False), ev_opencoti = (\<lambda>_. False)\<rparr>"

definition env0 :: placement_env where
  "env0 = \<lparr>pe_policy = None, pe_copies = [card_vulkan], pe_schedSpread = False, pe_needsOpencoti = False, pe_wouldUseOpencoti = (\<lambda>_. False)\<rparr>"

definition pin0 :: devices_pin where
  "pin0 = \<lparr>dp_Backend = ''Vulkan'', dp_IDs = [''18:00.0'']\<rparr>"

definition nofold :: "nat \<Rightarrow> nat" where
  "nofold c = c"

lemmas example_machine = card_def igpu_def card_vulkan_def system0_def opts0_def model0_def request0_def view0_def env0_def pin0_def nofold_def

text \<open>PCI addresses.\<close>

lemma to_lower_plain:
  assumes "\<forall>c \<in> set s. of_char c < (65 :: nat)"
  shows "to_lower lower_wide s = s"
proof -
  have "list_all (\<lambda>c. of_char c < (128 :: nat) \<and>
      Some (if 65 \<le> (of_char c :: nat) \<and> of_char c \<le> (90 :: nat) then of_char c + 32 else if of_char c < (128 :: nat) then of_char c
        else lower_wide (of_char c)) = Some (of_char c)) s"
    using assms by (auto simp: list_all_iff)
  from map_runes_id [OF this, of "[]"] show ?thesis by (simp add: to_lower_def)
qed

lemma trim_space_plain:
  "s \<noteq> [] \<Longrightarrow> of_char (hd s) < (128 :: nat) \<Longrightarrow> of_char (last s) < (128 :: nat) \<Longrightarrow> \<not> is_space (of_char (hd s)) \<Longrightarrow>
   \<not> is_space (of_char (last s)) \<Longrightarrow> trim_space s = s"
  by (cases s) (simp_all add: trim_space_def trim_right_ascii trim_left_ascii)

lemma runes_of_ascii: "of_char c < (128 :: nat) \<Longrightarrow> runes_of (c # s) = of_char c # runes_of s" "runes_of [] = []"
  using decode_rune_enc [OF is_enc_ascii, of c s] by (subst runes_of.simps; simp add: rune_value_bytes_def)+

lemma canonical_long:
  "trim_space s = s \<Longrightarrow> \<forall>c \<in> set s. of_char c < (65 :: nat) \<Longrightarrow> pciIDRegex s \<Longrightarrow> length (filter (\<lambda>c. c = CHR '':'') s) \<noteq> 1 \<Longrightarrow>
   CanonicalPCIID lower_wide s = Some s"
  by (simp add: CanonicalPCIID_def to_lower_plain)

lemma canonical_short:
  "trim_space s = s \<Longrightarrow> \<forall>c \<in> set s. of_char c < (65 :: nat) \<Longrightarrow> pciIDRegex s \<Longrightarrow> length (filter (\<lambda>c. c = CHR '':'') s) = 1 \<Longrightarrow>
   CanonicalPCIID lower_wide s = Some (''0000:'' @ s)"
  by (simp add: CanonicalPCIID_def to_lower_plain)

lemma pci_forms:
  "pciIDRegex ''18:00.0''" "pciIDRegex ''01:00.0''" "pciIDRegex ''0000:18:00.0''" "pciIDRegex ''0000:01:00.0''"
  by code_simp+

lemma pci_addresses:
  "CanonicalPCIID nofold ''18:00.0'' = Some ''0000:18:00.0''" "CanonicalPCIID nofold ''01:00.0'' = Some ''0000:01:00.0''"
  "CanonicalPCIID nofold ''0000:18:00.0'' = Some ''0000:18:00.0''" "CanonicalPCIID nofold ''0000:01:00.0'' = Some ''0000:01:00.0''"
  using canonical_short [OF _ _ pci_forms(1), of nofold] canonical_short [OF _ _ pci_forms(2), of nofold]
    canonical_long [OF _ _ pci_forms(3), of nofold] canonical_long [OF _ _ pci_forms(4), of nofold]
  by (simp_all add: trim_space_plain is_space_def)

lemma example_pci: "di_PCIID card = ''0000:01:00.0''" "di_PCIID igpu = ''0000:18:00.0''" "di_PCIID card_vulkan = ''0000:01:00.0''"
  by (simp_all add: example_machine)

lemma example_library: "di_Library card = ''CUDA''" "di_Library igpu = ''Vulkan''" "di_Library card_vulkan = ''Vulkan''"
  by (simp_all add: example_machine)




section \<open>A policy\<close>

definition policy0 :: gpu_settings where
  "policy0 = \<lparr>gs_Devices = [\<lparr>gd_ID = ''01:00.0'', gd_Disabled = False, gd_Priority = 5, gd_Backend = ''Vulkan'', gd_LinkGBps = 0\<rparr>],
     gs_SplitPolicy = [], gs_SplitMode = []\<rparr>"

definition env1 :: placement_env where
  "env1 = env0\<lparr>pe_policy := Some policy0\<rparr>"

lemma key_pci: "CanonicalPCIID lower_wide s = Some p \<Longrightarrow> CanonicalDeviceKey wide lower_wide s = Some p"
  by (simp add: CanonicalDeviceKey_def)

lemma policyFor_card:
  assumes "di_PCIID d = ''0000:01:00.0''" "gs_Devices g = [e]" "gd_ID e = ''01:00.0''"
  shows "policyFor nofold nofold (Some g) d all = Some e"
  using assms by (simp add: policyFor_def settings_Lookup_def settings_Device_def pci_addresses key_pci [OF pci_addresses(4)]
      key_pci [OF pci_addresses(2)] sameDeviceKey_def)

lemma choose_unpinned: "chooseDevices nofold nofold env1 None opts0 [] [card] = Inr [card_vulkan]"
  and all_unpinned: "setAsideIntegratedVulkan (available nofold env1 None [] [card]) = [card, card_vulkan]"
proof -
  have a: "withBackendCopies nofold (Some policy0) [card_vulkan] None [card] = [card, card_vulkan]"
    by (simp add: withBackendCopies_def wantsBackend_def pin_IsZero_def policy0_def add_copy_def samePCI_def example_pci pci_addresses)
      (simp add: card_def card_vulkan_def)
  show all: "setAsideIntegratedVulkan (available nofold env1 None [] [card]) = [card, card_vulkan]"
    using a by (simp add: available_def env1_def env0_def updateFreeSpace_def free_left_def setAsideIntegratedVulkan_def isIntegratedVulkan_def
        card_def card_vulkan_def)
  have e: "gs_Devices policy0 = [hd (gs_Devices policy0)]" "gd_ID (hd (gs_Devices policy0)) = ''01:00.0''"
    "\<not> gd_Disabled (hd (gs_Devices policy0))" "gd_Backend (hd (gs_Devices policy0)) = ''Vulkan''" "gs_Devices policy0 \<noteq> []"
    by (simp_all add: policy0_def)
  note pol = policyFor_card [OF example_pci(1) e(1,2)] policyFor_card [OF example_pci(3) e(1,2)]
  have b: "CanonicalBackend nofold ''Vulkan'' = ''Vulkan''"
    by (simp add: CanonicalBackend_def validBackends_def trim_space_plain is_space_def equal_fold_def runes_of_ascii fold_key_def)
  have "applyGPUPolicy nofold nofold (Some policy0) None [card, card_vulkan] = [card_vulkan]"
    using e by (simp add: applyGPUPolicy_def settings_IsZero_def pin_IsZero_def pol preferredBackend_def b samePCI_def example_pci pci_addresses)
      (simp add: card_def card_vulkan_def)
  then show "chooseDevices nofold nofold env1 None opts0 [] [card] = Inr [card_vulkan]"
    using all by (simp add: chooseDevices_def available_def env1_def env0_def opts0_def updateFreeSpace_def selectModelDevices_def
        opencotiPlacement_def)
qed

lemma unpinned_model_obeys_the_policy_witness:
  "set (lp_gpus (planLoad nofold nofold env1 view0 True 1 system0 [card_vulkan] True True request0)) = {card_vulkan} \<and>
   \<not> gd_Disabled (hd (gs_Devices policy0)) \<and> di_Library card_vulkan = CanonicalBackend nofold ''Vulkan''"
proof -
  have pl: "lp_gpus (planLoad nofold nofold env1 view0 True 1 system0 [card_vulkan] True True request0) = [card_vulkan]"
    by (simp add: planLoad_gpus selectLlamaServerPlacement_def)
  then have d: "card_vulkan \<in> set (lp_gpus (planLoad nofold nofold env1 view0 True 1 system0 [card_vulkan] True True request0))" by simp
  have z: "pin_IsZero None" "[card, card_vulkan] =
      (if ro_NumGPU opts0 = 0 then [] else setAsideIntegratedVulkan (available nofold env1 None [] [card]))"
    by (simp_all add: pin_IsZero_def opts0_def all_unpinned)
  have f: "policyFor nofold nofold (pe_policy env1) card_vulkan [card, card_vulkan] = Some (hd (gs_Devices policy0))"
    using policyFor_card [OF example_pci(3), of policy0 "hd (gs_Devices policy0)" "[card, card_vulkan]"]
    by (simp add: env1_def policy0_def)
  from unpinned_model_obeys_the_policy [OF choose_unpinned z d f]
  have r: "\<not> gd_Disabled (hd (gs_Devices policy0)) \<and>
      (\<exists>o' \<in> set [card, card_vulkan]. di_Library o' = CanonicalBackend nofold ''Vulkan'' \<and> samePCI nofold (di_PCIID o') (di_PCIID card_vulkan)
        \<longrightarrow> di_Library card_vulkan = CanonicalBackend nofold ''Vulkan'')"
    by (simp add: policy0_def example_pci)
  have "CanonicalBackend nofold ''Vulkan'' = ''Vulkan''"
    by (simp add: CanonicalBackend_def validBackends_def trim_space_plain is_space_def equal_fold_def runes_of_ascii fold_key_def)
  then show ?thesis using pl r by (simp add: example_library)
qed

text \<open>When the backend that the policy chooses does not list the GPU, both of the others remain.\<close>

definition env2 :: placement_env where
  "env2 = env0\<lparr>pe_policy := Some \<lparr>gs_Devices = [\<lparr>gd_ID = ''01:00.0'', gd_Disabled = False, gd_Priority = 5, gd_Backend = ''ROCm'', gd_LinkGBps = 0\<rparr>],
     gs_SplitPolicy = [], gs_SplitMode = []\<rparr>\<rparr>"

lemma unavailable_choice_keeps_both:
  "chooseDevices nofold nofold env2 None opts0 [] [card] = Inr [card, card_vulkan] \<and> samePCI nofold (di_PCIID card) (di_PCIID card_vulkan)"
proof -
  define g :: gpu_settings where "g = the (pe_policy env2)"
  have e: "gs_Devices g = [hd (gs_Devices g)]" "gd_ID (hd (gs_Devices g)) = ''01:00.0''" "\<not> gd_Disabled (hd (gs_Devices g))"
    "gd_Backend (hd (gs_Devices g)) = ''ROCm''" "gs_Devices g \<noteq> []" "pe_policy env2 = Some g"
    by (simp_all add: g_def env2_def)
  note pol = policyFor_card [OF example_pci(1) e(1,2)] policyFor_card [OF example_pci(3) e(1,2)]
  have a: "withBackendCopies nofold (Some g) [card_vulkan] None [card] = [card, card_vulkan]"
    by (simp add: withBackendCopies_def wantsBackend_def pin_IsZero_def g_def env2_def add_copy_def samePCI_def example_pci pci_addresses)
      (simp add: card_def card_vulkan_def)
  have b: "CanonicalBackend nofold ''ROCm'' = ''ROCm''"
    by (simp add: CanonicalBackend_def validBackends_def trim_space_plain is_space_def equal_fold_def runes_of_ascii fold_key_def)
  have c: "applyGPUPolicy nofold nofold (Some g) None [card, card_vulkan] = [card, card_vulkan]"
    using e by (simp add: applyGPUPolicy_def settings_IsZero_def pin_IsZero_def pol preferredBackend_def b example_pci example_library
        gpuPriority_def)
  have s: "setAsideIntegratedVulkan [card, card_vulkan] = [card, card_vulkan]"
    by (simp add: setAsideIntegratedVulkan_def isIntegratedVulkan_def card_def card_vulkan_def)
  have p: "pe_copies env2 = [card_vulkan]" "\<not> pe_needsOpencoti env2" by (simp_all add: env2_def env0_def)
  show ?thesis
    using a c s e(6) p by (simp add: chooseDevices_def opts0_def updateFreeSpace_def free_left_def selectModelDevices_def opencotiPlacement_def
        samePCI_def example_pci pci_addresses)
qed

section \<open>One device and the batch\<close>



end
