(* ===== verification/Spec2Isabelle.thy ===== *)
theory Spec2Isabelle
  imports ThinkingParser HarmonyHandler ModelName ApiTypes Olmo3Think Qwen3 DeepSeek3 Cogito ModelfileRoundTrip
    ReuseLayers KVSpec SpeculationSpec SchedSpec PlacementExamples
begin

text \<open>
  A verification development for xollama, a server that runs language models.  The server takes a request, turns
  its messages into a prompt (templates, \<open>model/renderers\<close>), lets a runner evaluate the prompt and sample tokens
  (\<open>mlxrunner\<close>, \<open>llm\<close>), and parses the generated text back into thinking, content and tool calls while it is still
  streaming (\<open>thinking\<close>, \<open>harmony\<close>, \<open>model/parsers\<close>).  Models are addressed by names (\<open>types/model\<close>) and described
  by Modelfiles (\<open>parser\<close>).  A scheduler decides which models are loaded, and on which devices (\<open>server/sched.go\<close>).
  Modelled are: the streaming parsers, the names, the Modelfile, the thinking controls of a request, the scheduler with the
  choice of devices, the prefix cache that lets a request continue from the keys and values of an earlier one, and the
  rounds of speculative decoding on its caches.

  \<^bold>\<open>Libraries.\<close>  \<open>Prelude\<close>: generic lemmas and the collections \<open>str_simps\<close>, \<open>eat_simps\<close>.  \<open>GoStrings\<close>, \<open>GoUtf8\<close>,
  \<open>GoPath\<close>, \<open>GoStrconv\<close>: what the code uses of Go's strings, unicode, filepath and strconv packages.  A Go string is a list of bytes.
  A pointer that may be nil and a result with an error are options or sums of the source's errors; a panic is
  \<open>None\<close>.  Integers are at their width where an overflow matters (\<open>wrap64\<close> in \<open>ApiTypes\<close>), and unbounded where
  they count bytes, tokens or nodes that exist in memory.

  \<^bold>\<open>Streaming parsers.\<close>  \<open>Streaming\<close> models the shared helpers (\<open>overlap\<close>, \<open>splitAtTag\<close>, \<open>trailingWhitespaceLen\<close>) and
  the loop over \<open>eat\<close> as the partial function \<open>drain\<close>, whose value is \<open>None\<close> when the loop does not end.  The locale
  \<open>draining\<close> is the contract that makes it end, \<open>streaming\<close> the one that makes a parser insensitive to how its input
  is cut; each parser interprets them on its own \<open>eat\<close>.
    \<^item> \<open>ThinkingParser\<close> is \<open>thinking/parser.go\<close>: the parser against a specification, and chunk invariance.
    \<^item> \<open>Harmony\<close>, \<open>HarmonyHandler\<close>, \<open>FunctionNames\<close> are \<open>harmony/harmonyparser.go\<close>: the event parser, the message
      handler over it, and the map of function names with its freshness and round-trip properties.
    \<^item> \<open>ParserCommon\<close>, \<open>Qwen3\<close>, \<open>DeepSeek3\<close>, \<open>Cogito\<close>, \<open>Olmo3Think\<close> are the parsers of these names in
      \<open>model/parsers\<close>: \<open>Add\<close> returns; what it returns does not depend on the chunks, up to the white space and the
      split tags the lemmas name; an answer written in the model's format is read back.

  \<^bold>\<open>Requests, names and files.\<close>
    \<^item> \<open>ApiTypes\<close>: the types of \<open>api/types.go\<close> the parsers use, \<open>types/model/thinking.go\<close> and \<open>think_budget.go\<close>: bounds
      of budgets and windows, validity.
    \<^item> \<open>ModelName\<close> is \<open>types/model/name.go\<close>: parsing, printing, file paths, their round trips.
    \<^item> \<open>Modelfile\<close>, \<open>ModelfileClean\<close>, \<open>ModelfileRoundTrip\<close> are the parser and printer of \<open>parser/parser.go\<close>: what it
      delivers is clean, and what is printed is read back.

  \<^bold>\<open>Scheduler.\<close>  One request at a time is brought to a runner: a loaded one, or a new one after others were unloaded.
    \<^item> \<open>SchedTypes\<close> has the data of \<open>server/sched.go\<close> and \<open>load_caps.go\<close> and their pure functions: the key of a model, the
      reload test, the choice of the runner to unload, the caps.
    \<^item> \<open>Scheduler\<close> is the step relation \<open>sched_step\<close> over the record \<open>sched\<close>: the loops \<open>processPending\<close> and
      \<open>processCompleted\<close>, callers, timers and waiting goroutines, one step between two points at which locks are released.
      A channel holds at most \<open>se_MaxQueue\<close> entries, which is at least 1 in every run that sends; channels are queues, so
      what the code sends while it holds a lock is one step.  What a load meets (files, memory, the server's answers) is chosen
      by the environment.
    \<^item> \<open>SchedInv\<close> (well-formed states), \<open>SchedCounts\<close> (counters of users, what keeps an idle runner from staying),
      \<open>SchedRoom\<close> (bounds on loaded models) and \<open>SchedWake\<close> (signals) have invariants by rule induction over \<open>sched_reach\<close>,
      whose second argument restricts the steps: \<open>fresh\<close> demands that a runner is not unloaded between the lookup of a request
      and its use, and that a new runner has a process id no other has; \<open>SchedExamples\<close> has runs, \<open>SchedSpec\<close> the
      properties, among them two runs in which the scheduler goes wrong.

  \<^bold>\<open>Devices.\<close>
    \<^item> \<open>DeviceNames\<close> is \<open>types/xollama/device_name.go\<close>, \<open>devices.go\<close> and \<open>gpu.go\<close>: names of devices, a model's pin, the
      server's policy.
    \<^item> \<open>Placement\<close> is \<open>server/device_select.go\<close>, \<open>xollama_gpu.go\<close>, \<open>backend_copies.go\<close>, \<open>placement_opencoti.go\<close> and the
      placement in \<open>sched.go\<close>; \<open>LoadPlan\<close> puts them together as \<open>processPending\<close> (\<open>chooseDevices\<close>) and \<open>load\<close> (\<open>planLoad\<close>)
      do, with the free memory, the batch size, the eviction test and the mapping of the file.  Memory is \<open>64 word\<close>.
    \<^item> \<open>PlacementSpec\<close>: a pin is kept, the policy is obeyed, the device is the best one, the batch fits;
      \<open>PlacementExamples\<close> applies this to two machines.

  \<^bold>\<open>Prefix cache.\<close>  A trie of token keys whose nodes hold snapshots of the state of the model's layers; the live
  caches of the layers hold the state of one path, the active one.
    \<^item> \<open>CacheTrie\<close> is \<open>mlxrunner/cache_trie.go\<close>: a store of nodes with parent and child pointers and the counter of
      paged-out bytes.  \<open>CacheTrieInv\<close>, \<open>CacheTrieOps\<close>: \<open>trie_wf\<close> and \<open>balanced\<close>, kept by each operation.
      \<open>CacheTrieMatch\<close>, \<open>CacheTrieWalk\<close>: what a trie stores, the best match, the walk over the nodes.
    \<^item> \<open>PrefixCache\<close> is \<open>mlxrunner/prefix_cache.go\<close>, over the record \<open>cache_ops\<close>, the interface \<open>cache.Cache\<close> of
      \<open>mlxrunner/cache/cache.go\<close>.  \<open>PrefixCacheInv\<close> has its invariant \<open>pc_inv\<close>, \<open>PrefixCacheEvict\<close>, \<open>PrefixCachePath\<close>,
      \<open>PrefixCacheSession\<close>, \<open>PrefixCacheBegin\<close> the operations: each returns, keeps the invariant, and is described
      by the keys the active path spells.  The locale \<open>live_cache\<close> of \<open>LiveCache\<close> is the contract of a layer's cache.
      \<open>PrefixCacheSteps\<close> is the life of the cache as a step relation with its invariant by rule induction.
    \<^item> \<open>SnapshotSchedule\<close> is the schedule of captures of \<open>cache.go\<close>, \<open>HiddenCache\<close> the cache of \<open>cache/hidden.go\<close> on
      which \<open>live_cache\<close> is interpreted.  \<open>PrefixCacheSpec\<close> has the properties of the structure.
    \<^item> What the snapshots contain: \<open>pc_inv\<close> takes the condition on a node's snapshots as an argument, and
      \<open>kept_slots\<close> is what the trie operations need of it.  \<open>SnapshotContent\<close> has the condition that a snapshot covers
      the keys of the path to its node (\<open>slots_ok\<close>; \<open>slot_laws\<close> are the laws of split and merge), \<open>FaithfulCache\<close> the
      contract of a cache that computes such snapshots, \<open>FaithfulSession\<close> and \<open>FaithfulRunner\<close> its consequences for
      a request and for the life of the cache, \<open>HiddenFaithful\<close> the interpretation on the cache of hidden outputs
      (\<open>ReuseSpec\<close> applies it).
    \<^item> \<open>KVCache\<close> is the attention cache of \<open>cache/kvcache.go\<close>.  Its snapshots name ranges of the live buffer until a write would
      overwrite them, so it is modelled over a store of caches and snapshots, with pointers as addresses.  \<open>KVRows\<close> is its
      abstract specification: lists of rows, snapshots as values.  \<open>KVInv\<close> has the invariant of the store and what a
      snapshot denotes, \<open>KVRefine\<close>, \<open>KVSnapshots\<close>, \<open>KVExec\<close> and \<open>KVLazy\<close> the operations (copying out, appending, capturing,
      restoring, splitting, merging), \<open>KVSpec\<close> the refinement of every operation and the life of a snapshot.
    \<^item> \<open>KVFaithful\<close> interprets the contract \<open>rewinding_cache\<close> on the specification of the attention cache.  \<open>CacheSum\<close> (locale
      \<open>two_kinds\<close>, and \<open>two_rewinding\<close> for caches that can go back to any offset) shows that layers of two kinds satisfy the
      contract when each kind does, and \<open>ReuseLayers\<close> has the property of the whole: the rows a request finds after
      \<open>begin\<close> in every layer are those its own tokens would have produced.
    \<^item> \<open>RecurrentCache\<close> is the cache of recurrent layers, \<open>cache/recurrent.go\<close>, whose state cannot be rewound but is captured
      at scheduled offsets; \<open>RecurrentFaithful\<close> interprets \<open>faithful_cache\<close> on it.

  \<^bold>\<open>Speculative decoding.\<close>  \<open>Speculation\<close> is a round of \<open>mlxrunner/speculate.go\<close>: \<open>scheduleSpeculation\<close> asks every cache for
  captures, the forward pass (an argument) writes the drafts, \<open>accept\<close> finds what survives and \<open>commitSpeculation\<close> rolls the
  caches back to it.  \<open>Rollback\<close> has the contract this relies on, the locale \<open>rollback_cache\<close>, with its interpretations on the
  three caches and on pairs of kinds (\<open>two_rollback\<close>); \<open>SpeculationSpec\<close> the tokens a round emits and the state it leaves in
  attention and recurrent layers, also when it fails.

  \<^bold>\<open>Loops.\<close>  Loops that may run forever are \<open>partial_function (option)\<close> (\<open>drain\<close>, \<open>derive_loop\<close>, \<open>walk_stack\<close>,
  \<open>evict_loop\<close>, \<open>close_stack\<close>), and that they return is proved.  No fuel is used.

  \<^bold>\<open>Parameters.\<close>  Code that is not in the repository is an argument: decoding of JSON (\<open>unmarshal\<close>), the Unicode tables
  beyond Latin-1 (\<open>wide\<close>, \<open>is_print\<close>, lower-casing), parsing of floating-point numbers, the clock, and what the layers
  keep in device arrays (\<open>cache_ops\<close>, the bytes of a row).  So is what a model's file and the engine say of a load
  (\<open>engine_view\<close>, \<open>preflight\<close>, \<open>load_answer\<close>), and what a speculative round computes (\<open>round_values\<close>, \<open>forward\<close>, \<open>grammar\<close>).

  \<^bold>\<open>Not modelled.\<close>  Logging; the routes and the process management of the server, which are input and output around
  third-party libraries; of the scheduler the shutdown, the status reports and a queue of length 0; the device code of the
  runners, the cache of sliding windows, drafters and the timing of speculation; renderers and the further parsers of \<open>model/parsers\<close>; conversion and storage of model files; the command line
  and the application.  The prefix cache runs on the specification of the attention cache, not on its store: that each
  operation of the store refines the specification is proved, the composition with the trie is not.
\<close>

end
